(* ===== verification/Prelude.thy ===== *)
theory Prelude
  imports Main "HOL-Library.Word" "HOL-Library.Monad_Syntax" "HOL-Library.List_Lexorder"
begin

text \<open>
  Shared vocabulary of the development.

  A byte of memory is an \<open>8 word\<close> and a buffer is a list of bytes.  A raw pointer
  \<open>const byte_t*\<close> is the list of the bytes that can be read from it on, so pointer
  arithmetic \<open>p + n\<close> is \<open>drop n p\<close>.  The unsigned counters \<open>size_t\<close> and
  \<open>uint64_t\<close> are natural numbers; wherever the code stores a counter in a field of fixed
  width the truncation is written out by \<open>le_bytes\<close>.

  A computation of the code that can abort the process (the \<open>CHECK\<close> macros of
  include/utils/logging.h end in \<open>abort()\<close>; reads and writes outside a buffer) returns an
  \<open>option\<close>, with None for the abort.
\<close>

type_synonym byte = "8 word"
type_synonym bytes = "byte list"

named_theorems codec "equations that unfold the fixed-width codecs"
named_theorems bufs "equations on buffer reads and writes"

section \<open>Aborting checks\<close>

definition CHECK :: "bool \<Rightarrow> unit option" where
  "CHECK b = (if b then Some () else None)"

lemma CHECK_simps [simp]:
  "CHECK True = Some ()"
  "CHECK False = None"
  "(CHECK b = Some u) = b"
  "(CHECK b = None) = (\<not> b)"
  by (auto simp: CHECK_def)

lemma bind_CHECK_eq_Some [simp]:
  "(Option.bind (CHECK b) f = Some y) = (b \<and> f () = Some y)"
  by (cases b) auto

section \<open>Little-endian integers of fixed width\<close>

fun le_bytes :: "nat \<Rightarrow> nat \<Rightarrow> bytes" where
  "le_bytes 0 n = []"
| "le_bytes (Suc k) n = word_of_nat n # le_bytes k (n div 256)"

fun le_val :: "bytes \<Rightarrow> nat" where
  "le_val [] = 0"
| "le_val (b # bs) = unat b + 256 * le_val bs"

lemma length_le_bytes [simp]: "length (le_bytes k n) = k"
  by (induction k n rule: le_bytes.induct) auto

lemma le_bytes_eq_Nil [simp]: "le_bytes k n = [] \<longleftrightarrow> k = 0"
  using length_le_bytes[of k n] by (metis length_0_conv)

lemma unat_byte_less [simp]: "unat (b :: byte) < 256"
proof -
  have "unat b < 2 ^ LENGTH(8)"
    by (rule unsigned_less)
  then show ?thesis by simp
qed

lemma unat_byte_of_nat: "unat (word_of_nat n :: byte) = n mod 256"
  by (simp add: unat_of_nat)

lemma le_val_le_bytes: "le_val (le_bytes k n) = n mod 256 ^ k"
proof (induction k n rule: le_bytes.induct)
  case (2 k n)
  have "n mod 256 + 256 * (n div 256 mod 256 ^ k) = n mod (256 * 256 ^ k)"
    by (simp add: mod_mult2_eq)
  with 2 show ?case
    by (simp add: unat_byte_of_nat)
qed simp

lemma le_val_le_bytes_id [simp]: "n < 256 ^ k \<Longrightarrow> le_val (le_bytes k n) = n"
  by (simp add: le_val_le_bytes)

lemma le_val_less: "le_val bs < 256 ^ length bs"
proof (induction bs)
  case (Cons b bs)
  have "256 * Suc (le_val bs) \<le> 256 * 256 ^ length bs"
    using Cons by (intro mult_le_mono2) simp
  then have "256 + 256 * le_val bs \<le> 256 ^ length (b # bs)"
    by simp
  then show ?case
    using unat_byte_less[of b] unfolding le_val.simps by linarith
qed simp

lemma le_bytes_le_val: "length bs = k \<Longrightarrow> le_bytes k (le_val bs) = bs"
proof (induction bs arbitrary: k)
  case (Cons b bs)
  have b: "unat b < 256"
    by simp
  have "(word_of_nat (unat b + 256 * le_val bs) :: byte) = b"
    by (rule word_unat_eq_iff[THEN iffD2]) (use b in \<open>simp only: unat_byte_of_nat, simp\<close>)
  with Cons b show ?case
    by auto
qed simp

lemma le_bytes_inj:
  "le_bytes k m = le_bytes k n \<longleftrightarrow> m mod 256 ^ k = n mod 256 ^ k"
proof
  assume "le_bytes k m = le_bytes k n"
  then have "le_val (le_bytes k m) = le_val (le_bytes k n)" by simp
  then show "m mod 256 ^ k = n mod 256 ^ k" by (simp add: le_val_le_bytes)
next
  assume "m mod 256 ^ k = n mod 256 ^ k"
  then have "le_bytes k (le_val (le_bytes k m)) = le_bytes k (le_val (le_bytes k n))"
    by (simp add: le_val_le_bytes)
  then show "le_bytes k m = le_bytes k n"
    by (simp add: le_bytes_le_val)
qed

section \<open>Reads and writes of a buffer\<close>

text \<open>
  \<open>rd k p off\<close> is \<open>*reinterpret_cast<const uintN_t*>(p + off)\<close> for an integer of
  \<open>k\<close> bytes on a little-endian machine, \<open>rd_bytes\<close> is the copy of \<open>n\<close> bytes from
  \<open>p + off\<close>, and \<open>memcpy buf off src\<close> is \<open>std::memcpy(buf + off, src, ...)\<close>.
  All three are None outside the buffer.
\<close>

definition rd_bytes :: "nat \<Rightarrow> bytes \<Rightarrow> nat \<Rightarrow> bytes option" where
  "rd_bytes n p off = (if off + n \<le> length p then Some (take n (drop off p)) else None)"

definition rd :: "nat \<Rightarrow> bytes \<Rightarrow> nat \<Rightarrow> nat option" where
  "rd k p off = map_option le_val (rd_bytes k p off)"

definition memcpy :: "bytes \<Rightarrow> nat \<Rightarrow> bytes \<Rightarrow> bytes option" where
  "memcpy buf off src =
     (if off + length src \<le> length buf
      then Some (take off buf @ src @ drop (off + length src) buf) else None)"

lemma rd_bytes_append [bufs]:
  "length pre = off \<Longrightarrow> length x = n \<Longrightarrow> rd_bytes n (pre @ x @ post) off = Some x"
  by (simp add: rd_bytes_def)

lemma rd_append [bufs]:
  "length pre = off \<Longrightarrow> rd k (pre @ le_bytes k v @ post) off = Some (v mod 256 ^ k)"
  by (simp add: rd_def rd_bytes_append le_val_le_bytes)

lemma rd_0_append [bufs]: "rd k (le_bytes k v @ post) 0 = Some (v mod 256 ^ k)"
  using rd_append[of "[]" 0] by simp

lemma rd_bytes_eq_Some_length: "rd_bytes n p off = Some x \<Longrightarrow> length x = n"
  by (auto simp: rd_bytes_def split: if_splits)

lemma rd_less: "rd k p off = Some v \<Longrightarrow> v < 256 ^ k"
  using le_val_less by (fastforce simp: rd_def dest: rd_bytes_eq_Some_length)

lemma rd_prefix: "rd k p off = Some v \<Longrightarrow> rd k (p @ q) off = Some v"
  by (auto simp: rd_def rd_bytes_def split: if_splits)

lemma rd_bytes_prefix: "rd_bytes k p off = Some v \<Longrightarrow> rd_bytes k (p @ q) off = Some v"
  by (auto simp: rd_bytes_def split: if_splits)

lemma rd_drop: "rd k (drop n p) off = rd k p (n + off)" if "n \<le> length p"
  using that by (auto simp: rd_def rd_bytes_def add.commute)

lemma rd_bytes_drop: "rd_bytes k (drop n p) off = rd_bytes k p (n + off)" if "n \<le> length p"
  using that by (auto simp: rd_bytes_def add.commute)

lemma length_memcpy: "memcpy buf off src = Some b \<Longrightarrow> length b = length buf"
  by (auto simp: memcpy_def split: if_splits)

text \<open>A write right behind what is already written extends the written prefix.\<close>

lemma memcpy_append [bufs]:
  "length pre = off \<Longrightarrow> length src \<le> length rest \<Longrightarrow>
   memcpy (pre @ rest) off src = Some ((pre @ src) @ drop (length src) rest)"
  by (simp add: memcpy_def)

lemma memcpy_fresh [bufs]:
  "length src \<le> length rest \<Longrightarrow> memcpy rest 0 src = Some (src @ drop (length src) rest)"
  by (simp add: memcpy_def)

text \<open>Subtraction of \<open>size_t\<close> values wraps around.\<close>

definition sub64 :: "nat \<Rightarrow> nat \<Rightarrow> nat" where
  "sub64 a b = (if b \<le> a then a - b else a + 2 ^ 64 - b)"

lemma sub64_le [simp]: "b \<le> a \<Longrightarrow> sub64 a b = a - b"
  by (simp add: sub64_def)

text \<open>Access to a vector by index, None outside of it.\<close>

definition nth_opt :: "'a list \<Rightarrow> nat \<Rightarrow> 'a option" where
  "nth_opt xs i = (if i < length xs then Some (xs ! i) else None)"

lemma nth_opt_Some [simp]: "i < length xs \<Longrightarrow> nth_opt xs i = Some (xs ! i)"
  by (simp add: nth_opt_def)

section \<open>Byte-wise comparison\<close>

text \<open>
  \<open>memcmp a b\<close> is the sign of \<open>std::memcmp(a, b, n)\<close> on two buffers of the same
  length \<open>n\<close>: the first differing byte decides, as unsigned values.
\<close>

fun memcmp :: "bytes \<Rightarrow> bytes \<Rightarrow> int" where
  "memcmp (a # as) (b # bs) = (if a < b then -1 else if b < a then 1 else memcmp as bs)"
| "memcmp _ _ = 0"

lemma memcmp_eq_0: "length a = length b \<Longrightarrow> memcmp a b = 0 \<longleftrightarrow> a = b"
  by (induction a b rule: memcmp.induct) auto

lemma memcmp_neg: "length a = length b \<Longrightarrow> memcmp a b < 0 \<longleftrightarrow> a < b"
  by (induction a b rule: memcmp.induct) auto

lemma memcmp_pos: "length a = length b \<Longrightarrow> memcmp a b > 0 \<longleftrightarrow> b < a"
  by (induction a b rule: memcmp.induct) auto

section \<open>Lists\<close>

text \<open>Offsets of consecutive blocks: the running sum of their lengths.\<close>

fun running :: "nat \<Rightarrow> nat list \<Rightarrow> nat list" where
  "running o0 [] = []"
| "running o0 (n # ns) = o0 # running (o0 + n) ns"

lemma length_running [simp]: "length (running o0 ns) = length ns"
  by (induction o0 ns rule: running.induct) auto

lemma running_append: "running o0 (ms @ ns) = running o0 ms @ running (o0 + sum_list ms) ns"
  by (induction o0 ms rule: running.induct) (auto simp: add.assoc)

lemma nth_running: "i < length ns \<Longrightarrow> running o0 ns ! i = o0 + sum_list (take i ns)"
  by (induction o0 ns arbitrary: i rule: running.induct) (auto simp: nth_Cons split: nat.splits)

lemma those_map_Some [simp]: "those (map (\<lambda>x. Some (f x)) xs) = Some (map f xs)"
  by (induction xs) auto

lemma those_eq_Some_length: "those xs = Some ys \<Longrightarrow> length ys = length xs"
  by (induction xs arbitrary: ys) (auto split: option.splits)

lemma those_map_eq_Some:
  "(\<And>x. x \<in> set xs \<Longrightarrow> f x = Some (g x)) \<Longrightarrow> those (map f xs) = Some (map g xs)"
  by (induction xs) auto

lemma those_append:
  "those (xs @ ys) = do { a \<leftarrow> those xs; b \<leftarrow> those ys; Some (a @ b) }"
proof (induction xs)
  case (Cons x xs)
  then show ?case
    by (cases x; cases "those xs"; cases "those ys") auto
qed (cases "those ys"; simp)

lemma drop_length_concat_take:
  "i \<le> length xs \<Longrightarrow> drop (sum_list (map length (take i xs))) (concat xs) = concat (drop i xs)"
proof -
  assume "i \<le> length xs"
  have "concat xs = concat (take i xs) @ concat (drop i xs)"
    by (metis append_take_drop_id concat_append)
  then show ?thesis
    by (metis append_eq_conv_conj length_concat)
qed

end
