(* ===== verification/Chunks.thy ===== *)
theory Chunks
  imports Prelude
begin

text \<open>
  Chunks and the pieces they are made of: the chunk header of include/chunk/chunk.h and
  src/chunk/chunk.cc, the chunk types of include/types/type.h, byte slices
  (include/spec/slice.h), ordered keys (include/node/orderedkey.h, src/node/orderedkey.cc) and the
  entries of inner tree nodes, \<open>MetaEntry\<close> (include/node/node.h, src/node/node.cc).

  The hash function of chunks (Crypto++ BLAKE2b in the default build) is the argument \<open>hf\<close>
  of the definitions that use it.
\<close>

section \<open>Chunk types\<close>

datatype ChunkType = CT_kNull | CT_kCell | CT_kMeta | CT_kBlob | CT_kMap | CT_kList | CT_kSet
  | CT_kInvalid

fun ChunkType_code :: "ChunkType \<Rightarrow> nat" where
  "ChunkType_code CT_kNull = 0"
| "ChunkType_code CT_kCell = 1"
| "ChunkType_code CT_kMeta = 2"
| "ChunkType_code CT_kBlob = 3"
| "ChunkType_code CT_kMap = 4"
| "ChunkType_code CT_kList = 5"
| "ChunkType_code CT_kSet = 6"
| "ChunkType_code CT_kInvalid = 99"

definition ChunkType_byte :: "ChunkType \<Rightarrow> byte" where
  "ChunkType_byte t = word_of_nat (ChunkType_code t)"

text \<open>A type byte read from memory is compared with the values of the enumeration.\<close>

definition IsChunkValid :: "byte \<Rightarrow> bool" where
  "IsChunkValid b \<longleftrightarrow>
     b = ChunkType_byte CT_kNull \<or> b = ChunkType_byte CT_kCell \<or> b = ChunkType_byte CT_kMeta \<or>
     b = ChunkType_byte CT_kBlob \<or> b = ChunkType_byte CT_kMap \<or> b = ChunkType_byte CT_kSet \<or>
     b = ChunkType_byte CT_kList \<or> b = ChunkType_byte CT_kInvalid"

lemma ChunkType_byte_inj [simp]: "ChunkType_byte s = ChunkType_byte t \<longleftrightarrow> s = t"
  by (cases s; cases t) (simp_all add: ChunkType_byte_def)

lemma IsChunkValid_byte [simp]: "IsChunkValid (ChunkType_byte t)"
  by (cases t) (simp_all add: IsChunkValid_def)

section \<open>Chunks\<close>

text \<open>A chunk is the buffer at \<open>head_\<close>: its size in four bytes, its type, its data.\<close>

type_synonym chunk = bytes

definition kMetaLength :: nat where
  "kMetaLength = 5"

text \<open>The constructor that allocates: the capacity is a \<open>uint32_t\<close> parameter, so the
  sizes the callers compute are truncated, and so is the size stored in the header.\<close>

definition Chunk :: "ChunkType \<Rightarrow> nat \<Rightarrow> chunk" where
  "Chunk type capacity =
     le_bytes 4 (kMetaLength + capacity mod 2 ^ 32) @ [ChunkType_byte type] @
     replicate (capacity mod 2 ^ 32) 0"

definition chunk_numBytes :: "chunk \<Rightarrow> nat option" where
  "chunk_numBytes c = rd 4 c 0"

definition chunk_type :: "chunk \<Rightarrow> byte option" where
  "chunk_type c = nth_opt c 4"

definition chunk_capacity :: "chunk \<Rightarrow> nat option" where
  "chunk_capacity c = do { n \<leftarrow> chunk_numBytes c; Some (sub64 n kMetaLength mod 2 ^ 32) }"

definition chunk_data :: "chunk \<Rightarrow> bytes" where
  "chunk_data c = drop kMetaLength c"

definition chunk_hash :: "(bytes \<Rightarrow> bytes) \<Rightarrow> chunk \<Rightarrow> bytes option" where
  "chunk_hash hf c = do { n \<leftarrow> chunk_numBytes c; d \<leftarrow> rd_bytes n c 0; Some (hf d) }"

text \<open>The chunk with type \<open>t\<close> and data \<open>d\<close>, as its bytes.\<close>

definition chunk_of :: "ChunkType \<Rightarrow> bytes \<Rightarrow> chunk" where
  "chunk_of t d = le_bytes 4 (kMetaLength + length d) @ [ChunkType_byte t] @ d"

definition chunk_fits :: "bytes \<Rightarrow> bool" where
  "chunk_fits d \<longleftrightarrow> kMetaLength + length d < 2 ^ 32"

lemma length_chunk_of [simp]: "length (chunk_of t d) = kMetaLength + length d"
  by (simp add: chunk_of_def kMetaLength_def)

lemma chunk_data_of [simp]: "chunk_data (chunk_of t d) = d"
  by (simp add: chunk_data_def chunk_of_def kMetaLength_def)

lemma chunk_type_of [simp]: "chunk_type (chunk_of t d) = Some (ChunkType_byte t)"
  by (simp add: chunk_type_def chunk_of_def nth_append)

lemma chunk_numBytes_of [simp]:
  "chunk_fits d \<Longrightarrow> chunk_numBytes (chunk_of t d) = Some (kMetaLength + length d)"
  by (simp add: chunk_numBytes_def chunk_of_def rd_0_append chunk_fits_def)

lemma chunk_capacity_of [simp]:
  "chunk_fits d \<Longrightarrow> chunk_capacity (chunk_of t d) = Some (length d)"
  by (simp add: chunk_capacity_def chunk_fits_def)

lemma chunk_hash_of [simp]:
  "chunk_fits d \<Longrightarrow> chunk_hash hf (chunk_of t d) = Some (hf (chunk_of t d))"
  by (simp add: chunk_hash_def rd_bytes_def)

lemma Chunk_eq_chunk_of:
  "kMetaLength + n < 2 ^ 32 \<Longrightarrow> Chunk t n = chunk_of t (replicate n 0)"
  by (simp add: Chunk_def chunk_of_def)

text \<open>Writing at \<open>m_data() + off\<close>.\<close>

definition m_data_write :: "chunk \<Rightarrow> nat \<Rightarrow> bytes \<Rightarrow> chunk option" where
  "m_data_write c off src = memcpy c (kMetaLength + off) src"

lemma m_data_write_chunk_of [bufs]:
  assumes "length pre = off" and "length src \<le> length rest"
  shows "m_data_write (chunk_of t (pre @ rest)) off src =
         Some (chunk_of t ((pre @ src) @ drop (length src) rest))"
  using assms
    memcpy_append[of "le_bytes 4 (kMetaLength + length (pre @ rest)) @ [ChunkType_byte t] @ pre"
      "kMetaLength + off" src rest]
  by (simp add: m_data_write_def chunk_of_def kMetaLength_def)

section \<open>Slices\<close>

definition slice_less :: "bytes \<Rightarrow> bytes \<Rightarrow> bool" where
  "slice_less a b =
    (let min_len = min (length a) (length b);
         cmp = memcmp (take min_len a) (take min_len b)
     in if cmp \<noteq> 0 then cmp < 0 else length a < length b)"

definition slice_greater :: "bytes \<Rightarrow> bytes \<Rightarrow> bool" where
  "slice_greater a b =
    (let min_len = min (length a) (length b);
         cmp = memcmp (take min_len a) (take min_len b)
     in if cmp \<noteq> 0 then cmp > 0 else length a > length b)"

definition slice_eq :: "bytes \<Rightarrow> bytes \<Rightarrow> bool" where
  "slice_eq a b = (length a = length b \<and> memcmp a b = 0)"

lemma slice_less_Cons:
  "slice_less (a # as) (b # bs) = (if a < b then True else if b < a then False else slice_less as bs)"
  by (auto simp: slice_less_def Let_def)

lemma slice_less_iff [simp]: "slice_less a b \<longleftrightarrow> a < b"
proof (induction a arbitrary: b)
  case Nil
  show ?case by (cases b) (simp_all add: slice_less_def)
next
  case (Cons x a)
  then show ?case
    by (cases b) (auto simp: slice_less_Cons simp: slice_less_def[of "x # a" "[]"])
qed

lemma slice_greater_Cons:
  "slice_greater (a # as) (b # bs) =
     (if b < a then True else if a < b then False else slice_greater as bs)"
  by (auto simp: slice_greater_def Let_def)

lemma slice_greater_iff [simp]: "slice_greater a b \<longleftrightarrow> b < a"
proof (induction a arbitrary: b)
  case Nil
  show ?case by (cases b) (simp_all add: slice_greater_def)
next
  case (Cons x a)
  then show ?case
    by (cases b) (auto simp: slice_greater_Cons simp: slice_greater_def[of "x # a" "[]"])
qed

lemma slice_eq_iff [simp]: "slice_eq a b \<longleftrightarrow> a = b"
  using memcmp_eq_0[of a b] by (auto simp: slice_eq_def)

section \<open>Ordered keys\<close>

text \<open>A key is a 64-bit number (\<open>by_value_\<close>) or a byte string.\<close>

datatype OrderedKey = KeyValue nat | KeyData bytes

fun byValue :: "OrderedKey \<Rightarrow> bool" where
  "byValue (KeyValue v) = True"
| "byValue (KeyData d) = False"

text \<open>The constructor from the bytes at \<open>p\<close>, of which \<open>n\<close> are the key.\<close>

definition OrderedKey_of :: "bool \<Rightarrow> bytes \<Rightarrow> nat \<Rightarrow> OrderedKey option" where
  "OrderedKey_of by_value p n =
     (if by_value then map_option KeyValue (rd 8 p 0) else map_option KeyData (rd_bytes n p 0))"

fun key_numBytes :: "OrderedKey \<Rightarrow> nat" where
  "key_numBytes (KeyValue v) = 8"
| "key_numBytes (KeyData d) = length d"

text \<open>The bytes that \<open>OrderedKey::Encode\<close> copies to its buffer.\<close>

fun key_Encode :: "OrderedKey \<Rightarrow> bytes" where
  "key_Encode (KeyValue v) = le_bytes 8 v"
| "key_Encode (KeyData d) = d"

fun key_greater :: "OrderedKey \<Rightarrow> OrderedKey \<Rightarrow> bool option" where
  "key_greater (KeyValue v) (KeyValue w) = Some (v > w)"
| "key_greater (KeyData d) (KeyData e) = Some (slice_greater d e)"
| "key_greater _ _ = None"

fun key_less :: "OrderedKey \<Rightarrow> OrderedKey \<Rightarrow> bool option" where
  "key_less (KeyValue v) (KeyValue w) = Some (v < w)"
| "key_less (KeyData d) (KeyData e) = Some (slice_less d e)"
| "key_less _ _ = None"

fun key_eq :: "OrderedKey \<Rightarrow> OrderedKey \<Rightarrow> bool option" where
  "key_eq (KeyValue v) (KeyValue w) = Some (v = w)"
| "key_eq (KeyData d) (KeyData e) = Some (slice_eq d e)"
| "key_eq _ _ = None"

text \<open>\<open>a < b || a == b\<close>, evaluated from the left.\<close>

definition key_le :: "OrderedKey \<Rightarrow> OrderedKey \<Rightarrow> bool option" where
  "key_le a b = do { l \<leftarrow> key_less a b; if l then Some True else key_eq a b }"

definition key_ge :: "OrderedKey \<Rightarrow> OrderedKey \<Rightarrow> bool option" where
  "key_ge a b = do { g \<leftarrow> key_greater a b; if g then Some True else key_eq a b }"

lemma length_key_Encode [simp]: "length (key_Encode k) = key_numBytes k"
  by (cases k) auto

lemma key_le_simps [simp]:
  "key_le (KeyValue v) (KeyValue w) = Some (v \<le> w)"
  "key_le (KeyData d) (KeyData e) = Some (d \<le> e)"
  by (auto simp: key_le_def)

fun key_ok :: "OrderedKey \<Rightarrow> bool" where
  "key_ok (KeyValue v) = (v < 2 ^ 64)"
| "key_ok (KeyData d) = (37 + length d < 2 ^ 32)"

lemma OrderedKey_of_Encode:
  "key_ok k \<Longrightarrow> OrderedKey_of (byValue k) (key_Encode k @ rest) (key_numBytes k) = Some k"
  by (cases k) (simp_all add: OrderedKey_of_def rd_0_append rd_bytes_def)

section \<open>Entries of inner nodes\<close>

definition kByteLength :: nat where
  "kByteLength = 20"

text \<open>What is known of the hash function: its digests have 20 bytes (\<open>Hash::kByteLength\<close>).\<close>

definition digest_ok :: "(bytes \<Rightarrow> bytes) \<Rightarrow> bool" where
  "digest_ok hf \<longleftrightarrow> (\<forall>x. length (hf x) = kByteLength)"

lemma digest_okD [simp]: "digest_ok hf \<Longrightarrow> length (hf x) = kByteLength"
  by (simp add: digest_ok_def)

text \<open>
  The layout: size in bytes at 0, number of leaves at 4, number of elements at 8, hash of the child
  at 16, the flag \<open>by_value\<close> at 36 and the key from 37 on.
\<close>

definition MetaEntry_Encode :: "nat \<Rightarrow> nat \<Rightarrow> bytes \<Rightarrow> OrderedKey \<Rightarrow> bytes option" where
  "MetaEntry_Encode num_leaves num_elements data_hash key =
    do { let num_bytes = (36 + 1 + key_numBytes key) mod 2 ^ 32;
         let data = replicate num_bytes 0;
         data \<leftarrow> memcpy data 0 (le_bytes 4 num_bytes);
         data \<leftarrow> memcpy data 4 (le_bytes 4 num_leaves);
         data \<leftarrow> memcpy data 8 (le_bytes 8 num_elements);
         h \<leftarrow> rd_bytes kByteLength data_hash 0;
         data \<leftarrow> memcpy data 16 h;
         data \<leftarrow> memcpy data 36 [if byValue key then 1 else 0];
         memcpy data 37 (key_Encode key) }"

definition MetaEntry_numBytes :: "bytes \<Rightarrow> nat option" where
  "MetaEntry_numBytes p = rd 4 p 0"

definition MetaEntry_numLeaves :: "bytes \<Rightarrow> nat option" where
  "MetaEntry_numLeaves p = rd 4 p 4"

definition MetaEntry_numElements :: "bytes \<Rightarrow> nat option" where
  "MetaEntry_numElements p = rd 8 p 8"

definition MetaEntry_targetHash :: "bytes \<Rightarrow> bytes option" where
  "MetaEntry_targetHash p = rd_bytes kByteLength p 16"

definition MetaEntry_orderedKey :: "bytes \<Rightarrow> OrderedKey option" where
  "MetaEntry_orderedKey p =
    do { n \<leftarrow> MetaEntry_numBytes p;
         let key_num_bytes = sub64 (sub64 n 36) 1;
         b \<leftarrow> nth_opt p 36;
         OrderedKey_of (b \<noteq> 0) (drop 37 p) key_num_bytes }"

text \<open>The bytes of an entry, as a concatenation of its fields.\<close>

record meta_entry =
  me_leaves :: nat
  me_elements :: nat
  me_hash :: bytes
  me_key :: OrderedKey

definition me_bytes :: "meta_entry \<Rightarrow> bytes" where
  "me_bytes m = le_bytes 4 (37 + key_numBytes (me_key m)) @ le_bytes 4 (me_leaves m) @
     le_bytes 8 (me_elements m) @ me_hash m @ [if byValue (me_key m) then 1 else 0] @
     key_Encode (me_key m)"

definition me_ok :: "meta_entry \<Rightarrow> bool" where
  "me_ok m \<longleftrightarrow> me_leaves m < 2 ^ 32 \<and> me_elements m < 2 ^ 64 \<and> length (me_hash m) = kByteLength \<and>
     key_ok (me_key m)"

lemma key_ok_numBytes: "key_ok k \<Longrightarrow> 37 + key_numBytes k < 2 ^ 32"
  by (cases k) auto

lemma length_me_bytes [simp]: "me_ok m \<Longrightarrow> length (me_bytes m) = 37 + key_numBytes (me_key m)"
  by (simp add: me_bytes_def me_ok_def kByteLength_def)

lemma MetaEntry_Encode_eq:
  assumes "length h = kByteLength" and "37 + key_numBytes k < 2 ^ 32"
  shows "MetaEntry_Encode nl ne h k =
    Some (me_bytes \<lparr>me_leaves = nl, me_elements = ne, me_hash = h, me_key = k\<rparr>)"
proof -
  define b :: byte where "b = (if byValue k then 1 else 0)"
  have n: "(36 + 1 + key_numBytes k) mod 2 ^ 32 = 37 + key_numBytes k" using assms by simp
  have h: "rd_bytes kByteLength h 0 = Some h" using assms by (simp add: rd_bytes_def)
  let ?n = "37 + key_numBytes k"
  have 1: "memcpy (replicate ?n 0) 0 (le_bytes 4 ?n) =
      Some (le_bytes 4 ?n @ replicate (33 + key_numBytes k) 0)"
    by (simp add: memcpy_fresh)
  have 2: "memcpy (le_bytes 4 ?n @ replicate (33 + key_numBytes k) 0) 4 (le_bytes 4 nl) =
      Some ((le_bytes 4 ?n @ le_bytes 4 nl) @ replicate (29 + key_numBytes k) 0)"
    by (subst memcpy_append) simp_all
  have 3: "memcpy ((le_bytes 4 ?n @ le_bytes 4 nl) @ replicate (29 + key_numBytes k) 0) 8
      (le_bytes 8 ne) =
      Some ((le_bytes 4 ?n @ le_bytes 4 nl @ le_bytes 8 ne) @ replicate (21 + key_numBytes k) 0)"
    by (subst memcpy_append) simp_all
  have 4: "memcpy ((le_bytes 4 ?n @ le_bytes 4 nl @ le_bytes 8 ne) @
      replicate (21 + key_numBytes k) 0) 16 h =
      Some ((le_bytes 4 ?n @ le_bytes 4 nl @ le_bytes 8 ne @ h) @ replicate (1 + key_numBytes k) 0)"
    using assms by (subst memcpy_append) (simp_all add: kByteLength_def)
  have 5: "memcpy ((le_bytes 4 ?n @ le_bytes 4 nl @ le_bytes 8 ne @ h) @
      replicate (1 + key_numBytes k) 0) 36 [b] =
      Some ((le_bytes 4 ?n @ le_bytes 4 nl @ le_bytes 8 ne @ h @ [b]) @ replicate (key_numBytes k) 0)"
    using assms by (subst memcpy_append) (simp_all add: kByteLength_def)
  have 6: "memcpy ((le_bytes 4 ?n @ le_bytes 4 nl @ le_bytes 8 ne @ h @ [b]) @
      replicate (key_numBytes k) 0) 37 (key_Encode k) =
      Some (le_bytes 4 ?n @ le_bytes 4 nl @ le_bytes 8 ne @ h @ [b] @ key_Encode k)"
    using assms by (subst memcpy_append) (simp_all add: kByteLength_def)
  show ?thesis
    unfolding MetaEntry_Encode_def Let_def n 1 h b_def[symmetric] me_bytes_def
    by (simp add: 2[simplified] 3[simplified] 4[simplified] 5[simplified] 6[simplified])
      (simp add: b_def)
qed

lemma MetaEntry_numBytes_bytes [codec]:
  "me_ok m \<Longrightarrow> MetaEntry_numBytes (me_bytes m @ rest) = Some (length (me_bytes m))"
  using key_ok_numBytes[of "me_key m"]
  by (simp add: MetaEntry_numBytes_def me_bytes_def rd_0_append me_ok_def kByteLength_def)

lemma MetaEntry_numLeaves_bytes [codec]:
  "me_ok m \<Longrightarrow> MetaEntry_numLeaves (me_bytes m @ rest) = Some (me_leaves m)"
  by (simp add: MetaEntry_numLeaves_def me_bytes_def rd_append me_ok_def)

lemma MetaEntry_numElements_bytes [codec]:
  "me_ok m \<Longrightarrow> MetaEntry_numElements (me_bytes m @ rest) = Some (me_elements m)"
  using rd_append[of "le_bytes 4 (37 + key_numBytes (me_key m)) @ le_bytes 4 (me_leaves m)" 8 8]
  by (simp add: MetaEntry_numElements_def me_bytes_def me_ok_def)

lemma MetaEntry_targetHash_bytes [codec]:
  "me_ok m \<Longrightarrow> MetaEntry_targetHash (me_bytes m @ rest) = Some (me_hash m)"
  using rd_bytes_append[of "le_bytes 4 (37 + key_numBytes (me_key m)) @ le_bytes 4 (me_leaves m) @
      le_bytes 8 (me_elements m)" 16 "me_hash m" kByteLength]
  by (simp add: MetaEntry_targetHash_def me_bytes_def me_ok_def)

lemma MetaEntry_orderedKey_bytes [codec]:
  assumes "me_ok m"
  shows "MetaEntry_orderedKey (me_bytes m @ rest) = Some (me_key m)"
proof -
  let ?pre = "le_bytes 4 (37 + key_numBytes (me_key m)) @ le_bytes 4 (me_leaves m) @
      le_bytes 8 (me_elements m) @ me_hash m"
  let ?b = "if byValue (me_key m) then 1 else 0 :: byte"
  have len: "length ?pre = 36" using assms by (simp add: me_ok_def kByteLength_def)
  have eq: "me_bytes m @ rest = (?pre @ [?b]) @ (key_Encode (me_key m) @ rest)"
    by (simp add: me_bytes_def)
  have "nth_opt (me_bytes m @ rest) 36 = Some ?b"
    unfolding eq nth_opt_def using len by (auto simp: nth_append)
  moreover have "drop 37 (me_bytes m @ rest) = key_Encode (me_key m) @ rest"
    unfolding eq using len by simp
  moreover have "MetaEntry_numBytes (me_bytes m @ rest) = Some (37 + key_numBytes (me_key m))"
    using assms by (simp add: codec)
  ultimately show ?thesis
    using assms OrderedKey_of_Encode[of "me_key m" rest]
    by (cases "byValue (me_key m)") (simp_all add: MetaEntry_orderedKey_def me_ok_def)
qed

section \<open>Properties\<close>

text \<open>An entry of an inner node reads back what was written: for a 20-byte hash and a key that
  fits the 32-bit size field, \<open>MetaEntry::Encode\<close> stays inside the buffer it allocates, and
  from the encoded bytes, whatever follows them in the node, the accessors return the size, the
  number of leaves, the number of elements, the hash and the key.\<close>


lemma meta_entry_roundtrip:
  assumes "nl < 2 ^ 32" and "ne < 2 ^ 64" and "length h = kByteLength" and "key_ok k"
  shows "\<exists>e. MetaEntry_Encode nl ne h k = Some e \<and>
    (\<forall>rest. MetaEntry_numBytes (e @ rest) = Some (length e) \<and>
            MetaEntry_numLeaves (e @ rest) = Some nl \<and>
            MetaEntry_numElements (e @ rest) = Some ne \<and>
            MetaEntry_targetHash (e @ rest) = Some h \<and>
            MetaEntry_orderedKey (e @ rest) = Some k)"
proof -
  let ?m = "\<lparr>me_leaves = nl, me_elements = ne, me_hash = h, me_key = k\<rparr>"
  have ok: "me_ok ?m" using assms by (simp add: me_ok_def)
  show ?thesis
    using assms MetaEntry_Encode_eq[of h k nl ne, OF assms(3) key_ok_numBytes[OF assms(4)]] ok
    by (auto simp: codec)
qed

end
