(* ===== verification/Segments.thy ===== *)
theory Segments
  imports Prelude
begin

text \<open>
  Segments, include/chunk/segment.h and src/chunk/segment.cc: views of consecutive entries in
  memory, of fixed or of variable entry length.

  The abstraction \<open>seg_rep seg es\<close> says that \<open>seg\<close> is a view of the entries \<open>es\<close>
  (non-empty byte strings); every operation is characterised on the entries.
\<close>

section \<open>Model\<close>

text \<open>\<open>seg_data\<close> holds the bytes readable from the pointer \<open>data_\<close> on; they may
  extend beyond \<open>num_bytes_\<close>, which \<open>prolong\<close> relies on.\<close>

datatype segment =
    FixedSegment (seg_data: bytes) (seg_num_bytes: nat) (bytes_per_entry: nat)
  | VarSegment (seg_data: bytes) (seg_num_bytes: nat) (entry_offsets: "nat list")

fun numEntries_seg :: "segment \<Rightarrow> nat" where
  "numEntries_seg (FixedSegment d n b) = n div b"
| "numEntries_seg (VarSegment d n offs) = length offs"

definition empty_seg :: "segment \<Rightarrow> bool" where
  "empty_seg s = (numEntries_seg s = 0)"

fun entry_seg :: "segment \<Rightarrow> nat \<Rightarrow> bytes option" where
  "entry_seg (FixedSegment d n b) idx =
     do { CHECK (n div b > idx); Some (drop (idx * b) d) }"
| "entry_seg (VarSegment d n offs) idx =
     do { CHECK (length offs > idx); Some (drop (offs ! idx) d) }"

text \<open>\<open>prolong\<close> returns the segment and its new number of entries.\<close>

fun prolong :: "segment \<Rightarrow> nat \<Rightarrow> (segment \<times> nat) option" where
  "prolong (FixedSegment d n b) k =
     do { CHECK (k mod b = 0);
          let s = FixedSegment d (n + k) b;
          Some (s, numEntries_seg s) }"
| "prolong (VarSegment d n offs) k =
     (let s = VarSegment d (n + k) (offs @ [n]) in Some (s, numEntries_seg s))"

fun entryNumBytes_seg :: "segment \<Rightarrow> nat \<Rightarrow> nat option" where
  "entryNumBytes_seg (FixedSegment d n b) idx = do { CHECK (n div b > idx); Some b }"
| "entryNumBytes_seg (VarSegment d n offs) idx =
     do { CHECK (length offs > idx);
          Some ((if idx = length offs - 1 then n else offs ! (idx + 1)) - offs ! idx) }"

text \<open>\<open>std::upper_bound\<close> on a sorted vector: the number of leading elements that are at
  most \<open>pos\<close>.\<close>

definition upper_bound :: "nat list \<Rightarrow> nat \<Rightarrow> nat" where
  "upper_bound offs pos = length (takeWhile (\<lambda>x. x \<le> pos) offs)"

text \<open>The subtraction of one from an iterator difference of zero wraps around in \<open>size_t\<close>.\<close>

fun PosToIdx :: "segment \<Rightarrow> nat \<Rightarrow> nat option" where
  "PosToIdx (FixedSegment d n b) pos = do { CHECK (n \<ge> pos); Some (pos div b) }"
| "PosToIdx (VarSegment d n offs) pos =
     do { CHECK (n \<ge> pos);
          let ub = upper_bound offs pos;
          Some (if ub = 0 then 2 ^ 64 - 1 else ub - 1) }"

fun Split :: "segment \<Rightarrow> nat \<Rightarrow> (segment \<times> segment) option" where
  "Split (FixedSegment d n b) idx =
     do { let s = FixedSegment d n b;
          CHECK (\<not> empty_seg s);
          CHECK (numEntries_seg s \<ge> idx);
          let preSegBytes = b * idx;
          let postSegBytes = n - preSegBytes;
          preData \<leftarrow> entry_seg s 0;
          postData \<leftarrow> (if idx < numEntries_seg s then entry_seg s idx else Some []);
          Some (FixedSegment preData preSegBytes b, FixedSegment postData postSegBytes b) }"
| "Split (VarSegment d n offs) idx =
     do { let s = VarSegment d n offs;
          CHECK (\<not> empty_seg s);
          CHECK (numEntries_seg s \<ge> idx);
          preData \<leftarrow> entry_seg s 0;
          postData \<leftarrow> (if idx < numEntries_seg s then entry_seg s idx else Some []);
          let preSegBytes = (if idx < numEntries_seg s then offs ! idx else n);
          let postSegBytes = n - preSegBytes;
          let preOffsets = take idx offs;
          let postOffsets = map (\<lambda>i. offs ! i - offs ! idx) [idx..<numEntries_seg s];
          Some (VarSegment preData preSegBytes preOffsets,
                VarSegment postData postSegBytes postOffsets) }"

text \<open>\<open>AppendForChunk\<close> copies the bytes of the segment to \<open>off\<close> in the buffer of a
  chunk.\<close>

definition AppendForChunk :: "segment \<Rightarrow> bytes \<Rightarrow> nat \<Rightarrow> bytes option" where
  "AppendForChunk s buf off =
     do { src \<leftarrow> rd_bytes (seg_num_bytes s) (seg_data s) 0; memcpy buf off src }"

section \<open>The entries of a segment\<close>

definition seg_rep :: "segment \<Rightarrow> bytes list \<Rightarrow> bool" where
  "seg_rep s es \<longleftrightarrow>
     seg_num_bytes s = length (concat es) \<and>
     take (length (concat es)) (seg_data s) = concat es \<and>
     (\<forall>e \<in> set es. e \<noteq> []) \<and>
     (case s of FixedSegment d n b \<Rightarrow> b > 0 \<and> (\<forall>e \<in> set es. length e = b)
      | VarSegment d n offs \<Rightarrow> offs = running 0 (map length es))"

lemma length_concat_const: "\<forall>e \<in> set es. length e = b \<Longrightarrow> length (concat es) = b * length es"
  by (induction es) auto

lemma seg_rep_data:
  assumes "seg_rep s es"
  shows "seg_data s = concat es @ drop (length (concat es)) (seg_data s)"
  using assms append_take_drop_id[of "length (concat es)" "seg_data s"] by (simp add: seg_rep_def)

lemma seg_rep_numEntries [simp]: "seg_rep s es \<Longrightarrow> numEntries_seg s = length es"
  by (cases s) (auto simp: seg_rep_def dest: length_concat_const)

lemma seg_rep_empty [simp]: "seg_rep s es \<Longrightarrow> empty_seg s \<longleftrightarrow> es = []"
  by (simp add: empty_seg_def)

lemma seg_rep_num_bytes: "seg_rep s es \<Longrightarrow> seg_num_bytes s = length (concat es)"
  by (simp add: seg_rep_def)

lemma seg_rep_bytes: "seg_rep s es \<Longrightarrow> take (seg_num_bytes s) (seg_data s) = concat es"
  by (simp add: seg_rep_def)

lemma seg_rep_nonempty: "seg_rep s es \<Longrightarrow> e \<in> set es \<Longrightarrow> e \<noteq> []"
  by (simp add: seg_rep_def)

lemma seg_rep_length_data: "seg_rep s es \<Longrightarrow> length (concat es) \<le> length (seg_data s)"
  using arg_cong[of "take (length (concat es)) (seg_data s)" _ length] by (simp add: seg_rep_def)

lemma seg_rep_rd: "seg_rep s es \<Longrightarrow> rd_bytes (seg_num_bytes s) (seg_data s) 0 = Some (concat es)"
  using seg_rep_length_data[of s es] by (simp add: rd_bytes_def seg_rep_def)

lemma seg_rep_offset:
  assumes "seg_rep s es" and "idx < length es"
  shows "entry_seg s idx = Some (drop (length (concat (take idx es))) (seg_data s))"
proof (cases s)
  case (FixedSegment d n b)
  have "\<forall>e \<in> set (take idx es). length e = b"
    using assms FixedSegment by (auto simp: seg_rep_def dest: in_set_takeD)
  from length_concat_const[OF this] have "length (concat (take idx es)) = idx * b"
    using assms by simp
  with assms FixedSegment seg_rep_numEntries[OF assms(1)] show ?thesis by simp
next
  case (VarSegment d n offs)
  with assms show ?thesis
    by (simp add: seg_rep_def nth_running length_concat take_map)
qed

lemma seg_rep_entry:
  assumes "seg_rep s es" and "idx < length es"
  shows "\<exists>rest. entry_seg s idx = Some (es ! idx @ rest)"
proof -
  have "concat es = concat (take idx es) @ es ! idx @ concat (drop (Suc idx) es)"
    using assms(2) by (metis concat.simps(2) concat_append id_take_nth_drop)
  with seg_rep_data[OF assms(1)] have "seg_data s = concat (take idx es) @
      es ! idx @ concat (drop (Suc idx) es) @ drop (length (concat es)) (seg_data s)"
    by simp
  then have "drop (length (concat (take idx es))) (seg_data s) =
      es ! idx @ concat (drop (Suc idx) es) @ drop (length (concat es)) (seg_data s)"
    by (metis append_eq_conv_conj)
  then show ?thesis
    using seg_rep_offset[OF assms] by simp
qed

lemma seg_rep_entryNumBytes:
  assumes "seg_rep s es" and "idx < length es"
  shows "entryNumBytes_seg s idx = Some (length (es ! idx))"
proof (cases s)
  case (FixedSegment d n b)
  with assms seg_rep_numEntries[OF assms(1)] show ?thesis by (auto simp: seg_rep_def)
next
  case (VarSegment d n offs)
  have "take (Suc idx) es = take idx es @ [es ! idx]"
    using assms(2) by (rule take_Suc_conv_app_nth)
  then have T: "sum_list (map length (take (Suc idx) es)) =
      sum_list (map length (take idx es)) + length (es ! idx)"
    by simp
  have "sum_list (map length (take (Suc idx) es)) = length (concat es)" if "idx = length es - 1"
    using that assms(2) by (simp add: length_concat)
  with T show ?thesis
    using assms VarSegment by (auto simp: seg_rep_def nth_running take_map)
qed

lemma seg_rep_take:
  assumes "seg_rep s es" and "k \<le> length es"
  shows "take (length (concat (take k es))) (seg_data s) = concat (take k es)"
proof -
  have "concat es = concat (take k es) @ concat (drop k es)"
    by (metis append_take_drop_id concat_append)
  with seg_rep_data[OF assms(1)] have "seg_data s = concat (take k es) @ concat (drop k es) @
      drop (length (concat es)) (seg_data s)" by simp
  then show ?thesis
    by (metis append_eq_conv_conj)
qed

lemma seg_rep_drop:
  assumes "seg_rep s es"
  shows "take (length (concat (drop k es))) (drop (length (concat (take k es))) (seg_data s))
         = concat (drop k es)"
proof -
  have "concat es = concat (take k es) @ concat (drop k es)"
    by (metis append_take_drop_id concat_append)
  with seg_rep_data[OF assms(1)] have "seg_data s = concat (take k es) @ concat (drop k es) @
      drop (length (concat es)) (seg_data s)" by simp
  then show ?thesis
    by (metis append_eq_conv_conj)
qed

text \<open>Splitting at an entry splits the list of entries.\<close>

lemma running_shift: "map (\<lambda>x. x - k) (running (o0 + k) ns) = running o0 ns"
proof (induction ns arbitrary: o0)
  case (Cons n ns)
  from Cons[of "o0 + n"] show ?case by (simp add: add.assoc add.commute add.left_commute)
qed simp

lemma concat_split_length:
  "length (concat es) = length (concat (take idx es)) + length (concat (drop idx es))"
  by (metis append_take_drop_id concat_append length_append)

text \<open>The pointers that \<open>Split\<close> computes; the second is null when there is nothing behind.\<close>

definition post_data :: "segment \<Rightarrow> bytes list \<Rightarrow> nat \<Rightarrow> bytes" where
  "post_data s es idx =
     (if idx < length es then drop (length (concat (take idx es))) (seg_data s) else [])"

lemma post_data_take:
  assumes "seg_rep s es" "idx \<le> length es"
  shows "take (length (concat (drop idx es))) (post_data s es idx) = concat (drop idx es)"
  using seg_rep_drop[OF assms(1), of idx] assms(2) by (simp add: post_data_def)

lemma Split_rep_Fixed:
  assumes rep: "seg_rep s es" and es: "es \<noteq> []" and idx: "idx \<le> length es"
    and s: "s = FixedSegment d m b"
  shows "\<exists>s1 s2. Split s idx = Some (s1, s2) \<and> seg_rep s1 (take idx es) \<and> seg_rep s2 (drop idx es)"
proof -
  let ?post = "post_data s es idx"
  have e0: "entry_seg s 0 = Some d"
    using seg_rep_offset[OF rep, of 0] es s by simp
  have b: "0 < b" "\<forall>e\<in>set es. length e = b" "m = length (concat es)"
    using rep s by (auto simp: seg_rep_def)
  then have "\<forall>e \<in> set (take idx es). length e = b" by (auto dest: in_set_takeD)
  from length_concat_const[OF this] have pre: "length (concat (take idx es)) = b * idx"
    using idx by simp
  have "Split s idx = Some (FixedSegment d (b * idx) b, FixedSegment ?post (m - b * idx) b)"
    using e0 seg_rep_numEntries[OF rep] seg_rep_empty[OF rep] es idx s pre
    by (cases "idx < length es") (simp_all add: post_data_def Let_def mult.commute)
  moreover have "seg_rep (FixedSegment d (b * idx) b) (take idx es)"
    using seg_rep_take[OF rep idx] b pre rep s by (auto simp: seg_rep_def dest: in_set_takeD)
  moreover have "seg_rep (FixedSegment ?post (m - b * idx) b) (drop idx es)"
    using post_data_take[OF rep idx] b pre concat_split_length[of es idx] rep s
    by (auto simp: seg_rep_def dest: in_set_dropD)
  ultimately show ?thesis by blast
qed

lemma Split_offsets:
  assumes offs: "offs = running 0 (map length es)" and idx: "idx \<le> length es"
  shows "take idx offs = running 0 (map length (take idx es))"
    and "map (\<lambda>i. offs ! i - offs ! idx) [idx..<length es] = running 0 (map length (drop idx es))"
    and "idx < length es \<Longrightarrow> offs ! idx = length (concat (take idx es))"
proof -
  let ?pre = "length (concat (take idx es))"
  have split: "offs = running 0 (map length (take idx es)) @ running ?pre (map length (drop idx es))"
    using running_append[of 0 "map length (take idx es)" "map length (drop idx es)"]
    by (simp add: offs length_concat flip: map_append)
  show "take idx offs = running 0 (map length (take idx es))"
    using idx by (simp add: split)
  show pre: "offs ! idx = ?pre" if "idx < length es"
    using that by (simp add: offs nth_running length_concat take_map)
  have "map (\<lambda>i. offs ! i - offs ! idx) [idx..<length es] = map (\<lambda>x. x - ?pre) (drop idx offs)"
    by (rule nth_equalityI) (use pre offs in auto)
  also have "\<dots> = running 0 (map length (drop idx es))"
    using idx running_shift[of ?pre 0] by (simp add: split)
  finally show "map (\<lambda>i. offs ! i - offs ! idx) [idx..<length es] =
      running 0 (map length (drop idx es))" .
qed

lemma Split_rep_Var:
  assumes rep: "seg_rep s es" and es: "es \<noteq> []" and idx: "idx \<le> length es"
    and s: "s = VarSegment d m offs"
  shows "\<exists>s1 s2. Split s idx = Some (s1, s2) \<and> seg_rep s1 (take idx es) \<and> seg_rep s2 (drop idx es)"
proof -
  let ?post = "post_data s es idx" and ?pre = "length (concat (take idx es))"
  have e0: "entry_seg s 0 = Some d"
    using seg_rep_offset[OF rep, of 0] es s by simp
  have o: "offs = running 0 (map length es)" "m = length (concat es)"
    using rep s by (auto simp: seg_rep_def)
  note offs = Split_offsets[OF o(1) idx]
  let ?po = "map (\<lambda>i. offs ! i - offs ! idx) [idx..<length es]"
  have pb: "(if idx < length es then offs ! idx else m) = ?pre"
    using idx offs(3) o(2) by auto
  have "Split s idx = Some (VarSegment d ?pre (take idx offs), VarSegment ?post (m - ?pre) ?po)"
    using e0 seg_rep_numEntries[OF rep] seg_rep_empty[OF rep] es idx s pb
    by (cases "idx < length es") (simp_all add: post_data_def Let_def)
  moreover have "seg_rep (VarSegment d ?pre (take idx offs)) (take idx es)"
    unfolding offs(1) using seg_rep_take[OF rep idx] rep s
    by (auto simp: seg_rep_def dest: in_set_takeD)
  moreover have "seg_rep (VarSegment ?post (m - ?pre) ?po) (drop idx es)"
    unfolding offs(2) using post_data_take[OF rep idx] concat_split_length[of es idx] o rep s
    by (auto simp: seg_rep_def dest: in_set_dropD)
  ultimately show ?thesis by blast
qed

lemma Split_rep:
  assumes "seg_rep s es" and "es \<noteq> []" and "idx \<le> length es"
  shows "\<exists>s1 s2. Split s idx = Some (s1, s2) \<and> seg_rep s1 (take idx es) \<and> seg_rep s2 (drop idx es)"
  using Split_rep_Fixed[OF assms] Split_rep_Var[OF assms] by (cases s) auto

section \<open>Positions\<close>

text \<open>The entry that holds the byte at position \<open>pos\<close>.\<close>

fun entry_at :: "bytes list \<Rightarrow> nat \<Rightarrow> nat" where
  "entry_at [] pos = 0"
| "entry_at (e # es) pos = (if pos < length e then 0 else Suc (entry_at es (pos - length e)))"

lemma entry_at_less: "pos < length (concat es) \<Longrightarrow> entry_at es pos < length es"
  by (induction es pos rule: entry_at.induct) auto

lemma entry_at_bounds:
  "pos < length (concat es) \<Longrightarrow>
   length (concat (take (entry_at es pos) es)) \<le> pos \<and>
   pos < length (concat (take (Suc (entry_at es pos)) es))"
proof (induction es pos rule: entry_at.induct)
  case (2 e es pos)
  show ?case
  proof (cases "pos < length e")
    case False
    with 2(2) have "pos - length e < length (concat es)" by simp
    from 2(1)[OF False this] False show ?thesis by (auto simp: less_diff_conv2 le_diff_conv2)
  qed simp
qed simp

lemma entry_at_const:
  "0 < b \<Longrightarrow> \<forall>e \<in> set es. length e = b \<Longrightarrow> pos < length (concat es) \<Longrightarrow> entry_at es pos = pos div b"
  by (induction es pos rule: entry_at.induct) (auto simp: div_if)

lemma takeWhile_running:
  "\<forall>e \<in> set es. e \<noteq> [] \<Longrightarrow> o0 \<le> pos \<Longrightarrow> pos < o0 + length (concat es) \<Longrightarrow>
   length (takeWhile (\<lambda>x. x \<le> pos) (running o0 (map length es))) = Suc (entry_at es (pos - o0))"
proof (induction es arbitrary: o0)
  case (Cons e es)
  show ?case
  proof (cases "pos < o0 + length e")
    case True
    then have "takeWhile (\<lambda>x. x \<le> pos) (running (o0 + length e) (map length es)) = []"
      by (cases es) auto
    with True Cons.prems show ?thesis by simp
  next
    case False
    with Cons.prems have "pos - o0 - length e = pos - (o0 + length e)" by simp
    with False Cons.prems Cons.IH[of "o0 + length e"] show ?thesis by simp
  qed
qed simp

lemma PosToIdx_rep:
  assumes "seg_rep s es" and "pos < length (concat es)"
  shows "PosToIdx s pos = Some (entry_at es pos)"
proof (cases s)
  case (FixedSegment d n b)
  with assms show ?thesis
    using entry_at_const[of b es pos] by (simp add: seg_rep_def)
next
  case (VarSegment d n offs)
  with assms have "upper_bound offs pos = Suc (entry_at es pos)"
    using takeWhile_running[of es 0 pos] by (simp add: seg_rep_def upper_bound_def)
  with VarSegment assms show ?thesis
    by (simp add: seg_rep_def)
qed

text \<open>At the end of the segment, where no boundary was found, the result is not used by the
  callers but the call must not abort.\<close>

lemma PosToIdx_end: "seg_rep s es \<Longrightarrow> PosToIdx s (seg_num_bytes s) \<noteq> None"
  by (cases s) (simp_all add: Let_def)

section \<open>Growing a segment and copying it\<close>

lemma prolong_rep:
  assumes "seg_rep s es" and "e \<noteq> []"
    and "take (length (concat es) + length e) (seg_data s) = concat es @ e"
    and "case s of FixedSegment d n b \<Rightarrow> length e = b | VarSegment d n offs \<Rightarrow> True"
  shows "\<exists>s'. prolong s (length e) = Some (s', Suc (length es)) \<and> seg_rep s' (es @ [e]) \<and>
           seg_data s' = seg_data s"
proof (cases s)
  case (FixedSegment d n b)
  let ?s = "FixedSegment d (n + length e) b"
  have "seg_rep ?s (es @ [e])"
    using assms FixedSegment by (auto simp: seg_rep_def)
  moreover from seg_rep_numEntries[OF this] have "prolong s (length e) = Some (?s, Suc (length es))"
    using assms FixedSegment by (simp add: Let_def)
  ultimately show ?thesis using FixedSegment by auto
next
  case (VarSegment d n offs)
  have "running 0 (map length (es @ [e])) = offs @ [n]"
    using assms(1) VarSegment by (simp add: seg_rep_def running_append length_concat)
  with assms VarSegment show ?thesis
    by (auto simp: seg_rep_def Let_def)
qed

lemma AppendForChunk_rep:
  assumes "seg_rep s es" and "length pre = off" and "length (concat es) \<le> length rest"
  shows "AppendForChunk s (pre @ rest) off =
           Some ((pre @ concat es) @ drop (length (concat es)) rest)"
  using assms by (simp add: AppendForChunk_def seg_rep_rd memcpy_append)

section \<open>Properties\<close>

text \<open>Splitting a segment behind the entry that holds a given byte position, as the tree
  builder does at a chunk boundary, succeeds on every segment: the first part holds exactly the
  entries up to and including the one with that byte, the second part the remaining ones, and
  the bytes of both parts together are the bytes of the segment.\<close>

lemma split_at_boundary:
  assumes "seg_rep s es" and "pos < seg_num_bytes s"
  shows "\<exists>idx s1 s2. PosToIdx s pos = Some idx \<and> Split s (idx + 1) = Some (s1, s2) \<and>
           seg_rep s1 (take (idx + 1) es) \<and> seg_rep s2 (drop (idx + 1) es) \<and>
           length (concat (take idx es)) \<le> pos \<and> pos < length (concat (take (idx + 1) es))"
proof -
  have pos: "pos < length (concat es)"
    using assms by (simp add: seg_rep_num_bytes)
  then have "es \<noteq> []" "entry_at es pos + 1 \<le> length es"
    using entry_at_less[OF pos] by auto
  from Split_rep[OF assms(1) this] show ?thesis
    using PosToIdx_rep[OF assms(1) pos] entry_at_bounds[OF pos] by auto
qed

end
