(* ===== verification/Framing.thy ===== *)
theory Framing
  imports Chunks Segments
begin

text \<open>
  What the nodes with entries of variable length have in common (meta, map, set and list nodes):
  the data of the chunk is the number of entries in four bytes, followed by the entries.  The
  loops here are the ones that src/node/meta_node.cc, map_node.cc, set_node.cc and list_node.cc
  repeat; the node theories instantiate them with the accessors of their entries.

  The locales \<open>entry_format\<close> and \<open>keyed_format\<close> are the interface between an entry format and
  these loops: what the accessors of one entry must return, when other entries follow it.
\<close>

section \<open>Loops over the entries of a chunk\<close>

text \<open>\<open>PrecomputeOffsets\<close> without keys: \<open>nb p\<close> is the size of the entry at \<open>p\<close>.\<close>

fun scan_offsets :: "(bytes \<Rightarrow> nat option) \<Rightarrow> nat \<Rightarrow> bytes \<Rightarrow> nat \<Rightarrow> nat list option" where
  "scan_offsets nb 0 d off = Some []"
| "scan_offsets nb (Suc n) d off =
     do { k \<leftarrow> nb (drop off d);
          os \<leftarrow> scan_offsets nb n d (off + k);
          Some (off # os) }"

text \<open>The check of a key against the previous one, which is absent for the first entry.\<close>

definition check_key ::
    "(OrderedKey \<Rightarrow> OrderedKey \<Rightarrow> bool option) \<Rightarrow> OrderedKey option \<Rightarrow> OrderedKey \<Rightarrow> unit option" where
  "check_key cmp pre cur =
     (case pre of None \<Rightarrow> Some () | Some pk \<Rightarrow> do { l \<leftarrow> cmp pk cur; CHECK l })"

text \<open>\<open>PrecomputeOffsets\<close> of map and set nodes, which also checks the order of the keys.\<close>

fun scan_keyed :: "(bytes \<Rightarrow> nat option) \<Rightarrow> (bytes \<Rightarrow> OrderedKey option) \<Rightarrow> nat \<Rightarrow> bytes \<Rightarrow> nat \<Rightarrow>
    OrderedKey option \<Rightarrow> nat list option" where
  "scan_keyed nb key 0 d off pre = Some []"
| "scan_keyed nb key (Suc n) d off pre =
     do { k \<leftarrow> nb (drop off d);
          cur \<leftarrow> key (drop off d);
          check_key key_less pre cur;
          os \<leftarrow> scan_keyed nb key n d (off + k) (Some cur);
          Some (off # os) }"

definition var_numEntries :: "chunk \<Rightarrow> nat option" where
  "var_numEntries c = rd 4 (chunk_data c) 0"

definition var_data :: "chunk \<Rightarrow> nat list \<Rightarrow> nat \<Rightarrow> bytes option" where
  "var_data c offs idx =
     do { n \<leftarrow> var_numEntries c;
          CHECK (idx < n);
          off \<leftarrow> nth_opt offs idx;
          Some (drop off (chunk_data c)) }"

definition var_len :: "chunk \<Rightarrow> nat list \<Rightarrow> nat \<Rightarrow> nat option" where
  "var_len c offs idx =
     do { n \<leftarrow> var_numEntries c;
          preOffset \<leftarrow> (if idx = sub64 n 1 then chunk_capacity c else nth_opt offs (idx + 1));
          off \<leftarrow> nth_opt offs idx;
          Some (sub64 preOffset off) }"

definition var_GetSegment :: "nat option \<Rightarrow> (nat \<Rightarrow> bytes option) \<Rightarrow> (nat \<Rightarrow> nat option) \<Rightarrow>
    nat \<Rightarrow> nat \<Rightarrow> segment option" where
  "var_GetSegment numEntries data len start num_elements =
     do { n \<leftarrow> numEntries;
          CHECK (start < n);
          if num_elements = 0 then do { d \<leftarrow> data start; Some (VarSegment d 0 []) }
          else do { let bound = (start + num_elements) mod 2 ^ 64;
                    CHECK (bound \<le> n);
                    lens \<leftarrow> those (map len [start..<bound]);
                    d \<leftarrow> data start;
                    Some (VarSegment d (sum_list lens) (running 0 lens)) } }"

fun find_key_loop :: "(bytes \<Rightarrow> OrderedKey option) \<Rightarrow> bytes \<Rightarrow> OrderedKey \<Rightarrow> nat \<Rightarrow> nat list \<Rightarrow>
    nat option" where
  "find_key_loop key d k idx [] = Some idx"
| "find_key_loop key d k idx (off # offs) =
     do { currKey \<leftarrow> key (drop off d);
          e \<leftarrow> key_eq currKey k;
          if e then Some idx
          else do { g \<leftarrow> key_greater currKey k;
                    if g then Some idx else find_key_loop key d k (idx + 1) offs } }"

section \<open>Loops of the chunkers\<close>

text \<open>The totals over the segments of a new chunk; map, set and list chunkers check that no
  segment is empty.\<close>

definition total_numBytes :: "segment list \<Rightarrow> nat" where
  "total_numBytes segs = sum_list (map seg_num_bytes segs)"

definition total_numEntries :: "segment list \<Rightarrow> nat" where
  "total_numEntries segs = sum_list (map numEntries_seg segs)"

text \<open>The inner loop over the entries of one segment, which leaves the last key in \<open>pre\<close>.\<close>

fun key_check_loop :: "(OrderedKey \<Rightarrow> OrderedKey \<Rightarrow> bool option) \<Rightarrow> (bytes \<Rightarrow> OrderedKey option) \<Rightarrow>
    segment \<Rightarrow> nat list \<Rightarrow> OrderedKey option \<Rightarrow> OrderedKey option option" where
  "key_check_loop cmp key seg [] pre = Some pre"
| "key_check_loop cmp key seg (idx # idxs) pre =
     do { p \<leftarrow> entry_seg seg idx;
          cur \<leftarrow> key p;
          check_key cmp pre cur;
          key_check_loop cmp key seg idxs (Some cur) }"

text \<open>The outer loop, which copies the segments one behind the other.\<close>

fun append_loop :: "segment list \<Rightarrow> chunk \<Rightarrow> nat \<Rightarrow> chunk option" where
  "append_loop [] c off = Some c"
| "append_loop (seg # segs) c off =
     do { c \<leftarrow> AppendForChunk seg c (kMetaLength + off);
          append_loop segs c (off + seg_num_bytes seg) }"

fun append_keyed_loop :: "(OrderedKey \<Rightarrow> OrderedKey \<Rightarrow> bool option) \<Rightarrow> (bytes \<Rightarrow> OrderedKey option) \<Rightarrow>
    segment list \<Rightarrow> chunk \<Rightarrow> nat \<Rightarrow> OrderedKey option \<Rightarrow> (chunk \<times> OrderedKey option) option" where
  "append_keyed_loop cmp key [] c off pre = Some (c, pre)"
| "append_keyed_loop cmp key (seg # segs) c off pre =
     do { pre \<leftarrow> key_check_loop cmp key seg [0..<numEntries_seg seg] pre;
          c \<leftarrow> AppendForChunk seg c (kMetaLength + off);
          append_keyed_loop cmp key segs c (off + seg_num_bytes seg) pre }"

text \<open>The order check of the encoders over the keys of the items.\<close>

fun check_keys :: "(OrderedKey \<Rightarrow> OrderedKey \<Rightarrow> bool option) \<Rightarrow> OrderedKey option \<Rightarrow>
    OrderedKey list \<Rightarrow> unit option" where
  "check_keys cmp pre [] = Some ()"
| "check_keys cmp pre (k # ks) = do { check_key cmp pre k; check_keys cmp (Some k) ks }"

text \<open>The loop of the encoders: \<open>enc buf off x\<close> writes item \<open>x\<close> at \<open>off\<close> and
  returns the buffer and the number of bytes written; the loop collects the offsets.\<close>

fun encode_loop :: "(bytes \<Rightarrow> nat \<Rightarrow> 'a \<Rightarrow> (bytes \<times> nat) option) \<Rightarrow> 'a list \<Rightarrow> bytes \<Rightarrow> nat \<Rightarrow>
    (bytes \<times> nat \<times> nat list) option" where
  "encode_loop enc [] buf off = Some (buf, off, [])"
| "encode_loop enc (x # xs) buf off =
     do { (buf, n) \<leftarrow> enc buf off x;
          (buf, end, offs) \<leftarrow> encode_loop enc xs buf (off + n);
          Some (buf, end, off # offs) }"

text \<open>A \<open>Slice\<close> into memory: a pointer and a length.\<close>

type_synonym slice = "bytes \<times> nat"

definition slice_bytes :: "slice \<Rightarrow> bytes option" where
  "slice_bytes s = rd_bytes (snd s) (fst s) 0"

text \<open>A \<open>ChunkInfo\<close>: the new chunk and the segment with its one meta entry.\<close>

type_synonym chunk_info = "chunk \<times> segment"

definition meta_seg :: "bytes \<Rightarrow> segment" where
  "meta_seg e = VarSegment e (length e) [0]"

text \<open>The body that map and set chunkers share; they differ in the type of the chunk and in how
  the key of an entry is read.  The key of a chunk without entries is default-constructed; its
  fields are uninitialised in the code, and it stands here as the empty key.\<close>

definition keyed_Make :: "(bytes \<Rightarrow> bytes) \<Rightarrow> ChunkType \<Rightarrow> (bytes \<Rightarrow> OrderedKey option) \<Rightarrow>
    segment list \<Rightarrow> chunk_info option" where
  "keyed_Make hf t key segments =
     do { CHECK (list_all (\<lambda>seg. \<not> empty_seg seg) segments);
          let num_entries = total_numEntries segments;
          let chunk_num_bytes = 4 + total_numBytes segments;
          chunk \<leftarrow> m_data_write (Chunk t chunk_num_bytes) 0 (le_bytes 4 num_entries);
          (chunk, preKey) \<leftarrow> append_keyed_loop key_less key segments chunk 4 None;
          h \<leftarrow> chunk_hash hf chunk;
          me \<leftarrow> MetaEntry_Encode 1 num_entries h
                  (case preKey of None \<Rightarrow> KeyData [] | Some k \<Rightarrow> k);
          Some (chunk, meta_seg me) }"

section \<open>Chunks of framed entries\<close>

definition var_payload :: "bytes list \<Rightarrow> bytes" where
  "var_payload es = le_bytes 4 (length es) @ concat es"

definition var_chunk :: "ChunkType \<Rightarrow> bytes list \<Rightarrow> chunk" where
  "var_chunk t es = chunk_of t (var_payload es)"

definition var_offsets :: "bytes list \<Rightarrow> nat list" where
  "var_offsets es = running 4 (map length es)"

definition var_fits :: "bytes list \<Rightarrow> bool" where
  "var_fits es \<longleftrightarrow> chunk_fits (var_payload es) \<and> (\<forall>e \<in> set es. e \<noteq> [])"

lemma length_le_concat: "\<forall>e \<in> set es. e \<noteq> [] \<Longrightarrow> length es \<le> length (concat es)"
proof (induction es)
  case (Cons e es)
  then show ?case by (cases e) auto
qed simp

lemma var_fits_length: "var_fits es \<Longrightarrow> length es < 2 ^ 32"
  using length_le_concat[of es] by (simp add: var_fits_def chunk_fits_def var_payload_def)

lemma length_var_offsets [simp]: "length (var_offsets es) = length es"
  by (simp add: var_offsets_def)

lemma nth_var_offsets:
  "i < length es \<Longrightarrow> var_offsets es ! i = 4 + length (concat (take i es))"
  by (simp add: var_offsets_def nth_running length_concat take_map)

lemma drop_var_payload:
  assumes "i \<le> length es"
  shows "drop (4 + length (concat (take i es))) (var_payload es) = concat (drop i es)"
  using drop_length_concat_take[OF assms] by (simp add: var_payload_def length_concat)

lemma chunk_data_var [simp]: "chunk_data (var_chunk t es) = var_payload es"
  by (simp add: var_chunk_def)

lemma var_numEntries_var [simp]:
  "var_fits es \<Longrightarrow> var_numEntries (var_chunk t es) = Some (length es)"
  using var_fits_length[of es] by (simp add: var_numEntries_def var_payload_def rd_0_append)

lemma var_data_var:
  assumes "var_fits es" "i < length es"
  shows "var_data (var_chunk t es) (var_offsets es) i = Some (concat (drop i es))"
  using assms drop_var_payload[of i es] by (simp add: var_data_def nth_var_offsets)

lemma concat_take_Suc:
  "i < length es \<Longrightarrow> length (concat (take (Suc i) es)) = length (concat (take i es)) + length (es ! i)"
  by (simp add: take_Suc_conv_app_nth)

lemma var_len_var:
  assumes "var_fits es" "i < length es"
  shows "var_len (var_chunk t es) (var_offsets es) i = Some (length (es ! i))"
proof (cases "i = length es - 1")
  case True
  then have "take (Suc i) es = es" using assms(2) by simp
  then have "length (concat es) = length (concat (take i es)) + length (es ! i)"
    using concat_take_Suc[OF assms(2)] by simp
  moreover have "chunk_capacity (var_chunk t es) = Some (4 + length (concat es))"
    using assms(1) by (simp add: var_chunk_def var_fits_def var_payload_def)
  ultimately show ?thesis
    using True assms by (simp add: var_len_def nth_var_offsets)
next
  case False
  with assms have "Suc i < length es" by simp
  with False assms concat_take_Suc[OF assms(2)] show ?thesis
    by (simp add: var_len_def nth_var_offsets)
qed

lemma var_GetSegment_var:
  assumes fits: "var_fits es" and range: "start < length es" "start + n \<le> length es"
    and data: "\<And>i. i < length es \<Longrightarrow> data i = Some (concat (drop i es))"
    and len: "\<And>i. i < length es \<Longrightarrow> len i = Some (length (es ! i))"
  shows "\<exists>s. var_GetSegment (Some (length es)) data len start n = Some s \<and>
           seg_rep s (take n (drop start es))"
proof -
  let ?es = "take n (drop start es)"
  have ne: "\<forall>e \<in> set ?es. e \<noteq> []"
    using fits by (auto simp: var_fits_def dest!: in_set_takeD in_set_dropD)
  have tk: "take (length (concat ?es)) (concat (drop start es)) = concat ?es"
    by (metis append_eq_conv_conj append_take_drop_id concat_append)
  show ?thesis
  proof (cases "n = 0")
    case True
    with range data show ?thesis
      by (auto simp: var_GetSegment_def seg_rep_def)
  next
    case False
    have "those (map len [start..<start + n]) = Some (map (\<lambda>i. length (es ! i)) [start..<start + n])"
      using len range by (intro those_map_eq_Some) auto
    moreover have "map (\<lambda>i. length (es ! i)) [start..<start + n] = map length ?es"
      using range by (intro nth_equalityI) auto
    moreover have "(start + n) mod 2 ^ 64 = start + n" using range(2) var_fits_length[OF fits] by simp
    ultimately show ?thesis
      using False range data tk ne
      by (auto simp: var_GetSegment_def seg_rep_def length_concat Let_def)
  qed
qed

section \<open>The interface of an entry format\<close>

text \<open>The order check over a list of keys, and the key it leaves behind.\<close>

fun chain_ok :: "(OrderedKey \<Rightarrow> OrderedKey \<Rightarrow> bool option) \<Rightarrow> OrderedKey option \<Rightarrow> OrderedKey list \<Rightarrow>
    bool" where
  "chain_ok cmp pre [] = True"
| "chain_ok cmp pre (k # ks) = (check_key cmp pre k = Some () \<and> chain_ok cmp (Some k) ks)"

definition last_key :: "OrderedKey option \<Rightarrow> OrderedKey list \<Rightarrow> OrderedKey option" where
  "last_key pre ks = (if ks = [] then pre else Some (last ks))"

lemma last_key_simps [simp]:
  "last_key pre [] = pre"
  "last_key pre (k # ks) = last_key (Some k) ks"
  by (auto simp: last_key_def)

lemma last_key_append: "last_key pre (ks @ ls) = last_key (last_key pre ks) ls"
  by (auto simp: last_key_def)

lemma chain_ok_append:
  "chain_ok cmp pre (ks @ ls) \<longleftrightarrow> chain_ok cmp pre ks \<and> chain_ok cmp (last_key pre ks) ls"
  by (induction cmp pre ks rule: chain_ok.induct) auto

lemma check_key_bind:
  "Option.bind (check_key cmp pre k) (\<lambda>_. f) = (if check_key cmp pre k = Some () then f else None)"
  by (cases "check_key cmp pre k") auto

text \<open>For keys that are byte strings, the strict check says that they increase.\<close>

lemma chain_ok_less_Data:
  "chain_ok key_less (Some (KeyData k)) (map KeyData ks) \<longleftrightarrow> sorted_wrt (<) (k # ks)"
proof (induction ks arbitrary: k)
  case (Cons l ks)
  then show ?case
    by (auto simp: check_key_def intro: order.strict_trans)
qed simp

lemma chain_ok_None_less_Data:
  "chain_ok key_less None (map KeyData ks) \<longleftrightarrow> sorted_wrt (<) ks"
  by (cases ks) (auto simp: check_key_def chain_ok_less_Data)

locale entry_format =
  fixes valid :: "bytes \<Rightarrow> bool"
    and nb :: "bytes \<Rightarrow> nat option"
  assumes nb_valid: "valid e \<Longrightarrow> nb (e @ rest) = Some (length e)"
    and valid_nonempty: "valid e \<Longrightarrow> e \<noteq> []"
begin

lemma scan_offsets_valid:
  assumes "\<forall>e \<in> set es. valid e"
  shows "scan_offsets nb (length es) (pre @ concat es @ post) (length pre) =
           Some (running (length pre) (map length es))"
  using assms
proof (induction es arbitrary: pre)
  case (Cons e es)
  from Cons.IH[of "pre @ e"] Cons.prems show ?case
    by (simp add: nb_valid)
qed simp

lemma scan_offsets_payload:
  assumes "\<forall>e \<in> set es. valid e"
  shows "scan_offsets nb (length es) (var_payload es) 4 = Some (var_offsets es)"
  using scan_offsets_valid[OF assms, of "le_bytes 4 (length es)" "[]"]
  by (simp add: var_payload_def var_offsets_def)

end

locale keyed_format = entry_format +
  fixes key :: "bytes \<Rightarrow> OrderedKey option"
    and key_of :: "bytes \<Rightarrow> OrderedKey"
  assumes key_valid: "valid e \<Longrightarrow> key (e @ rest) = Some (key_of e)"
begin

lemma scan_keyed_valid:
  assumes "\<forall>e \<in> set es. valid e"
  shows "scan_keyed nb key (length es) (pre @ concat es @ post) (length pre) k =
           (if chain_ok key_less k (map key_of es)
            then Some (running (length pre) (map length es)) else None)"
  using assms
proof (induction es arbitrary: pre k)
  case (Cons e es)
  from Cons.IH[of "pre @ e"] Cons.prems show ?case
    by (simp add: nb_valid key_valid check_key_bind)
qed simp

lemma scan_keyed_payload:
  assumes "\<forall>e \<in> set es. valid e"
  shows "scan_keyed nb key (length es) (var_payload es) 4 None =
           (if chain_ok key_less None (map key_of es) then Some (var_offsets es) else None)"
  using scan_keyed_valid[OF assms, of "le_bytes 4 (length es)" "[]"]
  by (simp add: var_payload_def var_offsets_def)

text \<open>The search for a key stops at the first one that is not smaller.\<close>

lemma find_key_loop_valid:
  assumes "\<forall>e \<in> set es. valid e" and "map key_of es = map KeyData ks"
  shows "find_key_loop key (pre @ concat es @ post) (KeyData x) idx
           (running (length pre) (map length es)) =
         Some (idx + length (takeWhile (\<lambda>k. k < x) ks))"
  using assms
proof (induction es arbitrary: pre ks idx)
  case (Cons e es)
  then obtain k ks' where ks: "ks = k # ks'" "key_of e = KeyData k" "map key_of es = map KeyData ks'"
    by (cases ks) auto
  have "key (drop (length pre) (pre @ concat (e # es) @ post)) = Some (KeyData k)"
    using Cons.prems ks by (simp add: key_valid)
  with Cons.IH[of ks' "pre @ e" "Suc idx"] Cons.prems ks show ?case
    by (auto simp: not_less)
qed simp

lemma find_key_payload:
  assumes "\<forall>e \<in> set es. valid e" and "map key_of es = map KeyData ks"
  shows "find_key_loop key (var_payload es) (KeyData x) 0 (var_offsets es) =
         Some (length (takeWhile (\<lambda>k. k < x) ks))"
  using find_key_loop_valid[OF assms, of "le_bytes 4 (length es)" "[]" x 0]
  by (simp add: var_payload_def var_offsets_def)

text \<open>The key check of a chunker over one segment.\<close>

lemma key_check_loop_from:
  assumes rep: "seg_rep seg es" and valid: "\<forall>e \<in> set es. valid e" and "i \<le> length es"
  shows "key_check_loop cmp key seg [i..<length es] pre =
           (if chain_ok cmp pre (map key_of (drop i es))
            then Some (last_key pre (map key_of (drop i es))) else None)"
  using assms(3)
proof (induction "length es - i" arbitrary: i pre)
  case (Suc n)
  then have i: "i < length es" by simp
  obtain rest where "entry_seg seg i = Some (es ! i @ rest)"
    using seg_rep_entry[OF rep i] by auto
  moreover have "key (es ! i @ rest) = Some (key_of (es ! i))"
    using valid i by (intro key_valid) simp
  moreover have "drop i es = es ! i # drop (Suc i) es"
    using i by (simp add: Cons_nth_drop_Suc)
  ultimately show ?case
    using Suc.hyps(1)[of "Suc i" "Some (key_of (es ! i))"] Suc.hyps(2) i
    by (simp add: upt_conv_Cons check_key_bind)
qed simp

lemma key_check_loop_rep:
  assumes "seg_rep seg es" and "\<forall>e \<in> set es. valid e"
  shows "key_check_loop cmp key seg [0..<length es] pre =
           (if chain_ok cmp pre (map key_of es)
            then Some (last_key pre (map key_of es)) else None)"
  using key_check_loop_from[OF assms, of 0] by simp

end

section \<open>Copying segments into a chunk\<close>

definition segs_rep :: "segment list \<Rightarrow> bytes list list \<Rightarrow> bool" where
  "segs_rep segs ess \<longleftrightarrow> list_all2 seg_rep segs ess"

lemma segs_rep_Nil [simp]: "segs_rep [] ess \<longleftrightarrow> ess = []"
  by (auto simp: segs_rep_def)

lemma segs_rep_Cons: "segs_rep (s # segs) ess \<longleftrightarrow>
   (\<exists>es ess'. ess = es # ess' \<and> seg_rep s es \<and> segs_rep segs ess')"
  by (auto simp: segs_rep_def list_all2_Cons1)

lemma segs_rep_append: "segs_rep ss ess \<Longrightarrow> segs_rep ts fss \<Longrightarrow> segs_rep (ss @ ts) (ess @ fss)"
  by (simp add: segs_rep_def list_all2_appendI)

lemma segs_rep_totals:
  "segs_rep segs ess \<Longrightarrow> total_numBytes segs = length (concat (concat ess))"
  "segs_rep segs ess \<Longrightarrow> total_numEntries segs = length (concat ess)"
  unfolding segs_rep_def
  by (induction segs ess rule: list_all2_induct)
    (auto simp: total_numBytes_def total_numEntries_def seg_rep_num_bytes)

lemma segs_rep_nonempty: "segs_rep segs ess \<Longrightarrow> e \<in> set (concat ess) \<Longrightarrow> e \<noteq> []"
  unfolding segs_rep_def
  by (induction segs ess rule: list_all2_induct) (auto dest: seg_rep_nonempty)

text \<open>A chunk with \<open>pre\<close> written and room for the rest, as its constructor leaves it.\<close>

lemma AppendForChunk_chunk:
  assumes "seg_rep s es" and "length (concat es) \<le> length rest"
  shows "AppendForChunk s (chunk_of t (pre @ rest)) (kMetaLength + length pre) =
           Some (chunk_of t ((pre @ concat es) @ drop (length (concat es)) rest))"
proof -
  have "memcpy (chunk_of t (pre @ rest)) (kMetaLength + length pre) (concat es) =
      Some (chunk_of t ((pre @ concat es) @ drop (length (concat es)) rest))"
    using m_data_write_chunk_of[OF refl assms(2), of t pre] by (simp add: m_data_write_def)
  then show ?thesis
    using assms(1) by (simp add: AppendForChunk_def seg_rep_rd)
qed

lemma append_loop_rep:
  assumes "segs_rep segs ess" and "length rest = length (concat (concat ess))"
  shows "append_loop segs (chunk_of t (pre @ rest)) (length pre) =
           Some (chunk_of t (pre @ concat (concat ess)))"
  using assms
proof (induction segs arbitrary: ess pre rest)
  case (Cons s segs)
  then obtain es ess' where e: "ess = es # ess'" "seg_rep s es" "segs_rep segs ess'"
    by (auto simp: segs_rep_Cons)
  have l: "length (concat es) \<le> length rest" using Cons.prems(2) e(1) by simp
  have "append_loop segs (chunk_of t ((pre @ concat es) @ drop (length (concat es)) rest))
      (length (pre @ concat es)) = Some (chunk_of t ((pre @ concat es) @ concat (concat ess')))"
    using Cons.IH[OF e(3), of "drop (length (concat es)) rest" "pre @ concat es"] Cons.prems(2) e(1)
    by simp
  with AppendForChunk_chunk[OF e(2) l] seg_rep_num_bytes[OF e(2)] e(1) show ?case
    by simp
qed simp

context keyed_format
begin

lemma append_keyed_loop_rep:
  assumes "segs_rep segs ess" and "length rest = length (concat (concat ess))"
    and "\<forall>e \<in> set (concat ess). valid e"
  shows "append_keyed_loop cmp key segs (chunk_of t (pre @ rest)) (length pre) k =
           (if chain_ok cmp k (map key_of (concat ess))
            then Some (chunk_of t (pre @ concat (concat ess)), last_key k (map key_of (concat ess)))
            else None)"
  using assms
proof (induction segs arbitrary: ess pre rest k)
  case (Cons s segs)
  then obtain es ess' where e: "ess = es # ess'" "seg_rep s es" "segs_rep segs ess'"
    by (auto simp: segs_rep_Cons)
  have l: "length (concat es) \<le> length rest" using Cons.prems(2) e(1) by simp
  have v: "\<forall>e \<in> set es. valid e" using Cons.prems(3) e(1) by simp
  note check = key_check_loop_rep[OF e(2) v, of cmp k]
  let ?k = "last_key k (map key_of es)"
  have "append_keyed_loop cmp key segs (chunk_of t ((pre @ concat es) @ drop (length (concat es)) rest))
      (length (pre @ concat es)) ?k =
      (if chain_ok cmp ?k (map key_of (concat ess'))
       then Some (chunk_of t ((pre @ concat es) @ concat (concat ess')),
                  last_key ?k (map key_of (concat ess'))) else None)"
    using Cons.prems e by (intro Cons.IH) auto
  with AppendForChunk_chunk[OF e(2) l] seg_rep_num_bytes[OF e(2)] e check show ?case
    by (simp add: chain_ok_append last_key_append)
qed simp

end

lemma seg_rep_meta_seg: "e \<noteq> [] \<Longrightarrow> seg_rep (meta_seg e) [e]"
  by (simp add: seg_rep_def meta_seg_def)

text \<open>What every chunker does first: allocate, and write the number of entries.\<close>

lemma Chunk_init:
  assumes "kMetaLength + (4 + n) < 2 ^ 32"
  shows "m_data_write (Chunk t (4 + n)) 0 (le_bytes 4 m) =
           Some (chunk_of t (le_bytes 4 m @ replicate n 0))"
  unfolding Chunk_eq_chunk_of[OF assms]
  using m_data_write_chunk_of[of "[]" 0 "le_bytes 4 m" "replicate (4 + n) 0" t] by simp

lemma segs_rep_empty: "segs_rep segs ess \<Longrightarrow>
  list_all (\<lambda>s. \<not> empty_seg s) segs \<longleftrightarrow> (\<forall>es \<in> set ess. es \<noteq> [])"
  unfolding segs_rep_def by (induction segs ess rule: list_all2_induct) auto

text \<open>The meta entry of a leaf chunk with entries \<open>es\<close>, and the result of the chunker.\<close>

definition leaf_me :: "(bytes \<Rightarrow> bytes) \<Rightarrow> ChunkType \<Rightarrow> OrderedKey \<Rightarrow> bytes list \<Rightarrow> meta_entry" where
  "leaf_me hf t k es =
     \<lparr>me_leaves = 1, me_elements = length es, me_hash = hf (var_chunk t es), me_key = k\<rparr>"

definition top_key :: "OrderedKey list \<Rightarrow> OrderedKey" where
  "top_key ks = (case last_key None ks of None \<Rightarrow> KeyData [] | Some k \<Rightarrow> k)"

lemma top_key_simps [simp]: "top_key [] = KeyData []" "ks \<noteq> [] \<Longrightarrow> top_key ks = last ks"
  by (simp_all add: top_key_def last_key_def)

lemma leaf_me_ok:
  assumes "var_fits es" and "digest_ok hf" and "key_ok k"
  shows "me_ok (leaf_me hf t k es)"
  using var_fits_length[OF assms(1)] assms(2,3) by (simp add: leaf_me_def me_ok_def)

lemma leaf_me_Encode:
  assumes "digest_ok hf" and "key_ok k"
  shows "MetaEntry_Encode 1 (length es) (hf (var_chunk t es)) k = Some (me_bytes (leaf_me hf t k es))"
  unfolding leaf_me_def by (rule MetaEntry_Encode_eq[OF digest_okD[OF assms(1)] key_ok_numBytes[OF assms(2)]])

locale keyed_leaf = keyed_format +
  assumes key_of_ok: "valid e \<Longrightarrow> key_ok (key_of e)"
begin

lemma top_key_ok: "\<forall>e \<in> set es. valid e \<Longrightarrow> key_ok (top_key (map key_of es))"
  using key_of_ok by (cases es rule: rev_cases) (auto simp: top_key_def last_key_def)

lemma keyed_Make_eq:
  assumes segs: "segs_rep segs ess" and ne: "\<forall>es \<in> set ess. es \<noteq> []"
    and valid: "\<forall>e \<in> set (concat ess). valid e" and fits: "var_fits (concat ess)"
    and hf: "digest_ok hf"
  shows "keyed_Make hf t key segs =
    (if chain_ok key_less None (map key_of (concat ess))
     then Some (var_chunk t (concat ess),
       meta_seg (me_bytes (leaf_me hf t (top_key (map key_of (concat ess))) (concat ess))))
     else None)"
proof -
  let ?es = "concat ess"
  have "kMetaLength + (4 + length (concat ?es)) < 2 ^ 32"
    using fits by (simp add: var_fits_def chunk_fits_def var_payload_def)
  note init = Chunk_init[OF this, of t "length ?es"]
  have "append_keyed_loop key_less key segs
      (chunk_of t (le_bytes 4 (length ?es) @ replicate (length (concat ?es)) 0))
      (length (le_bytes 4 (length ?es))) None =
    (if chain_ok key_less None (map key_of ?es)
     then Some (chunk_of t (le_bytes 4 (length ?es) @ concat ?es),
                last_key None (map key_of ?es)) else None)"
    by (rule append_keyed_loop_rep[OF segs _ valid]) simp
  then have loop: "append_keyed_loop key_less key segs
      (chunk_of t (le_bytes 4 (length ?es) @ replicate (length (concat ?es)) 0)) 4 None =
    (if chain_ok key_less None (map key_of ?es)
     then Some (var_chunk t ?es, last_key None (map key_of ?es)) else None)"
    by (simp add: var_chunk_def var_payload_def)
  have hash: "chunk_hash hf (var_chunk t ?es) = Some (hf (var_chunk t ?es))"
    using fits by (simp add: var_chunk_def var_fits_def)
  note enc = leaf_me_Encode[where es = ?es and t = t, OF hf top_key_ok[OF valid]]
  show ?thesis
    using segs_rep_totals[OF segs] segs_rep_empty[OF segs] ne enc
    by (simp add: keyed_Make_def init loop hash top_key_def)
qed

end

lemma check_keys_eq: "check_keys cmp pre ks = (if chain_ok cmp pre ks then Some () else None)"
  by (induction cmp pre ks rule: check_keys.induct) (simp_all add: check_key_bind)

lemma encode_loop_eq:
  assumes enc: "\<And>x pre rest. x \<in> set xs \<Longrightarrow> length (item x) \<le> length rest \<Longrightarrow>
      enc (pre @ rest) (length pre) x =
        Some ((pre @ item x) @ drop (length (item x)) rest, length (item x))"
    and "length rest = length (concat (map item xs))"
  shows "encode_loop enc xs (pre @ rest) (length pre) =
    Some (pre @ concat (map item xs), length pre + length (concat (map item xs)),
          running (length pre) (map (length \<circ> item) xs))"
  using assms
proof (induction xs arbitrary: pre rest)
  case (Cons x xs)
  have l: "length (item x) \<le> length rest" using Cons.prems(2) by simp
  have "encode_loop enc xs ((pre @ item x) @ drop (length (item x)) rest) (length (pre @ item x)) =
    Some ((pre @ item x) @ concat (map item xs), length (pre @ item x) + length (concat (map item xs)),
          running (length (pre @ item x)) (map (length \<circ> item) xs))"
    using Cons.prems by (intro Cons.IH) auto
  then show ?case
    using Cons.prems(1)[OF _ l, of pre] by (simp add: comp_def)
qed simp

text \<open>The segment an encoder returns views the encoded items.\<close>

lemma encode_segment_rep:
  assumes "\<And>x. x \<in> set xs \<Longrightarrow> item x \<noteq> []"
  shows "seg_rep (VarSegment (concat (map item xs)) (length (concat (map item xs)))
           (running 0 (map (length \<circ> item) xs))) (map item xs)"
  using assms by (auto simp: seg_rep_def)

end
