(* ===== verification/Map_Node.thy ===== *)
theory Map_Node
  imports Framing
begin

text \<open>
  Leaf nodes of maps and their chunker: include/node/map_node.h, src/node/map_node.cc.  An item is
  its size (4 bytes), the size of the key (4 bytes), the key and the value; the items of a node are
  in strictly increasing order of their keys.
\<close>

section \<open>Model\<close>

record kv_item =
  kv_key :: bytes
  kv_val :: bytes

definition MapNode_key :: "bytes \<Rightarrow> slice option" where
  "MapNode_key entry = do { key_size \<leftarrow> rd 4 entry 4; Some (drop 8 entry, key_size) }"

definition MapNode_value :: "bytes \<Rightarrow> slice option" where
  "MapNode_value entry =
     do { entry_size \<leftarrow> rd 4 entry 0;
          key_size \<leftarrow> rd 4 entry 4;
          let value_offset = 4 + 4 + key_size;
          Some (drop value_offset entry, sub64 entry_size value_offset) }"

definition MapNode_kvitem :: "bytes \<Rightarrow> (slice \<times> slice \<times> nat) option" where
  "MapNode_kvitem entry =
     do { k \<leftarrow> MapNode_key entry;
          v \<leftarrow> MapNode_value entry;
          Some (k, v, (4 + 4 + snd k + snd v) mod 2 ^ 64) }"

definition MapNode_orderedKey :: "bytes \<Rightarrow> OrderedKey option" where
  "MapNode_orderedKey entry =
     do { k \<leftarrow> MapNode_key entry; OrderedKey_of False (fst k) (snd k) }"

definition MapNode_EncodeNumBytes :: "kv_item \<Rightarrow> nat" where
  "MapNode_EncodeNumBytes kv = 4 + 4 + length (kv_key kv) + length (kv_val kv)"

definition MapNode_Encode_item :: "bytes \<Rightarrow> nat \<Rightarrow> kv_item \<Rightarrow> (bytes \<times> nat) option" where
  "MapNode_Encode_item buffer off kv =
     do { let key_offset = 4 + 4;
          let val_offset = key_offset + length (kv_key kv);
          let item_num_bytes = MapNode_EncodeNumBytes kv;
          buffer \<leftarrow> memcpy buffer (off + 0) (le_bytes 4 item_num_bytes);
          buffer \<leftarrow> memcpy buffer (off + 4) (le_bytes 4 (length (kv_key kv)));
          buffer \<leftarrow> memcpy buffer (off + key_offset) (kv_key kv);
          buffer \<leftarrow> memcpy buffer (off + val_offset) (kv_val kv);
          Some (buffer, item_num_bytes) }"

definition MapNode_Encode :: "kv_item list \<Rightarrow> segment option" where
  "MapNode_Encode items =
     do { CHECK (length items > 0);
          check_keys key_less None (map (KeyData \<circ> kv_key) items);
          let total_num_bytes = sum_list (map MapNode_EncodeNumBytes items);
          (buffer, offset, offsets) \<leftarrow>
            encode_loop MapNode_Encode_item items (replicate total_num_bytes 0) 0;
          Some (VarSegment buffer offset offsets) }"

definition MapChunker_Make :: "(bytes \<Rightarrow> bytes) \<Rightarrow> segment list \<Rightarrow> chunk_info option" where
  "MapChunker_Make hf segments = keyed_Make hf CT_kMap MapNode_orderedKey segments"

text \<open>The node: its chunk and the offsets computed when it is constructed.\<close>

definition MapNode_numEntries :: "chunk \<Rightarrow> nat option" where
  "MapNode_numEntries c = var_numEntries c"

definition MapNode_PrecomputeOffsets :: "chunk \<Rightarrow> nat list option" where
  "MapNode_PrecomputeOffsets c =
     do { n \<leftarrow> MapNode_numEntries c;
          scan_keyed (\<lambda>p. map_option (snd \<circ> snd) (MapNode_kvitem p)) MapNode_orderedKey
            n (chunk_data c) 4 None }"

definition MapNode_data :: "chunk \<Rightarrow> nat list \<Rightarrow> nat \<Rightarrow> bytes option" where
  "MapNode_data c offs idx = var_data c offs idx"

definition MapNode_len :: "chunk \<Rightarrow> nat list \<Rightarrow> nat \<Rightarrow> nat option" where
  "MapNode_len c offs idx = var_len c offs idx"

definition MapNode_key_at :: "chunk \<Rightarrow> nat list \<Rightarrow> nat \<Rightarrow> OrderedKey option" where
  "MapNode_key_at c offs idx = do { p \<leftarrow> MapNode_data c offs idx; MapNode_orderedKey p }"

definition MapNode_FindIndexForKey :: "chunk \<Rightarrow> nat list \<Rightarrow> OrderedKey \<Rightarrow> nat option" where
  "MapNode_FindIndexForKey c offs key =
     find_key_loop MapNode_orderedKey (chunk_data c) key 0 offs"

definition MapNode_GetSegment :: "chunk \<Rightarrow> nat list \<Rightarrow> nat \<Rightarrow> nat \<Rightarrow> segment option" where
  "MapNode_GetSegment c offs start num_elements =
     var_GetSegment (MapNode_numEntries c) (MapNode_data c offs) (MapNode_len c offs)
       start num_elements"

section \<open>Items\<close>

definition map_item :: "kv_item \<Rightarrow> bytes" where
  "map_item kv = le_bytes 4 (8 + length (kv_key kv) + length (kv_val kv)) @
     le_bytes 4 (length (kv_key kv)) @ kv_key kv @ kv_val kv"

definition map_item_ok :: "kv_item \<Rightarrow> bool" where
  "map_item_ok kv \<longleftrightarrow> 8 + length (kv_key kv) + length (kv_val kv) < 2 ^ 32 \<and>
     37 + length (kv_key kv) < 2 ^ 32"

definition map_valid :: "bytes \<Rightarrow> bool" where
  "map_valid e \<longleftrightarrow> (\<exists>kv. map_item_ok kv \<and> e = map_item kv)"

definition map_key_of :: "bytes \<Rightarrow> OrderedKey" where
  "map_key_of e = KeyData (take (le_val (take 4 (drop 4 e))) (drop 8 e))"

lemma length_map_item [simp]:
  "length (map_item kv) = 8 + length (kv_key kv) + length (kv_val kv)"
  by (simp add: map_item_def)

lemma MapNode_key_item [codec]:
  assumes "map_item_ok kv"
  shows "MapNode_key (map_item kv @ rest) = Some (kv_key kv @ kv_val kv @ rest, length (kv_key kv))"
proof -
  have "rd 4 (map_item kv @ rest) 4 = Some (length (kv_key kv))"
    using assms rd_append[of "le_bytes 4 (8 + length (kv_key kv) + length (kv_val kv))" 4 4
        "length (kv_key kv)" "kv_key kv @ kv_val kv @ rest"]
    by (simp add: map_item_def map_item_ok_def)
  then show ?thesis by (simp add: MapNode_key_def) (simp add: map_item_def)
qed

lemma MapNode_value_item [codec]:
  assumes "map_item_ok kv"
  shows "MapNode_value (map_item kv @ rest) = Some (kv_val kv @ rest, length (kv_val kv))"
proof -
  have "rd 4 (map_item kv @ rest) 4 = Some (length (kv_key kv))"
    using assms rd_append[of "le_bytes 4 (8 + length (kv_key kv) + length (kv_val kv))" 4 4
        "length (kv_key kv)" "kv_key kv @ kv_val kv @ rest"]
    by (simp add: map_item_def map_item_ok_def)
  moreover have "rd 4 (map_item kv @ rest) 0 = Some (8 + length (kv_key kv) + length (kv_val kv))"
    using assms by (simp add: map_item_def map_item_ok_def rd_0_append)
  ultimately show ?thesis by (simp add: MapNode_value_def) (simp add: map_item_def)
qed

lemma MapNode_kvitem_item [codec]:
  "map_item_ok kv \<Longrightarrow> MapNode_kvitem (map_item kv @ rest) =
     Some ((kv_key kv @ kv_val kv @ rest, length (kv_key kv)), (kv_val kv @ rest, length (kv_val kv)),
           length (map_item kv))"
  by (simp add: MapNode_kvitem_def codec) (simp add: map_item_ok_def)

lemma MapNode_orderedKey_item [codec]:
  "map_item_ok kv \<Longrightarrow> MapNode_orderedKey (map_item kv @ rest) = Some (KeyData (kv_key kv))"
  by (simp add: MapNode_orderedKey_def codec OrderedKey_of_def rd_bytes_def)

lemma map_key_of_item [simp]:
  "map_item_ok kv \<Longrightarrow> map_key_of (map_item kv) = KeyData (kv_key kv)"
  by (simp add: map_key_of_def map_item_def map_item_ok_def)

interpretation map_fmt: keyed_leaf map_valid
  "\<lambda>p. map_option (snd \<circ> snd) (MapNode_kvitem p)" MapNode_orderedKey map_key_of
  by unfold_locales
    (auto simp: map_valid_def codec, auto simp: map_item_def map_item_ok_def)

lemma MapNode_Encode_item_eq:
  assumes "length (map_item kv) \<le> length rest"
  shows "MapNode_Encode_item (pre @ rest) (length pre) kv =
    Some ((pre @ map_item kv) @ drop (length (map_item kv)) rest, length (map_item kv))"
proof -
  let ?n = "8 + length (kv_key kv) + length (kv_val kv)" and ?k = "kv_key kv"
  have 1: "memcpy (pre @ rest) (length pre) (le_bytes 4 ?n) =
      Some ((pre @ le_bytes 4 ?n) @ drop 4 rest)"
    using assms by (subst memcpy_append) simp_all
  have 2: "memcpy ((pre @ le_bytes 4 ?n) @ drop 4 rest) (length pre + 4) (le_bytes 4 (length ?k)) =
      Some ((pre @ le_bytes 4 ?n @ le_bytes 4 (length ?k)) @ drop 8 rest)"
    using assms by (subst memcpy_append) simp_all
  have 3: "memcpy ((pre @ le_bytes 4 ?n @ le_bytes 4 (length ?k)) @ drop 8 rest) (length pre + 8) ?k =
      Some ((pre @ le_bytes 4 ?n @ le_bytes 4 (length ?k) @ ?k) @ drop (8 + length ?k) rest)"
    using assms by (subst memcpy_append) (simp_all add: add.commute)
  have 4: "memcpy ((pre @ le_bytes 4 ?n @ le_bytes 4 (length ?k) @ ?k) @ drop (8 + length ?k) rest)
      (length pre + (8 + length ?k)) (kv_val kv) =
      Some ((pre @ le_bytes 4 ?n @ le_bytes 4 (length ?k) @ ?k @ kv_val kv) @ drop ?n rest)"
    using assms by (subst memcpy_append) (simp_all add: add.commute add.left_commute)
  show ?thesis
    unfolding MapNode_Encode_item_def MapNode_EncodeNumBytes_def Let_def
    using 1 2 3 4 by (simp add: map_item_def add.assoc)
qed

section \<open>Encoding, chunking and reading back\<close>

lemma map_items_valid: "\<forall>kv \<in> set items. map_item_ok kv \<Longrightarrow> \<forall>e \<in> set (map map_item items). map_valid e"
  by (auto simp: map_valid_def)

lemma map_items_keys:
  "\<forall>kv \<in> set items. map_item_ok kv \<Longrightarrow>
   map map_key_of (map map_item items) = map KeyData (map kv_key items)"
  by (induction items) auto

lemma map_item_nonempty [simp]: "map_item kv \<noteq> []"
  by (simp add: map_item_def)

definition map_seg :: "kv_item list \<Rightarrow> segment" where
  "map_seg items = VarSegment (concat (map map_item items)) (length (concat (map map_item items)))
     (running 0 (map (length \<circ> map_item) items))"

lemma map_seg_rep: "seg_rep (map_seg items) (map map_item items)"
  unfolding map_seg_def by (rule encode_segment_rep) simp

lemma MapNode_Encode_eq:
  "MapNode_Encode items =
     (if items \<noteq> [] \<and> sorted_wrt (<) (map kv_key items) then Some (map_seg items) else None)"
proof -
  have total: "sum_list (map MapNode_EncodeNumBytes items) = length (concat (map map_item items))"
    by (induction items) (simp_all add: MapNode_EncodeNumBytes_def)
  have "encode_loop MapNode_Encode_item items
      ([] @ replicate (length (concat (map map_item items))) 0) (length ([] :: bytes)) =
    Some ([] @ concat (map map_item items), length ([] :: bytes) + length (concat (map map_item items)),
      running (length ([] :: bytes)) (map (length \<circ> map_item) items))"
    by (rule encode_loop_eq) (simp_all only: MapNode_Encode_item_eq length_replicate)
  then have loop: "encode_loop MapNode_Encode_item items
      (replicate (sum_list (map MapNode_EncodeNumBytes items)) 0) 0 =
    Some (concat (map map_item items), length (concat (map map_item items)),
      running 0 (map (length \<circ> map_item) items))"
    by (simp add: total)
  have chain: "chain_ok key_less None (map (KeyData \<circ> kv_key) items) =
      sorted_wrt (<) (map kv_key items)"
    using chain_ok_None_less_Data[of "map kv_key items"] by (simp add: comp_def)
  show ?thesis
    by (simp add: MapNode_Encode_def loop check_keys_eq chain map_seg_def)
qed

text \<open>The chunker on well-formed items: it makes the chunk exactly when the keys increase.\<close>

lemma MapChunker_Make_eq:
  assumes "segs_rep segs ess" and "\<forall>es \<in> set ess. es \<noteq> []"
    and "\<forall>e \<in> set (concat ess). map_valid e" and "var_fits (concat ess)"
    and "digest_ok hf"
  shows "MapChunker_Make hf segs =
    (if chain_ok key_less None (map map_key_of (concat ess))
     then Some (var_chunk CT_kMap (concat ess), meta_seg (me_bytes
       (leaf_me hf CT_kMap (top_key (map map_key_of (concat ess))) (concat ess))))
     else None)"
  unfolding MapChunker_Make_def by (rule map_fmt.keyed_Make_eq[OF assms])

lemma MapNode_parse:
  assumes "\<forall>e \<in> set es. map_valid e" and "var_fits es"
  shows "MapNode_PrecomputeOffsets (var_chunk CT_kMap es) =
    (if chain_ok key_less None (map map_key_of es) then Some (var_offsets es) else None)"
  using assms map_fmt.scan_keyed_payload[of es]
  by (simp add: MapNode_PrecomputeOffsets_def MapNode_numEntries_def)

lemma MapNode_parsed:
  assumes "\<forall>e \<in> set es. map_valid e" and "var_fits es" and "i < length es"
  shows "MapNode_data (var_chunk t es) (var_offsets es) i = Some (concat (drop i es))"
    and "MapNode_len (var_chunk t es) (var_offsets es) i = Some (length (es ! i))"
    and "MapNode_key_at (var_chunk t es) (var_offsets es) i = Some (map_key_of (es ! i))"
proof -
  show data: "MapNode_data (var_chunk t es) (var_offsets es) i = Some (concat (drop i es))"
    using assms by (simp add: MapNode_data_def var_data_var)
  show "MapNode_len (var_chunk t es) (var_offsets es) i = Some (length (es ! i))"
    using assms by (simp add: MapNode_len_def var_len_var)
  have "concat (drop i es) = es ! i @ concat (drop (Suc i) es)"
    using assms(3) by (metis Cons_nth_drop_Suc concat.simps(2))
  with data assms show "MapNode_key_at (var_chunk t es) (var_offsets es) i = Some (map_key_of (es ! i))"
    by (simp add: MapNode_key_at_def map_fmt.key_valid)
qed

lemma MapNode_GetSegment_rep:
  assumes "\<forall>e \<in> set es. map_valid e" and "var_fits es"
    and "start < length es" and "start + n \<le> length es"
  shows "\<exists>s. MapNode_GetSegment (var_chunk t es) (var_offsets es) start n = Some s \<and>
           seg_rep s (take n (drop start es))"
  using var_GetSegment_var[OF assms(2-4) MapNode_parsed(1)[OF assms(1,2)] MapNode_parsed(2)[OF assms(1,2)]]
    assms(2) by (simp add: MapNode_GetSegment_def MapNode_numEntries_def)

lemma MapNode_FindIndexForKey_eq:
  assumes "\<forall>e \<in> set es. map_valid e" and "map map_key_of es = map KeyData ks"
  shows "MapNode_FindIndexForKey (var_chunk t es) (var_offsets es) (KeyData x) =
           Some (length (takeWhile (\<lambda>k. k < x) ks))"
  using map_fmt.find_key_payload[OF assms] by (simp add: MapNode_FindIndexForKey_def)

section \<open>Properties\<close>

definition map_items_fit :: "kv_item list \<Rightarrow> bool" where
  "map_items_fit items \<longleftrightarrow>
     (\<forall>kv \<in> set items. map_item_ok kv) \<and> kMetaLength + 4 + length (concat (map map_item items)) < 2 ^ 32"

lemma map_items_var_fits: "map_items_fit items \<Longrightarrow> var_fits (map map_item items)"
  by (auto simp: map_items_fit_def var_fits_def chunk_fits_def var_payload_def)

text \<open>A map leaf reads back what was written: encoding a non-empty list of items with strictly
  increasing keys and chunking the segment succeeds; the node parsed from the chunk has one entry
  per item, the accessors of entry \<open>i\<close> return the key and the value of item \<open>i\<close>, and the
  search for a key returns the number of smaller keys.\<close>


lemma map_leaf_roundtrip:
  assumes "items \<noteq> []" and "sorted_wrt (<) (map kv_key items)" and "map_items_fit items"
    and "digest_ok hf"
  shows "\<exists>seg c me offs. MapNode_Encode items = Some seg \<and> MapChunker_Make hf [seg] = Some (c, me) \<and>
    MapNode_PrecomputeOffsets c = Some offs \<and> MapNode_numEntries c = Some (length items) \<and>
    (\<forall>i < length items. \<exists>p k v n. MapNode_data c offs i = Some p \<and>
       MapNode_kvitem p = Some (k, v, n) \<and> MapNode_len c offs i = Some n \<and>
       slice_bytes k = Some (kv_key (items ! i)) \<and> slice_bytes v = Some (kv_val (items ! i))) \<and>
    (\<forall>x. MapNode_FindIndexForKey c offs (KeyData x) =
       Some (length (filter (\<lambda>kv. kv_key kv < x) items)))"
proof -
  let ?es = "map map_item items" and ?c = "var_chunk CT_kMap (map map_item items)"
  let ?offs = "var_offsets (map map_item items)"
  have ok: "\<forall>kv \<in> set items. map_item_ok kv" using assms(3) by (simp add: map_items_fit_def)
  note valid = map_items_valid[OF ok] and keys = map_items_keys[OF ok]
  note fits = map_items_var_fits[OF assms(3)]
  have chain: "chain_ok key_less None (map map_key_of ?es)"
    using assms(2) unfolding keys chain_ok_None_less_Data .
  have seg: "MapNode_Encode items = Some (map_seg items)"
    using assms(1,2) by (simp add: MapNode_Encode_eq)
  have "segs_rep [map_seg items] [?es]"
    by (simp add: segs_rep_Cons map_seg_rep)
  from MapChunker_Make_eq[OF this _ _ _ assms(4)] obtain me
    where make: "MapChunker_Make hf [map_seg items] = Some (?c, me)"
    using assms(1) valid fits chain by auto
  have parse: "MapNode_PrecomputeOffsets ?c = Some ?offs"
    using MapNode_parse[OF valid fits] chain by simp
  have entry: "\<exists>p k v n. MapNode_data ?c ?offs i = Some p \<and> MapNode_kvitem p = Some (k, v, n) \<and>
       MapNode_len ?c ?offs i = Some n \<and>
       slice_bytes k = Some (kv_key (items ! i)) \<and> slice_bytes v = Some (kv_val (items ! i))"
    if i: "i < length items" for i
  proof -
    have "concat (drop i ?es) = map_item (items ! i) @ concat (drop (Suc i) ?es)"
      using i by (metis Cons_nth_drop_Suc concat.simps(2) length_map nth_map)
    with i ok MapNode_parsed(1,2)[OF valid fits, of i] show ?thesis
      by (simp add: codec slice_bytes_def rd_bytes_def)
  qed
  have find: "MapNode_FindIndexForKey ?c ?offs (KeyData x) =
      Some (length (filter (\<lambda>kv. kv_key kv < x) items))" for x
  proof -
    have "takeWhile (\<lambda>k. k < x) (map kv_key items) = filter (\<lambda>k. k < x) (map kv_key items)"
      using assms(2)
      by (induction items) (auto simp: filter_empty_conv filter_map dest: order.strict_trans)
    with MapNode_FindIndexForKey_eq[OF valid keys, of CT_kMap x] show ?thesis
      by (simp add: filter_map comp_def)
  qed
  show ?thesis
    using seg make parse entry find fits by (auto simp: MapNode_numEntries_def)
qed

end
