(* ===== verification/Set_Node.thy ===== *)
theory Set_Node
  imports Framing
begin

text \<open>
  Leaf nodes of sets and their chunker: include/node/set_node.h, src/node/set_node.cc.  An item is
  its size, which counts the size field itself, and the key; the items of a node are in strictly
  increasing order.
\<close>

section \<open>Model\<close>

definition SetNode_key :: "bytes \<Rightarrow> slice option" where
  "SetNode_key entry = do { n \<leftarrow> rd 4 entry 0; Some (drop 4 entry, sub64 n 4) }"

definition SetNode_item :: "bytes \<Rightarrow> (slice \<times> nat) option" where
  "SetNode_item entry =
     do { k \<leftarrow> SetNode_key entry; Some (k, (4 + snd k) mod 2 ^ 64) }"

definition SetNode_orderedKey :: "bytes \<Rightarrow> OrderedKey option" where
  "SetNode_orderedKey entry =
     do { k \<leftarrow> SetNode_key entry; OrderedKey_of False (fst k) (snd k) }"

definition SetNode_EncodeNumBytes :: "bytes \<Rightarrow> nat" where
  "SetNode_EncodeNumBytes item = 4 + length item"

definition SetNode_Encode_item :: "bytes \<Rightarrow> nat \<Rightarrow> bytes \<Rightarrow> (bytes \<times> nat) option" where
  "SetNode_Encode_item buffer off item =
     do { let item_num_bytes = SetNode_EncodeNumBytes item;
          buffer \<leftarrow> memcpy buffer (off + 0) (le_bytes 4 item_num_bytes);
          buffer \<leftarrow> memcpy buffer (off + 4) item;
          Some (buffer, item_num_bytes) }"

definition SetNode_Encode :: "bytes list \<Rightarrow> segment option" where
  "SetNode_Encode items =
     do { CHECK (length items > 0);
          check_keys key_less None (map KeyData items);
          let total_num_bytes = sum_list (map SetNode_EncodeNumBytes items);
          (buffer, offset, offsets) \<leftarrow>
            encode_loop SetNode_Encode_item items (replicate total_num_bytes 0) 0;
          Some (VarSegment buffer offset offsets) }"

definition SetChunker_Make :: "(bytes \<Rightarrow> bytes) \<Rightarrow> segment list \<Rightarrow> chunk_info option" where
  "SetChunker_Make hf segments = keyed_Make hf CT_kSet SetNode_orderedKey segments"

definition SetNode_numEntries :: "chunk \<Rightarrow> nat option" where
  "SetNode_numEntries c = var_numEntries c"

definition SetNode_PrecomputeOffsets :: "chunk \<Rightarrow> nat list option" where
  "SetNode_PrecomputeOffsets c =
     do { n \<leftarrow> SetNode_numEntries c;
          scan_keyed (\<lambda>p. map_option snd (SetNode_item p)) SetNode_orderedKey
            n (chunk_data c) 4 None }"

definition SetNode_data :: "chunk \<Rightarrow> nat list \<Rightarrow> nat \<Rightarrow> bytes option" where
  "SetNode_data c offs idx = var_data c offs idx"

definition SetNode_len :: "chunk \<Rightarrow> nat list \<Rightarrow> nat \<Rightarrow> nat option" where
  "SetNode_len c offs idx = var_len c offs idx"

definition SetNode_key_at :: "chunk \<Rightarrow> nat list \<Rightarrow> nat \<Rightarrow> OrderedKey option" where
  "SetNode_key_at c offs idx = do { p \<leftarrow> SetNode_data c offs idx; SetNode_orderedKey p }"

definition SetNode_FindIndexForKey :: "chunk \<Rightarrow> nat list \<Rightarrow> OrderedKey \<Rightarrow> nat option" where
  "SetNode_FindIndexForKey c offs key =
     find_key_loop SetNode_orderedKey (chunk_data c) key 0 offs"

definition SetNode_GetSegment :: "chunk \<Rightarrow> nat list \<Rightarrow> nat \<Rightarrow> nat \<Rightarrow> segment option" where
  "SetNode_GetSegment c offs start num_elements =
     var_GetSegment (SetNode_numEntries c) (SetNode_data c offs) (SetNode_len c offs)
       start num_elements"

section \<open>Items\<close>

definition set_item :: "bytes \<Rightarrow> bytes" where
  "set_item k = le_bytes 4 (4 + length k) @ k"

definition set_item_ok :: "bytes \<Rightarrow> bool" where
  "set_item_ok k \<longleftrightarrow> 37 + length k < 2 ^ 32"

definition set_valid :: "bytes \<Rightarrow> bool" where
  "set_valid e \<longleftrightarrow> (\<exists>k. set_item_ok k \<and> e = set_item k)"

definition set_key_of :: "bytes \<Rightarrow> OrderedKey" where
  "set_key_of e = KeyData (drop 4 e)"

lemma length_set_item [simp]: "length (set_item k) = 4 + length k"
  by (simp add: set_item_def)

lemma set_item_nonempty [simp]: "set_item k \<noteq> []"
  by (simp add: set_item_def)

lemma SetNode_key_item [codec]:
  "set_item_ok k \<Longrightarrow> SetNode_key (set_item k @ rest) = Some (k @ rest, length k)"
  by (simp add: SetNode_key_def set_item_def set_item_ok_def rd_0_append)

lemma SetNode_item_item [codec]:
  "set_item_ok k \<Longrightarrow> SetNode_item (set_item k @ rest) = Some ((k @ rest, length k), length (set_item k))"
  by (simp add: SetNode_item_def codec) (simp add: set_item_ok_def)

lemma SetNode_orderedKey_item [codec]:
  "set_item_ok k \<Longrightarrow> SetNode_orderedKey (set_item k @ rest) = Some (KeyData k)"
  by (simp add: SetNode_orderedKey_def codec OrderedKey_of_def rd_bytes_def)

lemma set_key_of_item [simp]: "set_key_of (set_item k) = KeyData k"
  by (simp add: set_key_of_def set_item_def)

interpretation set_fmt: keyed_leaf set_valid
  "\<lambda>p. map_option snd (SetNode_item p)" SetNode_orderedKey set_key_of
  by unfold_locales (auto simp: set_valid_def codec, auto simp: set_item_ok_def)

lemma SetNode_Encode_item_eq:
  assumes "length (set_item k) \<le> length rest"
  shows "SetNode_Encode_item (pre @ rest) (length pre) k =
    Some ((pre @ set_item k) @ drop (length (set_item k)) rest, length (set_item k))"
proof -
  have 1: "memcpy (pre @ rest) (length pre) (le_bytes 4 (4 + length k)) =
      Some ((pre @ le_bytes 4 (4 + length k)) @ drop 4 rest)"
    using assms by (subst memcpy_append) simp_all
  have 2: "memcpy ((pre @ le_bytes 4 (4 + length k)) @ drop 4 rest) (length pre + 4) k =
      Some ((pre @ le_bytes 4 (4 + length k) @ k) @ drop (4 + length k) rest)"
    using assms by (subst memcpy_append) (simp_all add: add.commute)
  show ?thesis
    unfolding SetNode_Encode_item_def SetNode_EncodeNumBytes_def Let_def
    using 1 2 by (simp add: set_item_def)
qed

section \<open>Encoding, chunking and reading back\<close>

lemma set_items_valid: "\<forall>k \<in> set items. set_item_ok k \<Longrightarrow> \<forall>e \<in> set (map set_item items). set_valid e"
  by (auto simp: set_valid_def)

lemma set_items_keys: "map set_key_of (map set_item items) = map KeyData items"
  by (induction items) auto

definition set_seg :: "bytes list \<Rightarrow> segment" where
  "set_seg items = VarSegment (concat (map set_item items)) (length (concat (map set_item items)))
     (running 0 (map (length \<circ> set_item) items))"

lemma set_seg_rep: "seg_rep (set_seg items) (map set_item items)"
  unfolding set_seg_def by (rule encode_segment_rep) simp

lemma SetNode_Encode_eq:
  "SetNode_Encode items =
     (if items \<noteq> [] \<and> sorted_wrt (<) items then Some (set_seg items) else None)"
proof -
  have total: "sum_list (map SetNode_EncodeNumBytes items) = length (concat (map set_item items))"
    by (induction items) (simp_all add: SetNode_EncodeNumBytes_def)
  have "encode_loop SetNode_Encode_item items
      ([] @ replicate (length (concat (map set_item items))) 0) (length ([] :: bytes)) =
    Some ([] @ concat (map set_item items), length ([] :: bytes) + length (concat (map set_item items)),
      running (length ([] :: bytes)) (map (length \<circ> set_item) items))"
    by (rule encode_loop_eq) (simp_all only: SetNode_Encode_item_eq length_replicate)
  then have loop: "encode_loop SetNode_Encode_item items
      (replicate (sum_list (map SetNode_EncodeNumBytes items)) 0) 0 =
    Some (concat (map set_item items), length (concat (map set_item items)),
      running 0 (map (length \<circ> set_item) items))"
    by (simp add: total)
  show ?thesis
    by (simp add: SetNode_Encode_def loop check_keys_eq chain_ok_None_less_Data set_seg_def)
qed

lemma SetChunker_Make_eq:
  assumes "segs_rep segs ess" and "\<forall>es \<in> set ess. es \<noteq> []"
    and "\<forall>e \<in> set (concat ess). set_valid e" and "var_fits (concat ess)" and "digest_ok hf"
  shows "SetChunker_Make hf segs =
    (if chain_ok key_less None (map set_key_of (concat ess))
     then Some (var_chunk CT_kSet (concat ess), meta_seg (me_bytes
       (leaf_me hf CT_kSet (top_key (map set_key_of (concat ess))) (concat ess))))
     else None)"
  unfolding SetChunker_Make_def by (rule set_fmt.keyed_Make_eq[OF assms])

lemma SetNode_parse:
  assumes "\<forall>e \<in> set es. set_valid e" and "var_fits es"
  shows "SetNode_PrecomputeOffsets (var_chunk CT_kSet es) =
    (if chain_ok key_less None (map set_key_of es) then Some (var_offsets es) else None)"
  using assms set_fmt.scan_keyed_payload[of es]
  by (simp add: SetNode_PrecomputeOffsets_def SetNode_numEntries_def)

lemma SetNode_parsed:
  assumes "\<forall>e \<in> set es. set_valid e" and "var_fits es" and "i < length es"
  shows "SetNode_data (var_chunk t es) (var_offsets es) i = Some (concat (drop i es))"
    and "SetNode_len (var_chunk t es) (var_offsets es) i = Some (length (es ! i))"
    and "SetNode_key_at (var_chunk t es) (var_offsets es) i = Some (set_key_of (es ! i))"
proof -
  show data: "SetNode_data (var_chunk t es) (var_offsets es) i = Some (concat (drop i es))"
    using assms by (simp add: SetNode_data_def var_data_var)
  show "SetNode_len (var_chunk t es) (var_offsets es) i = Some (length (es ! i))"
    using assms by (simp add: SetNode_len_def var_len_var)
  have "concat (drop i es) = es ! i @ concat (drop (Suc i) es)"
    using assms(3) by (metis Cons_nth_drop_Suc concat.simps(2))
  with data assms show "SetNode_key_at (var_chunk t es) (var_offsets es) i = Some (set_key_of (es ! i))"
    by (simp add: SetNode_key_at_def set_fmt.key_valid)
qed

lemma SetNode_GetSegment_rep:
  assumes "\<forall>e \<in> set es. set_valid e" and "var_fits es"
    and "start < length es" and "start + n \<le> length es"
  shows "\<exists>s. SetNode_GetSegment (var_chunk t es) (var_offsets es) start n = Some s \<and>
           seg_rep s (take n (drop start es))"
  using var_GetSegment_var[OF assms(2-4) SetNode_parsed(1)[OF assms(1,2)] SetNode_parsed(2)[OF assms(1,2)]]
    assms(2) by (simp add: SetNode_GetSegment_def SetNode_numEntries_def)

lemma SetNode_FindIndexForKey_eq:
  assumes "\<forall>e \<in> set es. set_valid e" and "map set_key_of es = map KeyData ks"
  shows "SetNode_FindIndexForKey (var_chunk t es) (var_offsets es) (KeyData x) =
           Some (length (takeWhile (\<lambda>k. k < x) ks))"
  using set_fmt.find_key_payload[OF assms] by (simp add: SetNode_FindIndexForKey_def)

end
