(* ===== verification/List_Node.thy ===== *)
theory List_Node
  imports Framing
begin

text \<open>
  Leaf nodes of lists and of blobs and their chunkers: include/node/list_node.h,
  src/node/list_node.cc, include/node/blob_node.h, src/node/blob_node.cc.  A list element is its
  size, which counts the size field itself, and its bytes; the data of a blob chunk are the bytes
  of the blob.
\<close>

section \<open>List nodes\<close>

definition ListNode_Encode_item :: "bytes \<Rightarrow> nat \<Rightarrow> bytes \<Rightarrow> (bytes \<times> nat) option" where
  "ListNode_Encode_item buf off element =
     do { buf \<leftarrow> memcpy buf off (le_bytes 4 (length element + 4));
          buf \<leftarrow> memcpy buf (off + 4) element;
          Some (buf, 4 + length element) }"

definition ListNode_Encode :: "bytes list \<Rightarrow> segment option" where
  "ListNode_Encode elements =
     do { let lens = map (\<lambda>element. 4 + length element) elements;
          let offsets = running 0 lens;
          let seg_num_bytes = sum_list lens;
          (buf, _, _) \<leftarrow> encode_loop ListNode_Encode_item elements (replicate seg_num_bytes 0) 0;
          Some (VarSegment buf seg_num_bytes offsets) }"

definition ListNode_Decode :: "bytes \<Rightarrow> slice option" where
  "ListNode_Decode data = do { n \<leftarrow> rd 4 data 0; Some (drop 4 data, sub64 n 4) }"

definition ListChunker_Make :: "(bytes \<Rightarrow> bytes) \<Rightarrow> segment list \<Rightarrow> chunk_info option" where
  "ListChunker_Make hf segments =
     do { CHECK (list_all (\<lambda>seg. \<not> empty_seg seg) segments);
          let num_entries = total_numEntries segments;
          let chunk_num_bytes = 4 + total_numBytes segments;
          chunk \<leftarrow> m_data_write (Chunk CT_kList chunk_num_bytes) 0 (le_bytes 4 num_entries);
          chunk \<leftarrow> append_loop segments chunk 4;
          h \<leftarrow> chunk_hash hf chunk;
          me \<leftarrow> MetaEntry_Encode 1 num_entries h (KeyValue 0);
          Some (chunk, meta_seg me) }"

definition ListNode_numEntries :: "chunk \<Rightarrow> nat option" where
  "ListNode_numEntries c = var_numEntries c"

definition ListNode_PrecomputeOffsets :: "chunk \<Rightarrow> nat list option" where
  "ListNode_PrecomputeOffsets c =
     do { n \<leftarrow> ListNode_numEntries c; scan_offsets (\<lambda>p. rd 4 p 0) n (chunk_data c) 4 }"

definition ListNode_data :: "chunk \<Rightarrow> nat list \<Rightarrow> nat \<Rightarrow> bytes option" where
  "ListNode_data c offs idx = var_data c offs idx"

definition ListNode_len :: "chunk \<Rightarrow> nat list \<Rightarrow> nat \<Rightarrow> nat option" where
  "ListNode_len c offs idx = var_len c offs idx"

definition ListNode_GetSegment :: "chunk \<Rightarrow> nat list \<Rightarrow> nat \<Rightarrow> nat \<Rightarrow> segment option" where
  "ListNode_GetSegment c offs start num_elements =
     var_GetSegment (ListNode_numEntries c) (ListNode_data c offs) (ListNode_len c offs)
       start num_elements"

section \<open>Blob nodes\<close>

definition BlobChunker_Make :: "(bytes \<Rightarrow> bytes) \<Rightarrow> segment list \<Rightarrow> chunk_info option" where
  "BlobChunker_Make hf segments =
     do { let chunk_num_bytes = total_numBytes segments;
          let num_entries = total_numEntries segments;
          chunk \<leftarrow> append_loop segments (Chunk CT_kBlob chunk_num_bytes) 0;
          h \<leftarrow> chunk_hash hf chunk;
          me \<leftarrow> MetaEntry_Encode 1 num_entries h (KeyValue 0);
          Some (chunk, meta_seg me) }"

definition BlobNode_numEntries :: "chunk \<Rightarrow> nat option" where
  "BlobNode_numEntries c = chunk_capacity c"

definition BlobNode_data :: "chunk \<Rightarrow> nat \<Rightarrow> bytes" where
  "BlobNode_data c idx = drop idx (chunk_data c)"

definition BlobNode_len :: "nat \<Rightarrow> nat" where
  "BlobNode_len idx = 1"

definition BlobNode_GetLength :: "nat \<Rightarrow> nat \<Rightarrow> nat" where
  "BlobNode_GetLength start end = sub64 end start"

text \<open>\<open>Copy\<close> returns the bytes it copies; their number is the result of the method.\<close>

definition BlobNode_Copy :: "chunk \<Rightarrow> nat \<Rightarrow> nat \<Rightarrow> bytes option" where
  "BlobNode_Copy c start num_bytes =
     do { n \<leftarrow> BlobNode_numEntries c;
          let len = (if (start + num_bytes) mod 2 ^ 64 > n then sub64 n start else num_bytes);
          rd_bytes len (chunk_data c) start }"

definition BlobNode_GetSegment :: "chunk \<Rightarrow> nat \<Rightarrow> nat \<Rightarrow> segment option" where
  "BlobNode_GetSegment c start num_elements =
     do { n \<leftarrow> BlobNode_numEntries c;
          CHECK ((start + num_elements) mod 2 ^ 64 \<le> n);
          Some (FixedSegment (BlobNode_data c start) num_elements 1) }"

section \<open>List elements\<close>

definition list_item :: "bytes \<Rightarrow> bytes" where
  "list_item x = le_bytes 4 (length x + 4) @ x"

definition list_item_ok :: "bytes \<Rightarrow> bool" where
  "list_item_ok x \<longleftrightarrow> length x + 4 < 2 ^ 32"

definition list_valid :: "bytes \<Rightarrow> bool" where
  "list_valid e \<longleftrightarrow> (\<exists>x. list_item_ok x \<and> e = list_item x)"

lemma length_list_item [simp]: "length (list_item x) = 4 + length x"
  by (simp add: list_item_def)

lemma list_item_nonempty [simp]: "list_item x \<noteq> []"
  by (simp add: list_item_def)

lemma ListNode_Decode_item [codec]:
  "list_item_ok x \<Longrightarrow> ListNode_Decode (list_item x @ rest) = Some (x @ rest, length x)"
  by (simp add: ListNode_Decode_def list_item_def list_item_ok_def rd_0_append)

interpretation list_fmt: entry_format list_valid "\<lambda>p. rd 4 p 0"
  by unfold_locales (auto simp: list_valid_def list_item_def list_item_ok_def rd_0_append)

lemma ListNode_Encode_item_eq:
  assumes "length (list_item x) \<le> length rest"
  shows "ListNode_Encode_item (pre @ rest) (length pre) x =
    Some ((pre @ list_item x) @ drop (length (list_item x)) rest, length (list_item x))"
proof -
  have 1: "memcpy (pre @ rest) (length pre) (le_bytes 4 (length x + 4)) =
      Some ((pre @ le_bytes 4 (length x + 4)) @ drop 4 rest)"
    using assms by (subst memcpy_append) simp_all
  have 2: "memcpy ((pre @ le_bytes 4 (length x + 4)) @ drop 4 rest) (length pre + 4) x =
      Some ((pre @ le_bytes 4 (length x + 4) @ x) @ drop (4 + length x) rest)"
    using assms by (subst memcpy_append) (simp_all add: add.commute)
  show ?thesis
    unfolding ListNode_Encode_item_def using 1 2 by (simp add: list_item_def)
qed

lemma list_items_valid:
  "\<forall>x \<in> set xs. list_item_ok x \<Longrightarrow> \<forall>e \<in> set (map list_item xs). list_valid e"
  by (auto simp: list_valid_def)

definition list_seg :: "bytes list \<Rightarrow> segment" where
  "list_seg xs = VarSegment (concat (map list_item xs)) (length (concat (map list_item xs)))
     (running 0 (map (length \<circ> list_item) xs))"

lemma list_seg_rep: "seg_rep (list_seg xs) (map list_item xs)"
  unfolding list_seg_def by (rule encode_segment_rep) simp

lemma ListNode_Encode_eq: "ListNode_Encode xs = Some (list_seg xs)"
proof -
  have lens: "map (\<lambda>x. 4 + length x) xs = map (length \<circ> list_item) xs" by simp
  have total: "sum_list (map (length \<circ> list_item) xs) = length (concat (map list_item xs))"
    by (simp add: length_concat)
  have "encode_loop ListNode_Encode_item xs
      ([] @ replicate (length (concat (map list_item xs))) 0) (length ([] :: bytes)) =
    Some ([] @ concat (map list_item xs), length ([] :: bytes) + length (concat (map list_item xs)),
      running (length ([] :: bytes)) (map (length \<circ> list_item) xs))"
    by (rule encode_loop_eq) (simp_all only: ListNode_Encode_item_eq length_replicate)
  then show ?thesis
    unfolding ListNode_Encode_def Let_def lens total by (simp add: list_seg_def)
qed

lemma ListChunker_Make_eq:
  assumes segs: "segs_rep segs ess" and ne: "\<forall>es \<in> set ess. es \<noteq> []"
    and fits: "var_fits (concat ess)" and hf: "digest_ok hf"
  shows "ListChunker_Make hf segs =
    Some (var_chunk CT_kList (concat ess),
      meta_seg (me_bytes (leaf_me hf CT_kList (KeyValue 0) (concat ess))))"
proof -
  let ?es = "concat ess"
  have "kMetaLength + (4 + length (concat ?es)) < 2 ^ 32"
    using fits by (simp add: var_fits_def chunk_fits_def var_payload_def)
  note init = Chunk_init[OF this, of CT_kList "length ?es"]
  have loop: "append_loop segs
      (chunk_of CT_kList (le_bytes 4 (length ?es) @ replicate (length (concat ?es)) 0)) 4 =
    Some (var_chunk CT_kList ?es)"
    using append_loop_rep[OF segs, of "replicate (length (concat ?es)) 0" CT_kList
        "le_bytes 4 (length ?es)"]
    by (simp add: var_chunk_def var_payload_def)
  have hash: "chunk_hash hf (var_chunk CT_kList ?es) = Some (hf (var_chunk CT_kList ?es))"
    using fits by (simp add: var_chunk_def var_fits_def)
  have "key_ok (KeyValue 0)" by simp
  from leaf_me_Encode[OF hf this, of ?es CT_kList] show ?thesis
    using segs_rep_totals[OF segs] segs_rep_empty[OF segs] ne
    by (simp add: ListChunker_Make_def init loop hash)
qed

lemma ListNode_parse:
  assumes "\<forall>e \<in> set es. list_valid e" and "var_fits es"
  shows "ListNode_PrecomputeOffsets (var_chunk t es) = Some (var_offsets es)"
  using assms list_fmt.scan_offsets_payload[of es]
  by (simp add: ListNode_PrecomputeOffsets_def ListNode_numEntries_def)

lemma ListNode_parsed:
  assumes "var_fits es" and "i < length es"
  shows "ListNode_data (var_chunk t es) (var_offsets es) i = Some (concat (drop i es))"
    and "ListNode_len (var_chunk t es) (var_offsets es) i = Some (length (es ! i))"
  using assms by (simp_all add: ListNode_data_def var_data_var ListNode_len_def var_len_var)

lemma ListNode_GetSegment_rep:
  assumes "var_fits es" and "start < length es" and "start + n \<le> length es"
  shows "\<exists>s. ListNode_GetSegment (var_chunk t es) (var_offsets es) start n = Some s \<and>
           seg_rep s (take n (drop start es))"
  using var_GetSegment_var[OF assms ListNode_parsed(1)[OF assms(1)] ListNode_parsed(2)[OF assms(1)]]
    assms(1) by (simp add: ListNode_GetSegment_def ListNode_numEntries_def)

section \<open>Blob chunks\<close>

text \<open>The entries of a blob are its single bytes.\<close>

definition singles :: "bytes \<Rightarrow> bytes list" where
  "singles d = map (\<lambda>b. [b]) d"

lemma concat_singles [simp]: "concat (singles d) = d"
  by (induction d) (auto simp: singles_def)

lemma length_singles [simp]: "length (singles d) = length d"
  by (simp add: singles_def)

lemma seg_rep_blob: "length d \<le> n \<Longrightarrow> seg_rep (FixedSegment (d @ rest) (length d) 1) (singles d)"
  by (auto simp: seg_rep_def) (auto simp: singles_def)

definition blob_me :: "(bytes \<Rightarrow> bytes) \<Rightarrow> bytes \<Rightarrow> meta_entry" where
  "blob_me hf d = \<lparr>me_leaves = 1, me_elements = length d, me_hash = hf (chunk_of CT_kBlob d),
     me_key = KeyValue 0\<rparr>"

lemma BlobChunker_Make_eq:
  assumes segs: "segs_rep segs ess" and blob: "concat ess = singles d" and fits: "chunk_fits d"
    and hf: "digest_ok hf"
  shows "BlobChunker_Make hf segs = Some (chunk_of CT_kBlob d, meta_seg (me_bytes (blob_me hf d)))"
proof -
  have init: "Chunk CT_kBlob (length d) = chunk_of CT_kBlob (replicate (length d) 0)"
    using fits by (simp add: Chunk_eq_chunk_of chunk_fits_def)
  have loop: "append_loop segs (chunk_of CT_kBlob (replicate (length d) 0)) 0 =
      Some (chunk_of CT_kBlob d)"
    using append_loop_rep[OF segs, of "replicate (length d) 0" CT_kBlob "[]"] by (simp add: blob)
  have "key_ok (KeyValue 0)" by simp
  note enc = MetaEntry_Encode_eq[OF digest_okD[OF hf] key_ok_numBytes[OF this]]
  show ?thesis
    using segs_rep_totals[OF segs] fits
    by (simp add: BlobChunker_Make_def blob init loop enc blob_me_def)
qed

lemma BlobNode_GetSegment_rep:
  assumes "chunk_fits d" and "start + n \<le> length d"
  shows "\<exists>s. BlobNode_GetSegment (chunk_of CT_kBlob d) start n = Some s \<and>
           seg_rep s (singles (take n (drop start d)))"
proof -
  have "seg_rep (FixedSegment (drop start d) n 1) (singles (take n (drop start d)))"
    using assms(2) by (auto simp: seg_rep_def) (auto simp: singles_def)
  with assms show ?thesis
    by (simp add: BlobNode_GetSegment_def BlobNode_numEntries_def BlobNode_data_def)
qed

lemma BlobNode_Copy_eq:
  assumes "chunk_fits d" and "start \<le> length d" and "start + n < 2 ^ 64"
  shows "BlobNode_Copy (chunk_of CT_kBlob d) start n = Some (take n (drop start d))"
  using assms by (auto simp: BlobNode_Copy_def BlobNode_numEntries_def rd_bytes_def)

end
