(* ===== verification/Meta_Node.thy ===== *)
theory Meta_Node
  imports Framing
begin

text \<open>
  Inner nodes of the tree and their chunker: include/node/meta_node.h, src/node/meta_node.cc.  The
  entries are meta entries, in non-descending order of their keys; each names a child by its hash
  and carries the numbers of leaves and elements below it.
\<close>

section \<open>Model\<close>

text \<open>
  The chunker runs over all entries once, checking keys, adding up totals and copying the
  segments.  The key check and the copy are \<open>append_keyed_loop\<close>; the totals of the same
  pass are computed by the two loops here.
\<close>

fun meta_entries_loop :: "segment \<Rightarrow> nat list \<Rightarrow> nat \<Rightarrow> nat \<Rightarrow> (nat \<times> nat) option" where
  "meta_entries_loop seg [] total_num_leaves total_num_elements =
     Some (total_num_leaves, total_num_elements)"
| "meta_entries_loop seg (idx # idxs) total_num_leaves total_num_elements =
     do { me \<leftarrow> entry_seg seg idx;
          e \<leftarrow> MetaEntry_numElements me;
          l \<leftarrow> MetaEntry_numLeaves me;
          meta_entries_loop seg idxs ((total_num_leaves + l) mod 2 ^ 32)
            ((total_num_elements + e) mod 2 ^ 64) }"

fun meta_totals_loop :: "segment list \<Rightarrow> nat \<Rightarrow> nat \<Rightarrow> (nat \<times> nat) option" where
  "meta_totals_loop [] total_num_leaves total_num_elements =
     Some (total_num_leaves, total_num_elements)"
| "meta_totals_loop (seg # segs) total_num_leaves total_num_elements =
     do { (l, e) \<leftarrow> meta_entries_loop seg [0..<numEntries_seg seg] total_num_leaves total_num_elements;
          meta_totals_loop segs l e }"

text \<open>The last entry gives the key of the new meta entry; without any entry the code dereferences
  a null pointer.\<close>

definition MetaChunker_Make :: "(bytes \<Rightarrow> bytes) \<Rightarrow> segment list \<Rightarrow> chunk_info option" where
  "MetaChunker_Make hf segments =
     do { let chunk_num_bytes = 4 + total_numBytes segments;
          let num_entries = total_numEntries segments;
          chunk \<leftarrow> m_data_write (Chunk CT_kMeta chunk_num_bytes) 0 (le_bytes 4 num_entries);
          (chunk, pre_me) \<leftarrow> append_keyed_loop key_le MetaEntry_orderedKey segments chunk 4 None;
          (total_num_leaves, total_num_elements) \<leftarrow> meta_totals_loop segments 0 0;
          key \<leftarrow> pre_me;
          h \<leftarrow> chunk_hash hf chunk;
          me \<leftarrow> MetaEntry_Encode total_num_leaves total_num_elements h key;
          Some (chunk, meta_seg me) }"

definition MetaNode_numEntries :: "chunk \<Rightarrow> nat option" where
  "MetaNode_numEntries c = var_numEntries c"

definition MetaNode_PrecomputeOffset :: "chunk \<Rightarrow> nat list option" where
  "MetaNode_PrecomputeOffset c =
     do { n \<leftarrow> MetaNode_numEntries c; scan_offsets MetaEntry_numBytes n (chunk_data c) 4 }"

definition MetaNode_entryOffset :: "chunk \<Rightarrow> nat list \<Rightarrow> nat \<Rightarrow> nat option" where
  "MetaNode_entryOffset c offs idx =
     do { n \<leftarrow> MetaNode_numEntries c; CHECK (idx < n); nth_opt offs idx }"

definition MetaNode_data :: "chunk \<Rightarrow> nat list \<Rightarrow> nat \<Rightarrow> bytes option" where
  "MetaNode_data c offs idx =
     do { off \<leftarrow> MetaNode_entryOffset c offs idx; Some (drop off (chunk_data c)) }"

definition MetaNode_key :: "chunk \<Rightarrow> nat list \<Rightarrow> nat \<Rightarrow> OrderedKey option" where
  "MetaNode_key c offs idx = do { p \<leftarrow> MetaNode_data c offs idx; MetaEntry_orderedKey p }"

definition MetaNode_len :: "chunk \<Rightarrow> nat list \<Rightarrow> nat \<Rightarrow> nat option" where
  "MetaNode_len c offs idx =
     do { n \<leftarrow> MetaNode_numEntries c;
          CHECK (idx < n);
          off \<leftarrow> MetaNode_entryOffset c offs idx;
          MetaEntry_numBytes (drop off (chunk_data c)) }"

fun elements_loop :: "bytes \<Rightarrow> nat \<Rightarrow> nat \<Rightarrow> nat \<Rightarrow> nat option" where
  "elements_loop d 0 byte_offset total_num_elements = Some total_num_elements"
| "elements_loop d (Suc n) byte_offset total_num_elements =
     do { e \<leftarrow> MetaEntry_numElements (drop byte_offset d);
          entry_len \<leftarrow> MetaEntry_numBytes (drop byte_offset d);
          elements_loop d n (byte_offset + entry_len) ((total_num_elements + e) mod 2 ^ 64) }"

definition MetaNode_numElementsUntilEntry :: "chunk \<Rightarrow> nat \<Rightarrow> nat option" where
  "MetaNode_numElementsUntilEntry c entry_idx =
     do { n \<leftarrow> MetaNode_numEntries c;
          CHECK (entry_idx \<le> n);
          elements_loop (chunk_data c) entry_idx 4 0 }"

definition MetaNode_numElements :: "chunk \<Rightarrow> nat option" where
  "MetaNode_numElements c =
     do { n \<leftarrow> MetaNode_numEntries c; MetaNode_numElementsUntilEntry c n }"

fun leaves_loop :: "chunk \<Rightarrow> nat list \<Rightarrow> nat list \<Rightarrow> nat \<Rightarrow> nat option" where
  "leaves_loop c offs [] total_num_leaves = Some total_num_leaves"
| "leaves_loop c offs (entry_idx # idxs) total_num_leaves =
     do { off \<leftarrow> MetaNode_entryOffset c offs entry_idx;
          l \<leftarrow> MetaEntry_numLeaves (drop off (chunk_data c));
          leaves_loop c offs idxs ((total_num_leaves + l) mod 2 ^ 32) }"

definition MetaNode_numLeaves :: "chunk \<Rightarrow> nat list \<Rightarrow> nat option" where
  "MetaNode_numLeaves c offs =
     do { n \<leftarrow> MetaNode_numEntries c; leaves_loop c offs [0..<n] 0 }"

text \<open>The child lookups return the hash, which is empty (None) when there is none, and the index
  of the entry.\<close>

fun child_by_index_loop :: "bytes \<Rightarrow> nat \<Rightarrow> nat \<Rightarrow> nat \<Rightarrow> nat \<Rightarrow> nat \<Rightarrow> (bytes option \<times> nat) option" where
  "child_by_index_loop d element_idx 0 i byte_offset total_num_elements = Some (None, i)"
| "child_by_index_loop d element_idx (Suc n) i byte_offset total_num_elements =
     do { e \<leftarrow> MetaEntry_numElements (drop byte_offset d);
          let total = (total_num_elements + e) mod 2 ^ 64;
          if element_idx < total
          then do { h \<leftarrow> MetaEntry_targetHash (drop byte_offset d); Some (Some h, i) }
          else do { entry_len \<leftarrow> MetaEntry_numBytes (drop byte_offset d);
                    child_by_index_loop d element_idx n (i + 1) (byte_offset + entry_len) total } }"

definition MetaNode_GetChildHashByIndex :: "chunk \<Rightarrow> nat \<Rightarrow> (bytes option \<times> nat) option" where
  "MetaNode_GetChildHashByIndex c element_idx =
     do { n \<leftarrow> MetaNode_numEntries c;
          CHECK (n > 0);
          child_by_index_loop (chunk_data c) element_idx n 0 4 0 }"

definition MetaNode_GetChildHashByEntry :: "chunk \<Rightarrow> nat list \<Rightarrow> nat \<Rightarrow> bytes option" where
  "MetaNode_GetChildHashByEntry c offs entry_idx =
     do { n \<leftarrow> MetaNode_numEntries c;
          CHECK (entry_idx < n);
          off \<leftarrow> MetaNode_entryOffset c offs entry_idx;
          MetaEntry_targetHash (drop off (chunk_data c)) }"

fun child_by_key_loop :: "bytes \<Rightarrow> OrderedKey \<Rightarrow> nat \<Rightarrow> nat \<Rightarrow> nat \<Rightarrow> (bytes option \<times> nat) option" where
  "child_by_key_loop d key 0 i byte_offset = Some (None, i)"
| "child_by_key_loop d key (Suc n) i byte_offset =
     do { k \<leftarrow> MetaEntry_orderedKey (drop byte_offset d);
          le \<leftarrow> key_le key k;
          if le
          then do { h \<leftarrow> MetaEntry_targetHash (drop byte_offset d); Some (Some h, i) }
          else do { entry_len \<leftarrow> MetaEntry_numBytes (drop byte_offset d);
                    child_by_key_loop d key n (i + 1) (byte_offset + entry_len) } }"

definition MetaNode_GetChildHashByKey :: "chunk \<Rightarrow> OrderedKey \<Rightarrow> (bytes option \<times> nat) option" where
  "MetaNode_GetChildHashByKey c key =
     do { n \<leftarrow> MetaNode_numEntries c;
          CHECK (n > 0);
          child_by_key_loop (chunk_data c) key n 0 4 }"

definition MetaNode_GetSegment :: "chunk \<Rightarrow> nat list \<Rightarrow> nat \<Rightarrow> nat \<Rightarrow> segment option" where
  "MetaNode_GetSegment c offs start num_elements =
     var_GetSegment (MetaNode_numEntries c) (MetaNode_data c offs) (MetaNode_len c offs)
       start num_elements"

section \<open>Entries\<close>

definition meta_valid :: "bytes \<Rightarrow> bool" where
  "meta_valid e \<longleftrightarrow> (\<exists>m. me_ok m \<and> e = me_bytes m)"

text \<open>The meta entry that the bytes encode.\<close>

definition me_of :: "bytes \<Rightarrow> meta_entry" where
  "me_of e = \<lparr>me_leaves = the (MetaEntry_numLeaves e), me_elements = the (MetaEntry_numElements e),
     me_hash = the (MetaEntry_targetHash e), me_key = the (MetaEntry_orderedKey e)\<rparr>"

lemma me_of_bytes [simp]: "me_ok m \<Longrightarrow> me_of (me_bytes m) = m"
  using MetaEntry_numLeaves_bytes[of m "[]"] MetaEntry_numElements_bytes[of m "[]"]
    MetaEntry_targetHash_bytes[of m "[]"] MetaEntry_orderedKey_bytes[of m "[]"]
  by (simp add: me_of_def)

lemma me_bytes_nonempty [simp]: "me_bytes m \<noteq> []"
  by (simp add: me_bytes_def)

lemma meta_valid_bytes [simp]: "me_ok m \<Longrightarrow> meta_valid (me_bytes m)"
  by (auto simp: meta_valid_def)

interpretation meta_fmt: keyed_leaf meta_valid MetaEntry_numBytes MetaEntry_orderedKey
  "\<lambda>e. me_key (me_of e)"
  by unfold_locales (auto simp: meta_valid_def codec simp del: length_me_bytes, auto simp: me_ok_def)

text \<open>A list of meta entries, and its totals.\<close>

definition total_leaves :: "meta_entry list \<Rightarrow> nat" where
  "total_leaves ms = sum_list (map me_leaves ms)"

definition total_elements :: "meta_entry list \<Rightarrow> nat" where
  "total_elements ms = sum_list (map me_elements ms)"

definition metas_ok :: "meta_entry list \<Rightarrow> bool" where
  "metas_ok ms \<longleftrightarrow> (\<forall>m \<in> set ms. me_ok m) \<and> total_leaves ms < 2 ^ 32 \<and> total_elements ms < 2 ^ 64 \<and>
     var_fits (map me_bytes ms)"

lemma metas_ok_valid: "metas_ok ms \<Longrightarrow> \<forall>e \<in> set (map me_bytes ms). meta_valid e"
  by (auto simp: metas_ok_def)

lemma map_me_of_bytes: "\<forall>m \<in> set ms. me_ok m \<Longrightarrow> map me_of (map me_bytes ms) = ms"
  by (induction ms) auto

lemma me_keys_of_bytes:
  "\<forall>m \<in> set ms. me_ok m \<Longrightarrow> map (\<lambda>e. me_key (me_of e)) (map me_bytes ms) = map me_key ms"
  by (induction ms) auto

lemma meta_entries_loop_from:
  assumes rep: "seg_rep seg (map me_bytes ms)" and ok: "\<forall>m \<in> set ms. me_ok m" and "i \<le> length ms"
  shows "meta_entries_loop seg [i..<length ms] (l mod 2 ^ 32) (e mod 2 ^ 64) =
    Some ((l + total_leaves (drop i ms)) mod 2 ^ 32, (e + total_elements (drop i ms)) mod 2 ^ 64)"
  using assms(3)
proof (induction "length ms - i" arbitrary: i l e)
  case (Suc n)
  then have i: "i < length ms" by simp
  obtain rest where "entry_seg seg i = Some (me_bytes (ms ! i) @ rest)"
    using seg_rep_entry[OF rep, of i] i by auto
  moreover have "me_ok (ms ! i)" using ok i by simp
  moreover have "drop i ms = ms ! i # drop (Suc i) ms"
    using i by (simp add: Cons_nth_drop_Suc)
  ultimately show ?case
    using Suc.hyps(1)[of "Suc i" "l + me_leaves (ms ! i)" "e + me_elements (ms ! i)"] Suc.hyps(2) i
    by (simp add: upt_conv_Cons codec total_leaves_def total_elements_def mod_add_left_eq add.assoc)
qed (simp add: total_leaves_def total_elements_def)

lemma meta_totals_loop_rep:
  assumes "segs_rep segs (map (map me_bytes) mss)" and "\<forall>m \<in> set (concat mss). me_ok m"
  shows "meta_totals_loop segs (l mod 2 ^ 32) (e mod 2 ^ 64) =
    Some ((l + total_leaves (concat mss)) mod 2 ^ 32, (e + total_elements (concat mss)) mod 2 ^ 64)"
  using assms
proof (induction segs arbitrary: mss l e)
  case Nil
  then show ?case by (simp add: total_leaves_def total_elements_def)
next
  case (Cons s segs)
  then obtain ms mss' where m: "mss = ms # mss'" "seg_rep s (map me_bytes ms)"
      "segs_rep segs (map (map me_bytes) mss')"
    by (auto simp: segs_rep_Cons map_eq_Cons_conv)
  have "meta_entries_loop s [0..<length ms] (l mod 2 ^ 32) (e mod 2 ^ 64) =
      Some ((l + total_leaves ms) mod 2 ^ 32, (e + total_elements ms) mod 2 ^ 64)"
    using meta_entries_loop_from[OF m(2), of 0 l e] Cons.prems(2) m(1) by simp
  moreover have "numEntries_seg s = length ms"
    using seg_rep_numEntries[OF m(2)] by simp
  ultimately show ?case
    using Cons.IH[OF m(3), of "l + total_leaves ms" "e + total_elements ms"] Cons.prems(2) m(1)
    by (simp add: total_leaves_def total_elements_def add.assoc)
qed

text \<open>The meta entry of an inner node with entries \<open>ms\<close>, and the result of the chunker.\<close>

definition meta_chunk :: "meta_entry list \<Rightarrow> chunk" where
  "meta_chunk ms = var_chunk CT_kMeta (map me_bytes ms)"

definition meta_me :: "(bytes \<Rightarrow> bytes) \<Rightarrow> meta_entry list \<Rightarrow> meta_entry" where
  "meta_me hf ms = \<lparr>me_leaves = total_leaves ms, me_elements = total_elements ms,
     me_hash = hf (meta_chunk ms), me_key = me_key (last ms)\<rparr>"

lemma meta_me_ok: "metas_ok ms \<Longrightarrow> ms \<noteq> [] \<Longrightarrow> digest_ok hf \<Longrightarrow> me_ok (meta_me hf ms)"
  by (auto simp: metas_ok_def me_ok_def[of "meta_me hf ms"] meta_me_def)
    (use last_in_set in \<open>fastforce simp: me_ok_def\<close>)

lemma MetaChunker_Make_eq:
  assumes segs: "segs_rep segs (map (map me_bytes) mss)" and ok: "metas_ok (concat mss)"
    and ne: "concat mss \<noteq> []" and hf: "digest_ok hf"
  shows "MetaChunker_Make hf segs =
    (if chain_ok key_le None (map me_key (concat mss))
     then Some (meta_chunk (concat mss), meta_seg (me_bytes (meta_me hf (concat mss)))) else None)"
proof -
  let ?ms = "concat mss" and ?es = "concat (map (map me_bytes) mss)"
  have es: "?es = map me_bytes ?ms" by (simp add: map_concat)
  have oks: "\<forall>m \<in> set ?ms. me_ok m" and fits: "var_fits (map me_bytes ?ms)"
    using ok by (auto simp: metas_ok_def)
  have valid: "\<forall>e \<in> set ?es. meta_valid e" using metas_ok_valid[OF ok] by (simp only: es)
  have "kMetaLength + (4 + length (concat ?es)) < 2 ^ 32"
    using fits by (simp add: es var_fits_def chunk_fits_def var_payload_def)
  note init = Chunk_init[OF this, of CT_kMeta "length ?es"]
  have keys: "map (\<lambda>e. me_key (me_of e)) ?es = map me_key ?ms"
    unfolding es by (rule me_keys_of_bytes[OF oks])
  have top: "last_key None (map me_key ?ms) = Some (me_key (last ?ms))"
    using last_map[OF ne, of me_key] ne unfolding last_key_def by simp
  have chunk: "chunk_of CT_kMeta (le_bytes 4 (length ?es) @ concat ?es) = meta_chunk ?ms"
    by (simp add: es meta_chunk_def var_chunk_def var_payload_def)
  have loop: "append_keyed_loop key_le MetaEntry_orderedKey segs
      (chunk_of CT_kMeta (le_bytes 4 (length ?es) @ replicate (length (concat ?es)) 0)) 4 None =
    (if chain_ok key_le None (map me_key ?ms)
     then Some (meta_chunk ?ms, Some (me_key (last ?ms))) else None)"
    using meta_fmt.append_keyed_loop_rep[OF segs _ valid, of "replicate (length (concat ?es)) 0" key_le
        CT_kMeta "le_bytes 4 (length ?es)" None]
    unfolding keys top chunk by simp
  have totals: "meta_totals_loop segs 0 0 = Some (total_leaves ?ms, total_elements ?ms)"
    using meta_totals_loop_rep[OF segs oks, of 0 0] ok by (simp add: metas_ok_def)
  have hash: "chunk_hash hf (meta_chunk ?ms) = Some (hf (meta_chunk ?ms))"
    using fits by (simp add: meta_chunk_def var_chunk_def var_fits_def)
  have "me_ok (last ?ms)" using oks last_in_set[OF ne] by blast
  then have "key_ok (me_key (last ?ms))" by (simp add: me_ok_def)
  note enc = MetaEntry_Encode_eq[OF digest_okD[OF hf] key_ok_numBytes[OF this]]
  show ?thesis
    using segs_rep_totals[OF segs] enc
    by (simp add: MetaChunker_Make_def init loop totals hash meta_me_def)
qed

section \<open>Reading inner nodes\<close>

lemma MetaNode_numEntries_eq [simp]:
  "metas_ok ms \<Longrightarrow> MetaNode_numEntries (meta_chunk ms) = Some (length ms)"
  by (simp add: MetaNode_numEntries_def meta_chunk_def metas_ok_def)

lemma MetaNode_parse:
  "metas_ok ms \<Longrightarrow> MetaNode_PrecomputeOffset (meta_chunk ms) = Some (var_offsets (map me_bytes ms))"
  using meta_fmt.scan_offsets_payload[OF metas_ok_valid, of ms]
  by (simp add: MetaNode_PrecomputeOffset_def) (simp add: meta_chunk_def)

lemma drop_meta_payload:
  assumes "i < length ms"
  shows "drop (4 + length (concat (take i (map me_bytes ms)))) (chunk_data (meta_chunk ms)) =
         me_bytes (ms ! i) @ concat (drop (Suc i) (map me_bytes ms))"
proof -
  have "drop i (map me_bytes ms) = me_bytes (ms ! i) # drop (Suc i) (map me_bytes ms)"
    using assms by (metis Cons_nth_drop_Suc length_map nth_map)
  then show ?thesis
    using drop_var_payload[of i "map me_bytes ms"] assms by (simp add: meta_chunk_def)
qed

lemma MetaNode_data_eq:
  assumes "metas_ok ms" and "i < length ms"
  shows "MetaNode_data (meta_chunk ms) (var_offsets (map me_bytes ms)) i =
         Some (concat (drop i (map me_bytes ms)))"
  using assms drop_var_payload[of i "map me_bytes ms"]
  by (simp add: MetaNode_data_def MetaNode_entryOffset_def nth_var_offsets) (simp add: meta_chunk_def)

lemma MetaNode_entry_eq:
  assumes "metas_ok ms" and "i < length ms"
  shows "MetaNode_len (meta_chunk ms) (var_offsets (map me_bytes ms)) i =
           Some (length (map me_bytes ms ! i))"
    and "MetaNode_key (meta_chunk ms) (var_offsets (map me_bytes ms)) i = Some (me_key (ms ! i))"
    and "MetaNode_GetChildHashByEntry (meta_chunk ms) (var_offsets (map me_bytes ms)) i =
           Some (me_hash (ms ! i))"
  using assms drop_meta_payload[OF assms(2)]
  by (simp_all add: MetaNode_len_def MetaNode_key_def MetaNode_data_def MetaNode_entryOffset_def
      MetaNode_GetChildHashByEntry_def nth_var_offsets codec metas_ok_def del: length_me_bytes)

lemma MetaNode_GetSegment_rep:
  assumes "metas_ok ms" and "start < length ms" and "start + n \<le> length ms"
  shows "\<exists>s. MetaNode_GetSegment (meta_chunk ms) (var_offsets (map me_bytes ms)) start n = Some s \<and>
           seg_rep s (map me_bytes (take n (drop start ms)))"
  using var_GetSegment_var[of "map me_bytes ms" start n "MetaNode_data (meta_chunk ms)
      (var_offsets (map me_bytes ms))" "MetaNode_len (meta_chunk ms) (var_offsets (map me_bytes ms))"]
    assms MetaNode_data_eq[OF assms(1)] MetaNode_entry_eq(1)[OF assms(1)]
  by (simp add: MetaNode_GetSegment_def take_map drop_map) (simp add: metas_ok_def)

section \<open>Finding the child of an element or a key\<close>

lemma total_elements_Cons [simp]: "total_elements (m # ms) = me_elements m + total_elements ms"
  by (simp add: total_elements_def)

lemma total_elements_Nil [simp]: "total_elements [] = 0"
  by (simp add: total_elements_def)

lemma total_elements_append [simp]: "total_elements (ms @ ns) = total_elements ms + total_elements ns"
  by (simp add: total_elements_def)

lemma total_elements_take_le: "total_elements (take k ms) \<le> total_elements ms"
  by (metis append_take_drop_id le_add1 total_elements_append)

lemma elements_loop_eq:
  assumes "\<forall>m \<in> set ms. me_ok m" and "k \<le> length ms"
  shows "elements_loop (pre @ concat (map me_bytes ms)) k (length pre) (t mod 2 ^ 64) =
         Some ((t + total_elements (take k ms)) mod 2 ^ 64)"
  using assms
proof (induction ms arbitrary: pre k t)
  case (Cons m ms)
  show ?case
  proof (cases k)
    case (Suc j)
    have "me_ok m" using Cons.prems by simp
    with Suc Cons.prems Cons.IH[of j "pre @ me_bytes m" "t + me_elements m"] show ?thesis
      by (simp add: codec mod_add_left_eq add.assoc del: length_me_bytes)
  qed simp
qed simp

lemma meta_chunk_data: "chunk_data (meta_chunk ms) = le_bytes 4 (length ms) @ concat (map me_bytes ms)"
  by (simp add: meta_chunk_def var_payload_def)

lemma MetaNode_numElementsUntilEntry_eq:
  assumes "metas_ok ms" and "k \<le> length ms"
  shows "MetaNode_numElementsUntilEntry (meta_chunk ms) k = Some (total_elements (take k ms))"
proof -
  have "total_elements (take k ms) < 2 ^ 64"
    using assms(1) total_elements_take_le[of k ms] by (simp add: metas_ok_def)
  then show ?thesis
    using elements_loop_eq[of ms k "le_bytes 4 (length ms)" 0] assms
    by (simp add: MetaNode_numElementsUntilEntry_def meta_chunk_data metas_ok_def[of ms])
qed

lemma MetaNode_numElements_eq:
  "metas_ok ms \<Longrightarrow> MetaNode_numElements (meta_chunk ms) = Some (total_elements ms)"
  using MetaNode_numElementsUntilEntry_eq[of ms "length ms"] by (simp add: MetaNode_numElements_def)

text \<open>The child that holds element \<open>i\<close>, from the sizes of the children.\<close>

fun find_child :: "nat list \<Rightarrow> nat \<Rightarrow> nat" where
  "find_child [] i = 0"
| "find_child (n # ns) i = (if i < n then 0 else Suc (find_child ns (i - n)))"

lemma find_child_le: "find_child ns i \<le> length ns"
  by (induction ns i rule: find_child.induct) auto

lemma find_child_less: "find_child ns i < length ns \<longleftrightarrow> i < sum_list ns"
  by (induction ns i rule: find_child.induct) auto

lemma find_child_bounds:
  "i < sum_list ns \<Longrightarrow> sum_list (take (find_child ns i) ns) \<le> i \<and>
     i - sum_list (take (find_child ns i) ns) < ns ! find_child ns i"
proof (induction ns i rule: find_child.induct)
  case (2 n ns i)
  show ?case
  proof (cases "i < n")
    case False
    with 2(2) have "i - n < sum_list ns" by simp
    from 2(1)[OF False this] False show ?thesis by auto
  qed simp
qed simp

definition child_result :: "meta_entry list \<Rightarrow> nat \<Rightarrow> nat \<Rightarrow> bytes option \<times> nat" where
  "child_result ms base j =
     (if j < length ms then (Some (me_hash (ms ! j)), base + j) else (None, base + length ms))"

lemma child_result_Cons:
  "child_result (m # ms) base 0 = (Some (me_hash m), base)"
  "child_result (m # ms) base (Suc j) = child_result ms (Suc base) j"
  by (auto simp: child_result_def)

lemma child_by_index_loop_eq:
  assumes "\<forall>m \<in> set ms. me_ok m" and "t + total_elements ms < 2 ^ 64" and "t \<le> i"
  shows "child_by_index_loop (pre @ concat (map me_bytes ms)) i (length ms) base (length pre) t =
         Some (child_result ms base (find_child (map me_elements ms) (i - t)))"
  using assms
proof (induction ms arbitrary: pre t base)
  case Nil
  then show ?case by (simp add: child_result_def)
next
  case (Cons m ms)
  have m: "me_ok m" "(t + me_elements m) mod 2 ^ 64 = t + me_elements m"
    using Cons.prems by simp_all
  show ?case
  proof (cases "i < t + me_elements m")
    case True
    then have "i - t < me_elements m" using Cons.prems(3) by linarith
    with True m show ?thesis by (simp add: codec child_result_Cons Let_def)
  next
    case False
    with Cons.prems(3) have "\<not> i - t < me_elements m" "i - t - me_elements m = i - (t + me_elements m)"
      by auto
    with False m Cons.IH[of "t + me_elements m" "pre @ me_bytes m" "Suc base"] Cons.prems show ?thesis
      by (simp add: codec child_result_Cons Let_def del: length_me_bytes)
  qed
qed

lemma MetaNode_GetChildHashByIndex_eq:
  assumes "metas_ok ms" and "ms \<noteq> []"
  shows "MetaNode_GetChildHashByIndex (meta_chunk ms) i =
         Some (child_result ms 0 (find_child (map me_elements ms) i))"
  using child_by_index_loop_eq[of ms 0 i "le_bytes 4 (length ms)" 0] assms
  by (simp add: MetaNode_GetChildHashByIndex_def meta_chunk_data metas_ok_def[of ms])

lemma child_by_key_loop_eq:
  assumes "\<forall>m \<in> set ms. me_ok m" and "map me_key ms = map KeyData ks"
  shows "child_by_key_loop (pre @ concat (map me_bytes ms)) (KeyData x) (length ms) base (length pre) =
         Some (child_result ms base (length (takeWhile (\<lambda>k. k < x) ks)))"
  using assms
proof (induction ms arbitrary: pre ks base)
  case Nil
  then show ?case by (simp add: child_result_def)
next
  case (Cons m ms)
  then obtain k ks' where ks: "ks = k # ks'" "me_key m = KeyData k" "map me_key ms = map KeyData ks'"
    by (cases ks) auto
  have "me_ok m" using Cons.prems by simp
  with ks Cons.IH[of ks' "pre @ me_bytes m" "Suc base"] Cons.prems show ?case
    by (auto simp: codec child_result_Cons not_less simp del: length_me_bytes)
qed

lemma MetaNode_GetChildHashByKey_eq:
  assumes "metas_ok ms" and "ms \<noteq> []" and "map me_key ms = map KeyData ks"
  shows "MetaNode_GetChildHashByKey (meta_chunk ms) (KeyData x) =
         Some (child_result ms 0 (length (takeWhile (\<lambda>k. k < x) ks)))"
  using child_by_key_loop_eq[of ms ks "le_bytes 4 (length ms)" x 0] assms
  by (simp add: MetaNode_GetChildHashByKey_def meta_chunk_data metas_ok_def[of ms])

end
