(* ===== verification/Seq_Node.thy ===== *)
theory Seq_Node
  imports Map_Node Set_Node List_Node Meta_Node
begin

text \<open>
  The nodes of a tree behind one interface: \<open>SeqNode\<close> and \<open>LeafNode\<close> of include/node/node.h
  with \<open>SeqNode::CreateFromChunk\<close> of src/node/node.cc.  A virtual call is a case distinction
  on the constructor of the node.

  The second half describes the tree abstractly: \<open>ptree\<close> is a tree of entries, \<open>tree_chunk\<close>
  and \<open>tree_me\<close> are the chunk and the meta entry that represent it, and \<open>stored\<close> says that a
  loader finds the chunk of every subtree under its hash.
\<close>

section \<open>Model\<close>

datatype seq_node =
    MetaNode chunk "nat list"
  | BlobNode chunk
  | MapNode chunk "nat list"
  | SetNode chunk "nat list"
  | ListNode chunk "nat list"

text \<open>A loader maps a hash to the chunk stored under it.  \<open>Load\<close> of a hash that is not stored
  yields an empty chunk, whose type cannot be read.\<close>

type_synonym loader = "bytes \<Rightarrow> chunk option"

definition CreateFromChunk :: "chunk \<Rightarrow> seq_node option" where
  "CreateFromChunk c =
     do { t \<leftarrow> chunk_type c;
          if t = ChunkType_byte CT_kMeta then map_option (MetaNode c) (MetaNode_PrecomputeOffset c)
          else if t = ChunkType_byte CT_kBlob then Some (BlobNode c)
          else if t = ChunkType_byte CT_kMap then map_option (MapNode c) (MapNode_PrecomputeOffsets c)
          else if t = ChunkType_byte CT_kSet then map_option (SetNode c) (SetNode_PrecomputeOffsets c)
          else if t = ChunkType_byte CT_kList then map_option (ListNode c) (ListNode_PrecomputeOffsets c)
          else None }"

fun node_chunk :: "seq_node \<Rightarrow> chunk" where
  "node_chunk (MetaNode c offs) = c"
| "node_chunk (BlobNode c) = c"
| "node_chunk (MapNode c offs) = c"
| "node_chunk (SetNode c offs) = c"
| "node_chunk (ListNode c offs) = c"

fun isLeaf :: "seq_node \<Rightarrow> bool" where
  "isLeaf (MetaNode c offs) = False"
| "isLeaf _ = True"

fun numEntries :: "seq_node \<Rightarrow> nat option" where
  "numEntries (MetaNode c offs) = MetaNode_numEntries c"
| "numEntries (BlobNode c) = BlobNode_numEntries c"
| "numEntries (MapNode c offs) = MapNode_numEntries c"
| "numEntries (SetNode c offs) = SetNode_numEntries c"
| "numEntries (ListNode c offs) = ListNode_numEntries c"

definition numElements :: "seq_node \<Rightarrow> nat option" where
  "numElements nd = (case nd of MetaNode c offs \<Rightarrow> MetaNode_numElements c | _ \<Rightarrow> numEntries nd)"

definition numLeaves :: "seq_node \<Rightarrow> nat option" where
  "numLeaves nd = (case nd of MetaNode c offs \<Rightarrow> MetaNode_numLeaves c offs | _ \<Rightarrow> Some 1)"

fun node_data :: "seq_node \<Rightarrow> nat \<Rightarrow> bytes option" where
  "node_data (MetaNode c offs) idx = MetaNode_data c offs idx"
| "node_data (BlobNode c) idx = Some (BlobNode_data c idx)"
| "node_data (MapNode c offs) idx = MapNode_data c offs idx"
| "node_data (SetNode c offs) idx = SetNode_data c offs idx"
| "node_data (ListNode c offs) idx = ListNode_data c offs idx"

fun node_len :: "seq_node \<Rightarrow> nat \<Rightarrow> nat option" where
  "node_len (MetaNode c offs) idx = MetaNode_len c offs idx"
| "node_len (BlobNode c) idx = Some (BlobNode_len idx)"
| "node_len (MapNode c offs) idx = MapNode_len c offs idx"
| "node_len (SetNode c offs) idx = SetNode_len c offs idx"
| "node_len (ListNode c offs) idx = ListNode_len c offs idx"

text \<open>List and blob nodes abort when asked for a key.\<close>

fun node_key :: "seq_node \<Rightarrow> nat \<Rightarrow> OrderedKey option" where
  "node_key (MetaNode c offs) idx = MetaNode_key c offs idx"
| "node_key (MapNode c offs) idx = MapNode_key_at c offs idx"
| "node_key (SetNode c offs) idx = SetNode_key_at c offs idx"
| "node_key (BlobNode c) idx = None"
| "node_key (ListNode c offs) idx = None"

fun GetSegment :: "seq_node \<Rightarrow> nat \<Rightarrow> nat \<Rightarrow> segment option" where
  "GetSegment (MetaNode c offs) start n = MetaNode_GetSegment c offs start n"
| "GetSegment (BlobNode c) start n = BlobNode_GetSegment c start n"
| "GetSegment (MapNode c offs) start n = MapNode_GetSegment c offs start n"
| "GetSegment (SetNode c offs) start n = SetNode_GetSegment c offs start n"
| "GetSegment (ListNode c offs) start n = ListNode_GetSegment c offs start n"

text \<open>\<open>FindIndexForKey\<close> of an inner node: the first entry whose key is not smaller names the
  child to search; the elements before it are added up.\<close>

fun meta_find_loop :: "bytes \<Rightarrow> OrderedKey \<Rightarrow> nat list \<Rightarrow> nat \<Rightarrow> (bytes option \<times> nat) option" where
  "meta_find_loop d key [] num_elements_sum = Some (None, num_elements_sum)"
| "meta_find_loop d key (offset # offs) num_elements_sum =
     do { k \<leftarrow> MetaEntry_orderedKey (drop offset d);
          le \<leftarrow> key_le key k;
          if le then do { h \<leftarrow> MetaEntry_targetHash (drop offset d); Some (Some h, num_elements_sum) }
          else do { e \<leftarrow> MetaEntry_numElements (drop offset d);
                    meta_find_loop d key offs ((num_elements_sum + e) mod 2 ^ 64) } }"

partial_function (option) FindIndexForKey ::
    "loader \<Rightarrow> seq_node \<Rightarrow> OrderedKey \<Rightarrow> nat option" where
  "FindIndexForKey ld nd key =
     (case nd of
        MapNode c offs \<Rightarrow> MapNode_FindIndexForKey c offs key
      | SetNode c offs \<Rightarrow> SetNode_FindIndexForKey c offs key
      | ListNode c offs \<Rightarrow> None
      | BlobNode c \<Rightarrow> None
      | MetaNode c offs \<Rightarrow>
          Option.bind (meta_find_loop (chunk_data c) key offs 0) (\<lambda>r.
            case fst r of
              None \<Rightarrow> Some (snd r)
            | Some h \<Rightarrow>
                Option.bind (ld h) (\<lambda>chunk.
                Option.bind (CreateFromChunk chunk) (\<lambda>seq_node.
                Option.bind (FindIndexForKey ld seq_node key) (\<lambda>i.
                  Some ((snd r + i) mod 2 ^ 64))))))"

section \<open>Leaves\<close>

text \<open>The entries a leaf of each type may hold.\<close>

fun entry_valid :: "ChunkType \<Rightarrow> bytes \<Rightarrow> bool" where
  "entry_valid CT_kMap e = map_valid e"
| "entry_valid CT_kSet e = set_valid e"
| "entry_valid CT_kList e = list_valid e"
| "entry_valid CT_kBlob e = (length e = 1)"
| "entry_valid CT_kMeta e = meta_valid e"
| "entry_valid _ e = False"

definition keyed_type :: "ChunkType \<Rightarrow> bool" where
  "keyed_type t \<longleftrightarrow> t = CT_kMap \<or> t = CT_kSet"

definition leaf_type :: "ChunkType \<Rightarrow> bool" where
  "leaf_type t \<longleftrightarrow> t = CT_kMap \<or> t = CT_kSet \<or> t = CT_kList \<or> t = CT_kBlob"

fun entry_key :: "ChunkType \<Rightarrow> bytes \<Rightarrow> OrderedKey" where
  "entry_key CT_kMap = map_key_of"
| "entry_key CT_kSet = set_key_of"
| "entry_key _ = (\<lambda>e. KeyValue 0)"

definition leaf_chunk :: "ChunkType \<Rightarrow> bytes list \<Rightarrow> chunk" where
  "leaf_chunk t es = (if t = CT_kBlob then chunk_of CT_kBlob (concat es) else var_chunk t es)"

definition leaf_fits :: "ChunkType \<Rightarrow> bytes list \<Rightarrow> bool" where
  "leaf_fits t es = (if t = CT_kBlob then chunk_fits (concat es) else var_fits es)"

definition leaf_ok :: "ChunkType \<Rightarrow> bytes list \<Rightarrow> bool" where
  "leaf_ok t es \<longleftrightarrow> leaf_type t \<and> (\<forall>e \<in> set es. entry_valid t e) \<and> leaf_fits t es \<and>
     (keyed_type t \<longrightarrow> chain_ok key_less None (map (entry_key t) es))"

text \<open>The key in the meta entry of a leaf: its largest key, or a padding.\<close>

definition leaf_key :: "ChunkType \<Rightarrow> bytes list \<Rightarrow> OrderedKey" where
  "leaf_key t es = (if keyed_type t then top_key (map (entry_key t) es) else KeyValue 0)"

definition leaf_entry :: "(bytes \<Rightarrow> bytes) \<Rightarrow> ChunkType \<Rightarrow> bytes list \<Rightarrow> meta_entry" where
  "leaf_entry hf t es = \<lparr>me_leaves = 1, me_elements = length es, me_hash = hf (leaf_chunk t es),
     me_key = leaf_key t es\<rparr>"

text \<open>The node object of a leaf chunk.\<close>

fun leaf_node :: "ChunkType \<Rightarrow> bytes list \<Rightarrow> seq_node" where
  "leaf_node CT_kMap es = MapNode (var_chunk CT_kMap es) (var_offsets es)"
| "leaf_node CT_kSet es = SetNode (var_chunk CT_kSet es) (var_offsets es)"
| "leaf_node CT_kList es = ListNode (var_chunk CT_kList es) (var_offsets es)"
| "leaf_node _ es = BlobNode (chunk_of CT_kBlob (concat es))"

lemma leaf_type_cases [consumes 1, case_names Map Set List Blob]:
  assumes "leaf_type t"
  obtains "t = CT_kMap" | "t = CT_kSet" | "t = CT_kList" | "t = CT_kBlob"
  using assms by (auto simp: leaf_type_def)

lemma chunk_type_var [simp]: "chunk_type (var_chunk t es) = Some (ChunkType_byte t)"
  by (simp add: var_chunk_def)

lemma singles_id: "\<forall>e \<in> set es. length e = 1 \<Longrightarrow> singles (concat es) = es"
proof (induction es)
  case (Cons e es)
  then obtain b where "e = [b]" by (cases e) auto
  with Cons show ?case by (simp add: singles_def)
qed (simp add: singles_def)

lemma length_concat_ones: "\<forall>e \<in> set es. length e = 1 \<Longrightarrow> length (concat es) = length es"
  using length_concat_const[of es 1] by simp

lemma CreateFromChunk_leaf:
  assumes "leaf_ok t es"
  shows "CreateFromChunk (leaf_chunk t es) = Some (leaf_node t es)"
proof -
  have "leaf_type t" using assms by (simp add: leaf_ok_def)
  then show ?thesis
  proof (cases rule: leaf_type_cases)
    case Map
    moreover have "MapNode_PrecomputeOffsets (var_chunk t es) = Some (var_offsets es)"
      using assms Map MapNode_parse[of es]
      by (simp add: leaf_ok_def leaf_fits_def keyed_type_def)
    ultimately show ?thesis
      by (simp add: CreateFromChunk_def leaf_chunk_def)
  next
    case Set
    moreover have "SetNode_PrecomputeOffsets (var_chunk t es) = Some (var_offsets es)"
      using assms Set SetNode_parse[of es]
      by (simp add: leaf_ok_def leaf_fits_def keyed_type_def)
    ultimately show ?thesis
      by (simp add: CreateFromChunk_def leaf_chunk_def)
  next
    case List
    moreover have "ListNode_PrecomputeOffsets (var_chunk t es) = Some (var_offsets es)"
      using assms List ListNode_parse[of es] by (simp add: leaf_ok_def leaf_fits_def)
    ultimately show ?thesis
      by (simp add: CreateFromChunk_def leaf_chunk_def)
  next
    case Blob
    then show ?thesis by (simp add: CreateFromChunk_def leaf_chunk_def)
  qed
qed

text \<open>The interface of a node, on its list of entries.\<close>

definition node_rep :: "seq_node \<Rightarrow> bytes list \<Rightarrow> bool" where
  "node_rep nd es \<longleftrightarrow> (\<forall>e \<in> set es. e \<noteq> []) \<and> numEntries nd = Some (length es) \<and>
     (\<forall>i < length es. node_data nd i = Some (concat (drop i es)) \<and>
                      node_len nd i = Some (length (es ! i))) \<and>
     (\<forall>start n. start < length es \<and> start + n \<le> length es \<longrightarrow>
        (\<exists>s. GetSegment nd start n = Some s \<and> seg_rep s (take n (drop start es))))"

lemma singles_take_drop: "singles (take n (drop i d)) = take n (drop i (singles d))"
  by (simp add: singles_def take_map drop_map)

lemma leaf_node_rep:
  assumes "leaf_ok t es"
  shows "node_rep (leaf_node t es) es"
proof -
  have "leaf_type t" using assms by (simp add: leaf_ok_def)
  then show ?thesis
  proof (cases rule: leaf_type_cases)
    case Map
    then have v: "\<forall>e \<in> set es. map_valid e" "var_fits es"
      using assms by (auto simp: leaf_ok_def leaf_fits_def)
    with Map MapNode_parsed[OF v] MapNode_GetSegment_rep[OF v] show ?thesis
      by (simp add: node_rep_def MapNode_numEntries_def) (simp add: var_fits_def)
  next
    case Set
    then have v: "\<forall>e \<in> set es. set_valid e" "var_fits es"
      using assms by (auto simp: leaf_ok_def leaf_fits_def)
    with Set SetNode_parsed[OF v] SetNode_GetSegment_rep[OF v] show ?thesis
      by (simp add: node_rep_def SetNode_numEntries_def) (simp add: var_fits_def)
  next
    case List
    then have v: "\<forall>e \<in> set es. list_valid e" "var_fits es"
      using assms by (auto simp: leaf_ok_def leaf_fits_def)
    with List ListNode_parsed[OF v(2)] ListNode_GetSegment_rep[OF v(2)] show ?thesis
      by (simp add: node_rep_def ListNode_numEntries_def) (simp add: var_fits_def)
  next
    case Blob
    then have v: "\<forall>e \<in> set es. length e = 1" "chunk_fits (concat es)"
      using assms by (auto simp: leaf_ok_def leaf_fits_def)
    note len = length_concat_ones[OF v(1)]
    have "drop i (concat es) = concat (drop i es)" if "i < length es" for i
    proof -
      have "\<forall>e \<in> set (take i es). length e = 1" using v(1) by (auto dest: in_set_takeD)
      from length_concat_ones[OF this] that have "length (concat (take i es)) = i" by simp
      moreover have "concat es = concat (take i es) @ concat (drop i es)"
        by (metis append_take_drop_id concat_append)
      ultimately show ?thesis by (metis append_eq_conv_conj)
    qed
    moreover have "\<exists>s. BlobNode_GetSegment (chunk_of CT_kBlob (concat es)) start n = Some s \<and>
        seg_rep s (take n (drop start es))" if "start + n \<le> length es" for start n
      using BlobNode_GetSegment_rep[OF v(2), of start n] that len singles_id[OF v(1)]
      by (simp add: singles_take_drop)
    ultimately show ?thesis
      using Blob v len
      by (auto simp: node_rep_def BlobNode_numEntries_def BlobNode_data_def BlobNode_len_def)
  qed
qed

lemma meta_node_rep:
  assumes "metas_ok ms"
  shows "node_rep (MetaNode (meta_chunk ms) (var_offsets (map me_bytes ms))) (map me_bytes ms)"
  using assms MetaNode_data_eq[OF assms] MetaNode_entry_eq(1)[OF assms] MetaNode_GetSegment_rep[OF assms]
  by (simp add: node_rep_def take_map drop_map)

lemma CreateFromChunk_meta:
  assumes "metas_ok ms"
  shows "CreateFromChunk (meta_chunk ms) = Some (MetaNode (meta_chunk ms) (var_offsets (map me_bytes ms)))"
  using MetaNode_parse[OF assms] by (simp add: CreateFromChunk_def) (simp add: meta_chunk_def)

text \<open>The chunkers behind one interface, by the type of chunk they make.\<close>

fun Make :: "(bytes \<Rightarrow> bytes) \<Rightarrow> ChunkType \<Rightarrow> segment list \<Rightarrow> chunk_info option" where
  "Make hf CT_kMap segs = MapChunker_Make hf segs"
| "Make hf CT_kSet segs = SetChunker_Make hf segs"
| "Make hf CT_kList segs = ListChunker_Make hf segs"
| "Make hf CT_kBlob segs = BlobChunker_Make hf segs"
| "Make hf CT_kMeta segs = MetaChunker_Make hf segs"
| "Make hf _ segs = None"

fun isFixedEntryLen :: "ChunkType \<Rightarrow> bool" where
  "isFixedEntryLen CT_kBlob = True"
| "isFixedEntryLen _ = False"

lemma leaf_entry_eq:
  "t \<noteq> CT_kBlob \<Longrightarrow> leaf_entry hf t es = leaf_me hf t (leaf_key t es) es"
  by (simp add: leaf_entry_def leaf_me_def leaf_chunk_def)

lemma leaf_key_ok:
  assumes "leaf_ok t es"
  shows "key_ok (leaf_key t es)"
proof -
  have "leaf_type t" using assms by (simp add: leaf_ok_def)
  then show ?thesis
    by (cases rule: leaf_type_cases)
      (use assms in \<open>auto simp: leaf_ok_def leaf_key_def keyed_type_def
        intro: map_fmt.top_key_ok set_fmt.top_key_ok\<close>)
qed

lemma leaf_ok_length: "leaf_ok t es \<Longrightarrow> length es < 2 ^ 32"
proof -
  assume ok: "leaf_ok t es"
  show ?thesis
  proof (cases "t = CT_kBlob")
    case True
    with ok have "\<forall>e \<in> set es. length e = 1" "chunk_fits (concat es)"
      by (auto simp: leaf_ok_def leaf_fits_def)
    with length_concat_ones[of es] show ?thesis by (simp add: chunk_fits_def)
  next
    case False
    with ok have "var_fits es" by (simp add: leaf_ok_def leaf_fits_def)
    from var_fits_length[OF this] show ?thesis .
  qed
qed

lemma leaf_entry_ok: "leaf_ok t es \<Longrightarrow> digest_ok hf \<Longrightarrow> me_ok (leaf_entry hf t es)"
  using leaf_key_ok leaf_ok_length by (fastforce simp: me_ok_def leaf_entry_def)

text \<open>Every leaf chunker makes the chunk of its entries, with their meta entry.\<close>

lemma Make_leaf:
  assumes "segs_rep segs ess" and "\<forall>es \<in> set ess. es \<noteq> []" and "leaf_ok t (concat ess)"
    and "digest_ok hf"
  shows "Make hf t segs =
    Some (leaf_chunk t (concat ess), meta_seg (me_bytes (leaf_entry hf t (concat ess))))"
proof -
  let ?es = "concat ess"
  have "leaf_type t" using assms(3) by (simp add: leaf_ok_def)
  then show ?thesis
  proof (cases rule: leaf_type_cases)
    case Map
    with assms MapChunker_Make_eq[OF assms(1,2) _ _ assms(4)] show ?thesis
      by (simp add: leaf_ok_def leaf_fits_def keyed_type_def leaf_entry_eq leaf_key_def leaf_chunk_def)
  next
    case Set
    with assms SetChunker_Make_eq[OF assms(1,2) _ _ assms(4)] show ?thesis
      by (simp add: leaf_ok_def leaf_fits_def keyed_type_def leaf_entry_eq leaf_key_def leaf_chunk_def)
  next
    case List
    with assms ListChunker_Make_eq[OF assms(1,2) _ assms(4)] show ?thesis
      by (simp add: leaf_ok_def leaf_fits_def keyed_type_def leaf_entry_eq leaf_key_def leaf_chunk_def)
  next
    case Blob
    then have v: "\<forall>e \<in> set ?es. length e = 1" "chunk_fits (concat ?es)"
      using assms(3) by (auto simp: leaf_ok_def leaf_fits_def)
    with Blob BlobChunker_Make_eq[OF assms(1) singles_id[OF v(1), symmetric] v(2) assms(4)]
    show ?thesis
      by (simp add: leaf_entry_def leaf_chunk_def leaf_key_def keyed_type_def blob_me_def
          length_concat_ones)
  qed
qed

end
