(* ===== verification/Cursor.thy ===== *)
theory Cursor
  imports Seq_Node
begin

text \<open>
  Cursors over the elements of a tree: include/node/cursor.h, src/node/cursor.cc.  A cursor is the
  stack of the nodes from the one it points into up to the root, each with the index of the
  current entry (\<open>parent_cr_\<close> is the rest of the stack).  The index is -1 in front of the
  first entry of a node and the number of entries behind the last one.

  Indices are \<open>int32_t\<close> in the code; the conversion of a number of entries is
  \<open>int32_of\<close>.  The counters of steps are 64-bit and stand here as numbers.
\<close>

section \<open>Model\<close>

type_synonym cursor = "(seq_node \<times> int) list"

definition int32_of :: "nat \<Rightarrow> int" where
  "int32_of n = (if n mod 2 ^ 32 < 2 ^ 31 then int (n mod 2 ^ 32) else int (n mod 2 ^ 32) - 2 ^ 32)"

lemma int32_of_small [simp]: "n < 2 ^ 31 \<Longrightarrow> int32_of n = int n"
  by (simp add: int32_of_def)

definition isEnd :: "cursor \<Rightarrow> bool option" where
  "isEnd cur = (case cur of [] \<Rightarrow> None
     | (nd, idx) # _ \<Rightarrow> do { n \<leftarrow> numEntries nd; Some (idx = int32_of n) })"

definition isBegin :: "cursor \<Rightarrow> bool option" where
  "isBegin cur = (case cur of [] \<Rightarrow> None | (nd, idx) # _ \<Rightarrow> Some (idx = -1))"

definition seek :: "cursor \<Rightarrow> int \<Rightarrow> cursor option" where
  "seek cur i = (case cur of [] \<Rightarrow> None
     | (nd, idx) # parent \<Rightarrow>
         do { CHECK (0 \<le> i); n \<leftarrow> numEntries nd; CHECK (int32_of n \<ge> i); Some ((nd, i) # parent) })"

text \<open>The pointer to the current entry; behind the last entry the pointer behind its bytes.\<close>

definition current :: "cursor \<Rightarrow> bytes option" where
  "current cur = (case cur of [] \<Rightarrow> None
     | (nd, idx) # _ \<Rightarrow>
         if idx = -1 then Some []
         else do { n \<leftarrow> numEntries nd;
                   if idx = int32_of n
                   then do { p \<leftarrow> node_data nd (sub64 (nat idx) 1);
                             l \<leftarrow> node_len nd (sub64 (nat idx) 1);
                             Some (drop l p) }
                   else node_data nd (nat idx) })"

definition numCurrentBytes :: "cursor \<Rightarrow> nat option" where
  "numCurrentBytes cur = (case cur of [] \<Rightarrow> None
     | (nd, idx) # _ \<Rightarrow>
         if idx = -1 then Some 0
         else do { n \<leftarrow> numEntries nd;
                   if idx = int32_of n then Some 0 else node_len nd (nat idx) })"

definition currentKey :: "cursor \<Rightarrow> OrderedKey option" where
  "currentKey cur = (case cur of [] \<Rightarrow> None | (nd, idx) # _ \<Rightarrow> node_key nd (if idx = -1 then 2 ^ 64 - 1 else nat idx))"

text \<open>Loading the node that the current entry of a parent cursor names.\<close>

definition load_child :: "loader \<Rightarrow> cursor \<Rightarrow> seq_node option" where
  "load_child ld parent =
     do { me \<leftarrow> current parent; h \<leftarrow> MetaEntry_targetHash me; c \<leftarrow> ld h; CreateFromChunk c }"

text \<open>The calls with \<open>cross_boundary = false\<close>, which stay in the node; \<open>Advance\<close> and
  \<open>Retreat\<close> undo a move of the parent cursor with them.\<close>

definition Advance_within :: "cursor \<Rightarrow> (bool \<times> cursor) option" where
  "Advance_within cur = (case cur of [] \<Rightarrow> None
     | (nd, idx) # parent \<Rightarrow>
         do { n \<leftarrow> numEntries nd;
              let idx = (if idx = -1 \<or> idx < int32_of n then idx + 1 else idx);
              Some (idx < int32_of n, (nd, idx) # parent) })"

definition Retreat_within :: "cursor \<Rightarrow> (bool \<times> cursor) option" where
  "Retreat_within cur = (case cur of [] \<Rightarrow> None
     | (nd, idx) # parent \<Rightarrow>
         (let idx = (if idx \<ge> 0 then idx - 1 else idx) in Some (idx \<ge> 0, (nd, idx) # parent)))"

fun Advance :: "loader \<Rightarrow> bool \<Rightarrow> cursor \<Rightarrow> (bool \<times> cursor) option" where
  "Advance ld cross_boundary [] = None"
| "Advance ld cross_boundary ((nd, idx) # parent) =
     do { n \<leftarrow> numEntries nd;
          let idx = (if idx = -1 \<or> idx < int32_of n then idx + 1 else idx);
          if idx < int32_of n then Some (True, (nd, idx) # parent)
          else if \<not> cross_boundary then Some (False, (nd, idx) # parent)
          else if parent = [] then Some (False, (nd, idx) # parent)
          else do { (moved, parent') \<leftarrow> Advance ld True parent;
                    if moved
                    then do { nd' \<leftarrow> load_child ld parent'; Some (True, (nd', 0) # parent') }
                    else do { (_, parent'') \<leftarrow> Retreat_within parent';
                              Some (False, (nd, idx) # parent'') } } }"

fun Retreat :: "loader \<Rightarrow> bool \<Rightarrow> cursor \<Rightarrow> (bool \<times> cursor) option" where
  "Retreat ld cross_boundary [] = None"
| "Retreat ld cross_boundary ((nd, idx) # parent) =
     do { let idx = (if idx \<ge> 0 then idx - 1 else idx);
          if idx \<ge> 0 then Some (True, (nd, idx) # parent)
          else if \<not> cross_boundary then Some (False, (nd, idx) # parent)
          else if parent = [] then Some (False, (nd, idx) # parent)
          else do { (moved, parent') \<leftarrow> Retreat ld True parent;
                    if moved
                    then do { nd' \<leftarrow> load_child ld parent';
                              n' \<leftarrow> numEntries nd';
                              Some (True, (nd', int32_of n' - 1) # parent') }
                    else do { (_, parent'') \<leftarrow> Advance_within parent';
                              Some (False, (nd, idx) # parent'') } } }"

lemma Advance_False: "Advance ld False cur = Advance_within cur"
proof (cases cur)
  case (Cons f parent)
  obtain nd idx where "f = (nd, idx)" by (cases f)
  with Cons show ?thesis
    by (cases "numEntries nd") (simp_all add: Advance_within_def Let_def)
qed (simp add: Advance_within_def)

lemma Retreat_False: "Retreat ld False cur = Retreat_within cur"
  by (cases cur) (auto simp: Retreat_within_def Let_def split: prod.splits)

text \<open>The constructors: from the root down, choosing the child by the index of the element or by
  the key.  The stack built so far is the parent cursor.\<close>

partial_function (option) descend_idx ::
    "loader \<Rightarrow> seq_node \<Rightarrow> nat \<Rightarrow> cursor \<Rightarrow> cursor option" where
  "descend_idx ld seq_node element_idx parent_cursor =
     (case seq_node of
        MetaNode c offs \<Rightarrow>
          Option.bind (MetaNode_GetChildHashByIndex c element_idx) (\<lambda>r.
          Option.bind (MetaNode_numEntries c) (\<lambda>n.
          Option.bind
            (case fst r of
               None \<Rightarrow> map_option (\<lambda>h. (h, sub64 n 1)) (MetaNode_GetChildHashByEntry c offs (sub64 n 1))
             | Some h \<Rightarrow> Some (h, snd r)) (\<lambda>hi.
          Option.bind (MetaNode_numElementsUntilEntry c (snd hi)) (\<lambda>before.
          Option.bind (ld (fst hi)) (\<lambda>chunk.
          Option.bind (CreateFromChunk chunk) (\<lambda>child.
            descend_idx ld child (sub64 element_idx before)
              ((seq_node, int32_of (snd hi)) # parent_cursor)))))))
      | _ \<Rightarrow>
          Option.bind (numEntries seq_node) (\<lambda>n.
            Some ((seq_node, int32_of (if element_idx > n then n else element_idx)) # parent_cursor)))"

text \<open>A cursor on an index beyond the number of elements stays empty.\<close>

definition NodeCursor_idx :: "loader \<Rightarrow> bytes \<Rightarrow> nat \<Rightarrow> cursor option" where
  "NodeCursor_idx ld hash idx =
     do { chunk \<leftarrow> ld hash;
          seq_node \<leftarrow> CreateFromChunk chunk;
          total \<leftarrow> numElements seq_node;
          if idx \<le> total then descend_idx ld seq_node idx [] else Some [] }"

partial_function (option) descend_key ::
    "loader \<Rightarrow> seq_node \<Rightarrow> OrderedKey \<Rightarrow> cursor \<Rightarrow> cursor option" where
  "descend_key ld seq_node key parent_cursor =
     (case seq_node of
        MetaNode c offs \<Rightarrow>
          Option.bind (MetaNode_GetChildHashByKey c key) (\<lambda>r.
          Option.bind (MetaNode_numEntries c) (\<lambda>n.
          Option.bind
            (case fst r of
               None \<Rightarrow> map_option (\<lambda>h. (h, sub64 n 1)) (MetaNode_GetChildHashByEntry c offs (sub64 n 1))
             | Some h \<Rightarrow> Some (h, snd r)) (\<lambda>hi.
          Option.bind (ld (fst hi)) (\<lambda>chunk.
          Option.bind (CreateFromChunk chunk) (\<lambda>child.
            descend_key ld child key ((seq_node, int32_of (snd hi)) # parent_cursor))))))
      | _ \<Rightarrow>
          Option.bind (FindIndexForKey ld seq_node key) (\<lambda>i.
            Some ((seq_node, int32_of i) # parent_cursor)))"

definition NodeCursor_key :: "loader \<Rightarrow> bytes \<Rightarrow> OrderedKey \<Rightarrow> cursor option" where
  "NodeCursor_key ld hash key =
     do { chunk \<leftarrow> ld hash; seq_node \<leftarrow> CreateFromChunk chunk; descend_key ld seq_node key [] }"

text \<open>\<open>AdvanceEntry\<close> and \<open>RetreatEntry\<close>: the loops over whole nodes.  The arguments are the
  entries left in the node and the entries still to move over.\<close>

partial_function (option) advance_entry_loop ::
    "loader \<Rightarrow> cursor \<Rightarrow> nat \<Rightarrow> nat \<Rightarrow> (nat \<times> cursor) option" where
  "advance_entry_loop ld cur node_remain remain =
     (case cur of [] \<Rightarrow> None
      | (nd, idx) # parent \<Rightarrow>
          if node_remain \<le> remain then
            Option.bind (Advance ld True ((nd, idx + int node_remain - 1) # parent)) (\<lambda>r.
              let cur' = snd r; remain' = remain - node_remain in
              if fst r then
                Option.bind (case cur' of [] \<Rightarrow> None | (nd', idx') # _ \<Rightarrow>
                    if idx' = 0 then numEntries nd' else None) (\<lambda>n'.
                  if remain' > 0 then advance_entry_loop ld cur' n' remain'
                  else Some (remain', cur'))
              else Some (remain', cur'))
          else
            Option.bind (numEntries nd) (\<lambda>n.
              if idx + int remain < int32_of n then Some (0, (nd, idx + int remain) # parent)
              else None))"

definition AdvanceEntry :: "loader \<Rightarrow> cursor \<Rightarrow> nat \<Rightarrow> (nat \<times> cursor) option" where
  "AdvanceEntry ld cur num_entry =
     do { e \<leftarrow> isEnd cur;
          (ok, cur) \<leftarrow> (if e then Advance ld True cur else Some (True, cur));
          if \<not> ok then Some (0, cur)
          else (case cur of [] \<Rightarrow> None
                | (nd, idx) # parent \<Rightarrow>
                    do { n \<leftarrow> numEntries nd;
                         (left, cur') \<leftarrow> advance_entry_loop ld cur (nat (int32_of n - idx)) num_entry;
                         Some (num_entry - left, cur') }) }"

partial_function (option) retreat_entry_loop ::
    "loader \<Rightarrow> cursor \<Rightarrow> nat \<Rightarrow> nat \<Rightarrow> (nat \<times> cursor) option" where
  "retreat_entry_loop ld cur node_remain remain =
     (case cur of [] \<Rightarrow> None
      | (nd, idx) # parent \<Rightarrow>
          if node_remain < remain then
            Option.bind (Retreat ld True ((nd, 0) # parent)) (\<lambda>r.
              let cur' = snd r; remain' = remain - (node_remain + 1) in
              if fst r then
                Option.bind (case cur' of [] \<Rightarrow> None | (nd', idx') # _ \<Rightarrow>
                    Option.bind (numEntries nd') (\<lambda>n'.
                      if sub64 n' 1 = nat idx' then Some n' else None)) (\<lambda>n'.
                  if remain' > 0 then retreat_entry_loop ld cur' (sub64 n' 1) remain'
                  else Some (remain', cur'))
              else Some (remain', cur'))
          else if 0 \<le> idx - int remain then Some (0, (nd, idx - int remain) # parent)
          else None)"

definition RetreatEntry :: "loader \<Rightarrow> cursor \<Rightarrow> nat \<Rightarrow> (nat \<times> cursor) option" where
  "RetreatEntry ld cur num_entry =
     do { b \<leftarrow> isBegin cur;
          (ok, cur) \<leftarrow> (if b then Retreat ld True cur else Some (True, cur));
          if \<not> ok then Some (0, cur)
          else (case cur of [] \<Rightarrow> None
                | (nd, idx) # parent \<Rightarrow>
                    do { (left, cur') \<leftarrow> retreat_entry_loop ld cur (nat idx) num_entry;
                         Some (num_entry - left, cur') }) }"

text \<open>The number of elements below the entry at index \<open>idx\<close> of a node of \<open>n\<close> entries.\<close>

definition elements_at :: "seq_node \<Rightarrow> int \<Rightarrow> nat option" where
  "elements_at nd idx = do { me \<leftarrow> current [(nd, idx)]; MetaEntry_numElements me }"

text \<open>\<open>AdvanceSteps\<close>, phase 1 in an inner node: move forward over whole entries until the steps
  are used up or the node ends; the result is the index, the steps made and whether the node
  accommodates all of them.\<close>

partial_function (option) advance_phase1 ::
    "seq_node \<Rightarrow> nat \<Rightarrow> int \<Rightarrow> int \<Rightarrow> nat \<Rightarrow> nat \<Rightarrow> (int \<times> nat \<times> bool) option" where
  "advance_phase1 nd n idx remain acc last_elements =
     (if remain > 0 then
        (let idx' = idx + 1; acc' = acc + last_elements in
         if idx' = int32_of n then Some (idx', acc', False)
         else Option.bind (elements_at nd idx') (\<lambda>e.
                advance_phase1 nd n idx' (remain - int e) acc' e))
      else Some (idx, acc, True))"

text \<open>Phase 3 in an inner node.\<close>

partial_function (option) advance_phase3 ::
    "seq_node \<Rightarrow> nat \<Rightarrow> int \<Rightarrow> nat \<Rightarrow> nat \<Rightarrow> (int \<times> nat) option" where
  "advance_phase3 nd n idx acc remain =
     (if idx = int32_of n then Some (idx, acc)
      else Option.bind (elements_at nd idx) (\<lambda>e.
             if acc + e > remain then Some (idx, acc)
             else advance_phase3 nd n (idx + 1) (acc + e) remain))"

text \<open>What happens before the parent is asked: either the move ends in this node
  (\<open>Inl\<close>: the steps made and the new index), or the node is exhausted (\<open>Inr\<close>).\<close>

definition advance_first :: "seq_node \<Rightarrow> nat \<Rightarrow> int \<Rightarrow> nat \<Rightarrow> (nat \<times> int + nat \<times> int) option" where
  "advance_first nd n idx step =
     (if idx = int32_of n then Some (Inr (0, idx))
      else if isLeaf nd then
        (let step2last = nat (int n - 1 - idx) in
         if step \<le> step2last then Some (Inl (step, idx + int step))
         else Some (Inr (step2last, int32_of n)))
      else do { (idx', acc1, enough) \<leftarrow> advance_phase1 nd n idx (int step) 0 0;
                if enough then Some (Inl (acc1, idx')) else Some (Inr (acc1, idx')) })"

fun AdvanceSteps :: "loader \<Rightarrow> cursor \<Rightarrow> nat \<Rightarrow> (nat \<times> cursor) option" where
  "AdvanceSteps ld [] step = None"
| "AdvanceSteps ld ((nd, idx) # parent) step =
     do { n \<leftarrow> numEntries nd;
          let initial_end = (idx = int32_of n);
          first \<leftarrow> advance_first nd n idx step;
          case first of
            Inl (made, idx') \<Rightarrow> Some (made, (nd, idx') # parent)
          | Inr (acc1_step, idx') \<Rightarrow>
              if parent = [] then Some (acc1_step + (if initial_end then 0 else 1), [(nd, idx')])
              else do {
                (parent_step, parent') \<leftarrow> AdvanceSteps ld parent (sub64 step acc1_step);
                endParent \<leftarrow> isEnd parent';
                parent'' \<leftarrow> (if endParent then map_option snd (Retreat_within parent')
                             else Some parent');
                nd' \<leftarrow> load_child ld parent'';
                n' \<leftarrow> numEntries nd';
                if endParent then Some (acc1_step + parent_step, (nd', int32_of n') # parent'')
                else do {
                  let remain3_step = sub64 (sub64 step acc1_step) parent_step;
                  (idx3, acc3_step) \<leftarrow>
                    (if isLeaf nd' then Some (int remain3_step - 1, remain3_step)
                     else advance_phase3 nd' n' 0 0 remain3_step);
                  Some (acc1_step + parent_step + acc3_step, (nd', idx3) # parent'') } } }"

text \<open>\<open>RetreatSteps\<close>, in the same three phases.\<close>

partial_function (option) retreat_phase1 ::
    "seq_node \<Rightarrow> int \<Rightarrow> int \<Rightarrow> nat \<Rightarrow> nat \<Rightarrow> (int \<times> nat \<times> bool) option" where
  "retreat_phase1 nd idx remain acc prev_elements =
     (if remain > 0 then
        (let idx' = idx - 1; acc' = acc + prev_elements in
         if idx' = -1 then Some (idx', acc', False)
         else Option.bind (elements_at nd idx') (\<lambda>e.
                retreat_phase1 nd idx' (remain - int e) acc' e))
      else Some (idx, acc, True))"

partial_function (option) retreat_phase3 ::
    "seq_node \<Rightarrow> int \<Rightarrow> nat \<Rightarrow> nat \<Rightarrow> (int \<times> nat) option" where
  "retreat_phase3 nd idx acc remain =
     (if idx = -1 then Some (idx, acc)
      else Option.bind (elements_at nd idx) (\<lambda>e.
             if acc + e > remain then Some (idx, acc)
             else retreat_phase3 nd (idx - 1) (acc + e) remain))"

definition retreat_first :: "seq_node \<Rightarrow> int \<Rightarrow> nat \<Rightarrow> (nat \<times> int + nat \<times> int) option" where
  "retreat_first nd idx step =
     (if idx = -1 then Some (Inr (0, idx))
      else if isLeaf nd then
        (let step2first = nat idx in
         if step \<le> step2first then Some (Inl (step, idx - int step))
         else Some (Inr (step2first, -1)))
      else do { (idx', acc1, enough) \<leftarrow> retreat_phase1 nd idx (int step) 0 0;
                if enough then Some (Inl (acc1, idx')) else Some (Inr (acc1, idx')) })"

fun RetreatSteps :: "loader \<Rightarrow> cursor \<Rightarrow> nat \<Rightarrow> (nat \<times> cursor) option" where
  "RetreatSteps ld [] step = None"
| "RetreatSteps ld ((nd, idx) # parent) step =
     do { let initial_begin = (idx = -1);
          first \<leftarrow> retreat_first nd idx step;
          case first of
            Inl (made, idx') \<Rightarrow> Some (made, (nd, idx') # parent)
          | Inr (acc1_step, idx') \<Rightarrow>
              if parent = [] then Some (acc1_step + (if initial_begin then 0 else 1), [(nd, idx')])
              else do {
                (parent_step, parent') \<leftarrow> RetreatSteps ld parent (sub64 step acc1_step);
                headParent \<leftarrow> isBegin parent';
                parent'' \<leftarrow> (if headParent then map_option snd (Advance_within parent')
                             else Some parent');
                nd' \<leftarrow> load_child ld parent'';
                n' \<leftarrow> numEntries nd';
                if headParent then Some (acc1_step + parent_step, (nd', -1) # parent'')
                else do {
                  let remain3_step = sub64 (sub64 step acc1_step) parent_step;
                  (idx3, acc3_step) \<leftarrow>
                    (if isLeaf nd' then Some (int32_of n' - int remain3_step, remain3_step)
                     else retreat_phase3 nd' (int32_of n' - 1) 0 remain3_step);
                  Some (acc1_step + parent_step + acc3_step, (nd', idx3) # parent'') } } }"

text \<open>Equality of cursors: same indices into nodes with the same hashes, all the way up.\<close>

fun cursor_eq :: "(bytes \<Rightarrow> bytes) \<Rightarrow> cursor \<Rightarrow> cursor \<Rightarrow> bool option" where
  "cursor_eq hf ((nd, idx) # parent) ((nd', idx') # parent') =
     do { h \<leftarrow> chunk_hash hf (node_chunk nd);
          h' \<leftarrow> chunk_hash hf (node_chunk nd');
          if idx = idx' \<and> h = h'
          then (if parent = [] \<and> parent' = [] then Some True
                else if parent = [] \<or> parent' = [] then Some False
                else cursor_eq hf parent parent')
          else Some False }"
| "cursor_eq hf _ _ = None"

section \<open>Index ranges\<close>

record IndexRange =
  start_idx :: nat
  num_subsequent :: nat

text \<open>The loop of \<open>IndexRange::Compact\<close>, with the range being extended and the end of the
  last one; it stops with an abort at an empty or overlapping range.\<close>

fun compact_loop :: "IndexRange \<Rightarrow> nat \<Rightarrow> IndexRange list \<Rightarrow> IndexRange list option" where
  "compact_loop curr_cr pre_upper [] = Some [curr_cr]"
| "compact_loop curr_cr pre_upper (r # ranges) =
     do { CHECK (num_subsequent r \<noteq> 0);
          let upper = start_idx r + num_subsequent r;
          if pre_upper < start_idx r then
            do { rest \<leftarrow> compact_loop r upper ranges; Some (curr_cr # rest) }
          else if pre_upper = start_idx r then
            compact_loop (curr_cr\<lparr>num_subsequent := num_subsequent curr_cr + num_subsequent r\<rparr>)
              upper ranges
          else None }"

definition Compact :: "IndexRange list \<Rightarrow> IndexRange list option" where
  "Compact ranges = (case ranges of [] \<Rightarrow> Some []
     | r # rest \<Rightarrow> compact_loop r (start_idx r + num_subsequent r) rest)"

fun compact_maps_loop :: "IndexRange \<Rightarrow> IndexRange \<Rightarrow> (IndexRange \<times> IndexRange) list \<Rightarrow>
    (IndexRange \<times> IndexRange) list option" where
  "compact_maps_loop cur_lhs cur_rhs [] = Some [(cur_lhs, cur_rhs)]"
| "compact_maps_loop cur_lhs cur_rhs ((lhs, rhs) # maps) =
     (let pre_lhs_upper = start_idx cur_lhs + num_subsequent cur_lhs;
          pre_rhs_upper = start_idx cur_rhs + num_subsequent cur_rhs
      in if pre_lhs_upper < start_idx lhs \<or> pre_rhs_upper < start_idx rhs then
           do { rest \<leftarrow> compact_maps_loop lhs rhs maps; Some ((cur_lhs, cur_rhs) # rest) }
         else if pre_lhs_upper = start_idx lhs \<and> pre_rhs_upper = start_idx rhs then
           compact_maps_loop
             (cur_lhs\<lparr>num_subsequent := num_subsequent cur_lhs + num_subsequent lhs\<rparr>)
             (cur_rhs\<lparr>num_subsequent := num_subsequent cur_rhs + num_subsequent rhs\<rparr>) maps
         else None)"

definition Compact_maps ::
    "(IndexRange \<times> IndexRange) list \<Rightarrow> (IndexRange \<times> IndexRange) list option" where
  "Compact_maps range_maps = (case range_maps of [] \<Rightarrow> Some []
     | (l, r) # rest \<Rightarrow> compact_maps_loop l r rest)"

text \<open>The indices a range covers.\<close>

definition range_set :: "IndexRange \<Rightarrow> nat set" where
  "range_set r = {start_idx r ..< start_idx r + num_subsequent r}"

definition ranges_set :: "IndexRange list \<Rightarrow> nat set" where
  "ranges_set rs = (\<Union>r \<in> set rs. range_set r)"

text \<open>Ranges in order, none empty, with at least one index between two of them.\<close>

definition separated :: "IndexRange list \<Rightarrow> bool" where
  "separated rs \<longleftrightarrow> sorted_wrt (\<lambda>r s. start_idx r + num_subsequent r < start_idx s) rs"

definition in_order :: "IndexRange list \<Rightarrow> bool" where
  "in_order rs \<longleftrightarrow> sorted_wrt (\<lambda>r s. start_idx r + num_subsequent r \<le> start_idx s) rs \<and>
     (\<forall>r \<in> set rs. num_subsequent r \<noteq> 0)"

lemma compact_loop_correct:
  assumes "in_order (r # rs)" and "upper = start_idx r + num_subsequent r"
  shows "\<exists>out. compact_loop r upper rs = Some out \<and> ranges_set out = range_set r \<union> ranges_set rs \<and>
    separated out \<and> (\<forall>s \<in> set out. num_subsequent s \<noteq> 0) \<and> out \<noteq> [] \<and> start_idx (hd out) = start_idx r"
  using assms
proof (induction r upper rs rule: compact_loop.induct)
  case (1 r upper)
  then show ?case by (auto simp: ranges_set_def separated_def in_order_def)
next
  case (2 r upper s rs)
  have s: "num_subsequent s \<noteq> 0" "upper \<le> start_idx s" and o: "in_order (s # rs)"
    using 2(3,4) by (auto simp: in_order_def)
  show ?case
  proof (cases "upper < start_idx s")
    case True
    from 2(1)[OF _ refl True o refl] s obtain out where out: "compact_loop s (start_idx s + num_subsequent s) rs = Some out"
      "ranges_set out = range_set s \<union> ranges_set rs" "separated out"
      "\<forall>t \<in> set out. num_subsequent t \<noteq> 0" "out \<noteq> []" "start_idx (hd out) = start_idx s"
      by auto
    have "\<forall>t \<in> set out. start_idx s \<le> start_idx t"
      using out(3,5,6) by (cases out) (auto simp: separated_def)
    then have "separated (r # out)"
      using out(3) True 2(4) by (auto simp: separated_def)
    with out True s 2(3) show ?thesis
      by (auto simp: ranges_set_def in_order_def)
  next
    case False
    with s have eq: "upper = start_idx s" by simp
    let ?r = "r\<lparr>num_subsequent := num_subsequent r + num_subsequent s\<rparr>"
    have "in_order (?r # rs)" "start_idx s + num_subsequent s = start_idx ?r + num_subsequent ?r"
      using 2(3,4) eq by (auto simp: in_order_def)
    from 2(2)[OF _ refl False eq this] s obtain out where
      "compact_loop ?r (start_idx s + num_subsequent s) rs = Some out"
      "ranges_set out = range_set ?r \<union> ranges_set rs" "separated out"
      "\<forall>t \<in> set out. num_subsequent t \<noteq> 0" "out \<noteq> []" "start_idx (hd out) = start_idx r"
      by auto
    moreover have "range_set ?r = range_set r \<union> range_set s"
      using eq 2(4) by (auto simp: range_set_def)
    ultimately show ?thesis
      using s eq by (auto simp: ranges_set_def)
  qed
qed

lemma Compact_in_order:
  assumes "in_order rs"
  shows "\<exists>out. Compact rs = Some out \<and> ranges_set out = ranges_set rs \<and> separated out \<and> (\<forall>r \<in> set out. num_subsequent r \<noteq> 0)"
proof (cases rs)
  case Nil
  then show ?thesis by (simp add: Compact_def ranges_set_def separated_def)
next
  case (Cons r rest)
  with compact_loop_correct[of r rest, OF _ refl] assms show ?thesis
    by (auto simp: Compact_def ranges_set_def)
qed

end
