(* ===== verification/Pos_Tree.thy ===== *)
theory Pos_Tree
  imports Cursor
begin

text \<open>
  The tree that chunks represent, and what cursors do on it.

  \<open>ptree\<close> is a tree with lists of entries at its leaves.  For a hash function and a type of
  leaves, \<open>tree_chunk\<close> is the chunk of its root and \<open>tree_me\<close> the meta entry that names it:
  both are determined by the tree, down to the hashes.  \<open>stored\<close> says that a loader finds the
  chunk of every subtree under its hash.  \<open>cursor_of t i\<close> is the cursor on element \<open>i\<close>.
\<close>

section \<open>Trees\<close>

datatype ptree = PLeaf "bytes list" | PNode "ptree list"

fun elems :: "ptree \<Rightarrow> bytes list" where
  "elems (PLeaf es) = es"
| "elems (PNode ts) = concat (map elems ts)"

fun tree_me :: "(bytes \<Rightarrow> bytes) \<Rightarrow> ChunkType \<Rightarrow> ptree \<Rightarrow> meta_entry" where
  "tree_me hf ty (PLeaf es) = leaf_entry hf ty es"
| "tree_me hf ty (PNode ts) = meta_me hf (map (tree_me hf ty) ts)"

fun tree_chunk :: "(bytes \<Rightarrow> bytes) \<Rightarrow> ChunkType \<Rightarrow> ptree \<Rightarrow> chunk" where
  "tree_chunk hf ty (PLeaf es) = leaf_chunk ty es"
| "tree_chunk hf ty (PNode ts) = meta_chunk (map (tree_me hf ty) ts)"

fun tree_node :: "(bytes \<Rightarrow> bytes) \<Rightarrow> ChunkType \<Rightarrow> ptree \<Rightarrow> seq_node" where
  "tree_node hf ty (PLeaf es) = leaf_node ty es"
| "tree_node hf ty (PNode ts) = MetaNode (meta_chunk (map (tree_me hf ty) ts))
     (var_offsets (map me_bytes (map (tree_me hf ty) ts)))"

definition tree_hash :: "(bytes \<Rightarrow> bytes) \<Rightarrow> ChunkType \<Rightarrow> ptree \<Rightarrow> bytes" where
  "tree_hash hf ty t = hf (tree_chunk hf ty t)"

fun height :: "ptree \<Rightarrow> nat" where
  "height (PLeaf es) = 0"
| "height (PNode []) = 1"
| "height (PNode (t # ts)) = Suc (height t)"

lemma height_PNode: "ts \<noteq> [] \<Longrightarrow> height (PNode ts) = Suc (height (hd ts))"
  by (cases ts) auto

text \<open>The invariant: leaves hold valid entries in order, inner nodes fit their chunk, have children
  of one height, and none without elements.  The bounds are those of the 32-bit fields and
  indices.\<close>

fun tree_wf :: "(bytes \<Rightarrow> bytes) \<Rightarrow> ChunkType \<Rightarrow> ptree \<Rightarrow> bool" where
  "tree_wf hf ty (PLeaf es) = (leaf_ok ty es \<and> length es < 2 ^ 31)"
| "tree_wf hf ty (PNode ts) =
     (ts \<noteq> [] \<and> length ts < 2 ^ 31 \<and> metas_ok (map (tree_me hf ty) ts) \<and>
      (\<forall>t \<in> set ts. tree_wf hf ty t \<and> elems t \<noteq> [] \<and> height t = height (hd ts)))"

fun stored :: "(bytes \<Rightarrow> bytes) \<Rightarrow> ChunkType \<Rightarrow> loader \<Rightarrow> ptree \<Rightarrow> bool" where
  "stored hf ty ld (PLeaf es) = (ld (hf (leaf_chunk ty es)) = Some (leaf_chunk ty es))"
| "stored hf ty ld (PNode ts) =
     (ld (tree_hash hf ty (PNode ts)) = Some (tree_chunk hf ty (PNode ts)) \<and>
      (\<forall>t \<in> set ts. stored hf ty ld t))"

lemma me_elements_tree [simp]: "me_elements (tree_me hf ty t) = length (elems t)"
proof (induction t)
  case (PNode ts)
  then have "map (\<lambda>t. me_elements (tree_me hf ty t)) ts = map (\<lambda>t. length (elems t)) ts" by simp
  from arg_cong[OF this, of sum_list] show ?case
    by (simp add: meta_me_def total_elements_def length_concat comp_def)
qed (simp add: leaf_entry_def)

lemma me_hash_tree [simp]: "me_hash (tree_me hf ty t) = tree_hash hf ty t"
  by (cases t) (simp_all add: leaf_entry_def meta_me_def tree_hash_def)

lemma stored_root: "stored hf ty ld t \<Longrightarrow> ld (tree_hash hf ty t) = Some (tree_chunk hf ty t)"
  by (cases t) (auto simp: tree_hash_def)

lemma CreateFromChunk_tree:
  "tree_wf hf ty t \<Longrightarrow> CreateFromChunk (tree_chunk hf ty t) = Some (tree_node hf ty t)"
  by (cases t) (auto simp: CreateFromChunk_leaf CreateFromChunk_meta)

text \<open>The entries of the root node.\<close>

fun root_entries :: "(bytes \<Rightarrow> bytes) \<Rightarrow> ChunkType \<Rightarrow> ptree \<Rightarrow> bytes list" where
  "root_entries hf ty (PLeaf es) = es"
| "root_entries hf ty (PNode ts) = map me_bytes (map (tree_me hf ty) ts)"

lemma tree_node_rep: "tree_wf hf ty t \<Longrightarrow> node_rep (tree_node hf ty t) (root_entries hf ty t)"
proof (cases t)
  case (PLeaf es)
  assume "tree_wf hf ty t"
  with PLeaf show ?thesis by (simp add: leaf_node_rep)
next
  case (PNode ts)
  assume "tree_wf hf ty t"
  with PNode show ?thesis
    using meta_node_rep[of "map (tree_me hf ty) ts"] by simp
qed

lemma tree_entries_bound: "tree_wf hf ty t \<Longrightarrow> length (root_entries hf ty t) < 2 ^ 31"
  by (cases t) auto

lemma tree_node_numEntries [simp]:
  "tree_wf hf ty t \<Longrightarrow> numEntries (tree_node hf ty t) = Some (length (root_entries hf ty t))"
  using tree_node_rep[of hf ty t] by (simp add: node_rep_def)

lemma tree_node_isLeaf: "leaf_type ty \<Longrightarrow> isLeaf (tree_node hf ty t) \<longleftrightarrow> height t = 0"
  by (cases t rule: height.cases) (auto simp: leaf_type_def)

lemma tree_wf_leaf_type: "tree_wf hf ty t \<Longrightarrow> leaf_type ty"
proof (induction t)
  case (PNode ts)
  then have "hd ts \<in> set ts" by simp
  moreover from this PNode.prems have "tree_wf hf ty (hd ts)" by auto
  ultimately show ?case by (rule PNode.IH)
qed (simp add: leaf_ok_def)

lemma numElements_tree:
  assumes "tree_wf hf ty t"
  shows "numElements (tree_node hf ty t) = Some (length (elems t))"
proof (cases t)
  case (PLeaf es)
  have "numElements (leaf_node ty es) = numEntries (leaf_node ty es)"
    using tree_wf_leaf_type[OF assms] by (cases rule: leaf_type_cases) (auto simp: numElements_def)
  with PLeaf assms tree_node_numEntries[OF assms] show ?thesis by simp
next
  case (PNode ts)
  with assms MetaNode_numElements_eq[of "map (tree_me hf ty) ts"] show ?thesis
    by (simp add: numElements_def total_elements_def length_concat comp_def)
qed

declare tree_wf.simps(2) [simp del]

lemma tree_wf_nth:
  assumes "tree_wf hf ty (PNode ts)" and "i < length ts"
  shows "tree_wf hf ty (ts ! i)" and "elems (ts ! i) \<noteq> []" and "height (ts ! i) = height (hd ts)"
  using assms(1) nth_mem[OF assms(2)] unfolding tree_wf.simps by blast+

lemma tree_wf_node:
  assumes "tree_wf hf ty (PNode ts)"
  shows "ts \<noteq> []" and "length ts < 2 ^ 31" and "metas_ok (map (tree_me hf ty) ts)"
  using assms unfolding tree_wf.simps by blast+

lemma stored_nth: "stored hf ty ld (PNode ts) \<Longrightarrow> i < length ts \<Longrightarrow> stored hf ty ld (ts ! i)"
  by simp

section \<open>The current entry of a cursor\<close>

lemma current_entry:
  assumes "node_rep nd es" and "i < length es" and "length es < 2 ^ 31"
  shows "current ((nd, int i) # parent) = Some (concat (drop i es))"
  using assms by (simp add: current_def node_rep_def)

lemma drop_concat_entry: "i < length es \<Longrightarrow> concat (drop i es) = es ! i @ concat (drop (Suc i) es)"
  by (metis Cons_nth_drop_Suc concat.simps(2))

lemma current_child:
  assumes "tree_wf hf ty (PNode ts)" and "i < length ts"
  shows "\<exists>rest. current ((tree_node hf ty (PNode ts), int i) # parent) =
           Some (me_bytes (tree_me hf ty (ts ! i)) @ rest)"
proof -
  have "current ((tree_node hf ty (PNode ts), int i) # parent) =
      Some (concat (drop i (root_entries hf ty (PNode ts))))"
    using assms(2) tree_wf_node[OF assms(1)] by (intro current_entry tree_node_rep[OF assms(1)]) auto
  with assms(2) drop_concat_entry[of i "root_entries hf ty (PNode ts)"] show ?thesis by auto
qed

lemma child_me_ok:
  "tree_wf hf ty (PNode ts) \<Longrightarrow> i < length ts \<Longrightarrow> me_ok (tree_me hf ty (ts ! i))"
  using tree_wf_node(3)[of hf ty ts] by (auto simp: metas_ok_def)

lemma load_child_tree:
  assumes "tree_wf hf ty (PNode ts)" and "stored hf ty ld (PNode ts)" and "i < length ts"
  shows "load_child ld ((tree_node hf ty (PNode ts), int i) # parent) = Some (tree_node hf ty (ts ! i))"
proof -
  obtain rest where c: "current ((tree_node hf ty (PNode ts), int i) # parent) =
      Some (me_bytes (tree_me hf ty (ts ! i)) @ rest)"
    using current_child[OF assms(1,3)] by auto
  have "stored hf ty ld (ts ! i)" "tree_wf hf ty (ts ! i)"
    using stored_nth[OF assms(2,3)] tree_wf_nth(1)[OF assms(1,3)] .
  with stored_root CreateFromChunk_tree have "ld (tree_hash hf ty (ts ! i)) = Some (tree_chunk hf ty (ts ! i))"
    "CreateFromChunk (tree_chunk hf ty (ts ! i)) = Some (tree_node hf ty (ts ! i))" by auto
  with c child_me_ok[OF assms(1,3)] show ?thesis
    by (simp add: load_child_def codec)
qed

section \<open>The cursor on an element\<close>

definition sizes :: "ptree list \<Rightarrow> nat list" where
  "sizes ts = map (\<lambda>t. length (elems t)) ts"

definition child_of :: "ptree list \<Rightarrow> nat \<Rightarrow> nat" where
  "child_of ts i = find_child (sizes ts) i"

definition before :: "ptree list \<Rightarrow> nat \<Rightarrow> nat" where
  "before ts j = sum_list (take j (sizes ts))"

lemma length_elems_PNode: "length (elems (PNode ts)) = sum_list (sizes ts)"
  by (simp add: length_concat sizes_def comp_def)

lemma child_of_less: "i < length (elems (PNode ts)) \<Longrightarrow> child_of ts i < length ts"
  using find_child_less[of "sizes ts" i] unfolding length_elems_PNode
  by (simp add: child_of_def sizes_def)

lemma child_of_bounds:
  assumes "i < length (elems (PNode ts))"
  shows "before ts (child_of ts i) \<le> i"
    and "i - before ts (child_of ts i) < length (elems (ts ! child_of ts i))"
  using find_child_bounds[of i "sizes ts"] assms child_of_less[OF assms]
  unfolding length_elems_PNode by (simp_all add: child_of_def before_def sizes_def)

lemma find_child_eqI:
  "sum_list (take j ns) \<le> i \<Longrightarrow> i < sum_list (take (Suc j) ns) \<Longrightarrow> j < length ns \<Longrightarrow> find_child ns i = j"
proof (induction ns arbitrary: i j)
  case (Cons n ns)
  then show ?case
    by (cases j) (auto simp: less_diff_conv2 le_diff_conv2 add.commute)
qed simp

lemma before_Suc: "j < length ts \<Longrightarrow> before ts (Suc j) = before ts j + length (elems (ts ! j))"
  by (simp add: before_def sizes_def take_Suc_conv_app_nth)

lemma child_of_eqI:
  assumes "before ts j \<le> i" and "i < before ts j + length (elems (ts ! j))" and "j < length ts"
  shows "child_of ts i = j"
  using find_child_eqI[of j "sizes ts" i] assms before_Suc[OF assms(3)]
  by (simp add: child_of_def before_def sizes_def)

lemma elems_PNode_nth:
  assumes "j < length ts" and "k < length (elems (ts ! j))"
  shows "elems (PNode ts) ! (before ts j + k) = elems (ts ! j) ! k"
proof -
  have "ts = take j ts @ ts ! j # drop (Suc j) ts"
    using assms(1) by (rule id_take_nth_drop)
  then have "elems (PNode ts) = concat (map elems (take j ts)) @ elems (ts ! j) @
      concat (map elems (drop (Suc j) ts))"
    by (metis concat.simps(2) concat_append elems.simps(2) list.simps(9) map_append)
  moreover have "length (concat (map elems (take j ts))) = before ts j"
    by (simp add: before_def sizes_def length_concat take_map comp_def)
  ultimately show ?thesis
    using assms(2) by (simp add: nth_append)
qed

text \<open>The stack that the constructor builds for element \<open>i\<close>, on top of \<open>acc\<close>.\<close>

function (sequential) cursor_of ::
    "(bytes \<Rightarrow> bytes) \<Rightarrow> ChunkType \<Rightarrow> ptree \<Rightarrow> nat \<Rightarrow> cursor \<Rightarrow> cursor" where
  "cursor_of hf ty (PLeaf es) i acc = (leaf_node ty es, int i) # acc"
| "cursor_of hf ty (PNode ts) i acc =
     (let j = child_of ts i in
      if j < length ts
      then cursor_of hf ty (ts ! j) (i - before ts j) ((tree_node hf ty (PNode ts), int j) # acc)
      else acc)"
  by pat_completeness auto
termination
  by (relation "measure (\<lambda>(hf, ty, t, i, acc). size t)")
    (auto simp: less_Suc_eq_le intro!: size_list_estimation' nth_mem)

declare cursor_of.simps(2) [simp del]

lemma cursor_of_PNode:
  assumes "i < length (elems (PNode ts))"
  shows "cursor_of hf ty (PNode ts) i acc =
    cursor_of hf ty (ts ! child_of ts i) (i - before ts (child_of ts i))
      ((tree_node hf ty (PNode ts), int (child_of ts i)) # acc)"
  using child_of_less[OF assms] by (simp add: cursor_of.simps(2) Let_def)

lemma cursor_of_nonempty: "i < length (elems t) \<Longrightarrow> cursor_of hf ty t i acc \<noteq> []"
proof (induction t arbitrary: i acc)
  case (PNode ts)
  note j = child_of_less[OF PNode.prems] and b = child_of_bounds[OF PNode.prems]
  have "ts ! child_of ts i \<in> set ts" using j by simp
  from PNode.IH[OF this b(2)] show ?case
    using cursor_of_PNode[OF PNode.prems] by simp
qed simp

text \<open>The first element of a tree.\<close>

lemma child_of_0: "elems (hd ts) \<noteq> [] \<Longrightarrow> ts \<noteq> [] \<Longrightarrow> child_of ts 0 = 0"
  by (cases ts) (auto simp: child_of_def sizes_def)

lemma cursor_of_first:
  assumes "ts \<noteq> []" and "elems (hd ts) \<noteq> []"
  shows "cursor_of hf ty (PNode ts) 0 acc =
    cursor_of hf ty (ts ! 0) 0 ((tree_node hf ty (PNode ts), 0) # acc)"
  using assms child_of_0[OF assms(2,1)] by (simp add: cursor_of.simps(2) before_def)

text \<open>What the cursor points at.\<close>

lemma current_cursor_of:
  assumes "tree_wf hf ty t" and "i < length (elems t)"
  shows "\<exists>rest. current (cursor_of hf ty t i acc) = Some (elems t ! i @ rest)"
  using assms
proof (induction t arbitrary: i acc)
  case (PLeaf es)
  have "current ((leaf_node ty es, int i) # acc) = Some (concat (drop i es))"
    using PLeaf by (intro current_entry leaf_node_rep) auto
  with PLeaf(2) drop_concat_entry[of i es] show ?case by auto
next
  case (PNode ts)
  let ?j = "child_of ts i"
  note j = child_of_less[OF PNode.prems(2)] and b = child_of_bounds[OF PNode.prems(2)]
  have mem: "ts ! ?j \<in> set ts" using j by simp
  from PNode.IH[OF mem tree_wf_nth(1)[OF PNode.prems(1) j] b(2)] show ?case
    unfolding cursor_of_PNode[OF PNode.prems(2)]
    using elems_PNode_nth[OF j b(2)] b(1) by simp
qed

text \<open>The constructor builds that stack.\<close>

lemma descend_idx_tree:
  assumes "tree_wf hf ty t" and "stored hf ty ld t" and "i < length (elems t)"
  shows "descend_idx ld (tree_node hf ty t) i acc = Some (cursor_of hf ty t i acc)"
  using assms
proof (induction t arbitrary: i acc)
  case (PLeaf es)
  have n: "numEntries (leaf_node ty es) = Some (length es)"
    using tree_node_numEntries[OF PLeaf(1)] by simp
  have "descend_idx ld (leaf_node ty es) i acc =
      Some ((leaf_node ty es, int32_of (if i > length es then length es else i)) # acc)"
    using tree_wf_leaf_type[OF PLeaf(1)]
    by (cases rule: leaf_type_cases) (use n in \<open>simp_all add: descend_idx.simps\<close>)
  with PLeaf show ?case by simp
next
  case (PNode ts)
  let ?ms = "map (tree_me hf ty) ts" and ?j = "child_of ts i"
  let ?nd = "tree_node hf ty (PNode ts)"
  note j = child_of_less[OF PNode.prems(3)] and b = child_of_bounds[OF PNode.prems(3)]
  note ok = tree_wf_node(3,1,2)[OF PNode.prems(1)]
  have sz: "map me_elements ?ms = sizes ts" by (simp add: sizes_def)
  have child: "MetaNode_GetChildHashByIndex (meta_chunk ?ms) i =
      Some (Some (tree_hash hf ty (ts ! ?j)), ?j)"
    using MetaNode_GetChildHashByIndex_eq[OF ok(1), of i] ok(2) j
    by (simp add: child_result_def sz flip: child_of_def) (simp add: child_of_def sizes_def comp_def)
  have until: "MetaNode_numElementsUntilEntry (meta_chunk ?ms) ?j = Some (before ts ?j)"
    using MetaNode_numElementsUntilEntry_eq[OF ok(1), of ?j] j
    by (simp add: total_elements_def before_def sizes_def take_map comp_def)
  have mem: "ts ! ?j \<in> set ts" using j by simp
  note wf = tree_wf_nth(1)[OF PNode.prems(1) j] and st = stored_nth[OF PNode.prems(2) j]
  have "descend_idx ld ?nd i acc =
      descend_idx ld (tree_node hf ty (ts ! ?j)) (i - before ts ?j) ((?nd, int ?j) # acc)"
    using child until ok j b(1) stored_root[OF st] CreateFromChunk_tree[OF wf]
    by (subst descend_idx.simps) simp
  then show ?case
    using PNode.IH[OF mem wf st b(2)] cursor_of_PNode[OF PNode.prems(3)] by simp
qed

section \<open>Advancing\<close>

lemma length_elems_last:
  assumes "Suc j = length ts"
  shows "length (elems (PNode ts)) = before ts j + length (elems (ts ! j))"
  using before_Suc[of j ts] assms unfolding length_elems_PNode by (simp add: before_def sizes_def)

lemma Advance_in_node:
  assumes "numEntries nd = Some n" and "n < 2 ^ 31" and "Suc i < n"
  shows "Advance ld cross ((nd, int i) # acc) = Some (True, (nd, int (Suc i)) # acc)"
  using assms by (simp add: Let_def)

lemma Advance_at_last:
  assumes "numEntries nd = Some n" and "n < 2 ^ 31" and "Suc i = n" and "acc \<noteq> []"
    and "Advance ld True acc = Some (True, acc')" and "load_child ld acc' = Some nd'"
  shows "Advance ld True ((nd, int i) # acc) = Some (True, (nd', 0) # acc')"
  using assms by (auto simp: Let_def)

text \<open>Advancing from the last element of a subtree, when the stack above moves on to a tree of the
  same height: the cursor goes to the first element of that tree.\<close>

lemma Advance_next_tree:
  assumes "tree_wf hf ty t" and "Suc i = length (elems t)"
    and "acc \<noteq> []" and "Advance ld True acc = Some (True, acc')"
    and "load_child ld acc' = Some (tree_node hf ty t')"
    and "tree_wf hf ty t'" and "stored hf ty ld t'" and "elems t' \<noteq> []" and "height t' = height t"
  shows "Advance ld True (cursor_of hf ty t i acc) = Some (True, cursor_of hf ty t' 0 acc')"
  using assms
proof (induction t arbitrary: i acc acc' t')
  case (PLeaf es)
  then obtain es' where t': "t' = PLeaf es'" by (cases t' rule: height.cases) auto
  have "numEntries (leaf_node ty es) = Some (length es)"
    using tree_node_numEntries[OF PLeaf.prems(1)] by simp
  from Advance_at_last[OF this _ _ PLeaf.prems(3,4,5)] PLeaf.prems(1,2) show ?case
    by (simp add: t')
next
  case (PNode ts)
  let ?nd = "tree_node hf ty (PNode ts)"
  obtain ts' where t': "t' = PNode ts'"
    using PNode.prems(9) by (cases t'; cases ts) auto
  have wf2: "tree_wf hf ty (PNode ts')" and st2: "stored hf ty ld (PNode ts')"
    using PNode.prems(6,7) t' by simp_all
  have ts: "ts \<noteq> []" "ts' \<noteq> []" using tree_wf_node[OF PNode.prems(1)] tree_wf_node[OF wf2] by simp_all
  define j where "j = length ts - 1"
  have j: "j < length ts" "Suc j = length ts" using ts by (auto simp: j_def)
  note el = tree_wf_nth(2)[OF PNode.prems(1) j(1)] and wfj = tree_wf_nth(1)[OF PNode.prems(1) j(1)]
  note total = length_elems_last[OF j(2)]
  have pos: "0 < length (elems (ts ! j))" using el by simp
  have "before ts j \<le> i" "i < before ts j + length (elems (ts ! j))"
    using PNode.prems(2) pos unfolding total by linarith+
  then have "child_of ts i = j"
    using j(1) by (rule child_of_eqI)
  then have cur: "cursor_of hf ty (PNode ts) i acc =
      cursor_of hf ty (ts ! j) (i - before ts j) ((?nd, int j) # acc)"
    using PNode.prems(2) by (subst cursor_of_PNode) auto
  have last: "Suc (i - before ts j) = length (elems (ts ! j))"
    using PNode.prems(2) pos unfolding total by linarith
  have up: "Advance ld True ((?nd, int j) # acc) = Some (True, (tree_node hf ty t', 0) # acc')"
    using j tree_wf_node[OF PNode.prems(1)] PNode.prems(5)
    by (intro Advance_at_last[OF tree_node_numEntries[OF PNode.prems(1)] _ _ PNode.prems(3,4)]) auto
  have ts0: "0 < length ts'" using ts by simp
  have child: "load_child ld ((tree_node hf ty t', 0) # acc') = Some (tree_node hf ty (ts' ! 0))"
    using load_child_tree[OF wf2 st2 ts0, of acc'] t' by simp
  note wf' = tree_wf_nth(1)[OF wf2 ts0] stored_nth[OF st2 ts0] tree_wf_nth(2)[OF wf2 ts0]
  have ht: "height (ts' ! 0) = height (ts ! j)"
    using PNode.prems(9) t' ts tree_wf_nth(3)[OF wf2 ts0] tree_wf_nth(3)[OF PNode.prems(1) j(1)]
    by (simp add: height_PNode)
  have first: "ts' ! 0 = hd ts'" using ts by (simp add: hd_conv_nth)
  have "Advance ld True (cursor_of hf ty (ts ! j) (i - before ts j) ((?nd, int j) # acc)) =
      Some (True, cursor_of hf ty (ts' ! 0) 0 ((tree_node hf ty t', 0) # acc'))"
    using j by (intro PNode.IH[OF _ wfj last _ up child wf'(1,2,3) ht]) auto
  then show ?case
    using cur cursor_of_first[OF ts(2), of hf ty acc'] wf'(3) unfolding first t' by simp
qed

text \<open>Advancing inside a tree.\<close>

lemma Advance_within_tree:
  assumes "tree_wf hf ty t" and "stored hf ty ld t" and "Suc i < length (elems t)"
  shows "Advance ld True (cursor_of hf ty t i acc) = Some (True, cursor_of hf ty t (Suc i) acc)"
  using assms
proof (induction t arbitrary: i acc)
  case (PLeaf es)
  have "numEntries (leaf_node ty es) = Some (length es)"
    using tree_node_numEntries[OF PLeaf(1)] by simp
  from Advance_in_node[OF this] PLeaf show ?case by simp
next
  case (PNode ts)
  let ?nd = "tree_node hf ty (PNode ts)" and ?j = "child_of ts i"
  have i: "i < length (elems (PNode ts))" using PNode.prems(3) by simp
  note j = child_of_less[OF i] and b = child_of_bounds[OF i]
  have mem: "ts ! ?j \<in> set ts" using j by simp
  note wf = tree_wf_nth(1)[OF PNode.prems(1) j] and st = stored_nth[OF PNode.prems(2) j]
  show ?case
  proof (cases "Suc (i - before ts ?j) < length (elems (ts ! ?j))")
    case True
    have "child_of ts (Suc i) = ?j"
      using True b(1) j by (intro child_of_eqI) auto
    then have next_cur: "cursor_of hf ty (PNode ts) (Suc i) acc =
        cursor_of hf ty (ts ! ?j) (Suc (i - before ts ?j)) ((?nd, int ?j) # acc)"
      using PNode.prems(3) b(1) by (subst cursor_of_PNode) (auto simp: Suc_diff_le)
    show ?thesis
      unfolding cursor_of_PNode[OF i] next_cur by (rule PNode.IH[OF mem wf st True])
  next
    case False
    with b(2) have last: "Suc (i - before ts ?j) = length (elems (ts ! ?j))" by simp
    have sj: "Suc ?j < length ts"
    proof (rule ccontr)
      assume "\<not> Suc ?j < length ts"
      with j have "Suc ?j = length ts" by simp
      from length_elems_last[OF this] last b(1) PNode.prems(3) show False by linarith
    qed
    let ?t' = "ts ! Suc ?j"
    have ht: "height ?t' = height (ts ! ?j)"
      using tree_wf_nth(3)[OF PNode.prems(1)] sj j by simp
    note t' = tree_wf_nth(1)[OF PNode.prems(1) sj] stored_nth[OF PNode.prems(2) sj]
      tree_wf_nth(2)[OF PNode.prems(1) sj] ht
    have "0 < length (elems ?t')" using t'(3) by simp
    with before_Suc[OF j] last b(1) have "Suc i < before ts (Suc ?j) + length (elems ?t')"
      by linarith
    then have "child_of ts (Suc i) = Suc ?j"
      using before_Suc[OF j] last b(1) sj by (intro child_of_eqI) auto
    moreover have "Suc i - before ts (Suc ?j) = 0" using before_Suc[OF j] last b(1) by simp
    ultimately have next_cur: "cursor_of hf ty (PNode ts) (Suc i) acc =
        cursor_of hf ty ?t' 0 ((?nd, int (Suc ?j)) # acc)"
      using PNode.prems(3) by (subst cursor_of_PNode) auto
    have up: "Advance ld True ((?nd, int ?j) # acc) = Some (True, (?nd, int (Suc ?j)) # acc)"
      using tree_wf_node[OF PNode.prems(1)] sj
      by (intro Advance_in_node[OF tree_node_numEntries[OF PNode.prems(1)]]) auto
    have child: "load_child ld ((?nd, int (Suc ?j)) # acc) = Some (tree_node hf ty ?t')"
      by (rule load_child_tree[OF PNode.prems(1,2) sj])
    show ?thesis
      unfolding cursor_of_PNode[OF i] next_cur
      by (rule Advance_next_tree[OF wf last _ up child t']) simp
  qed
qed

text \<open>Advancing from the very last element: the cursor goes behind the last entry of its leaf, and
  the stack above, which was moved on the way, is restored.\<close>

definition stuck :: "loader \<Rightarrow> cursor \<Rightarrow> bool" where
  "stuck ld acc \<longleftrightarrow> acc = [] \<or>
     (\<exists>acc1 b. Advance ld True acc = Some (False, acc1) \<and> Retreat_within acc1 = Some (b, acc))"

lemma Advance_stuck:
  assumes "numEntries nd = Some (Suc n)" and "Suc n < 2 ^ 31" and "stuck ld acc"
  shows "Advance ld True ((nd, int n) # acc) = Some (False, (nd, int (Suc n)) # acc)"
    and "stuck ld ((nd, int n) # acc)"
proof -
  show adv: "Advance ld True ((nd, int n) # acc) = Some (False, (nd, int (Suc n)) # acc)"
  proof (cases "acc = []")
    case False
    then obtain acc1 b where "Advance ld True acc = Some (False, acc1)" "Retreat_within acc1 = Some (b, acc)"
      using assms(3) by (auto simp: stuck_def)
    with assms(1,2) False show ?thesis by (simp add: Let_def)
  qed (use assms(1,2) in \<open>simp add: Let_def\<close>)
  have "Retreat_within ((nd, int (Suc n)) # acc) = Some (True, (nd, int n) # acc)"
    by (simp add: Retreat_within_def)
  with adv show "stuck ld ((nd, int n) # acc)"
    unfolding stuck_def by blast
qed

lemma Advance_last:
  assumes "tree_wf hf ty t" and "Suc i = length (elems t)" and "stuck ld acc"
  shows "\<exists>nd n rest. cursor_of hf ty t i acc = (nd, int n) # rest \<and> numEntries nd = Some (Suc n) \<and>
    Suc n < 2 ^ 31 \<and> Advance ld True (cursor_of hf ty t i acc) = Some (False, (nd, int (Suc n)) # rest)"
  using assms
proof (induction t arbitrary: i acc)
  case (PLeaf es)
  then have "numEntries (leaf_node ty es) = Some (Suc i)"
    using tree_node_numEntries[OF PLeaf.prems(1)] by simp
  moreover have "Suc i < 2 ^ 31" using PLeaf.prems(1,2) by simp
  ultimately show ?case
    using Advance_stuck(1)[of "leaf_node ty es" i, OF _ _ PLeaf.prems(3)] by simp
next
  case (PNode ts)
  let ?nd = "tree_node hf ty (PNode ts)"
  define j where "j = length ts - 1"
  have j: "j < length ts" "Suc j = length ts" using tree_wf_node[OF PNode.prems(1)] by (auto simp: j_def)
  note wfj = tree_wf_nth(1)[OF PNode.prems(1) j(1)] and total = length_elems_last[OF j(2)]
  have pos: "0 < length (elems (ts ! j))" using tree_wf_nth(2)[OF PNode.prems(1) j(1)] by simp
  have bounds: "before ts j \<le> i" "i < before ts j + length (elems (ts ! j))"
    "Suc (i - before ts j) = length (elems (ts ! j))"
    using PNode.prems(2) pos unfolding total by linarith+
  have "child_of ts i = j" using bounds(1,2) j(1) by (rule child_of_eqI)
  then have cur: "cursor_of hf ty (PNode ts) i acc =
      cursor_of hf ty (ts ! j) (i - before ts j) ((?nd, int j) # acc)"
    using PNode.prems(2) by (subst cursor_of_PNode) auto
  have "numEntries ?nd = Some (Suc j)" "Suc j < 2 ^ 31"
    using tree_node_numEntries[OF PNode.prems(1)] tree_wf_node(2)[OF PNode.prems(1)] j by simp_all
  from Advance_stuck(2)[OF this PNode.prems(3)] have "stuck ld ((?nd, int j) # acc)" .
  from PNode.IH[OF nth_mem[OF j(1)] wfj bounds(3) this] show ?case
    unfolding cur .
qed

lemma NodeCursor_idx_tree:
  assumes "tree_wf hf ty t" and "stored hf ty ld t" and "i < length (elems t)"
  shows "NodeCursor_idx ld (tree_hash hf ty t) i = Some (cursor_of hf ty t i [])"
  using stored_root[OF assms(2)] CreateFromChunk_tree[OF assms(1)] numElements_tree[OF assms(1)]
    descend_idx_tree[OF assms] assms(3)
  by (simp add: NodeCursor_idx_def)

section \<open>A concrete tree\<close>

text \<open>The chunks of all subtrees, and a loader that holds them; a tree of two list leaves with a hash
  function that keeps the last twenty bytes serves as the concrete instance below.\<close>

fun tree_chunks :: "(bytes \<Rightarrow> bytes) \<Rightarrow> ChunkType \<Rightarrow> ptree \<Rightarrow> chunk list" where
  "tree_chunks hf ty (PLeaf es) = [leaf_chunk ty es]"
| "tree_chunks hf ty (PNode ts) = tree_chunk hf ty (PNode ts) # concat (map (tree_chunks hf ty) ts)"

definition loader_of :: "(bytes \<Rightarrow> bytes) \<Rightarrow> chunk list \<Rightarrow> loader" where
  "loader_of hf cs = map_of (map (\<lambda>c. (hf c, c)) cs)"

definition ex_hf :: "bytes \<Rightarrow> bytes" where
  "ex_hf x = drop (length x) (replicate 20 0 @ x)"

definition ex_tree :: ptree where
  "ex_tree = PNode [PLeaf [list_item [1], list_item [2]], PLeaf [list_item [3]]]"

definition ex_loader :: loader where
  "ex_loader = loader_of ex_hf (tree_chunks ex_hf CT_kList ex_tree)"

lemma ex_hf_digest: "digest_ok ex_hf"
  by (auto simp: digest_ok_def ex_hf_def kByteLength_def)

lemma ex_leaf_ok: "leaf_ok CT_kList (map list_item (map (\<lambda>b. [b]) bs))" if "length bs < 10"
proof -
  have l: "length (concat (map list_item (map (\<lambda>b. [b]) bs))) = 5 * length bs"
    by (induction bs) auto
  have "var_fits (map list_item (map (\<lambda>b. [b]) bs))"
    using that l unfolding var_fits_def chunk_fits_def var_payload_def kMetaLength_def
    by (auto simp del: concat_map_singleton)
  moreover have "list_valid (list_item [b])" for b
    unfolding list_valid_def list_item_ok_def by (rule exI[of _ "[b]"]) simp
  ultimately show ?thesis
    by (auto simp: leaf_ok_def leaf_type_def leaf_fits_def keyed_type_def)
qed

lemma ex_tree_wf: "tree_wf ex_hf CT_kList ex_tree"
proof -
  have 1: "leaf_ok CT_kList [list_item [1], list_item [2]]" "leaf_ok CT_kList [list_item [3]]"
    using ex_leaf_ok[of "[1, 2]"] ex_leaf_ok[of "[3]"] by simp_all
  note ok = leaf_entry_ok[OF 1(1) ex_hf_digest] leaf_entry_ok[OF 1(2) ex_hf_digest]
  have k: "key_numBytes (leaf_key CT_kList es) = 8" for es
    by (simp add: leaf_key_def keyed_type_def)
  have "metas_ok [leaf_entry ex_hf CT_kList [list_item [1], list_item [2]],
      leaf_entry ex_hf CT_kList [list_item [3]]]"
    using ok unfolding metas_ok_def var_fits_def chunk_fits_def var_payload_def
    by (simp add: total_leaves_def kMetaLength_def k leaf_entry_def[THEN arg_cong, of me_key])
      (simp add: leaf_entry_def k)
  with 1 show ?thesis
    by (simp add: ex_tree_def tree_wf.simps(2))
qed

lemma ex_tree_stored: "stored ex_hf CT_kList ex_loader ex_tree"
  unfolding ex_loader_def by code_simp

section \<open>Properties\<close>

text \<open>C19.  Index lookup: in a well-formed tree whose chunks are stored, the cursor constructed on
  index \<open>i\<close> below the number of elements points at element \<open>i\<close>, its current bytes starting
  with that element and their length being the element's.\<close>

theorem cursor_at_index:
  assumes "tree_wf hf ty t" and "stored hf ty ld t" and "i < length (elems t)"
  shows "\<exists>cur rest. NodeCursor_idx ld (tree_hash hf ty t) i = Some cur \<and>
           current cur = Some (elems t ! i @ rest)"
  using NodeCursor_idx_tree[OF assms] current_cursor_of[OF assms(1,3)] by auto

theorem cursor_at_index_witness:
  "\<exists>cur rest. NodeCursor_idx ex_loader (tree_hash ex_hf CT_kList ex_tree) 2 = Some cur \<and>
     current cur = Some (elems ex_tree ! 2 @ rest)"
  by (rule cursor_at_index[OF ex_tree_wf ex_tree_stored]) (simp add: ex_tree_def)

text \<open>C20.  Iteration: \<open>Advance(true)\<close> moves the cursor of element \<open>i\<close> to the cursor of
  element \<open>i + 1\<close> across any number of node boundaries; from the last element it reports the
  end and leaves the cursor at the end of its leaf.  Iterating from the first element therefore
  visits exactly the elements of the tree, in order.\<close>

theorem advance_enumerates:
  assumes "tree_wf hf ty t" and "stored hf ty ld t" and "i < length (elems t)"
    and "NodeCursor_idx ld (tree_hash hf ty t) i = Some cur"
  shows "if Suc i < length (elems t)
         then \<exists>cur'. Advance ld True cur = Some (True, cur') \<and>
                NodeCursor_idx ld (tree_hash hf ty t) (Suc i) = Some cur'
         else \<exists>cur'. Advance ld True cur = Some (False, cur') \<and> isEnd cur' = Some True"
proof -
  note cursor = NodeCursor_idx_tree[OF assms(1,2)]
  have cur: "cur = cursor_of hf ty t i []" using cursor[OF assms(3)] assms(4) by simp
  show ?thesis
  proof (cases "Suc i < length (elems t)")
    case True
    with cursor[OF True] Advance_within_tree[OF assms(1,2) True] cur show ?thesis by simp
  next
    case False
    then have "Suc i = length (elems t)" using assms(3) by simp
    from Advance_last[OF assms(1) this, of ld "[]"] False cur show ?thesis
      by (auto simp: stuck_def isEnd_def)
  qed
qed

theorem advance_enumerates_witness:
  "\<exists>cur. NodeCursor_idx ex_loader (tree_hash ex_hf CT_kList ex_tree) 1 = Some cur \<and>
     (\<exists>cur'. Advance ex_loader True cur = Some (True, cur') \<and>
        NodeCursor_idx ex_loader (tree_hash ex_hf CT_kList ex_tree) 2 = Some cur')"
proof -
  have n: "length (elems ex_tree) = 3" by (simp add: ex_tree_def)
  obtain cur where cur: "NodeCursor_idx ex_loader (tree_hash ex_hf CT_kList ex_tree) 1 = Some cur"
    using NodeCursor_idx_tree[OF ex_tree_wf ex_tree_stored, of 1] n by auto
  from advance_enumerates[OF ex_tree_wf ex_tree_stored _ cur] n cur show ?thesis
    by (simp add: numeral_2_eq_2)
qed

end
