(* ===== verification/Cursor_Steps.thy ===== *)
theory Cursor_Steps
  imports Pos_Tree
begin

text \<open>
  \<open>NodeCursor::AdvanceSteps\<close> (src/node/cursor.cc) against the elements of the tree.  On trees of
  height at most one it moves by the number of steps asked for.  On higher trees it does not: when
  the steps end exactly at the last element of a leaf in the next inner node, the cursor is left in
  front of the leaf behind it.
\<close>

section \<open>Moving by several steps\<close>

lemma elements_at_tree:
  assumes "tree_wf hf ty (PNode ts)" and "j < length ts"
  shows "elements_at (tree_node hf ty (PNode ts)) (int j) = Some (length (elems (ts ! j)))"
proof -
  obtain rest where "current [(tree_node hf ty (PNode ts), int j)] =
      Some (me_bytes (tree_me hf ty (ts ! j)) @ rest)"
    using current_child[OF assms, of "[]"] by auto
  with child_me_ok[OF assms] show ?thesis
    by (simp add: elements_at_def codec)
qed

lemma before_mono: "i \<le> j \<Longrightarrow> before ts i \<le> before ts j"
  unfolding before_def by (metis le_add1 sum_list_append take_add le_Suc_ex)

lemma before_all: "before ts (length ts) = length (elems (PNode ts))"
  unfolding length_elems_PNode by (simp add: before_def sizes_def)

text \<open>The forward search over the entries of an inner node, from entry \<open>k\<close>, finds the child of
  the element \<open>g\<close>.\<close>

lemma advance_phase1_tree:
  assumes wf: "tree_wf hf ty (PNode ts)" and g: "g < length (elems (PNode ts))"
    and "k < length ts" and "before ts k \<le> g" and "b \<le> before ts k"
  shows "advance_phase1 (tree_node hf ty (PNode ts)) (length ts) (int k)
           (int (Suc g) - int (before ts (Suc k))) (before ts k - b) (length (elems (ts ! k))) =
         Some (int (child_of ts g), before ts (child_of ts g) - b, True)"
  using assms(3-5)
proof (induction "length ts - k" arbitrary: k rule: less_induct)
  case less
  note bk = before_Suc[OF less.prems(1)]
  show ?case
  proof (cases "g < before ts (Suc k)")
    case True
    then have "child_of ts g = k"
      using less.prems bk by (intro child_of_eqI) auto
    with True show ?thesis by (simp add: advance_phase1.simps)
  next
    case False
    have sk: "Suc k < length ts"
    proof (rule ccontr)
      assume "\<not> Suc k < length ts"
      with less.prems(1) have "Suc k = length ts" by simp
      with False g before_all[of ts] show False by simp
    qed
    note b2 = before_Suc[OF sk]
    have acc: "before ts k - b + length (elems (ts ! k)) = before ts (Suc k) - b"
      using bk less.prems(3) by simp
    have n: "length ts < 2 ^ 31" using tree_wf_node(2)[OF wf] .
    have "advance_phase1 (tree_node hf ty (PNode ts)) (length ts) (int k)
        (int (Suc g) - int (before ts (Suc k))) (before ts k - b) (length (elems (ts ! k))) =
      advance_phase1 (tree_node hf ty (PNode ts)) (length ts) (int (Suc k))
        (int (Suc g) - int (before ts (Suc (Suc k)))) (before ts (Suc k) - b)
        (length (elems (ts ! Suc k)))"
      unfolding advance_phase1.simps[of _ _ "int k"] acc
      using False sk n elements_at_tree[OF wf sk] b2 by (simp add: Let_def add.commute diff_diff_eq)
    then show ?thesis
      using less.hyps[of "Suc k"] sk False less.prems bk by simp
  qed
qed

text \<open>The first step of that search, from the entry \<open>j\<close> that the cursor left.\<close>

lemma advance_phase1_from:
  assumes wf: "tree_wf hf ty (PNode ts)" and g: "g < length (elems (PNode ts))"
    and sj: "Suc j < length ts" and bg: "before ts (Suc j) \<le> g"
  shows "advance_phase1 (tree_node hf ty (PNode ts)) (length ts) (int j)
           (int (Suc g - before ts (Suc j))) 0 0 =
         Some (int (child_of ts g), before ts (child_of ts g) - before ts (Suc j), True)"
proof -
  note b2 = before_Suc[OF sj]
  have n: "length ts < 2 ^ 31" using tree_wf_node(2)[OF wf] .
  have "advance_phase1 (tree_node hf ty (PNode ts)) (length ts) (int j)
      (int (Suc g - before ts (Suc j))) 0 0 =
    advance_phase1 (tree_node hf ty (PNode ts)) (length ts) (int (Suc j))
      (int (Suc g) - int (before ts (Suc (Suc j)))) (before ts (Suc j) - before ts (Suc j))
      (length (elems (ts ! Suc j)))"
    unfolding advance_phase1.simps[of _ _ "int j"]
    using sj n elements_at_tree[OF wf sj] b2 bg
    by (simp add: Let_def add.commute of_nat_diff diff_diff_eq)
  then show ?thesis
    using advance_phase1_tree[OF wf g sj bg, of "before ts (Suc j)"] by simp
qed

lemma AdvanceSteps_leaf:
  assumes "numEntries nd = Some n" and "isLeaf nd" and "n < 2 ^ 31" and "l + step < n"
  shows "AdvanceSteps ld ((nd, int l) # acc) step = Some (step, (nd, int (l + step)) # acc)"
proof -
  have "step \<le> nat (int n - 1 - int l)" "int l \<noteq> int n" using assms(4) by linarith+
  with assms(1-3) show ?thesis by (simp add: advance_first_def Let_def)
qed

lemma AdvanceSteps_over_leaf:
  assumes "numEntries nd = Some n" and "isLeaf nd" and "n < 2 ^ 31" and "l < n" and "n \<le> l + step"
    and "AdvanceSteps ld acc (step - (n - 1 - l)) = Some (p, (mnd, int k) # acc')" and "acc \<noteq> []"
    and "numEntries mnd = Some m" and "m < 2 ^ 31" and "k < m"
    and "load_child ld ((mnd, int k) # acc') = Some nd'" and "isLeaf nd'" and "numEntries nd' = Some n'"
    and "p \<le> step - (n - 1 - l)"
  shows "AdvanceSteps ld ((nd, int l) # acc) step =
    Some (step, (nd', int (step - (n - 1 - l) - p) - 1) # (mnd, int k) # acc')"
proof -
  have "nat (int n - 1 - int l) = n - 1 - l" "int l \<noteq> int n" using assms(4) by linarith+
  moreover have "\<not> step \<le> n - 1 - l" "n - 1 - l \<le> step" using assms(4,5) by linarith+
  moreover have "isEnd ((mnd, int k) # acc') = Some False" using assms(8-10) by (simp add: isEnd_def)
  ultimately show ?thesis
    using assms by (simp add: advance_first_def Let_def)
qed

declare AdvanceSteps.simps(2) [simp del]

text \<open>On trees of height at most one \<open>AdvanceSteps\<close> moves by the number of steps asked for.\<close>

lemma AdvanceSteps_flat:
  assumes wf: "tree_wf hf ty t" and st: "stored hf ty ld t" and h: "height t \<le> 1"
    and target: "i + step < length (elems t)"
  shows "AdvanceSteps ld (cursor_of hf ty t i []) step = Some (step, cursor_of hf ty t (i + step) [])"
proof (cases t)
  case (PLeaf es)
  with wf target AdvanceSteps_leaf[of "leaf_node ty es" "length es" i step ld "[]"]
    tree_node_numEntries[OF wf] tree_node_isLeaf[OF tree_wf_leaf_type[OF wf], of hf t]
  show ?thesis by simp
next
  case (PNode ts)
  note wf' = wf[unfolded PNode] and st' = st[unfolded PNode] and ty = tree_wf_leaf_type[OF wf]
  let ?nd = "tree_node hf ty (PNode ts)" and ?g = "i + step"
  have i: "i < length (elems (PNode ts))" and g: "?g < length (elems (PNode ts))"
    using target PNode by simp_all
  let ?j = "child_of ts i" and ?k = "child_of ts ?g"
  note j = child_of_less[OF i] and bj = child_of_bounds[OF i]
  note k = child_of_less[OF g] and bk = child_of_bounds[OF g]
  have leaf: "height (ts ! x) = 0" if "x < length ts" for x
    using tree_wf_nth(3)[OF wf' that] h tree_wf_node(1)[OF wf'] unfolding PNode
    by (simp add: height_PNode)
  have node: "tree_node hf ty (ts ! x) = leaf_node ty (elems (ts ! x))"
      "cursor_of hf ty (ts ! x) y acc = (tree_node hf ty (ts ! x), int y) # acc"
      "isLeaf (tree_node hf ty (ts ! x))"
      "numEntries (tree_node hf ty (ts ! x)) = Some (length (elems (ts ! x)))"
      "length (elems (ts ! x)) < 2 ^ 31"
    if "x < length ts" for x y acc
    using leaf[OF that] tree_node_isLeaf[OF ty, of hf "ts ! x"]
      tree_node_numEntries[OF tree_wf_nth(1)[OF wf' that]] tree_wf_nth(1)[OF wf' that]
    by (cases "ts ! x" rule: height.cases; simp)+
  have cur: "cursor_of hf ty t x [] = [(tree_node hf ty (ts ! child_of ts x), int (x - before ts (child_of ts x))),
      (?nd, int (child_of ts x))]" if "x < length (elems (PNode ts))" for x
    using cursor_of_PNode[OF that] node(2)[OF child_of_less[OF that]] PNode by simp
  let ?l = "i - before ts ?j" and ?n = "length (elems (ts ! ?j))"
  show ?thesis
  proof (cases "?l + step < ?n")
    case True
    then have "?k = ?j" using bj(1) j by (intro child_of_eqI) auto
    with AdvanceSteps_leaf[OF node(4,3,5)[OF j] True] bj(1) cur[OF i] cur[OF g] show ?thesis by simp
  next
    case False
    have bs: "before ts (Suc ?j) = before ts ?j + ?n" by (rule before_Suc[OF j])
    have bg: "before ts (Suc ?j) \<le> ?g" using False bs bj(1) by linarith
    have sj: "Suc ?j < length ts"
    proof (rule ccontr)
      assume "\<not> Suc ?j < length ts"
      with j have "Suc ?j = length ts" by simp
      with bg g before_all[of ts] show False by simp
    qed
    have n: "length ts < 2 ^ 31" using tree_wf_node(2)[OF wf'] .
    have r: "step - (?n - 1 - ?l) = Suc ?g - before ts (Suc ?j)"
      using False bs bj by linarith
    let ?p = "before ts ?k - before ts (Suc ?j)"
    have "AdvanceSteps ld [(?nd, int ?j)] (step - (?n - 1 - ?l)) = Some (?p, [(?nd, int ?k)])"
      using advance_phase1_from[OF wf' g sj bg] tree_node_numEntries[OF wf'] n j unfolding r
      by (simp add: AdvanceSteps.simps(2) advance_first_def Let_def)
    moreover have "before ts (Suc ?j) \<le> before ts ?k"
    proof -
      have "\<not> ?k \<le> ?j" using bg bk(2) before_mono[of "Suc ?k" "Suc ?j" ts] before_Suc[OF k] bk(1)
        by fastforce
      then show ?thesis using before_mono[of "Suc ?j" ?k ts] by simp
    qed
    moreover have "load_child ld [(?nd, int ?k)] = Some (tree_node hf ty (ts ! ?k))"
      by (rule load_child_tree[OF wf' st' k])
    ultimately have "AdvanceSteps ld [(tree_node hf ty (ts ! ?j), int ?l), (?nd, int ?j)] step =
        Some (step, (tree_node hf ty (ts ! ?k), int (step - (?n - 1 - ?l) - ?p) - 1) # [(?nd, int ?k)])"
      using False bj(2) bk(1) n k tree_node_numEntries[OF wf'] r
      by (intro AdvanceSteps_over_leaf[OF node(4,3,5)[OF j]]) (auto simp: node(3,4)[OF k])
    moreover have "int (step - (?n - 1 - ?l) - ?p) - 1 = int (?g - before ts ?k)"
      using \<open>before ts (Suc ?j) \<le> before ts ?k\<close> bk(1) unfolding r by linarith
    ultimately show ?thesis using cur[OF i] cur[OF g] by simp
  qed
qed

text \<open>With one more level it does not.  \<open>advance_phase3\<close> passes over every entry whose elements
  fit in the remaining steps, also when they use up the steps exactly; the search in the parent,
  \<open>advance_phase1\<close>, stops at such an entry.\<close>

lemma AdvanceSteps_misplaced:
  fixes ls rs us :: "ptree list"
  defines "root \<equiv> PNode (PNode ls # PNode rs # us)"
  assumes wf: "tree_wf hf ty root" and st: "stored hf ty ld root" and h: "height root = 2"
    and rs: "2 \<le> length rs" and i: "Suc i = length (elems (PNode ls))"
    and step: "step = length (elems (rs ! 0))"
  shows "AdvanceSteps ld (cursor_of hf ty root i []) step =
    Some (step, [(tree_node hf ty (rs ! 1), -1), (tree_node hf ty (PNode rs), 1), (tree_node hf ty root, 1)])"
proof -
  let ?ts = "PNode ls # PNode rs # us"
  note wf' = wf[unfolded root_def] and st' = st[unfolded root_def] and ty = tree_wf_leaf_type[OF wf]
  have wl: "tree_wf hf ty (PNode ls)" and wr: "tree_wf hf ty (PNode rs)"
    using tree_wf_nth(1)[OF wf', of 0] tree_wf_nth(1)[OF wf', of 1] by simp_all
  have sr: "stored hf ty ld (PNode rs)" using stored_nth[OF st', of 1] by simp
  have hl: "height (PNode ls) = 1" "height (PNode rs) = 1"
    using h tree_wf_nth(3)[OF wf', of 1] unfolding root_def by simp_all
  note ls = tree_wf_node[OF wl] and rsn = tree_wf_node[OF wr] and tsn = tree_wf_node[OF wf']
  define j where "j = length ls - 1"
  have j: "j < length ls" "Suc j = length ls" using ls(1) by (auto simp: j_def)
  have leaf: "height (ls ! j) = 0" "height (rs ! x) = 0" if "x < length rs" for x
    using tree_wf_nth(3)[OF wl j(1)] tree_wf_nth(3)[OF wr that] hl ls(1) rsn(1)
    by (simp_all add: height_PNode)
  have rs0: "0 < length rs" "1 < length rs" using rs by linarith+
  have step0: "0 < step" using tree_wf_nth(2)[OF wr rs0(1)] step by simp
  have b1: "before ?ts (Suc 0) = Suc i" using i by (simp add: before_def sizes_def)
  let ?g = "i + step"
  have er: "before rs 2 \<le> length (elems (PNode rs))"
    using before_mono[OF rs, of rs] before_all[of rs] by simp
  have b2: "before rs 2 = step + length (elems (rs ! 1))"
    using before_Suc[OF rs0(2)] before_Suc[OF rs0(1)] step by (simp add: before_def numeral_2_eq_2)
  have e1: "0 < length (elems (rs ! 1))" using tree_wf_nth(2)[OF wr rs0(2)] by simp
  have g: "?g < length (elems (PNode ?ts))" "Suc i \<le> ?g"
    using er b2 e1 i step0 by simp_all
  have cg: "child_of ?ts ?g = 1"
    using er b2 e1 i step0 by (intro child_of_eqI) (simp_all add: b1)
  have R: "AdvanceSteps ld [(tree_node hf ty root, 0)] step = Some (0, [(tree_node hf ty root, 1)])"
    using advance_phase1_from[OF wf' g(1), of 0] tree_node_numEntries[OF wf'] tsn(2) g(2) cg b1
    by (simp add: AdvanceSteps.simps(2) advance_first_def Let_def root_def)
  have "load_child ld [(tree_node hf ty root, 1)] = Some (tree_node hf ty (PNode rs))"
    using load_child_tree[OF wf' st', of 1 "[]"] by (simp add: root_def)
  moreover have "advance_phase3 (tree_node hf ty (PNode rs)) (length rs) 0 0 step = Some (1, step)"
    using elements_at_tree[OF wr rs0(1)] elements_at_tree[OF wr rs0(2)] rs rs0 rsn(2) e1 step
    by (simp add: advance_phase3.simps[of _ _ 0] advance_phase3.simps[of _ _ 1])
  moreover have "isEnd [(tree_node hf ty root, 1)] = Some False"
    using tree_node_numEntries[OF wf'] tsn(2) by (simp add: isEnd_def root_def)
  moreover have "advance_phase1 (tree_node hf ty (PNode ls)) (length ls) (int j) (int step) 0 0 =
      Some (int (length ls), 0, False)"
  proof -
    have "int j + 1 = int (length ls)" using j(2) by linarith
    then show ?thesis
      unfolding advance_phase1.simps[of _ _ "int j"] using step0 ls(2) by simp
  qed
  moreover have inner: "\<not> isLeaf (tree_node hf ty (PNode ls))" "\<not> isLeaf (tree_node hf ty (PNode rs))"
    by simp_all
  ultimately have M: "AdvanceSteps ld [(tree_node hf ty (PNode ls), int j), (tree_node hf ty root, 0)] step =
      Some (step, [(tree_node hf ty (PNode rs), int 1), (tree_node hf ty root, 1)])"
    unfolding AdvanceSteps.simps(2)[of ld "tree_node hf ty (PNode ls)"]
    using R tree_node_numEntries[OF wl] tree_node_numEntries[OF wr] ls(2) j inner
    by (simp add: advance_first_def Let_def del: tree_node.simps)
  let ?l = "ls ! j" and ?k = "i - before ls j"
  have total: "length (elems (PNode ls)) = before ls j + length (elems ?l)"
    by (rule length_elems_last[OF j(2)])
  have pos: "0 < length (elems ?l)" using tree_wf_nth(2)[OF wl j(1)] by simp
  have k: "before ls j \<le> i" "i < before ls j + length (elems ?l)" "Suc ?k = length (elems ?l)"
    using i pos unfolding total by linarith+
  have "child_of ?ts i = 0" "child_of ls i = j"
    using i k j(1) by (auto intro!: child_of_eqI simp: before_def)
  moreover have "cursor_of hf ty ?l ?k acc = (tree_node hf ty ?l, int ?k) # acc" for acc
    using leaf(1)[OF rs0(1)] by (cases ?l rule: height.cases) auto
  ultimately have cur: "cursor_of hf ty root i [] =
      [(tree_node hf ty ?l, int ?k), (tree_node hf ty (PNode ls), int j), (tree_node hf ty root, 0)]"
    using i cursor_of_PNode[of i ls hf ty "[(tree_node hf ty root, 0)]"] cursor_of_PNode[of i ?ts hf ty "[]"]
    unfolding root_def by (simp add: before_def)
  have nl: "numEntries (tree_node hf ty ?l) = Some (length (elems ?l))" "isLeaf (tree_node hf ty ?l)"
    "length (elems ?l) < 2 ^ 31"
    using leaf(1)[OF rs0(1)] tree_node_numEntries[OF tree_wf_nth(1)[OF wl j(1)]]
      tree_node_isLeaf[OF ty, of hf ?l] tree_wf_nth(1)[OF wl j(1)]
    by (cases ?l rule: height.cases; simp)+
  have lr: "isLeaf (tree_node hf ty (rs ! 1))"
    using leaf(2)[OF rs0(2)] tree_node_isLeaf[OF ty] by simp
  have "AdvanceSteps ld ((tree_node hf ty ?l, int ?k) #
      [(tree_node hf ty (PNode ls), int j), (tree_node hf ty root, 0)]) step =
    Some (step, (tree_node hf ty (rs ! 1), int (step - (length (elems ?l) - 1 - ?k) - step) - 1) #
      (tree_node hf ty (PNode rs), int 1) # [(tree_node hf ty root, 1)])"
    using M k(3) step0 rs0 rsn(2) tree_node_numEntries[OF wr] load_child_tree[OF wr sr rs0(2)] lr
      tree_node_numEntries[OF tree_wf_nth(1)[OF wr rs0(2)]]
    by (intro AdvanceSteps_over_leaf[OF nl]) auto
  then show ?thesis
    using cur k(3) by simp
qed

section \<open>A concrete tree of height two\<close>

lemma stored_loader_of:
  assumes "inj_on hf (set cs)" and "set (tree_chunks hf ty t) \<subseteq> set cs"
  shows "stored hf ty (loader_of hf cs) t"
proof -
  have get: "loader_of hf cs (hf c) = Some c" if "c \<in> set cs" for c
    using assms(1) that unfolding loader_of_def
    by (induction cs) (auto simp: inj_on_def)
  show ?thesis
    using assms(2)
  proof (induction t)
    case (PNode ts)
    then have "\<forall>t \<in> set ts. stored hf ty (loader_of hf cs) t" by fastforce
    with PNode.prems get show ?case by (simp add: tree_hash_def)
  qed (simp add: get)
qed

definition deep_tree :: ptree where
  "deep_tree = PNode [PNode [PLeaf [list_item [1]], PLeaf [list_item [2]]],
                      PNode [PLeaf [list_item [3]], PLeaf [list_item [4]]]]"

definition deep_loader :: loader where
  "deep_loader = loader_of ex_hf (tree_chunks ex_hf CT_kList deep_tree)"

lemma deep_tree_stored: "stored ex_hf CT_kList deep_loader deep_tree"
proof -
  have "distinct (map ex_hf (tree_chunks ex_hf CT_kList deep_tree))" by code_simp
  then have "inj_on ex_hf (set (tree_chunks ex_hf CT_kList deep_tree))"
    by (simp add: distinct_map)
  then show ?thesis
    unfolding deep_loader_def by (rule stored_loader_of) simp
qed

lemma ex_pair_wf:
  "tree_wf ex_hf CT_kList (PNode [PLeaf [list_item [a]], PLeaf [list_item [b]]])"
  "me_ok (tree_me ex_hf CT_kList (PNode [PLeaf [list_item [a]], PLeaf [list_item [b]]]))"
proof -
  have 1: "leaf_ok CT_kList [list_item [x]]" for x
    using ex_leaf_ok[of "[x]"] by simp
  have key: "me_key (leaf_entry ex_hf CT_kList es) = KeyValue 0" for es
    by (simp add: leaf_entry_def leaf_key_def keyed_type_def)
  have lv: "me_leaves (leaf_entry ex_hf CT_kList es) = 1" for es
    by (simp add: leaf_entry_def)
  have el: "me_elements (leaf_entry ex_hf CT_kList es) = length es" for es
    by (simp add: leaf_entry_def)
  note ok = leaf_entry_ok[OF 1 ex_hf_digest]
  have ms: "metas_ok [leaf_entry ex_hf CT_kList [list_item [a]], leaf_entry ex_hf CT_kList [list_item [b]]]"
    using ok unfolding metas_ok_def var_fits_def chunk_fits_def var_payload_def
    by (simp add: total_leaves_def kMetaLength_def key lv el)
  then show "tree_wf ex_hf CT_kList (PNode [PLeaf [list_item [a]], PLeaf [list_item [b]]])"
    using 1 by (simp add: tree_wf.simps(2))
  show "me_ok (tree_me ex_hf CT_kList (PNode [PLeaf [list_item [a]], PLeaf [list_item [b]]]))"
    using meta_me_ok[OF ms _ ex_hf_digest] by simp
qed

lemma deep_tree_wf: "tree_wf ex_hf CT_kList deep_tree"
proof -
  let ?t = "\<lambda>a b. PNode [PLeaf [list_item [a]], PLeaf [list_item [b]]]"
  have key: "me_key (tree_me ex_hf CT_kList (?t a b)) = KeyValue 0" for a b
    by (simp add: meta_me_def leaf_entry_def leaf_key_def keyed_type_def)
  have lv: "me_leaves (tree_me ex_hf CT_kList (?t a b)) = 2" for a b
    by (simp add: meta_me_def total_leaves_def leaf_entry_def)
  have "metas_ok (map (tree_me ex_hf CT_kList) [?t 1 2, ?t 3 4])"
    using ex_pair_wf(2) unfolding metas_ok_def var_fits_def chunk_fits_def var_payload_def
    by (simp add: total_leaves_def kMetaLength_def key lv total_elements_def del: tree_me.simps)
  with ex_pair_wf(1) show ?thesis
    unfolding deep_tree_def tree_wf.simps(2)[of _ _ "[?t 1 2, ?t 3 4]"] by simp
qed

lemma cursor_of_not_begin:
  "i < length (elems t) \<Longrightarrow> isBegin (cursor_of hf ty t i acc) = Some False"
proof (induction t arbitrary: i acc)
  case (PNode ts)
  note b = child_of_less[OF PNode.prems]
  show ?case
    unfolding cursor_of_PNode[OF PNode.prems]
    by (rule PNode.IH) (use b child_of_bounds[OF PNode.prems] in auto)
qed (simp add: isBegin_def)

section \<open>Properties\<close>

text \<open>In a well-formed stored tree of height at most one, \<open>AdvanceSteps(step)\<close> moves the cursor
  of element \<open>i\<close> to the cursor of element \<open>i + step\<close> and reports \<open>step\<close> steps, whenever
  that element exists.\<close>

lemma advance_steps_flat:
  assumes "tree_wf hf ty t" and "stored hf ty ld t" and "height t \<le> 1"
    and "i + step < length (elems t)" and "NodeCursor_idx ld (tree_hash hf ty t) i = Some cur"
  shows "\<exists>cur'. AdvanceSteps ld cur step = Some (step, cur') \<and>
           NodeCursor_idx ld (tree_hash hf ty t) (i + step) = Some cur'"
  using AdvanceSteps_flat[OF assms(1-4)] assms(4,5) NodeCursor_idx_tree[OF assms(1,2), of i]
    NodeCursor_idx_tree[OF assms(1,2,4)] by simp

text \<open>In a tree of height two \<open>AdvanceSteps\<close> misses its target: from the last element under
  the first inner node, moving by exactly the number of elements of the first leaf under the next
  inner node reports that many steps but leaves the cursor in front of the second leaf (index
  -1), instead of on the last element of the first leaf.\<close>


lemma advance_steps_misses:
  assumes "tree_wf hf ty (PNode (PNode ls # PNode rs # us))"
    and "stored hf ty ld (PNode (PNode ls # PNode rs # us))"
    and "height (PNode (PNode ls # PNode rs # us)) = 2"
    and "2 \<le> length rs" and "Suc i = length (elems (PNode ls))" and "step = length (elems (rs ! 0))"
    and "NodeCursor_idx ld (tree_hash hf ty (PNode (PNode ls # PNode rs # us))) i = Some cur"
  shows "\<exists>cur'. AdvanceSteps ld cur step = Some (step, cur') \<and> isBegin cur' = Some True \<and>
    NodeCursor_idx ld (tree_hash hf ty (PNode (PNode ls # PNode rs # us))) (i + step) \<noteq> Some cur'"
proof -
  let ?root = "PNode (PNode ls # PNode rs # us)"
  have i: "i < length (elems ?root)" using assms(5) by simp
  have cur: "cur = cursor_of hf ty ?root i []"
    using NodeCursor_idx_tree[OF assms(1,2) i] assms(7) by simp
  note adv = AdvanceSteps_misplaced[OF assms(1-6)]
  have wr: "tree_wf hf ty (PNode rs)" using tree_wf_nth(1)[OF assms(1), of 1] by simp
  have "step \<le> length (elems (PNode rs))"
    using assms(4,6) by (cases rs) auto
  then have t: "i + step < length (elems ?root)" using assms(5) by simp
  show ?thesis
    using NodeCursor_idx_tree[OF assms(1,2) t] cursor_of_not_begin[OF t, of hf ty "[]"] adv cur
    by (auto simp: isBegin_def simp del: tree_node.simps elems.simps)
qed

end
