(* ===== verification/Rolling_Hash.thy ===== *)
theory Rolling_Hash
  imports Prelude
begin

text \<open>
  The rolling hash that places chunk boundaries: the cyclic-polynomial hash of
  include/hash/buzhash.h (a ring buffer of the last \<open>n\<close> bytes and a 32-bit state) and the
  boundary detector of include/node/rolling_hash.h and src/node/rolling_hash.cc.

  The lemmas show that the state is a function of the last \<open>n\<close> bytes only
  (\<open>buz_inv_HashByte\<close>), and that the detector, from the last cleared boundary on, cuts
  where the reference function \<open>first_cut\<close> does (\<open>TryHashBytes_refines\<close>), whatever was hashed
  before.
\<close>

unbundle bit_operations_syntax

section \<open>Model\<close>

definition bytehash_table :: "32 word list" where
  "bytehash_table = [0x12bd9527, 0xf4140cea, 0x987bd6e1, 0x79079850, 0xafbfd539, 0xd350ce0a,
    0x82973931, 0x9fc32b9c, 0x28003b88, 0xc30c13aa, 0x6b678c34, 0x5844ef1d,
    0xaa552c18, 0x4a77d3e8, 0xd1f62ea0, 0x6599417c, 0xfbe30e7a, 0xf9e2d5ee,
    0xa1fca42e, 0x41548969, 0x116d5b59, 0xaeda1e1a, 0xc5191c17, 0x54b9a3cb,
    0x727e492a, 0x5c432f91, 0x31a50bce, 0xc2696af6, 0x217c8020, 0x1262aefc,
    0xace75924, 0x9876a04f, 0xaf300bc2, 0x3ffce3f6, 0xd6680fb5, 0xd0b1ced8,
    0x6651f842, 0x736fadef, 0xbc2d3429, 0xb03d2904, 0x7e634ba4, 0xdfd87d8c,
    0x7988d63a, 0x4be4d933, 0x6a8d0382, 0x9e132d62, 0x3ee9c95f, 0xfec05b97,
    0x6907ad34, 0x8616cfcc, 0xa6aabf24, 0x8ad1c92e, 0x4f2affc0, 0xb87519db,
    0x6576eaf6, 0x15dbe00a, 0x63e1dd82, 0xa36b6a81, 0xeead99b3, 0xbc6a4309,
    0x3478d1a7, 0x2182bcc0, 0xdd50cfce, 0x7cb25580, 0x73075483, 0x503b7f42,
    0x4cd50d63, 0x3f4d94c9, 0x385fcbb7, 0x90daf16c, 0xece10b8e, 0x11c1cb04,
    0x816a899b, 0x69a29d06, 0xfb090b37, 0xf98ef13c, 0x07653435, 0x9f15dc42,
    0x3b43abdf, 0x1334283f, 0x93f3d9af, 0x0cbdfe71, 0xa788a614, 0x4f54d2f0,
    0xd4374fc7, 0x70557ce7, 0xf741fce8, 0xe4b6f661, 0xc630cb98, 0x387a6366,
    0x72f428fd, 0x539009db, 0xc53e3810, 0x1e1a52e5, 0x7d6816b0, 0x040f9b81,
    0x9c99c9fb, 0x9f3af3d2, 0x774d1061, 0xd5c840ea, 0x8e1480fe, 0x6ee4023c,
    0x2fbda535, 0xd88eff7a, 0xd8632a2a, 0x43c4e024, 0x3ef27971, 0xc72866fd,
    0xe35cc630, 0x46d96220, 0x437a8384, 0xe92caf0c, 0x6290a47e, 0xa7bb9238,
    0x0e1000f9, 0x49e76bdc, 0x3acfb4b8, 0x03582b8e, 0x6ea2de4e, 0x2ec1008d,
    0xfcc8df69, 0x91c2fe0a, 0xb471c7d9, 0x778be812, 0x70d29ad1, 0x76411cbf,
    0xc302e81c, 0x4e445194, 0x22e3aa72, 0xb65762e9, 0xa280db05, 0x827aa70e,
    0x4c531a9d, 0x7a60bf4a, 0x8fd95a44, 0x2289aef0, 0xcd50ddc4, 0x639aae69,
    0x5fe85ed6, 0x4ed724ff, 0x00f04f7d, 0x95a5fcb0, 0x88255d15, 0xa603d2c9,
    0xf6956a5b, 0x53ea7f3e, 0xb570f225, 0x2b3be203, 0xa181e40e, 0xc413cdce,
    0xa7cb1ebb, 0xcf258b1f, 0x516eb016, 0xca204586, 0xd1e69894, 0xe85a73d3,
    0x7db2d382, 0xae73b463, 0x3598d643, 0x5087c864, 0xd91f30b6, 0xe1d4d1e7,
    0x73b3b337, 0xceac1233, 0x8edf7845, 0xa69c45c9, 0xdb5db3ab, 0x28cfade8,
    0xebfa49e7, 0xcbc2a659, 0x59cce971, 0x959a01af, 0x8ee9aae7, 0xfb2f01c6,
    0x5a752836, 0x9ed12981, 0x618d05b6, 0x93ec12b3, 0x4590c779, 0xed1317a2,
    0x03fe5835, 0x7ad3c6f7, 0xd4aad5b5, 0x1a995ed7, 0x247bfaa4, 0x69c2c799,
    0x745fa405, 0xc5b9f239, 0xc3d9aebc, 0xa6f60e0b, 0xdf1e91d7, 0xab8e041c,
    0xee3188c6, 0x37377a9e, 0xc0e1a3bf, 0x19a5a9e4, 0x56cb9556, 0xc4d33d3f,
    0xfb1eb03e, 0xf9557057, 0x1be31d37, 0xd1fa65f1, 0xf518d714, 0x570ac722,
    0xf26cf66a, 0x24794d47, 0x8ba2e402, 0x3f5137e6, 0x35be1453, 0x43350478,
    0x9f05ee88, 0x364cf9cf, 0x39a23ee7, 0xa4db8d49, 0xc2ebb3d2, 0xc6fb99d5,
    0xe014dfb0, 0x7156d425, 0xe090a87a, 0x4cc12f78, 0x1b30f503, 0x06694a7a,
    0x68198cd1, 0x2f8345bd, 0x9d79198e, 0xd871943f, 0x22ef6cf4, 0xe81b1c15,
    0x067b61d8, 0xfc4ea4f5, 0xfe6dab57, 0x1bf744ba, 0xa70b6a25, 0xafe6e412,
    0xc6c1a05c, 0x8ffbe3ce, 0xc4270af1, 0xf3f36373, 0xc4507dd8, 0x5e6fd1e2,
    0x58cd9739, 0x47d3c5b5, 0xe1d5a343, 0x3d4dea4a, 0x893d91ae, 0xbb2a5e2a,
    0x0d57b800, 0x652a7cc9, 0x6a68ccfd, 0x62529f0b, 0xec5f36d6, 0x766cceda,
    0x96ca63ef, 0xa0499838, 0xd9030f59, 0x8185f4d2]"

definition bytehash :: "byte \<Rightarrow> 32 word" where
  "bytehash b = bytehash_table ! unat b"

text \<open>
  The object of class \<open>BuzHash\<close>.  The buffer is allocated uninitialised; it is read only
  where it has been written (\<open>buz_inv\<close>), so the zeros here are never observed.
\<close>

record buzhash =
  bz_state :: "32 word"
  bz_n :: nat
  bz_bshiftn :: nat
  bz_bshiftm :: nat
  bz_bufpos :: nat
  bz_buf :: bytes
  bz_overflow :: bool

definition BuzHash_Reset :: "buzhash \<Rightarrow> buzhash" where
  "BuzHash_Reset h = h\<lparr>bz_state := 0, bz_bufpos := 0, bz_overflow := False\<rparr>"

definition BuzHash :: "nat \<Rightarrow> buzhash" where
  "BuzHash n = BuzHash_Reset
     \<lparr>bz_state = 0, bz_n = n, bz_bshiftn = n mod 32, bz_bshiftm = 32 - n mod 32,
      bz_bufpos = 0, bz_buf = replicate n 0, bz_overflow = False\<rparr>"

definition Sum32 :: "buzhash \<Rightarrow> 32 word" where
  "Sum32 h = bz_state h"

definition BuzHash_HashByte :: "buzhash \<Rightarrow> byte \<Rightarrow> buzhash" where
  "BuzHash_HashByte h b =
    (let wrap = (bz_bufpos h = bz_n h);
         overflow = (wrap \<or> bz_overflow h);
         bufpos = (if wrap then 0 else bz_bufpos h);
         state = push_bit 1 (bz_state h) OR drop_bit 31 (bz_state h);
         state = (if overflow
                  then (let toshift = bytehash (bz_buf h ! bufpos) in
                        state XOR (push_bit (bz_bshiftn h) toshift OR
                                   drop_bit (bz_bshiftm h) toshift))
                  else state)
     in h\<lparr>bz_state := state XOR bytehash b, bz_bufpos := bufpos + 1,
          bz_buf := (bz_buf h)[bufpos := b], bz_overflow := overflow\<rparr>)"

record rolling_hasher =
  rh_chunk_pattern :: "32 word"
  rh_window_size :: nat
  rh_max_size :: nat
  rh_byte_hashed :: nat
  rh_crossed :: bool
  rh_buz :: buzhash

definition kDefaultChunkPattern :: "32 word" where
  "kDefaultChunkPattern = push_bit 12 1 - 1"

definition kDefaultChunkWindow :: nat where
  "kDefaultChunkWindow = 256"

definition kDefaultMaxChunkSize :: nat where
  "kDefaultMaxChunkSize = 2 ^ 15"

definition RollingHasher :: "32 word \<Rightarrow> nat \<Rightarrow> nat \<Rightarrow> rolling_hasher" where
  "RollingHasher chunk_pattern window_size max_size =
    \<lparr>rh_chunk_pattern = chunk_pattern, rh_window_size = window_size, rh_max_size = max_size,
     rh_byte_hashed = 0, rh_crossed = False, rh_buz = BuzHash (window_size mod 2 ^ 32)\<rparr>"

definition RollingHasher_default :: rolling_hasher where
  "RollingHasher_default =
     RollingHasher kDefaultChunkPattern kDefaultChunkWindow kDefaultMaxChunkSize"

definition HashByte :: "rolling_hasher \<Rightarrow> byte \<Rightarrow> rolling_hasher" where
  "HashByte h b =
    (let byte_hashed = rh_byte_hashed h + 1;
         buz = BuzHash_HashByte (rh_buz h) b
     in h\<lparr>rh_byte_hashed := byte_hashed, rh_buz := buz,
          rh_crossed := (byte_hashed \<ge> rh_window_size h \<and>
                         (rh_crossed h \<or>
                          Sum32 buz AND rh_chunk_pattern h = rh_chunk_pattern h \<or>
                          byte_hashed = rh_max_size h))\<rparr>)"

fun HashBytes :: "rolling_hasher \<Rightarrow> bytes \<Rightarrow> rolling_hasher" where
  "HashBytes h [] = h"
| "HashBytes h (b # data) = HashBytes (HashByte h b) data"

text \<open>
  The loop of \<open>TryHashBytes\<close> at index \<open>i\<close>, on the bytes still to be read; the result
  is the position returned and the hasher left behind.
\<close>

fun TryHashBytes_from :: "nat \<Rightarrow> rolling_hasher \<Rightarrow> bytes \<Rightarrow> nat \<times> rolling_hasher" where
  "TryHashBytes_from i h [] = (i, h)"
| "TryHashBytes_from i h (b # data) =
     (let h' = HashByte h b in
      if rh_crossed h' then (i, h') else TryHashBytes_from (i + 1) h' data)"

definition TryHashBytes :: "rolling_hasher \<Rightarrow> bytes \<Rightarrow> nat \<times> rolling_hasher" where
  "TryHashBytes h data = TryHashBytes_from 0 h data"

definition ClearLastBoundary :: "rolling_hasher \<Rightarrow> rolling_hasher" where
  "ClearLastBoundary h = h\<lparr>rh_crossed := False, rh_byte_hashed := 0\<rparr>"

definition ResetBoundary :: "rolling_hasher \<Rightarrow> rolling_hasher" where
  "ResetBoundary h = h\<lparr>rh_crossed := False\<rparr>"

definition CrossedBoundary :: "rolling_hasher \<Rightarrow> bool" where
  "CrossedBoundary h = rh_crossed h"

section \<open>Rotations\<close>

definition rotl32 :: "nat \<Rightarrow> 32 word \<Rightarrow> 32 word" where
  "rotl32 k x = push_bit (k mod 32) x OR drop_bit (32 - k mod 32) x"

lemma bit_32_less: "bit (x :: 32 word) j \<Longrightarrow> j < 32"
  using bit_imp_le_length[of x j] by simp

lemma bit_rot_less:
  fixes x :: "32 word"
  assumes "r < 32"
  shows "bit (push_bit r x OR drop_bit (32 - r) x) i \<longleftrightarrow>
         i < 32 \<and> bit x (if i < r then i + 32 - r else i - r)"
proof (cases "i < r")
  case True
  then have "32 - r + i = i + 32 - r" "\<not> r \<le> i" "i < 32" using assms by auto
  with True show ?thesis
    by (simp add: bit_or_iff bit_push_bit_iff bit_drop_bit_eq)
next
  case False
  then have "\<not> bit x (32 - r + i)" "r \<le> i" using bit_32_less[of x "32 - r + i"] assms by auto
  with False show ?thesis
    by (simp add: bit_or_iff bit_push_bit_iff bit_drop_bit_eq)
qed

lemma bit_rotl32:
  "bit (rotl32 k x) i \<longleftrightarrow>
   i < 32 \<and> bit x (if i < k mod 32 then i + 32 - k mod 32 else i - k mod 32)"
  unfolding rotl32_def by (rule bit_rot_less) simp

lemma rotl32_0 [simp]: "rotl32 0 x = x"
  by (rule bit_word_eqI) (auto simp: bit_rotl32)

lemma rotl32_xor: "rotl32 k (x XOR y) = rotl32 k x XOR rotl32 k y"
  by (rule bit_word_eqI) (auto simp: bit_rotl32 bit_xor_iff)

lemma rotl32_zero [simp]: "rotl32 k 0 = 0"
  by (rule bit_word_eqI) (auto simp: bit_rotl32)

lemma rotl32_Suc: "rotl32 1 (rotl32 k x) = rotl32 (Suc k) x"
proof (rule bit_word_eqI)
  fix i assume "i < LENGTH(32)"
  then have i: "i < 32" by simp
  have r: "k mod 32 < 32" by simp
  have s: "Suc k mod 32 = (if k mod 32 = 31 then 0 else Suc (k mod 32))"
    by (simp add: mod_Suc)
  have "bit (rotl32 1 (rotl32 k x)) i = bit (rotl32 k x) (if i = 0 then 31 else i - 1)"
    using i by (cases i) (simp_all add: bit_rotl32[of "Suc 0"])
  also have "\<dots> = bit (rotl32 (Suc k) x) i"
    using i r unfolding bit_rotl32[of k] bit_rotl32[of "Suc k"] s
    by (cases "k mod 32 = 31"; cases i) (auto simp: add.commute)
  finally show "bit (rotl32 1 (rotl32 k x)) i = bit (rotl32 (Suc k) x) i" .
qed

section \<open>The hash state is a function of the window\<close>

text \<open>
  The reference hash of a byte sequence, without window or ring buffer: each byte enters by a
  rotation and an exclusive or.
\<close>

fun buz_of :: "bytes \<Rightarrow> 32 word" where
  "buz_of [] = 0"
| "buz_of (a # w) = rotl32 (length w) (bytehash a) XOR buz_of w"

definition lastn :: "nat \<Rightarrow> 'a list \<Rightarrow> 'a list" where
  "lastn n xs = drop (length xs - n) xs"

lemma length_lastn [simp]: "length (lastn n xs) = min n (length xs)"
  by (simp add: lastn_def)

lemma lastn_all: "length xs \<le> n \<Longrightarrow> lastn n xs = xs"
  by (simp add: lastn_def)

lemma lastn_append: "n \<le> length ys \<Longrightarrow> lastn n (xs @ ys) = lastn n ys"
  by (simp add: lastn_def)

lemma lastn_lastn_append: "lastn n (lastn n xs @ ys) = lastn n (xs @ ys)"
proof (cases "length xs \<le> n")
  case False
  then have "length (lastn n xs) = n" by simp
  with False show ?thesis
    by (auto simp: lastn_def add.commute)
qed (simp add: lastn_all)

lemma rotl32_1: "push_bit 1 x OR drop_bit 31 x = rotl32 1 x"
  by (simp add: rotl32_def)

lemma buz_of_snoc: "buz_of (w @ [b]) = rotl32 1 (buz_of w) XOR bytehash b"
  by (induction w) (simp_all add: rotl32_xor rotl32_Suc[simplified] xor.assoc)

text \<open>Dropping the oldest byte of a full window and appending the new one.\<close>

lemma buz_of_slide:
  "rotl32 1 (buz_of (a # w)) XOR rotl32 (Suc (length w)) (bytehash a) XOR bytehash b
   = buz_of (w @ [b])"
proof -
  have "rotl32 1 (buz_of (a # w)) =
      rotl32 (Suc (length w)) (bytehash a) XOR rotl32 1 (buz_of w)"
    unfolding buz_of.simps rotl32_xor rotl32_Suc ..
  then show ?thesis
    unfolding buz_of_snoc by (simp add: xor.assoc xor.left_commute xor.commute)
qed

definition buz_inv :: "buzhash \<Rightarrow> bytes \<Rightarrow> bool" where
  "buz_inv h w \<longleftrightarrow>
     bz_n h > 0 \<and> bz_bshiftn h = bz_n h mod 32 \<and> bz_bshiftm h = 32 - bz_n h mod 32 \<and>
     length (bz_buf h) = bz_n h \<and> bz_bufpos h \<le> bz_n h \<and>
     w = (if bz_overflow h then drop (bz_bufpos h) (bz_buf h) else []) @
         take (bz_bufpos h) (bz_buf h) \<and>
     bz_state h = buz_of w"

lemma buz_inv_init: "n > 0 \<Longrightarrow> buz_inv (BuzHash n) []"
  by (simp add: buz_inv_def BuzHash_def BuzHash_Reset_def)

lemma buz_inv_length: "buz_inv h w \<Longrightarrow> length w \<le> bz_n h"
  by (auto simp: buz_inv_def)

lemma bz_n_HashByte [simp]: "bz_n (BuzHash_HashByte h b) = bz_n h"
  by (simp add: BuzHash_HashByte_def Let_def)

lemma bz_n_BuzHash [simp]: "bz_n (BuzHash n) = n"
  by (simp add: BuzHash_def BuzHash_Reset_def)

lemma HashByte_grow:
  assumes inv: "buz_inv h w" and p: "bz_bufpos h < bz_n h" and o: "\<not> bz_overflow h"
  shows "buz_inv (BuzHash_HashByte h b) (w @ [b])" "length w < bz_n h"
proof -
  have w: "w = take (bz_bufpos h) (bz_buf h)"
    using inv o by (simp add: buz_inv_def)
  have "take (Suc (bz_bufpos h)) ((bz_buf h)[bz_bufpos h := b]) = w @ [b]"
    using inv p by (simp add: w buz_inv_def take_Suc_conv_app_nth)
  with inv p o show "buz_inv (BuzHash_HashByte h b) (w @ [b])"
    by (simp add: buz_inv_def BuzHash_HashByte_def Let_def buz_of_snoc rotl32_1[simplified])
  show "length w < bz_n h"
    using inv p by (simp add: w buz_inv_def)
qed

text \<open>Once the buffer is full, position \<open>p\<close> holds the oldest byte of the window.\<close>

lemma HashByte_slide:
  assumes inv: "buz_inv h w" and p: "p = (if bz_bufpos h = bz_n h then 0 else bz_bufpos h)"
    and o: "bz_overflow h \<or> bz_bufpos h = bz_n h"
  shows "buz_inv (BuzHash_HashByte h b) (tl w @ [b])" "length w = bz_n h"
proof -
  let ?buf = "bz_buf h"
  have l: "length ?buf = bz_n h" "p < bz_n h"
    using inv p by (auto simp: buz_inv_def)
  have w: "w = drop p ?buf @ take p ?buf"
    using inv o p by (auto simp: buz_inv_def)
  have dp: "drop p ?buf = ?buf ! p # drop (Suc p) ?buf"
    using l by (simp add: Cons_nth_drop_Suc)
  have w': "w = ?buf ! p # (drop (Suc p) ?buf @ take p ?buf)"
    unfolding w dp by simp
  have "drop (Suc p) (?buf[p := b]) @ take (Suc p) (?buf[p := b]) = tl w @ [b]"
    using l by (simp add: w' take_Suc_conv_app_nth)
  moreover have "rotl32 1 (bz_state h) XOR
      rotl32 (bz_n h) (bytehash (?buf ! p)) XOR bytehash b = buz_of (tl w @ [b])"
  proof -
    have n: "bz_n h = Suc (length (tl w))" using l by (simp add: w')
    have "?buf ! p # tl w = w" by (simp add: w')
    then have s: "bz_state h = buz_of (?buf ! p # tl w)"
      using inv by (simp only: buz_inv_def)
    show ?thesis unfolding s unfolding n by (rule buz_of_slide)
  qed
  ultimately show "buz_inv (BuzHash_HashByte h b) (tl w @ [b])"
    using inv o l p
    by (auto simp: buz_inv_def BuzHash_HashByte_def Let_def rotl32_1[simplified]
        rotl32_def[of "bz_n h"] xor.assoc)
  show "length w = bz_n h"
    using l by (simp add: w)
qed

lemma buz_inv_HashByte:
  assumes inv: "buz_inv h w"
  shows "buz_inv (BuzHash_HashByte h b) (lastn (bz_n h) (w @ [b]))"
proof (cases "bz_overflow h \<or> bz_bufpos h = bz_n h")
  case True
  note slide = HashByte_slide[OF inv refl True]
  have "bz_n h > 0" using inv by (simp add: buz_inv_def)
  with slide(2) have "lastn (bz_n h) (w @ [b]) = tl w @ [b]"
    by (cases w) (auto simp: lastn_def)
  with slide(1) show ?thesis by simp
next
  case False
  then have "bz_bufpos h < bz_n h"
    using inv by (auto simp: buz_inv_def)
  note grow = HashByte_grow[OF inv this]
  with False show ?thesis
    by (simp add: lastn_all)
qed

section \<open>The boundary detector\<close>

text \<open>
  The reference: \<open>is_boundary\<close> says whether the bytes \<open>xs\<close> hashed since the last
  boundary end in a boundary, and \<open>first_cut\<close> is the position in \<open>data\<close> of the first
  byte that completes one, when the bytes \<open>cur\<close> have gone before.
\<close>

definition is_boundary :: "32 word \<Rightarrow> nat \<Rightarrow> nat \<Rightarrow> bytes \<Rightarrow> bool" where
  "is_boundary pat win mx xs \<longleftrightarrow>
     win \<le> length xs \<and> (buz_of (lastn win xs) AND pat = pat \<or> length xs = mx)"

fun first_cut :: "(bytes \<Rightarrow> bool) \<Rightarrow> bytes \<Rightarrow> bytes \<Rightarrow> nat option" where
  "first_cut P cur [] = None"
| "first_cut P cur (b # data) =
     (if P (cur @ [b]) then Some 0 else map_option Suc (first_cut P (cur @ [b]) data))"

text \<open>The boundary test of a hasher, from its three parameters.\<close>

definition rh_test :: "rolling_hasher \<Rightarrow> bytes \<Rightarrow> bool" where
  "rh_test h = is_boundary (rh_chunk_pattern h) (rh_window_size h) (rh_max_size h)"

definition rh_wf :: "rolling_hasher \<Rightarrow> bool" where
  "rh_wf h \<longleftrightarrow> 0 < rh_window_size h \<and> bz_n (rh_buz h) = rh_window_size h \<and>
     (\<exists>w. buz_inv (rh_buz h) w)"

definition rh_rep :: "rolling_hasher \<Rightarrow> bytes \<Rightarrow> bool" where
  "rh_rep h cur \<longleftrightarrow> 0 < rh_window_size h \<and> bz_n (rh_buz h) = rh_window_size h \<and>
     (\<exists>hist. buz_inv (rh_buz h) (lastn (rh_window_size h) (hist @ cur))) \<and>
     rh_byte_hashed h = length cur \<and> \<not> rh_crossed h"

lemma rh_rep_init: "0 < w \<Longrightarrow> w < 2 ^ 32 \<Longrightarrow> rh_rep (RollingHasher p w m) []"
  by (auto simp: rh_rep_def RollingHasher_def lastn_def intro!: exI[of _ "[]"] buz_inv_init)

lemma rh_rep_wf: "rh_rep h cur \<Longrightarrow> rh_wf h"
  by (auto simp: rh_rep_def rh_wf_def)

lemma rh_test_simps [simp]:
  "rh_test (HashByte h b) = rh_test h"
  "rh_test (ClearLastBoundary h) = rh_test h"
  "rh_test (RollingHasher p w m) = is_boundary p w m"
  by (simp_all add: rh_test_def HashByte_def ClearLastBoundary_def RollingHasher_def Let_def)

lemma rh_wf_HashByte: "rh_wf h \<Longrightarrow> rh_wf (HashByte h b)"
  using buz_inv_HashByte by (fastforce simp: rh_wf_def HashByte_def Let_def)

lemma rh_wf_HashBytes: "rh_wf h \<Longrightarrow> rh_wf (HashBytes h data)"
  by (induction h data rule: HashBytes.induct) (auto simp: rh_wf_HashByte)

lemma rh_test_HashBytes [simp]: "rh_test (HashBytes h data) = rh_test h"
  by (induction h data rule: HashBytes.induct) auto

text \<open>Clearing the boundary forgets nothing of the window and starts a new chunk.\<close>

lemma rh_rep_Clear:
  assumes "rh_wf h"
  shows "rh_rep (ClearLastBoundary h) []"
proof -
  obtain w where w: "buz_inv (rh_buz h) w" and n: "bz_n (rh_buz h) = rh_window_size h"
    using assms by (auto simp: rh_wf_def)
  have "lastn (rh_window_size h) w = w"
    using buz_inv_length[OF w] n by (simp add: lastn_all)
  with assms w show ?thesis
    by (auto simp: rh_rep_def rh_wf_def ClearLastBoundary_def intro!: exI[of _ w])
qed

lemma HashByte_rep:
  assumes rep: "rh_rep h cur"
  shows "rh_crossed (HashByte h b) \<longleftrightarrow> rh_test h (cur @ [b])"
    and "\<not> rh_test h (cur @ [b]) \<Longrightarrow> rh_rep (HashByte h b) (cur @ [b])"
proof -
  let ?n = "rh_window_size h"
  obtain hist where inv: "buz_inv (rh_buz h) (lastn ?n (hist @ cur))"
    using rep by (auto simp: rh_rep_def)
  have n: "bz_n (rh_buz h) = ?n" using rep by (simp add: rh_rep_def)
  have inv': "buz_inv (BuzHash_HashByte (rh_buz h) b) (lastn ?n (hist @ cur @ [b]))"
    using buz_inv_HashByte[OF inv, of b] by (simp add: n lastn_lastn_append)
  then have "Sum32 (BuzHash_HashByte (rh_buz h) b) = buz_of (lastn ?n (hist @ cur @ [b]))"
    by (simp add: Sum32_def buz_inv_def)
  moreover have "lastn ?n (hist @ cur @ [b]) = lastn ?n (cur @ [b])" if "?n \<le> Suc (length cur)"
    using that by (intro lastn_append) simp
  ultimately show c: "rh_crossed (HashByte h b) \<longleftrightarrow> rh_test h (cur @ [b])"
    using rep by (auto simp: rh_rep_def HashByte_def Let_def rh_test_def is_boundary_def)
  show "rh_rep (HashByte h b) (cur @ [b])" if "\<not> rh_test h (cur @ [b])"
    using that rep inv' c
    by (auto simp: rh_rep_def HashByte_def Let_def)
qed

text \<open>
  \<open>TryHashBytes\<close> against the reference: it stops where \<open>first_cut\<close> says, and where it does
  not stop the bytes it read belong to the current chunk.
\<close>

lemma TryHashBytes_from_refines:
  assumes "rh_rep h cur" and "TryHashBytes_from i h data = (pos, h')"
  shows "(case first_cut (rh_test h) cur data of
            Some k \<Rightarrow> pos = i + k \<and> k < length data \<and> rh_crossed h' \<and> rh_wf h'
          | None \<Rightarrow> pos = i + length data \<and> rh_rep h' (cur @ data)) \<and> rh_test h' = rh_test h"
  using assms
proof (induction i h data arbitrary: cur rule: TryHashBytes_from.induct)
  case (2 i h b data)
  note step = HashByte_rep[OF 2(2), of b]
  show ?case
  proof (cases "rh_test h (cur @ [b])")
    case True
    with step(1) 2(3) have "pos = i" "h' = HashByte h b" by (auto simp: Let_def)
    with True step(1) rh_wf_HashByte[OF rh_rep_wf[OF 2(2)]] show ?thesis by simp
  next
    case False
    with step(1) have nc: "\<not> rh_crossed (HashByte h b)" by simp
    with 2(3) have rest: "TryHashBytes_from (i + 1) (HashByte h b) data = (pos, h')"
      by (simp add: Let_def)
    have IH: "(case first_cut (rh_test h) (cur @ [b]) data of
        Some k \<Rightarrow> pos = (i + 1) + k \<and> k < length data \<and> rh_crossed h' \<and> rh_wf h'
      | None \<Rightarrow> pos = (i + 1) + length data \<and> rh_rep h' ((cur @ [b]) @ data)) \<and>
      rh_test h' = rh_test h"
      using 2(1)[OF refl nc step(2)[OF False] rest] by simp
    with False show ?thesis
      by (auto split: option.splits)
  qed
qed simp

lemma TryHashBytes_refines:
  assumes "rh_rep h cur" and "TryHashBytes h data = (pos, h')"
  shows "(case first_cut (rh_test h) cur data of
            Some k \<Rightarrow> pos = k \<and> k < length data \<and> rh_crossed h' \<and> rh_wf h'
          | None \<Rightarrow> pos = length data \<and> rh_rep h' (cur @ data)) \<and> rh_test h' = rh_test h"
  using TryHashBytes_from_refines[OF assms(1), of 0 data pos h'] assms(2)
  by (auto simp: TryHashBytes_def split: option.splits)

lemma TryHashBytes_result:
  assumes "rh_rep h cur"
  shows "fst (TryHashBytes h data) =
           (case first_cut (rh_test h) cur data of Some k \<Rightarrow> k | None \<Rightarrow> length data)"
    and "CrossedBoundary (snd (TryHashBytes h data)) \<longleftrightarrow> first_cut (rh_test h) cur data \<noteq> None"
  using TryHashBytes_refines[OF assms, of data "fst (TryHashBytes h data)"
      "snd (TryHashBytes h data)"]
  by (auto simp: CrossedBoundary_def rh_rep_def split: option.splits)

lemma cut_eq_None: "first_cut P cur data = None \<longleftrightarrow> (\<forall>k < length data. \<not> P (cur @ take (Suc k) data))"
proof (induction P cur data rule: first_cut.induct)
  case (2 P cur b data)
  then show ?case
    by (auto simp: less_Suc_eq_0_disj)
qed simp

lemma cut_eq_Some:
  "first_cut P cur data = Some i \<longleftrightarrow>
     i < length data \<and> P (cur @ take (Suc i) data) \<and>
     (\<forall>k < i. \<not> P (cur @ take (Suc k) data))"
proof (induction P cur data arbitrary: i rule: first_cut.induct)
  case (2 P cur b data)
  show ?case
  proof (cases i)
    case (Suc j)
    then show ?thesis
      using 2 by (auto simp: less_Suc_eq_0_disj)
  qed auto
qed simp

lemma cut_append:
  "first_cut P cur (xs @ ys) = (case first_cut P cur xs of Some i \<Rightarrow> Some i
     | None \<Rightarrow> map_option (\<lambda>i. i + length xs) (first_cut P (cur @ xs) ys))"
  by (induction P cur xs rule: first_cut.induct)
    (auto split: option.splits simp: option.map_comp comp_def option.map_ident)

lemma state_fold_HashByte:
  assumes "buz_inv h w"
  shows "buz_inv (foldl BuzHash_HashByte h bs) (lastn (bz_n h) (w @ bs)) \<and>
         bz_n (foldl BuzHash_HashByte h bs) = bz_n h"
  using assms
proof (induction bs arbitrary: h w)
  case Nil
  then show ?case by (simp add: lastn_all buz_inv_length)
next
  case (Cons b bs)
  from Cons.IH[OF buz_inv_HashByte[OF Cons.prems, of b]] show ?case
    by (simp add: lastn_lastn_append)
qed

section \<open>Properties\<close>

text \<open>The rolling hash is a window hash: whatever bytes were hashed before, the state after
  hashing \<open>xs @ w\<close> with a window of \<open>n\<close> bytes is the cyclic-polynomial hash of the last
  \<open>n\<close> bytes, computed from scratch (\<open>buz_of\<close>); the ring buffer, its position and the
  overflow flag never show.\<close>


lemma buzhash_window:
  assumes "length w = n" and "0 < n"
  shows "Sum32 (foldl BuzHash_HashByte (BuzHash n) (xs @ w)) = buz_of w"
proof -
  have "buz_inv (foldl BuzHash_HashByte (BuzHash n) (xs @ w)) (lastn n (xs @ w))"
    using state_fold_HashByte[OF buz_inv_init[OF assms(2)], of "xs @ w"] by simp
  moreover have "lastn n (xs @ w) = w"
    using assms by (simp add: lastn_append lastn_all)
  ultimately show ?thesis
    by (simp add: buz_inv_def Sum32_def)
qed

text \<open>C23.  Chunk boundaries are those of the reference, independent of history: once a boundary has
  been cleared, whatever was hashed before, the next boundary in \<open>data\<close> is at the first position
  where the last \<open>w\<close> bytes since the cleared boundary hash to the pattern or the bytes since then reach
  the maximum \<open>m\<close>; without such a position all of \<open>data\<close> is hashed and no boundary reported.  A hasher that
  has hashed nothing before does the same.  This is what makes the chunks of a sequence, and with
  them the hashes of the tree, independent of the order of the edits that led to it.\<close>

theorem boundary_history_independent:
  assumes "0 < w" and "w < 2 ^ 32"
  shows "let used = TryHashBytes (ClearLastBoundary (HashBytes (RollingHasher p w m) hist)) data;
             fresh = TryHashBytes (RollingHasher p w m) data;
             cut = first_cut (is_boundary p w m) [] data
         in fst used = (case cut of Some k \<Rightarrow> k | None \<Rightarrow> length data) \<and>
            CrossedBoundary (snd used) = (cut \<noteq> None) \<and>
            fst fresh = fst used \<and> CrossedBoundary (snd fresh) = CrossedBoundary (snd used)"
proof -
  have fresh: "rh_rep (RollingHasher p w m) []"
    using assms by (rule rh_rep_init)
  have used: "rh_rep (ClearLastBoundary (HashBytes (RollingHasher p w m) hist)) []"
    by (rule rh_rep_Clear[OF rh_wf_HashBytes[OF rh_rep_wf[OF fresh]]])
  show ?thesis
    by (simp add: Let_def TryHashBytes_result[OF fresh] TryHashBytes_result[OF used])
qed

theorem boundary_history_independent_witness:
  "let used = TryHashBytes (ClearLastBoundary (HashBytes (RollingHasher 1 2 4) [5, 6, 7])) [1, 2, 3, 4, 5, 6];
       cut = first_cut (is_boundary 1 2 4) [] [1, 2, 3, 4, 5, 6]
   in cut \<noteq> None \<and> fst used = the cut \<and> CrossedBoundary (snd used)"
proof -
  have "first_cut (is_boundary 1 2 4) [] [1, 2, 3, 4, 5, 6] \<noteq> None"
    by (simp add: is_boundary_def)
  then show ?thesis
    using boundary_history_independent[of 2 1 4 "[5, 6, 7]" "[1, 2, 3, 4, 5, 6]"]
    by (auto simp: Let_def simp del: first_cut.simps)
qed

text \<open>C32.  The sizes of chunks are bounded: on at least \<open>m\<close> bytes after a cleared boundary a
  hasher with window \<open>w\<close> and maximum \<open>m\<close> reports a boundary, after at least \<open>w\<close> and
  at most \<open>m\<close> bytes.\<close>

theorem boundary_within_bounds:
  assumes "0 < w" and "w < 2 ^ 32" and "w \<le> m" and "m \<le> length data"
    and "TryHashBytes (ClearLastBoundary (HashBytes (RollingHasher p w m) hist)) data = (pos, h')"
  shows "CrossedBoundary h' \<and> w \<le> pos + 1 \<and> pos + 1 \<le> m"
proof -
  let ?h = "ClearLastBoundary (HashBytes (RollingHasher p w m) hist)"
  have rep: "rh_rep ?h []"
    by (rule rh_rep_Clear[OF rh_wf_HashBytes[OF rh_rep_wf[OF rh_rep_init[OF assms(1,2)]]]])
  have full: "is_boundary p w m ([] @ take (Suc (m - 1)) data)"
    using assms by (simp add: is_boundary_def)
  moreover have "m - 1 < length data" using assms by linarith
  ultimately have "first_cut (is_boundary p w m) [] data \<noteq> None"
    unfolding cut_eq_None by blast
  then obtain i where i: "first_cut (is_boundary p w m) [] data = Some i" by auto
  then have b: "i < length data" "is_boundary p w m (take (Suc i) data)"
    and least: "\<forall>k < i. \<not> is_boundary p w m ([] @ take (Suc k) data)"
    unfolding cut_eq_Some by auto
  have "\<not> m - 1 < i" using least full by blast
  moreover have "w \<le> Suc i" using b by (simp add: is_boundary_def)
  moreover have "pos = i" "CrossedBoundary h'"
    using TryHashBytes_result[OF rep, of data] i assms(5) by simp_all
  ultimately show ?thesis using assms by auto
qed

theorem boundary_within_bounds_witness:
  "\<exists>pos h'. TryHashBytes (ClearLastBoundary (HashBytes (RollingHasher 255 2 3) [9])) [1, 2, 3, 4]
      = (pos, h') \<and> CrossedBoundary h' \<and> pos + 1 \<le> 3"
proof -
  obtain pos h' where e: "TryHashBytes (ClearLastBoundary
      (HashBytes (RollingHasher 255 2 3) [9])) [1, 2, 3, 4] = (pos, h')"
    by (cases "TryHashBytes (ClearLastBoundary
      (HashBytes (RollingHasher 255 2 3) [9])) [1, 2, 3, 4]")
  have "CrossedBoundary h' \<and> 2 \<le> pos + 1 \<and> pos + 1 \<le> 3"
    by (rule boundary_within_bounds[OF _ _ _ _ e]) simp_all
  with e show ?thesis by blast
qed

end
