(* ===== verification/Node_Builder.thy ===== *)
theory Node_Builder
  imports Rolling_Hash Cursor
begin

text \<open>
  Building a tree: \<open>NodeBuilder\<close> of include/node/node_builder.h and src/node/node_builder.cc.

  A builder is the list of its levels, the leaf level first; \<open>parent_builder_\<close> of a level is
  the rest of the list, null when it is empty.  \<open>hf\<close> is the hash function, \<open>rh\<close> the hasher
  that \<open>Chunker::GetRHasher\<close> hands out, \<open>ty\<close> the type of chunk that the chunker of the
  level makes (meta chunks above the leaves).  \<open>ld\<close> is the loader of the tree that is edited and
  \<open>st\<close> the chunks that the writer has been given; a chunk is looked up in \<open>st\<close> first.
  \<open>created_segs_\<close> only owns memory and is left out.
\<close>

section \<open>Levels\<close>

record level =
  nb_cursor :: "cursor option"
  nb_appended :: "segment list"
  nb_pre :: "segment option"
  nb_rhasher :: rolling_hasher
  nb_commited :: bool
  nb_num_skip :: nat

type_synonym builder = "level list"

definition new_level :: "rolling_hasher \<Rightarrow> level" where
  "new_level rh = \<lparr>nb_cursor = None, nb_appended = [], nb_pre = None, nb_rhasher = rh,
     nb_commited = True, nb_num_skip = 0\<rparr>"

definition SegAtCursor :: "ChunkType \<Rightarrow> cursor \<Rightarrow> segment option" where
  "SegAtCursor ty cur =
     (if isFixedEntryLen ty
      then do { p \<leftarrow> current cur; n \<leftarrow> numCurrentBytes cur; Some (FixedSegment p 0 n) }
      else do { p \<leftarrow> current cur; Some (VarSegment p 0 []) })"

text \<open>The loop of \<open>Resume\<close> that takes in the entries in front of the cursor one by one.\<close>

partial_function (option) resume_loop :: "cursor \<Rightarrow> int \<Rightarrow> segment \<Rightarrow> (cursor \<times> segment) option" where
  "resume_loop cur original_idx seg =
     (if cur = [] then None
      else if snd (hd cur) = original_idx then Some (cur, seg)
      else Option.bind (numCurrentBytes cur) (\<lambda>n.
           Option.bind (prolong seg n) (\<lambda>r.
           Option.bind (Advance_within cur) (\<lambda>a.
             resume_loop (snd a) original_idx (fst r)))))"

text \<open>A pointer difference is the difference of the numbers of bytes readable from the two.\<close>

definition Resume :: "ChunkType \<Rightarrow> cursor \<Rightarrow> (cursor \<times> segment) option" where
  "Resume ty cur =
     do { original_idx \<leftarrow> (case cur of [] \<Rightarrow> None | f # _ \<Rightarrow> Some (snd f));
          cur \<leftarrow> seek cur 0;
          seg \<leftarrow> SegAtCursor ty cur;
          if isFixedEntryLen ty
          then do { addr \<leftarrow> current cur;
                    cur \<leftarrow> seek cur original_idx;
                    p \<leftarrow> current cur;
                    (seg, _) \<leftarrow> prolong seg (length addr - length p);
                    Some (cur, seg) }
          else resume_loop cur original_idx seg }"

text \<open>The constructor on a cursor; the parent builder works on a copy of the parent cursor.\<close>

fun NodeBuilder_cursor :: "rolling_hasher \<Rightarrow> ChunkType \<Rightarrow> cursor \<Rightarrow> builder option" where
  "NodeBuilder_cursor rh ty [] = None"
| "NodeBuilder_cursor rh ty (f # parent) =
     do { ps \<leftarrow> (if parent = [] then Some [] else NodeBuilder_cursor rh CT_kMeta parent);
          n \<leftarrow> numEntries (fst f);
          (cur, pre) \<leftarrow> (if n > 0 then map_option (\<lambda>(c, s). (c, Some s)) (Resume ty (f # parent))
                         else Some (f # parent, None));
          Some ((new_level rh)\<lparr>nb_cursor := Some cur, nb_pre := pre\<rparr> # ps) }"

definition NodeBuilder_idx ::
    "loader \<Rightarrow> rolling_hasher \<Rightarrow> ChunkType \<Rightarrow> bytes \<Rightarrow> nat \<Rightarrow> builder option" where
  "NodeBuilder_idx ld rh ty root_hash idx =
     do { cur \<leftarrow> NodeCursor_idx ld root_hash idx; NodeBuilder_cursor rh ty cur }"

definition NodeBuilder_key ::
    "loader \<Rightarrow> rolling_hasher \<Rightarrow> ChunkType \<Rightarrow> bytes \<Rightarrow> OrderedKey \<Rightarrow> builder option" where
  "NodeBuilder_key ld rh ty root_hash key =
     do { cur \<leftarrow> NodeCursor_key ld root_hash key; NodeBuilder_cursor rh ty cur }"

definition NodeBuilder_new :: "rolling_hasher \<Rightarrow> builder" where
  "NodeBuilder_new rh = [new_level rh]"

definition parent_builder :: "rolling_hasher \<Rightarrow> builder \<Rightarrow> builder" where
  "parent_builder rh ps = (if ps = [] then [new_level rh] else ps)"

fun AppendSegmentEntries :: "segment \<Rightarrow> builder \<Rightarrow> builder" where
  "AppendSegmentEntries seg [] = []"
| "AppendSegmentEntries seg (lv # ps) =
     lv\<lparr>nb_commited := False, nb_appended := nb_appended lv @ [seg]\<rparr> # ps"

section \<open>Skipping entries\<close>

text \<open>Whether there is nothing to skip: no cursor, or one at the end.\<close>

definition nothing_left :: "level \<Rightarrow> bool option" where
  "nothing_left lv = (case nb_cursor lv of None \<Rightarrow> Some True | Some cur \<Rightarrow> isEnd cur)"

text \<open>One round of the loop of \<open>SkipEntries\<close>; the flag says whether the loop goes on.  The call
  of \<open>SkipEntries(1)\<close> on the parent is written out: its guard, one round, its counter.\<close>

fun skip_round :: "loader \<Rightarrow> builder \<Rightarrow> (bool \<times> builder) option" where
  "skip_round ld [] = None"
| "skip_round ld (lv # ps) =
     do { cur \<leftarrow> nb_cursor lv;
          (within, cur) \<leftarrow> Advance_within cur;
          if within then Some (True, lv\<lparr>nb_cursor := Some cur\<rparr> # ps)
          else do {
            (end_parent, ps) \<leftarrow>
              (case ps of [] \<Rightarrow> Some (True, [])
               | p # qs \<Rightarrow>
                   do { none \<leftarrow> nothing_left p;
                        ps \<leftarrow> (if none then Some (p\<lparr>nb_commited := False\<rparr> # qs)
                               else do { (_, ps) \<leftarrow> skip_round ld (p\<lparr>nb_commited := False\<rparr> # qs);
                                         case ps of [] \<Rightarrow> None
                                         | p # qs \<Rightarrow> Some (p\<lparr>nb_num_skip := nb_num_skip p + 1\<rparr> # qs) });
                        parent_cur \<leftarrow> (case ps of [] \<Rightarrow> None | p # _ \<Rightarrow> nb_cursor p);
                        e \<leftarrow> isEnd parent_cur;
                        Some (e, ps) });
            if end_parent
            then do { e \<leftarrow> isEnd cur; CHECK e; Some (False, lv\<lparr>nb_cursor := Some cur\<rparr> # ps) }
            else do { (notEnd, cur) \<leftarrow> Advance ld True cur;
                      CHECK notEnd;
                      Some (True, lv\<lparr>nb_cursor := Some cur\<rparr> # ps) } } }"

text \<open>The loop, with the number of rounds made and the number of rounds left.\<close>

fun skip_loop :: "loader \<Rightarrow> nat \<Rightarrow> nat \<Rightarrow> builder \<Rightarrow> (nat \<times> builder) option" where
  "skip_loop ld made 0 nb = Some (made, nb)"
| "skip_loop ld made (Suc left) nb =
     do { (more, nb) \<leftarrow> skip_round ld nb;
          if more then skip_loop ld (made + 1) left nb else Some (made + 1, nb) }"

definition SkipEntries :: "loader \<Rightarrow> nat \<Rightarrow> builder \<Rightarrow> (nat \<times> builder) option" where
  "SkipEntries ld num_elements nb = (case nb of [] \<Rightarrow> None
     | lv # ps \<Rightarrow>
         do { none \<leftarrow> nothing_left lv;
              if none then Some (0, lv\<lparr>nb_commited := False\<rparr> # ps)
              else do { (skipped, nb) \<leftarrow> skip_loop ld 0 num_elements (lv\<lparr>nb_commited := False\<rparr> # ps);
                        case nb of [] \<Rightarrow> None
                        | lv # ps \<Rightarrow>
                            Some (skipped, lv\<lparr>nb_num_skip := nb_num_skip lv + skipped\<rparr> # ps) } })"

text \<open>The parent's calls in \<open>skip_round\<close> are the calls of \<open>SkipEntries(1)\<close> that the code makes.\<close>

lemma skip_round_parent:
  "skip_round ld (lv # p # qs) =
     do { cur \<leftarrow> nb_cursor lv;
          (within, cur) \<leftarrow> Advance_within cur;
          if within then Some (True, lv\<lparr>nb_cursor := Some cur\<rparr> # p # qs)
          else do {
            (_, ps) \<leftarrow> SkipEntries ld 1 (p # qs);
            parent_cur \<leftarrow> (case ps of [] \<Rightarrow> None | p # _ \<Rightarrow> nb_cursor p);
            end_parent \<leftarrow> isEnd parent_cur;
            if end_parent
            then do { e \<leftarrow> isEnd cur; CHECK e; Some (False, lv\<lparr>nb_cursor := Some cur\<rparr> # ps) }
            else do { (notEnd, cur) \<leftarrow> Advance ld True cur;
                      CHECK notEnd;
                      Some (True, lv\<lparr>nb_cursor := Some cur\<rparr> # ps) } } }"
  by (auto simp: SkipEntries_def split: option.splits Option.bind_splits list.splits)

definition SpliceElements ::
    "loader \<Rightarrow> nat \<Rightarrow> segment list \<Rightarrow> builder \<Rightarrow> builder option" where
  "SpliceElements ld num_delete element_segs nb = (case nb of [] \<Rightarrow> None
     | lv # ps \<Rightarrow>
         do { CHECK (nb_commited lv);
              (actual_delete, nb) \<leftarrow> SkipEntries ld num_delete (lv\<lparr>nb_commited := False\<rparr> # ps);
              case nb of [] \<Rightarrow> None
              | lv # ps \<Rightarrow> Some (lv\<lparr>nb_appended := nb_appended lv @ element_segs\<rparr> # ps) })"

section \<open>Committing one level\<close>

text \<open>
  The local state of \<open>RecursiveCommit\<close>: the chunks written, the hasher of the level, the parent
  builder, \<open>chunk_segs\<close> and \<open>last_created_chunk\<close>.
\<close>

record commit_state =
  cs_store :: loader
  cs_rhasher :: rolling_hasher
  cs_parents :: builder
  cs_segs :: "segment list"
  cs_last :: "chunk option"

text \<open>\<open>HandleBoundary\<close>; its callers assign the chunk to \<open>last_created_chunk\<close> and clear
  \<open>chunk_segs\<close>.\<close>

definition HandleBoundary :: "(bytes \<Rightarrow> bytes) \<Rightarrow> rolling_hasher \<Rightarrow> ChunkType \<Rightarrow> segment list \<Rightarrow>
    commit_state \<Rightarrow> commit_state option" where
  "HandleBoundary hf rh ty segments cs =
     do { (chunk, meta_seg) \<leftarrow> Make hf ty segments;
          h \<leftarrow> chunk_hash hf chunk;
          Some \<lparr>cs_store = (cs_store cs)(h \<mapsto> chunk),
                cs_rhasher = ClearLastBoundary (cs_rhasher cs),
                cs_parents = AppendSegmentEntries meta_seg (parent_builder rh (cs_parents cs)),
                cs_segs = [], cs_last = Some chunk\<rparr> }"

definition seg_bytes :: "segment \<Rightarrow> bytes option" where
  "seg_bytes seg = rd_bytes (seg_num_bytes seg) (seg_data seg) 0"

text \<open>The loop over \<open>cur_seg\<close> and the appended segments behind it.\<close>

partial_function (option) append_phase :: "(bytes \<Rightarrow> bytes) \<Rightarrow> rolling_hasher \<Rightarrow> ChunkType \<Rightarrow>
    segment \<Rightarrow> segment list \<Rightarrow> commit_state \<Rightarrow> commit_state option" where
  "append_phase hf rh ty cur_seg segs cs =
     Option.bind (seg_bytes cur_seg) (\<lambda>data.
     Option.bind (PosToIdx cur_seg (fst (TryHashBytes (cs_rhasher cs) data))) (\<lambda>entryIdx.
       let cs = cs\<lparr>cs_rhasher := snd (TryHashBytes (cs_rhasher cs) data)\<rparr> in
       if CrossedBoundary (cs_rhasher cs) then
         Option.bind (Split cur_seg (entryIdx + 1)) (\<lambda>splitted_segs.
         Option.bind (HandleBoundary hf rh ty (cs_segs cs @ [fst splitted_segs]) cs) (\<lambda>cs.
           if \<not> empty_seg (snd splitted_segs)
           then append_phase hf rh ty (snd splitted_segs) segs cs
           else case segs of [] \<Rightarrow> Some cs | s # ss \<Rightarrow> append_phase hf rh ty s ss cs))
       else
         let cs = (if empty_seg cur_seg then cs else cs\<lparr>cs_segs := cs_segs cs @ [cur_seg]\<rparr>) in
         case segs of [] \<Rightarrow> Some cs | s # ss \<Rightarrow> append_phase hf rh ty s ss cs))"

text \<open>The loop over the entries of the old tree behind the cursor.  \<open>ld ++ cs_store cs\<close> is the
  loader that sees the chunks written.\<close>

partial_function (option) cursor_phase :: "(bytes \<Rightarrow> bytes) \<Rightarrow> rolling_hasher \<Rightarrow> ChunkType \<Rightarrow>
    loader \<Rightarrow> cursor \<Rightarrow> segment \<Rightarrow> commit_state \<Rightarrow> (cursor \<times> commit_state) option" where
  "cursor_phase hf rh ty ld cur node_seg cs =
     Option.bind (seg_bytes node_seg) (\<lambda>data.
       let boundary_pos = fst (TryHashBytes (cs_rhasher cs) data);
           cs = cs\<lparr>cs_rhasher := snd (TryHashBytes (cs_rhasher cs) data)\<rparr> in
       if boundary_pos = seg_num_bytes node_seg then
         Option.bind (CHECK (\<not> CrossedBoundary (cs_rhasher cs))) (\<lambda>_.
         Option.bind (SkipEntries (ld ++ cs_store cs) 1 (parent_builder rh (cs_parents cs))) (\<lambda>r.
           let cs = cs\<lparr>cs_parents := snd r, cs_segs := cs_segs cs @ [node_seg]\<rparr> in
           case cur of [] \<Rightarrow> None
           | (nd, idx) # _ \<Rightarrow>
               Option.bind (numEntries nd) (\<lambda>n.
               Option.bind (AdvanceEntry (ld ++ cs_store cs) cur (sub64 n (nat idx))) (\<lambda>a.
               Option.bind (isEnd (snd a)) (\<lambda>e.
                 if \<not> e then
                   (case snd a of [] \<Rightarrow> None
                    | (nd', idx') # _ \<Rightarrow>
                        Option.bind (numEntries nd') (\<lambda>n'.
                        Option.bind (GetSegment nd' (nat idx') n') (\<lambda>node_seg'.
                          cursor_phase hf rh ty ld (snd a) node_seg' cs)))
                 else Some (snd a, cs))))))
       else
         Option.bind (PosToIdx node_seg boundary_pos) (\<lambda>entryIdx.
         Option.bind (CHECK (entryIdx < numEntries_seg node_seg)) (\<lambda>_.
         Option.bind (Split node_seg (entryIdx + 1)) (\<lambda>splitted_segs.
         Option.bind (HandleBoundary hf rh ty (cs_segs cs @ [fst splitted_segs]) cs) (\<lambda>cs.
           if entryIdx = numEntries_seg node_seg - 1 then Some (cur, cs)
           else cursor_phase hf rh ty ld cur (snd splitted_segs) cs)))))"

text \<open>The entries behind the last boundary become a chunk when the sequence has ended; when nothing
  has been made at all, an empty chunk is.\<close>

definition make_last :: "(bytes \<Rightarrow> bytes) \<Rightarrow> rolling_hasher \<Rightarrow> ChunkType \<Rightarrow> loader \<Rightarrow> cursor option \<Rightarrow>
    commit_state \<Rightarrow> commit_state option" where
  "make_last hf rh ty ld cursor cs =
     do { cs \<leftarrow> (if cs_segs cs \<noteq> []
                  then do { at_end \<leftarrow> (case cursor of None \<Rightarrow> Some True
                                       | Some cur \<Rightarrow>
                                           do { e \<leftarrow> isEnd cur;
                                                (moved, _) \<leftarrow> Advance (ld ++ cs_store cs) True cur;
                                                Some (e \<and> \<not> moved) });
                            CHECK at_end;
                            HandleBoundary hf rh ty (cs_segs cs) cs }
                  else Some cs);
          if cs_last cs = None then HandleBoundary hf rh ty [] cs else Some cs }"

text \<open>\<open>RecursiveCommit\<close> up to the call on the parent.\<close>

definition commit_level :: "(bytes \<Rightarrow> bytes) \<Rightarrow> rolling_hasher \<Rightarrow> ChunkType \<Rightarrow> loader \<Rightarrow> loader \<Rightarrow>
    level \<Rightarrow> builder \<Rightarrow> commit_state option" where
  "commit_level hf rh ty ld st lv ps =
     do { CHECK (\<not> nb_commited lv);
          (_, ps) \<leftarrow> SkipEntries (ld ++ st) 1 (parent_builder rh ps);
          let cs = \<lparr>cs_store = st, cs_rhasher = nb_rhasher lv, cs_parents = ps, cs_segs = [],
                    cs_last = None\<rparr>;
          cs \<leftarrow> (case (nb_pre lv, nb_appended lv) of
                    (Some seg, segs) \<Rightarrow> append_phase hf rh ty seg segs cs
                  | (None, seg # segs) \<Rightarrow> append_phase hf rh ty seg segs cs
                  | (None, []) \<Rightarrow> Some cs);
          none \<leftarrow> nothing_left lv;
          (cursor, cs) \<leftarrow>
            (case nb_cursor lv of
               None \<Rightarrow> Some (None, cs)
             | Some cur \<Rightarrow>
                 if none then Some (Some cur, cs)
                 else (case cur of [] \<Rightarrow> None
                       | (nd, idx) # _ \<Rightarrow>
                           do { CHECK (0 \<le> idx);
                                n \<leftarrow> numEntries nd;
                                node_seg \<leftarrow> GetSegment nd (nat idx) (sub64 n (nat idx));
                                (cur, cs) \<leftarrow> cursor_phase hf rh ty ld cur node_seg cs;
                                Some (Some cur, cs) }));
          make_last hf rh ty ld cursor cs }"

section \<open>Committing\<close>

partial_function (option) RecursiveCommit :: "(bytes \<Rightarrow> bytes) \<Rightarrow> rolling_hasher \<Rightarrow> ChunkType \<Rightarrow>
    loader \<Rightarrow> loader \<Rightarrow> builder \<Rightarrow> (bytes \<times> loader) option" where
  "RecursiveCommit hf rh ty ld st nb =
     (case nb of [] \<Rightarrow> None
      | lv # ps \<Rightarrow>
          Option.bind (commit_level hf rh ty ld st lv ps) (\<lambda>cs.
          Option.bind (cs_last cs) (\<lambda>chunk.
          Option.bind (chunk_hash hf chunk) (\<lambda>root_hash.
            case cs_parents cs of [] \<Rightarrow> None
            | p # qs \<Rightarrow>
                if nb_cursor p \<noteq> None \<or> length (nb_appended p) > 1
                then RecursiveCommit hf rh CT_kMeta ld (cs_store cs) (p # qs)
                else Some (root_hash, cs_store cs)))))"

text \<open>The loop of \<open>Commit\<close> that prunes inner nodes with a single entry from the top.\<close>

partial_function (option) prune_root :: "loader \<Rightarrow> bytes \<Rightarrow> bytes option" where
  "prune_root ld root =
     Option.bind (ld root) (\<lambda>chunk.
     Option.bind (CreateFromChunk chunk) (\<lambda>nd.
       case nd of
         MetaNode c offs \<Rightarrow>
           Option.bind (MetaNode_numEntries c) (\<lambda>n.
             if n = 1 then Option.bind (MetaNode_GetChildHashByEntry c offs 0) (\<lambda>h. prune_root ld h)
             else Some root)
       | _ \<Rightarrow> Some root))"

definition Commit :: "(bytes \<Rightarrow> bytes) \<Rightarrow> rolling_hasher \<Rightarrow> ChunkType \<Rightarrow> loader \<Rightarrow> loader \<Rightarrow>
    builder \<Rightarrow> (bytes \<times> loader) option" where
  "Commit hf rh ty ld st nb =
     do { (root, st) \<leftarrow> RecursiveCommit hf rh ty ld st nb;
          lv \<leftarrow> (case nb of [] \<Rightarrow> None | lv # _ \<Rightarrow> Some lv);
          if nb_cursor lv = None then Some (root, st)
          else do { root \<leftarrow> prune_root (ld ++ st) root; Some (root, st) } }"

end
