(* ===== verification/Chunking.thy ===== *)
theory Chunking
  imports Node_Builder
begin

text \<open>
  What committing a level does, on lists of entries.  \<open>chop P enc cur xs\<close> is the reference: it
  cuts the entries \<open>xs\<close> into groups, behind \<open>cur\<close>, where a group ends with the first entry whose
  encoding completes a boundary \<open>P\<close>; the entries behind the last boundary remain.  The locale
  \<open>chunk_level\<close> is what a chunker promises about the groups it is given; inside it the loops of
  \<open>RecursiveCommit\<close> are shown to cut their input as \<open>chop\<close> does.
\<close>

section \<open>Cutting a sequence of entries\<close>

fun chop :: "(bytes \<Rightarrow> bool) \<Rightarrow> ('a \<Rightarrow> bytes) \<Rightarrow> 'a list \<Rightarrow> 'a list \<Rightarrow> 'a list list \<times> 'a list" where
  "chop P enc cur [] = ([], cur)"
| "chop P enc cur (x # xs) =
     (if first_cut P (concat (map enc cur)) (enc x) \<noteq> None
      then (let (gs, r) = chop P enc [] xs in ((cur @ [x]) # gs, r))
      else chop P enc (cur @ [x]) xs)"

definition groups :: "(bytes \<Rightarrow> bool) \<Rightarrow> ('a \<Rightarrow> bytes) \<Rightarrow> 'a list \<Rightarrow> 'a list list" where
  "groups P enc xs = (let (gs, r) = chop P enc [] xs in gs @ (if r = [] then [] else [r]))"

lemma chop_none:
  "first_cut P (concat (map enc cur)) (concat (map enc xs)) = None \<Longrightarrow>
   chop P enc cur (xs @ ys) = chop P enc (cur @ xs) ys"
proof (induction xs arbitrary: cur)
  case (Cons x xs)
  then show ?case by (auto simp: cut_append split: option.splits)
qed simp

lemma chop_some:
  assumes "first_cut P (concat (map enc cur)) (concat (map enc xs)) = Some pos"
    and "\<forall>x \<in> set xs. enc x \<noteq> []"
  shows "chop P enc cur (xs @ ys) =
    (let i = entry_at (map enc xs) pos; (gs, r) = chop P enc [] (drop (Suc i) xs @ ys)
     in ((cur @ take (Suc i) xs) # gs, r))"
  using assms
proof (induction xs arbitrary: cur pos)
  case (Cons x xs)
  show ?case
  proof (cases "first_cut P (concat (map enc cur)) (enc x)")
    case None
    with Cons.prems(1) obtain pos' where pos: "pos = pos' + length (enc x)"
      "first_cut P (concat (map enc (cur @ [x]))) (concat (map enc xs)) = Some pos'"
      by (auto simp: cut_append)
    from Cons.IH[OF pos(2)] Cons.prems(2) None pos(1) show ?thesis
      by (simp add: Let_def split: prod.splits)
  next
    case (Some p)
    then have "p < length (enc x)" by (auto simp: cut_eq_Some)
    moreover have "pos = p" using Some Cons.prems(1) by (simp add: cut_append)
    ultimately show ?thesis using Some by (simp add: Let_def split: prod.splits)
  qed
qed simp

lemma chop_concat: "chop P enc cur xs = (gs, r) \<Longrightarrow> concat gs @ r = cur @ xs"
  by (induction P enc cur xs arbitrary: gs rule: chop.induct)
    (auto split: if_splits prod.splits)

lemma groups_concat: "concat (groups P enc xs) = xs"
  using chop_concat[of P enc "[]" xs] by (auto simp: groups_def split: prod.splits)

lemma chop_nonempty: "chop P enc cur xs = (gs, r) \<Longrightarrow> g \<in> set gs \<Longrightarrow> g \<noteq> []"
proof (induction P enc cur xs arbitrary: gs rule: chop.induct)
  case (2 P enc cur x xs)
  show ?case
  proof (cases "first_cut P (concat (map enc cur)) (enc x) = None")
    case True
    with 2 show ?thesis by simp
  next
    case False
    obtain gs' r' where "chop P enc [] xs = (gs', r')" by fastforce
    with False 2 show ?thesis by auto
  qed
qed simp

lemma groups_nonempty: "g \<in> set (groups P enc xs) \<Longrightarrow> g \<noteq> []"
  by (cases "chop P enc [] xs") (auto simp: groups_def dest: chop_nonempty split: if_splits)

lemma groups_split:
  assumes "g \<in> set (groups P enc xs)"
  obtains a b where "xs = a @ g @ b"
proof -
  from assms obtain us vs where "groups P enc xs = us @ g # vs" by (auto simp: in_set_conv_decomp)
  with groups_concat[of P enc xs] have "xs = concat us @ g @ concat vs" by simp
  then show thesis by (rule that)
qed

text \<open>The sizes of groups, when a boundary needs at least \<open>win\<close> bytes and \<open>mx\<close> bytes are one.\<close>

lemma first_cut_None_length:
  assumes "first_cut P cur data = None" and "\<And>xs. length xs = mx \<Longrightarrow> P xs" and "length cur < mx"
  shows "length (cur @ data) < mx"
proof (rule ccontr)
  let ?k = "mx - length cur - 1"
  assume "\<not> ?thesis"
  with assms(3) have "?k < length data" "length (cur @ take (Suc ?k) data) = mx" by auto
  with assms(1,2) show False unfolding cut_eq_None by blast
qed

lemma chop_bound:
  assumes "chop P enc cur xs = (gs, r)" and "\<And>xs. length xs = mx \<Longrightarrow> P xs" and "0 < mx"
    and "length (concat (map enc cur)) < mx"
  shows "length (concat (map enc r)) < mx \<and> (\<forall>g \<in> set gs. length (concat (map enc (butlast g))) < mx)"
  using assms(1,4)
proof (induction xs arbitrary: cur gs)
  case (Cons x xs)
  show ?case
  proof (cases "first_cut P (concat (map enc cur)) (enc x)")
    case None
    then have "length (concat (map enc (cur @ [x]))) < mx"
      using first_cut_None_length[OF None assms(2) Cons.prems(2)] by simp
    with None Cons.prems(1) Cons.IH[of "cur @ [x]"] show ?thesis by simp
  next
    case (Some k)
    obtain gs' where "chop P enc [] xs = (gs', r)" "gs = (cur @ [x]) # gs'"
      using Cons.prems(1) Some by (auto split: prod.splits)
    with Cons.IH[of "[]" gs'] Cons.prems(2) assms(3) show ?thesis by simp
  qed
qed simp

lemma chop_min:
  assumes "chop P enc cur xs = (gs, r)" and "\<And>xs. P xs \<Longrightarrow> win \<le> length xs" and "g \<in> set gs"
  shows "win \<le> length (concat (map enc g))"
  using assms(1,3)
proof (induction xs arbitrary: cur gs)
  case (Cons x xs)
  show ?case
  proof (cases "first_cut P (concat (map enc cur)) (enc x)")
    case None
    with Cons show ?thesis by simp
  next
    case (Some k)
    then have "P (concat (map enc cur) @ take (Suc k) (enc x))" by (simp add: cut_eq_Some)
    from assms(2)[OF this] have "win \<le> length (concat (map enc (cur @ [x])))" by simp
    moreover obtain gs' where "chop P enc [] xs = (gs', r)" "gs = (cur @ [x]) # gs'"
      using Cons.prems(1) Some by (auto split: prod.splits)
    ultimately show ?thesis using Cons.IH[of "[]" gs'] Cons.prems(2) by auto
  qed
qed simp

lemma groups_bound:
  assumes "g \<in> set (groups P enc xs)" and "\<And>xs. length xs = mx \<Longrightarrow> P xs" and "0 < mx"
    and "\<And>x. x \<in> set xs \<Longrightarrow> length (enc x) \<le> n"
  shows "length (concat (map enc g)) < mx + n"
proof -
  obtain gs r where c: "chop P enc [] xs = (gs, r)" by fastforce
  note b = chop_bound[OF c assms(2,3)]
  from assms(1) c consider "g = r" | "g \<in> set gs" by (auto simp: groups_def split: if_splits)
  then show ?thesis
  proof cases
    case 1
    with b assms(3) show ?thesis by simp
  next
    case 2
    then have g: "g = butlast g @ [last g]" using groups_nonempty[OF assms(1)] by simp
    from groups_split[OF assms(1)] g have "last g \<in> set xs"
      by (metis Un_iff last_in_set groups_nonempty[OF assms(1)] set_append)
    moreover have "length (concat (map enc g)) = length (concat (map enc (butlast g))) + length (enc (last g))"
      by (subst g) simp
    ultimately show ?thesis using b 2 assms(3) assms(4)[of "last g"] by fastforce
  qed
qed

section \<open>The effect of finished groups\<close>

definition put_chunks :: "(bytes \<Rightarrow> bytes) \<Rightarrow> chunk list \<Rightarrow> loader \<Rightarrow> loader" where
  "put_chunks hf chunks st = foldl (\<lambda>st c. st(hf c \<mapsto> c)) st chunks"

lemma put_chunks_simps [simp]:
  "put_chunks hf [] st = st"
  "put_chunks hf (c # cs) st = put_chunks hf cs (st(hf c \<mapsto> c))"
  "put_chunks hf (cs @ ds) st = put_chunks hf ds (put_chunks hf cs st)"
  by (simp_all add: put_chunks_def)

text \<open>The parent builder after the meta entries \<open>ms\<close> have been appended to it.\<close>

definition add_metas :: "meta_entry list \<Rightarrow> builder \<Rightarrow> builder" where
  "add_metas ms ps = foldl (\<lambda>ps m. AppendSegmentEntries (meta_seg (me_bytes m)) ps) ps ms"

lemma add_metas_simps [simp]:
  "add_metas [] ps = ps"
  "add_metas (m # ms) ps = add_metas ms (AppendSegmentEntries (meta_seg (me_bytes m)) ps)"
  "add_metas (ms @ ms') ps = add_metas ms' (add_metas ms ps)"
  by (simp_all add: add_metas_def)

lemma add_metas_Cons_builder:
  "ms \<noteq> [] \<Longrightarrow> add_metas ms (p # qs) =
     p\<lparr>nb_commited := False, nb_appended := nb_appended p @ map (meta_seg \<circ> me_bytes) ms\<rparr> # qs"
proof (induction ms arbitrary: p)
  case (Cons m ms)
  then show ?case by (cases "ms = []") auto
qed simp

lemma add_metas_eq_Nil [simp]: "add_metas ms ps = [] \<longleftrightarrow> ps = []"
proof (induction ms arbitrary: ps)
  case (Cons m ms)
  then show ?case by (cases ps) auto
qed simp

text \<open>The state of the loops with the entries \<open>cur\<close> behind the last boundary.\<close>

definition pending :: "(bytes \<Rightarrow> bool) \<Rightarrow> ('a \<Rightarrow> bytes) \<Rightarrow> commit_state \<Rightarrow> 'a list \<Rightarrow> bool" where
  "pending P enc cs cur \<longleftrightarrow>
     rh_rep (cs_rhasher cs) (concat (map enc cur)) \<and> rh_test (cs_rhasher cs) = P \<and>
     (\<exists>css. segs_rep (cs_segs cs) (map (map enc) css) \<and> (\<forall>c \<in> set css. c \<noteq> []) \<and> concat css = cur) \<and>
     cs_parents cs \<noteq> []"

lemma pendingI:
  "rh_rep (cs_rhasher cs) (concat (map enc cur)) \<Longrightarrow> rh_test (cs_rhasher cs) = P \<Longrightarrow>
   segs_rep (cs_segs cs) (map (map enc) css) \<Longrightarrow> \<forall>c \<in> set css. c \<noteq> [] \<Longrightarrow> concat css = cur \<Longrightarrow>
   cs_parents cs \<noteq> [] \<Longrightarrow> pending P enc cs cur"
  unfolding pending_def by blast

text \<open>From \<open>cs\<close> to \<open>cs'\<close> the groups \<open>gs\<close> have been written and handed to the parent.\<close>

definition emitted :: "(bytes \<Rightarrow> bytes) \<Rightarrow> ('a list \<Rightarrow> chunk) \<Rightarrow> ('a list \<Rightarrow> meta_entry) \<Rightarrow>
    'a list list \<Rightarrow> commit_state \<Rightarrow> commit_state \<Rightarrow> bool" where
  "emitted hf chunk_fn me_fn gs cs cs' \<longleftrightarrow>
     cs_store cs' = put_chunks hf (map chunk_fn gs) (cs_store cs) \<and>
     cs_parents cs' = add_metas (map me_fn gs) (cs_parents cs) \<and>
     cs_last cs' = (if gs = [] then cs_last cs else Some (chunk_fn (last gs)))"

lemma emitted_Nil [simp]:
  "emitted hf ck me [] cs cs' \<longleftrightarrow> cs_store cs' = cs_store cs \<and> cs_parents cs' = cs_parents cs \<and>
     cs_last cs' = cs_last cs"
  by (simp add: emitted_def)

lemma emitted_trans:
  "emitted hf ck me gs cs cs' \<Longrightarrow> emitted hf ck me gs' cs' cs'' \<Longrightarrow> emitted hf ck me (gs @ gs') cs cs''"
  by (auto simp: emitted_def)

lemma segs_rep_snoc:
  "segs_rep segs ess \<Longrightarrow> seg_rep s es \<Longrightarrow> segs_rep (segs @ [s]) (ess @ [es])"
  by (simp add: segs_rep_def list_all2_appendI)

section \<open>The loop over appended segments\<close>

locale chunk_level =
  fixes hf :: "bytes \<Rightarrow> bytes" and ty :: ChunkType and enc :: "'a \<Rightarrow> bytes"
    and chunk_fn :: "'a list \<Rightarrow> chunk" and me_fn :: "'a list \<Rightarrow> meta_entry" and ok :: "'a list \<Rightarrow> bool"
  assumes make_eq: "segs_rep segs (map (map enc) xss) \<Longrightarrow> \<forall>xs \<in> set xss. xs \<noteq> [] \<Longrightarrow>
      ok (concat xss) \<Longrightarrow>
      Make hf ty segs = Some (chunk_fn (concat xss), meta_seg (me_bytes (me_fn (concat xss))))"
    and hash_eq: "ok xs \<Longrightarrow> chunk_hash hf (chunk_fn xs) = Some (hf (chunk_fn xs))"
begin

lemma HandleBoundary_eq:
  assumes "segs_rep segs (map (map enc) xss)" and "\<forall>xs \<in> set xss. xs \<noteq> []" and "ok (concat xss)"
    and "cs_parents cs \<noteq> []" and "rh_wf (cs_rhasher cs)" and "rh_test (cs_rhasher cs) = P"
  shows "\<exists>cs'. HandleBoundary hf rh ty segs cs = Some cs' \<and> pending P enc cs' [] \<and>
    emitted hf chunk_fn me_fn [concat xss] cs cs'"
proof -
  let ?xs = "concat xss"
  let ?cs' = "\<lparr>cs_store = (cs_store cs)(hf (chunk_fn ?xs) \<mapsto> chunk_fn ?xs),
    cs_rhasher = ClearLastBoundary (cs_rhasher cs),
    cs_parents = AppendSegmentEntries (meta_seg (me_bytes (me_fn ?xs))) (cs_parents cs),
    cs_segs = [], cs_last = Some (chunk_fn ?xs)\<rparr>"
  have "HandleBoundary hf rh ty segs cs = Some ?cs'"
    using assms(4) by (simp add: HandleBoundary_def make_eq[OF assms(1-3)] hash_eq[OF assms(3)]
        parent_builder_def)
  moreover have "pending P enc ?cs' []"
    using rh_rep_Clear[OF assms(5)] assms(4,6) by (cases "cs_parents cs") (auto simp: pending_def)
  moreover have "emitted hf chunk_fn me_fn [?xs] cs ?cs'" by (simp add: emitted_def)
  ultimately show ?thesis by blast
qed

text \<open>Hashing the bytes of a segment behind \<open>cur\<close>: without a boundary the segment joins the
  pending entries, with one it is cut behind the entry that holds it.\<close>

lemma hash_segment:
  assumes pend: "pending P enc cs cur" and seg: "seg_rep seg (map enc xs)"
    and th: "TryHashBytes (cs_rhasher cs) (concat (map enc xs)) = (pos, h')"
  shows "first_cut P (concat (map enc cur)) (concat (map enc xs)) = None \<Longrightarrow>
      pos = seg_num_bytes seg \<and> \<not> CrossedBoundary h' \<and> PosToIdx seg pos \<noteq> None \<and>
      pending P enc (cs\<lparr>cs_rhasher := h', cs_segs := cs_segs cs @ (if empty_seg seg then [] else [seg])\<rparr>)
        (cur @ xs)"
    and "first_cut P (concat (map enc cur)) (concat (map enc xs)) = Some k \<Longrightarrow>
      pos = k \<and> pos < seg_num_bytes seg \<and> CrossedBoundary h' \<and> rh_wf h' \<and> rh_test h' = P \<and>
      PosToIdx seg pos = Some (entry_at (map enc xs) k) \<and> entry_at (map enc xs) k < length xs"
proof -
  have rep: "rh_rep (cs_rhasher cs) (concat (map enc cur))" and P: "rh_test (cs_rhasher cs) = P"
    and par: "cs_parents cs \<noteq> []"
    using pend by (auto simp: pending_def)
  note r = TryHashBytes_refines[OF rep th, unfolded P]
  obtain css where css: "segs_rep (cs_segs cs) (map (map enc) css)" "\<forall>c \<in> set css. c \<noteq> []"
      "concat css = cur" using pend by (auto simp: pending_def)
  {
    assume "first_cut P (concat (map enc cur)) (concat (map enc xs)) = None"
    with r have h: "pos = length (concat (map enc xs))" "rh_rep h' (concat (map enc cur) @ concat (map enc xs))"
      "rh_test h' = P" by auto
    let ?css = "css @ (if xs = [] then [] else [xs])"
    have css': "segs_rep (cs_segs cs @ (if empty_seg seg then [] else [seg])) (map (map enc) ?css)"
      "\<forall>c \<in> set ?css. c \<noteq> []" "concat ?css = cur @ xs"
      using segs_rep_snoc[OF css(1) seg] css seg by simp_all
    have "pending P enc (cs\<lparr>cs_rhasher := h', cs_segs := cs_segs cs @ (if empty_seg seg then [] else [seg])\<rparr>)
        (cur @ xs)" (is "pending P enc ?cs' _")
    proof (rule pendingI[OF _ _ _ css'(2,3)])
      show "segs_rep (cs_segs ?cs') (map (map enc) ?css)" using css'(1) by simp
    qed (use h par in simp_all)
    moreover have "pos = seg_num_bytes seg" using h seg_rep_num_bytes[OF seg] by simp
    ultimately show "pos = seg_num_bytes seg \<and> \<not> CrossedBoundary h' \<and> PosToIdx seg pos \<noteq> None \<and>
      pending P enc (cs\<lparr>cs_rhasher := h', cs_segs := cs_segs cs @ (if empty_seg seg then [] else [seg])\<rparr>)
        (cur @ xs)"
      using h(2) PosToIdx_end[OF seg] by (simp add: CrossedBoundary_def rh_rep_def)
  }
  assume "first_cut P (concat (map enc cur)) (concat (map enc xs)) = Some k"
  with r have "pos = k" "k < length (concat (map enc xs))" "rh_crossed h'" "rh_wf h'" "rh_test h' = P"
    by auto
  with PosToIdx_rep[OF seg] entry_at_less[of k "map enc xs"] seg_rep_num_bytes[OF seg]
  show "pos = k \<and> pos < seg_num_bytes seg \<and> CrossedBoundary h' \<and> rh_wf h' \<and> rh_test h' = P \<and>
      PosToIdx seg pos = Some (entry_at (map enc xs) k) \<and> entry_at (map enc xs) k < length xs"
    by (simp add: CrossedBoundary_def)
qed

text \<open>Closing a group at a boundary inside a segment.\<close>

lemma close_group:
  assumes pend: "pending P enc cs cur" and seg: "seg_rep seg (map enc xs)" and i: "i < length xs"
    and h: "rh_wf h'" "rh_test h' = P" and ok: "ok (cur @ take (Suc i) xs)"
  shows "\<exists>s1 s2 cs'. Split seg (i + 1) = Some (s1, s2) \<and> seg_rep s2 (map enc (drop (Suc i) xs)) \<and>
    HandleBoundary hf rh ty (cs_segs cs @ [s1]) (cs\<lparr>cs_rhasher := h'\<rparr>) = Some cs' \<and>
    pending P enc cs' [] \<and> emitted hf chunk_fn me_fn [cur @ take (Suc i) xs] cs cs'"
proof -
  obtain css where css: "segs_rep (cs_segs cs) (map (map enc) css)" "\<forall>c \<in> set css. c \<noteq> []"
      "concat css = cur" using pend by (auto simp: pending_def)
  obtain s1 s2 where s: "Split seg (i + 1) = Some (s1, s2)" "seg_rep s1 (map enc (take (Suc i) xs))"
      "seg_rep s2 (map enc (drop (Suc i) xs))"
    using Split_rep[OF seg, of "i + 1"] i by (cases xs) (auto simp: take_map drop_map)
  have "\<exists>cs'. HandleBoundary hf rh ty (cs_segs cs @ [s1]) (cs\<lparr>cs_rhasher := h'\<rparr>) = Some cs' \<and>
      pending P enc cs' [] \<and>
      emitted hf chunk_fn me_fn [concat (css @ [take (Suc i) xs])] (cs\<lparr>cs_rhasher := h'\<rparr>) cs'"
  proof (rule HandleBoundary_eq)
    show "segs_rep (cs_segs cs @ [s1]) (map (map enc) (css @ [take (Suc i) xs]))"
      using segs_rep_snoc[OF css(1) s(2)] by simp
    show "\<forall>xs \<in> set (css @ [take (Suc i) xs]). xs \<noteq> []" using css(2) i by auto
  qed (use css(3) h ok pend in \<open>simp_all add: pending_def\<close>)
  with s css(3) show ?thesis by (auto simp: emitted_def)
qed

lemma append_phase_eq:
  assumes "pending P enc cs cur" and "seg_rep seg (map enc xs)" and "segs_rep segs (map (map enc) xss)"
    and "\<forall>x \<in> set (xs @ concat xss). enc x \<noteq> []"
    and "chop P enc cur (xs @ concat xss) = (gs, r)" and "\<forall>g \<in> set gs. ok g"
  shows "\<exists>cs'. append_phase hf rh ty seg segs cs = Some cs' \<and> pending P enc cs' r \<and>
    emitted hf chunk_fn me_fn gs cs cs'"
  using assms
proof (induction "length (xs @ concat xss) + length xss" arbitrary: xs xss seg segs cs cur gs
    rule: less_induct)
  case less
  let ?data = "concat (map enc xs)"
  obtain pos h' where th: "TryHashBytes (cs_rhasher cs) ?data = (pos, h')" by fastforce
  have bytes: "seg_bytes seg = Some ?data"
    unfolding seg_bytes_def by (rule seg_rep_rd[OF less.prems(2)])
  note hash = hash_segment[OF less.prems(1,2) th]
  have go_on: "\<exists>cs'. (case segs of [] \<Rightarrow> Some cs1 | s # ss \<Rightarrow> append_phase hf rh ty s ss cs1) = Some cs' \<and>
      pending P enc cs' r \<and> emitted hf chunk_fn me_fn gs' cs1 cs'"
    if p: "pending P enc cs1 cur1" and c: "chop P enc cur1 (concat xss) = (gs', r)"
      and ok: "\<forall>g \<in> set gs'. ok g" for cs1 cur1 gs'
  proof (cases xss)
    case Nil
    with p c less.prems(3) show ?thesis by (auto simp: segs_rep_def)
  next
    case (Cons ys yss)
    with less.prems(3) obtain s ss where s: "segs = s # ss" "seg_rep s (map enc ys)"
        "segs_rep ss (map (map enc) yss)"
      by (auto simp: segs_rep_def list_all2_Cons2)
    from less.hyps[OF _ p s(2,3) _ _ ok] Cons c less.prems(4) s(1) show ?thesis by simp
  qed
  show ?case
  proof (cases "first_cut P (concat (map enc cur)) ?data")
    case None
    let ?cs1 = "cs\<lparr>cs_rhasher := h', cs_segs := cs_segs cs @ (if empty_seg seg then [] else [seg])\<rparr>"
    from hash(1)[OF None] have p: "pending P enc ?cs1 (cur @ xs)" and nc: "\<not> CrossedBoundary h'"
      and pi: "PosToIdx seg pos \<noteq> None" by auto
    have "chop P enc (cur @ xs) (concat xss) = (gs, r)" using chop_none[OF None] less.prems(5) by simp
    from go_on[OF p this less.prems(6)] obtain cs' where
      "(case segs of [] \<Rightarrow> Some ?cs1 | s # ss \<Rightarrow> append_phase hf rh ty s ss ?cs1) = Some cs'"
      "pending P enc cs' r" "emitted hf chunk_fn me_fn gs ?cs1 cs'" by blast
    moreover have "append_phase hf rh ty seg segs cs =
        (case segs of [] \<Rightarrow> Some ?cs1 | s # ss \<Rightarrow> append_phase hf rh ty s ss ?cs1)"
      using pi nc by (subst append_phase.simps) (auto simp: bytes th Let_def split: list.split)
    ultimately show ?thesis by (auto simp: emitted_def)
  next
    case (Some k)
    let ?i = "entry_at (map enc xs) k"
    from hash(2)[OF Some] have cb: "CrossedBoundary h'" "rh_wf h'" "rh_test h' = P"
      and pi: "PosToIdx seg pos = Some ?i" and i: "?i < length xs" by auto
    obtain gs' where c: "chop P enc [] (drop (Suc ?i) xs @ concat xss) = (gs', r)"
      and gs: "gs = (cur @ take (Suc ?i) xs) # gs'"
      using chop_some[OF Some, of "concat xss"] less.prems(4,5) by (auto simp: Let_def split: prod.splits)
    obtain s1 s2 cs1 where s: "Split seg (?i + 1) = Some (s1, s2)" "seg_rep s2 (map enc (drop (Suc ?i) xs))"
      "HandleBoundary hf rh ty (cs_segs cs @ [s1]) (cs\<lparr>cs_rhasher := h'\<rparr>) = Some cs1"
      "pending P enc cs1 []" "emitted hf chunk_fn me_fn [cur @ take (Suc ?i) xs] cs cs1"
      using close_group[OF less.prems(1,2) i cb(2,3), of rh] less.prems(6) gs by auto
    have step: "append_phase hf rh ty seg segs cs = (if \<not> empty_seg s2 then append_phase hf rh ty s2 segs cs1
        else case segs of [] \<Rightarrow> Some cs1 | s # ss \<Rightarrow> append_phase hf rh ty s ss cs1)"
      using pi cb(1) s(1,3) by (subst append_phase.simps) (simp add: bytes th Let_def)
    have "\<exists>cs'. append_phase hf rh ty seg segs cs = Some cs' \<and> pending P enc cs' r \<and>
        emitted hf chunk_fn me_fn gs' cs1 cs'"
    proof (cases "drop (Suc ?i) xs = []")
      case True
      with s(2) have e: "empty_seg s2" by simp
      have "chop P enc [] (concat xss) = (gs', r)" using c True by simp
      from go_on[OF s(4) this] less.prems(6) gs show ?thesis unfolding step using e by simp
    next
      case False
      with s(2) have ne: "\<not> empty_seg s2" by simp
      have "\<exists>cs'. append_phase hf rh ty s2 segs cs1 = Some cs' \<and> pending P enc cs' r \<and>
          emitted hf chunk_fn me_fn gs' cs1 cs'"
        by (rule less.hyps[OF _ s(4,2) less.prems(3) _ c])
          (use i less.prems(4,6) gs in \<open>auto dest: in_set_dropD\<close>)
      then show ?thesis unfolding step using ne by simp
    qed
    then obtain cs' where "append_phase hf rh ty seg segs cs = Some cs'" "pending P enc cs' r"
      "emitted hf chunk_fn me_fn gs' cs1 cs'" by blast
    with emitted_trans[OF s(5) this(3)] show ?thesis unfolding gs by simp
  qed
qed

text \<open>The groups that a commit of the entries \<open>xs\<close> makes.\<close>

lemma make_last_eq:
  assumes pend: "pending P enc cs r" and ok: "r \<noteq> [] \<or> cs_last cs = None \<Longrightarrow> ok r"
    and at_end: "r = [] \<or> cursor = None \<or> (\<exists>cu cu'. cursor = Some cu \<and> isEnd cu = Some True \<and>
      Advance (ld ++ cs_store cs) True cu = Some (False, cu'))"
  shows "\<exists>cs'. make_last hf rh ty ld cursor cs = Some cs' \<and>
    emitted hf chunk_fn me_fn (if r \<noteq> [] \<or> cs_last cs = None then [r] else []) cs cs'"
proof -
  obtain css where css: "segs_rep (cs_segs cs) (map (map enc) css)" "\<forall>c \<in> set css. c \<noteq> []"
      "concat css = r" using pend by (auto simp: pending_def)
  have rh: "rh_wf (cs_rhasher cs)" "rh_test (cs_rhasher cs) = P" "cs_parents cs \<noteq> []"
    using pend by (auto simp: pending_def rh_rep_wf)
  show ?thesis
  proof (cases "r = []")
    case True
    with css have "css = []" by (cases css) auto
    with css have segs: "cs_segs cs = []" by (simp add: segs_rep_def)
    show ?thesis
    proof (cases "cs_last cs")
      case None
      with True ok HandleBoundary_eq[of "[]" "[]" cs P rh] rh segs show ?thesis
        by (auto simp: make_last_def)
    next
      case (Some c)
      with True segs show ?thesis by (simp add: make_last_def)
    qed
  next
    case False
    with css have segs: "cs_segs cs \<noteq> []" by (auto simp: segs_rep_def)
    obtain cs' where "HandleBoundary hf rh ty (cs_segs cs) cs = Some cs'"
        "emitted hf chunk_fn me_fn [r] cs cs'"
      using HandleBoundary_eq[OF css(1,2) _ rh(3,1,2), of rh] css(3) ok False by auto
    with segs at_end False show ?thesis by (auto simp: make_last_def emitted_def simp del: Advance.simps)
  qed
qed

end

text \<open>The groups that committing a fresh level with entries \<open>xs\<close> makes.\<close>

definition all_groups :: "(bytes \<Rightarrow> bool) \<Rightarrow> ('a \<Rightarrow> bytes) \<Rightarrow> 'a list \<Rightarrow> 'a list list" where
  "all_groups P enc xs = (if xs = [] then [[]] else groups P enc xs)"

lemma all_groups_chop:
  "chop P enc [] xs = (gs, r) \<Longrightarrow>
     all_groups P enc xs = gs @ (if r \<noteq> [] \<or> gs = [] then [r] else [])"
  using chop_concat[of P enc "[]" xs gs r] by (auto simp: all_groups_def groups_def)

context chunk_level
begin

lemma commit_level_new:
  assumes lv: "nb_cursor lv = None" "nb_pre lv = None" "\<not> nb_commited lv"
    and app: "segs_rep (nb_appended lv) (map (map enc) xss)" "\<forall>x \<in> set (concat xss). enc x \<noteq> []"
    and rh: "rh_rep (nb_rhasher lv) []" "rh_test (nb_rhasher lv) = P"
    and ok: "\<forall>g \<in> set (all_groups P enc (concat xss)). ok g"
  shows "\<exists>cs. commit_level hf rh ty ld st lv [] = Some cs \<and>
    cs_store cs = put_chunks hf (map chunk_fn (all_groups P enc (concat xss))) st \<and>
    cs_parents cs = [(new_level rh)\<lparr>nb_commited := False, nb_appended :=
        map (meta_seg \<circ> me_bytes \<circ> me_fn) (all_groups P enc (concat xss))\<rparr>] \<and>
    cs_last cs = Some (chunk_fn (last (all_groups P enc (concat xss))))"
proof -
  let ?p = "(new_level rh)\<lparr>nb_commited := False\<rparr>" and ?out = "all_groups P enc (concat xss)"
  let ?cs0 = "\<lparr>cs_store = st, cs_rhasher = nb_rhasher lv, cs_parents = [?p], cs_segs = [], cs_last = None\<rparr>"
  obtain gs r where c: "chop P enc [] (concat xss) = (gs, r)" by fastforce
  note out = all_groups_chop[OF c]
  have skip: "SkipEntries (ld ++ st) 1 (parent_builder rh []) = Some (0, [?p])"
    by (simp add: SkipEntries_def parent_builder_def nothing_left_def new_level_def)
  have p0: "pending P enc ?cs0 []"
    using rh by (intro pendingI[where css = "[]"]) simp_all
  have "\<exists>cs1. (case nb_appended lv of [] \<Rightarrow> Some ?cs0 | seg # segs \<Rightarrow> append_phase hf rh ty seg segs ?cs0) =
      Some cs1 \<and> pending P enc cs1 r \<and> emitted hf chunk_fn me_fn gs ?cs0 cs1"
  proof (cases xss)
    case Nil
    with app c p0 show ?thesis by (auto simp: segs_rep_def)
  next
    case (Cons ys yss)
    with app obtain s ss where s: "nb_appended lv = s # ss" "seg_rep s (map enc ys)"
        "segs_rep ss (map (map enc) yss)"
      by (auto simp: segs_rep_def list_all2_Cons2)
    with append_phase_eq[OF p0 s(2,3), of gs r rh] Cons c app(2) ok out show ?thesis by simp
  qed
  then obtain cs1 where cs1: "(case nb_appended lv of [] \<Rightarrow> Some ?cs0
      | seg # segs \<Rightarrow> append_phase hf rh ty seg segs ?cs0) = Some cs1" "pending P enc cs1 r"
      "emitted hf chunk_fn me_fn gs ?cs0 cs1" by blast
  have last: "cs_last cs1 = None \<longleftrightarrow> gs = []" using cs1(3) by (simp add: emitted_def)
  obtain cs2 where cs2: "make_last hf rh ty ld None cs1 = Some cs2"
    "emitted hf chunk_fn me_fn (if r \<noteq> [] \<or> gs = [] then [r] else []) cs1 cs2"
    using make_last_eq[OF cs1(2), of None ld rh] ok out unfolding last by auto
  have "commit_level hf rh ty ld st lv [] = Some cs2"
    using lv skip cs1(1) cs2(1)
    by (simp add: commit_level_def nothing_left_def split: list.splits)
  moreover have "emitted hf chunk_fn me_fn ?out ?cs0 cs2"
    unfolding out by (rule emitted_trans[OF cs1(3) cs2(2)])
  moreover have "?out \<noteq> []" unfolding out by simp
  ultimately show ?thesis
    by (auto simp: emitted_def add_metas_Cons_builder comp_assoc) (simp add: new_level_def)
qed

end

end
