(* ===== verification/Build_Tree.thy ===== *)
theory Build_Tree
  imports Chunking Pos_Tree
begin

text \<open>
  Building a tree from scratch.  \<open>built\<close> is the reference: the leaves are the groups of the
  entries, each level is the groups of the level below it, until a single tree is left.  The
  commit of a builder without a cursor stores this tree and returns its hash; it depends on the
  entries only, not on how they were split into segments.
\<close>

section \<open>The two kinds of levels\<close>

definition leaf_level_ok :: "(bytes \<Rightarrow> bytes) \<Rightarrow> ChunkType \<Rightarrow> bytes list \<Rightarrow> bool" where
  "leaf_level_ok hf ty es \<longleftrightarrow> digest_ok hf \<and> leaf_ok ty es"

definition meta_level_ok :: "(bytes \<Rightarrow> bytes) \<Rightarrow> ChunkType \<Rightarrow> ptree list \<Rightarrow> bool" where
  "meta_level_ok hf ty ts \<longleftrightarrow> digest_ok hf \<and> ts \<noteq> [] \<and> metas_ok (map (tree_me hf ty) ts) \<and>
     chain_ok key_le None (map (me_key \<circ> tree_me hf ty) ts)"

definition tree_enc :: "(bytes \<Rightarrow> bytes) \<Rightarrow> ChunkType \<Rightarrow> ptree \<Rightarrow> bytes" where
  "tree_enc hf ty t = me_bytes (tree_me hf ty t)"

lemma leaf_chunk_hash:
  assumes "leaf_ok ty es"
  shows "chunk_hash hf (leaf_chunk ty es) = Some (hf (leaf_chunk ty es))"
  using assms
  by (cases "ty = CT_kBlob") (auto simp: leaf_ok_def leaf_fits_def leaf_chunk_def var_chunk_def var_fits_def)

lemma meta_chunk_hash:
  "metas_ok ms \<Longrightarrow> chunk_hash hf (meta_chunk ms) = Some (hf (meta_chunk ms))"
  by (simp add: metas_ok_def meta_chunk_def var_chunk_def var_fits_def)

interpretation leaf_lv: chunk_level hf ty "\<lambda>e. e" "leaf_chunk ty" "leaf_entry hf ty" "leaf_level_ok hf ty"
  for hf ty
  by unfold_locales (auto simp: leaf_level_ok_def Make_leaf leaf_chunk_hash)

interpretation meta_lv: chunk_level hf CT_kMeta "tree_enc hf ty" "tree_chunk hf ty \<circ> PNode"
  "tree_me hf ty \<circ> PNode" "meta_level_ok hf ty" for hf ty
proof unfold_locales
  fix segs :: "segment list" and xss :: "ptree list list"
  assume "segs_rep segs (map (map (tree_enc hf ty)) xss)" "meta_level_ok hf ty (concat xss)"
  then show "Make hf CT_kMeta segs = Some ((tree_chunk hf ty \<circ> PNode) (concat xss),
      meta_seg (me_bytes ((tree_me hf ty \<circ> PNode) (concat xss))))"
    using MetaChunker_Make_eq[of segs "map (map (tree_me hf ty)) xss" hf]
    by (simp add: meta_level_ok_def tree_enc_def[abs_def] map_concat comp_def)
qed (auto simp: meta_level_ok_def meta_chunk_hash)

section \<open>Keys in order\<close>

definition key_lt :: "OrderedKey \<Rightarrow> OrderedKey \<Rightarrow> bool" where
  "key_lt a b \<longleftrightarrow> key_less a b = Some True"

definition key_leq :: "OrderedKey \<Rightarrow> OrderedKey \<Rightarrow> bool" where
  "key_leq a b \<longleftrightarrow> key_le a b = Some True"

lemma transp_key_lt: "transp key_lt"
proof (rule transpI)
  fix a b c assume "key_lt a b" "key_lt b c"
  then show "key_lt a c" by (cases a; cases b; cases c) (auto simp: key_lt_def)
qed

lemma key_leq_iff: "key_leq a b \<longleftrightarrow> key_lt a b \<or> a = b"
  by (cases a; cases b) (auto simp: key_lt_def key_leq_def key_le_def)

lemma transp_key_leq: "transp key_leq"
  using transp_key_lt by (auto simp: key_leq_iff transp_def)

lemma check_key_Some: "check_key cmp (Some k) l = Some () \<longleftrightarrow> cmp k l = Some True"
  by (cases "cmp k l") (auto simp: check_key_def)

lemma chain_ok_Some_sorted:
  assumes "transp (\<lambda>a b. cmp a b = Some True)"
  shows "chain_ok cmp (Some k) ks \<longleftrightarrow> sorted_wrt (\<lambda>a b. cmp a b = Some True) (k # ks)"
proof (induction ks arbitrary: k)
  case (Cons l ks)
  show ?case
    unfolding chain_ok.simps check_key_Some Cons.IH using assms by (auto dest: transpD)
qed simp

lemma chain_ok_sorted:
  assumes "transp (\<lambda>a b. cmp a b = Some True)"
  shows "chain_ok cmp None ks \<longleftrightarrow> sorted_wrt (\<lambda>a b. cmp a b = Some True) ks"
  using chain_ok_Some_sorted[OF assms] by (cases ks) (auto simp: check_key_def)

lemma chain_less_sorted: "chain_ok key_less None ks \<longleftrightarrow> sorted_wrt key_lt ks"
  using chain_ok_sorted[of key_less ks] transp_key_lt by (simp add: key_lt_def[abs_def])

lemma chain_le_sorted: "chain_ok key_le None ks \<longleftrightarrow> sorted_wrt key_leq ks"
  using chain_ok_sorted[of key_le ks] transp_key_leq by (simp add: key_leq_def[abs_def])

lemma entry_key_size: "entry_valid ty e \<Longrightarrow> keyed_type ty \<Longrightarrow> key_numBytes (entry_key ty e) \<le> length e"
  by (auto simp: keyed_type_def map_key_of_def set_key_of_def)

section \<open>Levels of a tree\<close>

text \<open>The sequences that can be built: valid entries with increasing keys, within the bounds of the
  fields that hold their numbers and lengths.\<close>

definition input_ok :: "ChunkType \<Rightarrow> bytes list \<Rightarrow> bool" where
  "input_ok ty es \<longleftrightarrow> leaf_type ty \<and> (\<forall>e \<in> set es. entry_valid ty e \<and> length e \<le> 2 ^ 30) \<and>
     (keyed_type ty \<longrightarrow> sorted_wrt key_lt (map (entry_key ty) es)) \<and> length es < 2 ^ 31"

text \<open>A level: trees of one height with elements, in front of each other.\<close>

definition forest :: "(bytes \<Rightarrow> bytes) \<Rightarrow> ChunkType \<Rightarrow> nat \<Rightarrow> bytes list \<Rightarrow> ptree list \<Rightarrow> bool" where
  "forest hf ty h es ts \<longleftrightarrow> concat (map elems ts) = es \<and>
     (\<forall>t \<in> set ts. tree_wf hf ty t \<and> elems t \<noteq> [] \<and> height t = h)"

lemma tree_leaves: "tree_wf hf ty t \<Longrightarrow> elems t \<noteq> [] \<Longrightarrow> me_leaves (tree_me hf ty t) \<le> length (elems t)"
proof (induction t)
  case (PLeaf es)
  then show ?case by (cases es) (simp_all add: leaf_entry_def)
next
  case (PNode ts)
  have "\<forall>t \<in> set ts. me_leaves (tree_me hf ty t) \<le> length (elems t)"
    using PNode.IH PNode.prems(1) unfolding tree_wf.simps by blast
  then have "(\<Sum>t\<leftarrow>ts. me_leaves (tree_me hf ty t)) \<le> (\<Sum>t\<leftarrow>ts. length (elems t))"
    by (intro sum_list_mono) auto
  then show ?case by (simp add: meta_me_def total_leaves_def length_concat comp_def)
qed

lemma tree_key:
  "tree_wf hf ty t \<Longrightarrow> elems t \<noteq> [] \<Longrightarrow>
   me_key (tree_me hf ty t) = (if keyed_type ty then entry_key ty (last (elems t)) else KeyValue 0)"
proof (induction t)
  case (PLeaf es)
  then show ?case by (simp add: leaf_entry_def leaf_key_def last_map)
next
  case (PNode ts)
  note wf = tree_wf_node[OF PNode.prems(1)]
  have l: "last ts \<in> set ts" using wf(1) by simp
  then have "tree_wf hf ty (last ts)" "elems (last ts) \<noteq> []"
    using PNode.prems(1) unfolding tree_wf.simps by blast+
  moreover have "last (concat (map elems ts)) = last (elems (last ts))"
    using wf(1) \<open>elems (last ts) \<noteq> []\<close> by (cases ts rule: rev_cases) auto
  ultimately show ?case
    using PNode.IH[OF l] wf(1) by (simp add: meta_me_def last_map)
qed

lemma elem_valid:
  "tree_wf hf ty t \<Longrightarrow> e \<in> set (elems t) \<Longrightarrow> entry_valid ty e"
proof (induction t)
  case (PNode ts)
  then obtain t where "t \<in> set ts" "e \<in> set (elems t)" by auto
  with PNode.IH PNode.prems(1) show ?case unfolding tree_wf.simps by blast
qed (auto simp: leaf_ok_def)

lemma tree_me_ok:
  "tree_wf hf ty t \<Longrightarrow> digest_ok hf \<Longrightarrow> me_ok (tree_me hf ty t)"
  by (cases t) (auto simp: leaf_entry_ok intro!: meta_me_ok dest: tree_wf_node)

section \<open>Groups are nodes\<close>

text \<open>The parameters of the boundary test that the code runs with are within these bounds.\<close>

definition params_ok :: "nat \<Rightarrow> nat \<Rightarrow> bool" where
  "params_ok win mx \<longleftrightarrow> 0 < win \<and> win \<le> mx \<and> mx \<le> 2 ^ 30"

lemma is_boundary_full: "params_ok win mx \<Longrightarrow> length xs = mx \<Longrightarrow> is_boundary pat win mx xs"
  by (simp add: is_boundary_def params_ok_def)

lemma is_boundary_min: "is_boundary pat win mx xs \<Longrightarrow> win \<le> length xs"
  by (simp add: is_boundary_def)

lemma entry_valid_nonempty: "entry_valid ty e \<Longrightarrow> e \<noteq> []"
  by (cases "(ty, e)" rule: entry_valid.cases)
    (auto simp: map_valid_def set_valid_def list_valid_def meta_valid_def map_item_def set_item_def
      list_item_def me_bytes_def)

lemma groups_bytes:
  assumes "g \<in> set (groups (is_boundary pat win mx) enc xs)" and "params_ok win mx"
    and "\<And>x. x \<in> set xs \<Longrightarrow> length (enc x) \<le> 2 ^ 30 + 37"
  shows "length (concat (map enc g)) \<le> 2 ^ 31 + 37"
proof -
  have "length (concat (map enc g)) < mx + (2 ^ 30 + 37)"
    by (rule groups_bound[OF assms(1) is_boundary_full[OF assms(2)] _ assms(3)])
      (use assms(2) in \<open>auto simp: params_ok_def\<close>)
  with assms(2) show ?thesis by (simp add: params_ok_def)
qed

lemma leaf_group_ok:
  assumes "input_ok ty es" and "params_ok win mx"
    and "g \<in> set (all_groups (is_boundary pat win mx) (\<lambda>e. e) es)"
  shows "leaf_ok ty g \<and> length g < 2 ^ 31"
proof (cases "es = []")
  case True
  with assms show ?thesis
    by (auto simp: all_groups_def input_ok_def leaf_ok_def leaf_fits_def var_fits_def chunk_fits_def
        kMetaLength_def var_payload_def)
next
  case False
  with assms(3) have g: "g \<in> set (groups (is_boundary pat win mx) (\<lambda>e. e) es)"
    by (simp add: all_groups_def)
  then obtain a b where es: "es = a @ g @ b" by (rule groups_split)
  have v: "\<forall>e \<in> set g. entry_valid ty e" "\<forall>e \<in> set g. e \<noteq> []"
    using assms(1) entry_valid_nonempty by (auto simp: input_ok_def es)
  have "length (concat (map (\<lambda>e. e) g)) \<le> 2 ^ 31 + 37"
    by (rule groups_bytes[OF g assms(2)]) (use assms(1) in \<open>fastforce simp: input_ok_def\<close>)
  then have "leaf_fits ty g"
    using v(2) by (auto simp: leaf_fits_def var_fits_def chunk_fits_def kMetaLength_def var_payload_def)
  moreover have "keyed_type ty \<longrightarrow> sorted_wrt key_lt (map (entry_key ty) g)"
    using assms(1) by (auto simp: input_ok_def es sorted_wrt_append)
  ultimately show ?thesis
    using assms(1) v(1) by (simp add: leaf_ok_def input_ok_def chain_less_sorted es)
qed

lemma tree_enc_length:
  assumes "input_ok ty es" and "forest hf ty h es ts" and "digest_ok hf" and "t \<in> set ts"
  shows "length (tree_enc hf ty t) \<le> 2 ^ 30 + 37" and "tree_enc hf ty t \<noteq> []"
    and "37 \<le> length (tree_enc hf ty t)"
proof -
  have t: "tree_wf hf ty t" "elems t \<noteq> []" "set (elems t) \<subseteq> set es"
    using assms(2,4) by (auto simp: forest_def)
  have "last (elems t) \<in> set es" using t(2,3) last_in_set by blast
  with assms(1) have "entry_valid ty (last (elems t))" "length (last (elems t)) \<le> 2 ^ 30"
    by (auto simp: input_ok_def)
  with entry_key_size[of ty "last (elems t)"] tree_key[OF t(1,2)]
  have "key_numBytes (me_key (tree_me hf ty t)) \<le> 2 ^ 30" by auto
  moreover have len: "length (tree_enc hf ty t) = 37 + key_numBytes (me_key (tree_me hf ty t))"
    unfolding tree_enc_def by (rule length_me_bytes[OF tree_me_ok[OF t(1) assms(3)]])
  ultimately show "length (tree_enc hf ty t) \<le> 2 ^ 30 + 37" "tree_enc hf ty t \<noteq> []"
    "37 \<le> length (tree_enc hf ty t)" by auto
qed

lemma forest_append:
  "forest hf ty h es (ts @ us) \<Longrightarrow> forest hf ty h (concat (map elems ts)) ts \<and>
     forest hf ty h (concat (map elems us)) us"
  by (auto simp: forest_def)

lemma forest_keys:
  assumes "input_ok ty es" and "forest hf ty h es ts"
  shows "sorted_wrt key_leq (map (me_key \<circ> tree_me hf ty) ts)"
  using assms
proof (induction ts arbitrary: es)
  case (Cons t ts)
  let ?es' = "concat (map elems ts)"
  have es: "es = elems t @ ?es'" and t: "tree_wf hf ty t" "elems t \<noteq> []" and f: "forest hf ty h ?es' ts"
    using Cons.prems(2) by (auto simp: forest_def)
  have i: "input_ok ty ?es'" using Cons.prems(1) by (auto simp: es input_ok_def sorted_wrt_append)
  have "key_leq (me_key (tree_me hf ty t)) (me_key (tree_me hf ty u))" if u: "u \<in> set ts" for u
  proof -
    have wf: "tree_wf hf ty u" "elems u \<noteq> []" using f u by (auto simp: forest_def)
    have "last (elems t) \<in> set (elems t)" "last (elems u) \<in> set ?es'" using t(2) wf(2) u last_in_set by (auto intro!: bexI[of _ u])
    with Cons.prems(1) have "keyed_type ty \<longrightarrow>
        key_lt (entry_key ty (last (elems t))) (entry_key ty (last (elems u)))"
      by (auto simp: es input_ok_def sorted_wrt_append)
    with tree_key[OF t] tree_key[OF wf] show ?thesis by (auto simp: key_leq_iff)
  qed
  with Cons.IH[OF i f] show ?case by simp
qed simp

lemma forest_totals:
  assumes "forest hf ty h es ts"
  shows "total_elements (map (tree_me hf ty) ts) = length es"
    and "total_leaves (map (tree_me hf ty) ts) \<le> length es"
proof -
  show "total_elements (map (tree_me hf ty) ts) = length es"
    using assms by (auto simp: forest_def total_elements_def length_concat comp_def)
  have "(\<Sum>t\<leftarrow>ts. me_leaves (tree_me hf ty t)) \<le> (\<Sum>t\<leftarrow>ts. length (elems t))"
    using assms by (intro sum_list_mono) (auto simp: forest_def intro: tree_leaves)
  then show "total_leaves (map (tree_me hf ty) ts) \<le> length es"
    using assms by (auto simp: forest_def total_leaves_def length_concat comp_def)
qed

lemma meta_group_ok:
  assumes "input_ok ty es" and "params_ok win mx" and "digest_ok hf" and "forest hf ty h es ts"
    and g: "g \<in> set (groups (is_boundary pat win mx) (tree_enc hf ty) ts)"
  shows "meta_level_ok hf ty g" and "tree_wf hf ty (PNode g)" and "elems (PNode g) \<noteq> []"
    and "height (PNode g) = Suc h"
proof -
  obtain a b where ts: "ts = a @ g @ b" using g by (rule groups_split)
  have ne: "g \<noteq> []" by (rule groups_nonempty[OF g])
  have f: "forest hf ty h (concat (map elems g)) g"
    using forest_append[of hf ty h es a "g @ b"] forest_append[of hf ty h _ g b] assms(4) ts by blast
  have len: "length (concat (map elems g)) \<le> length es" using assms(4) by (auto simp: ts forest_def)
  have small: "length es < 2 ^ 31" using assms(1) by (simp add: input_ok_def)
  have oks: "\<forall>t \<in> set g. me_ok (tree_me hf ty t)"
    using f tree_me_ok assms(3) by (auto simp: forest_def)
  have bytes: "length (concat (map (tree_enc hf ty) g)) \<le> 2 ^ 31 + 37"
    by (rule groups_bytes[OF g assms(2)]) (rule tree_enc_length(1)[OF assms(1,4,3)])
  have ne_enc: "\<forall>e \<in> set (map (tree_enc hf ty) g). e \<noteq> []"
    using tree_enc_length(2)[OF assms(1,4,3)] by (auto simp: ts)
  have fits: "var_fits (map me_bytes (map (tree_me hf ty) g))"
    using bytes ne_enc unfolding var_fits_def chunk_fits_def var_payload_def
    by (simp add: kMetaLength_def tree_enc_def[abs_def] comp_def)
  have "total_leaves (map (tree_me hf ty) g) < 2 ^ 32" "total_elements (map (tree_me hf ty) g) < 2 ^ 64"
    using forest_totals[OF f] len small by simp_all
  with oks fits have ms: "metas_ok (map (tree_me hf ty) g)" by (auto simp: metas_ok_def)
  have "sorted_wrt key_leq (map (me_key \<circ> tree_me hf ty) g)"
    using forest_keys[OF assms(1,4)] by (simp add: ts sorted_wrt_append)
  with ms ne assms(3) show "meta_level_ok hf ty g" by (simp add: meta_level_ok_def chain_le_sorted)
  have "length g \<le> length (concat (map elems g))"
    using f length_le_concat[of "map elems g"] by (auto simp: forest_def)
  with ms ne f len small show "tree_wf hf ty (PNode g)"
    unfolding tree_wf.simps by (auto simp: forest_def)
  show "elems (PNode g) \<noteq> []" using f ne by (cases g) (auto simp: forest_def)
  show "height (PNode g) = Suc h" using f ne by (cases g) (auto simp: forest_def)
qed

lemma elems_PNodes: "concat (map elems (map PNode gs)) = concat (map elems (concat gs))"
  by (induction gs) simp_all

lemma forest_groups:
  assumes "input_ok ty es" and "params_ok win mx" and "digest_ok hf" and "forest hf ty h es ts"
  shows "forest hf ty (Suc h) es (map PNode (groups (is_boundary pat win mx) (tree_enc hf ty) ts))"
proof -
  let ?gs = "groups (is_boundary pat win mx) (tree_enc hf ty) ts"
  have "concat (map elems (map PNode ?gs)) = concat (map elems (concat ?gs))"
    by (rule elems_PNodes)
  also have "\<dots> = es" using assms(4) by (simp add: groups_concat forest_def)
  finally show ?thesis
    using meta_group_ok(2-4)[OF assms] unfolding forest_def by auto
qed

lemma forest_leaves:
  assumes "input_ok ty es" and "params_ok win mx" and "es \<noteq> []"
  shows "forest hf ty 0 es (map PLeaf (all_groups (is_boundary pat win mx) (\<lambda>e. e) es))"
proof -
  have "concat (map elems (map PLeaf (groups (is_boundary pat win mx) (\<lambda>e. e) es))) = es"
    using groups_concat[of _ "\<lambda>e. e" es] by (simp add: comp_def)
  then show ?thesis
    using leaf_group_ok[OF assms(1,2)] groups_nonempty[of "[]"] assms(3)
    by (auto simp: forest_def all_groups_def)
qed

section \<open>The tree of a sequence\<close>

text \<open>\<open>built ts t\<close>: grouping the trees \<open>ts\<close> level by level ends with the single tree \<open>t\<close>.\<close>

inductive built :: "(bytes \<Rightarrow> bool) \<Rightarrow> (bytes \<Rightarrow> bytes) \<Rightarrow> ChunkType \<Rightarrow> ptree list \<Rightarrow> ptree \<Rightarrow> bool"
  for P hf ty where
  built_root: "built P hf ty [t] t"
| built_up: "1 < length ts \<Longrightarrow> built P hf ty (map PNode (groups P (tree_enc hf ty) ts)) t \<Longrightarrow>
     built P hf ty ts t"

inductive_cases built_singleE: "built P hf ty [t] t'"

definition tree_of :: "(bytes \<Rightarrow> bool) \<Rightarrow> (bytes \<Rightarrow> bytes) \<Rightarrow> ChunkType \<Rightarrow> bytes list \<Rightarrow> ptree \<Rightarrow> bool" where
  "tree_of P hf ty es t \<longleftrightarrow> built P hf ty (map PLeaf (all_groups P (\<lambda>e. e) es)) t"

lemma built_det: "built P hf ty ts t \<Longrightarrow> built P hf ty ts t' \<Longrightarrow> t = t'"
proof (induction arbitrary: t' rule: built.induct)
  case (built_root t)
  then show ?case by (auto elim: built_singleE)
next
  case (built_up ts t)
  from built_up.prems built_up.hyps(1) show ?case
    by (cases rule: built.cases) (auto intro: built_up.IH)
qed

lemma tree_of_det: "tree_of P hf ty es t \<Longrightarrow> tree_of P hf ty es t' \<Longrightarrow> t = t'"
  unfolding tree_of_def by (rule built_det)

lemma built_elems: "built P hf ty ts t \<Longrightarrow> elems t = concat (map elems ts)"
proof (induction rule: built.induct)
  case (built_up ts t)
  then show ?case by (simp only: elems_PNodes groups_concat)
qed simp

lemma tree_of_elems: "tree_of P hf ty es t \<Longrightarrow> elems t = es"
  by (auto simp: tree_of_def all_groups_def comp_def groups_concat[of _ "\<lambda>e. e", simplified]
      dest!: built_elems split: if_splits)

lemma built_wf:
  assumes "built (is_boundary pat win mx) hf ty ts t" and "forest hf ty h es ts"
    and "input_ok ty es" and "params_ok win mx" and "digest_ok hf"
  shows "tree_wf hf ty t"
  using assms(1,2)
proof (induction arbitrary: h rule: built.induct)
  case (built_up ts t)
  from built_up.IH[OF forest_groups[OF assms(3-5) built_up.prems]] show ?case .
qed (simp add: forest_def)

lemma tree_of_wf:
  assumes "tree_of (is_boundary pat win mx) hf ty es t" and "input_ok ty es" and "params_ok win mx"
    and "digest_ok hf"
  shows "tree_wf hf ty t"
proof (cases "es = []")
  case True
  with assms have "t = PLeaf []"
    by (auto simp: tree_of_def all_groups_def elim: built_singleE)
  moreover have "leaf_ok ty []" using leaf_group_ok[OF assms(2,3), of "[]" pat] True by (simp add: all_groups_def)
  ultimately show ?thesis by simp
next
  case False
  from built_wf[OF assms(1)[unfolded tree_of_def] forest_leaves[OF assms(2,3) False] assms(2-4)]
  show ?thesis .
qed

section \<open>Committing from scratch\<close>

text \<open>The chunks a level writes, and those of the trees it consists of.\<close>

lemma put_chunks_get:
  assumes "inj_on hf (set cs)" and "c \<in> set cs"
  shows "put_chunks hf cs st (hf c) = Some c"
  using assms
proof (induction cs rule: rev_induct)
  case (snoc d cs)
  then show ?case by (cases "c = d") (auto simp: inj_on_def)
qed simp

lemma put_chunks_other: "k \<notin> hf ` set cs \<Longrightarrow> put_chunks hf cs st k = st k"
  by (induction cs arbitrary: st) auto

lemma stored_put_chunks:
  assumes "inj_on hf (set cs)" and "set (tree_chunks hf ty t) \<subseteq> set cs"
  shows "stored hf ty (put_chunks hf cs st) t"
  using assms(2)
proof (induction t)
  case (PNode ts)
  then have "\<forall>t \<in> set ts. stored hf ty (put_chunks hf cs st) t" by fastforce
  with PNode.prems put_chunks_get[OF assms(1)] show ?case by (simp add: tree_hash_def)
qed (simp add: put_chunks_get[OF assms(1)])

text \<open>A level that has been given the entries of the trees \<open>ts\<close>.\<close>

definition meta_level :: "rolling_hasher \<Rightarrow> (bytes \<Rightarrow> bytes) \<Rightarrow> ChunkType \<Rightarrow> ptree list \<Rightarrow> level" where
  "meta_level rh hf ty ts = (new_level rh)\<lparr>nb_commited := False, nb_appended :=
     map (meta_seg \<circ> tree_enc hf ty) ts\<rparr>"

lemma meta_seg_rep: "e \<noteq> [] \<Longrightarrow> seg_rep (meta_seg e) [e]"
  by (simp add: seg_rep_def meta_seg_def)

lemma meta_segs_rep:
  "\<forall>t \<in> set ts. tree_enc hf ty t \<noteq> [] \<Longrightarrow>
   segs_rep (map (meta_seg \<circ> tree_enc hf ty) ts) (map (map (tree_enc hf ty)) (map (\<lambda>t. [t]) ts))"
  by (induction ts) (auto simp: segs_rep_def meta_seg_rep)

lemma commit_meta_level:
  assumes "input_ok ty es" and "params_ok win mx" and "digest_ok hf" and "forest hf ty h es ts" and "ts \<noteq> []"
    and "rh_rep rh []" and "rh_test rh = is_boundary pat win mx"
    and gs: "gs = groups (is_boundary pat win mx) (tree_enc hf ty) ts"
  shows "\<exists>cs. commit_level hf rh CT_kMeta ld st (meta_level rh hf ty ts) [] = Some cs \<and>
    cs_store cs = put_chunks hf (map (tree_chunk hf ty \<circ> PNode) gs) st \<and>
    cs_parents cs = [meta_level rh hf ty (map PNode gs)] \<and>
    cs_last cs = Some (tree_chunk hf ty (PNode (last gs))) \<and> gs \<noteq> [] \<and>
    chunk_hash hf (tree_chunk hf ty (PNode (last gs))) = Some (tree_hash hf ty (PNode (last gs)))"
proof -
  let ?P = "is_boundary pat win mx" and ?lv = "meta_level rh hf ty ts"
  have all: "all_groups ?P (tree_enc hf ty) ts = gs" using assms(5) by (simp add: all_groups_def gs)
  have enc: "\<forall>t \<in> set ts. tree_enc hf ty t \<noteq> []" using tree_enc_length(2)[OF assms(1,4,3)] by blast
  have ok: "\<forall>g \<in> set gs. meta_level_ok hf ty g" using meta_group_ok(1)[OF assms(1-4)] gs by blast
  have "\<exists>cs. commit_level hf rh CT_kMeta ld st ?lv [] = Some cs \<and>
      cs_store cs = put_chunks hf (map (tree_chunk hf ty \<circ> PNode) (all_groups ?P (tree_enc hf ty) (concat (map (\<lambda>t. [t]) ts)))) st \<and>
      cs_parents cs = [(new_level rh)\<lparr>nb_commited := False, nb_appended := map (meta_seg \<circ> me_bytes \<circ>
        (tree_me hf ty \<circ> PNode)) (all_groups ?P (tree_enc hf ty) (concat (map (\<lambda>t. [t]) ts)))\<rparr>] \<and>
      cs_last cs = Some ((tree_chunk hf ty \<circ> PNode) (last (all_groups ?P (tree_enc hf ty) (concat (map (\<lambda>t. [t]) ts)))))"
    by (rule meta_lv.commit_level_new)
      (use assms(6,7) enc ok meta_segs_rep[OF enc] in \<open>auto simp: meta_level_def new_level_def all\<close>)
  moreover have gne: "gs \<noteq> []" using groups_concat[of ?P "tree_enc hf ty" ts] assms(5) gs by auto
  moreover have "chunk_hash hf (tree_chunk hf ty (PNode (last gs))) = Some (tree_hash hf ty (PNode (last gs)))"
    using ok last_in_set[OF gne] by (auto simp: meta_level_ok_def meta_chunk_hash tree_hash_def)
  ultimately show ?thesis
    by (auto simp: all meta_level_def comp_def tree_enc_def)
qed

text \<open>What \<open>RecursiveCommit\<close> does behind a committed level.\<close>

lemma RecursiveCommit_step:
  assumes "commit_level hf rh ty' ld st lv [] = Some cs" and "cs_parents cs = [meta_level rh hf ty ts]"
    and "cs_last cs = Some c" and "chunk_hash hf c = Some h"
  shows "RecursiveCommit hf rh ty' ld st [lv] =
    (if 1 < length ts then RecursiveCommit hf rh CT_kMeta ld (cs_store cs) [meta_level rh hf ty ts]
     else Some (h, cs_store cs))"
  by (subst RecursiveCommit.simps) (simp add: assms, simp add: meta_level_def new_level_def)

lemma RecursiveCommit_meta:
  assumes "built (is_boundary pat win mx) hf ty ts t" and "1 < length ts"
    and "forest hf ty h es ts" and "input_ok ty es" and "params_ok win mx" and "digest_ok hf"
    and "rh_rep rh []" and "rh_test rh = is_boundary pat win mx"
  shows "\<exists>cs. RecursiveCommit hf rh CT_kMeta ld st [meta_level rh hf ty ts] =
      Some (tree_hash hf ty t, put_chunks hf cs st) \<and>
    set cs \<union> (\<Union>u \<in> set ts. set (tree_chunks hf ty u)) = set (tree_chunks hf ty t)"
  using assms(1-3)
proof (induction arbitrary: h st rule: built.induct)
  case (built_up ts t)
  let ?P = "is_boundary pat win mx" and ?lv = "meta_level rh hf ty ts"
  let ?gs = "groups ?P (tree_enc hf ty) ts"
  have "ts \<noteq> []" using built_up.hyps(1) by auto
  from commit_meta_level[OF assms(4-6) built_up.prems(2) this assms(7,8) refl, of ld st]
  obtain cs where cl: "commit_level hf rh CT_kMeta ld st ?lv [] = Some cs"
    "cs_store cs = put_chunks hf (map (tree_chunk hf ty \<circ> PNode) ?gs) st"
    "cs_parents cs = [meta_level rh hf ty (map PNode ?gs)]"
    "cs_last cs = Some (tree_chunk hf ty (PNode (last ?gs)))" and gne: "?gs \<noteq> []"
    and hash: "chunk_hash hf (tree_chunk hf ty (PNode (last ?gs))) = Some (tree_hash hf ty (PNode (last ?gs)))"
    by blast
  have sub: "(\<Union>u \<in> set (map PNode ?gs). set (tree_chunks hf ty u)) =
      set (map (tree_chunk hf ty \<circ> PNode) ?gs) \<union> (\<Union>u \<in> set ts. set (tree_chunks hf ty u))"
    using arg_cong[OF groups_concat[of ?P "tree_enc hf ty" ts], of set] by auto
  note step = RecursiveCommit_step[OF cl(1,3,4) hash, unfolded length_map]
  show ?case
  proof (cases "1 < length ?gs")
    case True
    from built_up.IH[OF _ forest_groups[OF assms(4-6) built_up.prems(2)], of "cs_store cs"] True
    obtain ds where "RecursiveCommit hf rh CT_kMeta ld (cs_store cs) [meta_level rh hf ty (map PNode ?gs)] =
        Some (tree_hash hf ty t, put_chunks hf ds (cs_store cs))"
      "set ds \<union> (\<Union>u \<in> set (map PNode ?gs). set (tree_chunks hf ty u)) = set (tree_chunks hf ty t)" by auto
    with True step cl(2) sub show ?thesis
      by (intro exI[of _ "map (tree_chunk hf ty \<circ> PNode) ?gs @ ds"]) auto
  next
    case False
    with gne obtain g where g: "?gs = [g]" by (cases ?gs) auto
    with built_up.hyps(2) have "t = PNode g" by (auto elim: built_singleE)
    with g step cl(2) sub show ?thesis
      by (intro exI[of _ "map (tree_chunk hf ty \<circ> PNode) ?gs"]) auto
  qed
qed simp

definition leaf_level :: "rolling_hasher \<Rightarrow> segment list \<Rightarrow> level" where
  "leaf_level rh segs = (new_level rh)\<lparr>nb_commited := False, nb_appended := segs\<rparr>"

lemma SpliceElements_new:
  "SpliceElements ld 0 segs (NodeBuilder_new rh) = Some [leaf_level rh segs]"
  by (simp add: SpliceElements_def NodeBuilder_new_def new_level_def SkipEntries_def nothing_left_def
      leaf_level_def)

lemma commit_leaf_level:
  assumes segs: "segs_rep segs ess" "concat ess = es"
    and inp: "input_ok ty es" "params_ok win mx" "digest_ok hf"
    and rh: "rh_rep rh []" "rh_test rh = is_boundary pat win mx"
    and gs: "gs = all_groups (is_boundary pat win mx) (\<lambda>e. e) es"
  shows "\<exists>cs. commit_level hf rh ty ld st (leaf_level rh segs) [] = Some cs \<and>
    cs_store cs = put_chunks hf (map (leaf_chunk ty) gs) st \<and>
    cs_parents cs = [meta_level rh hf ty (map PLeaf gs)] \<and>
    cs_last cs = Some (leaf_chunk ty (last gs)) \<and> gs \<noteq> [] \<and>
    chunk_hash hf (leaf_chunk ty (last gs)) = Some (tree_hash hf ty (PLeaf (last gs)))"
proof -
  let ?P = "is_boundary pat win mx" and ?lv = "leaf_level rh segs"
  have ok: "\<forall>g \<in> set gs. leaf_ok ty g" using leaf_group_ok[OF inp(1,2)] gs by blast
  have "\<exists>cs. commit_level hf rh ty ld st ?lv [] = Some cs \<and>
      cs_store cs = put_chunks hf (map (leaf_chunk ty) (all_groups ?P (\<lambda>e. e) (concat ess))) st \<and>
      cs_parents cs = [(new_level rh)\<lparr>nb_commited := False, nb_appended :=
        map (meta_seg \<circ> me_bytes \<circ> leaf_entry hf ty) (all_groups ?P (\<lambda>e. e) (concat ess))\<rparr>] \<and>
      cs_last cs = Some (leaf_chunk ty (last (all_groups ?P (\<lambda>e. e) (concat ess))))"
    by (rule leaf_lv.commit_level_new)
      (use rh ok segs inp entry_valid_nonempty in \<open>auto simp: leaf_level_def new_level_def
        leaf_level_ok_def input_ok_def gs\<close>)
  moreover have gne: "gs \<noteq> []" using groups_concat[of ?P "\<lambda>e. e" es] by (auto simp: all_groups_def gs)
  moreover have "chunk_hash hf (leaf_chunk ty (last gs)) = Some (tree_hash hf ty (PLeaf (last gs)))"
    using ok last_in_set[OF gne] by (auto simp: leaf_chunk_hash tree_hash_def)
  ultimately show ?thesis by (auto simp: segs gs meta_level_def comp_def tree_enc_def)
qed

lemma RecursiveCommit_leaf:
  assumes tree: "tree_of (is_boundary pat win mx) hf ty es t" and segs: "segs_rep segs ess" "concat ess = es"
    and inp: "input_ok ty es" "params_ok win mx" "digest_ok hf"
    and rh: "rh_rep rh []" "rh_test rh = is_boundary pat win mx"
  shows "\<exists>cs. RecursiveCommit hf rh ty ld st [leaf_level rh segs] =
      Some (tree_hash hf ty t, put_chunks hf cs st) \<and> set cs = set (tree_chunks hf ty t)"
proof -
  let ?P = "is_boundary pat win mx" and ?lv = "leaf_level rh segs"
  let ?gs = "all_groups ?P (\<lambda>e. e) es"
  obtain cs where cl: "commit_level hf rh ty ld st ?lv [] = Some cs"
    "cs_store cs = put_chunks hf (map (leaf_chunk ty) ?gs) st"
    "cs_parents cs = [meta_level rh hf ty (map PLeaf ?gs)]"
    "cs_last cs = Some (leaf_chunk ty (last ?gs))" and gne: "?gs \<noteq> []"
    and hash: "chunk_hash hf (leaf_chunk ty (last ?gs)) = Some (tree_hash hf ty (PLeaf (last ?gs)))"
    using commit_leaf_level[OF segs inp rh refl, of ld st] by blast
  note step = RecursiveCommit_step[OF cl(1,3,4) hash, unfolded length_map]
  note up = tree[unfolded tree_of_def]
  show ?thesis
  proof (cases "1 < length ?gs")
    case True
    then have "es \<noteq> []" by (auto simp: all_groups_def split: if_splits)
    with RecursiveCommit_meta[OF up _ forest_leaves[OF inp(1,2)] inp rh, of ld "cs_store cs"] True
    obtain ds where "RecursiveCommit hf rh CT_kMeta ld (cs_store cs) [meta_level rh hf ty (map PLeaf ?gs)] =
        Some (tree_hash hf ty t, put_chunks hf ds (cs_store cs))"
      "set ds \<union> (\<Union>u \<in> set (map PLeaf ?gs). set (tree_chunks hf ty u)) = set (tree_chunks hf ty t)" by auto
    with True step cl(2) show ?thesis
      by (intro exI[of _ "map (leaf_chunk ty) ?gs @ ds"]) auto
  next
    case False
    with gne obtain g where g: "?gs = [g]" by (cases ?gs) auto
    with up have "t = PLeaf g" by (auto elim: built_singleE)
    with g step cl(2) show ?thesis
      by (intro exI[of _ "map (leaf_chunk ty) ?gs"]) auto
  qed
qed

lemma rh_rep_params:
  "params_ok win mx \<Longrightarrow> rh_rep (RollingHasher pat win mx) [] \<and>
     rh_test (RollingHasher pat win mx) = is_boundary pat win mx"
  by (auto simp: params_ok_def intro!: rh_rep_init)

lemma Commit_new:
  assumes "tree_of (is_boundary pat win mx) hf ty es t" and "segs_rep segs ess" and "concat ess = es"
    and "input_ok ty es" and "params_ok win mx" and "digest_ok hf"
  shows "\<exists>cs. Commit hf (RollingHasher pat win mx) ty ld st [leaf_level (RollingHasher pat win mx) segs] =
      Some (tree_hash hf ty t, put_chunks hf cs st) \<and> set cs = set (tree_chunks hf ty t)"
  using RecursiveCommit_leaf[OF assms, of "RollingHasher pat win mx" ld st] rh_rep_params[OF assms(5)]
  by (auto simp: Commit_def leaf_level_def new_level_def)

section \<open>Termination\<close>

text \<open>Every group that ends with a boundary holds two entries when each entry is shorter than the
  window; so the levels shrink.\<close>

lemma groups_shrink:
  assumes "\<And>x. x \<in> set xs \<Longrightarrow> length (enc x) < win" and "1 < length xs"
  shows "length (groups (is_boundary pat win mx) enc xs) < length xs"
proof -
  let ?P = "is_boundary pat win mx"
  obtain gs r where c: "chop ?P enc [] xs = (gs, r)" by fastforce
  have len: "length xs = sum_list (map length gs) + length r"
    using arg_cong[OF chop_concat[OF c], of length] by (simp add: length_concat)
  have two: "2 \<le> length g" if g: "g \<in> set gs" for g
  proof (rule ccontr)
    assume "\<not> 2 \<le> length g"
    with chop_nonempty[OF c g] obtain x where x: "g = [x]" by (cases g; cases "tl g") auto
    have "win \<le> length (concat (map enc g))" by (rule chop_min[OF c is_boundary_min g])
    moreover have "x \<in> set (concat gs)" using g x by (auto intro!: bexI[of _ "[x]"])
    then have "x \<in> set xs" using chop_concat[OF c] by (metis UnCI append_Nil set_append)
    ultimately show False using assms(1)[of x] x by simp
  qed
  have "2 * length gs \<le> sum_list (map length gs)"
    using sum_list_mono[of gs "\<lambda>_. 2" length] two by (simp add: sum_list_triv)
  moreover have "length (groups ?P enc xs) = length gs + (if r = [] then 0 else 1)"
    using c by (simp add: groups_def)
  moreover have "r \<noteq> [] \<Longrightarrow> 1 \<le> length r" by (cases r) auto
  ultimately show ?thesis using len assms(2) by (cases "r = []") auto
qed

text \<open>The keys of a sequence are short enough for this when their encodings are.\<close>

definition keys_short :: "ChunkType \<Rightarrow> nat \<Rightarrow> bytes list \<Rightarrow> bool" where
  "keys_short ty win es \<longleftrightarrow> 45 < win \<and>
     (keyed_type ty \<longrightarrow> (\<forall>e \<in> set es. 37 + key_numBytes (entry_key ty e) < win))"

lemma tree_enc_short:
  assumes "keys_short ty win es" and "forest hf ty h es ts" and "digest_ok hf" and "t \<in> set ts"
  shows "length (tree_enc hf ty t) < win"
proof -
  have t: "tree_wf hf ty t" "elems t \<noteq> []" "set (elems t) \<subseteq> set es"
    using assms(2,4) by (auto simp: forest_def)
  have "last (elems t) \<in> set es" using t(2,3) last_in_set by blast
  with assms(1) length_me_bytes[OF tree_me_ok[OF t(1) assms(3)]] tree_key[OF t(1,2)] show ?thesis
    by (auto simp: keys_short_def tree_enc_def)
qed

lemma built_exists:
  assumes "input_ok ty es" and "params_ok win mx" and "digest_ok hf" and "keys_short ty win es"
    and "forest hf ty h es ts" and "ts \<noteq> []"
  shows "\<exists>t. built (is_boundary pat win mx) hf ty ts t"
  using assms(5,6)
proof (induction "length ts" arbitrary: ts h rule: less_induct)
  case less
  let ?gs = "map PNode (groups (is_boundary pat win mx) (tree_enc hf ty) ts)"
  show ?case
  proof (cases "1 < length ts")
    case True
    have "length ?gs < length ts"
      using groups_shrink[OF tree_enc_short[OF assms(4) less.prems(1) assms(3)] True] by simp
    moreover have "?gs \<noteq> []"
      using groups_concat[of "is_boundary pat win mx" "tree_enc hf ty" ts] less.prems(2) by auto
    ultimately obtain t where "built (is_boundary pat win mx) hf ty ?gs t"
      using less.hyps forest_groups[OF assms(1-3) less.prems(1)] by blast
    with True show ?thesis by (blast intro: built_up)
  next
    case False
    with less.prems(2) obtain t where "ts = [t]" by (cases ts) auto
    then show ?thesis by (auto intro: built_root)
  qed
qed

lemma tree_of_exists:
  assumes "input_ok ty es" and "params_ok win mx" and "digest_ok hf" and "keys_short ty win es"
  shows "\<exists>t. tree_of (is_boundary pat win mx) hf ty es t"
proof (cases "es = []")
  case True
  then show ?thesis by (auto simp: tree_of_def all_groups_def intro: built_root)
next
  case False
  have "all_groups (is_boundary pat win mx) (\<lambda>e. e) es \<noteq> []"
    using groups_concat[of "is_boundary pat win mx" "\<lambda>e. e" es] by (auto simp: all_groups_def)
  with built_exists[OF assms forest_leaves[OF assms(1,2) False]] show ?thesis
    by (simp add: tree_of_def)
qed

section \<open>An example\<close>

definition ex_items :: "bytes list" where
  "ex_items = [list_item (replicate 50 7), list_item (replicate 50 8)]"

definition ex_built :: ptree where
  "ex_built = PNode [PLeaf [list_item (replicate 50 7)], PLeaf [list_item (replicate 50 8)]]"

lemma ex_items_ok: "input_ok CT_kList ex_items" "keys_short CT_kList 46 ex_items"
  by (auto simp: input_ok_def leaf_type_def keyed_type_def ex_items_def list_valid_def list_item_ok_def
      keys_short_def intro: exI[of _ "replicate 50 7"] exI[of _ "replicate 50 8"])

lemma first_cut_short: "length cur + length data < win \<Longrightarrow> first_cut (is_boundary pat win mx) cur data = None"
  by (auto simp: cut_eq_None is_boundary_def)

lemma first_cut_zero:
  assumes "length cur < win" and "win \<le> length cur + length data"
  shows "first_cut (is_boundary 0 win mx) cur data \<noteq> None"
proof
  assume n: "first_cut (is_boundary 0 win mx) cur data = None"
  have "win - length cur - 1 < length data" using assms by linarith
  moreover have "is_boundary 0 win mx (cur @ take (Suc (win - length cur - 1)) data)"
    using assms by (simp add: is_boundary_def)
  ultimately show False using n unfolding cut_eq_None by blast
qed

lemma ex_built_tree: "tree_of (is_boundary 0 46 64) ex_hf CT_kList ex_items ex_built"
proof -
  let ?P = "is_boundary 0 46 64" and ?a = "list_item (replicate 50 7)" and ?b = "list_item (replicate 50 8)"
  have "first_cut ?P [] ?a \<noteq> None" "first_cut ?P [] ?b \<noteq> None"
    by (rule first_cut_zero; simp)+
  then have leaves: "all_groups ?P (\<lambda>e. e) ex_items = [[?a], [?b]]"
    by (auto simp: all_groups_def groups_def ex_items_def)
  have len: "length (tree_enc ex_hf CT_kList (PLeaf es)) = 45" for es
    by (simp add: tree_enc_def me_bytes_def leaf_entry_def leaf_key_def keyed_type_def
        digest_okD[OF ex_hf_digest] kByteLength_def)
  let ?ea = "tree_enc ex_hf CT_kList (PLeaf [?a])"
  have "first_cut ?P [] ?ea = None" by (rule first_cut_short) (simp add: len)
  moreover have "first_cut ?P ?ea (tree_enc ex_hf CT_kList (PLeaf [?b])) \<noteq> None"
    by (rule first_cut_zero) (simp_all add: len)
  ultimately have "groups ?P (tree_enc ex_hf CT_kList) [PLeaf [?a], PLeaf [?b]] = [[PLeaf [?a], PLeaf [?b]]]"
    by (auto simp: groups_def)
  then have "built ?P ex_hf CT_kList (map PNode (groups ?P (tree_enc ex_hf CT_kList)
      [PLeaf [?a], PLeaf [?b]])) ex_built"
    by (simp add: ex_built_def built_root)
  from built_up[OF _ this] have "built ?P ex_hf CT_kList [PLeaf [?a], PLeaf [?b]] ex_built" by simp
  with leaves show ?thesis by (simp add: tree_of_def)
qed

definition ex_segs :: "segment list" where
  "ex_segs = [meta_seg (list_item (replicate 50 7)), meta_seg (list_item (replicate 50 8))]"

lemma ex_segs_rep: "segs_rep ex_segs [[list_item (replicate 50 7)], [list_item (replicate 50 8)]]"
  by (simp add: ex_segs_def segs_rep_def meta_seg_rep list_item_def)

lemma ex_built_inj: "inj_on ex_hf (set (tree_chunks ex_hf CT_kList ex_built))"
proof -
  have "distinct (map ex_hf (tree_chunks ex_hf CT_kList ex_built))" by code_simp
  then show ?thesis by (simp add: distinct_map)
qed

section \<open>Properties\<close>

text \<open>C2.  Building a tree from scratch: splicing segments of the entries \<open>es\<close> into a new builder
  and committing it returns the hash of the tree of \<open>es\<close> and leaves every chunk of the tree in
  the store, provided that these chunks have different hashes.  The tree is well-formed and its
  elements are \<open>es\<close>.\<close>

theorem fresh_build:
  assumes "tree_of (is_boundary pat win mx) hf ty es t" and "segs_rep segs ess" and "concat ess = es"
    and "input_ok ty es" and "params_ok win mx" and "digest_ok hf"
    and "inj_on hf (set (tree_chunks hf ty t))"
  shows "\<exists>st'. do { nb \<leftarrow> SpliceElements ld 0 segs (NodeBuilder_new (RollingHasher pat win mx));
                   Commit hf (RollingHasher pat win mx) ty ld st nb } = Some (tree_hash hf ty t, st') \<and>
    stored hf ty st' t \<and> tree_wf hf ty t \<and> elems t = es"
proof -
  obtain cs where "Commit hf (RollingHasher pat win mx) ty ld st [leaf_level (RollingHasher pat win mx) segs] =
      Some (tree_hash hf ty t, put_chunks hf cs st)" "set cs = set (tree_chunks hf ty t)"
    using Commit_new[OF assms(1-6)] by blast
  moreover from this(2) assms(7) have "stored hf ty (put_chunks hf cs st) t"
    by (intro stored_put_chunks) simp_all
  ultimately show ?thesis
    using tree_of_wf[OF assms(1,4-6)] tree_of_elems[OF assms(1)] by (simp add: SpliceElements_new)
qed

theorem fresh_build_witness:
  "\<exists>st'. do { nb \<leftarrow> SpliceElements Map.empty 0 ex_segs (NodeBuilder_new (RollingHasher 0 46 64));
             Commit ex_hf (RollingHasher 0 46 64) CT_kList Map.empty Map.empty nb } =
      Some (tree_hash ex_hf CT_kList ex_built, st') \<and>
    stored ex_hf CT_kList st' ex_built \<and> tree_wf ex_hf CT_kList ex_built \<and> elems ex_built = ex_items"
  by (rule fresh_build[OF ex_built_tree ex_segs_rep _ ex_items_ok(1) _ ex_hf_digest ex_built_inj])
    (simp_all add: ex_items_def params_ok_def)

text \<open>C21.  Committing a new builder terminates with a root hash when every key, with the 37 bytes of
  the other fields of a meta entry, is shorter than the window of the rolling hash; for lists and
  blobs, whose meta entries have 45 bytes, a window of 46 bytes is enough.\<close>

theorem build_terminates:
  assumes "segs_rep segs ess" and "input_ok ty (concat ess)" and "params_ok win mx" and "digest_ok hf"
    and "keys_short ty win (concat ess)"
  shows "\<exists>t st'. tree_of (is_boundary pat win mx) hf ty (concat ess) t \<and>
    do { nb \<leftarrow> SpliceElements ld 0 segs (NodeBuilder_new (RollingHasher pat win mx));
         Commit hf (RollingHasher pat win mx) ty ld st nb } = Some (tree_hash hf ty t, st')"
proof -
  obtain t where t: "tree_of (is_boundary pat win mx) hf ty (concat ess) t"
    using tree_of_exists[OF assms(2-5)] by blast
  from Commit_new[OF t assms(1) refl assms(2-4), of ld st] t show ?thesis
    by (auto simp: SpliceElements_new)
qed

theorem build_terminates_witness:
  "\<exists>t st'. tree_of (is_boundary 0 46 64) ex_hf CT_kList (concat [[list_item (replicate 50 7)], [list_item (replicate 50 8)]]) t \<and>
    do { nb \<leftarrow> SpliceElements Map.empty 0 ex_segs (NodeBuilder_new (RollingHasher 0 46 64));
         Commit ex_hf (RollingHasher 0 46 64) CT_kList Map.empty Map.empty nb } =
      Some (tree_hash ex_hf CT_kList t, st')"
  by (rule build_terminates[OF ex_segs_rep _ _ ex_hf_digest])
    (use ex_items_ok in \<open>simp_all add: ex_items_def params_ok_def\<close>)

text \<open>C22.  The root of a built tree depends on the entries only: however the same entries are
  divided into segments, and whatever the store held before, committing returns the same hash.\<close>

theorem build_segmentation_independent:
  assumes "segs_rep segs ess" and "segs_rep segs' ess'" and "concat ess' = concat ess"
    and "input_ok ty (concat ess)" and "params_ok win mx" and "digest_ok hf"
    and "keys_short ty win (concat ess)"
  shows "\<exists>root st1 st1'.
    do { nb \<leftarrow> SpliceElements ld 0 segs (NodeBuilder_new (RollingHasher pat win mx));
         Commit hf (RollingHasher pat win mx) ty ld st nb } = Some (root, st1) \<and>
    do { nb \<leftarrow> SpliceElements ld' 0 segs' (NodeBuilder_new (RollingHasher pat win mx));
         Commit hf (RollingHasher pat win mx) ty ld' st' nb } = Some (root, st1')"
proof -
  obtain t where t: "tree_of (is_boundary pat win mx) hf ty (concat ess) t"
    using tree_of_exists[OF assms(4-7)] by blast
  from Commit_new[OF t assms(1) refl assms(4-6), of ld st]
    Commit_new[OF t assms(2,3,4-6), of ld' st'] show ?thesis
    by (auto simp: SpliceElements_new)
qed

theorem build_segmentation_independent_witness:
  "\<exists>root st1 st1'.
    do { nb \<leftarrow> SpliceElements Map.empty 0 ex_segs (NodeBuilder_new (RollingHasher 0 46 64));
         Commit ex_hf (RollingHasher 0 46 64) CT_kList Map.empty Map.empty nb } = Some (root, st1) \<and>
    do { nb \<leftarrow> SpliceElements Map.empty 0 (VarSegment [] 0 [] # ex_segs) (NodeBuilder_new (RollingHasher 0 46 64));
         Commit ex_hf (RollingHasher 0 46 64) CT_kList Map.empty Map.empty nb } = Some (root, st1')"
proof (rule build_segmentation_independent[OF ex_segs_rep _ _ _ _ ex_hf_digest])
  show "segs_rep (VarSegment [] 0 [] # ex_segs)
      ([] # [[list_item (replicate 50 7)], [list_item (replicate 50 8)]])"
    using ex_segs_rep by (simp add: segs_rep_def) (simp add: seg_rep_def)
qed (use ex_items_ok in \<open>simp_all add: ex_items_def params_ok_def\<close>)

end
