(* ===== verification/Long_Keys.thy ===== *)
theory Long_Keys
  imports Build_Tree
begin

text \<open>
  Where building does not end.  A meta entry carries the largest key of its subtree.  When the keys
  are as long as the largest chunk, every meta entry fills a chunk of its own, at every level: a
  level never has fewer entries than the level below it, and \<open>RecursiveCommit\<close> never finds a
  level with a single chunk.
\<close>

section \<open>Nested calls\<close>

text \<open>The arguments of the \<open>k\<close>-th nested call of \<open>RecursiveCommit\<close>, if the code gets there.\<close>

fun commit_levels :: "(bytes \<Rightarrow> bytes) \<Rightarrow> rolling_hasher \<Rightarrow> loader \<Rightarrow> nat \<Rightarrow> ChunkType \<Rightarrow> loader \<Rightarrow>
    builder \<Rightarrow> (loader \<times> builder) option" where
  "commit_levels hf rh ld 0 ty st nb = Some (st, nb)"
| "commit_levels hf rh ld (Suc k) ty st nb =
     (case nb of [] \<Rightarrow> None
      | lv # ps \<Rightarrow>
          do { cs \<leftarrow> commit_level hf rh ty ld st lv ps;
               chunk \<leftarrow> cs_last cs;
               root_hash \<leftarrow> chunk_hash hf chunk;
               case cs_parents cs of [] \<Rightarrow> None
               | p # qs \<Rightarrow>
                   if nb_cursor p \<noteq> None \<or> length (nb_appended p) > 1
                   then commit_levels hf rh ld k CT_kMeta (cs_store cs) (p # qs)
                   else None })"

lemma first_cut_full:
  assumes "params_ok win mx" and "mx \<le> length data"
  shows "first_cut (is_boundary pat win mx) [] data \<noteq> None"
proof
  assume n: "first_cut (is_boundary pat win mx) [] data = None"
  have "0 < mx" using assms(1) by (auto simp: params_ok_def)
  with assms(2) have "mx - 1 < length data" "Suc (mx - 1) = mx" by auto
  moreover from this assms have "is_boundary pat win mx ([] @ take (Suc (mx - 1)) data)"
    by (intro is_boundary_full) simp_all
  ultimately show False using n unfolding cut_eq_None by blast
qed

lemma groups_single:
  assumes "params_ok win mx" and "\<And>x. x \<in> set xs \<Longrightarrow> mx \<le> length (enc x)"
  shows "groups (is_boundary pat win mx) enc xs = map (\<lambda>x. [x]) xs"
proof -
  have "chop (is_boundary pat win mx) enc [] xs = (map (\<lambda>x. [x]) xs, [])"
    using assms(2)
  proof (induction xs)
    case (Cons x xs)
    then have "first_cut (is_boundary pat win mx) [] (enc x) \<noteq> None"
      by (intro first_cut_full[OF assms(1)]) simp
    with Cons show ?case by simp
  qed simp
  then show ?thesis by (simp add: groups_def)
qed

text \<open>The state of a level with long keys: more than one tree, and the entry of each fills a chunk.\<close>

definition long_level :: "(bytes \<Rightarrow> bytes) \<Rightarrow> ChunkType \<Rightarrow> bytes list \<Rightarrow> nat \<Rightarrow> ptree list \<Rightarrow> bool" where
  "long_level hf ty es mx ts \<longleftrightarrow> 1 < length ts \<and> (\<exists>h. forest hf ty h es ts) \<and>
     (\<forall>t \<in> set ts. mx \<le> length (tree_enc hf ty t))"

lemma tree_enc_single:
  assumes "tree_wf hf ty t" and "tree_wf hf ty (PNode [t])" and "digest_ok hf"
  shows "length (tree_enc hf ty (PNode [t])) = length (tree_enc hf ty t)"
  using length_me_bytes[OF tree_me_ok[OF assms(1,3)]] length_me_bytes[OF tree_me_ok[OF assms(2,3)]]
  by (simp add: tree_enc_def meta_me_def)

lemma long_level_next:
  assumes "input_ok ty es" and "params_ok win mx" and "digest_ok hf" and "long_level hf ty es mx ts"
    and "rh_rep rh []" and "rh_test rh = is_boundary pat win mx"
  shows "\<exists>cs ts' c h. commit_level hf rh CT_kMeta ld st (meta_level rh hf ty ts) [] = Some cs \<and>
    cs_parents cs = [meta_level rh hf ty ts'] \<and> cs_last cs = Some c \<and> chunk_hash hf c = Some h \<and>
    long_level hf ty es mx ts'"
proof -
  obtain h where f: "forest hf ty h es ts" and len: "1 < length ts"
    and long: "\<And>t. t \<in> set ts \<Longrightarrow> mx \<le> length (tree_enc hf ty t)"
    using assms(4) by (auto simp: long_level_def)
  let ?gs = "groups (is_boundary pat win mx) (tree_enc hf ty) ts"
  have gs: "?gs = map (\<lambda>t. [t]) ts" by (rule groups_single[OF assms(2) long])
  have f': "forest hf ty (Suc h) es (map PNode ?gs)" by (rule forest_groups[OF assms(1-3) f])
  have "mx \<le> length (tree_enc hf ty (PNode [t]))" if "t \<in> set ts" for t
    using tree_enc_single[of hf ty t] long[OF that] that f f' assms(3) by (auto simp: forest_def gs)
  then have "long_level hf ty es mx (map PNode ?gs)"
    using f' len by (auto simp: long_level_def gs)
  with commit_meta_level[OF assms(1-3) f _ assms(5,6) refl, of ld st] len show ?thesis by fastforce
qed

lemma RecursiveCommit_long:
  assumes "input_ok ty es" and "params_ok win mx" and "digest_ok hf"
    and "rh_rep rh []" and "rh_test rh = is_boundary pat win mx" and "long_level hf ty es mx ts"
  shows "commit_levels hf rh ld k CT_kMeta st [meta_level rh hf ty ts] \<noteq> None"
    and "RecursiveCommit hf rh CT_kMeta ld st [meta_level rh hf ty ts] = None"
proof -
  note next_level = long_level_next[OF assms(1-3) _ assms(4,5)]
  show "commit_levels hf rh ld k CT_kMeta st [meta_level rh hf ty ts] \<noteq> None"
    using assms(6)
  proof (induction k arbitrary: ts st)
    case (Suc k)
    obtain cs ts' c h where n: "commit_level hf rh CT_kMeta ld st (meta_level rh hf ty ts) [] = Some cs"
      "cs_parents cs = [meta_level rh hf ty ts']" "cs_last cs = Some c" "chunk_hash hf c = Some h"
      and l: "long_level hf ty es mx ts'"
      using next_level[OF Suc.prems, of ld st] by blast
    from l have "1 < length (nb_appended (meta_level rh hf ty ts'))"
      by (simp add: long_level_def meta_level_def)
    with n Suc.IH[OF l] show ?case by simp
  qed simp
  have "False" if "RecursiveCommit hf rh CT_kMeta ld st [meta_level rh hf ty ts] = Some y" for y
  proof -
    have "hf' = hf \<longrightarrow> rh' = rh \<longrightarrow> ty' = CT_kMeta \<longrightarrow> ld' = ld \<longrightarrow>
        (\<forall>us. long_level hf ty es mx us \<longrightarrow> nb \<noteq> [meta_level rh hf ty us])"
      if "RecursiveCommit hf' rh' ty' ld' st' nb = Some y" for hf' rh' ty' ld' st' nb y
      using that
    proof (induction rule: RecursiveCommit.raw_induct[rotated 1, consumes 1])
      case (1 rc hf' rh' ty' ld' st' nb y)
      show ?case
      proof (intro impI allI notI)
        fix us
        assume eq: "hf' = hf" "rh' = rh" "ty' = CT_kMeta" "ld' = ld" "nb = [meta_level rh hf ty us]"
          and l: "long_level hf ty es mx us"
        obtain cs ts' c h where n: "commit_level hf rh CT_kMeta ld st' (meta_level rh hf ty us) [] = Some cs"
          "cs_parents cs = [meta_level rh hf ty ts']" "cs_last cs = Some c" "chunk_hash hf c = Some h"
          and l': "long_level hf ty es mx ts'"
          using next_level[OF l, of ld st'] by blast
        from l' have "1 < length (nb_appended (meta_level rh hf ty ts'))"
          by (simp add: long_level_def meta_level_def)
        with n 1(2) have "rc hf rh CT_kMeta ld (cs_store cs) [meta_level rh hf ty ts'] = Some y"
          by (simp add: eq)
        from 1(1)[OF this] l' show False by blast
      qed
    qed
    with that assms(6) show False by blast
  qed
  then show "RecursiveCommit hf rh CT_kMeta ld st [meta_level rh hf ty ts] = None"
    by (cases "RecursiveCommit hf rh CT_kMeta ld st [meta_level rh hf ty ts]") auto
qed

section \<open>Properties\<close>

text \<open>C34.  Building a map or a set from two or more entries whose keys are at least as long as the
  largest chunk never ends: \<open>RecursiveCommit\<close> calls itself on the parent level as often as
  one likes, and has no result.\<close>

theorem long_keys_diverge:
  assumes "keyed_type ty" and "segs_rep segs ess" and "concat ess = es" and "input_ok ty es"
    and "params_ok win mx" and "digest_ok hf" and "2 \<le> length es"
    and "\<forall>e \<in> set es. mx \<le> key_numBytes (entry_key ty e)"
  shows "(\<forall>k. commit_levels hf (RollingHasher pat win mx) ld k ty st
            [leaf_level (RollingHasher pat win mx) segs] \<noteq> None) \<and>
    RecursiveCommit hf (RollingHasher pat win mx) ty ld st
      [leaf_level (RollingHasher pat win mx) segs] = None"
proof -
  let ?rh = "RollingHasher pat win mx" and ?P = "is_boundary pat win mx"
  have rh: "rh_rep ?rh []" "rh_test ?rh = ?P" using rh_rep_params[OF assms(5)] by auto
  have long: "mx \<le> length e" if "e \<in> set es" for e
    using assms(1,4,8) that entry_key_size[of ty e] by (fastforce simp: input_ok_def)
  have ne: "es \<noteq> []" using assms(7) by auto
  let ?gs = "all_groups ?P (\<lambda>e. e) es" and ?ts = "map (\<lambda>e. PLeaf [e]) es"
  have gs: "?gs = map (\<lambda>e. [e]) es"
    using groups_single[OF assms(5), of es "\<lambda>e. e"] long ne by (simp add: all_groups_def)
  have f: "forest hf ty 0 es ?ts" using forest_leaves[OF assms(4,5) ne, of hf pat] by (simp add: gs comp_def)
  have "mx \<le> length (tree_enc hf ty (PLeaf [e]))" if e: "e \<in> set es" for e
  proof -
    have "tree_wf hf ty (PLeaf [e])" using f e by (auto simp: forest_def)
    from length_me_bytes[OF tree_me_ok[OF this assms(6)]] e assms(1,8) show ?thesis
      by (fastforce simp: tree_enc_def leaf_entry_def leaf_key_def)
  qed
  with f assms(7) have l: "long_level hf ty es mx ?ts" by (auto simp: long_level_def)
  obtain cs c h where n: "commit_level hf ?rh ty ld st (leaf_level ?rh segs) [] = Some cs"
    "cs_parents cs = [meta_level ?rh hf ty ?ts]" "cs_last cs = Some c" "chunk_hash hf c = Some h"
    using commit_leaf_level[OF assms(2-6) rh refl, of ld st] by (auto simp: gs comp_def)
  note r = RecursiveCommit_long[OF assms(4-6) rh l]
  have "commit_levels hf ?rh ld k ty st [leaf_level ?rh segs] \<noteq> None" for k
  proof (cases k)
    case (Suc j)
    from l have "1 < length (nb_appended (meta_level ?rh hf ty ?ts))"
      by (simp add: long_level_def meta_level_def)
    with n r(1) Suc show ?thesis by simp
  qed simp
  moreover have "RecursiveCommit hf ?rh ty ld st [leaf_level ?rh segs] = None"
    using RecursiveCommit_step[OF n] r(2) l by (simp add: long_level_def)
  ultimately show ?thesis by blast
qed

definition ex_keys :: "bytes list" where
  "ex_keys = [set_item (replicate 64 1), set_item (replicate 64 2)]"

theorem long_keys_diverge_witness:
  "RecursiveCommit ex_hf (RollingHasher 0 46 64) CT_kSet Map.empty Map.empty
     [leaf_level (RollingHasher 0 46 64) (map meta_seg ex_keys)] = None \<and>
   commit_levels ex_hf (RollingHasher 0 46 64) Map.empty 7 CT_kSet Map.empty
     [leaf_level (RollingHasher 0 46 64) (map meta_seg ex_keys)] \<noteq> None"
proof -
  have lt: "replicate 64 (1 :: byte) < replicate 64 2" by (simp add: numeral_eq_Suc)
  have key: "set_key_of (set_item k) = KeyData k" for k by (simp add: set_key_of_def set_item_def)
  have valid: "set_valid (set_item (replicate 64 b))" for b
    by (auto simp: set_valid_def set_item_ok_def intro!: exI[of _ "replicate 64 b"])
  have "(\<forall>k. commit_levels ex_hf (RollingHasher 0 46 64) Map.empty k CT_kSet Map.empty
            [leaf_level (RollingHasher 0 46 64) (map meta_seg ex_keys)] \<noteq> None) \<and>
    RecursiveCommit ex_hf (RollingHasher 0 46 64) CT_kSet Map.empty Map.empty
      [leaf_level (RollingHasher 0 46 64) (map meta_seg ex_keys)] = None"
  proof (rule long_keys_diverge[OF _ _ refl _ _ ex_hf_digest])
    show "segs_rep (map meta_seg ex_keys) (map (\<lambda>e. [e]) ex_keys)"
      by (simp add: ex_keys_def segs_rep_def meta_seg_rep set_item_def)
    show "input_ok CT_kSet (concat (map (\<lambda>e. [e]) ex_keys))"
      using lt valid by (simp add: input_ok_def leaf_type_def ex_keys_def key key_lt_def)
  qed (auto simp: keyed_type_def params_ok_def ex_keys_def key)
  then show ?thesis by blast
qed

end
