(* ===== verification/Cell.thy ===== *)
theory Cell
  imports Seq_Node
begin

text \<open>
  Versions of a value: \<open>CellNode\<close> (include/node/cell_node.h, src/node/cell_node.cc) and \<open>UCell\<close>
  (include/types/ucell.h, src/types/ucell.cc), with the type tags of include/types/type.h.

  A \<open>Hash\<close> is \<open>None\<close> when it is empty (a null pointer), and the all-zero digest when it is
  \<open>Hash::kNull\<close>.
\<close>

section \<open>Model\<close>

datatype UType = UT_kUnknown | UT_kBool | UT_kNum | UT_kString | UT_kBlob | UT_kList | UT_kSet | UT_kMap

fun UType_byte :: "UType \<Rightarrow> byte" where
  "UType_byte UT_kUnknown = 0"
| "UType_byte UT_kBool = 1"
| "UType_byte UT_kNum = 2"
| "UType_byte UT_kString = 3"
| "UType_byte UT_kBlob = 4"
| "UType_byte UT_kList = 5"
| "UType_byte UT_kSet = 6"
| "UType_byte UT_kMap = 7"

type_synonym hash = "bytes option"

definition kNull :: hash where
  "kNull = Some (replicate kByteLength 0)"

definition kFieldMaxLength :: nat where
  "kFieldMaxLength = 2 ^ 16"

definition kUTypePos :: nat where
  "kUTypePos = 0"

definition kNumPreHashPos :: nat where
  "kNumPreHashPos = kUTypePos + 1"

definition kKeyLengthPos :: nat where
  "kKeyLengthPos = kNumPreHashPos + 1"

definition kDataLengthPos :: nat where
  "kDataLengthPos = kKeyLengthPos + 2"

definition kCtxLengthPos :: nat where
  "kCtxLengthPos = kDataLengthPos + 2"

definition kPreHashPos :: nat where
  "kPreHashPos = kCtxLengthPos + 2"

lemmas cell_pos = kUTypePos_def kNumPreHashPos_def kKeyLengthPos_def kDataLengthPos_def
  kCtxLengthPos_def kPreHashPos_def

lemma cell_pos_val:
  "kUTypePos = 0" "kNumPreHashPos = 1" "kKeyLengthPos = 2" "kDataLengthPos = 4" "kCtxLengthPos = 6"
  "kPreHashPos = 8"
  by (simp_all add: cell_pos)

definition ComputePreHashOffset :: "nat \<Rightarrow> nat" where
  "ComputePreHashOffset idx = kPreHashPos + kByteLength * idx"

definition ComputeKeyOffset :: "nat \<Rightarrow> nat" where
  "ComputeKeyOffset num_pre_hash = ComputePreHashOffset num_pre_hash"

text \<open>The lengths are stored as 16-bit integers.\<close>

definition NewChunk :: "UType \<Rightarrow> bytes \<Rightarrow> bytes \<Rightarrow> bytes \<Rightarrow> hash \<Rightarrow> hash \<Rightarrow> chunk option" where
  "NewChunk type key data ctx preHash1 preHash2 =
     do { pre1 \<leftarrow> preHash1;
          CHECK (length key < kFieldMaxLength);
          CHECK (length data < kFieldMaxLength);
          CHECK (length ctx < kFieldMaxLength);
          let num_pre_hash = (if preHash2 = None then 1 else 2);
          let key_offset = ComputeKeyOffset num_pre_hash;
          let data_offset = key_offset + length key;
          let ctx_offset = data_offset + length data;
          let chunk_len = ctx_offset + length ctx;
          let chunk = Chunk CT_kCell chunk_len;
          chunk \<leftarrow> m_data_write chunk kUTypePos [UType_byte type];
          chunk \<leftarrow> m_data_write chunk kNumPreHashPos (le_bytes 1 num_pre_hash);
          chunk \<leftarrow> m_data_write chunk kKeyLengthPos (le_bytes 2 (length key));
          chunk \<leftarrow> m_data_write chunk kDataLengthPos (le_bytes 2 (length data));
          chunk \<leftarrow> m_data_write chunk kCtxLengthPos (le_bytes 2 (length ctx));
          src \<leftarrow> rd_bytes kByteLength pre1 0;
          chunk \<leftarrow> m_data_write chunk (ComputePreHashOffset 0) src;
          chunk \<leftarrow> (case preHash2 of None \<Rightarrow> Some chunk
                     | Some pre2 \<Rightarrow> do { src \<leftarrow> rd_bytes kByteLength pre2 0;
                                        m_data_write chunk (ComputePreHashOffset 1) src });
          chunk \<leftarrow> m_data_write chunk key_offset key;
          chunk \<leftarrow> m_data_write chunk data_offset data;
          m_data_write chunk ctx_offset ctx }"

text \<open>The readers.  The length of the key is read as an unsigned integer, those of the data and of
  the context as signed ones, and converted to \<open>size_t\<close>.\<close>

definition size_of_int16 :: "nat \<Rightarrow> nat" where
  "size_of_int16 v = (if v < 2 ^ 15 then v else 2 ^ 64 - (2 ^ 16 - v))"

definition cell_type :: "chunk \<Rightarrow> byte option" where
  "cell_type c = nth_opt (chunk_data c) kUTypePos"

definition numPreHash :: "chunk \<Rightarrow> nat option" where
  "numPreHash c = rd 1 (chunk_data c) kNumPreHashPos"

definition keyLength :: "chunk \<Rightarrow> nat option" where
  "keyLength c = rd 2 (chunk_data c) kKeyLengthPos"

definition dataLength :: "chunk \<Rightarrow> nat option" where
  "dataLength c = map_option size_of_int16 (rd 2 (chunk_data c) kDataLengthPos)"

definition ctxLength :: "chunk \<Rightarrow> nat option" where
  "ctxLength c = map_option size_of_int16 (rd 2 (chunk_data c) kCtxLengthPos)"

definition keyOffset :: "chunk \<Rightarrow> nat option" where
  "keyOffset c = map_option ComputeKeyOffset (numPreHash c)"

definition dataOffset :: "chunk \<Rightarrow> nat option" where
  "dataOffset c = do { o1 \<leftarrow> keyOffset c; n \<leftarrow> keyLength c; Some ((o1 + n) mod 2 ^ 64) }"

definition ctxOffset :: "chunk \<Rightarrow> nat option" where
  "ctxOffset c = do { o1 \<leftarrow> dataOffset c; n \<leftarrow> dataLength c; Some ((o1 + n) mod 2 ^ 64) }"

definition cell_preHash :: "chunk \<Rightarrow> nat \<Rightarrow> hash option" where
  "cell_preHash c idx =
     do { n \<leftarrow> numPreHash c;
          if idx \<ge> n then Some None
          else map_option Some (rd_bytes kByteLength (chunk_data c) (ComputePreHashOffset idx)) }"

text \<open>A field as a slice; the slice of an empty field has a null pointer.\<close>

definition cell_field :: "chunk \<Rightarrow> nat option \<Rightarrow> nat option \<Rightarrow> slice option" where
  "cell_field c offset len =
     do { o1 \<leftarrow> offset; n \<leftarrow> len;
          Some (if n = 0 then [] else drop o1 (chunk_data c), n) }"

definition cell_key :: "chunk \<Rightarrow> slice option" where
  "cell_key c = cell_field c (keyOffset c) (keyLength c)"

definition cell_data :: "chunk \<Rightarrow> slice option" where
  "cell_data c = cell_field c (dataOffset c) (dataLength c)"

definition cell_ctx :: "chunk \<Rightarrow> slice option" where
  "cell_ctx c = cell_field c (ctxOffset c) (ctxLength c)"

section \<open>UCell\<close>

text \<open>A \<open>UCell\<close> is empty, or the chunk of its node.  A chunk of another type aborts.\<close>

type_synonym ucell = "chunk option"

definition UCell_of :: "chunk option \<Rightarrow> ucell option" where
  "UCell_of c = (case c of None \<Rightarrow> Some None
     | Some ch \<Rightarrow> do { t \<leftarrow> chunk_type ch; CHECK (t = ChunkType_byte CT_kCell); Some (Some ch) })"

definition UCell_Create :: "(bytes \<Rightarrow> bytes) \<Rightarrow> loader \<Rightarrow> UType \<Rightarrow> bytes \<Rightarrow> bytes \<Rightarrow> bytes \<Rightarrow> hash \<Rightarrow> hash \<Rightarrow>
    (ucell \<times> loader) option" where
  "UCell_Create hf st type key data ctx preHash1 preHash2 =
     do { chunk \<leftarrow> NewChunk type key data ctx preHash1 preHash2;
          h \<leftarrow> chunk_hash hf chunk;
          cell \<leftarrow> UCell_of (Some chunk);
          Some (cell, st(h \<mapsto> chunk)) }"

text \<open>For chunkable types the data is the root hash.\<close>

definition UCell_Create_hash :: "(bytes \<Rightarrow> bytes) \<Rightarrow> loader \<Rightarrow> UType \<Rightarrow> bytes \<Rightarrow> hash \<Rightarrow> bytes \<Rightarrow> hash \<Rightarrow> hash \<Rightarrow>
    (ucell \<times> loader) option" where
  "UCell_Create_hash hf st type key root ctx preHash1 preHash2 =
     do { p \<leftarrow> root;
          data \<leftarrow> rd_bytes kByteLength p 0;
          UCell_Create hf st type key data ctx preHash1 preHash2 }"

definition UCell_Load :: "loader \<Rightarrow> hash \<Rightarrow> ucell option" where
  "UCell_Load st h = do { k \<leftarrow> h; UCell_of (st k) }"

definition merged :: "chunk \<Rightarrow> bool option" where
  "merged c = map_option (\<lambda>n. n = 2) (numPreHash c)"

definition dataHash :: "chunk \<Rightarrow> hash option" where
  "dataHash c =
     do { t \<leftarrow> cell_type c;
          if t = UType_byte UT_kBlob \<or> t = UType_byte UT_kList \<or> t = UType_byte UT_kMap \<or> t = UType_byte UT_kSet
          then do { s \<leftarrow> cell_data c; if fst s = [] then Some None
                    else map_option Some (rd_bytes kByteLength (fst s) 0) }
          else Some None }"

section \<open>The layout\<close>

definition cell_payload :: "UType \<Rightarrow> bytes \<Rightarrow> bytes \<Rightarrow> bytes \<Rightarrow> bytes \<Rightarrow> bytes option \<Rightarrow> bytes" where
  "cell_payload type key data ctx pre1 pre2 =
     UType_byte type # le_bytes 1 (if pre2 = None then 1 else 2) @ le_bytes 2 (length key) @
     le_bytes 2 (length data) @ le_bytes 2 (length ctx) @ pre1 @ (case pre2 of None \<Rightarrow> [] | Some p \<Rightarrow> p) @
     key @ data @ ctx"

definition hash_ok :: "hash \<Rightarrow> bool" where
  "hash_ok h = (case h of None \<Rightarrow> True | Some p \<Rightarrow> length p = kByteLength)"

text \<open>The buffer of a cell whose first bytes have been written.\<close>

definition cell_buf :: "bytes \<Rightarrow> nat \<Rightarrow> chunk" where
  "cell_buf pre n = chunk_of CT_kCell (pre @ replicate n 0)"

lemma cell_buf_write [bufs]:
  "length pre = off \<Longrightarrow> length src \<le> n \<Longrightarrow>
   m_data_write (cell_buf pre n) off src = Some (cell_buf (pre @ src) (n - length src))"
  by (simp add: cell_buf_def m_data_write_chunk_of)

lemma cell_buf_init: "kMetaLength + n < 2 ^ 32 \<Longrightarrow> Chunk CT_kCell n = cell_buf [] n"
  by (simp add: cell_buf_def Chunk_eq_chunk_of)

lemma cell_buf_full: "cell_buf pre 0 = chunk_of CT_kCell pre"
  by (simp add: cell_buf_def)

lemma rd_digest: "length p = kByteLength \<Longrightarrow> rd_bytes kByteLength p 0 = Some p"
  by (simp add: rd_bytes_def)

lemma NewChunk_eq:
  assumes "length key < 2 ^ 16" and "length data < 2 ^ 16" and "length ctx < 2 ^ 16"
    and "length pre1 = kByteLength" and "hash_ok pre2"
  shows "NewChunk type key data ctx (Some pre1) pre2 =
    Some (chunk_of CT_kCell (cell_payload type key data ctx pre1 pre2))"
proof (cases pre2)
  case None
  with assms show ?thesis
    by (simp add: NewChunk_def cell_buf_init kMetaLength_def ComputePreHashOffset_def ComputeKeyOffset_def
        cell_pos cell_buf_write rd_digest[unfolded kByteLength_def] kFieldMaxLength_def cell_payload_def
        cell_buf_full kByteLength_def del: le_bytes.simps)
next
  case (Some p)
  with assms show ?thesis
    by (simp add: NewChunk_def cell_buf_init kMetaLength_def ComputePreHashOffset_def ComputeKeyOffset_def
        cell_pos cell_buf_write rd_digest[unfolded kByteLength_def] kFieldMaxLength_def cell_payload_def
        cell_buf_full hash_ok_def kByteLength_def del: le_bytes.simps)
qed

text \<open>The readers on a cell of this layout.\<close>

lemma cell_header:
  fixes type key data ctx pre1 pre2
  defines "c \<equiv> chunk_of CT_kCell (cell_payload type key data ctx pre1 pre2)"
  shows "cell_type c = Some (UType_byte type)"
    and "numPreHash c = Some (if pre2 = None then 1 else 2)"
    and "keyLength c = Some (length key mod 2 ^ 16)"
    and "dataLength c = Some (size_of_int16 (length data mod 2 ^ 16))"
    and "ctxLength c = Some (size_of_int16 (length ctx mod 2 ^ 16))"
proof -
  let ?n = "if pre2 = None then 1 else 2 :: nat"
  let ?h = "[UType_byte type]" and ?n1 = "le_bytes 1 ?n" and ?k = "le_bytes 2 (length key)"
    and ?d = "le_bytes 2 (length data)" and ?x = "le_bytes 2 (length ctx)"
  let ?r = "pre1 @ (case pre2 of None \<Rightarrow> [] | Some p \<Rightarrow> p) @ key @ data @ ctx"
  have p: "cell_payload type key data ctx pre1 pre2 = ?h @ ?n1 @ ?k @ ?d @ ?x @ ?r"
    by (simp add: cell_payload_def del: le_bytes.simps)
  have a: "rd 1 (?h @ ?n1 @ (?k @ ?d @ ?x @ ?r)) 1 = Some (?n mod 256 ^ 1)" by (rule rd_append) simp
  have b: "rd 2 ((?h @ ?n1) @ ?k @ (?d @ ?x @ ?r)) 2 = Some (length key mod 256 ^ 2)"
    by (rule rd_append) simp
  have d: "rd 2 ((?h @ ?n1 @ ?k) @ ?d @ (?x @ ?r)) 4 = Some (length data mod 256 ^ 2)"
    by (rule rd_append) (simp del: le_bytes.simps)
  have e: "rd 2 ((?h @ ?n1 @ ?k @ ?d) @ ?x @ ?r) 6 = Some (length ctx mod 256 ^ 2)"
    by (rule rd_append) (simp del: le_bytes.simps)
  show "cell_type c = Some (UType_byte type)"
    by (simp add: cell_type_def c_def cell_payload_def kUTypePos_def nth_opt_def)
  show "numPreHash c = Some ?n" using a unfolding numPreHash_def c_def chunk_data_of p cell_pos_val by (simp del: le_bytes.simps)
  show "keyLength c = Some (length key mod 2 ^ 16)"
    using b unfolding keyLength_def c_def chunk_data_of p cell_pos_val append_assoc by (simp del: le_bytes.simps)
  show "dataLength c = Some (size_of_int16 (length data mod 2 ^ 16))"
    using d unfolding dataLength_def c_def chunk_data_of p cell_pos_val append_assoc by (simp del: le_bytes.simps)
  show "ctxLength c = Some (size_of_int16 (length ctx mod 2 ^ 16))"
    using e unfolding ctxLength_def c_def chunk_data_of p cell_pos_val append_assoc by (simp del: le_bytes.simps)
qed

lemma size_of_int16_small [simp]: "n < 2 ^ 15 \<Longrightarrow> size_of_int16 n = n"
  by (simp add: size_of_int16_def)

definition slice_is :: "slice \<Rightarrow> bytes \<Rightarrow> bool" where
  "slice_is s x \<longleftrightarrow> snd s = length x \<and> slice_bytes s = Some x"

lemma cell_field_eq:
  assumes "chunk_data c = pre @ x @ post" and "length pre = o1"
  shows "\<exists>s. cell_field c (Some o1) (Some (length x)) = Some s \<and> slice_is s x"
  using assms by (auto simp: cell_field_def slice_is_def slice_bytes_def rd_bytes_def)

lemma cell_fields:
  fixes type key data ctx pre1 pre2
  defines "c \<equiv> chunk_of CT_kCell (cell_payload type key data ctx pre1 pre2)"
  assumes "length key < 2 ^ 16" and "length data < 2 ^ 15" and "length ctx < 2 ^ 15"
    and "length pre1 = kByteLength" and "hash_ok pre2"
  shows "\<exists>s. cell_key c = Some s \<and> slice_is s key"
    and "\<exists>s. cell_data c = Some s \<and> slice_is s data"
    and "\<exists>s. cell_ctx c = Some s \<and> slice_is s ctx"
    and "cell_preHash c 0 = Some (Some pre1)" and "cell_preHash c 1 = Some pre2"
proof -
  let ?n = "if pre2 = None then 1 else 2 :: nat"
  let ?hd = "UType_byte type # le_bytes 1 ?n @ le_bytes 2 (length key) @ le_bytes 2 (length data) @
      le_bytes 2 (length ctx)" and ?p2 = "case pre2 of None \<Rightarrow> [] | Some p \<Rightarrow> p"
  let ?pre = "?hd @ pre1 @ ?p2"
  have d: "chunk_data c = ?pre @ key @ data @ ctx"
    by (simp add: c_def cell_payload_def del: le_bytes.simps)
  have hd: "length ?hd = 8" by (simp del: le_bytes.simps)
  have len: "length ?pre = ComputeKeyOffset ?n"
    using assms(5,6) hd by (auto simp: ComputeKeyOffset_def ComputePreHashOffset_def cell_pos_val hash_ok_def
        simp del: le_bytes.simps split: option.splits)
  have k: "keyOffset c = Some (length ?pre)"
    using cell_header(2)[of type key data ctx pre1 pre2] len by (simp add: keyOffset_def c_def)
  have pre: "length ?pre \<le> 48" using len by (simp add: ComputeKeyOffset_def ComputePreHashOffset_def cell_pos_val kByteLength_def)
  have dof: "dataOffset c = Some (length (?pre @ key))"
    using cell_header(3)[of type key data ctx pre1 pre2] k pre assms(2) by (simp add: dataOffset_def c_def)
  have xof: "ctxOffset c = Some (length (?pre @ key @ data))"
    using cell_header(4)[of type key data ctx pre1 pre2] dof pre assms(2,3) by (simp add: ctxOffset_def c_def)
  show "\<exists>s. cell_key c = Some s \<and> slice_is s key"
    using cell_field_eq[OF d refl] cell_header(3)[of type key data ctx pre1 pre2] k assms(2)
    by (simp add: cell_key_def c_def)
  have "chunk_data c = (?pre @ key) @ data @ ctx" using d by simp
  from cell_field_eq[OF this refl] show "\<exists>s. cell_data c = Some s \<and> slice_is s data"
    using cell_header(4)[of type key data ctx pre1 pre2] dof assms(3) by (simp add: cell_data_def c_def)
  have "chunk_data c = (?pre @ key @ data) @ ctx @ []" using d by simp
  from cell_field_eq[OF this refl] show "\<exists>s. cell_ctx c = Some s \<and> slice_is s ctx"
    using cell_header(5)[of type key data ctx pre1 pre2] xof assms(4) by (simp add: cell_ctx_def c_def)
  have "chunk_data c = ?hd @ pre1 @ (?p2 @ key @ data @ ctx)" using d by simp
  then have "rd_bytes kByteLength (chunk_data c) 8 = Some pre1"
    using rd_bytes_append[OF hd assms(5)] by simp
  then show "cell_preHash c 0 = Some (Some pre1)"
    using cell_header(2)[of type key data ctx pre1 pre2]
    by (simp add: cell_preHash_def c_def ComputePreHashOffset_def cell_pos_val)
  show "cell_preHash c 1 = Some pre2"
  proof (cases pre2)
    case None
    then show ?thesis using cell_header(2)[of type key data ctx pre1 pre2] by (simp add: cell_preHash_def c_def)
  next
    case (Some p)
    have "chunk_data c = (?hd @ pre1) @ p @ (key @ data @ ctx)" using d Some by simp
    moreover have "length (?hd @ pre1) = 8 + kByteLength" using hd assms(5) by simp
    ultimately have "rd_bytes kByteLength (chunk_data c) (8 + kByteLength) = Some p"
      using rd_bytes_append[of "?hd @ pre1" "8 + kByteLength" p kByteLength] assms(6) Some
      by (simp add: hash_ok_def)
    then show ?thesis
      using cell_header(2)[of type key data ctx pre1 pre2] Some
      by (simp add: cell_preHash_def c_def ComputePreHashOffset_def cell_pos_val)
  qed
qed

lemma cell_payload_length:
  "hash_ok pre2 \<Longrightarrow> length pre1 = kByteLength \<Longrightarrow> length (cell_payload type key data ctx pre1 pre2) \<le>
     48 + length key + length data + length ctx"
  by (auto simp: cell_payload_def hash_ok_def kByteLength_def split: option.splits)

abbreviation cell_chunk :: "UType \<Rightarrow> bytes \<Rightarrow> bytes \<Rightarrow> bytes \<Rightarrow> bytes \<Rightarrow> bytes option \<Rightarrow> chunk" where
  "cell_chunk type key data ctx pre1 pre2 \<equiv> chunk_of CT_kCell (cell_payload type key data ctx pre1 pre2)"

lemma UCell_Create_eq:
  assumes "length key < 2 ^ 16" and "length data < 2 ^ 16" and "length ctx < 2 ^ 16"
    and "length pre1 = kByteLength" and "hash_ok pre2"
  shows "UCell_Create hf st type key data ctx (Some pre1) pre2 =
      Some (Some (cell_chunk type key data ctx pre1 pre2),
        st(hf (cell_chunk type key data ctx pre1 pre2) \<mapsto> cell_chunk type key data ctx pre1 pre2))"
    and "chunk_hash hf (cell_chunk type key data ctx pre1 pre2) = Some (hf (cell_chunk type key data ctx pre1 pre2))"
proof -
  have "chunk_fits (cell_payload type key data ctx pre1 pre2)"
    using cell_payload_length[OF assms(5,4), of type key data ctx] assms
    by (simp add: chunk_fits_def kMetaLength_def)
  then show "chunk_hash hf (cell_chunk type key data ctx pre1 pre2) = Some (hf (cell_chunk type key data ctx pre1 pre2))"
    by simp
  then show "UCell_Create hf st type key data ctx (Some pre1) pre2 =
      Some (Some (cell_chunk type key data ctx pre1 pre2),
        st(hf (cell_chunk type key data ctx pre1 pre2) \<mapsto> cell_chunk type key data ctx pre1 pre2))"
    by (simp add: UCell_Create_def NewChunk_eq[OF assms] UCell_of_def)
qed

section \<open>Properties\<close>

text \<open>C26.  A version cell gives back what it was made of: the type, the key, the data, the context and
  the one or two previous versions, for keys shorter than 65536 bytes and data and contexts
  shorter than 32768 bytes; loading it by its hash finds the same cell.\<close>

theorem ucell_roundtrip:
  assumes "length key < 2 ^ 16" and "length data < 2 ^ 15" and "length ctx < 2 ^ 15"
    and "length pre1 = kByteLength" and "hash_ok pre2"
  shows "\<exists>c st' k d x. UCell_Create hf st type key data ctx (Some pre1) pre2 = Some (Some c, st') \<and>
    UCell_Load st' (Some (hf c)) = Some (Some c) \<and>
    cell_type c = Some (UType_byte type) \<and> cell_key c = Some k \<and> slice_is k key \<and>
    cell_data c = Some d \<and> slice_is d data \<and> cell_ctx c = Some x \<and> slice_is x ctx \<and>
    cell_preHash c 0 = Some (Some pre1) \<and> cell_preHash c 1 = Some pre2"
proof -
  let ?c = "chunk_of CT_kCell (cell_payload type key data ctx pre1 pre2)"
  have "UCell_Create hf st type key data ctx (Some pre1) pre2 = Some (Some ?c, st(hf ?c \<mapsto> ?c))"
    by (rule UCell_Create_eq) (use assms in simp_all)
  moreover have "UCell_Load (st(hf ?c \<mapsto> ?c)) (Some (hf ?c)) = Some (Some ?c)"
    by (simp add: UCell_Load_def UCell_of_def)
  ultimately show ?thesis
    using cell_fields[OF assms, of type] cell_header(1)[of type key data ctx pre1 pre2] by blast
qed

theorem ucell_roundtrip_witness:
  "\<exists>c st' k d x. UCell_Create (\<lambda>x. x) Map.empty UT_kString [1, 2] [3] [4] (Some (replicate 20 0)) None = Some (Some c, st') \<and>
    UCell_Load st' (Some c) = Some (Some c) \<and>
    cell_type c = Some 3 \<and> cell_key c = Some k \<and> slice_is k [1, 2] \<and>
    cell_data c = Some d \<and> slice_is d [3] \<and> cell_ctx c = Some x \<and> slice_is x [4] \<and>
    cell_preHash c 0 = Some (Some (replicate 20 0)) \<and> cell_preHash c 1 = Some None"
  using ucell_roundtrip[of "[1, 2]" "[3]" "[4]" "replicate 20 0" None "\<lambda>x. x" Map.empty UT_kString]
  by (simp add: kByteLength_def hash_ok_def)

text \<open>C39.  Data of 32768 to 65535 bytes passes the checks of \<open>NewChunk\<close>, which only reject lengths
  from 65536 on, but its length is read back as a number close to \<open>2^64\<close>: it is stored in a signed
  16-bit integer.\<close>

theorem cell_data_length_wraps:
  assumes "length key < 2 ^ 16" and "2 ^ 15 \<le> length data" and "length data < 2 ^ 16"
    and "length ctx < 2 ^ 16" and "length pre1 = kByteLength" and "hash_ok pre2"
  shows "\<exists>c. NewChunk type key data ctx (Some pre1) pre2 = Some c \<and>
    dataLength c = Some (2 ^ 64 - (2 ^ 16 - length data))"
  using NewChunk_eq[OF assms(1,3,4,5,6), of type] cell_header(4)[of type key data ctx pre1 pre2] assms(2,3)
  by (simp add: size_of_int16_def)

theorem cell_data_length_wraps_witness:
  "\<exists>c. NewChunk UT_kString [1] (replicate 40000 0) [] (Some (replicate 20 0)) None = Some c \<and>
    dataLength c = Some (2 ^ 64 - (2 ^ 16 - 40000))"
  using cell_data_length_wraps[of "[1]" "replicate 40000 0" "[]" "replicate 20 0" None UT_kString]
  by (simp add: kByteLength_def hash_ok_def)

end
