(* ===== verification/Hash_Base32.thy ===== *)
theory Hash_Base32
  imports Cell
begin

text \<open>
  The base32 form of a hash: \<open>Hash::ToBase32\<close> and \<open>Hash::FromBase32\<close> of src/hash/hash.cc.  A
  digest of 20 bytes is four blocks of 5 bytes, each written as 8 characters.
\<close>

section \<open>Model\<close>

definition base32alphabet :: string where
  "base32alphabet = ''ABCDEFGHIJKLMNOPQRSTUVWXYZ234567''"

definition base32dict :: "char \<rightharpoonup> nat" where
  "base32dict = map_of
     [(CHR ''A'', 0), (CHR ''B'', 1), (CHR ''C'', 2), (CHR ''D'', 3), (CHR ''E'', 4), (CHR ''F'', 5),
      (CHR ''G'', 6), (CHR ''H'', 7), (CHR ''I'', 8), (CHR ''J'', 9), (CHR ''K'', 10), (CHR ''L'', 11),
      (CHR ''M'', 12), (CHR ''N'', 13), (CHR ''O'', 14), (CHR ''P'', 15), (CHR ''Q'', 16), (CHR ''R'', 17),
      (CHR ''S'', 18), (CHR ''T'', 19), (CHR ''U'', 20), (CHR ''V'', 21), (CHR ''W'', 22), (CHR ''X'', 23),
      (CHR ''Y'', 24), (CHR ''Z'', 25), (CHR ''2'', 26), (CHR ''3'', 27), (CHR ''4'', 28), (CHR ''5'', 29),
      (CHR ''6'', 30), (CHR ''7'', 31)]"

definition kBase32Length :: nat where
  "kBase32Length = 32"

text \<open>What can go wrong in \<open>FromBase32\<close>: a wrong length aborts, a character outside the alphabet
  throws.\<close>

datatype base32_error = WrongLength | WrongChar

text \<open>The loop that collects eight characters in \<open>tmp\<close>, a \<open>uint64_t\<close>.\<close>

fun from32_chars :: "nat \<Rightarrow> string \<Rightarrow> base32_error + nat" where
  "from32_chars tmp [] = Inr tmp"
| "from32_chars tmp (c # cs) =
     (case base32dict c of None \<Rightarrow> Inl WrongChar
      | Some v \<Rightarrow> from32_chars ((tmp * 2 ^ 5 + v) mod 2 ^ 64) cs)"

text \<open>The loop that stores the five low bytes of \<open>tmp\<close>, the lowest at the back.\<close>

fun from32_bytes :: "nat \<Rightarrow> nat \<Rightarrow> bytes" where
  "from32_bytes 0 tmp = []"
| "from32_bytes (Suc k) tmp = from32_bytes k (tmp div 2 ^ 8) @ [word_of_nat tmp]"

fun from32_blocks :: "nat list \<Rightarrow> string \<Rightarrow> base32_error + bytes" where
  "from32_blocks [] s = Inr []"
| "from32_blocks (i # is) s =
     (case from32_chars 0 (take 8 (drop i s)) of Inl e \<Rightarrow> Inl e
      | Inr tmp \<Rightarrow>
          (case from32_blocks is s of Inl e \<Rightarrow> Inl e
           | Inr bs \<Rightarrow> Inr (from32_bytes 5 tmp @ bs)))"

definition FromBase32 :: "string \<Rightarrow> base32_error + bytes" where
  "FromBase32 base32 =
     (if length base32 \<noteq> kBase32Length then Inl WrongLength
      else from32_blocks [0, 8, 16, 24] base32)"

text \<open>The variant with an error code, which catches what \<open>FromBase32\<close> throws; the check of the
  length still aborts.\<close>

definition FromBase32_ec :: "string \<Rightarrow> bytes option option" where
  "FromBase32_ec base32 =
     (case FromBase32 base32 of Inl WrongLength \<Rightarrow> None | Inl WrongChar \<Rightarrow> Some None
      | Inr h \<Rightarrow> Some (Some h))"

fun to32_bytes :: "nat \<Rightarrow> bytes \<Rightarrow> nat" where
  "to32_bytes tmp [] = tmp"
| "to32_bytes tmp (b # bs) = to32_bytes ((tmp * 2 ^ 8 + unat b) mod 2 ^ 64) bs"

text \<open>The loop over the eight characters of a block; the index is truncated to eight bits.\<close>

fun to32_chars :: "nat \<Rightarrow> nat list \<Rightarrow> string option" where
  "to32_chars tmp [] = Some []"
| "to32_chars tmp (j # js) =
     do { c \<leftarrow> nth_opt base32alphabet (tmp div 2 ^ (5 * (7 - j)) mod 2 ^ 8);
          cs \<leftarrow> to32_chars (tmp mod 2 ^ (5 * (7 - j))) js;
          Some (c # cs) }"

declare to32_chars.simps(2) [simp del]

definition block_chars :: "nat list" where
  "block_chars = [0..<8]"

fun to32_blocks :: "nat list \<Rightarrow> bytes \<Rightarrow> string option" where
  "to32_blocks [] h = Some []"
| "to32_blocks (i # is) h =
     do { bs \<leftarrow> rd_bytes 5 h i;
          s \<leftarrow> to32_chars (to32_bytes 0 bs) block_chars;
          rest \<leftarrow> to32_blocks is h;
          Some (s @ rest) }"

definition ToBase32 :: "hash \<Rightarrow> string option" where
  "ToBase32 h = (case h of None \<Rightarrow> Some [] | Some p \<Rightarrow> to32_blocks [0, 5, 10, 15] p)"

section \<open>Numbers in a base\<close>

fun be_val :: "nat \<Rightarrow> nat \<Rightarrow> nat list \<Rightarrow> nat" where
  "be_val b t [] = t"
| "be_val b t (d # ds) = be_val b (t * b + d) ds"

fun be_digits :: "nat \<Rightarrow> nat \<Rightarrow> nat \<Rightarrow> nat list" where
  "be_digits b 0 n = []"
| "be_digits b (Suc k) n = n div b ^ k # be_digits b k (n mod b ^ k)"

lemma be_val_shift: "be_val b t ds = t * b ^ length ds + be_val b 0 ds"
proof (induction ds arbitrary: t)
  case (Cons d ds)
  show ?case
    using Cons[of "t * b + d"] Cons[of d] by (simp add: algebra_simps)
qed simp

lemma be_val_less:
  assumes "\<forall>d \<in> set ds. d < b"
  shows "be_val b 0 ds < b ^ length ds"
  using assms
proof (induction ds)
  case (Cons d ds)
  then have "Suc d * b ^ length ds \<le> b * b ^ length ds" by (intro mult_le_mono1) simp
  with Cons be_val_shift[of b d ds] show ?case by simp
qed simp

lemma be_val_digits: "n < b ^ k \<Longrightarrow> be_val b t (be_digits b k n) = t * b ^ k + n"
proof (induction k arbitrary: t n)
  case (Suc k)
  have "0 < b ^ k" using Suc.prems by (cases "b = 0") auto
  then have "n mod b ^ k < b ^ k" by simp
  from Suc.IH[OF this] have "be_val b t (be_digits b (Suc k) n) =
      (t * b + n div b ^ k) * b ^ k + n mod b ^ k" by simp
  also have "\<dots> = t * b ^ Suc k + (n div b ^ k * b ^ k + n mod b ^ k)" by (simp only: algebra_simps power_Suc)
  finally show ?case by (simp only: div_mult_mod_eq)
qed simp

lemma be_digits_val:
  assumes "\<forall>d \<in> set ds. d < b"
  shows "be_digits b (length ds) (be_val b 0 ds) = ds"
  using assms
proof (induction ds)
  case (Cons d ds)
  have "be_val b 0 ds < b ^ length ds" using Cons.prems by (intro be_val_less) simp
  with Cons be_val_shift[of b d ds] show ?case by simp
qed simp

lemma length_be_digits [simp]: "length (be_digits b k n) = k"
  by (induction b k n rule: be_digits.induct) auto

lemma be_digits_less:
  assumes "n < b ^ k" and "d \<in> set (be_digits b k n)"
  shows "d < b"
  using assms
proof (induction k arbitrary: n)
  case (Suc k)
  then have "0 < b ^ k" by (cases "b = 0") auto
  then have "n mod b ^ k < b ^ k" by simp
  moreover have "n div b ^ k < b" using Suc.prems(1) by (simp add: less_mult_imp_div_less)
  ultimately show ?case using Suc.IH[of "n mod b ^ k"] Suc.prems(2) by auto
qed simp

lemma be_val_inj:
  assumes "be_val b 0 ds = be_val b 0 es" and "length ds = length es"
    and "\<forall>d \<in> set ds. d < b" and "\<forall>d \<in> set es. d < b"
  shows "ds = es"
proof -
  have "ds = be_digits b (length ds) (be_val b 0 ds)" by (rule be_digits_val[OF assms(3), symmetric])
  also have "\<dots> = be_digits b (length es) (be_val b 0 es)" by (simp only: assms(1,2))
  also have "\<dots> = es" by (rule be_digits_val[OF assms(4)])
  finally show ?thesis .
qed

lemma be_val_snoc: "be_val b t (ds @ [d]) = be_val b t ds * b + d"
  by (induction ds arbitrary: t) auto

lemma be_val_ge: "0 < b \<Longrightarrow> t \<le> be_val b t ds"
proof (induction ds arbitrary: t)
  case (Cons d ds)
  have "t \<le> t * b" using Cons.prems by simp
  also have "\<dots> \<le> be_val b (t * b + d) ds" using Cons.IH[OF Cons.prems, of "t * b + d"] by linarith
  finally show ?case by simp
qed simp

section \<open>A block\<close>

lemma from32_bytes_val: "be_val 256 0 (map unat (from32_bytes k n)) = n mod 256 ^ k"
proof (induction k arbitrary: n)
  case (Suc k)
  have "be_val 256 0 (map unat (from32_bytes (Suc k) n)) = n div 256 mod 256 ^ k * 256 + n mod 256"
    using Suc[of "n div 256"] by (simp add: be_val_snoc unat_byte_of_nat)
  also have "\<dots> = n mod 256 ^ Suc k" by (simp add: mod_mult2_eq)
  finally show ?case .
qed simp

lemma length_from32_bytes [simp]: "length (from32_bytes k n) = k"
  by (induction k n rule: from32_bytes.induct) auto

lemma from32_bytes_0: "from32_bytes k 0 = replicate k 0"
  by (induction k) (simp_all add: replicate_append_same)

lemma to32_bytes_val:
  "be_val 256 tmp (map unat bs) < 2 ^ 64 \<Longrightarrow> to32_bytes tmp bs = be_val 256 tmp (map unat bs)"
proof (induction tmp bs rule: to32_bytes.induct)
  case (2 tmp b bs)
  have "tmp * 256 + unat b \<le> be_val 256 (tmp * 256 + unat b) (map unat bs)"
    by (rule be_val_ge) simp
  with 2 show ?case by simp
qed simp

lemma block_bound: "length bs = 5 \<Longrightarrow> be_val 256 0 (map unat (bs :: bytes)) < 2 ^ 40"
  using be_val_less[of "map unat bs" 256] by simp

lemma from32_to32_bytes:
  assumes "length bs = 5"
  shows "from32_bytes 5 (to32_bytes 0 bs) = bs"
proof -
  note b = block_bound[OF assms]
  then have t: "to32_bytes 0 bs = be_val 256 0 (map unat bs)" by (intro to32_bytes_val) simp
  have "map unat (from32_bytes 5 (to32_bytes 0 bs)) = map unat bs"
    by (rule be_val_inj[where b = 256]) (use b assms in \<open>simp_all add: from32_bytes_val t\<close>)
  then show ?thesis by (rule map_injective) (simp add: inj_def word_unat_eq_iff)
qed

lemma to32_from32_bytes: "n < 2 ^ 40 \<Longrightarrow> to32_bytes 0 (from32_bytes 5 n) = n"
  by (subst to32_bytes_val) (simp_all add: from32_bytes_val)

lemma dict_alphabet: "d < 32 \<Longrightarrow> base32dict (base32alphabet ! d) = Some d"
proof -
  have "list_all (\<lambda>d. base32dict (base32alphabet ! d) = Some d) [0..<32]" by code_simp
  then show "d < 32 \<Longrightarrow> base32dict (base32alphabet ! d) = Some d"
    by (simp only: list_all_iff set_upt) simp
qed

lemma alphabet_dict: "base32dict c = Some v \<Longrightarrow> v < 32 \<and> base32alphabet ! v = c"
  unfolding base32dict_def by (drule map_of_SomeD) (auto simp: base32alphabet_def)

lemma from32_chars_digits:
  "\<forall>d \<in> set ds. d < 32 \<Longrightarrow> be_val 32 t ds < 2 ^ 64 \<Longrightarrow>
   from32_chars t (map (nth base32alphabet) ds) = Inr (be_val 32 t ds)"
proof (induction ds arbitrary: t)
  case (Cons d ds)
  have "t * 32 + d \<le> be_val 32 (t * 32 + d) ds" by (rule be_val_ge) simp
  with Cons show ?case by (simp add: dict_alphabet)
qed simp

lemma from32_chars_Inr:
  assumes "from32_chars t cs = Inr n" and "\<forall>ds. length ds = length cs \<longrightarrow> (\<forall>d \<in> set ds. d < 32) \<longrightarrow>
      be_val 32 t ds < 2 ^ 64"
  shows "\<exists>ds. cs = map (nth base32alphabet) ds \<and> (\<forall>d \<in> set ds. d < 32) \<and> n = be_val 32 t ds"
  using assms
proof (induction cs arbitrary: t)
  case (Cons c cs)
  then obtain v where v: "base32dict c = Some v" by (auto split: option.splits)
  note a = alphabet_dict[OF v]
  have b: "be_val 32 (t * 32 + v) ds < 2 ^ 64" if "length ds = length cs" "\<forall>d \<in> set ds. d < 32" for ds
    using Cons.prems(2)[THEN spec, of "v # ds"] that a by simp
  have "t * 32 + v \<le> be_val 32 (t * 32 + v) (replicate (length cs) 0)" by (rule be_val_ge) simp
  moreover have "be_val 32 (t * 32 + v) (replicate (length cs) 0) < 2 ^ 64" by (rule b) auto
  ultimately have "t * 32 + v < 2 ^ 64" by linarith
  with Cons.prems(1) v have "from32_chars (t * 32 + v) cs = Inr n" by simp
  from Cons.IH[OF this] b obtain ds where "cs = map (nth base32alphabet) ds" "\<forall>d \<in> set ds. d < 32"
    "n = be_val 32 (t * 32 + v) ds" by auto
  with a show ?case by (intro exI[of _ "v # ds"]) auto
qed auto

lemma to32_chars_digits:
  "k \<le> 8 \<Longrightarrow> n < 32 ^ k \<Longrightarrow> to32_chars n [8 - k..<8] = Some (map (nth base32alphabet) (be_digits 32 k n))"
proof (induction k arbitrary: n)
  case (Suc k)
  have "Suc (8 - Suc k) = 8 - k" using Suc.prems(1) by simp
  then have j: "[8 - Suc k..<8] = (8 - Suc k) # [8 - k..<8]"
    using upt_conv_Cons[of "8 - Suc k" 8] Suc.prems(1) by simp
  have e: "5 * (7 - (8 - Suc k)) = 5 * k" using Suc.prems(1) by simp
  have p: "(2 :: nat) ^ (5 * k) = 32 ^ k" by (simp add: power_mult)
  have d: "n div 32 ^ k < 32" using Suc.prems(2) by (simp add: less_mult_imp_div_less)
  have m: "n mod 32 ^ k < 32 ^ k" by simp
  have "nth_opt base32alphabet (n div 32 ^ k mod 2 ^ 8) = Some (base32alphabet ! (n div 32 ^ k))"
    using d by (simp add: nth_opt_def base32alphabet_def)
  with Suc.IH[OF _ m] Suc.prems(1) show ?case
    unfolding j to32_chars.simps(2) e p by simp
qed simp

lemma to32_chars_eq:
  "n < 2 ^ 40 \<Longrightarrow> to32_chars n block_chars = Some (map (nth base32alphabet) (be_digits 32 8 n))"
  using to32_chars_digits[of 8 n] by (simp add: block_chars_def)

text \<open>Blocks in both directions.\<close>

lemma block_to_from:
  assumes "length bs = 5"
  obtains s where "to32_chars (to32_bytes 0 bs) block_chars = Some s" "length s = 8"
    "from32_chars 0 s = Inr (to32_bytes 0 bs)"
proof -
  let ?n = "to32_bytes 0 bs"
  have n: "?n < 2 ^ 40" using block_bound[OF assms] to32_bytes_val[of 0 bs] by simp
  have "from32_chars 0 (map (nth base32alphabet) (be_digits 32 8 ?n)) = Inr (be_val 32 0 (be_digits 32 8 ?n))"
    by (rule from32_chars_digits) (use n be_digits_less[of ?n 32 8] in \<open>auto simp: be_val_digits\<close>)
  with to32_chars_eq[OF n] n show thesis by (intro that) (simp_all add: be_val_digits)
qed

lemma block_from_to:
  assumes "from32_chars 0 s = Inr n" and "length s = 8"
  shows "n < 2 ^ 40" and "to32_chars n block_chars = Some s"
proof -
  have bound: "be_val 32 0 ds < 2 ^ 40" if "length ds = 8" "\<forall>d \<in> set ds. d < 32" for ds
    using be_val_less[OF that(2)] that(1) by simp
  have "be_val 32 0 ds < 2 ^ 64" if "length ds = 8" "\<forall>d \<in> set ds. d < 32" for ds
    using bound[OF that] by simp
  with from32_chars_Inr[OF assms(1)] assms(2) obtain ds where
    ds: "s = map (nth base32alphabet) ds" "\<forall>d \<in> set ds. d < 32" "n = be_val 32 0 ds" by auto
  show n: "n < 2 ^ 40" using bound[of ds] ds assms(2) by simp
  show "to32_chars n block_chars = Some s"
    using to32_chars_eq[OF n] be_digits_val[OF ds(2)] ds assms(2) by simp
qed

lemma split4: "length xs = 4 * k \<Longrightarrow>
  \<exists>a b c d. xs = a @ b @ c @ d \<and> length a = k \<and> length b = k \<and> length c = k \<and> length d = k"
  by (rule exI[of _ "take k xs"], rule exI[of _ "take k (drop k xs)"],
      rule exI[of _ "take k (drop k (drop k xs))"], rule exI[of _ "drop k (drop k (drop k xs))"])
     (simp del: drop_drop)

lemma from32_chars_Inl: "from32_chars t cs = Inl e \<longleftrightarrow> e = WrongChar \<and> (\<exists>c \<in> set cs. base32dict c = None)"
  by (induction t cs rule: from32_chars.induct) (auto split: option.split)

lemma from32_blocks_Inl:
  "from32_blocks is s = Inl e \<longleftrightarrow>
   e = WrongChar \<and> (\<exists>i \<in> set is. \<exists>c \<in> set (take 8 (drop i s)). base32dict c = None)"
proof (induction "is")
  case (Cons i "is")
  show ?case
  proof (cases "from32_chars 0 (take 8 (drop i s))")
    case (Inl e')
    then show ?thesis using from32_chars_Inl[of 0 "take 8 (drop i s)" e'] by auto
  next
    case (Inr n)
    then have "\<not> (\<exists>c \<in> set (take 8 (drop i s)). base32dict c = None)"
      using from32_chars_Inl[of 0 "take 8 (drop i s)" WrongChar] by simp
    with Inr Cons show ?thesis by (auto split: sum.split)
  qed
qed simp

lemma base32dict_None: "base32dict c = None \<longleftrightarrow> c \<notin> set base32alphabet"
  by (simp add: base32dict_def base32alphabet_def map_of_eq_None_iff)

section \<open>Properties\<close>

text \<open>Printing a digest of 20 bytes gives 32 characters, and parsing them gives the digest
  back.\<close>


lemma base32_print_parse:
  assumes "length h = 20"
  shows "\<exists>s. ToBase32 (Some h) = Some s \<and> length s = kBase32Length \<and> FromBase32 s = Inr h"
proof -
  obtain a b c d where h: "h = a @ b @ c @ d" and l: "length a = 5" "length b = 5" "length c = 5" "length d = 5"
    using split4[of h 5] assms by auto
  obtain s0 where s0: "to32_chars (to32_bytes 0 a) block_chars = Some s0" "length s0 = 8"
    "from32_chars 0 s0 = Inr (to32_bytes 0 a)" using block_to_from[OF l(1)] .
  obtain s1 where s1: "to32_chars (to32_bytes 0 b) block_chars = Some s1" "length s1 = 8"
    "from32_chars 0 s1 = Inr (to32_bytes 0 b)" using block_to_from[OF l(2)] .
  obtain s2 where s2: "to32_chars (to32_bytes 0 c) block_chars = Some s2" "length s2 = 8"
    "from32_chars 0 s2 = Inr (to32_bytes 0 c)" using block_to_from[OF l(3)] .
  obtain s3 where s3: "to32_chars (to32_bytes 0 d) block_chars = Some s3" "length s3 = 8"
    "from32_chars 0 s3 = Inr (to32_bytes 0 d)" using block_to_from[OF l(4)] .
  have "ToBase32 (Some h) = Some (s0 @ s1 @ s2 @ s3)"
    by (simp add: ToBase32_def h l rd_bytes_def s0(1) s1(1) s2(1) s3(1))
  moreover have "FromBase32 (s0 @ s1 @ s2 @ s3) = Inr h"
    by (simp add: FromBase32_def kBase32Length_def h s0(2,3) s1(2,3) s2(2,3) s3(2,3) from32_to32_bytes l)
  moreover have "length (s0 @ s1 @ s2 @ s3) = kBase32Length"
    by (simp add: kBase32Length_def s0(2) s1(2) s2(2) s3(2))
  ultimately show ?thesis by blast
qed

text \<open>Whatever parses is the base32 form of what it parses to: no two strings name one digest.\<close>

lemma base32_parse_print:
  assumes "FromBase32 s = Inr h"
  shows "ToBase32 (Some h) = Some s \<and> length h = 20"
proof -
  from assms have "length s = 4 * 8" by (simp add: FromBase32_def kBase32Length_def split: if_splits)
  then obtain a b c d where s: "s = a @ b @ c @ d" and l: "length a = 8" "length b = 8" "length c = 8" "length d = 8"
    using split4[of s 8] by auto
  from assms obtain na nb nc nd where
    n: "from32_chars 0 a = Inr na" "from32_chars 0 b = Inr nb" "from32_chars 0 c = Inr nc" "from32_chars 0 d = Inr nd"
    and h: "h = from32_bytes 5 na @ from32_bytes 5 nb @ from32_bytes 5 nc @ from32_bytes 5 nd"
    by (auto simp: FromBase32_def s l split: if_splits sum.splits)
  note b = block_from_to[OF n(1) l(1)] block_from_to[OF n(2) l(2)] block_from_to[OF n(3) l(3)]
    block_from_to[OF n(4) l(4)]
  show ?thesis
    using b(2,4,6,8) by (simp add: ToBase32_def h rd_bytes_def s
        to32_from32_bytes[OF b(1)] to32_from32_bytes[OF b(3)] to32_from32_bytes[OF b(5)] to32_from32_bytes[OF b(7)])
qed

text \<open>Parsing with an error code: a string of the wrong length aborts the process, a string of
  32 characters with one outside the alphabet is reported as invalid, every other is parsed.\<close>


lemma base32_errors:
  "(FromBase32_ec s = None \<longleftrightarrow> length s \<noteq> kBase32Length) \<and>
   (FromBase32_ec s = Some None \<longleftrightarrow> length s = kBase32Length \<and> \<not> set s \<subseteq> set base32alphabet)"
proof (cases "length s = kBase32Length")
  case True
  then obtain a b c d where s: "s = a @ b @ c @ d" and l: "length a = 8" "length b = 8" "length c = 8" "length d = 8"
    using split4[of s 8] by (auto simp: kBase32Length_def)
  have "FromBase32 s = Inl e \<longleftrightarrow> e = WrongChar \<and> \<not> set s \<subseteq> set base32alphabet" for e
    using True by (auto simp: FromBase32_def from32_blocks_Inl s l base32dict_None simp del: from32_blocks.simps)
  then show ?thesis using True
    by (cases "FromBase32 s") (auto simp: FromBase32_ec_def split: base32_error.split)
next
  case False
  then show ?thesis by (simp add: FromBase32_ec_def FromBase32_def)
qed

end
