(* ===== verification/Chunkable.thy ===== *)
theory Chunkable
  imports Cursor
begin

text \<open>
  Reading the chunkable types: include/types/base.h, src/types/ublob.cc, ulist.cc, umap.cc, uset.cc,
  and the iterator over the elements of a tree, include/types/uiterator.h and src/types/uiterator.cc.

  An object is its root node, \<open>None\<close> when it is empty (\<open>root_node_\<close> is null).  A slice
  that a read returns is a pointer with a length; the empty slice is \<open>([], 0)\<close>.
\<close>

section \<open>Objects\<close>

type_synonym chunkable = "seq_node option"

definition obj_hash :: "(bytes \<Rightarrow> bytes) \<Rightarrow> chunkable \<Rightarrow> bytes option" where
  "obj_hash hf obj = (case obj of None \<Rightarrow> Some (replicate kByteLength 0) | Some nd \<Rightarrow> chunk_hash hf (node_chunk nd))"

definition obj_numElements :: "chunkable \<Rightarrow> nat option" where
  "obj_numElements obj = (case obj of None \<Rightarrow> None | Some nd \<Rightarrow> numElements nd)"

text \<open>\<open>SetNodeForHash\<close>: blobs and lists abort on a chunk of another type, maps and sets stay
  empty.  A chunk that is not in the store has no type to read.\<close>

definition set_node :: "loader \<Rightarrow> ChunkType \<Rightarrow> bytes \<Rightarrow> chunkable option \<Rightarrow> chunkable option" where
  "set_node ld ty root_hash otherwise =
     do { chunk \<leftarrow> ld root_hash;
          t \<leftarrow> chunk_type chunk;
          if t = ChunkType_byte CT_kMeta then map_option Some (CreateFromChunk chunk)
          else if t = ChunkType_byte ty then map_option Some (CreateFromChunk chunk)
          else otherwise }"

definition UBlob_SetNodeForHash :: "loader \<Rightarrow> bytes \<Rightarrow> chunkable option" where
  "UBlob_SetNodeForHash ld root_hash = set_node ld CT_kBlob root_hash None"

definition UList_SetNodeForHash :: "loader \<Rightarrow> bytes \<Rightarrow> chunkable option" where
  "UList_SetNodeForHash ld root_hash = set_node ld CT_kList root_hash None"

definition UMap_SetNodeForHash :: "loader \<Rightarrow> bytes \<Rightarrow> chunkable option" where
  "UMap_SetNodeForHash ld root_hash = set_node ld CT_kMap root_hash (Some None)"

definition USet_SetNodeForHash :: "loader \<Rightarrow> bytes \<Rightarrow> chunkable option" where
  "USet_SetNodeForHash ld root_hash = set_node ld CT_kSet root_hash (Some None)"

section \<open>Lists, maps and sets\<close>

definition UList_Get :: "(bytes \<Rightarrow> bytes) \<Rightarrow> loader \<Rightarrow> chunkable \<Rightarrow> nat \<Rightarrow> slice option" where
  "UList_Get hf ld obj idx =
     do { CHECK (obj \<noteq> None);
          root \<leftarrow> obj_hash hf obj;
          cursor \<leftarrow> NodeCursor_idx ld root idx;
          at_end \<leftarrow> (if cursor = [] then Some True else isEnd cursor);
          if at_end then Some ([], 0) else do { p \<leftarrow> Cursor.current cursor; ListNode_Decode p } }"

text \<open>Whether the cursor for a key stands on that key.\<close>

definition found_key :: "OrderedKey \<Rightarrow> cursor \<Rightarrow> bool option" where
  "found_key key cursor =
     do { at_end \<leftarrow> isEnd cursor;
          if at_end then Some False else do { k \<leftarrow> currentKey cursor; key_eq key k } }"

definition UMap_Get :: "(bytes \<Rightarrow> bytes) \<Rightarrow> loader \<Rightarrow> chunkable \<Rightarrow> bytes \<Rightarrow> slice option" where
  "UMap_Get hf ld obj key =
     do { nd \<leftarrow> obj;
          root \<leftarrow> obj_hash hf (Some nd);
          cursor \<leftarrow> NodeCursor_key ld root (KeyData key);
          found \<leftarrow> found_key (KeyData key) cursor;
          if found then do { p \<leftarrow> Cursor.current cursor; MapNode_value p } else Some ([], 0) }"

definition USet_Get :: "(bytes \<Rightarrow> bytes) \<Rightarrow> loader \<Rightarrow> chunkable \<Rightarrow> bytes \<Rightarrow> slice option" where
  "USet_Get hf ld obj key =
     do { nd \<leftarrow> obj;
          root \<leftarrow> obj_hash hf (Some nd);
          cursor \<leftarrow> NodeCursor_key ld root (KeyData key);
          found \<leftarrow> found_key (KeyData key) cursor;
          if found then Some (key, length key) else Some ([], 0) }"

section \<open>Blobs\<close>

text \<open>The inner loop of \<open>Read\<close>: bytes of one node, up to \<open>len\<close> in all.  The result is the
  cursor, \<open>total_copy_byte\<close> and \<open>chunk_copy_byte\<close>.\<close>

partial_function (option) read_node :: "loader \<Rightarrow> nat \<Rightarrow> cursor \<Rightarrow> nat \<Rightarrow> nat \<Rightarrow> (cursor \<times> nat \<times> nat) option" where
  "read_node ld len cur copied chunk_copy =
     Option.bind (numCurrentBytes cur) (\<lambda>k.
       if copied + k = len then Some (cur, copied + k, chunk_copy + k)
       else Option.bind (Advance ld False cur) (\<lambda>r.
         if fst r then read_node ld len (snd r) (copied + k) (chunk_copy + k)
         else Some (snd r, copied + k, chunk_copy + k)))"

text \<open>\<open>Read\<close> into an array: \<open>memcpy\<close> beyond its end fails.\<close>

partial_function (option) read_loop :: "loader \<Rightarrow> nat \<Rightarrow> cursor \<Rightarrow> nat \<Rightarrow> bytes \<Rightarrow> (nat \<times> bytes) option" where
  "read_loop ld len cur copied buffer =
     Option.bind (Cursor.current cur) (\<lambda>chunk_copy_start.
     Option.bind (read_node ld len cur copied 0) (\<lambda>r.
     Option.bind (rd_bytes (snd (snd r)) chunk_copy_start 0) (\<lambda>bs.
     Option.bind (memcpy buffer copied bs) (\<lambda>buffer.
       if fst (snd r) = len then Some (fst (snd r), buffer)
       else Option.bind (Advance ld True (fst r)) (\<lambda>a.
         if fst a then read_loop ld len (snd a) (fst (snd r)) buffer
         else Some (fst (snd r), buffer))))))"

definition UBlob_Read :: "(bytes \<Rightarrow> bytes) \<Rightarrow> loader \<Rightarrow> chunkable \<Rightarrow> nat \<Rightarrow> nat \<Rightarrow> bytes \<Rightarrow> (nat \<times> bytes) option" where
  "UBlob_Read hf ld obj pos len buffer =
     do { size \<leftarrow> obj_numElements obj;
          if size \<le> pos then Some (0, buffer)
          else do { root \<leftarrow> obj_hash hf obj;
                    cur \<leftarrow> NodeCursor_idx ld root pos;
                    read_loop ld len cur 0 buffer } }"

text \<open>\<open>Read\<close> into a string, which grows.\<close>

partial_function (option) read_string_loop :: "loader \<Rightarrow> nat \<Rightarrow> cursor \<Rightarrow> nat \<Rightarrow> bytes \<Rightarrow> (nat \<times> bytes) option" where
  "read_string_loop ld len cur copied buffer =
     Option.bind (Cursor.current cur) (\<lambda>chunk_copy_start.
     Option.bind (read_node ld len cur copied 0) (\<lambda>r.
     Option.bind (rd_bytes (snd (snd r)) chunk_copy_start 0) (\<lambda>bs.
       if fst (snd r) = len then Some (fst (snd r), buffer @ bs)
       else Option.bind (Advance ld True (fst r)) (\<lambda>a.
         if fst a then read_string_loop ld len (snd a) (fst (snd r)) (buffer @ bs)
         else Some (fst (snd r), buffer @ bs)))))"

definition UBlob_Read_string :: "(bytes \<Rightarrow> bytes) \<Rightarrow> loader \<Rightarrow> chunkable \<Rightarrow> nat \<Rightarrow> nat \<Rightarrow> bytes \<Rightarrow> (nat \<times> bytes) option" where
  "UBlob_Read_string hf ld obj pos len buffer =
     do { size \<leftarrow> obj_numElements obj;
          if size \<le> pos then Some (0, buffer)
          else do { root \<leftarrow> obj_hash hf obj;
                    cur \<leftarrow> NodeCursor_idx ld root pos;
                    read_string_loop ld len cur 0 [] } }"

section \<open>The iterator over ranges of elements\<close>

record cursor_iterator =
  it_ranges :: "IndexRange list"
  it_range_idx :: int
  it_idx_in_range :: nat
  it_cursor :: cursor

definition it_head :: "cursor_iterator \<Rightarrow> bool" where
  "it_head it = (it_range_idx it = -1)"

definition it_end :: "cursor_iterator \<Rightarrow> bool" where
  "it_end it = (it_range_idx it = int32_of (length (it_ranges it)))"

definition it_range :: "cursor_iterator \<Rightarrow> int \<Rightarrow> IndexRange option" where
  "it_range it i = (if i < 0 then None else nth_opt (it_ranges it) (nat i))"

definition it_index :: "cursor_iterator \<Rightarrow> nat option" where
  "it_index it =
     do { CHECK (\<not> it_head it \<and> \<not> it_end it);
          r \<leftarrow> it_range it (it_range_idx it);
          Some ((start_idx r + it_idx_in_range it) mod 2 ^ 64) }"

definition CursorIterator :: "loader \<Rightarrow> bytes \<Rightarrow> IndexRange list \<Rightarrow> cursor_iterator option" where
  "CursorIterator ld root ranges =
     do { idx \<leftarrow> (if ranges = [] then Some 0
                  else it_index \<lparr>it_ranges = ranges, it_range_idx = 0, it_idx_in_range = 0, it_cursor = []\<rparr>);
          cur \<leftarrow> NodeCursor_idx ld root idx;
          Some \<lparr>it_ranges = ranges, it_range_idx = 0, it_idx_in_range = 0, it_cursor = cur\<rparr> }"

text \<open>\<open>next\<close> and \<open>previous\<close>: the returned flag and the iterator.\<close>

definition it_next :: "loader \<Rightarrow> cursor_iterator \<Rightarrow> (bool \<times> cursor_iterator) option" where
  "it_next ld it =
     (if it_end it then Some (False, it)
      else if it_ranges it = [] then Some (False, it\<lparr>it_idx_in_range := 0, it_range_idx := 0\<rparr>)
      else if it_head it then
        do { (_, cur) \<leftarrow> Advance ld True (it_cursor it);
             Some (True, it\<lparr>it_idx_in_range := 0, it_range_idx := 0, it_cursor := cur\<rparr>) }
      else
        do { let idx = (it_idx_in_range it + 1) mod 2 ^ 64;
             r \<leftarrow> it_range it (it_range_idx it);
             it \<leftarrow>
               (if idx < num_subsequent r then
                  do { (_, cur) \<leftarrow> Advance ld True (it_cursor it);
                       Some (it\<lparr>it_idx_in_range := idx, it_cursor := cur\<rparr>) }
                else if idx = num_subsequent r then
                  (if it_range_idx it + 1 < int32_of (length (it_ranges it)) then
                     do { r' \<leftarrow> it_range it (it_range_idx it + 1);
                          let pre_range_end_idx = sub64 ((start_idx r + num_subsequent r) mod 2 ^ 64) 1;
                          let steps = sub64 (start_idx r') pre_range_end_idx;
                          (_, cur) \<leftarrow> AdvanceSteps ld (it_cursor it) steps;
                          Some (it\<lparr>it_idx_in_range := 0, it_range_idx := it_range_idx it + 1, it_cursor := cur\<rparr>) }
                   else if it_range_idx it + 1 = int32_of (length (it_ranges it)) then
                     do { (_, cur) \<leftarrow> Advance ld False (it_cursor it);
                          Some (it\<lparr>it_idx_in_range := 0, it_range_idx := it_range_idx it + 1, it_cursor := cur\<rparr>) }
                   else None)
                else None);
             Some (\<not> it_end it, it) })"

definition it_previous :: "loader \<Rightarrow> cursor_iterator \<Rightarrow> (bool \<times> cursor_iterator) option" where
  "it_previous ld it =
     (if it_head it then Some (False, it)
      else if it_ranges it = [] then Some (False, it\<lparr>it_range_idx := -1, it_idx_in_range := 0\<rparr>)
      else if it_end it then
        do { let ri = int32_of (length (it_ranges it) - 1);
             last_range \<leftarrow> it_range it ri;
             (_, cur) \<leftarrow> Retreat ld False (it_cursor it);
             Some (True, it\<lparr>it_range_idx := ri, it_idx_in_range := sub64 (num_subsequent last_range) 1,
                            it_cursor := cur\<rparr>) }
      else
        do { it \<leftarrow>
               (if it_idx_in_range it > 0 then
                  do { (_, cur) \<leftarrow> Retreat ld True (it_cursor it);
                       Some (it\<lparr>it_idx_in_range := it_idx_in_range it - 1, it_cursor := cur\<rparr>) }
                else if it_range_idx it - 1 \<ge> 0 then
                  do { next_range \<leftarrow> it_range it (it_range_idx it);
                       r \<leftarrow> it_range it (it_range_idx it - 1);
                       let curr_range_end_idx = sub64 ((start_idx r + num_subsequent r) mod 2 ^ 64) 1;
                       let steps = sub64 (start_idx next_range) curr_range_end_idx;
                       (_, cur) \<leftarrow> RetreatSteps ld (it_cursor it) steps;
                       Some (it\<lparr>it_range_idx := it_range_idx it - 1,
                                it_idx_in_range := sub64 (num_subsequent r) 1, it_cursor := cur\<rparr>) }
                else if it_range_idx it - 1 = -1 then
                  do { (_, cur) \<leftarrow> Retreat ld False (it_cursor it);
                       Some (it\<lparr>it_range_idx := -1, it_cursor := cur\<rparr>) }
                else None);
             Some (\<not> it_head it, it) })"

definition it_key :: "cursor_iterator \<Rightarrow> OrderedKey option" where
  "it_key it = do { CHECK (\<not> it_head it \<and> \<not> it_end it); currentKey (it_cursor it) }"

definition it_data :: "cursor_iterator \<Rightarrow> bytes option" where
  "it_data it = do { CHECK (\<not> it_head it \<and> \<not> it_end it); Cursor.current (it_cursor it) }"

definition it_numBytes :: "cursor_iterator \<Rightarrow> nat option" where
  "it_numBytes it = do { CHECK (\<not> it_head it \<and> \<not> it_end it); numCurrentBytes (it_cursor it) }"

text \<open>\<open>value\<close> of the iterators of maps, lists and sets, and of blobs.\<close>

definition it_value :: "ChunkType \<Rightarrow> cursor_iterator \<Rightarrow> slice option" where
  "it_value ty it =
     do { CHECK (\<not> it_head it \<and> \<not> it_end it);
          p \<leftarrow> it_data it;
          if ty = CT_kMap then MapNode_value p
          else if ty = CT_kList then ListNode_Decode p
          else if ty = CT_kSet then SetNode_key p
          else do { n \<leftarrow> it_numBytes it; Some (p, n) } }"

definition Scan :: "(bytes \<Rightarrow> bytes) \<Rightarrow> loader \<Rightarrow> chunkable \<Rightarrow> cursor_iterator option" where
  "Scan hf ld obj =
     do { n \<leftarrow> obj_numElements obj;
          root \<leftarrow> obj_hash hf obj;
          CursorIterator ld root (if n = 0 then [] else [\<lparr>start_idx = 0, num_subsequent = n\<rparr>]) }"

section \<open>The iterator over the chunks of a blob\<close>

text \<open>\<open>UBlob::ChunkIterator\<close> is a cursor on the first byte of a chunk.\<close>

definition ScanChunk :: "(bytes \<Rightarrow> bytes) \<Rightarrow> loader \<Rightarrow> chunkable \<Rightarrow> cursor option" where
  "ScanChunk hf ld obj = do { root \<leftarrow> obj_hash hf obj; NodeCursor_idx ld root 0 }"

definition ci_NumChunkBytes :: "cursor \<Rightarrow> nat option" where
  "ci_NumChunkBytes cur = (case cur of [] \<Rightarrow> None | (nd, _) # _ \<Rightarrow> numEntries nd)"

definition ci_next :: "loader \<Rightarrow> cursor \<Rightarrow> (bool \<times> cursor) option" where
  "ci_next ld cur =
     do { at_head \<leftarrow> isBegin cur;
          if at_head then do { (_, cur) \<leftarrow> Advance ld True cur; Some (True, cur) }
          else do { at_end \<leftarrow> isEnd cur;
                    if at_end then Some (False, cur)
                    else do { num_chunk_bytes \<leftarrow> ci_NumChunkBytes cur;
                              (_, cur) \<leftarrow> AdvanceSteps ld cur num_chunk_bytes;
                              at_end \<leftarrow> isEnd cur;
                              Some (\<not> at_end, cur) } } }"

definition ci_previous :: "loader \<Rightarrow> cursor \<Rightarrow> (bool \<times> cursor) option" where
  "ci_previous ld cur =
     do { at_head \<leftarrow> isBegin cur;
          if at_head then Some (False, cur)
          else if snd (hd cur) = 0 then
            do { (moved, cur) \<leftarrow> Retreat ld True cur;
                 cur \<leftarrow> (if moved then seek cur 0 else Some cur);
                 at_head \<leftarrow> isBegin cur;
                 Some (\<not> at_head, cur) }
          else do { at_end \<leftarrow> isEnd cur;
                    CHECK at_end;
                    cur \<leftarrow> seek cur 0;
                    Some (True, cur) } }"

definition ci_value :: "cursor \<Rightarrow> slice option" where
  "ci_value cur =
     do { at_head \<leftarrow> isBegin cur;
          at_end \<leftarrow> isEnd cur;
          CHECK (\<not> at_head \<and> \<not> at_end);
          p \<leftarrow> Cursor.current cur;
          n \<leftarrow> ci_NumChunkBytes cur;
          Some (p, n) }"

end
