(* ===== verification/Node_Comparator.thy ===== *)
theory Node_Comparator
  imports Cursor
begin

text \<open>
  Comparing two trees: include/node/node_comparator.h and src/node/node_comparator.cc.

  \<open>NodeComparator\<close> is a template over a trait, which says what the key of an element is, and over a
  traverser, which says what to do with nodes of the same hash and with leaves; both are arguments
  here.  \<open>lld\<close> and \<open>rld\<close> are the loaders of the left and the right side, \<open>hf\<close> is the digest.
\<close>

section \<open>Keys\<close>

datatype key_trait = IndexTrait | OrderedKeyTrait

definition trait_Key :: "key_trait \<Rightarrow> cursor \<Rightarrow> nat \<Rightarrow> OrderedKey option" where
  "trait_Key tr cursor idx = (case tr of IndexTrait \<Rightarrow> Some (KeyValue idx) | OrderedKeyTrait \<Rightarrow> currentKey cursor)"

definition trait_MaxKey_entry :: "key_trait \<Rightarrow> bytes \<Rightarrow> nat \<Rightarrow> OrderedKey option" where
  "trait_MaxKey_entry tr me idx = (case tr of
     IndexTrait \<Rightarrow> do { n \<leftarrow> MetaEntry_numElements me; Some (KeyValue ((idx + n) mod 2 ^ 64)) }
   | OrderedKeyTrait \<Rightarrow> MetaEntry_orderedKey me)"

definition trait_MaxKey_node :: "key_trait \<Rightarrow> seq_node \<Rightarrow> nat \<Rightarrow> OrderedKey option" where
  "trait_MaxKey_node tr mn idx = (case tr of
     IndexTrait \<Rightarrow> do { n \<leftarrow> numElements mn; Some (KeyValue ((idx + n) mod 2 ^ 64)) }
   | OrderedKeyTrait \<Rightarrow> do { n \<leftarrow> numEntries mn; node_key mn (sub64 n 1) })"

definition trait_MinKey :: "key_trait \<Rightarrow> OrderedKey" where
  "trait_MinKey tr = (case tr of IndexTrait \<Rightarrow> KeyValue 0 | OrderedKeyTrait \<Rightarrow> KeyData [0])"

section \<open>Iterating over the elements of two nodes\<close>

text \<open>The comparison that the three traversers make of the elements under their cursors: the left
  key is greater, the keys are the same and the elements are the same or not, or it is less.\<close>

datatype comparison = LhsGreater | SameKey bool | LhsLess

definition same_current :: "cursor \<Rightarrow> cursor \<Rightarrow> bool option" where
  "same_current lhs_cursor rhs_cursor =
     do { lhs_len \<leftarrow> numCurrentBytes lhs_cursor;
          rhs_len \<leftarrow> numCurrentBytes rhs_cursor;
          if lhs_len = rhs_len
          then do { lp \<leftarrow> current lhs_cursor;
                    rp \<leftarrow> current rhs_cursor;
                    l \<leftarrow> rd_bytes lhs_len lp 0;
                    r \<leftarrow> rd_bytes lhs_len rp 0;
                    Some (memcmp l r = 0) }
          else Some False }"

definition compare_elements :: "key_trait \<Rightarrow> cursor \<Rightarrow> nat \<Rightarrow> cursor \<Rightarrow> nat \<Rightarrow> comparison option" where
  "compare_elements tr lhs_cursor lhs_idx rhs_cursor rhs_idx =
     do { lhs_key \<leftarrow> trait_Key tr lhs_cursor lhs_idx;
          rhs_key \<leftarrow> trait_Key tr rhs_cursor rhs_idx;
          greater \<leftarrow> key_greater lhs_key rhs_key;
          if greater then Some LhsGreater
          else do { same_key \<leftarrow> key_eq lhs_key rhs_key;
                    if same_key
                    then do { same \<leftarrow> same_current lhs_cursor rhs_cursor; Some (SameKey same) }
                    else Some LhsLess } }"

text \<open>The range being built: \<open>curr_cr\<close> is invalid when it is empty.\<close>

definition range_grow :: "nat \<Rightarrow> IndexRange \<Rightarrow> IndexRange" where
  "range_grow idx cr = (if num_subsequent cr = 0 then \<lparr>start_idx = idx, num_subsequent = 1\<rparr>
     else cr\<lparr>num_subsequent := num_subsequent cr + 1\<rparr>)"

definition range_close :: "IndexRange list \<Rightarrow> IndexRange \<Rightarrow> IndexRange list \<times> IndexRange" where
  "range_close results cr = (if num_subsequent cr \<noteq> 0 then (results @ [cr], cr\<lparr>num_subsequent := 0\<rparr>)
     else (results, cr))"

definition next_idx :: "nat \<Rightarrow> nat" where
  "next_idx i = (i + 1) mod 2 ^ 64"

partial_function (option) intersect_loop :: "key_trait \<Rightarrow> loader \<Rightarrow> loader \<Rightarrow> cursor \<Rightarrow> nat \<Rightarrow> cursor \<Rightarrow> nat \<Rightarrow>
    IndexRange \<Rightarrow> IndexRange list \<Rightarrow> IndexRange list option" where
  "intersect_loop tr lld rld lhs_cursor lhs_idx rhs_cursor rhs_idx curr_cr results =
     Option.bind (isEnd lhs_cursor) (\<lambda>lhs_end.
     Option.bind (isEnd rhs_cursor) (\<lambda>rhs_end.
       if lhs_end \<or> rhs_end then Some (fst (range_close results curr_cr))
       else Option.bind (compare_elements tr lhs_cursor lhs_idx rhs_cursor rhs_idx) (\<lambda>c.
         case c of
           LhsGreater \<Rightarrow>
             Option.bind (Advance rld True rhs_cursor) (\<lambda>r.
               intersect_loop tr lld rld lhs_cursor lhs_idx (snd r) (next_idx rhs_idx) curr_cr results)
         | SameKey same \<Rightarrow>
             (let next = (if same then (results, range_grow lhs_idx curr_cr) else range_close results curr_cr) in
              Option.bind (Advance lld True lhs_cursor) (\<lambda>l.
              Option.bind (Advance rld True rhs_cursor) (\<lambda>r.
                intersect_loop tr lld rld (snd l) (next_idx lhs_idx) (snd r) (next_idx rhs_idx) (snd next) (fst next))))
         | LhsLess \<Rightarrow>
             (let next = range_close results curr_cr in
              Option.bind (Advance lld True lhs_cursor) (\<lambda>l.
                intersect_loop tr lld rld (snd l) (next_idx lhs_idx) rhs_cursor rhs_idx (snd next) (fst next))))))"

text \<open>The rest of the left side, once the right one has ended.\<close>

partial_function (option) diff_rest :: "loader \<Rightarrow> cursor \<Rightarrow> IndexRange \<Rightarrow> IndexRange option" where
  "diff_rest lld lhs_cursor curr_cr =
     Option.bind (Advance lld True lhs_cursor) (\<lambda>l.
       if fst l then diff_rest lld (snd l) (curr_cr\<lparr>num_subsequent := num_subsequent curr_cr + 1\<rparr>)
       else Some (curr_cr\<lparr>num_subsequent := num_subsequent curr_cr + 1\<rparr>))"

partial_function (option) diff_loop :: "key_trait \<Rightarrow> loader \<Rightarrow> loader \<Rightarrow> cursor \<Rightarrow> nat \<Rightarrow> cursor \<Rightarrow> nat \<Rightarrow>
    IndexRange \<Rightarrow> IndexRange list \<Rightarrow> IndexRange list option" where
  "diff_loop tr lld rld lhs_cursor lhs_idx rhs_cursor rhs_idx curr_cr results =
     Option.bind (isEnd lhs_cursor) (\<lambda>lhs_end.
     Option.bind (isEnd rhs_cursor) (\<lambda>rhs_end.
       if lhs_end then Some (fst (range_close results curr_cr))
       else if rhs_end
       then Option.bind (diff_rest lld lhs_cursor
                (if num_subsequent curr_cr = 0 then \<lparr>start_idx = lhs_idx, num_subsequent = 0\<rparr> else curr_cr))
              (\<lambda>cr. Some (fst (range_close results cr)))
       else Option.bind (compare_elements tr lhs_cursor lhs_idx rhs_cursor rhs_idx) (\<lambda>c.
         case c of
           LhsGreater \<Rightarrow>
             Option.bind (Advance rld True rhs_cursor) (\<lambda>r.
               diff_loop tr lld rld lhs_cursor lhs_idx (snd r) (next_idx rhs_idx) curr_cr results)
         | SameKey same \<Rightarrow>
             (let next = (if same then range_close results curr_cr else (results, range_grow lhs_idx curr_cr)) in
              Option.bind (Advance lld True lhs_cursor) (\<lambda>l.
              Option.bind (Advance rld True rhs_cursor) (\<lambda>r.
                diff_loop tr lld rld (snd l) (next_idx lhs_idx) (snd r) (next_idx rhs_idx) (snd next) (fst next))))
         | LhsLess \<Rightarrow>
             Option.bind (Advance lld True lhs_cursor) (\<lambda>l.
               diff_loop tr lld rld (snd l) (next_idx lhs_idx) rhs_cursor rhs_idx (range_grow lhs_idx curr_cr) results))))"

text \<open>The mapper builds a range on each side.\<close>

definition maps_close :: "(IndexRange \<times> IndexRange) list \<Rightarrow> IndexRange \<times> IndexRange \<Rightarrow>
    (IndexRange \<times> IndexRange) list \<times> IndexRange \<times> IndexRange" where
  "maps_close results rs = (if num_subsequent (fst rs) \<noteq> 0
     then (results @ [rs], (fst rs)\<lparr>num_subsequent := 0\<rparr>, (snd rs)\<lparr>num_subsequent := 0\<rparr>)
     else (results, rs))"

definition maps_grow :: "nat \<Rightarrow> nat \<Rightarrow> IndexRange \<times> IndexRange \<Rightarrow> IndexRange \<times> IndexRange" where
  "maps_grow lhs_idx rhs_idx rs = (if num_subsequent (fst rs) = 0
     then (\<lparr>start_idx = lhs_idx, num_subsequent = 1\<rparr>, \<lparr>start_idx = rhs_idx, num_subsequent = 1\<rparr>)
     else ((fst rs)\<lparr>num_subsequent := num_subsequent (fst rs) + 1\<rparr>,
           (snd rs)\<lparr>num_subsequent := num_subsequent (snd rs) + 1\<rparr>))"

partial_function (option) mapper_loop :: "key_trait \<Rightarrow> loader \<Rightarrow> loader \<Rightarrow> cursor \<Rightarrow> nat \<Rightarrow> cursor \<Rightarrow> nat \<Rightarrow>
    IndexRange \<times> IndexRange \<Rightarrow> (IndexRange \<times> IndexRange) list \<Rightarrow> (IndexRange \<times> IndexRange) list option" where
  "mapper_loop tr lld rld lhs_cursor lhs_idx rhs_cursor rhs_idx rs results =
     Option.bind (isEnd lhs_cursor) (\<lambda>lhs_end.
     Option.bind (isEnd rhs_cursor) (\<lambda>rhs_end.
       if lhs_end \<or> rhs_end then Some (fst (maps_close results rs))
       else Option.bind (compare_elements tr lhs_cursor lhs_idx rhs_cursor rhs_idx) (\<lambda>c.
         case c of
           LhsGreater \<Rightarrow>
             (let next = maps_close results rs in
              Option.bind (Advance rld True rhs_cursor) (\<lambda>r.
                mapper_loop tr lld rld lhs_cursor lhs_idx (snd r) (next_idx rhs_idx) (snd next) (fst next)))
         | SameKey same \<Rightarrow>
             (let next = (if same then (results, maps_grow lhs_idx rhs_idx rs) else maps_close results rs) in
              Option.bind (Advance lld True lhs_cursor) (\<lambda>l.
              Option.bind (Advance rld True rhs_cursor) (\<lambda>r.
                mapper_loop tr lld rld (snd l) (next_idx lhs_idx) (snd r) (next_idx rhs_idx) (snd next) (fst next))))
         | LhsLess \<Rightarrow>
             (let next = maps_close results rs in
              Option.bind (Advance lld True lhs_cursor) (\<lambda>l.
                mapper_loop tr lld rld (snd l) (next_idx lhs_idx) rhs_cursor rhs_idx (snd next) (fst next))))))"

section \<open>Traversers\<close>

record 'r traverser =
  IdenticalHashes :: "seq_node \<Rightarrow> nat \<Rightarrow> seq_node \<Rightarrow> nat \<Rightarrow> 'r list option"
  IterateLeaves :: "seq_node \<Rightarrow> nat \<Rightarrow> loader \<Rightarrow> seq_node \<Rightarrow> nat \<Rightarrow> loader \<Rightarrow> 'r list option"

definition node_hash :: "(bytes \<Rightarrow> bytes) \<Rightarrow> seq_node \<Rightarrow> bytes option" where
  "node_hash hf nd = chunk_hash hf (node_chunk nd)"

text \<open>The cursors on the first elements of the two nodes.\<close>

definition leaf_cursors :: "(bytes \<Rightarrow> bytes) \<Rightarrow> seq_node \<Rightarrow> loader \<Rightarrow> seq_node \<Rightarrow> loader \<Rightarrow> (cursor \<times> cursor) option" where
  "leaf_cursors hf lhs lld rhs rld =
     do { lh \<leftarrow> node_hash hf lhs; lhs_cursor \<leftarrow> NodeCursor_idx lld lh 0;
          rh \<leftarrow> node_hash hf rhs; rhs_cursor \<leftarrow> NodeCursor_idx rld rh 0;
          Some (lhs_cursor, rhs_cursor) }"

definition Intersector :: "(bytes \<Rightarrow> bytes) \<Rightarrow> key_trait \<Rightarrow> IndexRange traverser" where
  "Intersector hf tr = \<lparr>
     IdenticalHashes = (\<lambda>lhs lhs_start rhs rhs_start.
       do { n \<leftarrow> numElements lhs; Some [\<lparr>start_idx = lhs_start, num_subsequent = n\<rparr>] }),
     IterateLeaves = (\<lambda>lhs lhs_start lld rhs rhs_start rld.
       do { (l, r) \<leftarrow> leaf_cursors hf lhs lld rhs rld;
            intersect_loop tr lld rld l lhs_start r rhs_start \<lparr>start_idx = 0, num_subsequent = 0\<rparr> [] })\<rparr>"

definition Differ :: "(bytes \<Rightarrow> bytes) \<Rightarrow> key_trait \<Rightarrow> IndexRange traverser" where
  "Differ hf tr = \<lparr>
     IdenticalHashes = (\<lambda>lhs lhs_start rhs rhs_start. Some []),
     IterateLeaves = (\<lambda>lhs lhs_start lld rhs rhs_start rld.
       do { (l, r) \<leftarrow> leaf_cursors hf lhs lld rhs rld;
            diff_loop tr lld rld l lhs_start r rhs_start \<lparr>start_idx = 0, num_subsequent = 0\<rparr> [] })\<rparr>"

definition Mapper :: "(bytes \<Rightarrow> bytes) \<Rightarrow> key_trait \<Rightarrow> (IndexRange \<times> IndexRange) traverser" where
  "Mapper hf tr = \<lparr>
     IdenticalHashes = (\<lambda>lhs lhs_start rhs rhs_start.
       do { n \<leftarrow> numElements lhs; m \<leftarrow> numElements rhs;
            Some [(\<lparr>start_idx = lhs_start, num_subsequent = n\<rparr>, \<lparr>start_idx = rhs_start, num_subsequent = m\<rparr>)] }),
     IterateLeaves = (\<lambda>lhs lhs_start lld rhs rhs_start rld.
       do { (l, r) \<leftarrow> leaf_cursors hf lhs lld rhs rld;
            mapper_loop tr lld rld l lhs_start r rhs_start
              (\<lparr>start_idx = 0, num_subsequent = 0\<rparr>, \<lparr>start_idx = 0, num_subsequent = 0\<rparr>) [] })\<rparr>"

section \<open>The comparator\<close>

text \<open>The loop of \<open>SmallestOverlap\<close> over the entries of a node; a recursive call starts it on the
  child.  \<open>rhs_me_lower\<close> is not read at the first entry.\<close>

partial_function (option) overlap_loop :: "key_trait \<Rightarrow> loader \<Rightarrow> OrderedKey \<Rightarrow> OrderedKey \<Rightarrow> seq_node \<Rightarrow> nat \<Rightarrow>
    nat \<Rightarrow> nat \<Rightarrow> nat \<Rightarrow> OrderedKey option \<Rightarrow> (seq_node \<times> nat) option" where
  "overlap_loop tr ld lhs_lower lhs_upper rhs_node rhs_start_idx num_entries i rhs_me_start_idx rhs_me_lower =
     (if i \<ge> num_entries then Some (rhs_node, rhs_start_idx)
      else Option.bind (node_data rhs_node i) (\<lambda>rhs_me.
           Option.bind (case rhs_me_lower of None \<Rightarrow> Some False | Some k \<Rightarrow> key_greater k lhs_lower) (\<lambda>stop.
             if stop then Some (rhs_node, rhs_start_idx)
             else Option.bind (trait_MaxKey_entry tr rhs_me rhs_me_start_idx) (\<lambda>rhs_me_upper.
                  Option.bind (if i = num_entries - 1 then Some True else key_ge rhs_me_upper lhs_upper) (\<lambda>deeper.
                    if deeper then
                      Option.bind (MetaEntry_targetHash rhs_me) (\<lambda>h.
                      Option.bind (ld h) (\<lambda>chunk.
                      Option.bind (CreateFromChunk chunk) (\<lambda>rhs_child.
                        if isLeaf rhs_child then Some (rhs_child, rhs_me_start_idx)
                        else Option.bind (numEntries rhs_child) (\<lambda>n.
                          overlap_loop tr ld lhs_lower lhs_upper rhs_child rhs_me_start_idx n 0 rhs_me_start_idx None))))
                    else
                      Option.bind (MetaEntry_numElements rhs_me) (\<lambda>n.
                        overlap_loop tr ld lhs_lower lhs_upper rhs_node rhs_start_idx num_entries (i + 1)
                          ((rhs_me_start_idx + n) mod 2 ^ 64) (Some rhs_me_upper)))))))"

definition SmallestOverlap :: "key_trait \<Rightarrow> loader \<Rightarrow> OrderedKey \<Rightarrow> OrderedKey \<Rightarrow> seq_node \<Rightarrow> nat \<Rightarrow>
    (seq_node \<times> nat) option" where
  "SmallestOverlap tr ld lhs_lower lhs_upper rhs_node rhs_start_idx =
     (if isLeaf rhs_node then Some (rhs_node, rhs_start_idx)
      else do { n \<leftarrow> numEntries rhs_node;
                overlap_loop tr ld lhs_lower lhs_upper rhs_node rhs_start_idx n 0 rhs_start_idx None })"

text \<open>\<open>Compare\<close> on a node of the left side, and its loop over the entries \<open>is\<close> of a node: a call on
  \<open>Inl\<close> and on \<open>Inr\<close>.\<close>

partial_function (option) compare_rec :: "(bytes \<Rightarrow> bytes) \<Rightarrow> key_trait \<Rightarrow> 'r traverser \<Rightarrow> loader \<Rightarrow> loader \<Rightarrow>
    (seq_node \<times> nat \<times> OrderedKey \<times> seq_node \<times> nat) + (nat list \<times> seq_node \<times> nat \<times> OrderedKey \<times> seq_node \<times> nat) \<Rightarrow>
    'r list option" where
  "compare_rec hf tr trav lld rld arg =
     (case arg of
        Inl (lhs, lhs_start_idx, lhs_min_key, rhs_node, rhs_start_idx) \<Rightarrow>
          Option.bind (trait_MaxKey_node tr lhs lhs_start_idx) (\<lambda>lhs_max_key.
          Option.bind (SmallestOverlap tr rld lhs_min_key lhs_max_key rhs_node rhs_start_idx) (\<lambda>deepest.
          Option.bind (node_hash hf lhs) (\<lambda>lhs_hash.
          Option.bind (node_hash hf (fst deepest)) (\<lambda>rhs_hash.
            if lhs_hash = rhs_hash then IdenticalHashes trav lhs lhs_start_idx (fst deepest) (snd deepest)
            else if isLeaf lhs \<or> isLeaf (fst deepest)
            then IterateLeaves trav lhs lhs_start_idx lld (fst deepest) (snd deepest) rld
            else Option.bind (numEntries lhs) (\<lambda>n.
              compare_rec hf tr trav lld rld (Inr ([0..<n], lhs, lhs_start_idx, lhs_min_key, deepest)))))))
      | Inr (is, lhs, lhs_child_start_idx, lhs_child_min_key, deepest) \<Rightarrow>
          (case is of [] \<Rightarrow> Some []
           | i # is \<Rightarrow>
               Option.bind (node_data lhs i) (\<lambda>lhs_me.
               Option.bind (MetaEntry_targetHash lhs_me) (\<lambda>h.
               Option.bind (lld h) (\<lambda>chunk.
               Option.bind (CreateFromChunk chunk) (\<lambda>lhs_child_node.
               Option.bind (compare_rec hf tr trav lld rld
                 (Inl (lhs_child_node, lhs_child_start_idx, lhs_child_min_key, deepest))) (\<lambda>child_results.
               Option.bind (trait_MaxKey_node tr lhs_child_node lhs_child_start_idx) (\<lambda>lhs_child_max_key.
               Option.bind (MetaEntry_numElements lhs_me) (\<lambda>n.
               Option.bind (compare_rec hf tr trav lld rld
                 (Inr (is, lhs, (lhs_child_start_idx + n) mod 2 ^ 64, lhs_child_max_key, deepest))) (\<lambda>results.
                 Some (child_results @ results)))))))))))"

definition NodeComparator_Compare :: "(bytes \<Rightarrow> bytes) \<Rightarrow> key_trait \<Rightarrow> 'r traverser \<Rightarrow> ('r list \<Rightarrow> 'r list option) \<Rightarrow>
    loader \<Rightarrow> bytes \<Rightarrow> loader option \<Rightarrow> bytes \<Rightarrow> 'r list option" where
  "NodeComparator_Compare hf tr trav compact rloader rhs lloader lhs =
     do { rhs_chunk \<leftarrow> rloader rhs;
          rhs_root \<leftarrow> CreateFromChunk rhs_chunk;
          let lld = (case lloader of None \<Rightarrow> rloader | Some ld \<Rightarrow> ld);
          lhs_chunk \<leftarrow> lld lhs;
          lhs_root \<leftarrow> CreateFromChunk lhs_chunk;
          results \<leftarrow> compare_rec hf tr trav lld rloader (Inl (lhs_root, 0, trait_MinKey tr, rhs_root, 0));
          compact results }"

definition IndexIntersector :: "(bytes \<Rightarrow> bytes) \<Rightarrow> loader \<Rightarrow> bytes \<Rightarrow> loader option \<Rightarrow> bytes \<Rightarrow> IndexRange list option" where
  "IndexIntersector hf = NodeComparator_Compare hf IndexTrait (Intersector hf IndexTrait) Compact"

definition IndexDiffer :: "(bytes \<Rightarrow> bytes) \<Rightarrow> loader \<Rightarrow> bytes \<Rightarrow> loader option \<Rightarrow> bytes \<Rightarrow> IndexRange list option" where
  "IndexDiffer hf = NodeComparator_Compare hf IndexTrait (Differ hf IndexTrait) Compact"

definition KeyIntersector :: "(bytes \<Rightarrow> bytes) \<Rightarrow> loader \<Rightarrow> bytes \<Rightarrow> loader option \<Rightarrow> bytes \<Rightarrow> IndexRange list option" where
  "KeyIntersector hf = NodeComparator_Compare hf OrderedKeyTrait (Intersector hf OrderedKeyTrait) Compact"

definition KeyDiffer :: "(bytes \<Rightarrow> bytes) \<Rightarrow> loader \<Rightarrow> bytes \<Rightarrow> loader option \<Rightarrow> bytes \<Rightarrow> IndexRange list option" where
  "KeyDiffer hf = NodeComparator_Compare hf OrderedKeyTrait (Differ hf OrderedKeyTrait) Compact"

definition KeyMapper :: "(bytes \<Rightarrow> bytes) \<Rightarrow> loader \<Rightarrow> bytes \<Rightarrow> loader option \<Rightarrow> bytes \<Rightarrow>
    (IndexRange \<times> IndexRange) list option" where
  "KeyMapper hf = NodeComparator_Compare hf OrderedKeyTrait (Mapper hf OrderedKeyTrait) Compact_maps"

section \<open>Mapping by edit distance\<close>

datatype EditMarker = kNull | kLHSInsertion | kRHSInsertion | kSubstitution | kMatch

record edit_entry =
  marker :: EditMarker
  edit_distance :: nat

definition numElementsByCursor :: "cursor \<Rightarrow> nat option" where
  "numElementsByCursor cursor =
     do { e \<leftarrow> isEnd cursor;
          b \<leftarrow> isBegin cursor;
          CHECK (\<not> e \<and> \<not> b);
          if \<not> isLeaf (fst (hd cursor)) then do { me \<leftarrow> current cursor; MetaEntry_numElements me }
          else Some 1 }"

text \<open>The entries of a range: the number of elements before each and of each.\<close>

partial_function (option) entry_elements :: "loader \<Rightarrow> nat \<Rightarrow> nat \<Rightarrow> cursor \<Rightarrow> nat list \<Rightarrow> nat list \<Rightarrow>
    (nat list \<times> nat list \<times> nat \<times> cursor) option" where
  "entry_elements ld num acc_count cr prefix entries =
     (if acc_count < num then
        Option.bind (numElementsByCursor cr) (\<lambda>n.
        Option.bind (Advance ld True cr) (\<lambda>r.
          entry_elements ld num ((acc_count + n) mod 2 ^ 64) (snd r) (prefix @ [acc_count]) (entries @ [n])))
      else Some (prefix, entries, acc_count, cr))"

text \<open>An entry of the edit matrix, from the ones to the left, above and diagonally above.\<close>

definition edit_cell :: "nat \<Rightarrow> nat \<Rightarrow> edit_entry \<Rightarrow> edit_entry \<Rightarrow> edit_entry \<Rightarrow> bool \<Rightarrow> edit_entry" where
  "edit_cell lhs_entry_count rhs_entry_count left_entry up_entry dgn_entry same =
     (let achieve = (\<lambda>mk d cur. if d \<le> edit_distance cur then \<lparr>marker = mk, edit_distance = d\<rparr> else cur);
          cur_entry = \<lparr>marker = kNull, edit_distance = max lhs_entry_count rhs_entry_count + 1\<rparr>;
          cur_entry = achieve kRHSInsertion (edit_distance left_entry + 1) cur_entry;
          cur_entry = achieve kLHSInsertion (edit_distance up_entry + 1) cur_entry
      in if same then achieve kMatch (edit_distance dgn_entry) cur_entry
         else achieve kSubstitution (edit_distance dgn_entry + 1) cur_entry)"

text \<open>The first column and the first row.  The matrix is a flat array of rows of \<open>num_col\<close>
  entries, which C++ leaves uninitialised; every entry is written before it is read.\<close>

definition edit_borders :: "nat \<Rightarrow> nat \<Rightarrow> edit_entry list" where
  "edit_borders lhs_entry_count rhs_entry_count =
     (let num_col = rhs_entry_count + 1;
          null = \<lparr>marker = kNull, edit_distance = 0\<rparr>;
          m = replicate ((lhs_entry_count + 1) * num_col) null;
          m = fold (\<lambda>i m. m[i * num_col := \<lparr>marker = kLHSInsertion,
                edit_distance = edit_distance (m ! ((i - 1) * num_col)) + 1\<rparr>]) [1..<lhs_entry_count + 1] m
      in fold (\<lambda>j m. m[j := \<lparr>marker = kRHSInsertion, edit_distance = edit_distance (m ! (j - 1)) + 1\<rparr>])
           [1..<rhs_entry_count + 1] m)"

fun edit_row :: "loader \<Rightarrow> nat \<Rightarrow> nat \<Rightarrow> cursor \<Rightarrow> nat \<Rightarrow> nat list \<Rightarrow> edit_entry list \<Rightarrow> cursor \<Rightarrow>
    (edit_entry list \<times> cursor) option" where
  "edit_row rld lhs_entry_count rhs_entry_count lhs_cr i [] m rhs_cr = Some (m, rhs_cr)"
| "edit_row rld lhs_entry_count rhs_entry_count lhs_cr i (j # js) m rhs_cr =
     (let num_col = rhs_entry_count + 1 in
      do { same \<leftarrow> same_current lhs_cr rhs_cr;
           let cell = edit_cell lhs_entry_count rhs_entry_count (m ! (i * num_col + j - 1))
             (m ! ((i - 1) * num_col + j)) (m ! ((i - 1) * num_col + (j - 1))) same;
           (_, rhs_cr') \<leftarrow> Advance rld True rhs_cr;
           edit_row rld lhs_entry_count rhs_entry_count lhs_cr i js (m[i * num_col + j := cell]) rhs_cr' })"

fun edit_rows :: "loader \<Rightarrow> loader \<Rightarrow> nat \<Rightarrow> nat \<Rightarrow> nat list \<Rightarrow> edit_entry list \<Rightarrow> cursor \<Rightarrow> cursor \<Rightarrow>
    edit_entry list option" where
  "edit_rows lld rld lhs_entry_count rhs_entry_count [] m lhs_cr rhs_cr = Some m"
| "edit_rows lld rld lhs_entry_count rhs_entry_count (i # is) m lhs_cr rhs_cr =
     do { (m', rhs_cr') \<leftarrow> edit_row rld lhs_entry_count rhs_entry_count lhs_cr i [1..<rhs_entry_count + 1] m rhs_cr;
          (_, lhs_cr') \<leftarrow> Advance lld True lhs_cr;
          (_, rhs_cr'') \<leftarrow> RetreatEntry rld rhs_cr' rhs_entry_count;
          edit_rows lld rld lhs_entry_count rhs_entry_count is m' lhs_cr' rhs_cr'' }"

text \<open>One step of the loop that reads the matrix backwards: the map of a matching entry, and the next
  position.\<close>

definition match_range :: "IndexRange \<Rightarrow> nat list \<Rightarrow> nat list \<Rightarrow> nat \<Rightarrow> IndexRange" where
  "match_range r prefix entries k =
     \<lparr>start_idx = (start_idx r + prefix ! k) mod 2 ^ 64, num_subsequent = entries ! k\<rparr>"

fun edit_path :: "edit_entry list \<Rightarrow> IndexRange \<Rightarrow> nat list \<Rightarrow> nat list \<Rightarrow> IndexRange \<Rightarrow> nat list \<Rightarrow> nat list \<Rightarrow>
    nat \<Rightarrow> nat \<Rightarrow> (IndexRange \<times> IndexRange) list \<Rightarrow> (IndexRange \<times> IndexRange) list option" where
  "edit_path m lr lp le rr rp re 0 rhs_idx result = Some result"
| "edit_path m lr lp le rr rp re (Suc l) 0 result = Some result"
| "edit_path m lr lp le rr rp re (Suc l) (Suc r) result =
     (case marker (m ! (Suc l * (length re + 1) + Suc r)) of
        kNull \<Rightarrow> None
      | kLHSInsertion \<Rightarrow> edit_path m lr lp le rr rp re l (Suc r) result
      | kRHSInsertion \<Rightarrow> edit_path m lr lp le rr rp re (Suc l) r result
      | kSubstitution \<Rightarrow> edit_path m lr lp le rr rp re l r result
      | kMatch \<Rightarrow> (if le ! l = re ! r
          then edit_path m lr lp le rr rp re l r (result @ [(match_range lr lp le l, match_range rr rp re r)])
          else None))"

definition SeqMap :: "loader \<Rightarrow> cursor \<Rightarrow> IndexRange \<Rightarrow> loader \<Rightarrow> cursor \<Rightarrow> IndexRange \<Rightarrow>
    (IndexRange \<times> IndexRange) list option" where
  "SeqMap lld lhs_cr lhs_range rld rhs_cr rhs_range =
     do { (lp, le, lhs_acc_count, lhs_cr') \<leftarrow> entry_elements lld (num_subsequent lhs_range) 0 lhs_cr [] [];
          CHECK (lhs_acc_count = num_subsequent lhs_range);
          (rp, re, rhs_acc_count, rhs_cr') \<leftarrow> entry_elements rld (num_subsequent rhs_range) 0 rhs_cr [] [];
          CHECK (rhs_acc_count = num_subsequent rhs_range);
          (lhs_entry_retreat, lhs_cr'') \<leftarrow> RetreatEntry lld lhs_cr' (length le);
          (rhs_entry_retreat, rhs_cr'') \<leftarrow> RetreatEntry rld rhs_cr' (length re);
          CHECK (lhs_entry_retreat = length le);
          CHECK (rhs_entry_retreat = length re);
          m \<leftarrow> edit_rows lld rld (length le) (length re) [1..<length le + 1]
                 (edit_borders (length le) (length re)) lhs_cr'' rhs_cr'';
          result \<leftarrow> edit_path m lhs_range lp le rhs_range rp re (length le) (length re) [];
          Compact_maps (rev result) }"

text \<open>The map of the gap that ends at the given elements, with cursors moved there from the first
  ones; \<open>strict\<close> says whether the number of steps is checked.\<close>

definition gap_map :: "bool \<Rightarrow> loader \<Rightarrow> cursor \<Rightarrow> nat \<Rightarrow> nat \<Rightarrow> loader \<Rightarrow> cursor \<Rightarrow> nat \<Rightarrow> nat \<Rightarrow>
    (IndexRange \<times> IndexRange) list option" where
  "gap_map strict lld lhs_cr lhs_last lhs_stop rld rhs_cr rhs_last rhs_stop =
     (if lhs_last < lhs_stop \<and> rhs_last < rhs_stop then
        do { (lhs_actual_steps, lhs_cr_cpy) \<leftarrow> AdvanceSteps lld lhs_cr lhs_last;
             CHECK (strict \<longrightarrow> lhs_actual_steps = lhs_last);
             (rhs_actual_steps, rhs_cr_cpy) \<leftarrow> AdvanceSteps rld rhs_cr rhs_last;
             CHECK (strict \<longrightarrow> rhs_actual_steps = rhs_last);
             SeqMap lld lhs_cr_cpy \<lparr>start_idx = lhs_last, num_subsequent = lhs_stop - lhs_last\<rparr>
               rld rhs_cr_cpy \<lparr>start_idx = rhs_last, num_subsequent = rhs_stop - rhs_last\<rparr> }
      else Some [])"

definition range_stop :: "IndexRange \<Rightarrow> nat" where
  "range_stop r = (start_idx r + num_subsequent r) mod 2 ^ 64"

fun fill_gaps :: "loader \<Rightarrow> cursor \<Rightarrow> IndexRange \<Rightarrow> loader \<Rightarrow> cursor \<Rightarrow> IndexRange \<Rightarrow> nat \<Rightarrow> nat \<Rightarrow>
    (IndexRange \<times> IndexRange) list \<Rightarrow> (IndexRange \<times> IndexRange) list option" where
  "fill_gaps lld lhs_cr lhs_range rld rhs_cr rhs_range lhs_last rhs_last [] =
     gap_map True lld lhs_cr lhs_last (range_stop lhs_range) rld rhs_cr rhs_last (range_stop rhs_range)"
| "fill_gaps lld lhs_cr lhs_range rld rhs_cr rhs_range lhs_last rhs_last ((l, r) # upper_maps) =
     do { cur_map \<leftarrow> gap_map False lld lhs_cr lhs_last (start_idx l) rld rhs_cr rhs_last (start_idx r);
          rest \<leftarrow> fill_gaps lld lhs_cr lhs_range rld rhs_cr rhs_range (range_stop l) (range_stop r) upper_maps;
          Some (cur_map @ (l, r) # rest) }"

fun LevenshteinMapper_map :: "loader \<Rightarrow> cursor \<Rightarrow> IndexRange \<Rightarrow> loader \<Rightarrow> cursor \<Rightarrow> IndexRange \<Rightarrow>
    (IndexRange \<times> IndexRange) list option" where
  "LevenshteinMapper_map lld (l # lhs_parent) lhs_range rld (r # rhs_parent) rhs_range =
     do { range_maps \<leftarrow>
            (if lhs_parent \<noteq> [] \<and> rhs_parent \<noteq> [] then
               do { upper_maps \<leftarrow> LevenshteinMapper_map lld lhs_parent lhs_range rld rhs_parent rhs_range;
                    fill_gaps lld (l # lhs_parent) lhs_range rld (r # rhs_parent) rhs_range 0 0 upper_maps }
             else SeqMap lld (l # lhs_parent) lhs_range rld (r # rhs_parent) rhs_range);
          Compact_maps range_maps }"
| "LevenshteinMapper_map _ _ _ _ _ _ = None"

definition LevenshteinMapper_Compare :: "loader \<Rightarrow> bytes \<Rightarrow> loader option \<Rightarrow> bytes \<Rightarrow>
    (IndexRange \<times> IndexRange) list option" where
  "LevenshteinMapper_Compare rloader rhs lloader lhs =
     do { let lld = (case lloader of None \<Rightarrow> rloader | Some ld \<Rightarrow> ld);
          lhs_chunk \<leftarrow> lld lhs;
          rhs_chunk \<leftarrow> rloader rhs;
          lhs_node \<leftarrow> CreateFromChunk lhs_chunk;
          rhs_node \<leftarrow> CreateFromChunk rhs_chunk;
          lhs_num_elements \<leftarrow> numElements lhs_node;
          rhs_num_elements \<leftarrow> numElements rhs_node;
          if lhs_num_elements = 0 \<or> rhs_num_elements = 0 then Some []
          else do { lhs_cr \<leftarrow> NodeCursor_idx lld lhs 0;
                    rhs_cr \<leftarrow> NodeCursor_idx rloader rhs 0;
                    LevenshteinMapper_map lld lhs_cr \<lparr>start_idx = 0, num_subsequent = lhs_num_elements\<rparr>
                      rloader rhs_cr \<lparr>start_idx = 0, num_subsequent = rhs_num_elements\<rparr> } }"

end
