(* ===== verification/Chunkable_Diff.thy ===== *)
theory Chunkable_Diff
  imports Chunkable Node_Comparator
begin

text \<open>
  Differences of two lists, maps or sets: \<open>Diff\<close>, \<open>Intersect\<close> and \<open>DuallyDiff\<close> of src/types/ulist.cc,
  umap.cc and uset.cc, and the iterator over both sides of a difference in include/types/uiterator.h.

  Each object comes with its loader; the objects that \<open>Diff\<close> is called on are the left ones.
\<close>

section \<open>Differences and intersections\<close>

text \<open>The part that the types share, with the comparator's result as an argument.\<close>

definition diff_with :: "(bytes \<Rightarrow> bytes) \<Rightarrow> loader \<Rightarrow> chunkable \<Rightarrow> chunkable \<Rightarrow>
    (bytes \<Rightarrow> bytes \<Rightarrow> IndexRange list option) \<Rightarrow> cursor_iterator option" where
  "diff_with hf lld lhs rhs compare =
     do { n \<leftarrow> obj_numElements lhs;
          root \<leftarrow> obj_hash hf lhs;
          if n = 0 then CursorIterator lld root []
          else do { m \<leftarrow> obj_numElements rhs;
                    if m = 0 then CursorIterator lld root [\<lparr>start_idx = 0, num_subsequent = n\<rparr>]
                    else do { rhs_root \<leftarrow> obj_hash hf rhs;
                              ranges \<leftarrow> compare rhs_root root;
                              CursorIterator lld root ranges } } }"

definition intersect_with :: "(bytes \<Rightarrow> bytes) \<Rightarrow> loader \<Rightarrow> chunkable \<Rightarrow> chunkable \<Rightarrow>
    (bytes \<Rightarrow> bytes \<Rightarrow> IndexRange list option) \<Rightarrow> cursor_iterator option" where
  "intersect_with hf lld lhs rhs compare =
     do { n \<leftarrow> obj_numElements lhs;
          root \<leftarrow> obj_hash hf lhs;
          m \<leftarrow> (if n = 0 then Some 0 else obj_numElements rhs);
          if n = 0 \<or> m = 0 then CursorIterator lld root []
          else do { rhs_root \<leftarrow> obj_hash hf rhs;
                    ranges \<leftarrow> compare rhs_root root;
                    CursorIterator lld root ranges } }"

definition UMap_Diff :: "(bytes \<Rightarrow> bytes) \<Rightarrow> loader \<Rightarrow> chunkable \<Rightarrow> loader \<Rightarrow> chunkable \<Rightarrow> cursor_iterator option" where
  "UMap_Diff hf lld lhs rld rhs = diff_with hf lld lhs rhs (\<lambda>rhs_root root. KeyDiffer hf rld rhs_root (Some lld) root)"

definition UMap_Intersect :: "(bytes \<Rightarrow> bytes) \<Rightarrow> loader \<Rightarrow> chunkable \<Rightarrow> loader \<Rightarrow> chunkable \<Rightarrow> cursor_iterator option" where
  "UMap_Intersect hf lld lhs rld rhs =
     intersect_with hf lld lhs rhs (\<lambda>rhs_root root. KeyIntersector hf rld rhs_root (Some lld) root)"

definition USet_Diff :: "(bytes \<Rightarrow> bytes) \<Rightarrow> loader \<Rightarrow> chunkable \<Rightarrow> loader \<Rightarrow> chunkable \<Rightarrow> cursor_iterator option" where
  "USet_Diff hf lld lhs rld rhs = diff_with hf lld lhs rhs (\<lambda>rhs_root root. KeyDiffer hf rld rhs_root (Some lld) root)"

text \<open>The intersection of sets is computed twice; the ranges of the second time, which has no loader
  of its own for the left side, are the ones that are used.\<close>

definition USet_Intersect :: "(bytes \<Rightarrow> bytes) \<Rightarrow> loader \<Rightarrow> chunkable \<Rightarrow> loader \<Rightarrow> chunkable \<Rightarrow> cursor_iterator option" where
  "USet_Intersect hf lld lhs rld rhs =
     intersect_with hf lld lhs rhs (\<lambda>rhs_root root.
       do { _ \<leftarrow> KeyIntersector hf rld rhs_root (Some lld) root; KeyIntersector hf rld rhs_root None root })"

definition UList_Diff :: "(bytes \<Rightarrow> bytes) \<Rightarrow> loader \<Rightarrow> chunkable \<Rightarrow> loader \<Rightarrow> chunkable \<Rightarrow> cursor_iterator option" where
  "UList_Diff hf lld lhs rld rhs = diff_with hf lld lhs rhs (\<lambda>rhs_root root. IndexDiffer hf rld rhs_root (Some lld) root)"

definition UList_Intersect :: "(bytes \<Rightarrow> bytes) \<Rightarrow> loader \<Rightarrow> chunkable \<Rightarrow> loader \<Rightarrow> chunkable \<Rightarrow> cursor_iterator option" where
  "UList_Intersect hf lld lhs rld rhs =
     intersect_with hf lld lhs rhs (\<lambda>rhs_root root. IndexIntersector hf rld rhs_root (Some lld) root)"

section \<open>Iterating over both sides\<close>

text \<open>The key by which the two sides are ordered: the index of an element, or its key.\<close>

datatype iterator_trait = iterator_index_trait | iterator_key_trait

definition trait_it_key :: "iterator_trait \<Rightarrow> cursor_iterator \<Rightarrow> OrderedKey option" where
  "trait_it_key tr it = (case tr of iterator_index_trait \<Rightarrow> map_option KeyValue (it_index it)
     | iterator_key_trait \<Rightarrow> it_key it)"

text \<open>\<open>it_flag\<close> is -1 when the left iterator stands on the current element, 1 when the right one
  does, 0 when both do.\<close>

record dual_iterator =
  lhs_diff_it :: cursor_iterator
  rhs_diff_it :: cursor_iterator
  it_flag :: int
  just_advanced :: bool

definition dual_end :: "dual_iterator \<Rightarrow> bool" where
  "dual_end d \<longleftrightarrow> it_end (lhs_diff_it d) \<and> it_end (rhs_diff_it d)"

definition dual_head :: "dual_iterator \<Rightarrow> bool" where
  "dual_head d \<longleftrightarrow> it_head (lhs_diff_it d) \<and> it_head (rhs_diff_it d)"

definition update_flag :: "iterator_trait \<Rightarrow> bool \<Rightarrow> dual_iterator \<Rightarrow> dual_iterator option" where
  "update_flag tr isGreaterValid d =
     (let l = lhs_diff_it d; r = rhs_diff_it d in
      if dual_head d \<or> dual_end d then Some (d\<lparr>it_flag := 0\<rparr>)
      else if it_head l \<or> it_end l then Some (d\<lparr>it_flag := 1\<rparr>)
      else if it_head r \<or> it_end r then Some (d\<lparr>it_flag := -1\<rparr>)
      else do { lk \<leftarrow> trait_it_key tr l;
                rk \<leftarrow> trait_it_key tr r;
                less \<leftarrow> key_less lk rk;
                if less then Some (d\<lparr>it_flag := (if isGreaterValid then 1 else -1)\<rparr>)
                else do { same \<leftarrow> key_eq lk rk;
                          if same then Some (d\<lparr>it_flag := 0\<rparr>)
                          else do { greater \<leftarrow> key_greater lk rk;
                                    if greater then Some (d\<lparr>it_flag := (if isGreaterValid then -1 else 1)\<rparr>)
                                    else Some d } } })"

text \<open>Moving one of the iterators, or both.\<close>

definition move_lhs :: "(cursor_iterator \<Rightarrow> (bool \<times> cursor_iterator) option) \<Rightarrow> dual_iterator \<Rightarrow> dual_iterator option" where
  "move_lhs step d = do { (_, it) \<leftarrow> step (lhs_diff_it d); Some (d\<lparr>lhs_diff_it := it\<rparr>) }"

definition move_rhs :: "(cursor_iterator \<Rightarrow> (bool \<times> cursor_iterator) option) \<Rightarrow> dual_iterator \<Rightarrow> dual_iterator option" where
  "move_rhs step d = do { (_, it) \<leftarrow> step (rhs_diff_it d); Some (d\<lparr>rhs_diff_it := it\<rparr>) }"

definition DuallyDiffIterator :: "iterator_trait \<Rightarrow> loader \<Rightarrow> cursor_iterator \<Rightarrow> loader \<Rightarrow> cursor_iterator \<Rightarrow>
    dual_iterator option" where
  "DuallyDiffIterator tr lld l rld r =
     do { let d = \<lparr>lhs_diff_it = l, rhs_diff_it = r, it_flag = 0, just_advanced = True\<rparr>;
          CHECK (dual_head d);
          d \<leftarrow> move_lhs (it_next lld) d;
          d \<leftarrow> move_rhs (it_next rld) d;
          update_flag tr False d }"

definition dual_next :: "iterator_trait \<Rightarrow> loader \<Rightarrow> loader \<Rightarrow> dual_iterator \<Rightarrow> (bool \<times> dual_iterator) option" where
  "dual_next tr lld rld d =
     do { d \<leftarrow>
            (if just_advanced d then Some d
             else if it_flag d = -1 then move_rhs (it_next rld) (d\<lparr>just_advanced := True\<rparr>)
             else if it_flag d = 1 then move_lhs (it_next lld) (d\<lparr>just_advanced := True\<rparr>)
             else Some (d\<lparr>just_advanced := True\<rparr>));
          d \<leftarrow>
            (if dual_end d then Some d
             else if dual_head d then do { d \<leftarrow> move_lhs (it_next lld) d; move_rhs (it_next rld) d }
             else if it_flag d = -1 then move_lhs (it_next lld) d
             else if it_flag d = 0 then do { d \<leftarrow> move_lhs (it_next lld) d; move_rhs (it_next rld) d }
             else if it_flag d = 1 then move_rhs (it_next rld) d
             else None);
          d \<leftarrow> update_flag tr False d;
          Some (\<not> dual_end d, d) }"

definition dual_previous :: "iterator_trait \<Rightarrow> loader \<Rightarrow> loader \<Rightarrow> dual_iterator \<Rightarrow> (bool \<times> dual_iterator) option" where
  "dual_previous tr lld rld d =
     do { d \<leftarrow>
            (if \<not> just_advanced d then Some d
             else if it_flag d = -1 then move_rhs (it_previous rld) (d\<lparr>just_advanced := False\<rparr>)
             else if it_flag d = 1 then move_lhs (it_previous lld) (d\<lparr>just_advanced := False\<rparr>)
             else Some (d\<lparr>just_advanced := False\<rparr>));
          d \<leftarrow>
            (if dual_head d then Some d
             else if dual_end d then do { d \<leftarrow> move_lhs (it_previous lld) d; move_rhs (it_previous rld) d }
             else if it_flag d = -1 then move_lhs (it_previous lld) d
             else if it_flag d = 0 then do { d \<leftarrow> move_lhs (it_previous lld) d; move_rhs (it_previous rld) d }
             else if it_flag d = 1 then move_rhs (it_previous rld) d
             else None);
          d \<leftarrow> update_flag tr True d;
          Some (\<not> dual_head d, d) }"

definition dual_lhs_value :: "ChunkType \<Rightarrow> dual_iterator \<Rightarrow> slice option" where
  "dual_lhs_value ty d = (if it_flag d \<le> 0 then it_value ty (lhs_diff_it d) else Some ([], 0))"

definition dual_rhs_value :: "ChunkType \<Rightarrow> dual_iterator \<Rightarrow> slice option" where
  "dual_rhs_value ty d = (if it_flag d \<ge> 0 then it_value ty (rhs_diff_it d) else Some ([], 0))"

text \<open>The key of the current element, and its index; each iterator supports one of them.\<close>

definition dual_key :: "iterator_trait \<Rightarrow> dual_iterator \<Rightarrow> OrderedKey option" where
  "dual_key tr d = (if tr = iterator_key_trait then it_key (if it_flag d \<le> 0 then lhs_diff_it d else rhs_diff_it d) else None)"

definition dual_index :: "iterator_trait \<Rightarrow> dual_iterator \<Rightarrow> nat option" where
  "dual_index tr d = (if tr = iterator_index_trait then it_index (if it_flag d \<le> 0 then lhs_diff_it d else rhs_diff_it d) else None)"

text \<open>\<open>DuallyDiff\<close>: both differences, moved in front of their first elements.\<close>

definition dually :: "iterator_trait \<Rightarrow> (loader \<Rightarrow> chunkable \<Rightarrow> loader \<Rightarrow> chunkable \<Rightarrow> cursor_iterator option) \<Rightarrow>
    loader \<Rightarrow> chunkable \<Rightarrow> loader \<Rightarrow> chunkable \<Rightarrow> dual_iterator option" where
  "dually tr diff lld lhs rld rhs =
     do { l \<leftarrow> diff lld lhs rld rhs;
          r \<leftarrow> diff rld rhs lld lhs;
          (_, l) \<leftarrow> it_previous lld l;
          (_, r) \<leftarrow> it_previous rld r;
          DuallyDiffIterator tr lld l rld r }"

definition UMap_DuallyDiff :: "(bytes \<Rightarrow> bytes) \<Rightarrow> loader \<Rightarrow> chunkable \<Rightarrow> loader \<Rightarrow> chunkable \<Rightarrow> dual_iterator option" where
  "UMap_DuallyDiff hf = dually iterator_key_trait (UMap_Diff hf)"

definition USet_DuallyDiff :: "(bytes \<Rightarrow> bytes) \<Rightarrow> loader \<Rightarrow> chunkable \<Rightarrow> loader \<Rightarrow> chunkable \<Rightarrow> dual_iterator option" where
  "USet_DuallyDiff hf = dually iterator_key_trait (USet_Diff hf)"

definition UList_DuallyDiff :: "(bytes \<Rightarrow> bytes) \<Rightarrow> loader \<Rightarrow> chunkable \<Rightarrow> loader \<Rightarrow> chunkable \<Rightarrow> dual_iterator option" where
  "UList_DuallyDiff hf = dually iterator_index_trait (UList_Diff hf)"

end
