(* ===== verification/Tree_Levels.thy ===== *)
theory Tree_Levels
  imports Build_Tree
begin

text \<open>
  A tree, level by level.  A tree of height \<open>h\<close> is the list of its levels, the leaves first; the
  entries of the nodes of one level are numbered through.  \<open>pos L g\<close> is the cursor on entry \<open>g\<close>
  of the lowest level of \<open>L\<close>, which for the whole tree is the cursor on element \<open>g\<close>; it is also
  defined behind the last entry.  Advancing moves from \<open>g\<close> to \<open>g + 1\<close> on every level.
\<close>

section \<open>Levels and positions\<close>

fun kids :: "ptree \<Rightarrow> ptree list" where
  "kids (PLeaf es) = []"
| "kids (PNode ts) = ts"

fun width :: "ptree \<Rightarrow> nat" where
  "width (PLeaf es) = length es"
| "width (PNode ts) = length ts"

definition span :: "ptree list \<Rightarrow> nat" where
  "span N = sum_list (map width N)"

definition start :: "ptree list \<Rightarrow> nat \<Rightarrow> nat" where
  "start N j = sum_list (take j (map width N))"

definition node_at :: "ptree list \<Rightarrow> nat \<Rightarrow> nat" where
  "node_at N g = min (find_child (map width N) g) (length N - 1)"

fun pos :: "(bytes \<Rightarrow> bytes) \<Rightarrow> ChunkType \<Rightarrow> ptree list list \<Rightarrow> nat \<Rightarrow> cursor" where
  "pos hf ty [] g = []"
| "pos hf ty (N # Ns) g =
     (tree_node hf ty (N ! node_at N g), int (g - start N (node_at N g))) # pos hf ty Ns (node_at N g)"

fun lev :: "(bytes \<Rightarrow> bytes) \<Rightarrow> ChunkType \<Rightarrow> ptree list list \<Rightarrow> bool" where
  "lev hf ty [] = False"
| "lev hf ty (N # Ns) = ((\<forall>t \<in> set N. tree_wf hf ty t) \<and>
     (case Ns of [] \<Rightarrow> length N = 1
      | N' # _ \<Rightarrow> N = concat (map kids N') \<and> (\<forall>t \<in> set N'. t \<noteq> PLeaf (elems t)) \<and>
          (\<forall>t \<in> set N. 0 < width t) \<and> lev hf ty Ns))"

definition kept :: "(bytes \<Rightarrow> bytes) \<Rightarrow> ChunkType \<Rightarrow> loader \<Rightarrow> ptree list list \<Rightarrow> bool" where
  "kept hf ty ld L \<longleftrightarrow> (\<forall>N \<in> set L. \<forall>t \<in> set N. stored hf ty ld t)"

lemma length_root_entries [simp]: "length (root_entries hf ty t) = width t"
  by (cases t) auto

lemma start_simps [simp]: "start N 0 = 0" "start N (length N) = span N"
  by (simp_all add: start_def span_def)

lemma start_Suc: "j < length N \<Longrightarrow> start N (Suc j) = start N j + width (N ! j)"
  by (simp add: start_def take_Suc_conv_app_nth)

lemma start_mono: "i \<le> j \<Longrightarrow> start N i \<le> start N j"
  by (metis le_iff_add start_def sum_list_append take_add)

lemma start_le_span: "start N j \<le> span N"
  by (metis append_take_drop_id le_add1 span_def start_def sum_list_append)

lemma node_at_inside:
  assumes "g < span N"
  shows "node_at N g < length N" and "start N (node_at N g) \<le> g"
    and "g < start N (node_at N g) + width (N ! node_at N g)"
proof -
  have f: "find_child (map width N) g < length N"
    using assms find_child_less[of "map width N" g] by (simp add: span_def)
  then have n: "node_at N g = find_child (map width N) g" by (auto simp: node_at_def)
  show "node_at N g < length N" using f n by simp
  with find_child_bounds[of g "map width N"] assms n
  show "start N (node_at N g) \<le> g" "g < start N (node_at N g) + width (N ! node_at N g)"
    by (auto simp: start_def span_def)
qed

lemma node_atI:
  assumes "j < length N" and "start N j \<le> g" and "g < start N j + width (N ! j)"
  shows "node_at N g = j"
  using find_child_eqI[of j "map width N" g] assms start_Suc[OF assms(1)]
  by (simp add: node_at_def start_def)

lemma node_at_end: "N \<noteq> [] \<Longrightarrow> node_at N (span N) = length N - 1"
proof -
  have "\<not> find_child (map width N) (span N) < length N"
    using find_child_less[of "map width N" "span N"] by (simp add: span_def)
  then show ?thesis by (simp add: node_at_def)
qed

lemma end_index: "N \<noteq> [] \<Longrightarrow> span N - start N (length N - 1) = width (N ! (length N - 1))"
  using start_Suc[of "length N - 1" N] by (simp flip: start_simps(2))

lemma start_last: "N \<noteq> [] \<Longrightarrow> start N (length N - 1) + width (N ! (length N - 1)) = span N"
  using start_Suc[of "length N - 1" N] by simp

lemma lev_nodes:
  "lev hf ty (N # Ns) \<Longrightarrow> t \<in> set N \<Longrightarrow> tree_wf hf ty t"
  by simp

lemma lev_nonempty: "lev hf ty (N # Ns) \<Longrightarrow> N \<noteq> []"
proof (induction Ns arbitrary: N)
  case (Cons N' Ns)
  then have "N' \<noteq> []" "N = concat (map kids N')" "\<forall>t \<in> set N'. tree_wf hf ty t \<and> t \<noteq> PLeaf (elems t)"
    by auto
  then obtain t where "t \<in> set N'" "tree_wf hf ty t" "t \<noteq> PLeaf (elems t)" by (cases N') auto
  then have "kids t \<noteq> []" using tree_wf_node(1)[of hf ty "kids t"] by (cases t rule: ptree.exhaust) auto
  with \<open>t \<in> set N'\<close> \<open>N = _\<close> show ?case by auto
qed auto

lemma width_kids: "t \<noteq> PLeaf (elems t) \<Longrightarrow> length (kids t) = width t"
  by (cases t) auto

lemma lev_Cons2:
  assumes "lev hf ty (N # N' # Ns)"
  shows "N = concat (map kids N')" and "lev hf ty (N' # Ns)" and "span N' = length N"
    and "\<And>t. t \<in> set N' \<Longrightarrow> \<exists>ts. t = PNode ts" and "\<And>t. t \<in> set N \<Longrightarrow> 0 < width t"
proof -
  have k: "\<forall>t \<in> set N'. t \<noteq> PLeaf (elems t)" and N: "N = concat (map kids N')" using assms by auto
  show "N = concat (map kids N')" by (rule N)
  show "span N' = length N"
    using k width_kids by (auto simp: N span_def length_concat comp_def intro!: arg_cong[of _ _ sum_list])
  show "lev hf ty (N' # Ns)" "\<And>t. t \<in> set N \<Longrightarrow> 0 < width t" using assms by auto
  show "\<exists>ts. t = PNode ts" if "t \<in> set N'" for t using k that by (cases t) auto
qed

lemma lev_top: "lev hf ty [N] \<Longrightarrow> length N = 1"
  by simp

lemma nth_kids:
  assumes "\<And>t. t \<in> set N' \<Longrightarrow> \<exists>ts. t = PNode ts" and "g < span N'"
  shows "concat (map kids N') ! g = kids (N' ! node_at N' g) ! (g - start N' (node_at N' g))"
    and "g - start N' (node_at N' g) < length (kids (N' ! node_at N' g))"
proof -
  let ?j = "node_at N' g"
  note j = node_at_inside[OF assms(2)]
  have len: "length (concat (map kids (take k N'))) = start N' k" for k
  proof -
    have "\<forall>t \<in> set (take k N'). length (kids t) = width t"
      using assms(1) by (fastforce dest: in_set_takeD)
    then show ?thesis by (auto simp: length_concat start_def take_map comp_def intro!: arg_cong[of _ _ sum_list])
  qed
  have w: "length (kids (N' ! ?j)) = width (N' ! ?j)" using assms(1)[of "N' ! ?j"] j(1) by auto
  have "concat (map kids N') = concat (map kids (take ?j N')) @ kids (N' ! ?j) @ concat (map kids (drop (Suc ?j) N'))"
    using id_take_nth_drop[OF j(1)] by (metis concat.simps(2) concat_append list.simps(9) map_append)
  moreover show "g - start N' ?j < length (kids (N' ! ?j))" using j(2,3) unfolding w by linarith
  ultimately show "concat (map kids N') ! g = kids (N' ! ?j) ! (g - start N' ?j)"
    using len[of ?j] j(2) by (simp add: nth_append)
qed

lemma load_child_pos:
  assumes "lev hf ty (N # N' # Ns)" and "kept hf ty ld (N' # Ns)" and "j < length N"
  shows "load_child ld (pos hf ty (N' # Ns) j) = Some (tree_node hf ty (N ! j))"
proof -
  note l = lev_Cons2[OF assms(1)]
  let ?j' = "node_at N' j"
  have s: "j < span N'" using assms(3) l(3) by simp
  note j' = node_at_inside[OF s]
  obtain ts where ts: "N' ! ?j' = PNode ts" using l(4) j'(1) nth_mem by blast
  have i: "j - start N' ?j' < length ts" "N ! j = ts ! (j - start N' ?j')"
    using nth_kids[OF l(4) s] ts by (simp_all flip: l(1))
  have "tree_wf hf ty (PNode ts)" "stored hf ty ld (PNode ts)"
    using l(2) assms(2) j'(1) nth_mem[OF j'(1)] ts by (auto simp: kept_def)
  from load_child_tree[OF this i(1)] show ?thesis using i(2) ts by simp
qed

lemma lev_numEntries:
  assumes "lev hf ty (N # Ns)" and "j < length N"
  shows "numEntries (tree_node hf ty (N ! j)) = Some (width (N ! j))" and "width (N ! j) < 2 ^ 31"
  using assms tree_node_numEntries[of hf ty "N ! j"] tree_entries_bound[of hf ty "N ! j"] by auto

section \<open>Advancing\<close>

lemma Advance_pos:
  assumes "lev hf ty (N # Ns)" and "kept hf ty ld (N # Ns)" and "Suc g < span N"
  shows "Advance ld True (pos hf ty (N # Ns) g) = Some (True, pos hf ty (N # Ns) (Suc g))"
  using assms
proof (induction Ns arbitrary: N g)
  case Nil
  then obtain t where N: "N = [t]" by (cases N) auto
  have n: "node_at [t] k = 0" for k by (simp add: node_at_def)
  from Nil show ?case
    using lev_numEntries[OF Nil(1), of 0] by (simp add: N n span_def Let_def)
next
  case (Cons N' Ns)
  note l = lev_Cons2[OF Cons.prems(1)]
  let ?j = "node_at N g"
  have g: "g < span N" using Cons.prems(3) by simp
  note j = node_at_inside[OF g] and n = lev_numEntries[OF Cons.prems(1) node_at_inside(1)[OF g]]
  show ?case
  proof (cases "Suc g < start N ?j + width (N ! ?j)")
    case True
    then have "node_at N (Suc g) = ?j" using j by (intro node_atI) auto
    with True j n show ?thesis
      by (simp add: Let_def)
  next
    case False
    then have last: "Suc g = start N ?j + width (N ! ?j)" using j by simp
    have "Suc ?j \<noteq> length N"
    proof
      assume "Suc ?j = length N"
      with start_Suc[OF j(1)] last Cons.prems(3) show False by simp
    qed
    then have sj: "Suc ?j < length N" using j(1) by simp
    have w: "0 < width (N ! Suc ?j)" using l(5) sj by simp
    have "start N (Suc ?j) = Suc g" using last start_Suc[OF j(1)] by simp
    with w have j': "node_at N (Suc g) = Suc ?j" "Suc g - start N (Suc ?j) = 0"
      using sj by (auto intro: node_atI)
    have k': "kept hf ty ld (N' # Ns)" using Cons.prems(2) by (simp add: kept_def)
    have up: "Advance ld True (pos hf ty (N' # Ns) ?j) = Some (True, pos hf ty (N' # Ns) (Suc ?j))"
      using Cons.IH[OF l(2) k'] sj l(3) by simp
    show ?thesis
      using last up load_child_pos[OF Cons.prems(1) k' sj] n j' j
      by (simp add: Let_def)
  qed
qed

lemma Advance_pos_end:
  assumes "lev hf ty (N # Ns)" and "g = span N \<or> Suc g = span N"
  shows "Advance ld True (pos hf ty (N # Ns) g) = Some (False, pos hf ty (N # Ns) (span N))"
  using assms
proof (induction Ns arbitrary: N g)
  case Nil
  then obtain t where N: "N = [t]" by (cases N) auto
  have n: "node_at [t] k = 0" for k by (simp add: node_at_def)
  from Nil show ?case
    using lev_numEntries[OF Nil(1), of 0] by (auto simp: N n span_def Let_def)
next
  case (Cons N' Ns)
  note l = lev_Cons2[OF Cons.prems(1)]
  let ?e = "length N - 1"
  have ne: "N \<noteq> []" by (rule lev_nonempty[OF Cons.prems(1)])
  then have e: "?e < length N" by simp
  note n = lev_numEntries[OF Cons.prems(1) e]
  have w: "0 < width (N ! ?e)" using l(5) e by simp
  have at: "node_at N g = ?e"
    using Cons.prems(2) node_at_end[OF ne] start_last[OF ne] w e by (auto intro: node_atI)
  have up: "Advance ld True (pos hf ty (N' # Ns) ?e) = Some (False, pos hf ty (N' # Ns) (length N))"
    using Cons.IH[OF l(2), of ?e] l(3) e by simp
  have ne': "N' \<noteq> []" by (rule lev_nonempty[OF l(2)])
  have at': "node_at N' (length N) = length N' - 1" "node_at N' ?e = length N' - 1"
  proof -
    show "node_at N' (length N) = length N' - 1" using node_at_end[OF ne'] l(3) by simp
    have "0 < width (N' ! (length N' - 1))"
    proof -
      have "N' ! (length N' - 1) \<in> set N'" using ne' by simp
      with l(4) obtain ts where ts: "N' ! (length N' - 1) = PNode ts" "PNode ts \<in> set N'" by metis
      then have "ts \<noteq> []" using lev_nodes[OF l(2)] tree_wf_node(1) by blast
      with ts show ?thesis by simp
    qed
    with start_last[OF ne'] l(3) ne' e show "node_at N' ?e = length N' - 1"
      by (intro node_atI) auto
  qed
  have ret: "Retreat_within (pos hf ty (N' # Ns) (length N)) = Some (True, pos hf ty (N' # Ns) ?e)"
  proof -
    have "start N' (length N' - 1) \<le> ?e"
      using node_at_inside(2)[of ?e N'] at'(2) l(3) e by simp
    then show ?thesis using at' e by (auto simp: Retreat_within_def Let_def)
  qed
  show ?case
    using at up ret n node_at_end[OF ne] end_index[OF ne] Cons.prems(2) w start_last[OF ne]
    by (auto simp: Let_def)
qed

lemma Advance_within_pos:
  assumes "lev hf ty (N # Ns)" and "g < span N"
  shows "Advance_within (pos hf ty (N # Ns) g) =
    (if Suc g < start N (Suc (node_at N g)) then Some (True, pos hf ty (N # Ns) (Suc g))
     else Some (False, (tree_node hf ty (N ! node_at N g), int (width (N ! node_at N g))) #
            pos hf ty Ns (node_at N g)))"
proof -
  let ?j = "node_at N g"
  note j = node_at_inside[OF assms(2)] and n = lev_numEntries[OF assms(1) node_at_inside(1)[OF assms(2)]]
  note s = start_Suc[OF j(1)]
  show ?thesis
  proof (cases "Suc g < start N (Suc ?j)")
    case True
    with s j have "node_at N (Suc g) = ?j" by (intro node_atI) auto
    with True j n s show ?thesis by (simp add: Advance_within_def Let_def)
  next
    case False
    with j s have "Suc g = start N ?j + width (N ! ?j)" by simp
    with j n False show ?thesis by (auto simp: Advance_within_def Let_def)
  qed
qed

lemma isEnd_pos:
  assumes "lev hf ty (N # Ns)" and "g \<le> span N"
  shows "isEnd (pos hf ty (N # Ns) g) = Some (g = span N)"
proof (cases "g = span N")
  case True
  have ne: "N \<noteq> []" by (rule lev_nonempty[OF assms(1)])
  then show ?thesis
    using lev_numEntries[OF assms(1), of "length N - 1"] True node_at_end[OF ne] end_index[OF ne]
    by (simp add: isEnd_def)
next
  case False
  with assms(2) have "g < span N" by simp
  note j = node_at_inside[OF this]
  from lev_numEntries[OF assms(1) j(1)] j False show ?thesis by (simp add: isEnd_def)
qed

text \<open>Moving behind the last entry of the current node.\<close>

lemma advance_entry_loop_node:
  assumes "Advance ld True ((nd, idx + int n - 1) # parent) = Some (m, cur')"
    and "m \<Longrightarrow> \<exists>nd' p' n'. cur' = (nd', 0) # p' \<and> numEntries nd' = Some n'"
  shows "advance_entry_loop ld ((nd, idx) # parent) n n = Some (0, cur')"
  using assms by (subst advance_entry_loop.simps) (cases m; auto simp: Let_def simp del: Advance.simps)

lemma AdvanceEntry_pos:
  assumes "lev hf ty (N # Ns)" and "kept hf ty ld (N # Ns)" and "g < span N"
  shows "\<exists>k. AdvanceEntry ld (pos hf ty (N # Ns) g) (width (N ! node_at N g) - (g - start N (node_at N g))) =
    Some (k, pos hf ty (N # Ns) (start N (Suc (node_at N g))))"
proof -
  let ?j = "node_at N g" and ?nd = "tree_node hf ty (N ! node_at N g)"
  let ?rem = "width (N ! ?j) - (g - start N ?j)"
  note j = node_at_inside[OF assms(3)]
  note n = lev_numEntries[OF assms(1) j(1)] and s = start_Suc[OF j(1)]
  define e where "e = start N (Suc ?j) - 1"
  have e: "Suc e = start N (Suc ?j)" "start N ?j \<le> e" "e < start N ?j + width (N ! ?j)"
    using j(2,3) s by (auto simp: e_def)
  have at: "node_at N e = ?j" using j(1) e by (intro node_atI)
  have cur: "(?nd, int (g - start N ?j) + int ?rem - 1) # pos hf ty Ns ?j = pos hf ty (N # Ns) e"
    using at e j s by simp
  have le: "Suc e \<le> span N" using e(1) start_le_span by simp
  have adv: "Advance ld True (pos hf ty (N # Ns) e) =
      Some (Suc e < span N, pos hf ty (N # Ns) (Suc e))"
  proof (cases "Suc e < span N")
    case True
    with Advance_pos[OF assms(1,2)] show ?thesis by simp
  next
    case False
    with le have "Suc e = span N" by simp
    with Advance_pos_end[OF assms(1), of e ld] show ?thesis by simp
  qed
  have end0: "isEnd (pos hf ty (N # Ns) g) = Some False" using isEnd_pos[OF assms(1), of g] assms(3) by simp
  have next0: "Suc e < span N \<Longrightarrow> Suc e - start N (node_at N (Suc e)) = 0"
  proof -
    assume lt: "Suc e < span N"
    note k = node_at_inside[OF lt]
    have "start N (Suc ?j) \<le> start N (node_at N (Suc e))"
    proof (rule start_mono)
      show "Suc ?j \<le> node_at N (Suc e)"
      proof (rule ccontr)
        assume "\<not> Suc ?j \<le> node_at N (Suc e)"
        then have "Suc (node_at N (Suc e)) \<le> Suc ?j" by simp
        from start_mono[OF this, of N] start_Suc[OF k(1)] k(3) e(1) show False by simp
      qed
    qed
    with e(1) show ?thesis by simp
  qed
  have n': "Suc e < span N \<Longrightarrow> numEntries (tree_node hf ty (N ! node_at N (Suc e))) =
      Some (width (N ! node_at N (Suc e)))"
    using lev_numEntries[OF assms(1) node_at_inside(1)] by blast
  have "advance_entry_loop ld (pos hf ty (N # Ns) g) ?rem ?rem = Some (0, pos hf ty (N # Ns) (Suc e))"
    unfolding pos.simps(2)[of hf ty N Ns g]
    by (rule advance_entry_loop_node[where m = "Suc e < span N"])
      (unfold cur, rule adv, use next0 n' in simp)
  then show ?thesis
    using end0 n j e(1)
    by (simp add: AdvanceEntry_def nat_diff_distrib of_nat_diff)
qed

section \<open>Descending\<close>

lemma before_concat: "before ts j = length (concat (map elems (take j ts)))"
  by (simp add: before_def sizes_def take_map length_concat comp_def)

lemma take_kids:
  assumes "\<And>t. t \<in> set N' \<Longrightarrow> \<exists>ts. t = PNode ts" and "j < length N'" and "c \<le> width (N' ! j)"
  shows "take (start N' j + c) (concat (map kids N')) = concat (map kids (take j N')) @ take c (kids (N' ! j))"
proof -
  have len: "length (concat (map kids (take j N'))) = start N' j"
  proof -
    have "\<forall>t \<in> set (take j N'). length (kids t) = width t"
      using assms(1) by (fastforce dest: in_set_takeD)
    then show ?thesis by (auto simp: length_concat start_def take_map comp_def intro!: arg_cong[of _ _ sum_list])
  qed
  have w: "length (kids (N' ! j)) = width (N' ! j)" using assms(1)[of "N' ! j"] assms(2) by auto
  have "concat (map kids N') = concat (map kids (take j N')) @ kids (N' ! j) @ concat (map kids (drop (Suc j) N'))"
    using id_take_nth_drop[OF assms(2)] by (metis concat.simps(2) concat_append list.simps(9) map_append)
  with len w assms(3) show ?thesis by simp
qed

lemma before_kids:
  assumes "\<And>t. t \<in> set N' \<Longrightarrow> \<exists>ts. t = PNode ts" and "j < length N'" and "c \<le> width (N' ! j)"
  shows "before (concat (map kids N')) (start N' j + c) = before N' j + before (kids (N' ! j)) c"
proof -
  have "concat (map elems (concat (map kids M))) = concat (map elems M)" if "\<forall>t \<in> set M. \<exists>ts. t = PNode ts" for M
    using that by (induction M) auto
  moreover have "\<forall>t \<in> set (take j N'). \<exists>ts. t = PNode ts" using assms(1) by (auto dest: in_set_takeD)
  moreover note take_kids[OF assms]
  ultimately show ?thesis unfolding before_concat by (simp del: length_concat)
qed

lemma before_leaves: "\<forall>t \<in> set N. t = PLeaf (elems t) \<Longrightarrow> before N j = start N j"
proof -
  assume "\<forall>t \<in> set N. t = PLeaf (elems t)"
  then have "map (\<lambda>t. length (elems t)) N = map width N" by (auto, metis width.simps(1))
  then show ?thesis unfolding before_def sizes_def start_def by (rule arg_cong)
qed

text \<open>One step down by index, also at the end of the elements.\<close>

lemma descend_idx_step:
  assumes "tree_wf hf ty (PNode ts)" and "stored hf ty ld (PNode ts)" and "e \<le> length (elems (PNode ts))"
    and c: "c = min (child_of ts e) (length ts - 1)"
  shows "descend_idx ld (tree_node hf ty (PNode ts)) e acc =
      descend_idx ld (tree_node hf ty (ts ! c)) (e - before ts c) ((tree_node hf ty (PNode ts), int c) # acc)"
    and "c < length ts" and "before ts c \<le> e"
proof -
  let ?ms = "map (tree_me hf ty) ts"
  note ok = tree_wf_node(3,1,2)[OF assms(1)]
  show cl: "c < length ts" using ok(2) c by (cases ts) auto
  have sz: "map me_elements ?ms = sizes ts" by (simp add: sizes_def)
  have gc: "MetaNode_GetChildHashByIndex (meta_chunk ?ms) e = Some (child_result ?ms 0 (child_of ts e))"
    using MetaNode_GetChildHashByIndex_eq[OF ok(1), of e] ok(2) unfolding sz child_of_def by simp
  have ge: "MetaNode_GetChildHashByEntry (meta_chunk ?ms) (var_offsets (map me_bytes ?ms)) (length ts - 1) =
      Some (tree_hash hf ty (ts ! (length ts - 1)))"
    using MetaNode_entry_eq(3)[OF ok(1), of "length ts - 1"] ok(2) by simp
  have until: "MetaNode_numElementsUntilEntry (meta_chunk ?ms) c = Some (before ts c)"
    using MetaNode_numElementsUntilEntry_eq[OF ok(1), of c] cl
    by (simp add: total_elements_def before_def sizes_def take_map comp_def)
  show b: "before ts c \<le> e"
  proof (cases "e < length (elems (PNode ts))")
    case True
    with child_of_less[OF True] have "c = child_of ts e" using c by linarith
    with child_of_bounds(1)[OF True] show ?thesis by simp
  next
    case False
    with assms(3) have "e = length (elems (PNode ts))" by simp
    then show ?thesis unfolding length_elems_PNode before_def
      by (metis append_take_drop_id le_add1 sum_list_append)
  qed
  have n: "MetaNode_numEntries (meta_chunk ?ms) = Some (length ts)"
    using tree_node_numEntries[OF assms(1)] by simp
  note wf = tree_wf_nth(1)[OF assms(1) cl] and st = stored_nth[OF assms(2) cl]
  show "descend_idx ld (tree_node hf ty (PNode ts)) e acc =
      descend_idx ld (tree_node hf ty (ts ! c)) (e - before ts c) ((tree_node hf ty (PNode ts), int c) # acc)"
  proof (cases "child_of ts e < length ts")
    case True
    then have "c = child_of ts e" using c by simp
    with gc until n ok cl b True stored_root[OF st] CreateFromChunk_tree[OF wf] show ?thesis
      by (subst descend_idx.simps) (simp add: child_result_def)
  next
    case False
    then have "c = length ts - 1" using c by simp
    then show ?thesis
      using gc ge until n ok cl b False stored_root[OF st] CreateFromChunk_tree[OF wf]
      by (subst descend_idx.simps) (simp add: child_result_def sub64_def[of "length ts"] Suc_le_eq)
  qed
qed

lemma lev_drop: "lev hf ty L \<Longrightarrow> k < length L \<Longrightarrow> lev hf ty (drop k L)"
proof (induction k)
  case (Suc k)
  then have k: "k < length L" by simp
  with Suc have "lev hf ty (L ! k # L ! Suc k # drop (Suc (Suc k)) L)"
    by (simp add: Cons_nth_drop_Suc)
  from lev_Cons2(2)[OF this] Cons_nth_drop_Suc[OF Suc.prems(2)] show ?case by simp
qed simp

lemma kept_drop: "kept hf ty ld L \<Longrightarrow> kept hf ty ld (drop k L)"
  by (auto simp: kept_def dest: in_set_dropD)

definition leaves_first :: "ptree list list \<Rightarrow> bool" where
  "leaves_first L \<longleftrightarrow> L \<noteq> [] \<and> (\<forall>t \<in> set (hd L). t = PLeaf (elems t))"

text \<open>Putting a frame on top of the cursor on a node.\<close>

lemma pos_push:
  assumes "j < length N" and "c < width (N ! j) \<or> Suc j = length N \<and> c = width (N ! j)"
  shows "(tree_node hf ty (N ! j), int c) # pos hf ty Ns j = pos hf ty (N # Ns) (start N j + c)"
proof -
  have "node_at N (start N j + c) = j"
  proof (cases "c < width (N ! j)")
    case True
    with assms(1) show ?thesis by (intro node_atI) auto
  next
    case False
    with assms have "Suc j = length N" "c = width (N ! j)" by auto
    then have "start N j + c = span N" using start_Suc[OF assms(1)] by (simp flip: start_simps(2))
    moreover have "N \<noteq> []" using assms(1) by auto
    ultimately show ?thesis using node_at_end[of N] \<open>Suc j = length N\<close> by (metis diff_Suc_1)
  qed
  then show ?thesis by simp
qed

text \<open>From the node \<open>j\<close> of level \<open>Suc k\<close> to its child \<open>c\<close>.\<close>

lemma child_below:
  assumes "lev hf ty L" and "Suc k < length L" and "j < length (L ! Suc k)" and "c < width (L ! Suc k ! j)"
  shows "\<exists>ts. L ! Suc k ! j = PNode ts \<and> start (L ! Suc k) j + c < length (L ! k) \<and>
      L ! k ! (start (L ! Suc k) j + c) = ts ! c \<and>
      before (L ! k) (start (L ! Suc k) j + c) = before (L ! Suc k) j + before ts c \<and>
      (Suc j = length (L ! Suc k) \<and> Suc c = length ts \<longrightarrow> Suc (start (L ! Suc k) j + c) = length (L ! k))"
proof -
  let ?N = "L ! Suc k" and ?g = "start (L ! Suc k) j + c"
  have "lev hf ty (L ! k # ?N # drop (Suc (Suc k)) L)"
    using lev_drop[OF assms(1), of k] assms(2) by (simp add: Cons_nth_drop_Suc)
  note l = lev_Cons2[OF this]
  obtain ts where ts: "?N ! j = PNode ts" using l(4) assms(3) nth_mem by blast
  have g: "?g < start ?N (Suc j)" using start_Suc[OF assms(3)] assms(4) by simp
  then have s: "?g < span ?N" using start_le_span[of ?N "Suc j"] by linarith
  have at: "node_at ?N ?g = j" using assms(3,4) by (intro node_atI) auto
  have "L ! k ! ?g = ts ! c" using nth_kids(1)[OF l(4) s] at ts by (simp flip: l(1))
  moreover have "before (L ! k) ?g = before ?N j + before ts c"
    using before_kids[OF l(4) assms(3), of c] assms(4) ts by (simp flip: l(1))
  moreover have "Suc ?g = length (L ! k)" if "Suc j = length ?N" "Suc c = length ts"
  proof -
    have "Suc ?g = start ?N (Suc j)" using start_Suc[OF assms(3)] that(2) ts by simp
    with that(1) l(3) show ?thesis by simp
  qed
  ultimately show ?thesis using ts s l(3) by simp
qed

lemma level_node:
  assumes "lev hf ty L" and "Suc k < length L" and "j < length (L ! Suc k)"
  shows "\<exists>ts. L ! Suc k ! j = PNode ts"
proof -
  have "lev hf ty (L ! k # L ! Suc k # drop (Suc (Suc k)) L)"
    using lev_drop[OF assms(1), of k] assms(2) by (simp add: Cons_nth_drop_Suc)
  from lev_Cons2(4)[OF this] assms(3) show ?thesis using nth_mem by blast
qed

lemma descend_idx_pos:
  assumes "lev hf ty L" and "kept hf ty ld L" and "leaves_first L" and "k < length L" and "j < length (L ! k)"
    and "e < length (elems (L ! k ! j)) \<or> Suc j = length (L ! k) \<and> e = length (elems (L ! k ! j))"
  shows "descend_idx ld (tree_node hf ty (L ! k ! j)) e (pos hf ty (drop (Suc k) L) j) =
    Some (pos hf ty L (before (L ! k) j + e))"
  using assms(4-6)
proof (induction k arbitrary: j e)
  case 0
  obtain N Ns where L: "L = N # Ns" using assms(3) by (cases L) (auto simp: leaves_first_def)
  have lv: "\<forall>t \<in> set N. t = PLeaf (elems t)" using assms(3) by (simp add: leaves_first_def L)
  have j: "j < length N" using 0 by (simp add: L)
  then obtain es where es: "N ! j = PLeaf es" using lv nth_mem by blast
  have wf: "tree_wf hf ty (N ! j)" using assms(1) j by (simp add: L)
  have n: "numEntries (leaf_node ty es) = Some (length es)" "length es < 2 ^ 31"
    using tree_node_numEntries[OF wf] wf by (simp_all add: es)
  have le: "e \<le> length es" using 0(3) es by (auto simp: L)
  have d: "descend_idx ld (leaf_node ty es) e acc = Some ((leaf_node ty es, int e) # acc)" for acc
    using tree_wf_leaf_type[OF wf]
    by (cases rule: leaf_type_cases) (use n le in \<open>auto simp: descend_idx.simps\<close>)
  have "(tree_node hf ty (N ! j), int e) # pos hf ty Ns j = pos hf ty (N # Ns) (start N j + e)"
    by (rule pos_push[OF j]) (use 0(3) es in \<open>auto simp: L\<close>)
  with d before_leaves[OF lv] es show ?case by (simp add: L del: pos.simps)
next
  case (Suc k)
  let ?N = "L ! Suc k"
  have "tree_wf hf ty (?N ! j)"
    using lev_drop[OF assms(1) Suc.prems(1)] Suc.prems(1,2) by (auto simp flip: Cons_nth_drop_Suc)
  moreover have "stored hf ty ld (?N ! j)"
    using assms(2) nth_mem[OF Suc.prems(1)] nth_mem[OF Suc.prems(2)] by (auto simp: kept_def)
  ultimately have wf: "tree_wf hf ty (?N ! j)" "stored hf ty ld (?N ! j)" .
  obtain ts where ts: "?N ! j = PNode ts" using level_node[OF assms(1) Suc.prems(1,2)] by blast
  define c where "c = min (child_of ts e) (length ts - 1)"
  have e: "e \<le> length (elems (PNode ts))" using Suc.prems(3) ts by auto
  note step = descend_idx_step[OF wf[unfolded ts] e c_def]
  have cw: "c < width (?N ! j)" using step(2) ts by simp
  let ?g = "start ?N j + c"
  have b: "?g < length (L ! k)" "L ! k ! ?g = ts ! c" "before (L ! k) ?g = before ?N j + before ts c"
    "Suc j = length ?N \<Longrightarrow> Suc c = length ts \<Longrightarrow> Suc ?g = length (L ! k)"
    using child_below[OF assms(1) Suc.prems(1,2) cw] ts by auto
  have rest: "e - before ts c < length (elems (ts ! c)) \<or>
      Suc ?g = length (L ! k) \<and> e - before ts c = length (elems (ts ! c))"
  proof (cases "e < length (elems (PNode ts))")
    case True
    with child_of_less[OF True] have "c = child_of ts e" unfolding c_def by linarith
    with child_of_bounds(2)[OF True] show ?thesis by simp
  next
    case False
    with e have "e = length (elems (PNode ts))" "Suc j = length ?N" using Suc.prems(3) ts by auto
    moreover have "\<not> child_of ts e < length ts"
      using False find_child_less[of "sizes ts" e] length_elems_PNode[of ts] by (simp add: child_of_def sizes_def)
    then have "Suc c = length ts" using step(2) unfolding c_def by linarith
    ultimately show ?thesis using b(4) length_elems_last[of c ts] by simp
  qed
  have push: "(tree_node hf ty (PNode ts), int c) # pos hf ty (drop (Suc (Suc k)) L) j = pos hf ty (drop (Suc k) L) ?g"
    using pos_push[OF Suc.prems(2), of c hf ty "drop (Suc (Suc k)) L"] cw Suc.prems(1) ts
    by (simp add: Cons_nth_drop_Suc del: pos.simps)
  have "k < length L" using Suc.prems(1) by simp
  from Suc.IH[OF this b(1), of "e - before ts c"] rest b(2)
  have "descend_idx ld (tree_node hf ty (ts ! c)) (e - before ts c) (pos hf ty (drop (Suc k) L) ?g) =
      Some (pos hf ty L (before (L ! k) ?g + (e - before ts c)))" by simp
  with step(1,3) push b(3) ts show ?case by (simp add: add.commute add.left_commute)
qed

section \<open>The levels of a built tree\<close>

inductive tower :: "(bytes \<Rightarrow> bool) \<Rightarrow> (bytes \<Rightarrow> bytes) \<Rightarrow> ChunkType \<Rightarrow> ptree list \<Rightarrow> ptree list list \<Rightarrow> bool"
  for P hf ty where
  tower_top: "tower P hf ty [t] [[t]]"
| tower_up: "1 < length ts \<Longrightarrow> tower P hf ty (map PNode (groups P (tree_enc hf ty) ts)) Ns \<Longrightarrow>
     tower P hf ty ts (ts # Ns)"

inductive_cases tower_oneE: "tower P hf ty ts [N]"
inductive_cases tower_moreE: "tower P hf ty ts (N # N' # Ns)"

lemma tower_hd: "tower P hf ty ts L \<Longrightarrow> L \<noteq> [] \<and> hd L = ts"
  by (induction rule: tower.induct) auto

lemma built_tower: "built P hf ty ts t \<Longrightarrow> \<exists>L. tower P hf ty ts L \<and> last L = [t]"
proof (induction rule: built.induct)
  case (built_root t)
  have "tower P hf ty [t] [[t]]" by (rule tower_top)
  then show ?case by (intro exI[of _ "[[t]]"]) simp
next
  case (built_up ts t)
  then obtain L where L: "tower P hf ty (map PNode (groups P (tree_enc hf ty) ts)) L" "last L = [t]" by blast
  with tower_hd[OF L(1)] tower_up[OF built_up.hyps(1) L(1)] show ?case
    by (intro exI[of _ "ts # L"]) simp
qed

lemma kids_PNodes: "concat (map kids (map PNode tss)) = concat tss"
  by (induction tss) auto

lemma forest_width: "forest hf ty h es ts \<Longrightarrow> t \<in> set ts \<Longrightarrow> 0 < width t"
  by (cases t) (auto simp: forest_def)

lemma tower_lev:
  assumes "tower (is_boundary pat win mx) hf ty ts L" and "forest hf ty h es ts"
    and "input_ok ty es" and "params_ok win mx" and "digest_ok hf"
  shows "lev hf ty L"
  using assms(1,2)
proof (induction arbitrary: h rule: tower.induct)
  case (tower_top t)
  then show ?case by (simp add: forest_def)
next
  case (tower_up ts Ns)
  let ?gs = "groups (is_boundary pat win mx) (tree_enc hf ty) ts"
  have "lev hf ty Ns" using tower_up.IH[OF forest_groups[OF assms(3-5) tower_up.prems]] .
  moreover obtain Ns' where "Ns = map PNode ?gs # Ns'" using tower_hd[OF tower_up.hyps(2)] by (cases Ns) auto
  moreover have "concat (map kids (map PNode ?gs)) = ts" unfolding kids_PNodes by (rule groups_concat)
  moreover have "\<forall>t \<in> set ts. tree_wf hf ty t" using tower_up.prems by (simp add: forest_def)
  ultimately show ?case using forest_width[OF tower_up.prems] by simp
qed

lemma kept_from_top: "lev hf ty L \<Longrightarrow> (\<And>t. t \<in> set (last L) \<Longrightarrow> stored hf ty ld t) \<Longrightarrow> kept hf ty ld L"
proof (induction L)
  case (Cons N Ns)
  show ?case
  proof (cases Ns)
    case (Cons N' Ns')
    note l = lev_Cons2[OF Cons.prems(1)[unfolded Cons]]
    have k: "kept hf ty ld (N' # Ns')" using Cons.IH Cons.prems(2) l(2) by (simp add: Cons)
    have "stored hf ty ld t" if "t \<in> set N" for t
    proof -
      have "t \<in> set (concat (map kids N'))" using that l(1) by simp
      then obtain u where u: "u \<in> set N'" "t \<in> set (kids u)" by auto
      with l(4) obtain us where "u = PNode us" by blast
      with u k show ?thesis by (auto simp: kept_def)
    qed
    with k show ?thesis by (simp add: kept_def Cons)
  qed (use Cons.prems in \<open>auto simp: kept_def\<close>)
qed simp

text \<open>The levels \<open>L\<close> of the tree \<open>t\<close> of a sequence.\<close>

definition levels_of :: "(bytes \<Rightarrow> bool) \<Rightarrow> (bytes \<Rightarrow> bytes) \<Rightarrow> ChunkType \<Rightarrow> bytes list \<Rightarrow> ptree \<Rightarrow>
    ptree list list \<Rightarrow> bool" where
  "levels_of P hf ty es t L \<longleftrightarrow> tree_of P hf ty es t \<and>
     tower P hf ty (map PLeaf (all_groups P (\<lambda>e. e) es)) L \<and> last L = [t]"

lemma tree_of_levels: "tree_of P hf ty es t \<Longrightarrow> \<exists>L. levels_of P hf ty es t L"
  using built_tower unfolding tree_of_def levels_of_def by fast

lemma levels_of_lev:
  assumes "levels_of (is_boundary pat win mx) hf ty es t L" and "input_ok ty es" and "params_ok win mx"
    and "digest_ok hf"
  shows "lev hf ty L" and "leaves_first L" and "span (hd L) = length es"
    and "stored hf ty ld t \<Longrightarrow> kept hf ty ld L"
proof -
  let ?P = "is_boundary pat win mx"
  have tw: "tower ?P hf ty (map PLeaf (all_groups ?P (\<lambda>e. e) es)) L" and l: "last L = [t]"
    using assms(1) by (auto simp: levels_of_def)
  show lv: "lev hf ty L"
  proof (cases "es = []")
    case True
    have "leaf_ok ty [] \<and> length ([] :: bytes list) < 2 ^ 31"
      using leaf_group_ok[OF assms(2,3), of "[]" pat] True by (simp add: all_groups_def)
    moreover have "L = [[PLeaf []]]"
      using tw True by (auto simp: all_groups_def elim: tower.cases)
    ultimately show ?thesis by simp
  next
    case False
    from tower_lev[OF tw forest_leaves[OF assms(2,3) False] assms(2-4)] show ?thesis .
  qed
  show "leaves_first L" using tower_hd[OF tw] by (auto simp: leaves_first_def)
  have "span (map PLeaf gs) = length (concat gs)" for gs
    by (induction gs) (auto simp: span_def)
  then show "span (hd L) = length es"
    using tower_hd[OF tw] groups_concat[of ?P "\<lambda>e. e" es] by (simp add: all_groups_def)
  show "kept hf ty ld L" if "stored hf ty ld t"
    by (rule kept_from_top[OF lv]) (use that l in simp)
qed

text \<open>The node that is loaded first, and the descent from it.\<close>

lemma levels_root:
  assumes "lev hf ty L" and "last L = [t]"
  shows "L ! (length L - 1) = [t]" and "tree_wf hf ty t" and "L \<noteq> []"
proof -
  show ne: "L \<noteq> []" using assms(1) by auto
  then show "L ! (length L - 1) = [t]" using assms(2) by (simp add: last_conv_nth)
  with lev_drop[OF assms(1), of "length L - 1"] ne show "tree_wf hf ty t"
    by (simp flip: Cons_nth_drop_Suc)
qed

lemma NodeCursor_idx_pos:
  assumes "levels_of (is_boundary pat win mx) hf ty es t L" and "input_ok ty es" and "params_ok win mx"
    and "digest_ok hf" and "stored hf ty ld t" and "e \<le> length es"
  shows "NodeCursor_idx ld (tree_hash hf ty t) e = Some (pos hf ty L e)"
proof -
  note lv = levels_of_lev[OF assms(1-4)]
  have l: "last L = [t]" using assms(1) by (simp add: levels_of_def)
  note r = levels_root[OF lv(1) l]
  have el: "elems t = es" using assms(1) tree_of_elems by (auto simp: levels_of_def)
  have k: "length L - 1 < length L" "drop (Suc (length L - 1)) L = []" using r(3) by auto
  have "descend_idx ld (tree_node hf ty t) e [] = Some (pos hf ty L e)"
    using descend_idx_pos[OF lv(1) lv(4)[OF assms(5)] lv(2) k(1), of 0 e] r(1) k(2) assms(6) el
    by (auto simp: before_def le_less)
  then show ?thesis
    using stored_root[OF assms(5)] CreateFromChunk_tree[OF r(2)] numElements_tree[OF r(2)] assms(6) el
    by (simp add: NodeCursor_idx_def)
qed

end
