(* ===== verification/Splice_Level.thy ===== *)
theory Splice_Level
  imports Tree_Levels
begin

text \<open>
  Committing one level of an existing tree.  The builder of a level stands on an entry of the old
  level; the entries of its node in front of it, the appended ones and the ones behind it are cut
  again, until a boundary falls together with the end of an old node: the nodes behind that are
  kept.  \<open>commit_level_at\<close> states that the new nodes and the ones that are kept are the cut of the
  whole new sequence.
\<close>

section \<open>Cutting in parts\<close>

lemma chop_append:
  "chop P enc cur (xs @ ys) =
     (case chop P enc cur xs of (gs, r) \<Rightarrow> (case chop P enc r ys of (hs, r') \<Rightarrow> (gs @ hs, r')))"
  by (induction P enc cur xs rule: chop.induct) (auto split: prod.splits)

text \<open>Groups that end with a boundary, and the rest behind the last one, are cut on their own as
  they are in the sequence.\<close>

lemma chop_parts:
  assumes "chop P enc cur xs = (gs, r)" and "chop P enc [] cur = ([], cur)"
  shows "(\<forall>g \<in> set gs. chop P enc [] g = ([g], [])) \<and> chop P enc [] r = ([], r)"
  using assms
proof (induction xs arbitrary: cur gs)
  case (Cons x xs)
  show ?case
  proof (cases "first_cut P (concat (map enc cur)) (enc x) = None")
    case True
    then have "chop P enc [] (cur @ [x]) = ([], cur @ [x])"
      using Cons.prems(2) by (simp add: chop_append)
    with Cons.IH[of "cur @ [x]"] Cons.prems(1) True show ?thesis by simp
  next
    case False
    obtain hs where hs: "chop P enc [] xs = (hs, r)" "gs = (cur @ [x]) # hs"
      using Cons.prems(1) False by (auto split: prod.splits)
    have "chop P enc [] (cur @ [x]) = ([cur @ [x]], [])"
      using Cons.prems(2) False by (simp add: chop_append)
    with Cons.IH[OF hs(1)] hs(2) show ?thesis by simp
  qed
qed simp

lemma chop_closed: "\<forall>g \<in> set gs. chop P enc [] g = ([g], []) \<Longrightarrow> chop P enc [] (concat gs) = (gs, [])"
  by (induction gs) (auto simp: chop_append)

lemma groups_closed:
  "g \<in> set (butlast (groups P enc xs)) \<Longrightarrow> chop P enc [] g = ([g], [])"
proof -
  assume g: "g \<in> set (butlast (groups P enc xs))"
  obtain gs r where c: "chop P enc [] xs = (gs, r)" by fastforce
  have "set (butlast (groups P enc xs)) \<subseteq> set gs"
    using c by (auto simp: groups_def butlast_append dest: in_set_butlastD)
  with g chop_parts[OF c] show ?thesis by auto
qed

lemma groups_prefix:
  assumes "j < length (groups P enc xs)"
  shows "groups P enc (concat (take j (groups P enc xs)) @ ys) = take j (groups P enc xs) @ groups P enc ys"
proof -
  let ?G = "groups P enc xs"
  have "take j ?G = take j (butlast ?G)" using assms by (simp add: take_butlast)
  then have "\<forall>g \<in> set (take j ?G). chop P enc [] g = ([g], [])"
    using groups_closed[of _ P enc xs] by (metis in_set_takeD)
  from chop_closed[OF this] show ?thesis by (auto simp: groups_def chop_append split: prod.splits)
qed

lemma groups_suffix:
  "groups P enc (concat (drop j (groups P enc xs))) = drop j (groups P enc xs)"
proof -
  obtain gs r where c: "chop P enc [] xs = (gs, r)" by fastforce
  note p = chop_parts[OF c]
  have "\<forall>g \<in> set (drop j gs). chop P enc [] g = ([g], [])" using p by (auto dest: in_set_dropD)
  from chop_closed[OF this] have "chop P enc [] (concat (drop j gs)) = (drop j gs, [])" .
  with p c show ?thesis
    by (cases "r = []"; cases "j - length gs") (auto simp: groups_def chop_append)
qed

text \<open>The cut of a changed sequence: behind a boundary that is also the end of an old group, the
  old groups stay.\<close>

lemma groups_resync:
  assumes "chop P enc [] ys = (gs, [])"
  shows "groups P enc (ys @ concat (drop J (groups P enc xs))) = gs @ drop J (groups P enc xs)"
proof -
  have "groups P enc (ys @ zs) = gs @ groups P enc zs" for zs
    using assms by (auto simp: groups_def chop_append split: prod.splits)
  then show ?thesis by (simp add: groups_suffix)
qed

lemma all_groups_prefix:
  assumes "j < length (all_groups P enc xs)" and "ys \<noteq> [] \<or> j = 0"
  shows "all_groups P enc (concat (take j (all_groups P enc xs)) @ ys) =
    take j (all_groups P enc xs) @ all_groups P enc ys"
proof (cases "j = 0")
  case False
  with assms have "xs \<noteq> []" "ys \<noteq> []" by (auto simp: all_groups_def split: if_splits)
  with groups_prefix[of j P enc xs ys] assms(1) show ?thesis by (simp add: all_groups_def)
qed simp

lemma all_groups_concat: "concat (all_groups P enc xs) = xs"
  by (simp add: all_groups_def groups_concat)

section \<open>Builders on positions\<close>

definition payload :: "level \<Rightarrow> segment option \<times> segment list \<times> rolling_hasher" where
  "payload lv = (nb_pre lv, nb_appended lv, nb_rhasher lv)"

fun placed :: "(bytes \<Rightarrow> bytes) \<Rightarrow> ChunkType \<Rightarrow> ptree list list \<Rightarrow> nat list \<Rightarrow> builder \<Rightarrow> bool" where
  "placed hf ty [] [] [] = True"
| "placed hf ty (N # Ns) (q # qs) (lv # nb) = (nb_cursor lv = Some (pos hf ty (N # Ns) q) \<and> placed hf ty Ns qs nb)"
| "placed hf ty _ _ _ = False"

text \<open>Each level stands on the entry of the node that the level below stands in; when the level
  below is at its end it may already stand behind it.\<close>

fun linked :: "ptree list list \<Rightarrow> nat list \<Rightarrow> bool" where
  "linked [] [] = True"
| "linked (N # Ns) (q # qs) = (q \<le> span N \<and>
     (case qs of [] \<Rightarrow> Ns = [] | q' # _ \<Rightarrow> q' = node_at N q \<or> q = span N \<and> q' = length N) \<and> linked Ns qs)"
| "linked _ _ = False"

lemma payload_simps [simp]:
  "payload (lv\<lparr>nb_cursor := c\<rparr>) = payload lv"
  "payload (lv\<lparr>nb_commited := b\<rparr>) = payload lv"
  "payload (lv\<lparr>nb_num_skip := n\<rparr>) = payload lv"
  by (simp_all add: payload_def)

lemma placed_commited [simp]:
  "placed hf ty L qs (lv\<lparr>nb_commited := b\<rparr> # nb) = placed hf ty L qs (lv # nb)"
  "placed hf ty L qs (lv\<lparr>nb_num_skip := n\<rparr> # nb) = placed hf ty L qs (lv # nb)"
  by (cases L; cases qs; simp)+

lemma Advance_behind:
  assumes "lev hf ty (N # N' # Ns)" and "kept hf ty ld (N # N' # Ns)" and "Suc j < length N"
  shows "Advance ld True ((tree_node hf ty (N ! j), int (width (N ! j))) # pos hf ty (N' # Ns) j) =
    Some (True, pos hf ty (N # N' # Ns) (start N (Suc j)))"
proof -
  note l = lev_Cons2[OF assms(1)]
  have k: "kept hf ty ld (N' # Ns)" using assms(2) by (simp add: kept_def)
  have up: "Advance ld True (pos hf ty (N' # Ns) j) = Some (True, pos hf ty (N' # Ns) (Suc j))"
    using Advance_pos[OF l(2) k] assms(3) l(3) by simp
  have j: "j < length N" using assms(3) by simp
  have "0 < width (N ! Suc j)" using l(5) assms(3) by simp
  then have "node_at N (start N (Suc j)) = Suc j" using assms(3) by (intro node_atI) auto
  with up load_child_pos[OF assms(1) k assms(3)] lev_numEntries[OF assms(1) j] show ?thesis
    by (auto simp: Let_def)
qed

lemma skip_round_pos:
  assumes "lev hf ty (N # Ns)" and "kept hf ty ld (N # Ns)" and "placed hf ty (N # Ns) (q # qs) (lv # ps)"
    and "linked (N # Ns) (q # qs)" and "q < span N"
  shows "\<exists>lv' ps' qs'. skip_round ld (lv # ps) = Some (Suc q < span N, lv' # ps') \<and>
    placed hf ty (N # Ns) (Suc q # qs') (lv' # ps') \<and> linked (N # Ns) (Suc q # qs') \<and>
    map payload (lv' # ps') = map payload (lv # ps) \<and> nb_commited lv' = nb_commited lv"
  using assms
proof (induction Ns arbitrary: N q qs lv ps)
  case Nil
  then obtain t where N: "N = [t]" by (cases N) auto
  have [simp]: "ps = []" "qs = []" using Nil.prems by (auto elim: placed.elims)
  have at: "node_at N k = 0" for k by (simp add: node_at_def N)
  have st: "start N (Suc 0) = span N" using start_simps(2)[of N] by (simp add: N)
  show ?case
  proof (cases "Suc q < span N")
    case True
    with Advance_within_pos[OF Nil.prems(1,5)] Nil.prems at st show ?thesis
      by (intro exI[of _ "lv\<lparr>nb_cursor := Some (pos hf ty [N] (Suc q))\<rparr>"] exI[of _ "[]"]) simp
  next
    case False
    then have q: "Suc q = span N" using Nil.prems(5) by simp
    have e: "[(tree_node hf ty (N ! 0), int (width (N ! 0)))] = pos hf ty [N] (span N)"
      using at by (simp add: N span_def)
    have "Advance_within (pos hf ty [N] q) = Some (False, pos hf ty [N] (span N))"
      using Advance_within_pos[OF Nil.prems(1,5)] False at st e by simp
    with isEnd_pos[OF Nil.prems(1), of "span N"] Nil.prems q show ?thesis
      by (intro exI[of _ "lv\<lparr>nb_cursor := Some (pos hf ty [N] (span N))\<rparr>"] exI[of _ "[]"])
        (simp del: pos.simps)
  qed
next
  case (Cons N' Ns)
  note l = lev_Cons2[OF Cons.prems(1)]
  let ?j = "node_at N q"
  note j = node_at_inside[OF Cons.prems(5)]
  obtain q' qs0 p ps0 where sp: "qs = q' # qs0" "ps = p # ps0"
    using Cons.prems(3) by (cases qs; cases ps) auto
  have q': "q' = ?j" using Cons.prems(4,5) sp by simp
  have pl: "placed hf ty (N' # Ns) (q' # qs0) (p # ps0)" "linked (N' # Ns) (q' # qs0)"
    and cur: "nb_cursor lv = Some (pos hf ty (N # N' # Ns) q)"
    using Cons.prems(3,4) sp by auto
  have k: "kept hf ty ld (N' # Ns)" using Cons.prems(2) by (simp add: kept_def)
  show ?case
  proof (cases "Suc q < start N (Suc ?j)")
    case True
    then have less: "Suc q < span N" using start_le_span[of N "Suc ?j"] by simp
    have "node_at N (Suc q) = ?j" using True j start_Suc[OF j(1)] by (intro node_atI) auto
    with True less Advance_within_pos[OF Cons.prems(1,5)] Cons.prems cur sp pl q' show ?thesis
      by (intro exI[of _ "lv\<lparr>nb_cursor := Some (pos hf ty (N # N' # Ns) (Suc q))\<rparr>"] exI[of _ ps] exI[of _ qs])
        (simp del: pos.simps)
  next
    case False
    then have sq: "Suc q = start N (Suc ?j)" using j start_Suc[OF j(1)] by simp
    let ?cur = "(tree_node hf ty (N ! ?j), int (width (N ! ?j))) # pos hf ty (N' # Ns) ?j"
    have adv: "Advance_within (pos hf ty (N # N' # Ns) q) = Some (False, ?cur)"
      using Advance_within_pos[OF Cons.prems(1,5)] False by simp
    have jl: "?j < span N'" using j(1) l(3) by simp
    have "placed hf ty (N' # Ns) (q' # qs0) (p\<lparr>nb_commited := False\<rparr> # ps0)" using pl(1) by simp
    from Cons.IH[OF l(2) k this pl(2)] jl q' obtain p' ps' qs' where
      up: "skip_round ld (p\<lparr>nb_commited := False\<rparr> # ps0) = Some (Suc ?j < length N, p' # ps')"
      "placed hf ty (N' # Ns) (Suc ?j # qs') (p' # ps')" "linked (N' # Ns) (Suc ?j # qs')"
      "map payload (p' # ps') = map payload (p # ps0)" using l(3) by auto
    have nl: "nothing_left p = Some False"
      using pl(1) isEnd_pos[OF l(2), of ?j] jl q' by (simp add: nothing_left_def del: pos.simps)
    have pe: "nb_cursor p' = Some (pos hf ty (N' # Ns) (Suc ?j))" using up(2) by simp
    have ie: "isEnd (pos hf ty (N' # Ns) (Suc ?j)) = Some (Suc ?j = length N)"
      using isEnd_pos[OF l(2), of "Suc ?j"] jl l(3) by simp
    let ?p = "p'\<lparr>nb_num_skip := nb_num_skip p' + 1\<rparr>"
    have skip: "SkipEntries ld 1 (p # ps0) = Some (1, ?p # ps')"
      using nl up(1) by (simp add: SkipEntries_def del: skip_round.simps)
    show ?thesis
    proof (cases "Suc ?j = length N")
      case True
      then have sp': "Suc q = span N" using sq by simp
      have ne: "N \<noteq> []" using j(1) by auto
      have cur': "?cur = pos hf ty (N # N' # Ns) (span N)"
        using pos_push[OF j(1), of "width (N ! ?j)"] True sq start_Suc[OF j(1)] by (simp add: sp' del: pos.simps)
      have ec: "isEnd ?cur = Some True" unfolding cur' using isEnd_pos[OF Cons.prems(1), of "span N"] by simp
      have "skip_round ld (lv # ps) = Some (False, lv\<lparr>nb_cursor := Some ?cur\<rparr> # ?p # ps')"
        unfolding sp skip_round_parent using cur adv skip pe ie ec True
        by (simp del: pos.simps skip_round.simps)
      with sp' cur' up(2-4) True sp show ?thesis
        by (intro exI[of _ "lv\<lparr>nb_cursor := Some ?cur\<rparr>"] exI[of _ "?p # ps'"] exI[of _ "Suc ?j # qs'"])
          (simp del: pos.simps)
    next
      case False
      then have sj: "Suc ?j < length N" using j(1) by simp
      have w: "0 < width (N ! Suc ?j)" using l(5) sj by simp
      have less: "Suc q < span N"
        using start_Suc[OF sj] start_le_span[of N "Suc (Suc ?j)"] w sq by simp
      have at: "node_at N (Suc q) = Suc ?j" using sj w sq by (intro node_atI) auto
      have "skip_round ld (lv # ps) = Some (True, lv\<lparr>nb_cursor := Some (pos hf ty (N # N' # Ns) (Suc q))\<rparr> # ?p # ps')"
        unfolding sp skip_round_parent using cur adv skip pe ie False Advance_behind[OF Cons.prems(1,2) sj] sq
        by (simp del: pos.simps skip_round.simps Advance.simps)
      with less at up(2-4) sp show ?thesis
        by (intro exI[of _ "lv\<lparr>nb_cursor := Some (pos hf ty (N # N' # Ns) (Suc q))\<rparr>"] exI[of _ "?p # ps'"]
            exI[of _ "Suc ?j # qs'"]) (simp del: pos.simps)
    qed
  qed
qed

lemma skip_loop_pos:
  assumes "lev hf ty (N # Ns)" and "kept hf ty ld (N # Ns)" and "placed hf ty (N # Ns) (q # qs) nb"
    and "linked (N # Ns) (q # qs)" and "q < span N"
  shows "\<exists>k nb' qs'. skip_loop ld made n nb = Some (k, nb') \<and> placed hf ty (N # Ns) (min (q + n) (span N) # qs') nb' \<and>
    linked (N # Ns) (min (q + n) (span N) # qs') \<and> map payload nb' = map payload nb \<and>
    nb_commited (hd nb') = nb_commited (hd nb)"
  using assms(3-5)
proof (induction n arbitrary: made nb q qs)
  case 0
  then have "min (q + 0) (span N) = q" by simp
  with 0 show ?case by (intro exI[of _ made] exI[of _ nb] exI[of _ qs]) (simp del: linked.simps)
next
  case (Suc n)
  obtain lv ps where nb: "nb = lv # ps" using Suc.prems(1) by (cases nb) auto
  from skip_round_pos[OF assms(1,2) Suc.prems[unfolded nb]] obtain nb' qs' where
    r: "skip_round ld nb = Some (Suc q < span N, nb')" "placed hf ty (N # Ns) (Suc q # qs') nb'"
    "linked (N # Ns) (Suc q # qs')" "map payload nb' = map payload nb"
    "nb_commited (hd nb') = nb_commited (hd nb)" unfolding nb list.sel by (metis list.sel(1))
  show ?case
  proof (cases "Suc q < span N")
    case True
    from Suc.IH[OF r(2,3) True, of "made + 1"] r True show ?thesis by (simp del: linked.simps)
  next
    case False
    then have m: "min (q + Suc n) (span N) = Suc q" using Suc.prems(3) by simp
    show ?thesis unfolding m
      using r False by (intro exI[of _ "made + 1"] exI[of _ nb'] exI[of _ qs']) (simp del: linked.simps)
  qed
qed

lemma placed_Cons:
  "placed hf ty (N # Ns) (q # qs) nb \<longleftrightarrow>
     (\<exists>lv ps. nb = lv # ps \<and> nb_cursor lv = Some (pos hf ty (N # Ns) q) \<and> placed hf ty Ns qs ps)"
  by (cases nb) auto

lemma SkipEntries_pos:
  assumes "lev hf ty (N # Ns)" and "kept hf ty ld (N # Ns)" and "placed hf ty (N # Ns) (q # qs) nb"
    and "linked (N # Ns) (q # qs)"
  shows "\<exists>k nb' qs'. SkipEntries ld n nb = Some (k, nb') \<and> placed hf ty (N # Ns) (min (q + n) (span N) # qs') nb' \<and>
    linked (N # Ns) (min (q + n) (span N) # qs') \<and> map payload nb' = map payload nb \<and>
    \<not> nb_commited (hd nb')"
proof -
  obtain lv ps where nb: "nb = lv # ps" and cur: "nb_cursor lv = Some (pos hf ty (N # Ns) q)"
    using assms(3) unfolding placed_Cons by blast
  have le: "q \<le> span N" using assms(4) by simp
  have nl: "nothing_left lv = Some (q = span N)"
    using cur isEnd_pos[OF assms(1) le] by (simp add: nothing_left_def del: pos.simps)
  show ?thesis
  proof (cases "q = span N")
    case True
    then have m: "min (q + n) (span N) = q" by simp
    show ?thesis unfolding m using True nl nb assms(3,4)
      by (intro exI[of _ 0] exI[of _ "lv\<lparr>nb_commited := False\<rparr> # ps"] exI[of _ qs])
        (simp add: SkipEntries_def del: linked.simps placed.simps(2))
  next
    case False
    with le have lt: "q < span N" by simp
    have "placed hf ty (N # Ns) (q # qs) (lv\<lparr>nb_commited := False\<rparr> # ps)" using assms(3) nb by simp
    from skip_loop_pos[OF assms(1,2) this assms(4) lt, of 0 n] obtain k nb' qs' where
      r: "skip_loop ld 0 n (lv\<lparr>nb_commited := False\<rparr> # ps) = Some (k, nb')"
      "placed hf ty (N # Ns) (min (q + n) (span N) # qs') nb'" "linked (N # Ns) (min (q + n) (span N) # qs')"
      "map payload nb' = map payload (lv # ps)" "\<not> nb_commited (hd nb')"
      by (auto simp del: linked.simps)
    obtain lv' ps' where nb': "nb' = lv' # ps'" using r(2) unfolding placed_Cons by blast
    show ?thesis
      using False nl nb r nb'
      by (intro exI[of _ k] exI[of _ "lv'\<lparr>nb_num_skip := nb_num_skip lv' + k\<rparr> # ps'"] exI[of _ qs'])
        (simp add: SkipEntries_def del: linked.simps placed.simps(2))
  qed
qed

section \<open>The parent of a level that is committed\<close>

text \<open>\<open>stands Ns J pls nb\<close>: the builder of the levels \<open>Ns\<close> stands on entry \<open>J\<close>; there may be none yet
  above the old root.  In \<open>par\<close> there is something to commit.  \<open>add_pl\<close> appends meta entries to the lowest level.\<close>

definition stands :: "(bytes \<Rightarrow> bytes) \<Rightarrow> ChunkType \<Rightarrow> ptree list list \<Rightarrow> nat \<Rightarrow>
    (segment option \<times> segment list \<times> rolling_hasher) list \<Rightarrow> builder \<Rightarrow> bool" where
  "stands hf ty Ns J pls nb \<longleftrightarrow> map payload nb = pls \<and>
     (if Ns = [] then (\<exists>lv. nb = [lv] \<and> nb_cursor lv = None \<and> nb_num_skip lv = 0)
      else (\<exists>qs. placed hf ty Ns (J # qs) nb \<and> linked Ns (J # qs)))"

definition par :: "(bytes \<Rightarrow> bytes) \<Rightarrow> ChunkType \<Rightarrow> ptree list list \<Rightarrow> nat \<Rightarrow>
    (segment option \<times> segment list \<times> rolling_hasher) list \<Rightarrow> builder \<Rightarrow> bool" where
  "par hf ty Ns J pls nb \<longleftrightarrow> stands hf ty Ns J pls nb \<and> \<not> nb_commited (hd nb)"

fun add_pl :: "meta_entry list \<Rightarrow> (segment option \<times> segment list \<times> rolling_hasher) list \<Rightarrow>
    (segment option \<times> segment list \<times> rolling_hasher) list" where
  "add_pl ms [] = []"
| "add_pl ms ((pre, app, rh) # pls) = (pre, app @ map (meta_seg \<circ> me_bytes) ms, rh) # pls"

lemma add_pl_simps [simp]:
  "add_pl [] pls = pls" "add_pl ms' (add_pl ms pls) = add_pl (ms @ ms') pls"
  by (cases "(ms, pls)" rule: add_pl.cases; cases "([] :: meta_entry list, pls)" rule: add_pl.cases; simp)+

lemma par_nonempty: "par hf ty Ns J pls nb \<Longrightarrow> nb \<noteq> []"
  by (auto simp: par_def stands_def split: if_splits elim: placed.elims)

lemma par_add: "par hf ty Ns J pls nb \<Longrightarrow> par hf ty Ns J (add_pl ms pls) (add_metas ms nb)"
proof (induction ms arbitrary: nb pls)
  case (Cons m ms)
  obtain lv ps where nb: "nb = lv # ps" using par_nonempty[OF Cons.prems] by (cases nb) auto
  have "par hf ty Ns J (add_pl [m] pls) (AppendSegmentEntries (meta_seg (me_bytes m)) nb)"
    using Cons.prems unfolding par_def stands_def nb
    by (cases Ns) (auto simp: payload_def placed_Cons)
  from Cons.IH[OF this] show ?case by simp
qed simp

lemma par_skip:
  assumes "lev hf ty (N # Ns)" and "kept hf ty ld Ns" and "stands hf ty Ns J pls nb"
  shows "\<exists>k nb'. SkipEntries ld 1 nb = Some (k, nb') \<and> par hf ty Ns (min (Suc J) (length N)) pls nb'"
proof (cases Ns)
  case Nil
  with assms(3) show ?thesis
    by (auto simp: par_def stands_def SkipEntries_def nothing_left_def)
next
  case (Cons N' Ns')
  note l = lev_Cons2[OF assms(1)[unfolded Cons]]
  from assms(3) obtain qs where pl: "placed hf ty (N' # Ns') (J # qs) nb" "linked (N' # Ns') (J # qs)"
    and pls: "map payload nb = pls" by (auto simp: par_def stands_def Cons)
  from SkipEntries_pos[OF l(2) assms(2)[unfolded Cons] pl, of 1] pls show ?thesis
    unfolding l(3) by (auto simp: par_def stands_def Cons simp del: linked.simps placed.simps(2))
qed

lemma par_stands: "par hf ty Ns J pls nb \<Longrightarrow> stands hf ty Ns J pls nb"
  by (simp add: par_def)

text \<open>The old tree stays in the store while chunks are written.\<close>

lemma stored_put:
  assumes "stored hf ty ld t" and "set (tree_chunks hf ty t) \<subseteq> C" and "c \<in> C" and "inj_on hf C"
  shows "stored hf ty (ld(hf c \<mapsto> c)) t"
  using assms(1,2)
proof (induction t)
  case (PLeaf es)
  then show ?case using assms(3,4) by (auto simp: inj_on_def)
next
  case (PNode ts)
  have "\<forall>t \<in> set ts. stored hf ty (ld(hf c \<mapsto> c)) t" using PNode by fastforce
  moreover have "tree_chunk hf ty (PNode ts) \<in> C" using PNode.prems(2) by simp
  then have "(ld(hf c \<mapsto> c)) (tree_hash hf ty (PNode ts)) = Some (tree_chunk hf ty (PNode ts))"
    using PNode.prems(1) assms(3,4) by (auto simp: tree_hash_def inj_on_def simp del: tree_chunk.simps)
  ultimately show ?case by (simp del: tree_chunk.simps fun_upd_apply)
qed

lemma stored_puts:
  assumes "stored hf ty (ld ++ st) t" and "set (tree_chunks hf ty t) \<subseteq> C" and "set cs \<subseteq> C" and "inj_on hf C"
  shows "stored hf ty (ld ++ put_chunks hf cs st) t"
  using assms(1,3)
proof (induction cs arbitrary: st)
  case (Cons c cs)
  have "stored hf ty (ld ++ st(hf c \<mapsto> c)) t"
    using stored_put[OF Cons.prems(1) assms(2) _ assms(4), of c] Cons.prems(2) by simp
  then have "stored hf ty (ld ++ put_chunks hf cs (st(hf c \<mapsto> c))) t"
    by (rule Cons.IH) (use Cons.prems(2) in simp)
  then show ?case by (simp only: put_chunks_simps)
qed simp

definition within :: "(bytes \<Rightarrow> bytes) \<Rightarrow> ChunkType \<Rightarrow> chunk set \<Rightarrow> ptree list list \<Rightarrow> bool" where
  "within hf ty C L \<longleftrightarrow> inj_on hf C \<and> (\<forall>N \<in> set L. \<forall>t \<in> set N. set (tree_chunks hf ty t) \<subseteq> C)"

lemma kept_puts:
  assumes "kept hf ty (ld ++ st) L" and "within hf ty C L" and "set cs \<subseteq> C"
  shows "kept hf ty (ld ++ put_chunks hf cs st) L"
  unfolding kept_def
proof (intro ballI)
  fix N t
  assume t: "N \<in> set L" "t \<in> set N"
  show "stored hf ty (ld ++ put_chunks hf cs st) t"
    by (rule stored_puts[OF _ _ assms(3)]) (use assms(1,2) t in \<open>auto simp: kept_def within_def\<close>)
qed

section \<open>Old nodes as groups\<close>

definition nodes_are :: "(bytes \<Rightarrow> bytes) \<Rightarrow> ChunkType \<Rightarrow> ('a \<Rightarrow> bytes) \<Rightarrow> ptree list \<Rightarrow> 'a list list \<Rightarrow> bool" where
  "nodes_are hf ty enc N G \<longleftrightarrow> map (root_entries hf ty) N = map (map enc) G"

lemma nodes_are_facts:
  assumes "nodes_are hf ty enc N G"
  shows "length N = length G" and "j < length G \<Longrightarrow> root_entries hf ty (N ! j) = map enc (G ! j)"
    and "j < length G \<Longrightarrow> width (N ! j) = length (G ! j)"
    and "start N j = length (concat (take j G))" and "span N = length (concat G)"
proof -
  have "map length (map (root_entries hf ty) N) = map length (map (map enc) G)"
    using assms by (simp only: nodes_are_def)
  then have w: "map width N = map length G" by (simp add: comp_def)
  show len: "length N = length G" using map_eq_imp_length_eq[OF w] .
  show "root_entries hf ty (N ! j) = map enc (G ! j)" if "j < length G"
    using assms that len unfolding nodes_are_def by (metis nth_map)
  show "width (N ! j) = length (G ! j)" if "j < length G" using w that len by (metis nth_map)
  show "start N j = length (concat (take j G))" "span N = length (concat G)"
    by (simp_all add: start_def span_def w length_concat take_map)
qed

lemma drop_concat_groups:
  assumes "j < length G" and "length (concat (take j G)) \<le> q" and "q \<le> length (concat (take j G)) + length (G ! j)"
  shows "drop q (concat G) = drop (q - length (concat (take j G))) (G ! j) @ concat (drop (Suc j) G)"
proof -
  have "concat G = concat (take j G) @ G ! j @ concat (drop (Suc j) G)"
    using id_take_nth_drop[OF assms(1)] by (metis concat.simps(2) concat_append)
  then show ?thesis using assms(2,3) by simp
qed

text \<open>The entries of a node from an index on, as a segment.\<close>

lemma node_segment:
  assumes "lev hf ty (N # Ns)" and "nodes_are hf ty enc N G" and "j < length G" and "i < length (G ! j)"
  shows "\<exists>s. GetSegment (tree_node hf ty (N ! j)) i (length (G ! j) - i) = Some s \<and>
    seg_rep s (map enc (drop i (G ! j)))"
proof -
  note n = nodes_are_facts[OF assms(2)]
  have "tree_wf hf ty (N ! j)" using assms(1,3) n(1) by simp
  from tree_node_rep[OF this] n(2)[OF assms(3)] have "node_rep (tree_node hf ty (N ! j)) (map enc (G ! j))" by simp
  then have "\<And>a n. a < length (G ! j) \<Longrightarrow> a + n \<le> length (G ! j) \<Longrightarrow>
      \<exists>s. GetSegment (tree_node hf ty (N ! j)) a n = Some s \<and> seg_rep s (take n (drop a (map enc (G ! j))))"
    unfolding node_rep_def by simp
  from this[of i "length (G ! j) - i"] assms(4) have "\<exists>s. GetSegment (tree_node hf ty (N ! j)) i (length (G ! j) - i) = Some s \<and>
      seg_rep s (take (length (G ! j) - i) (drop i (map enc (G ! j))))" by simp
  then show ?thesis by (simp add: drop_map)
qed

section \<open>The loop over the old nodes\<close>

lemma cursor_phase_none:
  assumes "seg_bytes seg = Some data" and "TryHashBytes (cs_rhasher cs) data = (seg_num_bytes seg, h')"
    and "\<not> CrossedBoundary h'" and "cs_parents cs \<noteq> []"
    and "SkipEntries (ld ++ cs_store cs) 1 (cs_parents cs) = Some (k, nb')" and "numEntries nd = Some n"
    and "AdvanceEntry (ld ++ cs_store cs) ((nd, idx) # up) (sub64 n (nat idx)) = Some (a, cu')"
    and "cs2 = cs\<lparr>cs_rhasher := h', cs_parents := nb', cs_segs := cs_segs cs @ [seg]\<rparr>"
  shows "isEnd cu' = Some True \<Longrightarrow> cursor_phase hf rh ty ld ((nd, idx) # up) seg cs = Some (cu', cs2)"
    and "isEnd cu' = Some False \<Longrightarrow> cu' = (nd', idx') # up' \<Longrightarrow> numEntries nd' = Some n' \<Longrightarrow>
      GetSegment nd' (nat idx') n' = Some seg' \<Longrightarrow>
      cursor_phase hf rh ty ld ((nd, idx) # up) seg cs = cursor_phase hf rh ty ld cu' seg' cs2"
proof -
  have data: "seg_bytes seg = Some data" "fst (TryHashBytes (cs_rhasher cs) data) = seg_num_bytes seg"
    "snd (TryHashBytes (cs_rhasher cs) data) = h'" using assms(1,2) by simp_all
  show "cursor_phase hf rh ty ld ((nd, idx) # up) seg cs = Some (cu', cs2)" if "isEnd cu' = Some True"
    using assms(3-8) that
    by (subst cursor_phase.simps) (simp add: data Let_def parent_builder_def)
  show "cursor_phase hf rh ty ld ((nd, idx) # up) seg cs = cursor_phase hf rh ty ld cu' seg' cs2"
    if "isEnd cu' = Some False" "cu' = (nd', idx') # up'" "numEntries nd' = Some n'"
      "GetSegment nd' (nat idx') n' = Some seg'"
    using assms(3-8) that
    by (subst cursor_phase.simps) (simp add: data Let_def parent_builder_def)
qed

lemma cursor_phase_some:
  assumes "seg_bytes seg = Some data" and "TryHashBytes (cs_rhasher cs) data = (ps, h')"
    and "ps \<noteq> seg_num_bytes seg" and "PosToIdx seg ps = Some e" and "e < numEntries_seg seg"
    and "Split seg (e + 1) = Some (s1, s2)"
    and "HandleBoundary hf rh ty (cs_segs cs @ [s1]) (cs\<lparr>cs_rhasher := h'\<rparr>) = Some cs1"
  shows "cursor_phase hf rh ty ld cu seg cs =
    (if e = numEntries_seg seg - 1 then Some (cu, cs1) else cursor_phase hf rh ty ld cu s2 cs1)"
proof -
  have data: "seg_bytes seg = Some data" "fst (TryHashBytes (cs_rhasher cs) data) = ps"
    "snd (TryHashBytes (cs_rhasher cs) data) = h'" using assms(1,2) by simp_all
  show ?thesis using assms(3-7) by (subst cursor_phase.simps) (simp add: data Let_def)
qed

context chunk_level
begin

text \<open>From \<open>cs\<close> to \<open>cs'\<close> the groups \<open>gs\<close> have been written and handed to a parent on entry \<open>J\<close>.\<close>

definition made :: "ChunkType \<Rightarrow> ptree list list \<Rightarrow> nat \<Rightarrow> 'a list list \<Rightarrow>
    (segment option \<times> segment list \<times> rolling_hasher) list \<Rightarrow> commit_state \<Rightarrow> commit_state \<Rightarrow> bool" where
  "made tty Ns J gs pls cs cs' \<longleftrightarrow>
     cs_store cs' = put_chunks hf (map chunk_fn gs) (cs_store cs) \<and>
     cs_last cs' = (if gs = [] then cs_last cs else Some (chunk_fn (last gs))) \<and>
     par hf tty Ns J (add_pl (map me_fn gs) pls) (cs_parents cs')"

lemma made_emitted:
  "par hf tty Ns J pls (cs_parents cs) \<Longrightarrow> emitted hf chunk_fn me_fn gs cs cs' \<Longrightarrow> made tty Ns J gs pls cs cs'"
  by (auto simp: emitted_def made_def intro: par_add)

lemma made_trans:
  "made tty Ns J gs pls cs cs' \<Longrightarrow> made tty Ns J' gs' (add_pl (map me_fn gs) pls) cs' cs'' \<Longrightarrow>
   made tty Ns J' (gs @ gs') pls cs cs''"
  by (auto simp: made_def)

lemma cursor_phase_eq:
  assumes lv: "lev hf tty (N # Ns)" and nd: "nodes_are hf tty enc N G" and C: "within hf tty C (N # Ns)"
    and "pending P enc cs cur" and "seg_rep seg (map enc xs)" and "xs \<noteq> []" and "j < length G"
    and "g < span N" and "node_at N g = j" and "kept hf tty (ld ++ cs_store cs) (N # Ns)"
    and "par hf tty Ns (Suc j) pls (cs_parents cs)"
    and "\<forall>x \<in> set (xs @ concat (drop (Suc j) G)). enc x \<noteq> []" and "\<forall>h \<in> set G. h \<noteq> []"
    and "chop P enc cur (xs @ concat (drop (Suc j) G)) = (gsA, rA)" and "\<forall>h \<in> set gsA. ok h \<and> chunk_fn h \<in> C"
  shows "\<exists>cu' cs' J gs r. cursor_phase hf rh ty ld (pos hf tty (N # Ns) g) seg cs = Some (cu', cs') \<and>
    j < J \<and> J \<le> length G \<and> chop P enc cur (xs @ concat (drop (Suc j) (take J G))) = (gs, r) \<and>
    pending P enc cs' r \<and> made tty Ns J gs pls cs cs' \<and>
    (r = [] \<or> J = length G \<and> cu' = pos hf tty (N # Ns) (span N))"
  using assms(4-15)
proof (induction "length (xs @ concat (drop (Suc j) G))" arbitrary: xs seg cs cur j g pls gsA rule: less_induct)
  case less
  note n = nodes_are_facts[OF nd]
  let ?data = "concat (map enc xs)" and ?cu = "pos hf tty (N # Ns) g" and ?nd = "tree_node hf tty (N ! j)"
  let ?i = "g - start N j"
  obtain ps h' where th: "TryHashBytes (cs_rhasher cs) ?data = (ps, h')" by fastforce
  have bytes: "seg_bytes seg = Some ?data"
    unfolding seg_bytes_def by (rule seg_rep_rd[OF less.prems(2)])
  note hash = hash_segment[OF less.prems(1,2) th]
  have ne: "\<not> empty_seg seg" using less.prems(2,3) by simp
  have jN: "j < length N" using less.prems(4) n(1) by simp
  have nE: "numEntries ?nd = Some (length (G ! j))"
    using lev_numEntries(1)[OF lv jN] n(3)[OF less.prems(4)] by simp
  have i: "?i < length (G ! j)"
    using node_at_inside(2,3)[OF less.prems(5)] less.prems(6) n(3)[OF less.prems(4)] by simp
  have cu: "?cu = (?nd, int ?i) # pos hf tty Ns j" using less.prems(6) by simp
  show ?case
  proof (cases "first_cut P (concat (map enc cur)) ?data")
    case None
    let ?cs1 = "cs\<lparr>cs_rhasher := h', cs_segs := cs_segs cs @ [seg]\<rparr>"
    from hash(1)[OF None] ne have p: "ps = seg_num_bytes seg" "\<not> CrossedBoundary h'"
      "pending P enc ?cs1 (cur @ xs)" by auto
    have k: "kept hf tty (ld ++ cs_store cs) Ns" using less.prems(7) by (simp add: kept_def)
    obtain k1 nb' where sk: "SkipEntries (ld ++ cs_store cs) 1 (cs_parents cs) = Some (k1, nb')"
      "par hf tty Ns (min (Suc (Suc j)) (length N)) pls nb'"
      using par_skip[OF lv k par_stands[OF less.prems(8)]] by blast
    let ?cs2 = "?cs1\<lparr>cs_parents := nb'\<rparr>"
    have pend2: "pending P enc ?cs2 (cur @ xs)"
      using p(3) par_nonempty[OF sk(2)] by (simp add: pending_def)
    obtain a where ae: "AdvanceEntry (ld ++ cs_store cs) ?cu (length (G ! j) - ?i) =
        Some (a, pos hf tty (N # Ns) (start N (Suc j)))"
      using AdvanceEntry_pos[OF lv less.prems(7,5)] less.prems(6) n(3)[OF less.prems(4)] by auto
    have pb: "parent_builder rh (cs_parents cs) = cs_parents cs"
      using less.prems(1) by (simp add: parent_builder_def pending_def)
    have ie: "isEnd (pos hf tty (N # Ns) (start N (Suc j))) = Some (start N (Suc j) = span N)"
      by (rule isEnd_pos[OF lv start_le_span])
    have th1: "TryHashBytes (cs_rhasher cs) ?data = (seg_num_bytes seg, h')" using th p(1) by simp
    have pne: "cs_parents cs \<noteq> []" by (rule par_nonempty[OF less.prems(8)])
    have ae1: "AdvanceEntry (ld ++ cs_store cs) ((?nd, int ?i) # pos hf tty Ns j) (sub64 (length (G ! j)) (nat (int ?i))) =
        Some (a, pos hf tty (N # Ns) (start N (Suc j)))"
      using ae i unfolding cu by simp
    have cs2: "?cs2 = cs\<lparr>cs_rhasher := h', cs_parents := nb', cs_segs := cs_segs cs @ [seg]\<rparr>" by (cases cs) simp
    note run = cursor_phase_none[OF bytes th1 p(2) pne sk(1) nE ae1 cs2, folded cu]
    show ?thesis
    proof (cases "Suc j = length G")
      case True
      then have sp: "start N (Suc j) = span N" using n(1) start_simps(2)[of N] by metis
      have c: "chop P enc cur (xs @ concat (drop (Suc j) (take (length G) G))) = ([], cur @ xs)"
        using True chop_none[OF None, of "[]"] by simp
      have "min (Suc (Suc j)) (length N) = length G" using True n(1) by simp
      then have m: "made tty Ns (length G) [] pls cs ?cs2" using sk(2) by (simp add: made_def)
      show ?thesis
        using run(1)[of hf rh ty] ie sp True c pend2 m
        by (intro exI[of _ "pos hf tty (N # Ns) (span N)"] exI[of _ ?cs2] exI[of _ "length G"] exI[of _ "[]"] exI[of _ "cur @ xs"])
          (simp del: pos.simps)
    next
      case False
      then have sj: "Suc j < length G" using less.prems(4) by simp
      then have sjN: "Suc j < length N" using n(1) by simp
      have gne: "G ! Suc j \<noteq> []" using less.prems(10) nth_mem[OF sj] by blast
      have w: "0 < width (N ! Suc j)" using n(3)[OF sj] gne by simp
      have at: "node_at N (start N (Suc j)) = Suc j" using sjN w by (intro node_atI) auto
      have lt: "start N (Suc j) < span N"
        using start_Suc[OF sjN] start_le_span[of N "Suc (Suc j)"] w by simp
      obtain s' where s': "GetSegment (tree_node hf tty (N ! Suc j)) 0 (length (G ! Suc j)) = Some s'"
        "seg_rep s' (map enc (G ! Suc j))"
        using node_segment[OF lv nd sj, of 0] gne by auto
      have nE': "numEntries (tree_node hf tty (N ! Suc j)) = Some (length (G ! Suc j))"
        using lev_numEntries(1)[OF lv sjN] n(3)[OF sj] by simp
      have cu': "pos hf tty (N # Ns) (start N (Suc j)) = (tree_node hf tty (N ! Suc j), 0) # pos hf tty Ns (Suc j)"
        using at by simp
      have go: "cursor_phase hf rh ty ld ?cu seg cs =
          cursor_phase hf rh ty ld (pos hf tty (N # Ns) (start N (Suc j))) s' ?cs2"
        by (rule run(2)[OF _ cu' nE']) (use ie lt s'(1) in \<open>simp_all del: pos.simps\<close>)
      have rest: "concat (drop (Suc j) G) = G ! Suc j @ concat (drop (Suc (Suc j)) G)"
        using Cons_nth_drop_Suc[OF sj] by (metis concat.simps(2))
      have c: "chop P enc (cur @ xs) (G ! Suc j @ concat (drop (Suc (Suc j)) G)) = (gsA, rA)"
        using chop_none[OF None] less.prems(11) rest by simp
      have "min (Suc (Suc j)) (length N) = Suc (Suc j)" using sjN by simp
      then have par2: "par hf tty Ns (Suc (Suc j)) pls (cs_parents ?cs2)" using sk(2) by simp
      have k2: "kept hf tty (ld ++ cs_store ?cs2) (N # Ns)" using less.prems(7) by simp
      have sm: "length (G ! Suc j @ concat (drop (Suc (Suc j)) G)) < length (xs @ concat (drop (Suc j) G))"
        using less.prems(3) unfolding rest by simp
      have en: "\<forall>x \<in> set (G ! Suc j @ concat (drop (Suc (Suc j)) G)). enc x \<noteq> []"
        using less.prems(9) rest by simp
      obtain cu2 cs3 J gs r where ih: "cursor_phase hf rh ty ld (pos hf tty (N # Ns) (start N (Suc j))) s' ?cs2 = Some (cu2, cs3)"
        "Suc j < J" "J \<le> length G" "chop P enc (cur @ xs) (G ! Suc j @ concat (drop (Suc (Suc j)) (take J G))) = (gs, r)"
        "pending P enc cs3 r" "made tty Ns J gs pls ?cs2 cs3"
        "r = [] \<or> J = length G \<and> cu2 = pos hf tty (N # Ns) (span N)"
        using less.hyps[OF sm pend2 s'(2) gne sj lt at k2 par2 en less.prems(10) c less.prems(12)] by blast
      have "concat (drop (Suc j) (take J G)) = G ! Suc j @ concat (drop (Suc (Suc j)) (take J G))"
        using Cons_nth_drop_Suc[of "Suc j" "take J G"] ih(2,3) by (metis concat.simps(2) length_take min.absorb2 nth_take)
      then have c2: "chop P enc cur (xs @ concat (drop (Suc j) (take J G))) = (gs, r)"
        using chop_none[OF None] ih(4) by simp
      have m: "made tty Ns J gs pls cs cs3" using ih(6) by (simp add: made_def)
      show ?thesis unfolding go
        by (intro exI[of _ cu2] exI[of _ cs3] exI[of _ J] exI[of _ gs] exI[of _ r])
          (use ih(1-3,5,7) c2 m in \<open>simp del: pos.simps\<close>)
    qed
  next
    case (Some k)
    let ?e = "entry_at (map enc xs) k"
    from hash(2)[OF Some] have cb: "ps \<noteq> seg_num_bytes seg" "rh_wf h'" "rh_test h' = P"
      and pi: "PosToIdx seg ps = Some ?e" and e: "?e < length xs" by auto
    have ns: "numEntries_seg seg = length xs" using less.prems(2) by (simp add: seg_rep_numEntries)
    let ?rest = "concat (drop (Suc j) G)"
    have nexs: "\<forall>x \<in> set xs. enc x \<noteq> []" using less.prems(9) by simp
    obtain gs1 where c: "chop P enc [] (drop (Suc ?e) xs @ ?rest) = (gs1, rA)"
      and gsA: "gsA = (cur @ take (Suc ?e) xs) # gs1"
      using chop_some[OF Some nexs, of ?rest] less.prems(11) by (auto simp: Let_def split: prod.splits)
    let ?g1 = "cur @ take (Suc ?e) xs"
    have ok1: "ok ?g1" "chunk_fn ?g1 \<in> C" using less.prems(12) gsA by auto
    obtain s1 s2 cs1 where s: "Split seg (?e + 1) = Some (s1, s2)" "seg_rep s2 (map enc (drop (Suc ?e) xs))"
      "HandleBoundary hf rh ty (cs_segs cs @ [s1]) (cs\<lparr>cs_rhasher := h'\<rparr>) = Some cs1"
      "pending P enc cs1 []" "emitted hf chunk_fn me_fn [?g1] cs cs1"
      using close_group[OF less.prems(1,2) e cb(2,3) ok1(1), of rh] by blast
    have step: "cursor_phase hf rh ty ld ?cu seg cs =
        (if ?e = length xs - 1 then Some (?cu, cs1) else cursor_phase hf rh ty ld ?cu s2 cs1)"
      using cursor_phase_some[OF bytes th cb(1) pi _ s(1,3)] e ns by simp
    note m1 = made_emitted[OF less.prems(8) s(5)]
    show ?thesis
    proof (cases "?e = length xs - 1")
      case True
      then have all: "take (Suc ?e) xs = xs" "Suc ?e = length xs" using e by auto
      have "chop P enc cur (xs @ concat (drop (Suc j) (take (Suc j) G))) = ([?g1], [])"
        using chop_some[OF Some nexs, of "[]"] all by simp
      with step True s(4) m1 less.prems(4) show ?thesis
        by (intro exI[of _ ?cu] exI[of _ cs1] exI[of _ "Suc j"] exI[of _ "[?g1]"] exI[of _ "[]"])
          (simp del: pos.simps)
    next
      case False
      let ?xs = "drop (Suc ?e) xs"
      have xne: "?xs \<noteq> []" using False e by auto
      have sm: "length (?xs @ ?rest) < length (xs @ ?rest)" using e by simp
      have k2: "kept hf tty (ld ++ cs_store cs1) (N # Ns)"
        using kept_puts[OF less.prems(7) C, of "[chunk_fn ?g1]"] ok1(2) s(5) by (simp add: emitted_def)
      have par2: "par hf tty Ns (Suc j) (add_pl (map me_fn [?g1]) pls) (cs_parents cs1)"
        using m1 by (simp add: made_def)
      have en: "\<forall>x \<in> set (?xs @ ?rest). enc x \<noteq> []" using less.prems(9) by (auto dest: in_set_dropD)
      have okA: "\<forall>h \<in> set gs1. ok h \<and> chunk_fn h \<in> C" using less.prems(12) gsA by simp
      obtain cu2 cs3 J gs r where ih: "cursor_phase hf rh ty ld ?cu s2 cs1 = Some (cu2, cs3)"
        "j < J" "J \<le> length G" "chop P enc [] (?xs @ concat (drop (Suc j) (take J G))) = (gs, r)"
        "pending P enc cs3 r" "made tty Ns J gs (add_pl (map me_fn [?g1]) pls) cs1 cs3"
        "r = [] \<or> J = length G \<and> cu2 = pos hf tty (N # Ns) (span N)"
        using less.hyps[OF sm s(4,2) xne less.prems(4,5,6) k2 par2 en less.prems(10) c okA] by blast
      have "chop P enc cur (xs @ concat (drop (Suc j) (take J G))) = (?g1 # gs, r)"
        using chop_some[OF Some nexs, of "concat (drop (Suc j) (take J G))"] ih(4) by (simp add: Let_def)
      moreover have "made tty Ns J (?g1 # gs) pls cs cs3" using made_trans[OF m1 ih(6)] by simp
      ultimately show ?thesis unfolding step using False
        by (intro exI[of _ cu2] exI[of _ cs3] exI[of _ J] exI[of _ "?g1 # gs"] exI[of _ r])
          (use ih(1-3,5,7) in \<open>simp del: pos.simps\<close>)
    qed
  qed
qed

text \<open>What is done before the loop: the parent skips the entry of the old node, the entries in front
  of the cursor and the appended ones are cut.\<close>

lemma parent_skipped:
  assumes lv: "lev hf tty (N # Ns)" and kp: "kept hf tty ld Ns"
    and link: "linked (N # Ns) (q # qs)" "placed hf tty Ns qs ps"
  shows "\<exists>k nb. SkipEntries ld 1 (parent_builder rh ps) = Some (k, nb) \<and>
    par hf tty Ns (if q < span N then Suc (node_at N q) else length N) (map payload (parent_builder rh ps)) nb"
proof -
  have ne: "N \<noteq> []" by (rule lev_nonempty[OF lv])
  have "\<exists>J0. stands hf tty Ns J0 (map payload (parent_builder rh ps)) (parent_builder rh ps) \<and>
      min (Suc J0) (length N) = (if q < span N then Suc (node_at N q) else length N)"
  proof (cases Ns)
    case Nil
    then have "ps = []" using link(2) by (auto elim: placed.elims)
    then have "stands hf tty Ns J0 (map payload (parent_builder rh ps)) (parent_builder rh ps)" for J0
      using Nil by (simp add: stands_def parent_builder_def new_level_def)
    moreover have "\<exists>J0. min (Suc J0) (length N) = (if q < span N then Suc (node_at N q) else length N)"
      using node_at_inside(1)[of q N] by (intro exI[of _ "if q < span N then node_at N q else length N"]) auto
    ultimately show ?thesis by blast
  next
    case (Cons N' Ns')
    then obtain q' qs' where qs: "qs = q' # qs'" using link(1) by (cases qs) auto
    have "ps \<noteq> []" using link(2) Cons qs by auto
    then have "stands hf tty Ns q' (map payload (parent_builder rh ps)) (parent_builder rh ps)"
      using link Cons qs by (auto simp: stands_def parent_builder_def)
    moreover have "q' = node_at N q \<or> q = span N \<and> q' = length N" and "q \<le> span N" using link(1) qs by auto
    then have "min (Suc q') (length N) = (if q < span N then Suc (node_at N q) else length N)"
      using node_at_inside(1)[of q N] node_at_end[OF ne] ne by auto
    ultimately show ?thesis by blast
  qed
  then obtain J0 where J0: "stands hf tty Ns J0 (map payload (parent_builder rh ps)) (parent_builder rh ps)"
    "min (Suc J0) (length N) = (if q < span N then Suc (node_at N q) else length N)" by blast
  from par_skip[OF lv kp J0(1)] show ?thesis unfolding J0(2) by blast
qed

lemma append_pre:
  assumes "pending P enc cs []" and "case pre of None \<Rightarrow> xs = [] | Some s \<Rightarrow> seg_rep s (map enc xs)"
    and "segs_rep app (map (map enc) xss)" and "\<forall>x \<in> set (xs @ concat xss). enc x \<noteq> []"
    and "chop P enc [] (xs @ concat xss) = (gs, r)" and "\<forall>g \<in> set gs. ok g"
  shows "\<exists>cs'. (case (pre, app) of
        (Some seg, segs) \<Rightarrow> append_phase hf rh ty seg segs cs
      | (None, seg # segs) \<Rightarrow> append_phase hf rh ty seg segs cs
      | (None, []) \<Rightarrow> Some cs) = Some cs' \<and> pending P enc cs' r \<and> emitted hf chunk_fn me_fn gs cs cs'"
proof (cases pre)
  case (Some s)
  with assms append_phase_eq[of P cs "[]" s xs app xss gs r rh] show ?thesis by simp
next
  case None
  show ?thesis
  proof (cases xss)
    case Nil
    with None assms show ?thesis by (auto simp: segs_rep_def)
  next
    case (Cons ys yss)
    with assms(3) obtain t ts where t: "app = t # ts" "seg_rep t (map enc ys)" "segs_rep ts (map (map enc) yss)"
      by (auto simp: segs_rep_def list_all2_Cons2)
    with None Cons assms append_phase_eq[OF assms(1) t(2,3), of gs r rh] show ?thesis by simp
  qed
qed

lemma commit_level_at:
  assumes lv: "lev hf tty (N # Ns)" and nd: "nodes_are hf tty enc N G" and C: "within hf tty C (N # Ns)"
    and G: "G = all_groups P enc X"
    and level: "nb_cursor l = Some (pos hf tty (N # Ns) q)" "\<not> nb_commited l"
      "rh_rep (nb_rhasher l) []" "rh_test (nb_rhasher l) = P"
    and pre: "j < length G" "start N j \<le> q" "case nb_pre l of None \<Rightarrow> take i (G ! j) = [] | Some s \<Rightarrow> seg_rep s (map enc (take i (G ! j)))"
    and app: "segs_rep (nb_appended l) (map (map enc) xss)"
    and link: "linked (N # Ns) (q # qs)" "placed hf tty Ns qs ps"
    and kp: "kept hf tty (ld ++ st) (N # Ns)"
    and Y: "Y = take i (G ! j) @ concat xss @ drop q X" "Y \<noteq> [] \<or> j = 0"
    and ok: "\<forall>h \<in> set (all_groups P enc Y). ok h \<and> chunk_fn h \<in> C"
    and en: "\<forall>x \<in> set Y. enc x \<noteq> []"
  shows "\<exists>cs gs J. commit_level hf rh ty ld st l ps = Some cs \<and>
    all_groups P enc (concat (take j G) @ Y) = take j G @ gs @ drop J G \<and> gs \<noteq> [] \<and> j < J \<and> J \<le> length G \<and>
    cs_store cs = put_chunks hf (map chunk_fn gs) st \<and> cs_last cs = Some (chunk_fn (last gs)) \<and>
    par hf tty Ns J (add_pl (map me_fn gs) (map payload (parent_builder rh ps))) (cs_parents cs)"
proof -
  note n = nodes_are_facts[OF nd]
  let ?pls = "map payload (parent_builder rh ps)" and ?pn = "take i (G ! j) @ concat xss"
  have X: "concat G = X" by (simp add: G all_groups_concat)
  have kN: "kept hf tty (ld ++ st) Ns" using kp by (simp add: kept_def)
  have q: "q \<le> span N" using link(1) by simp
  obtain k nb where sk: "SkipEntries (ld ++ st) 1 (parent_builder rh ps) = Some (k, nb)"
    and par1: "par hf tty Ns (if q < span N then Suc (node_at N q) else length N) ?pls nb"
    using parent_skipped[OF lv kN link] by blast
  let ?cs0 = "\<lparr>cs_store = st, cs_rhasher = nb_rhasher l, cs_parents = nb, cs_segs = [], cs_last = None\<rparr>"
  have p0: "pending P enc ?cs0 []"
    using level(3,4) par_nonempty[OF par1] by (intro pendingI[where css = "[]"]) simp_all
  obtain gs1 r1 where c1: "chop P enc [] ?pn = (gs1, r1)" by fastforce
  obtain gsA rA where cA: "chop P enc r1 (drop q X) = (gsA, rA)" by fastforce
  have cY: "chop P enc [] Y = (gs1 @ gsA, rA)" using c1 cA by (simp add: Y(1) chop_append flip: append_assoc)
  note all = all_groups_chop[OF cY]
  have ok1: "\<forall>h \<in> set gs1. ok h \<and> chunk_fn h \<in> C" and okA: "\<forall>h \<in> set gsA. ok h \<and> chunk_fn h \<in> C"
    using ok all by auto
  obtain cs1 where cs1: "(case (nb_pre l, nb_appended l) of
        (Some seg, segs) \<Rightarrow> append_phase hf rh ty seg segs ?cs0
      | (None, seg # segs) \<Rightarrow> append_phase hf rh ty seg segs ?cs0
      | (None, []) \<Rightarrow> Some ?cs0) = Some cs1" "pending P enc cs1 r1" "emitted hf chunk_fn me_fn gs1 ?cs0 cs1"
    using append_pre[OF p0 pre(3) app _ c1, of rh] en ok1 by (auto simp: Y(1))
  have m1: "made tty Ns (if q < span N then Suc (node_at N q) else length N) gs1 ?pls ?cs0 cs1"
    by (rule made_emitted) (use par1 cs1(3) in simp_all)
  have k1: "kept hf tty (ld ++ cs_store cs1) (N # Ns)"
    using kept_puts[OF kp C, of "map chunk_fn gs1"] ok1 m1 by (auto simp: made_def)
  have nl: "nothing_left l = Some (q = span N)"
    using level(1) isEnd_pos[OF lv q] by (simp add: nothing_left_def del: pos.simps)
  note start = all_groups_prefix[of j P enc X Y, folded G, OF pre(1) Y(2)]
  have "\<exists>cu2 cs2 gs2 r J. commit_level hf rh ty ld st l ps = make_last hf rh ty ld (Some cu2) cs2 \<and>
      pending P enc cs2 r \<and> made tty Ns J gs2 (add_pl (map me_fn gs1) ?pls) cs1 cs2 \<and> j < J \<and> J \<le> length G \<and>
      (r = [] \<or> cu2 = pos hf tty (N # Ns) (span N)) \<and>
      all_groups P enc Y = gs1 @ gs2 @ (if r \<noteq> [] \<or> gs1 @ gs2 = [] then [r] else []) @ drop J G"
  proof (cases "q = span N")
    case True
    then have "drop q X = []" using n(5) X by simp
    with cA have A: "gsA = []" "rA = r1" by auto
    have "commit_level hf rh ty ld st l ps = make_last hf rh ty ld (Some (pos hf tty (N # Ns) q)) cs1"
      using level(1,2) sk cs1(1) nl True
      by (simp add: commit_level_def Let_def del: pos.simps split del: option.split list.split)
    moreover have "made tty Ns (length N) [] (add_pl (map me_fn gs1) ?pls) cs1 cs1"
      using m1 True by (simp add: made_def)
    moreover have "all_groups P enc Y = gs1 @ [] @ (if r1 \<noteq> [] \<or> gs1 @ [] = [] then [r1] else []) @ drop (length N) G"
      using all A n(1) by simp
    ultimately show ?thesis using cs1(2) n(1) True pre(1)
      by (intro exI[of _ "pos hf tty (N # Ns) q"] exI[of _ cs1] exI[of _ "[]"] exI[of _ r1] exI[of _ "length N"])
        (simp del: pos.simps)
  next
    case False
    then have lt: "q < span N" using q by simp
    let ?jq = "node_at N q" and ?iq = "q - start N (node_at N q)"
    note jq = node_at_inside[OF lt]
    have jG: "?jq < length G" using jq(1) n(1) by simp
    have iG: "?iq < length (G ! ?jq)" using jq n(3)[OF jG] by simp
    have ne: "X \<noteq> []" using lt n(5) X by auto
    then have GG: "G = groups P enc X" by (simp add: G all_groups_def)
    then have Gne: "\<forall>h \<in> set G. h \<noteq> []" using groups_nonempty[of _ P enc X] by blast
    have dq: "drop q X = drop ?iq (G ! ?jq) @ concat (drop (Suc ?jq) G)"
      using drop_concat_groups[OF jG, of q] jq n(3)[OF jG] n(4)[of ?jq] X by simp
    let ?xs = "drop ?iq (G ! ?jq)"
    obtain seg where seg: "GetSegment (tree_node hf tty (N ! ?jq)) ?iq (length (G ! ?jq) - ?iq) = Some seg"
      "seg_rep seg (map enc ?xs)" using node_segment[OF lv nd jG iG] by blast
    have xne: "?xs \<noteq> []" using iG by simp
    have par2: "par hf tty Ns (Suc ?jq) (add_pl (map me_fn gs1) ?pls) (cs_parents cs1)"
      using m1 lt by (simp add: made_def)
    have en2: "\<forall>x \<in> set (?xs @ concat (drop (Suc ?jq) G)). enc x \<noteq> []" using en by (simp add: Y(1) dq)
    obtain cu2 cs2 J gs2 r where cp: "cursor_phase hf rh ty ld (pos hf tty (N # Ns) q) seg cs1 = Some (cu2, cs2)"
      "?jq < J" "J \<le> length G" "chop P enc r1 (?xs @ concat (drop (Suc ?jq) (take J G))) = (gs2, r)"
      "pending P enc cs2 r" "made tty Ns J gs2 (add_pl (map me_fn gs1) ?pls) cs1 cs2"
      "r = [] \<or> J = length G \<and> cu2 = pos hf tty (N # Ns) (span N)"
      using cursor_phase_eq[OF lv nd C cs1(2) seg(2) xne jG lt refl k1 par2 en2 Gne cA[unfolded dq] okA, of rh] by blast
    have nE: "numEntries (tree_node hf tty (N ! ?jq)) = Some (length (G ! ?jq))"
      using lev_numEntries(1)[OF lv jq(1)] n(3)[OF jG] by simp
    have cl: "commit_level hf rh ty ld st l ps = make_last hf rh ty ld (Some cu2) cs2"
    proof -
      have cu: "pos hf tty (N # Ns) q = (tree_node hf tty (N ! ?jq), int ?iq) # pos hf tty Ns ?jq" by simp
      show ?thesis
        using level(1,2) sk cs1(1) nl False nE seg(1) iG cp(1)
        by (simp add: commit_level_def Let_def split del: option.split list.split)
    qed
    have Yr: "Y = (?pn @ ?xs @ concat (drop (Suc ?jq) (take J G))) @ concat (drop J G)"
    proof -
      have "drop (Suc ?jq) G = drop (Suc ?jq) (take J G) @ drop J G"
        using cp(2,3) by (metis Suc_leI append_take_drop_id drop_append drop_take le_add_diff_inverse length_take
            diff_is_0_eq drop0 min.absorb2)
      then show ?thesis by (simp add: Y(1) dq)
    qed
    have c2: "chop P enc [] (?pn @ ?xs @ concat (drop (Suc ?jq) (take J G))) = (gs1 @ gs2, r)"
      using c1 cp(4) chop_append[of P enc "[]" ?pn] by simp
    have g2: "r = [] \<Longrightarrow> gs2 \<noteq> []" using chop_concat[OF cp(4)] xne by auto
    have "all_groups P enc Y = gs1 @ gs2 @ (if r \<noteq> [] \<or> gs1 @ gs2 = [] then [r] else []) @ drop J G"
    proof (cases "r = []")
      case True
      have "groups P enc Y = (gs1 @ gs2) @ drop J G"
        unfolding Yr GG by (rule groups_resync) (use c2 True in \<open>simp add: GG\<close>)
      moreover have "Y \<noteq> []" using xne Yr by auto
      ultimately show ?thesis using True g2 by (simp add: all_groups_def)
    next
      case False
      with cp(7) Yr all_groups_chop[OF c2] show ?thesis by simp
    qed
    moreover have "j \<le> ?jq"
    proof (rule ccontr)
      assume "\<not> j \<le> ?jq"
      then have "start N (Suc ?jq) \<le> start N j" by (intro start_mono) simp
      with start_Suc[OF jq(1)] jq(3) pre(2) show False by simp
    qed
    then have "j < J" using cp(2) by simp
    ultimately show ?thesis using cl cp(3,5,6,7) by blast
  qed
  then obtain cu2 cs2 gs2 r J where cl: "commit_level hf rh ty ld st l ps = make_last hf rh ty ld (Some cu2) cs2"
    and p2: "pending P enc cs2 r" and m2: "made tty Ns J gs2 (add_pl (map me_fn gs1) ?pls) cs1 cs2"
    and J: "j < J" "J \<le> length G" and cu2: "r = [] \<or> cu2 = pos hf tty (N # Ns) (span N)"
    and gY: "all_groups P enc Y = gs1 @ gs2 @ (if r \<noteq> [] \<or> gs1 @ gs2 = [] then [r] else []) @ drop J G" by blast
  note m12 = made_trans[OF m1 m2]
  have last2: "cs_last cs2 = None \<longleftrightarrow> gs1 @ gs2 = []" using m12 by (simp add: made_def)
  let ?e = "if r \<noteq> [] \<or> gs1 @ gs2 = [] then [r] else []"
  have at_end: "r = [] \<or> Some cu2 = None \<or> (\<exists>cu cu'. Some cu2 = Some cu \<and> isEnd cu = Some True \<and>
      Advance (ld ++ cs_store cs2) True cu = Some (False, cu'))"
    using cu2 isEnd_pos[OF lv, of "span N"] Advance_pos_end[OF lv, of "span N" "ld ++ cs_store cs2"] by auto
  have okr: "r \<noteq> [] \<or> cs_last cs2 = None \<Longrightarrow> ok r" using ok gY last2 by auto
  obtain cs3 where cs3: "make_last hf rh ty ld (Some cu2) cs2 = Some cs3" "emitted hf chunk_fn me_fn ?e cs2 cs3"
    using make_last_eq[OF p2 okr at_end, of rh] unfolding last2 by blast
  have m3: "made tty Ns J ((gs1 @ gs2) @ ?e) ?pls ?cs0 cs3"
    by (rule made_trans[OF m12 made_emitted[OF _ cs3(2)]]) (use m12 in \<open>simp add: made_def\<close>)
  show ?thesis
    using cl cs3(1) m3 J start gY
    by (intro exI[of _ cs3] exI[of _ "(gs1 @ gs2) @ ?e"] exI[of _ J]) (auto simp: made_def)
qed

end

end
