(* ===== verification/Key_Search.thy ===== *)
theory Key_Search
  imports Tree_Levels
begin

text \<open>
  Searching a tree by key.  In a tree of a map or a set, where keys increase, the constructor of a
  cursor by key finds the first element whose key is not smaller, or the end.
\<close>

definition elem_key :: "ChunkType \<Rightarrow> bytes \<Rightarrow> bytes" where
  "elem_key ty e = (case entry_key ty e of KeyData k \<Rightarrow> k | _ \<Rightarrow> [])"

definition rank :: "ChunkType \<Rightarrow> bytes \<Rightarrow> bytes list \<Rightarrow> nat" where
  "rank ty x es = length (takeWhile (\<lambda>e. elem_key ty e < x) es)"

lemma entry_key_data: "keyed_type ty \<Longrightarrow> entry_key ty e = KeyData (elem_key ty e)"
  by (auto simp: keyed_type_def elem_key_def map_key_of_def set_key_of_def)

lemma key_lt_data: "keyed_type ty \<Longrightarrow> key_lt (entry_key ty a) (entry_key ty b) \<longleftrightarrow> elem_key ty a < elem_key ty b"
  by (simp add: entry_key_data key_lt_def)

lemma rank_le: "rank ty x es \<le> length es"
  by (simp add: rank_def length_takeWhile_le)

lemma rank_append: "(\<forall>e \<in> set as. elem_key ty e < x) \<Longrightarrow> rank ty x (as @ bs) = length as + rank ty x bs"
  by (simp add: rank_def takeWhile_append2)

lemma rank_full: "rank ty x es = length es \<longleftrightarrow> (\<forall>e \<in> set es. elem_key ty e < x)"
  by (induction es) (auto simp: rank_def)

lemma rank_append_stop: "rank ty x as < length as \<Longrightarrow> rank ty x (as @ bs) = rank ty x as"
  by (induction as) (auto simp: rank_def split: if_splits)

definition keys_sorted :: "ChunkType \<Rightarrow> bytes list \<Rightarrow> bool" where
  "keys_sorted ty es \<longleftrightarrow> sorted_wrt (\<lambda>a b. elem_key ty a < elem_key ty b) es"

lemma input_ok_sorted: "input_ok ty es \<Longrightarrow> keyed_type ty \<Longrightarrow> keys_sorted ty es"
  by (simp add: input_ok_def keys_sorted_def sorted_wrt_map key_lt_data)

lemma sorted_all_less:
  assumes "keys_sorted ty es" and "es \<noteq> []" and "elem_key ty (last es) < x"
  shows "\<forall>e \<in> set es. elem_key ty e < x"
proof -
  have "es = butlast es @ [last es]" using assms(2) by simp
  then have "sorted_wrt (\<lambda>a b. elem_key ty a < elem_key ty b) (butlast es @ [last es])"
    using assms(1) by (simp add: keys_sorted_def)
  then have "\<forall>e \<in> set (butlast es). elem_key ty e < elem_key ty (last es)" by (simp add: sorted_wrt_append)
  moreover have "set es = insert (last es) (set (butlast es))" using \<open>es = _\<close> by (metis list.simps(15) rotate1.simps(2) set_rotate1)
  ultimately show ?thesis using assms(3) by (auto intro: less_trans)
qed

text \<open>The rank of a key in the elements of a node, from the keys of its children.\<close>

lemma rank_children:
  assumes "keys_sorted ty (concat (map elems ts))" and "\<forall>t \<in> set ts. elems t \<noteq> []"
    and c: "c = length (takeWhile (\<lambda>t. elem_key ty (last (elems t)) < x) ts)"
  shows "c < length ts \<Longrightarrow> rank ty x (concat (map elems ts)) = before ts c + rank ty x (elems (ts ! c)) \<and>
      rank ty x (elems (ts ! c)) < length (elems (ts ! c))"
    and "c = length ts \<Longrightarrow> rank ty x (concat (map elems ts)) = length (concat (map elems ts))"
proof -
  have less: "\<forall>t \<in> set (take c ts). \<forall>e \<in> set (elems t). elem_key ty e < x"
  proof
    fix t assume "t \<in> set (take c ts)"
    then have t: "t \<in> set (takeWhile (\<lambda>t. elem_key ty (last (elems t)) < x) ts)"
      by (simp add: c flip: takeWhile_eq_take)
    then have lt: "elem_key ty (last (elems t)) < x" and m: "t \<in> set ts" by (auto dest: set_takeWhileD)
    obtain us vs where "ts = us @ t # vs" using m by (auto simp: in_set_conv_decomp)
    with assms(1) have "keys_sorted ty (elems t)" by (simp add: keys_sorted_def sorted_wrt_append)
    from sorted_all_less[OF this _ lt] assms(2) m show "\<forall>e \<in> set (elems t). elem_key ty e < x" by blast
  qed
  {
    assume cl: "c < length ts"
    have ge: "\<not> elem_key ty (last (elems (ts ! c))) < x" using nth_length_takeWhile[of _ ts] cl c by blast
    have ne: "elems (ts ! c) \<noteq> []" using assms(2) cl by simp
    then have r: "rank ty x (elems (ts ! c)) < length (elems (ts ! c))"
      using ge rank_full[of ty x "elems (ts ! c)"] rank_le[of ty x "elems (ts ! c)"] last_in_set by (metis le_neq_implies_less)
    have "concat (map elems ts) = concat (map elems (take c ts)) @ elems (ts ! c) @ concat (map elems (drop (Suc c) ts))"
      using id_take_nth_drop[OF cl] by (metis concat.simps(2) concat_append list.simps(9) map_append)
    moreover have "\<forall>e \<in> set (concat (map elems (take c ts))). elem_key ty e < x" using less by auto
    ultimately show "rank ty x (concat (map elems ts)) = before ts c + rank ty x (elems (ts ! c)) \<and>
      rank ty x (elems (ts ! c)) < length (elems (ts ! c))"
      using r by (simp add: rank_append rank_append_stop before_concat)
  }
  assume "c = length ts"
  with less show "rank ty x (concat (map elems ts)) = length (concat (map elems ts))" by (simp add: rank_full)
qed

section \<open>Descending by key\<close>

lemma descend_key_step:
  assumes "tree_wf hf ty (PNode ts)" and "stored hf ty ld (PNode ts)" and "keyed_type ty"
    and c: "c = min (length (takeWhile (\<lambda>t. elem_key ty (last (elems t)) < x) ts)) (length ts - 1)"
  shows "descend_key ld (tree_node hf ty (PNode ts)) (KeyData x) acc =
      descend_key ld (tree_node hf ty (ts ! c)) (KeyData x) ((tree_node hf ty (PNode ts), int c) # acc)"
    and "c < length ts"
proof -
  let ?ms = "map (tree_me hf ty) ts" and ?ks = "map (\<lambda>t. elem_key ty (last (elems t))) ts"
  let ?n = "length (takeWhile (\<lambda>t. elem_key ty (last (elems t)) < x) ts)"
  note ok = tree_wf_node(3,1,2)[OF assms(1)]
  show cl: "c < length ts" using ok(2) c by (cases ts) auto
  have "\<forall>t \<in> set ts. tree_wf hf ty t \<and> elems t \<noteq> []" using assms(1) unfolding tree_wf.simps by blast
  then have keys: "map me_key ?ms = map KeyData ?ks"
    using tree_key entry_key_data[OF assms(3)] assms(3) by simp
  have gc: "MetaNode_GetChildHashByKey (meta_chunk ?ms) (KeyData x) = Some (child_result ?ms 0 ?n)"
    using MetaNode_GetChildHashByKey_eq[OF ok(1) _ keys, of x] ok(2) by (simp add: takeWhile_map comp_def)
  have ge: "MetaNode_GetChildHashByEntry (meta_chunk ?ms) (var_offsets (map me_bytes ?ms)) (length ts - 1) =
      Some (tree_hash hf ty (ts ! (length ts - 1)))"
    using MetaNode_entry_eq(3)[OF ok(1), of "length ts - 1"] ok(2) by simp
  have n: "MetaNode_numEntries (meta_chunk ?ms) = Some (length ts)"
    using tree_node_numEntries[OF assms(1)] by simp
  note wf = tree_wf_nth(1)[OF assms(1) cl] and st = stored_nth[OF assms(2) cl]
  show "descend_key ld (tree_node hf ty (PNode ts)) (KeyData x) acc =
      descend_key ld (tree_node hf ty (ts ! c)) (KeyData x) ((tree_node hf ty (PNode ts), int c) # acc)"
  proof (cases "?n < length ts")
    case True
    then have "c = ?n" using c by simp
    with gc n ok cl True stored_root[OF st] CreateFromChunk_tree[OF wf] show ?thesis
      by (subst descend_key.simps) (simp add: child_result_def)
  next
    case False
    then have "c = length ts - 1" using c by simp
    with gc ge n ok cl False stored_root[OF st] CreateFromChunk_tree[OF wf] show ?thesis
      by (subst descend_key.simps) (simp add: child_result_def sub64_def[of "length ts"] Suc_le_eq)
  qed
qed

lemma descend_key_leaf:
  assumes "tree_wf hf ty (PLeaf es)" and "keyed_type ty"
  shows "descend_key ld (leaf_node ty es) (KeyData x) acc = Some ((leaf_node ty es, int (rank ty x es)) # acc)"
proof -
  have ks: "map (entry_key ty) es = map KeyData (map (elem_key ty) es)"
    using entry_key_data[OF assms(2)] by simp
  have small: "rank ty x es < 2 ^ 31" using rank_le[of ty x es] assms(1) by simp
  have v: "\<forall>e \<in> set es. entry_valid ty e" using assms(1) by (simp add: leaf_ok_def)
  from assms(2) consider "ty = CT_kMap" | "ty = CT_kSet" by (auto simp: keyed_type_def)
  then have "FindIndexForKey ld (leaf_node ty es) (KeyData x) = Some (rank ty x es)"
    by cases (use v ks MapNode_FindIndexForKey_eq[of es "map (elem_key ty) es" CT_kMap x]
        SetNode_FindIndexForKey_eq[of es "map (elem_key ty) es" CT_kSet x] in
        \<open>auto simp: FindIndexForKey.simps rank_def takeWhile_map comp_def\<close>)
  with assms(2) small show ?thesis
    by (subst descend_key.simps) (auto simp: keyed_type_def)
qed

lemma descend_key_pos:
  assumes "lev hf ty L" and "kept hf ty ld L" and "leaves_first L" and "keyed_type ty"
    and "k < length L" and "j < length (L ! k)" and "keys_sorted ty (elems (L ! k ! j))"
    and "rank ty x (elems (L ! k ! j)) < length (elems (L ! k ! j)) \<or> Suc j = length (L ! k)"
  shows "descend_key ld (tree_node hf ty (L ! k ! j)) (KeyData x) (pos hf ty (drop (Suc k) L) j) =
    Some (pos hf ty L (before (L ! k) j + rank ty x (elems (L ! k ! j))))"
  using assms(5-8)
proof (induction k arbitrary: j)
  case 0
  obtain N Ns where L: "L = N # Ns" using assms(3) by (cases L) (auto simp: leaves_first_def)
  have lv: "\<forall>t \<in> set N. t = PLeaf (elems t)" using assms(3) by (simp add: leaves_first_def L)
  have j: "j < length N" using 0 by (simp add: L)
  then obtain es where es: "N ! j = PLeaf es" using lv nth_mem by blast
  have wf: "tree_wf hf ty (PLeaf es)" using assms(1) j es by (metis L lev_nodes nth_mem)
  have "(tree_node hf ty (N ! j), int (rank ty x es)) # pos hf ty Ns j = pos hf ty (N # Ns) (start N j + rank ty x es)"
    by (rule pos_push[OF j]) (use 0(4) es rank_le[of ty x es] in \<open>auto simp: L\<close>)
  with descend_key_leaf[OF wf assms(4)] before_leaves[OF lv] es show ?case by (simp add: L del: pos.simps)
next
  case (Suc k)
  let ?N = "L ! Suc k"
  have "tree_wf hf ty (?N ! j)"
    using lev_drop[OF assms(1) Suc.prems(1)] Suc.prems(1,2) by (auto simp flip: Cons_nth_drop_Suc)
  moreover have "stored hf ty ld (?N ! j)"
    using assms(2) nth_mem[OF Suc.prems(1)] nth_mem[OF Suc.prems(2)] by (auto simp: kept_def)
  ultimately have wf: "tree_wf hf ty (?N ! j)" "stored hf ty ld (?N ! j)" .
  obtain ts where ts: "?N ! j = PNode ts" using level_node[OF assms(1) Suc.prems(1,2)] by blast
  define m where "m = length (takeWhile (\<lambda>t. elem_key ty (last (elems t)) < x) ts)"
  define c where "c = min m (length ts - 1)"
  note step = descend_key_step[OF wf[unfolded ts] assms(4) c_def[unfolded m_def]]
  have cw: "c < width (?N ! j)" using step(2) ts by simp
  let ?g = "start ?N j + c"
  have b: "?g < length (L ! k)" "L ! k ! ?g = ts ! c" "before (L ! k) ?g = before ?N j + before ts c"
    "Suc j = length ?N \<Longrightarrow> Suc c = length ts \<Longrightarrow> Suc ?g = length (L ! k)"
    using child_below[OF assms(1) Suc.prems(1,2) cw] ts by auto
  have srt: "keys_sorted ty (concat (map elems ts))" using Suc.prems(3) ts by simp
  have ne: "\<forall>t \<in> set ts. elems t \<noteq> []" using wf(1) unfolding ts tree_wf.simps by blast
  have srtc: "keys_sorted ty (elems (ts ! c))"
  proof -
    have "concat (map elems ts) = concat (map elems (take c ts)) @ elems (ts ! c) @ concat (map elems (drop (Suc c) ts))"
      using id_take_nth_drop[OF step(2)] by (metis concat.simps(2) concat_append list.simps(9) map_append)
    with srt show ?thesis by (simp add: keys_sorted_def sorted_wrt_append)
  qed
  have rest: "rank ty x (elems (?N ! j)) = before ts c + rank ty x (elems (ts ! c)) \<and>
      (rank ty x (elems (ts ! c)) < length (elems (ts ! c)) \<or> Suc ?g = length (L ! k))"
  proof (cases "m < length ts")
    case True
    then have "c = m" using c_def by linarith
    with rank_children(1)[OF srt ne m_def] True ts show ?thesis by simp
  next
    case False
    moreover have "m \<le> length ts" by (simp add: m_def length_takeWhile_le)
    ultimately have m: "m = length ts" by simp
    then have c1: "Suc c = length ts" using step(2) c_def by linarith
    have full: "rank ty x (elems (PNode ts)) = length (elems (PNode ts))"
      using rank_children(2)[OF srt ne m_def m] by simp
    then have j: "Suc j = length ?N" using Suc.prems(4) ts by simp
    have "\<forall>e \<in> set (elems (ts ! c)). elem_key ty e < x"
      using full step(2) nth_mem[OF step(2)] unfolding rank_full by auto
    then have "rank ty x (elems (ts ! c)) = length (elems (ts ! c))" by (simp add: rank_full)
    with full length_elems_last[OF c1] b(4)[OF j c1] ts show ?thesis by simp
  qed
  have push: "(tree_node hf ty (PNode ts), int c) # pos hf ty (drop (Suc (Suc k)) L) j = pos hf ty (drop (Suc k) L) ?g"
    using pos_push[OF Suc.prems(2), of c hf ty "drop (Suc (Suc k)) L"] cw Suc.prems(1) ts
    by (simp add: Cons_nth_drop_Suc del: pos.simps)
  have "k < length L" using Suc.prems(1) by simp
  from Suc.IH[OF this b(1)] srtc rest b(2)
  have "descend_key ld (tree_node hf ty (ts ! c)) (KeyData x) (pos hf ty (drop (Suc k) L) ?g) =
      Some (pos hf ty L (before (L ! k) ?g + rank ty x (elems (ts ! c))))" by simp
  with step(1) push b(3) ts rest show ?case by (simp add: add.assoc)
qed

lemma NodeCursor_key_pos:
  assumes "levels_of (is_boundary pat win mx) hf ty es t L" and "input_ok ty es" and "params_ok win mx"
    and "digest_ok hf" and "stored hf ty ld t" and "keyed_type ty"
  shows "NodeCursor_key ld (tree_hash hf ty t) (KeyData x) = Some (pos hf ty L (rank ty x es))"
proof -
  note lv = levels_of_lev[OF assms(1-4)]
  have l: "last L = [t]" using assms(1) by (simp add: levels_of_def)
  note r = levels_root[OF lv(1) l]
  have el: "elems t = es" using assms(1) tree_of_elems by (auto simp: levels_of_def)
  have k: "length L - 1 < length L" "drop (Suc (length L - 1)) L = []" using r(3) by auto
  have "descend_key ld (tree_node hf ty t) (KeyData x) [] = Some (pos hf ty L (rank ty x es))"
    using descend_key_pos[OF lv(1) lv(4)[OF assms(5)] lv(2) assms(6) k(1), of 0 x] r(1) k(2) el
      input_ok_sorted[OF assms(2,6)] by (simp add: before_def)
  then show ?thesis
    using stored_root[OF assms(5)] CreateFromChunk_tree[OF r(2)] by (simp add: NodeCursor_key_def)
qed

end
