(* ===== verification/Tree_Splice.thy ===== *)
theory Tree_Splice
  imports Splice_Level Key_Search
begin

text \<open>
  Editing a stored tree.  A builder that is put on an element of the tree of a sequence, told to
  delete some elements and to insert others there, and committed, returns the root of the tree
  that the edited sequence has when it is built from scratch.
\<close>

section \<open>Resuming a node\<close>

definition is_var :: "segment \<Rightarrow> bool" where
  "is_var s \<longleftrightarrow> (case s of FixedSegment d n b \<Rightarrow> False | VarSegment d n offs \<Rightarrow> True)"

lemma prolong_var:
  assumes "seg_rep s es" and "e \<noteq> []" and "is_var s"
    and "take (length (concat es) + length e) (seg_data s) = concat es @ e"
  shows "\<exists>s' n. prolong s (length e) = Some (s', n) \<and> seg_rep s' (es @ [e]) \<and> seg_data s' = seg_data s \<and> is_var s'"
proof -
  obtain d n offs where s: "s = VarSegment d n offs" using assms(3) by (cases s) (auto simp: is_var_def)
  from prolong_rep[OF assms(1,2,4)] s show ?thesis
    by (auto simp: is_var_def Let_def)
qed

lemma resume_loop_rep:
  assumes nd: "node_rep nd es" "length es < 2 ^ 31" and i: "i \<le> length es"
  shows "k \<le> i \<Longrightarrow> seg_rep s (take k es) \<Longrightarrow> seg_data s = concat es \<Longrightarrow> is_var s \<Longrightarrow>
    \<exists>s'. resume_loop ((nd, int k) # up) (int i) s = Some ((nd, int i) # up, s') \<and> seg_rep s' (take i es)"
proof (induction "i - k" arbitrary: k s)
  case 0
  then show ?case by (subst resume_loop.simps) auto
next
  case (Suc m)
  then have k: "k < length es" "k < i" using i by auto
  have b: "numCurrentBytes ((nd, int k) # up) = Some (length (es ! k))"
    "Advance_within ((nd, int k) # up) = Some (Suc k < length es, (nd, int (Suc k)) # up)"
    using nd k by (auto simp: numCurrentBytes_def Advance_within_def node_rep_def int32_of_def Let_def)
  have "concat es = concat (take k es) @ es ! k @ concat (drop (Suc k) es)"
    by (metis append_take_drop_id concat_append drop_concat_entry k(1))
  then have "take (length (concat (take k es)) + length (es ! k)) (seg_data s) = concat (take k es) @ es ! k"
    using Suc.prems(3) by simp
  moreover have "es ! k \<noteq> []" using nd(1) k(1) by (simp add: node_rep_def)
  ultimately obtain s' n where s': "prolong s (length (es ! k)) = Some (s', n)"
    "seg_rep s' (take k es @ [es ! k])" "seg_data s' = seg_data s" "is_var s'"
    using prolong_var[OF Suc.prems(2) _ Suc.prems(4)] by blast
  have "\<exists>s''. resume_loop ((nd, int (Suc k)) # up) (int i) s' = Some ((nd, int i) # up, s'') \<and> seg_rep s'' (take i es)"
    by (rule Suc.hyps(1)) (use Suc.hyps(2) Suc.prems k s' in \<open>auto simp: take_Suc_conv_app_nth\<close>)
  then show ?case using k b s'(1) by (subst resume_loop.simps) simp
qed

lemma seek_rep:
  "node_rep nd es \<Longrightarrow> length es < 2 ^ 31 \<Longrightarrow> i \<le> length es \<Longrightarrow>
     seek ((nd, k) # up) (int i) = Some ((nd, int i) # up)"
  by (simp add: seek_def node_rep_def int32_of_def)

lemma current_at:
  assumes "node_rep nd es" and "length es < 2 ^ 31" and "i \<le> length es" and "es \<noteq> []"
  shows "current ((nd, int i) # up) = Some (concat (drop i es))"
proof (cases "i < length es")
  case True
  then show ?thesis using current_entry[OF assms(1) _ assms(2)] by simp
next
  case False
  with assms(3) have i: "i = length es" by simp
  let ?n = "length es - 1"
  have "?n < length es" using assms(4) by simp
  moreover from this assms(1) have "node_data nd ?n = Some (concat (drop ?n es))" "node_len nd ?n = Some (length (es ! ?n))"
    "numEntries nd = Some (length es)"
    unfolding node_rep_def by blast+
  ultimately show ?thesis
    using assms(2,4) drop_concat_entry[of ?n es] unfolding i
    by (simp add: current_def int32_of_def sub64_def Suc_le_eq)
qed

lemma singles_length: "\<forall>e \<in> set es. length e = 1 \<Longrightarrow> length (concat es) = length es"
  by (induction es) auto

lemma Resume_rep:
  assumes nd: "node_rep nd es" "length es < 2 ^ 31" and ne: "es \<noteq> []" and i: "i \<le> length es"
    and fx: "isFixedEntryLen ty \<Longrightarrow> \<forall>e \<in> set es. length e = 1"
  shows "\<exists>s. Resume ty ((nd, int i) # up) = Some ((nd, int i) # up, s) \<and> seg_rep s (take i es)"
proof -
  note sk = seek_rep[OF nd, of 0, simplified] seek_rep[OF nd i]
  note cu = current_at[OF nd i ne, of up] current_at[OF nd _ ne, of 0 up, simplified]
  show ?thesis
  proof (cases "isFixedEntryLen ty")
    case True
    note one = fx[OF True]
    have b: "numCurrentBytes ((nd, 0) # up) = Some 1"
      using nd ne one by (auto simp: numCurrentBytes_def node_rep_def int32_of_def)
    have l: "length (concat es) = length es" "length (concat (drop i es)) = length es - i"
      "length (concat (take i es)) = i"
      using one singles_length[of es] singles_length[of "drop i es"] singles_length[of "take i es"] i
      by (auto dest: in_set_dropD in_set_takeD)
    have "concat es = concat (take i es) @ concat (drop i es)"
      by (metis append_take_drop_id concat_append)
    then have "seg_rep (FixedSegment (concat es) i 1) (take i es)"
      using l one by (fastforce simp: seg_rep_def dest: in_set_takeD)
    moreover have "prolong (FixedSegment (concat es) 0 1) i \<noteq> None \<and>
        fst (the (prolong (FixedSegment (concat es) 0 1) i)) = FixedSegment (concat es) i 1"
      by (simp add: Let_def)
    ultimately show ?thesis using True sk cu b l i
      by (auto simp: Resume_def SegAtCursor_def)
  next
    case False
    have "seg_rep (VarSegment (concat es) 0 []) (take 0 es)" by (simp add: seg_rep_def)
    from resume_loop_rep[OF nd i _ this, of up] False sk cu show ?thesis
      by (simp add: Resume_def SegAtCursor_def is_var_def)
  qed
qed


section \<open>A builder on a position\<close>

definition node_type :: "ChunkType \<Rightarrow> ptree \<Rightarrow> ChunkType" where
  "node_type ty t = (if kids t = [] then ty else CT_kMeta)"

lemma Resume_tree:
  assumes "tree_wf hf ty t" and "0 < width t" and "i \<le> width t"
  shows "\<exists>s. Resume (node_type ty t) ((tree_node hf ty t, int i) # up) = Some ((tree_node hf ty t, int i) # up, s) \<and>
    seg_rep s (take i (root_entries hf ty t))"
proof (rule Resume_rep[OF tree_node_rep[OF assms(1)] tree_entries_bound[OF assms(1)]])
  show "root_entries hf ty t \<noteq> []" using assms(2) length_root_entries[of hf ty t] by fastforce
  show "i \<le> length (root_entries hf ty t)" using assms(3) by simp
  assume fx: "isFixedEntryLen (node_type ty t)"
  then obtain es where "t = PLeaf es" "ty = CT_kBlob"
    using assms(1) tree_wf_node(1) by (cases t; cases ty) (auto simp: node_type_def split: if_splits)
  with assms(1) show "\<forall>e \<in> set (root_entries hf ty t). length e = 1"
    by (auto simp: leaf_ok_def)
qed

fun trail :: "ptree list list \<Rightarrow> nat \<Rightarrow> nat list" where
  "trail [] p = []"
| "trail (N # Ns) p = p # trail Ns (node_at N p)"

text \<open>The entries of the node under the cursor that stand in front of it.\<close>

definition ahead :: "(bytes \<Rightarrow> bytes) \<Rightarrow> ChunkType \<Rightarrow> ptree list \<Rightarrow> nat \<Rightarrow> bytes list" where
  "ahead hf ty N p = take (p - start N (node_at N p)) (root_entries hf ty (N ! node_at N p))"

definition pre_holds :: "segment option \<Rightarrow> bytes list \<Rightarrow> bool" where
  "pre_holds pre es \<longleftrightarrow> (case pre of None \<Rightarrow> es = [] | Some s \<Rightarrow> seg_rep s es)"

fun resumed :: "(bytes \<Rightarrow> bytes) \<Rightarrow> ChunkType \<Rightarrow> rolling_hasher \<Rightarrow> ptree list list \<Rightarrow> nat \<Rightarrow>
    (segment option \<times> segment list \<times> rolling_hasher) list \<Rightarrow> bool" where
  "resumed hf ty rh [] p [] = True"
| "resumed hf ty rh (N # Ns) p ((pre, app, rh') # pls) = (app = [] \<and> rh' = rh \<and>
     pre_holds pre (ahead hf ty N p) \<and> resumed hf ty rh Ns (node_at N p) pls)"
| "resumed hf ty rh _ _ _ = False"

lemma node_at_bounds:
  assumes "N \<noteq> []" and "g \<le> span N"
  shows "node_at N g < length N" "start N (node_at N g) \<le> g" "g \<le> start N (node_at N g) + width (N ! node_at N g)"
proof -
  consider "g < span N" | "g = span N" using assms(2) by linarith
  then have "node_at N g < length N \<and> start N (node_at N g) \<le> g \<and> g \<le> start N (node_at N g) + width (N ! node_at N g)"
  proof cases
    case 1
    then show ?thesis using node_at_inside by fastforce
  next
    case 2
    then show ?thesis using assms(1) node_at_end start_last start_le_span by simp
  qed
  then show "node_at N g < length N" "start N (node_at N g) \<le> g" "g \<le> start N (node_at N g) + width (N ! node_at N g)"
    by auto
qed

lemma payload_new: "payload ((new_level rh)\<lparr>nb_cursor := c, nb_pre := p\<rparr>) = (p, [], rh)"
  by (simp add: payload_def new_level_def)

lemma NodeBuilder_cursor_step:
  assumes "tree_wf hf ty t" and "i \<le> width t"
    and "if up = [] then ps = [] else NodeBuilder_cursor rh CT_kMeta up = Some ps"
  shows "\<exists>pre. NodeBuilder_cursor rh (node_type ty t) ((tree_node hf ty t, int i) # up) =
      Some ((new_level rh)\<lparr>nb_cursor := Some ((tree_node hf ty t, int i) # up), nb_pre := pre\<rparr> # ps) \<and>
    pre_holds pre (take i (root_entries hf ty t))"
proof (cases "width t = 0")
  case True
  then show ?thesis using assms by (auto simp: pre_holds_def)
next
  case False
  with Resume_tree[OF assms(1) _ assms(2), of up] obtain s where
    "Resume (node_type ty t) ((tree_node hf ty t, int i) # up) = Some ((tree_node hf ty t, int i) # up, s)"
    "seg_rep s (take i (root_entries hf ty t))" by auto
  with False assms show ?thesis by (auto simp: pre_holds_def)
qed

lemma NodeBuilder_cursor_pos:
  assumes "lev hf ty (N # Ns)" and "\<forall>t \<in> set N. cty = node_type ty t" and "p \<le> span N"
  shows "\<exists>nb. NodeBuilder_cursor rh cty (pos hf ty (N # Ns) p) = Some nb \<and>
    placed hf ty (N # Ns) (trail (N # Ns) p) nb \<and> linked (N # Ns) (trail (N # Ns) p) \<and>
    resumed hf ty rh (N # Ns) p (map payload nb) \<and> nb_commited (hd nb)"
  using assms
proof (induction Ns arbitrary: N p cty)
  case (Nil N p)
  note b = node_at_bounds[OF lev_nonempty[OF Nil.prems(1)] Nil.prems(3)]
  have t: "tree_wf hf ty (N ! node_at N p)" "cty = node_type ty (N ! node_at N p)"
    using Nil.prems(1,2) b(1) by auto
  have i: "p - start N (node_at N p) \<le> width (N ! node_at N p)" using b(3) by linarith
  from NodeBuilder_cursor_step[OF t(1) i, of "[]" "[]" rh] Nil.prems(3)
  show ?case unfolding t(2)
    by (auto simp: payload_def new_level_def ahead_def of_nat_diff_if simp del: NodeBuilder_cursor.simps)
next
  case (Cons N' Ns)
  note b = node_at_bounds[OF lev_nonempty[OF Cons.prems(1)] Cons.prems(3)]
  note l = lev_Cons2[OF Cons.prems(1)]
  have t: "tree_wf hf ty (N ! node_at N p)" "cty = node_type ty (N ! node_at N p)"
    using lev_nodes[OF Cons.prems(1) nth_mem[OF b(1)]] Cons.prems(2) nth_mem[OF b(1)] by blast+
  have "\<forall>t \<in> set N'. CT_kMeta = node_type ty t"
    using l(4) lev_nodes[OF l(2)] tree_wf_node(1) by (fastforce simp: node_type_def)
  from Cons.IH[OF l(2) this, of "node_at N p"] b(1) l(3) obtain ps where
    ps: "NodeBuilder_cursor rh CT_kMeta (pos hf ty (N' # Ns) (node_at N p)) = Some ps"
    "placed hf ty (N' # Ns) (trail (N' # Ns) (node_at N p)) ps" "linked (N' # Ns) (trail (N' # Ns) (node_at N p))"
    "resumed hf ty rh (N' # Ns) (node_at N p) (map payload ps)" by auto
  have i: "p - start N (node_at N p) \<le> width (N ! node_at N p)" using b(3) by linarith
  let ?c = "(tree_node hf ty (N ! node_at N p), int (p - start N (node_at N p))) # pos hf ty (N' # Ns) (node_at N p)"
  from NodeBuilder_cursor_step[OF t(1) i, of "pos hf ty (N' # Ns) (node_at N p)" ps rh] ps(1) obtain pre where
    "NodeBuilder_cursor rh (node_type ty (N ! node_at N p)) ?c =
      Some ((new_level rh)\<lparr>nb_cursor := Some ?c, nb_pre := pre\<rparr> # ps)"
    "pre_holds pre (take (p - start N (node_at N p)) (root_entries hf ty (N ! node_at N p)))"
    by (auto simp del: NodeBuilder_cursor.simps)
  moreover have "pos hf ty (N # N' # Ns) p = ?c" by (subst pos.simps(2)) (rule refl)
  moreover have "linked (N # N' # Ns) (trail (N # N' # Ns) p)" using ps(3) Cons.prems(3) by simp
  moreover have "trail (N # N' # Ns) p = p # trail (N' # Ns) (node_at N p)" by simp
  moreover have "nb_commited (new_level rh)" by (simp add: new_level_def)
  ultimately show ?case unfolding t(2) using ps(2,4)
    by (auto simp: payload_new ahead_def
        simp del: NodeBuilder_cursor.simps pos.simps trail.simps linked.simps)
qed


section \<open>Committing a level at a position\<close>

lemma take_concat_groups:
  assumes "j < length G" and "length (concat (take j G)) \<le> p" and "p \<le> length (concat (take j G)) + length (G ! j)"
  shows "take p (concat G) = concat (take j G) @ take (p - length (concat (take j G))) (G ! j)"
proof -
  have "concat G = concat (take j G) @ G ! j @ concat (drop (Suc j) G)"
    using id_take_nth_drop[OF assms(1)] by (metis concat.simps(2) concat_append)
  then show ?thesis using assms(2,3) by simp
qed

context chunk_level
begin

lemma commit_level_pos:
  assumes lv: "lev hf tty (N # Ns)" and nd: "nodes_are hf tty enc N G" and C: "within hf tty C (N # Ns)"
    and G: "G = all_groups P enc X"
    and level: "nb_cursor l = Some (pos hf tty (N # Ns) q)" "\<not> nb_commited l"
      "rh_rep (nb_rhasher l) []" "rh_test (nb_rhasher l) = P"
    and pre: "pre_holds (nb_pre l) (ahead hf tty N p)" "p \<le> q"
    and app: "segs_rep (nb_appended l) (map (map enc) xss)"
    and link: "linked (N # Ns) (q # qs)" "placed hf tty Ns qs ps"
    and kp: "kept hf tty (ld ++ st) (N # Ns)"
    and W: "W = take p X @ concat xss @ drop q X" "start N (node_at N p) < length W \<or> node_at N p = 0"
    and ok: "\<forall>h \<in> set (all_groups P enc W). ok h \<and> chunk_fn h \<in> C"
    and en: "\<forall>x \<in> set W. enc x \<noteq> []"
  shows "\<exists>cs gs J. commit_level hf rh ty ld st l ps = Some cs \<and>
    all_groups P enc W = take (node_at N p) G @ gs @ drop J G \<and> gs \<noteq> [] \<and> node_at N p < J \<and> J \<le> length N \<and>
    cs_store cs = put_chunks hf (map chunk_fn gs) st \<and> cs_last cs = Some (chunk_fn (last gs)) \<and>
    par hf tty Ns J (add_pl (map me_fn gs) (map payload (parent_builder rh ps))) (cs_parents cs)"
proof -
  note n = nodes_are_facts[OF nd]
  let ?j = "node_at N p"
  let ?i = "p - start N ?j"
  let ?Y = "take ?i (G ! ?j) @ concat xss @ drop q X"
  have "p \<le> span N" using link(1) pre(2) by simp
  note b = node_at_bounds[OF lev_nonempty[OF lv] this]
  have j: "?j < length G" using b(1) n(1) by simp
  have X: "concat G = X" by (simp add: G all_groups_concat)
  have W': "W = concat (take ?j G) @ ?Y"
    using take_concat_groups[OF j, of p] b n(3)[OF j] n(4) X W(1) by simp
  have Y: "?Y \<noteq> [] \<or> ?j = 0" using W(2) unfolding W' n(4) by auto
  have all: "all_groups P enc W = take ?j G @ all_groups P enc ?Y"
    using all_groups_prefix[OF j[unfolded G] Y] by (simp add: W' G)
  have hold: "case nb_pre l of None \<Rightarrow> take ?i (G ! ?j) = [] | Some s \<Rightarrow> seg_rep s (map enc (take ?i (G ! ?j)))"
    using pre(1) n(2)[OF j] by (auto simp: pre_holds_def ahead_def take_map split: option.splits)
  have st: "start N ?j \<le> q" using b(2) pre(2) by simp
  have ok': "\<forall>h \<in> set (all_groups P enc ?Y). ok h \<and> chunk_fn h \<in> C" using ok unfolding all by auto
  have en': "\<forall>x \<in> set ?Y. enc x \<noteq> []" using en unfolding W' by auto
  from commit_level_at[OF lv nd C G level j st hold app link kp refl Y ok' en', of rh] show ?thesis
    unfolding W'[symmetric] n(1) .
qed

end


section \<open>The levels above the leaves\<close>

text \<open>The levels that the old tree has are all committed, whether or not the new tree needs them;
  above them, levels are added until one holds a single node.\<close>

fun rise :: "(bytes \<Rightarrow> bool) \<Rightarrow> (bytes \<Rightarrow> bytes) \<Rightarrow> ChunkType \<Rightarrow> nat \<Rightarrow> ptree list \<Rightarrow> ptree \<Rightarrow> bool" where
  "rise P hf ty 0 V T = built P hf ty V T"
| "rise P hf ty (Suc n) V T = rise P hf ty n (map PNode (groups P (tree_enc hf ty) V)) T"

lemma group_chunks:
  "v \<in> set V \<Longrightarrow> \<exists>u \<in> set (map PNode (groups P enc V)). set (tree_chunks hf ty v) \<subseteq> set (tree_chunks hf ty u)"
  using arg_cong[OF groups_concat[of P enc V], of set] by fastforce

lemma built_chunks: "built P hf ty V T \<Longrightarrow> v \<in> set V \<Longrightarrow> set (tree_chunks hf ty v) \<subseteq> set (tree_chunks hf ty T)"
proof (induction arbitrary: v rule: built.induct)
  case (built_up V T)
  then show ?case using group_chunks[of v V P "tree_enc hf ty" hf ty] by blast
qed simp

lemma rise_chunks: "rise P hf ty n V T \<Longrightarrow> v \<in> set V \<Longrightarrow> set (tree_chunks hf ty v) \<subseteq> set (tree_chunks hf ty T)"
proof (induction n arbitrary: V v)
  case (Suc n)
  obtain u where u: "u \<in> set (map PNode (groups P (tree_enc hf ty) V))" "set (tree_chunks hf ty v) \<subseteq> set (tree_chunks hf ty u)"
    using group_chunks[OF Suc.prems(2)] by blast
  from Suc.IH[OF _ u(1)] Suc.prems(1) u(2) show ?case by simp
qed (simp add: built_chunks)

text \<open>What \<open>RecursiveCommit\<close> does with the parent builder.\<close>

definition commit_rest :: "(bytes \<Rightarrow> bytes) \<Rightarrow> rolling_hasher \<Rightarrow> loader \<Rightarrow> loader \<Rightarrow> bytes \<Rightarrow> builder \<Rightarrow>
    (bytes \<times> loader) option" where
  "commit_rest hf rh ld st h nb = (case nb of [] \<Rightarrow> None
     | p # qs \<Rightarrow> if nb_cursor p \<noteq> None \<or> length (nb_appended p) > 1
                 then RecursiveCommit hf rh CT_kMeta ld st (p # qs) else Some (h, st))"

lemma RecursiveCommit_rest:
  assumes "commit_level hf rh ty ld st lv ps = Some cs" and "cs_last cs = Some c" and "chunk_hash hf c = Some h"
  shows "RecursiveCommit hf rh ty ld st (lv # ps) = commit_rest hf rh ld (cs_store cs) h (cs_parents cs)"
  by (subst RecursiveCommit.simps) (simp add: assms commit_rest_def)

text \<open>The payload that the parents of the level at position \<open>p\<close> start with.\<close>

definition above :: "(bytes \<Rightarrow> bytes) \<Rightarrow> ChunkType \<Rightarrow> rolling_hasher \<Rightarrow> ptree list list \<Rightarrow> nat \<Rightarrow>
    (segment option \<times> segment list \<times> rolling_hasher) list \<Rightarrow> bool" where
  "above hf ty rh Ns p pls \<longleftrightarrow> (if Ns = [] then pls = [(None, [], rh)] else resumed hf ty rh Ns p pls)"

lemma resumed_above:
  "resumed hf ty rh Ns p (map payload ps) \<Longrightarrow> above hf ty rh Ns p (map payload (parent_builder rh ps))"
  by (cases Ns; cases ps) (auto simp: above_def parent_builder_def payload_def new_level_def)

lemma rest_top:
  assumes "built (is_boundary pat win mx) hf ty V T" and "V \<noteq> []" and "1 < length V \<Longrightarrow> forest hf ty h es V"
    and "input_ok ty es" and "params_ok win mx" and "digest_ok hf"
    and "rh_rep rh []" and "rh_test rh = is_boundary pat win mx"
    and "par hf ty [] J (add_pl (map (tree_me hf ty) V) [(None, [], rh)]) nb"
  shows "\<exists>ds. commit_rest hf rh ld st (tree_hash hf ty (last V)) nb = Some (tree_hash hf ty T, put_chunks hf ds st) \<and>
    set ds \<subseteq> set (tree_chunks hf ty T) \<and>
    set (tree_chunks hf ty T) \<subseteq> set ds \<union> (\<Union>v \<in> set V. set (tree_chunks hf ty v))"
proof -
  have nb: "nb = [meta_level rh hf ty V]"
  proof -
    obtain lv where lv: "nb = [lv]" "nb_cursor lv = None" "nb_num_skip lv = 0" "\<not> nb_commited lv"
      "payload lv = (None, map (meta_seg \<circ> tree_enc hf ty) V, rh)"
      using assms(9) by (auto simp: par_def stands_def tree_enc_def comp_def)
    then show ?thesis by (cases lv) (simp add: payload_def meta_level_def new_level_def)
  qed
  show ?thesis
  proof (cases "1 < length V")
    case True
    with RecursiveCommit_meta[OF assms(1) True assms(3)[OF True] assms(4-8), of ld st] show ?thesis
      by (auto simp: commit_rest_def nb meta_level_def)
  next
    case False
    with assms(2) obtain v where V: "V = [v]" by (cases V) auto
    with assms(1) have "T = v" by (auto elim: built_singleE)
    with V show ?thesis
      by (intro exI[of _ "[]"]) (simp add: commit_rest_def nb meta_level_def new_level_def)
  qed
qed


text \<open>One inner level: the nodes \<open>N'\<close> of the old tree group the nodes \<open>N\<close>, of which those from \<open>p\<close> to
  \<open>q\<close> are replaced by the trees \<open>ns\<close>.\<close>

lemma inner_nodes:
  assumes "tower P hf ty N (N # N' # Ns)"
  shows "N' = map PNode (groups P (tree_enc hf ty) N)" and "tower P hf ty N' (N' # Ns)"
    and "nodes_are hf ty (tree_enc hf ty) N' (all_groups P (tree_enc hf ty) N)"
proof -
  have 1: "1 < length N" "tower P hf ty (map PNode (groups P (tree_enc hf ty) N)) (N' # Ns)"
    using assms by (auto elim: tower_moreE)
  show N': "N' = map PNode (groups P (tree_enc hf ty) N)" using tower_hd[OF 1(2)] by simp
  show "tower P hf ty N' (N' # Ns)" using 1(2) N' by simp
  have "N \<noteq> []" using 1(1) by auto
  then show "nodes_are hf ty (tree_enc hf ty) N' (all_groups P (tree_enc hf ty) N)"
    by (simp add: N' nodes_are_def all_groups_def tree_enc_def)
qed

lemma commit_inner:
  assumes tw: "tower (is_boundary pat win mx) hf ty N (N # N' # Ns)" and lv: "lev hf ty (N' # Ns)"
    and C: "within hf ty C (N' # Ns)" and kp: "kept hf ty (ld ++ st) (N' # Ns)"
    and par: "par hf ty (N' # Ns) q (add_pl (map (tree_me hf ty) ns) pls) nb"
    and res: "resumed hf ty rh (N' # Ns) p pls"
    and pq: "p < q" "q \<le> length N" and ns: "ns \<noteq> []" and V: "V = take p N @ ns @ drop q N"
    and f: "forest hf ty h es V" and inp: "input_ok ty es" "params_ok win mx" "digest_ok hf"
    and rh: "rh_rep rh []" "rh_test rh = is_boundary pat win mx"
    and U: "U = map PNode (groups (is_boundary pat win mx) (tree_enc hf ty) V)"
      "\<forall>u \<in> set U. set (tree_chunks hf ty u) \<subseteq> C"
  shows "\<exists>l ps cs us J pls'. nb = l # ps \<and> nb_cursor l \<noteq> None \<and> commit_level hf rh CT_kMeta ld st l ps = Some cs \<and>
    U = take (node_at N' p) N' @ us @ drop J N' \<and> us \<noteq> [] \<and> node_at N' p < J \<and> J \<le> length N' \<and>
    cs_store cs = put_chunks hf (map (tree_chunk hf ty) us) st \<and> cs_last cs = Some (tree_chunk hf ty (last us)) \<and>
    par hf ty Ns J (add_pl (map (tree_me hf ty) us) pls') (cs_parents cs) \<and> above hf ty rh Ns (node_at N' p) pls' \<and>
    chunk_hash hf (tree_chunk hf ty (last us)) = Some (tree_hash hf ty (last us))"
proof -
  let ?P = "is_boundary pat win mx" and ?enc = "tree_enc hf ty"
  note n = inner_nodes[OF tw]
  obtain qs where pl: "placed hf ty (N' # Ns) (q # qs) nb" "linked (N' # Ns) (q # qs)"
    "map payload nb = add_pl (map (tree_me hf ty) ns) pls" "\<not> nb_commited (hd nb)"
    using par by (auto simp: par_def stands_def simp del: linked.simps)
  obtain l ps where nb: "nb = l # ps" and l: "nb_cursor l = Some (pos hf ty (N' # Ns) q)" "placed hf ty Ns qs ps"
    using pl(1) unfolding placed_Cons by blast
  obtain pre pls1 where pls: "pls = (pre, [], rh) # pls1" and hold: "pre_holds pre (ahead hf ty N' p)"
    and res1: "resumed hf ty rh Ns (node_at N' p) pls1"
    using res by (cases pls) auto
  have pay: "nb_pre l = pre" "nb_appended l = map (meta_seg \<circ> ?enc) ns" "nb_rhasher l = rh" "map payload ps = pls1"
    using pl(3) by (auto simp: nb pls payload_def tree_enc_def comp_def)
  have enV: "\<forall>t \<in> set V. ?enc t \<noteq> []" using tree_enc_length(2)[OF inp(1) f inp(3)] by blast
  have segs: "segs_rep (nb_appended l) (map (map ?enc) (map (\<lambda>t. [t]) ns))"
    unfolding pay(2) by (rule meta_segs_rep) (use enV V in auto)
  have W: "V = take p N @ concat (map (\<lambda>t. [t]) ns) @ drop q N" by (simp add: V)
  have b: "start N' (node_at N' p) \<le> p"
    using node_at_bounds(2)[OF lev_nonempty[OF lv], of p] pl(2) pq by simp
  then have st: "start N' (node_at N' p) < length V \<or> node_at N' p = 0" using pq by (cases ns) (use ns in \<open>auto simp: V\<close>)
  have "V \<noteq> []" using ns by (simp add: V)
  then have all: "all_groups ?P ?enc V = groups ?P ?enc V" "U = map PNode (all_groups ?P ?enc V)"
    by (simp_all add: all_groups_def U(1))
  have ok: "\<forall>g \<in> set (all_groups ?P ?enc V). meta_level_ok hf ty g \<and> (tree_chunk hf ty \<circ> PNode) g \<in> C"
    using meta_group_ok(1)[OF inp f] U(2) unfolding all by auto
  from meta_lv.commit_level_pos[OF lv n(3) C refl l(1) _ _ _ hold[folded pay(1)] _ segs pl(2) l(2) kp W st ok enV,
      of rh, unfolded pay(3)] pl(4) rh pq nb
  obtain cs gs J where cs: "commit_level hf rh CT_kMeta ld st l ps = Some cs"
    "all_groups ?P ?enc V = take (node_at N' p) (all_groups ?P ?enc N) @ gs @ drop J (all_groups ?P ?enc N)"
    "gs \<noteq> []" "node_at N' p < J" "J \<le> length N'"
    "cs_store cs = put_chunks hf (map (tree_chunk hf ty \<circ> PNode) gs) st"
    "cs_last cs = Some ((tree_chunk hf ty \<circ> PNode) (last gs))"
    "par hf ty Ns J (add_pl (map (tree_me hf ty \<circ> PNode) gs) (map payload (parent_builder rh ps))) (cs_parents cs)"
    by auto
  have "U = take (node_at N' p) N' @ map PNode gs @ drop J N'"
    using n(1) tw unfolding all(2) cs(2) by (auto simp: all_groups_def take_map drop_map elim: tower_moreE)
  moreover have "meta_level_ok hf ty (last gs)" using ok cs(2,3) by simp
  then have "chunk_hash hf (tree_chunk hf ty (PNode (last gs))) = Some (tree_hash hf ty (PNode (last gs)))"
    by (simp add: meta_level_ok_def meta_chunk_hash tree_hash_def)
  ultimately show ?thesis
    using nb l(1) cs resumed_above[OF res1[folded pay(4)]]
    by (intro exI[of _ l] exI[of _ ps] exI[of _ cs] exI[of _ "map PNode gs"] exI[of _ J]
        exI[of _ "map payload (parent_builder rh ps)"]) (simp add: last_map comp_def)
qed


lemma chunks_root: "tree_chunk hf ty t \<in> set (tree_chunks hf ty t)"
  by (cases t) auto

lemma new_node_chunks:
  "set (tree_chunks hf ty (PNode g)) = insert (tree_chunk hf ty (PNode g)) (\<Union>v \<in> set g. set (tree_chunks hf ty v))"
  by simp

lemma level_chunks:
  assumes "u \<in> set (map PNode (groups P enc V))" and "map PNode (groups P enc V) = take j N @ us @ drop J N"
    and "\<forall>t \<in> set N. set (tree_chunks hf ty t) \<subseteq> B"
  shows "set (tree_chunks hf ty u) \<subseteq> set (map (tree_chunk hf ty) us) \<union> (\<Union>v \<in> set V. set (tree_chunks hf ty v)) \<union> B"
proof (cases "u \<in> set us")
  case True
  obtain g where g: "u = PNode g" "g \<in> set (groups P enc V)" using assms(1) by auto
  then have "set g \<subseteq> set V" using arg_cong[OF groups_concat[of P enc V], of set] by auto
  with True g(1) new_node_chunks[of hf ty g] show ?thesis by (auto simp del: tree_chunks.simps tree_chunk.simps)
next
  case False
  with assms(1) have "u \<in> set N" unfolding assms(2) by (auto dest: in_set_takeD in_set_dropD)
  with assms(3) show ?thesis by auto
qed

lemma rest_commits:
  assumes tw: "tower (is_boundary pat win mx) hf ty N (N # Ns)" and lv: "lev hf ty (N # Ns)"
    and C: "within hf ty C Ns" and kp: "kept hf ty (ld ++ st) Ns"
    and par: "par hf ty Ns q (add_pl (map (tree_me hf ty) ns) pls) nb" and res: "above hf ty rh Ns p pls"
    and pq: "p < q" "q \<le> length N" and ns: "ns \<noteq> []" and V: "V = take p N @ ns @ drop q N"
    and f: "forest hf ty h es V" and inp: "input_ok ty es" "params_ok win mx" "digest_ok hf"
    and rh: "rh_rep rh []" "rh_test rh = is_boundary pat win mx"
    and T: "rise (is_boundary pat win mx) hf ty (length Ns) V T" "set (tree_chunks hf ty T) \<subseteq> C"
    and old: "\<forall>M \<in> set Ns. \<forall>t \<in> set M. set (tree_chunks hf ty t) \<subseteq> B"
  shows "\<exists>ds. commit_rest hf rh ld st (tree_hash hf ty (last ns)) nb = Some (tree_hash hf ty T, put_chunks hf ds st) \<and>
    set ds \<subseteq> set (tree_chunks hf ty T) \<and>
    set (tree_chunks hf ty T) \<subseteq> set ds \<union> (\<Union>v \<in> set V. set (tree_chunks hf ty v)) \<union> B"
  using tw lv C kp par res pq ns V f T old
proof (induction Ns arbitrary: N q ns pls nb p V h st)
  case Nil
  have "length N = 1" using Nil.prems(2) by simp
  then have "V = ns" using Nil.prems(7,8,10) by simp
  with rest_top[OF _ _ _ inp rh, of V T h q nb ld st] Nil.prems(5,6,9,11,12) show ?case
    by (auto simp: above_def)
next
  case (Cons N' Ns)
  let ?U = "map PNode (groups (is_boundary pat win mx) (tree_enc hf ty) V)"
  note l = lev_Cons2[OF Cons.prems(2)]
  note T' = Cons.prems(12)[simplified]
  have res: "resumed hf ty rh (N' # Ns) p pls" using Cons.prems(6) by (simp add: above_def)
  have subT: "\<forall>u \<in> set ?U. set (tree_chunks hf ty u) \<subseteq> set (tree_chunks hf ty T)"
    using rise_chunks[OF T'] by auto
  then have UC: "\<forall>u \<in> set ?U. set (tree_chunks hf ty u) \<subseteq> C" using Cons.prems(13) by blast
  from commit_inner[OF Cons.prems(1) l(2) Cons.prems(3-5) res Cons.prems(7-11) inp rh refl UC]
  obtain lv ps cs us J pls' where nb: "nb = lv # ps" "nb_cursor lv \<noteq> None"
    and cl: "commit_level hf rh CT_kMeta ld st lv ps = Some cs" "cs_store cs = put_chunks hf (map (tree_chunk hf ty) us) st"
      "cs_last cs = Some (tree_chunk hf ty (last us))" "chunk_hash hf (tree_chunk hf ty (last us)) = Some (tree_hash hf ty (last us))"
    and U: "?U = take (node_at N' p) N' @ us @ drop J N'" "us \<noteq> []" "node_at N' p < J" "J \<le> length N'"
    and pr: "par hf ty Ns J (add_pl (map (tree_me hf ty) us) pls') (cs_parents cs)" "above hf ty rh Ns (node_at N' p) pls'"
    by blast
  have usT: "set (map (tree_chunk hf ty) us) \<subseteq> set (tree_chunks hf ty T)"
    using subT U(1) chunks_root by (fastforce simp: U(1))
  have kp': "kept hf ty (ld ++ cs_store cs) Ns" "within hf ty C Ns"
    using kept_puts[OF Cons.prems(4,3)] usT Cons.prems(3,13) unfolding cl(2) by (auto simp: kept_def within_def)
  have old': "\<forall>M \<in> set Ns. \<forall>t \<in> set M. set (tree_chunks hf ty t) \<subseteq> B" using Cons.prems(14) by simp
  from Cons.IH[OF inner_nodes(2)[OF Cons.prems(1)] l(2) kp'(2,1) pr U(3,4,2,1)
      forest_groups[OF inp Cons.prems(11)] T' Cons.prems(13) old']
  obtain ds where ds: "commit_rest hf rh ld (cs_store cs) (tree_hash hf ty (last us)) (cs_parents cs) =
      Some (tree_hash hf ty T, put_chunks hf ds (cs_store cs))" "set ds \<subseteq> set (tree_chunks hf ty T)"
    "set (tree_chunks hf ty T) \<subseteq> set ds \<union> (\<Union>v \<in> set ?U. set (tree_chunks hf ty v)) \<union> B" by blast
  have "commit_rest hf rh ld st (tree_hash hf ty (last ns)) nb = RecursiveCommit hf rh CT_kMeta ld st (lv # ps)"
    using nb by (simp add: commit_rest_def)
  also have "\<dots> = Some (tree_hash hf ty T, put_chunks hf (map (tree_chunk hf ty) us @ ds) st)"
    unfolding RecursiveCommit_rest[OF cl(1,3,4)] ds(1) by (simp add: cl(2))
  finally have r: "commit_rest hf rh ld st (tree_hash hf ty (last ns)) nb = \<dots>" .
  have "(\<Union>u \<in> set ?U. set (tree_chunks hf ty u)) \<subseteq>
      set (map (tree_chunk hf ty) us) \<union> (\<Union>v \<in> set V. set (tree_chunks hf ty v)) \<union> B"
    using Cons.prems(14) by (intro UN_least level_chunks[OF _ U(1)]) auto
  with ds(3) have "set (tree_chunks hf ty T) \<subseteq>
      set (map (tree_chunk hf ty) us @ ds) \<union> (\<Union>v \<in> set V. set (tree_chunks hf ty v)) \<union> B"
    unfolding set_append by blast
  with r usT ds(2) show ?case
    by (intro exI[of _ "map (tree_chunk hf ty) us @ ds"]) auto
qed


section \<open>Pruning the root\<close>

fun unary :: "nat \<Rightarrow> ptree \<Rightarrow> ptree" where
  "unary 0 t = t"
| "unary (Suc n) t = PNode [unary n t]"

lemma unary_shift: "unary n (PNode [t]) = unary (Suc n) t"
  by (induction n) auto

lemma groups_one: "groups P enc [x] = [[x]]"
  by (simp add: groups_def)

lemma built_height:
  assumes "built (is_boundary pat win mx) hf ty V t" and "forest hf ty h es V"
    and "input_ok ty es" and "params_ok win mx" and "digest_ok hf"
  shows "h \<le> height t" and "V = [t] \<or> (\<exists>ts. t = PNode ts \<and> 1 < length ts)"
proof -
  show "h \<le> height t" using assms(1,2)
  proof (induction arbitrary: h rule: built.induct)
    case (built_up V t)
    from built_up.IH[OF forest_groups[OF assms(3-5) built_up.prems]] show ?case by simp
  qed (simp add: forest_def)
  show "V = [t] \<or> (\<exists>ts. t = PNode ts \<and> 1 < length ts)" using assms(1)
  proof (induction rule: built.induct)
    case (built_up V t)
    show ?case
    proof (cases "map PNode (groups (is_boundary pat win mx) (tree_enc hf ty) V) = [t]")
      case True
      then obtain g where "groups (is_boundary pat win mx) (tree_enc hf ty) V = [g]" "t = PNode g" by auto
      with groups_concat[of "is_boundary pat win mx" "tree_enc hf ty" V] built_up.hyps(1) show ?thesis by simp
    qed (use built_up.IH in blast)
  qed simp
qed

lemma rise_unary:
  assumes "built (is_boundary pat win mx) hf ty V t" and "forest hf ty h es V"
    and "input_ok ty es" and "params_ok win mx" and "digest_ok hf"
  shows "rise (is_boundary pat win mx) hf ty n V (unary (n - (height t - h)) t)"
  using assms(1,2)
proof (induction arbitrary: h n rule: built.induct)
  case (built_root t)
  have "rise (is_boundary pat win mx) hf ty n [u] (unary n u)" for u
  proof (induction n arbitrary: u)
    case 0
    show ?case by (simp add: built.built_root)
  next
    case (Suc n)
    from Suc[of "PNode [u]"] show ?case by (simp add: groups_one unary_shift)
  qed
  moreover have "height t = h" using built_root by (simp add: forest_def)
  ultimately show ?case by simp
next
  case (built_up V t)
  show ?case
  proof (cases n)
    case 0
    then show ?thesis using built.built_up[OF built_up.hyps] by simp
  next
    case (Suc m)
    note f = forest_groups[OF assms(3-5) built_up.prems]
    have "Suc h \<le> height t" by (rule built_height(1)[OF built_up.hyps(2) f assms(3-5)])
    then have "m - (height t - Suc h) = n - (height t - h)" using Suc by simp
    with built_up.IH[OF f, of m] show ?thesis by (simp add: Suc)
  qed
qed

lemma rise_wf:
  assumes "rise (is_boundary pat win mx) hf ty n V T" and "forest hf ty h es V"
    and "input_ok ty es" and "params_ok win mx" and "digest_ok hf"
  shows "tree_wf hf ty T"
  using assms(1,2)
proof (induction n arbitrary: V h)
  case 0
  then show ?case using built_wf[OF _ _ assms(3-5)] by simp
next
  case (Suc n)
  from Suc.IH[OF _ forest_groups[OF assms(3-5) Suc.prems(2)]] Suc.prems(1) show ?case by simp
qed

lemma tower_height:
  assumes "tower (is_boundary pat win mx) hf ty ts L" and "forest hf ty h es ts" and "last L = [t]"
    and "input_ok ty es" and "params_ok win mx" and "digest_ok hf"
  shows "height t + 1 = h + length L"
  using assms(1-3)
proof (induction arbitrary: h rule: tower.induct)
  case (tower_up ts Ns)
  from tower_up.IH[OF forest_groups[OF assms(4-6) tower_up.prems(1)]] tower_up.prems(2) tower_hd[OF tower_up.hyps(2)]
  show ?case by simp
qed (simp add: forest_def)

lemma stored_iff: "stored hf ty ld t \<longleftrightarrow> (\<forall>c \<in> set (tree_chunks hf ty t). ld (hf c) = Some c)"
proof (induction t)
  case (PNode ts)
  then show ?case by (auto simp: tree_hash_def)
qed simp

lemma stored_unary: "stored hf ty ld (unary n t) \<Longrightarrow> stored hf ty ld t"
  by (induction n) auto

lemma prune_unary:
  assumes "tree_wf hf ty (unary n t)" and "stored hf ty ld (unary n t)"
    and "(\<exists>es. t = PLeaf es) \<or> (\<exists>ts. t = PNode ts \<and> 1 < length ts)"
  shows "prune_root ld (tree_hash hf ty (unary n t)) = Some (tree_hash hf ty t)"
  using assms(1,2)
proof (induction n)
  case 0
  note r = stored_root[OF 0(2)] CreateFromChunk_tree[OF 0(1)] tree_node_numEntries[OF 0(1)]
  show ?case
  proof (cases t)
    case (PLeaf es)
    have "leaf_type ty" using 0(1) PLeaf by (simp add: leaf_ok_def)
    then show ?thesis
      by (cases rule: leaf_type_cases) (use r PLeaf in \<open>subst prune_root.simps; auto\<close>)+
  next
    case (PNode ts)
    then show ?thesis using r assms(3)
      by (subst prune_root.simps) auto
  qed
next
  case (Suc n)
  note r = stored_root[OF Suc.prems(2)] CreateFromChunk_tree[OF Suc.prems(1)] tree_node_numEntries[OF Suc.prems(1)]
  let ?u = "unary n t"
  have m: "metas_ok (map (tree_me hf ty) [?u])" and wf: "tree_wf hf ty ?u"
    using tree_wf_node(3)[of hf ty "[?u]"] tree_wf_nth(1)[of hf ty "[?u]" 0] Suc.prems(1) by auto
  from Suc.IH[OF wf] Suc.prems(2) have "prune_root ld (tree_hash hf ty ?u) = Some (tree_hash hf ty t)" by simp
  then show ?case using r MetaNode_entry_eq(3)[OF m, of 0]
    by (subst prune_root.simps) auto
qed


section \<open>Editing at a position\<close>

text \<open>The levels of a tree with the levels \<open>L\<close>, ready to replace \<open>d\<close> elements from \<open>p\<close> on.\<close>

lemma SpliceElements_pos:
  assumes lv: "lev hf ty (N # Ns)" and lf: "\<forall>t \<in> set N. \<exists>es. t = PLeaf es" and kp: "kept hf ty ld (N # Ns)"
    and p: "p \<le> span N"
  shows "\<exists>nb l ps qs. NodeBuilder_cursor rh ty (pos hf ty (N # Ns) p) = Some nb \<and>
    SpliceElements ld d segs nb = Some (l # ps) \<and>
    nb_cursor l = Some (pos hf ty (N # Ns) (min (p + d) (span N))) \<and> \<not> nb_commited l \<and>
    nb_appended l = segs \<and> nb_rhasher l = rh \<and> pre_holds (nb_pre l) (ahead hf ty N p) \<and>
    placed hf ty Ns qs ps \<and> linked (N # Ns) (min (p + d) (span N) # qs) \<and>
    resumed hf ty rh Ns (node_at N p) (map payload ps)"
proof -
  have "\<forall>t \<in> set N. ty = node_type ty t" using lf by (auto simp: node_type_def)
  from NodeBuilder_cursor_pos[OF lv this p, of rh] obtain nb where
    nb: "NodeBuilder_cursor rh ty (pos hf ty (N # Ns) p) = Some nb" "placed hf ty (N # Ns) (trail (N # Ns) p) nb"
    "linked (N # Ns) (trail (N # Ns) p)" "resumed hf ty rh (N # Ns) p (map payload nb)" "nb_commited (hd nb)" by blast
  have tr: "trail (N # Ns) p = p # trail Ns (node_at N p)" by simp
  obtain l0 ps0 where n0: "nb = l0 # ps0" using nb(2) unfolding tr placed_Cons by blast
  have "placed hf ty (N # Ns) (p # trail Ns (node_at N p)) (l0\<lparr>nb_commited := False\<rparr> # ps0)"
    using nb(2) n0 unfolding tr by simp
  from SkipEntries_pos[OF lv kp this nb(3)[unfolded tr], of d] obtain k nb' qs where
    sk: "SkipEntries ld d (l0\<lparr>nb_commited := False\<rparr> # ps0) = Some (k, nb')"
    "placed hf ty (N # Ns) (min (p + d) (span N) # qs) nb'" "linked (N # Ns) (min (p + d) (span N) # qs)"
    "map payload nb' = map payload (l0 # ps0)" "\<not> nb_commited (hd nb')" by (auto simp: payload_def simp del: linked.simps placed.simps(2))
  obtain l ps where n: "nb' = l # ps" "nb_cursor l = Some (pos hf ty (N # Ns) (min (p + d) (span N)))" "placed hf ty Ns qs ps"
    using sk(2) unfolding placed_Cons by blast
  have "SpliceElements ld d segs nb = Some (l\<lparr>nb_appended := nb_appended l @ segs\<rparr> # ps)"
    using nb(5) sk(1) n(1) by (simp add: SpliceElements_def n0)
  moreover have "payload l = payload l0" "map payload ps = map payload ps0" using sk(4) n(1) by auto
  moreover have "nb_appended l0 = []" "nb_rhasher l0 = rh" "pre_holds (nb_pre l0) (ahead hf ty N p)"
    "resumed hf ty rh Ns (node_at N p) (map payload ps0)"
    using nb(4) n0 by (auto simp: payload_def)
  ultimately show ?thesis
    using nb(1) n sk(3,5)
    by (intro exI[of _ nb] exI[of _ "l\<lparr>nb_appended := nb_appended l @ segs\<rparr>"] exI[of _ ps] exI[of _ qs])
      (auto simp: payload_def simp del: linked.simps pos.simps)
qed


lemma levels_chunks:
  assumes "lev hf ty L" and "last L = [t]" and "M \<in> set L" and "u \<in> set M"
  shows "set (tree_chunks hf ty u) \<subseteq> set (tree_chunks hf ty t)"
  using assms
proof (induction L arbitrary: M u)
  case (Cons N Ns)
  show ?case
  proof (cases Ns)
    case Nil
    then show ?thesis using Cons.prems by simp
  next
    case (Cons N' Ns')
    note l = lev_Cons2[OF Cons.prems(1)[unfolded Cons]]
    have sub: "v \<in> set N' \<Longrightarrow> set (tree_chunks hf ty v) \<subseteq> set (tree_chunks hf ty t)" for v
      using Cons.IH[of N' v] l(2) Cons.prems(2) Cons by simp
    show ?thesis
    proof (cases "M = N")
      case True
      then obtain v where v: "v \<in> set N'" "u \<in> set (kids v)" using Cons.prems(4) l(1) by auto
      then have "set (tree_chunks hf ty u) \<subseteq> set (tree_chunks hf ty v)" by (cases v rule: ptree.exhaust) auto
      with sub[OF v(1)] show ?thesis by blast
    next
      case False
      then show ?thesis using Cons.IH[of M u] l(2) Cons.prems Cons by simp
    qed
  qed
qed simp

lemma stored_written:
  assumes "inj_on hf C" and "set ds \<subseteq> C" and "B \<subseteq> C" and "\<forall>c \<in> B. (ld ++ st) (hf c) = Some c"
    and "set (tree_chunks hf ty T) \<subseteq> set ds \<union> B"
  shows "stored hf ty (ld ++ put_chunks hf ds st) T"
  unfolding stored_iff
proof
  fix c
  assume c: "c \<in> set (tree_chunks hf ty T)"
  show "(ld ++ put_chunks hf ds st) (hf c) = Some c"
  proof (cases "c \<in> set ds")
    case True
    with put_chunks_get[OF inj_on_subset[OF assms(1,2)]] show ?thesis by simp
  next
    case False
    with c assms(5) have "c \<in> B" by blast
    moreover from this False assms(1-3) have "hf c \<notin> hf ` set ds" by (auto simp: inj_on_def)
    ultimately show ?thesis using put_chunks_other[of "hf c" hf ds st] assms(4) by (simp add: map_add_def)
  qed
qed

lemma RecursiveCommit_splice:
  assumes lo: "levels_of (is_boundary pat win mx) hf ty es t (N # Ns)" and inp: "input_ok ty es" "params_ok win mx" "digest_ok hf"
    and stt: "stored hf ty (ld ++ st) t" and q: "p \<le> q"
    and level: "nb_cursor l = Some (pos hf ty (N # Ns) q)" "\<not> nb_commited l" "nb_rhasher l = rh"
      "pre_holds (nb_pre l) (ahead hf ty N p)" "segs_rep (nb_appended l) ess"
    and link: "linked (N # Ns) (q # qs)" "placed hf ty Ns qs ps" "resumed hf ty rh Ns (node_at N p) (map payload ps)"
    and es': "es' = take p es @ concat ess @ drop q es" "es' \<noteq> [] \<or> Ns = []" "input_ok ty es'"
      "start N (node_at N p) < length es' \<or> node_at N p = 0"
    and V: "V = map PLeaf (all_groups (is_boundary pat win mx) (\<lambda>e. e) es')"
    and rh: "rh_rep rh []" "rh_test rh = is_boundary pat win mx"
    and T: "rise (is_boundary pat win mx) hf ty (length Ns) V T"
    and inj: "inj_on hf (set (tree_chunks hf ty t) \<union> set (tree_chunks hf ty T))"
  shows "\<exists>ds. RecursiveCommit hf rh ty ld st (l # ps) = Some (tree_hash hf ty T, put_chunks hf ds st) \<and>
    set ds \<subseteq> set (tree_chunks hf ty T) \<and> set (tree_chunks hf ty T) \<subseteq> set ds \<union> set (tree_chunks hf ty t)"
proof -
  let ?P = "is_boundary pat win mx" and ?id = "\<lambda>e :: bytes. e" and ?B = "set (tree_chunks hf ty t)"
  let ?C = "?B \<union> set (tree_chunks hf ty T)" and ?G = "all_groups ?P ?id es"
  note lv = levels_of_lev[OF lo inp]
  have tw: "tower ?P hf ty (map PLeaf ?G) (N # Ns)" and lst: "last (N # Ns) = [t]" using lo by (auto simp: levels_of_def)
  have N: "N = map PLeaf ?G" using tower_hd[OF tw] by simp
  have nd: "nodes_are hf ty ?id N ?G" by (simp add: N nodes_are_def comp_def)
  note chB = levels_chunks[OF lv(1) lst]
  have C: "within hf ty ?C (N # Ns)" using inj chB by (auto simp: within_def)
  have kp: "kept hf ty (ld ++ st) (N # Ns)" by (rule lv(4)[OF stt])
  note sub = rise_chunks[OF T]
  have VT: "leaf_chunk ty g \<in> set (tree_chunks hf ty T)" if "g \<in> set (all_groups ?P ?id es')" for g
    using sub[of "PLeaf g"] that by (auto simp: V)
  have ok: "\<forall>g \<in> set (all_groups ?P ?id es'). leaf_level_ok hf ty g \<and> leaf_chunk ty g \<in> ?C"
    using leaf_group_ok[OF es'(3) inp(2)] inp(3) VT by (auto simp: leaf_level_ok_def)
  have en: "\<forall>x \<in> set es'. x \<noteq> []"
    using es'(3) entry_valid_nonempty by (auto simp: input_ok_def)
  have app: "segs_rep (nb_appended l) (map (map ?id) ess)" using level(5) by simp
  from leaf_lv.commit_level_pos[OF lv(1) nd C refl level(1,2) _ _ level(4) q app link(1,2) kp es'(1,4) ok en,
      of rh, unfolded level(3)] rh
  obtain cs gs J where cs: "commit_level hf rh ty ld st l ps = Some cs"
    "all_groups ?P ?id es' = take (node_at N p) ?G @ gs @ drop J ?G" "gs \<noteq> []" "node_at N p < J" "J \<le> length N"
    "cs_store cs = put_chunks hf (map (leaf_chunk ty) gs) st" "cs_last cs = Some (leaf_chunk ty (last gs))"
    "par hf ty Ns J (add_pl (map (leaf_entry hf ty) gs) (map payload (parent_builder rh ps))) (cs_parents cs)"
    by auto
  let ?us = "map PLeaf gs"
  have U: "V = take (node_at N p) N @ ?us @ drop J N" by (simp add: V cs(2) N take_map drop_map)
  have gT: "set (map (leaf_chunk ty) gs) \<subseteq> set (tree_chunks hf ty T)" using VT by (auto simp: cs(2))
  have gl: "leaf_level_ok hf ty (last gs)" using ok cs(2,3) by simp
  have hash: "chunk_hash hf (leaf_chunk ty (last gs)) = Some (tree_hash hf ty (last ?us))"
    using gl cs(3) leaf_chunk_hash by (simp add: leaf_level_ok_def last_map tree_hash_def)
  have "kept hf ty (ld ++ cs_store cs) (N # Ns)"
    unfolding cs(6) by (rule kept_puts[OF kp C]) (use gT in blast)
  then have kp': "kept hf ty (ld ++ cs_store cs) Ns" "within hf ty ?C Ns"
    using C by (auto simp: kept_def within_def)
  have "map (leaf_entry hf ty) gs = map (tree_me hf ty) ?us" by simp
  note pr = cs(8)[unfolded this]
  have f: "es' \<noteq> [] \<Longrightarrow> forest hf ty 0 es' V" unfolding V by (rule forest_leaves[OF es'(3) inp(2)])
  have old: "\<forall>M \<in> set Ns. \<forall>u \<in> set M. set (tree_chunks hf ty u) \<subseteq> ?B" using chB by auto
  have "\<exists>ds. commit_rest hf rh ld (cs_store cs) (tree_hash hf ty (last ?us)) (cs_parents cs) =
      Some (tree_hash hf ty T, put_chunks hf ds (cs_store cs)) \<and> set ds \<subseteq> set (tree_chunks hf ty T) \<and>
    set (tree_chunks hf ty T) \<subseteq> set ds \<union> (\<Union>v \<in> set V. set (tree_chunks hf ty v)) \<union> ?B"
  proof (cases "es' = []")
    case True
    then have Ns: "Ns = []" "V = [PLeaf []]" using es'(2) by (auto simp: V all_groups_def)
    have "length N = 1" using lv(1) Ns(1) by simp
    then have us: "V = ?us" using U cs(4,5) by simp
    have "1 < length V \<Longrightarrow> forest hf ty 0 es' V" using Ns(2) by simp
    moreover have "map payload (parent_builder rh ps) = [(None, [], rh)]"
      using resumed_above[OF link(3)] Ns(1) by (simp add: above_def)
    ultimately have "\<exists>ds. commit_rest hf rh ld (cs_store cs) (tree_hash hf ty (last V)) (cs_parents cs) =
        Some (tree_hash hf ty T, put_chunks hf ds (cs_store cs)) \<and> set ds \<subseteq> set (tree_chunks hf ty T) \<and>
      set (tree_chunks hf ty T) \<subseteq> set ds \<union> (\<Union>v \<in> set V. set (tree_chunks hf ty v))"
      using T Ns pr us es'(3) inp(2,3) rh by (intro rest_top[where es = es' and h = 0 and J = J]) auto
    then show ?thesis unfolding us by blast
  next
    case False
    show ?thesis
      by (rule rest_commits[OF tw[folded N] lv(1) kp'(2,1) pr resumed_above[OF link(3)] cs(4,5) _ U
          f[OF False] es'(3) inp(2,3) rh T _ old]) (use cs(3) in auto)
  qed
  then obtain ds where ds: "commit_rest hf rh ld (cs_store cs) (tree_hash hf ty (last ?us)) (cs_parents cs) =
      Some (tree_hash hf ty T, put_chunks hf ds (cs_store cs))" "set ds \<subseteq> set (tree_chunks hf ty T)"
    "set (tree_chunks hf ty T) \<subseteq> set ds \<union> (\<Union>v \<in> set V. set (tree_chunks hf ty v)) \<union> ?B" by blast
  have "set (tree_chunks hf ty v) \<subseteq> set (map (leaf_chunk ty) gs) \<union> ?B" if "v \<in> set V" for v
    using that chB[of N v] unfolding U by (auto dest: in_set_takeD in_set_dropD)
  then have "set (tree_chunks hf ty T) \<subseteq> set (map (leaf_chunk ty) gs @ ds) \<union> ?B" using ds(3) unfolding set_append by blast
  moreover have "RecursiveCommit hf rh ty ld st (l # ps) = Some (tree_hash hf ty T, put_chunks hf (map (leaf_chunk ty) gs @ ds) st)"
    unfolding RecursiveCommit_rest[OF cs(1,7) hash] ds(1) by (simp add: cs(6))
  ultimately show ?thesis using gT ds(2)
    by (intro exI[of _ "map (leaf_chunk ty) gs @ ds"]) auto
qed


lemma tree_of_height:
  assumes "levels_of (is_boundary pat win mx) hf ty es t (N # Ns)" and "input_ok ty es" "params_ok win mx" "digest_ok hf"
  shows "length Ns = height t"
proof (cases "es = []")
  case True
  then have "tower (is_boundary pat win mx) hf ty [PLeaf []] (N # Ns)" "last (N # Ns) = [t]"
    using assms(1) by (auto simp: levels_of_def all_groups_def)
  then show ?thesis by (cases rule: tower.cases) auto
next
  case False
  from assms(1) have "tower (is_boundary pat win mx) hf ty (map PLeaf (all_groups (is_boundary pat win mx) (\<lambda>e. e) es)) (N # Ns)"
    "last (N # Ns) = [t]" by (auto simp: levels_of_def)
  from tower_height[OF this(1) forest_leaves[OF assms(2,3) False] this(2) assms(2-4)] show ?thesis by simp
qed

text \<open>The chunks that an edit may touch: those of the old tree, and those of the new tree with the
  inner nodes with one entry above it that the commit writes before it prunes them.\<close>

definition edit_chunks :: "(bytes \<Rightarrow> bytes) \<Rightarrow> ChunkType \<Rightarrow> ptree \<Rightarrow> ptree \<Rightarrow> chunk set" where
  "edit_chunks hf ty t t' = set (tree_chunks hf ty t) \<union> set (tree_chunks hf ty (unary (height t - height t') t'))"

text \<open>The tree of a sequence, under as many inner nodes with one entry as the old tree has levels
  more.\<close>

lemma unary_root:
  assumes t': "tree_of (is_boundary pat win mx) hf ty es t" and inp: "input_ok ty es" "params_ok win mx" "digest_ok hf"
    and "es \<noteq> [] \<or> n = 0"
  shows "rise (is_boundary pat win mx) hf ty n (map PLeaf (all_groups (is_boundary pat win mx) (\<lambda>e. e) es)) (unary (n - height t) t)"
    and "tree_wf hf ty (unary (n - height t) t)" and "(\<exists>es. t = PLeaf es) \<or> (\<exists>ts. t = PNode ts \<and> 1 < length ts)"
proof -
  let ?P = "is_boundary pat win mx" and ?V = "map PLeaf (all_groups (is_boundary pat win mx) (\<lambda>e. e) es)"
  note b = t'[unfolded tree_of_def]
  have "rise ?P hf ty n ?V (unary (n - height t) t) \<and> tree_wf hf ty (unary (n - height t) t) \<and>
    ((\<exists>es. t = PLeaf es) \<or> (\<exists>ts. t = PNode ts \<and> 1 < length ts))"
  proof (cases "es = []")
    case True
    then have "t = PLeaf []" using b by (auto simp: all_groups_def elim: built_singleE)
    with True b tree_of_wf[OF t' inp] assms(5) show ?thesis by simp
  next
    case False
    note f = forest_leaves[OF inp(1,2) False, of hf pat]
    have T: "rise ?P hf ty n ?V (unary (n - height t) t)" using rise_unary[OF b f inp, of n] by simp
    from T rise_wf[OF T f inp] built_height(2)[OF b f inp] show ?thesis by auto
  qed
  then show "rise ?P hf ty n ?V (unary (n - height t) t)" "tree_wf hf ty (unary (n - height t) t)"
    "(\<exists>es. t = PLeaf es) \<or> (\<exists>ts. t = PNode ts \<and> 1 < length ts)" by auto
qed

lemma splice_pos:
  assumes lo: "levels_of (is_boundary pat win mx) hf ty es t (N # Ns)" and inp: "input_ok ty es" "params_ok win mx" "digest_ok hf"
    and stt: "stored hf ty (ld ++ st) t" and p: "p \<le> length es" and segs: "segs_rep segs ess"
    and es': "es' = take p es @ concat ess @ drop (p + d) es" "es' \<noteq> [] \<or> Ns = []" "input_ok ty es'"
      "start N (node_at N p) < length es' \<or> node_at N p = 0"
    and t': "tree_of (is_boundary pat win mx) hf ty es' t'" and inj: "inj_on hf (edit_chunks hf ty t t')"
  shows "\<exists>nb nb' ds. NodeBuilder_cursor (RollingHasher pat win mx) ty (pos hf ty (N # Ns) p) = Some nb \<and>
    SpliceElements (ld ++ st) d segs nb = Some nb' \<and>
    Commit hf (RollingHasher pat win mx) ty ld st nb' = Some (tree_hash hf ty t', put_chunks hf ds st) \<and>
    stored hf ty (ld ++ put_chunks hf ds st) t' \<and> stored hf ty (ld ++ put_chunks hf ds st) t"
proof -
  let ?P = "is_boundary pat win mx" and ?rh = "RollingHasher pat win mx"
  let ?V = "map PLeaf (all_groups ?P (\<lambda>e. e) es')" and ?T = "unary (height t - height t') t'"
  note lv = levels_of_lev[OF lo inp]
  have rh: "rh_rep ?rh []" "rh_test ?rh = ?P" using rh_rep_params[OF inp(2)] by auto
  have lf: "\<forall>t \<in> set N. \<exists>es. t = PLeaf es" using lv(2) by (auto simp: leaves_first_def)
  have sp: "p \<le> span N" and spN: "span N = length es" using lv(3) p by simp_all
  from SpliceElements_pos[OF lv(1) lf lv(4)[OF stt] sp, of ?rh d segs] obtain nb l ps qs where
    nb: "NodeBuilder_cursor ?rh ty (pos hf ty (N # Ns) p) = Some nb" "SpliceElements (ld ++ st) d segs nb = Some (l # ps)"
    and l: "nb_cursor l = Some (pos hf ty (N # Ns) (min (p + d) (span N)))" "\<not> nb_commited l" "nb_rhasher l = ?rh"
      "pre_holds (nb_pre l) (ahead hf ty N p)" "nb_appended l = segs"
    and link: "linked (N # Ns) (min (p + d) (span N) # qs)" "placed hf ty Ns qs ps"
      "resumed hf ty ?rh Ns (node_at N p) (map payload ps)" by blast
  have app: "segs_rep (nb_appended l) ess" using segs l(5) by simp
  have q: "p \<le> min (p + d) (span N)" using sp by simp
  have es'2: "es' = take p es @ concat ess @ drop (min (p + d) (span N)) es" by (simp add: es'(1) spN min_def)
  have T: "rise ?P hf ty (length Ns) ?V ?T" and wfT: "tree_wf hf ty ?T"
    and root: "(\<exists>es. t' = PLeaf es) \<or> (\<exists>ts. t' = PNode ts \<and> 1 < length ts)"
    using unary_root[OF t' es'(3) inp(2,3), of "height t"] es'(2) tree_of_height[OF lo inp] by auto
  have inj': "inj_on hf (set (tree_chunks hf ty t) \<union> set (tree_chunks hf ty ?T))" using inj by (simp add: edit_chunks_def)
  from RecursiveCommit_splice[OF lo inp stt q l(1-4) app link es'2 es'(2-4) refl rh T inj'] obtain ds where
    rc: "RecursiveCommit hf ?rh ty ld st (l # ps) = Some (tree_hash hf ty ?T, put_chunks hf ds st)"
    and ds: "set ds \<subseteq> set (tree_chunks hf ty ?T)" "set (tree_chunks hf ty ?T) \<subseteq> set ds \<union> set (tree_chunks hf ty t)"
    by blast
  have st: "stored hf ty (ld ++ put_chunks hf ds st) u"
    if "set (tree_chunks hf ty u) \<subseteq> set ds \<union> set (tree_chunks hf ty t)" for u
    by (rule stored_written[OF inj' _ _ _ that]) (use ds(1) stt in \<open>auto simp: stored_iff\<close>)
  note sT = st[OF ds(2)]
  have "prune_root (ld ++ put_chunks hf ds st) (tree_hash hf ty ?T) = Some (tree_hash hf ty t')"
    by (rule prune_unary[OF wfT sT root])
  then have "Commit hf ?rh ty ld st (l # ps) = Some (tree_hash hf ty t', put_chunks hf ds st)"
    using rc l(1) by (simp add: Commit_def)
  with nb stored_unary[OF sT] st[of t] show ?thesis by blast
qed


lemma tree_of_levels_Cons: "tree_of P hf ty es t \<Longrightarrow> \<exists>N Ns. levels_of P hf ty es t (N # Ns)"
  using tree_of_levels tower_hd by (metis levels_of_def list.exhaust)

text \<open>An edit leaves something in the leaf under the cursor when it inserts something, keeps
  something behind the deleted elements or in front of them in the leaf, or when the leaf is the
  only one.\<close>

definition leaf_starts :: "(bytes \<Rightarrow> bool) \<Rightarrow> bytes list \<Rightarrow> nat list" where
  "leaf_starts P es = (let G = all_groups P (\<lambda>e. e) es in map (\<lambda>j. length (concat (take j G))) [0..<length G])"

definition edit_ok :: "(bytes \<Rightarrow> bool) \<Rightarrow> bytes list \<Rightarrow> ptree \<Rightarrow> nat \<Rightarrow> nat \<Rightarrow> bytes list \<Rightarrow> bool" where
  "edit_ok P es t p d ins \<longleftrightarrow> ins \<noteq> [] \<or> p + d < length es \<or> p \<notin> set (leaf_starts P es) \<or> height t = 0"

lemma leaf_stays:
  assumes "levels_of (is_boundary pat win mx) hf ty es t (N # Ns)" and "input_ok ty es" "params_ok win mx" "digest_ok hf"
    and "p \<le> length es" and "edit_ok (is_boundary pat win mx) es t p d ins"
    and es': "es' = take p es @ ins @ drop (p + d) es"
  shows "start N (node_at N p) < length es' \<or> node_at N p = 0" and "es' \<noteq> [] \<or> Ns = []"
proof -
  let ?P = "is_boundary pat win mx" and ?G = "all_groups (is_boundary pat win mx) (\<lambda>e. e) es"
  note lv = levels_of_lev[OF assms(1-4)]
  have N: "N = map PLeaf ?G" using assms(1) tower_hd by (fastforce simp: levels_of_def)
  have nd: "nodes_are hf ty (\<lambda>e. e) N ?G" by (simp add: N nodes_are_def comp_def)
  note n = nodes_are_facts[OF nd]
  have sp: "p \<le> span N" using lv(3) assms(5) by simp
  note b = node_at_bounds[OF lev_nonempty[OF lv(1)] sp]
  have len: "p \<le> length es'" using assms(5) by (simp add: es')
  have at: "start N j \<in> set (leaf_starts ?P es)" if "j < length N" for j
    using that n(1) unfolding leaf_starts_def Let_def n(4) by force
  have "start N (node_at N p) \<in> set (leaf_starts ?P es)" "0 \<in> set (leaf_starts ?P es)"
    using at[OF b(1)] at[of 0] lev_nonempty[OF lv(1)] by simp_all
  moreover have "p < length es'" if "ins \<noteq> [] \<or> p + d < length es" using that assms(5) by (cases ins) (auto simp: es')
  moreover have "Ns = [] \<and> node_at N p = 0" if "height t = 0"
    using that tree_of_height[OF assms(1-4)] lv(1) b(1) by auto
  ultimately have "start N (node_at N p) < length es' \<and> 0 < length es' \<or> Ns = [] \<and> node_at N p = 0"
    using assms(6) b(2) len unfolding edit_ok_def
    by (metis gr_zeroI le_neq_implies_less le_less_trans less_le_trans less_nat_zero_code)
  then show "start N (node_at N p) < length es' \<or> node_at N p = 0" "es' \<noteq> [] \<or> Ns = []" by auto
qed

section \<open>An example\<close>

definition ex_pair :: "bytes \<Rightarrow> bytes \<Rightarrow> ptree" where
  "ex_pair a b = PNode [PLeaf [list_item a], PLeaf [list_item b]]"

lemma ex_pair_tree:
  assumes "length a = 50" and "length b = 50"
  shows "tree_of (is_boundary 0 46 64) ex_hf CT_kList [list_item a, list_item b] (ex_pair a b)"
proof -
  let ?P = "is_boundary 0 46 64" and ?a = "list_item a" and ?b = "list_item b"
  have "first_cut ?P [] ?a \<noteq> None" "first_cut ?P [] ?b \<noteq> None"
    by (rule first_cut_zero; simp add: assms)+
  then have leaves: "all_groups ?P (\<lambda>e. e) [?a, ?b] = [[?a], [?b]]"
    by (auto simp: all_groups_def groups_def)
  have len: "length (tree_enc ex_hf CT_kList (PLeaf es)) = 45" for es
    by (simp add: tree_enc_def me_bytes_def leaf_entry_def leaf_key_def keyed_type_def
        digest_okD[OF ex_hf_digest] kByteLength_def)
  let ?ea = "tree_enc ex_hf CT_kList (PLeaf [?a])"
  have "first_cut ?P [] ?ea = None" by (rule first_cut_short) (simp add: len)
  moreover have "first_cut ?P ?ea (tree_enc ex_hf CT_kList (PLeaf [?b])) \<noteq> None"
    by (rule first_cut_zero) (simp_all add: len)
  ultimately have "groups ?P (tree_enc ex_hf CT_kList) [PLeaf [?a], PLeaf [?b]] = [[PLeaf [?a], PLeaf [?b]]]"
    by (auto simp: groups_def)
  then have "built ?P ex_hf CT_kList (map PNode (groups ?P (tree_enc ex_hf CT_kList)
      [PLeaf [?a], PLeaf [?b]])) (ex_pair a b)"
    by (simp add: ex_pair_def built_root)
  from built_up[OF _ this] have "built ?P ex_hf CT_kList [PLeaf [?a], PLeaf [?b]] (ex_pair a b)" by simp
  with leaves show ?thesis by (simp add: tree_of_def)
qed

lemma ex_pair_ok:
  assumes "length a = 50" and "length b = 50"
  shows "input_ok CT_kList [list_item a, list_item b]"
  using assms by (auto simp: input_ok_def leaf_type_def keyed_type_def list_valid_def list_item_ok_def
      intro: exI[of _ a] exI[of _ b])

definition ex_old :: ptree where
  "ex_old = ex_pair (replicate 50 7) (replicate 50 8)"

definition ex_new :: ptree where
  "ex_new = ex_pair (replicate 50 7) (replicate 50 9)"

definition ex_store :: loader where
  "ex_store = loader_of ex_hf (tree_chunks ex_hf CT_kList ex_old)"

lemma ex_store_holds: "stored ex_hf CT_kList (ex_store ++ Map.empty) ex_old"
  unfolding ex_store_def by code_simp

lemma ex_edit_inj: "inj_on ex_hf (edit_chunks ex_hf CT_kList ex_old ex_new)"
proof -
  have "distinct (map ex_hf (remdups (tree_chunks ex_hf CT_kList ex_old @
      tree_chunks ex_hf CT_kList (unary (height ex_old - height ex_new) ex_new))))" by code_simp
  then show ?thesis by (simp add: distinct_map edit_chunks_def)
qed

section \<open>Properties\<close>

text \<open>C1.  Editing a stored tree gives the tree of the edited sequence: a builder put on element
  \<open>p\<close> of the tree of \<open>es\<close>, told to delete \<open>d\<close> elements and to insert those of the given segments,
  and committed, returns the hash of the tree that building the edited sequence from scratch gives,
  whatever levels the edit adds or removes.  The new tree and the old one are both in the store.
  Excepted is the deletion of the last leaves as a whole; and the chunks concerned must have
  different hashes.\<close>

theorem splice_rebuilds:
  assumes "tree_of (is_boundary pat win mx) hf ty es t" and "stored hf ty (ld ++ st) t"
    and "input_ok ty es" and "params_ok win mx" and "digest_ok hf"
    and "p \<le> length es" and "segs_rep segs ess" and "edit_ok (is_boundary pat win mx) es t p d (concat ess)"
    and es': "es' = take p es @ concat ess @ drop (p + d) es" and "input_ok ty es'"
    and "tree_of (is_boundary pat win mx) hf ty es' t'" and "inj_on hf (edit_chunks hf ty t t')"
  shows "\<exists>st'. do { nb \<leftarrow> NodeBuilder_idx (ld ++ st) (RollingHasher pat win mx) ty (tree_hash hf ty t) p;
                   nb \<leftarrow> SpliceElements (ld ++ st) d segs nb;
                   Commit hf (RollingHasher pat win mx) ty ld st nb } = Some (tree_hash hf ty t', st') \<and>
    stored hf ty (ld ++ st') t' \<and> stored hf ty (ld ++ st') t"
proof -
  obtain N Ns where lo: "levels_of (is_boundary pat win mx) hf ty es t (N # Ns)"
    using tree_of_levels_Cons[OF assms(1)] by blast
  note ls = leaf_stays[OF lo assms(3-6,8) es']
  from splice_pos[OF lo assms(3-5,2,6,7) es' ls(2) assms(10) ls(1) assms(11,12)]
    NodeCursor_idx_pos[OF lo assms(3-5,2,6)]
  show ?thesis by (auto simp: NodeBuilder_idx_def simp del: pos.simps NodeBuilder_cursor.simps)
qed

theorem splice_rebuilds_witness:
  "\<exists>st'. do { nb \<leftarrow> NodeBuilder_idx (ex_store ++ Map.empty) (RollingHasher 0 46 64) CT_kList (tree_hash ex_hf CT_kList ex_old) 1;
             nb \<leftarrow> SpliceElements (ex_store ++ Map.empty) 1 [meta_seg (list_item (replicate 50 9))] nb;
             Commit ex_hf (RollingHasher 0 46 64) CT_kList ex_store Map.empty nb } = Some (tree_hash ex_hf CT_kList ex_new, st') \<and>
    stored ex_hf CT_kList (ex_store ++ st') ex_new \<and> stored ex_hf CT_kList (ex_store ++ st') ex_old"
proof (rule splice_rebuilds[OF _ ex_store_holds _ _ ex_hf_digest _ _ _ refl _ _ ex_edit_inj, where ess = "[[list_item (replicate 50 9)]]"])
  show "tree_of (is_boundary 0 46 64) ex_hf CT_kList [list_item (replicate 50 7), list_item (replicate 50 8)] ex_old"
    unfolding ex_old_def by (rule ex_pair_tree) simp_all
  show "input_ok CT_kList [list_item (replicate 50 7), list_item (replicate 50 8)]" by (rule ex_pair_ok) simp_all
  show "segs_rep [meta_seg (list_item (replicate 50 9))] [[list_item (replicate 50 9)]]"
    by (simp add: segs_rep_def meta_seg_rep list_item_def)
  have e: "take 1 [list_item (replicate 50 7), list_item (replicate 50 8)] @ concat [[list_item (replicate 50 9)]] @
      drop (1 + 1) [list_item (replicate 50 7), list_item (replicate 50 8)] =
      [list_item (replicate 50 7), list_item (replicate 50 9)]" by simp
  show "input_ok CT_kList (take 1 [list_item (replicate 50 7), list_item (replicate 50 8)] @ concat [[list_item (replicate 50 9)]] @
      drop (1 + 1) [list_item (replicate 50 7), list_item (replicate 50 8)])"
    unfolding e by (rule ex_pair_ok) simp_all
  show "tree_of (is_boundary 0 46 64) ex_hf CT_kList (take 1 [list_item (replicate 50 7), list_item (replicate 50 8)] @
      concat [[list_item (replicate 50 9)]] @ drop (1 + 1) [list_item (replicate 50 7), list_item (replicate 50 8)]) ex_new"
    unfolding e ex_new_def by (rule ex_pair_tree) simp_all
qed (simp_all add: params_ok_def edit_ok_def)

end
