(* ===== verification/Advanced_Builder.thy ===== *)
theory Advanced_Builder
  imports Build_Tree
begin

text \<open>
  \<open>AdvancedNodeBuilder\<close> of include/node/node_builder.h and src/node/node_builder.cc: several
  splices collected as operands, applied from the last to the first, and the chunks of the final
  tree written out from the cache of the intermediate ones.

  \<open>root\<close> is the root hash of the tree that is edited, \<open>None\<close> the empty hash of a new one.
  \<open>ld\<close> is its loader, \<open>w\<close> the chunks that the writer has received.  Indices are 64-bit
  numbers; sums wrap around.
\<close>

section \<open>Operands\<close>

record splice_operand =
  op_start :: nat
  op_delete :: nat
  op_segs :: "segment list"

definition add64 :: "nat \<Rightarrow> nat \<Rightarrow> nat" where
  "add64 a b = (a + b) mod 2 ^ 64"

definition op_end :: "splice_operand \<Rightarrow> nat" where
  "op_end op = add64 (op_start op) (op_delete op)"

text \<open>The two searches: the operands in front of the end of the new interval, and those that end
  at or before its start.\<close>

definition after_tail :: "splice_operand list \<Rightarrow> nat \<Rightarrow> nat" where
  "after_tail ops pos = length (takeWhile (\<lambda>op. op_start op < pos) ops)"

definition after_head :: "splice_operand list \<Rightarrow> nat \<Rightarrow> nat" where
  "after_head ops pos = length (takeWhile (\<lambda>op. \<not> pos < op_end op) ops)"

definition total_elements_of :: "loader \<Rightarrow> bytes option \<Rightarrow> nat option" where
  "total_elements_of ld root =
     (case root of None \<Rightarrow> Some 0
      | Some h \<Rightarrow> do { c \<leftarrow> ld h; nd \<leftarrow> CreateFromChunk c; numElements nd })"

text \<open>\<open>--operand_after_head_it\<close> on the first position is undefined; it stands here as a failure.\<close>

definition Splice :: "loader \<Rightarrow> bytes option \<Rightarrow> nat \<Rightarrow> nat \<Rightarrow> segment list \<Rightarrow> splice_operand list \<Rightarrow>
    splice_operand list option" where
  "Splice ld root start num_delete segs ops =
     do { tot \<leftarrow> total_elements_of ld root;
          CHECK (\<not> tot < start);
          let num_delete = (if tot < add64 start num_delete then tot - start else num_delete);
          let operand_segs = filter (\<lambda>s. \<not> empty_seg s) segs;
          let tail_it = after_tail ops (add64 start num_delete);
          let head_it = after_head ops start;
          if head_it = tail_it
          then Some (take tail_it ops @
                     \<lparr>op_start = start, op_delete = num_delete, op_segs = operand_segs\<rparr> #
                     drop tail_it ops)
          else do {
            CHECK (0 < head_it);
            CHECK (head_it - 1 = tail_it);
            op \<leftarrow> nth_opt ops tail_it;
            CHECK (num_delete = 0);
            CHECK (op_delete op = 0);
            Some (ops[tail_it := op\<lparr>op_segs := op_segs op @ operand_segs\<rparr>]) } }"

definition Insert_op :: "loader \<Rightarrow> bytes option \<Rightarrow> nat \<Rightarrow> segment list \<Rightarrow> splice_operand list \<Rightarrow>
    splice_operand list option" where
  "Insert_op ld root start segs ops = Splice ld root start 0 segs ops"

definition Remove_op :: "loader \<Rightarrow> bytes option \<Rightarrow> nat \<Rightarrow> nat \<Rightarrow> splice_operand list \<Rightarrow>
    splice_operand list option" where
  "Remove_op ld root start num_delete ops = Splice ld root start num_delete [] ops"

section \<open>Commit\<close>

text \<open>The loop over the operands in reverse order; \<open>st\<close> is the cache of \<open>ChunkCacher\<close>, which a
  load consults before the loader.\<close>

fun commit_operands :: "(bytes \<Rightarrow> bytes) \<Rightarrow> rolling_hasher \<Rightarrow> ChunkType \<Rightarrow> loader \<Rightarrow> loader \<Rightarrow> bytes \<Rightarrow>
    splice_operand list \<Rightarrow> (bytes \<times> loader) option" where
  "commit_operands hf rh ty ld st base [] = Some (base, st)"
| "commit_operands hf rh ty ld st base (op # ops) =
     do { nb \<leftarrow> NodeBuilder_idx (ld ++ st) rh ty base (op_start op);
          nb \<leftarrow> SpliceElements (ld ++ st) (op_delete op) (op_segs op) nb;
          (base, st) \<leftarrow> Commit hf rh ty ld st nb;
          commit_operands hf rh ty ld st base ops }"

text \<open>\<open>PreorderDump\<close>: chunks found in the cache are written, and their children visited; the list
  holds the roots still to visit, in the order of the recursion.\<close>

partial_function (option) PreorderDump :: "loader \<Rightarrow> loader \<Rightarrow> bytes list \<Rightarrow> loader option" where
  "PreorderDump cache w roots =
     (case roots of [] \<Rightarrow> Some w
      | root # rest \<Rightarrow>
          (case cache root of
             None \<Rightarrow> PreorderDump cache w rest
           | Some chunk \<Rightarrow>
               Option.bind (CreateFromChunk chunk) (\<lambda>nd.
                 case nd of
                   MetaNode c offs \<Rightarrow>
                     Option.bind (MetaNode_numEntries c) (\<lambda>n.
                     Option.bind (those (map (MetaNode_GetChildHashByEntry c offs) [0..<n])) (\<lambda>children.
                       PreorderDump cache (w(root \<mapsto> chunk)) (children @ rest)))
                 | _ \<Rightarrow> PreorderDump cache (w(root \<mapsto> chunk)) rest)))"

text \<open>\<open>Commit\<close>; without a root at most one operand can be applied.\<close>

definition AdvancedCommit :: "(bytes \<Rightarrow> bytes) \<Rightarrow> rolling_hasher \<Rightarrow> ChunkType \<Rightarrow> loader \<Rightarrow> loader \<Rightarrow>
    bytes option \<Rightarrow> splice_operand list \<Rightarrow> (bytes option \<times> loader) option" where
  "AdvancedCommit hf rh ty ld w root ops =
     (case root of
        None \<Rightarrow>
          (case ops of
             [] \<Rightarrow> do { nb \<leftarrow> SpliceElements ld 0 [] (NodeBuilder_new rh);
                        (h, w) \<leftarrow> Commit hf rh ty ld w nb; Some (Some h, w) }
           | [op] \<Rightarrow> do { nb \<leftarrow> SpliceElements ld (op_delete op) (op_segs op) (NodeBuilder_new rh);
                          (h, w) \<leftarrow> Commit hf rh ty ld w nb; Some (Some h, w) }
           | _ \<Rightarrow> Some (None, w))
      | Some base \<Rightarrow>
          do { (base, cache) \<leftarrow> commit_operands hf rh ty ld Map.empty base (rev ops);
               w \<leftarrow> PreorderDump cache w [base];
               Some (Some base, w) })"

section \<open>The order of operands\<close>

text \<open>Operands are disjoint intervals in order, within the sequence.\<close>

fun ops_ok :: "nat \<Rightarrow> nat \<Rightarrow> splice_operand list \<Rightarrow> bool" where
  "ops_ok pos tot [] = (pos \<le> tot)"
| "ops_ok pos tot (op # ops) = (pos \<le> op_start op \<and> ops_ok (op_start op + op_delete op) tot ops)"

lemma ops_ok_le: "ops_ok pos tot ops \<Longrightarrow> pos \<le> tot"
  by (induction pos tot ops rule: ops_ok.induct) auto

lemma ops_ok_mono: "ops_ok pos tot ops \<Longrightarrow> pos' \<le> pos \<Longrightarrow> ops_ok pos' tot ops"
  by (cases ops) auto

lemma ops_ok_take_head:
  assumes "ops_ok pos tot ops" and "pos \<le> s" and "tot < 2 ^ 64"
  shows "ops_ok pos s (take (after_head ops s) ops)"
  using assms
proof (induction pos tot ops rule: ops_ok.induct)
  case (2 pos tot op ops)
  have "ops_ok (op_start op + op_delete op) tot ops" using 2(2) by simp
  from ops_ok_le[OF this] have "op_end op = op_start op + op_delete op"
    using 2(4) by (simp add: op_end_def add64_def)
  with 2 show ?case by (auto simp: after_head_def)
qed (simp add: after_head_def)

lemma ops_ok_drop_tail:
  assumes "ops_ok pos tot ops" and "e \<le> tot"
  shows "ops_ok e tot (drop (after_tail ops e) ops)"
  using assms
proof (induction pos tot ops rule: ops_ok.induct)
  case (2 pos tot op ops)
  then show ?case by (auto simp: after_tail_def)
qed (simp add: after_tail_def)

lemma ops_ok_append:
  "ops_ok pos s ops1 \<Longrightarrow> s \<le> e \<Longrightarrow> ops_ok e tot ops2 \<Longrightarrow> ops_ok pos tot (ops1 @ ops2)"
  by (induction pos s ops1 rule: ops_ok.induct) (auto intro: ops_ok_mono)

lemma ops_ok_update:
  "ops_ok pos tot ops \<Longrightarrow> i < length ops \<Longrightarrow> op_start op = op_start (ops ! i) \<Longrightarrow>
   op_delete op = op_delete (ops ! i) \<Longrightarrow> ops_ok pos tot (ops[i := op])"
  by (induction pos tot ops arbitrary: i rule: ops_ok.induct) (auto split: nat.splits)

lemma Splice_ops_ok:
  assumes "Splice ld root s n segs ops = Some ops'" and "total_elements_of ld root = Some tot"
    and "ops_ok 0 tot ops" and "tot < 2 ^ 64" and "s + n < 2 ^ 64"
  shows "ops_ok 0 tot ops'"
proof -
  define d where "d = (if tot < add64 s n then tot - s else n)"
  have st: "s \<le> tot" using assms(1,2) by (auto simp: Splice_def bind_CHECK_eq_Some)
  have e: "add64 s d = s + d" "s + d \<le> tot"
    using assms(4,5) st by (auto simp: d_def add64_def)
  show ?thesis
  proof (cases "after_head ops s = after_tail ops (s + d)")
    case True
    then have ops': "ops' = take (after_head ops s) ops @
        \<lparr>op_start = s, op_delete = d, op_segs = filter (\<lambda>s. \<not> empty_seg s) segs\<rparr> # drop (after_tail ops (s + d)) ops"
      using assms(1,2) st e by (simp add: Splice_def bind_CHECK_eq_Some d_def[symmetric] Let_def)
    show ?thesis unfolding ops'
      by (rule ops_ok_append[OF ops_ok_take_head[OF assms(3) _ assms(4)], of s s])
        (use ops_ok_drop_tail[OF assms(3) e(2)] in simp_all)
  next
    case False
    then obtain i op where "ops' = ops[i := op\<lparr>op_segs := op_segs op @ filter (\<lambda>s. \<not> empty_seg s) segs\<rparr>]"
      "nth_opt ops i = Some op"
      using assms(1,2) st e
      by (auto simp: Splice_def bind_CHECK_eq_Some d_def[symmetric] Let_def bind_eq_Some_conv)
    with ops_ok_update[OF assms(3), of i] show ?thesis
      by (auto simp: nth_opt_def split: if_splits)
  qed
qed

section \<open>Applying operands\<close>

text \<open>The edit of a list that an operand stands for, and the edit of a list of operands as the loop
  makes it: from the last to the first.\<close>

definition apply_op :: "(splice_operand \<Rightarrow> 'a list) \<Rightarrow> splice_operand \<Rightarrow> 'a list \<Rightarrow> 'a list" where
  "apply_op entries op es = take (op_start op) es @ entries op @ drop (op_start op + op_delete op) es"

definition apply_ops :: "(splice_operand \<Rightarrow> 'a list) \<Rightarrow> splice_operand list \<Rightarrow> 'a list \<Rightarrow> 'a list" where
  "apply_ops entries ops es = fold (apply_op entries) (rev ops) es"

text \<open>The simultaneous edit: every index refers to the original list.\<close>

fun replace_all :: "(splice_operand \<Rightarrow> 'a list) \<Rightarrow> nat \<Rightarrow> splice_operand list \<Rightarrow> 'a list \<Rightarrow> 'a list" where
  "replace_all entries pos [] es = drop pos es"
| "replace_all entries pos (op # ops) es =
     take (op_start op - pos) (drop pos es) @ entries op @
     replace_all entries (op_start op + op_delete op) ops es"

lemma apply_ops_Nil [simp]: "apply_ops entries [] es = es"
  by (simp add: apply_ops_def)

lemma apply_ops_Cons: "apply_ops entries (op # ops) es = apply_op entries op (apply_ops entries ops es)"
  by (simp add: apply_ops_def)

lemma apply_ops_eq:
  assumes "ops_ok pos tot ops" and "length es = tot"
  shows "take pos (apply_ops entries ops es) = take pos es \<and>
    drop pos (apply_ops entries ops es) = replace_all entries pos ops es"
  using assms
proof (induction pos tot ops rule: ops_ok.induct)
  case (2 pos tot op ops)
  let ?es = "apply_ops entries ops es" and ?s = "op_start op" and ?e = "op_start op + op_delete op"
  have IH: "take ?e ?es = take ?e es" "drop ?e ?es = replace_all entries ?e ops es"
    using 2 by auto
  have le: "?e \<le> length es" using ops_ok_le[of ?e tot ops] 2 by simp
  have s: "take ?s ?es = take ?s es"
    using arg_cong[OF IH(1), of "take ?s"] by (simp add: min_def)
  have app: "apply_ops entries (op # ops) es = take ?s es @ entries op @ replace_all entries ?e ops es"
    using s IH(2) by (simp add: apply_ops_Cons apply_op_def)
  have pos: "pos \<le> ?s" "pos \<le> length (take ?s es)" using 2 le by auto
  then show ?case
    unfolding app by (simp add: drop_take min_def)
qed simp

text \<open>Applying the operands in reverse order, as \<open>Commit\<close> does, is the simultaneous edit in which every
  operand refers to the positions of the original sequence.\<close>

lemma apply_ops_simultaneous:
  assumes "ops_ok 0 (length es) ops"
  shows "apply_ops entries ops es = replace_all entries 0 ops es"
  using apply_ops_eq[OF assms refl, of entries] by simp

section \<open>Properties\<close>

text \<open>C33.  The operands of an \<open>AdvancedNodeBuilder\<close> stay disjoint intervals in increasing order within
  the sequence: every accepted \<open>Splice\<close> keeps this, as long as the sum of its arguments does not
  overflow 64 bits.\<close>

theorem splice_keeps_order:
  assumes "Splice ld root s n segs ops = Some ops'" and "total_elements_of ld root = Some tot"
    and "ops_ok 0 tot ops" and "tot < 2 ^ 64" and "s + n < 2 ^ 64"
  shows "ops_ok 0 tot ops'"
  using assms by (rule Splice_ops_ok)

theorem splice_keeps_order_witness:
  "\<exists>ops'. Splice ex_loader (Some (tree_hash ex_hf CT_kList ex_tree)) 1 1 []
      [\<lparr>op_start = 2, op_delete = 1, op_segs = []\<rparr>] = Some ops' \<and> ops_ok 0 3 ops' \<and> length ops' = 2"
proof -
  have tot: "total_elements_of ex_loader (Some (tree_hash ex_hf CT_kList ex_tree)) = Some 3"
    using stored_root[OF ex_tree_stored] CreateFromChunk_tree[OF ex_tree_wf] numElements_tree[OF ex_tree_wf]
    by (simp add: total_elements_of_def ex_tree_def)
  let ?ops' = "[\<lparr>op_start = 1, op_delete = 1, op_segs = []\<rparr>, \<lparr>op_start = 2, op_delete = 1, op_segs = []\<rparr>]"
  have s: "Splice ex_loader (Some (tree_hash ex_hf CT_kList ex_tree)) 1 1 []
      [\<lparr>op_start = 2, op_delete = 1, op_segs = []\<rparr>] = Some ?ops'"
    by (simp add: Splice_def tot add64_def after_tail_def after_head_def op_end_def)
  have "ops_ok 0 3 ?ops'"
    by (rule splice_keeps_order[OF s tot]) simp_all
  with s show ?thesis by simp
qed

end
