(* ===== verification/Server_Types.thy ===== *)
theory Server_Types
  imports Chunkable Advanced_Builder
begin

text \<open>
  The types as the server writes them: src/types/server/sblob.cc, slist.cc, smap.cc, sset.cc.

  \<open>st\<close> is the chunk store, to which the writer adds chunks and from which the loader reads.
  \<open>rh\<close> is the rolling hasher that the chunkers give to a builder, \<open>hf\<close> the digest.
  \<open>sorter\<close> is the order in which \<open>std::sort\<close> leaves the indices of a vector of keys; C++ fixes it
  only up to the order of equal keys (\<open>sort_ok\<close>).
\<close>

section \<open>Sorting keys\<close>

text \<open>\<open>Utils::SortIndexes\<close> as any permutation of the indices that puts the keys in ascending
  order.\<close>

definition sort_ok :: "(bytes list \<Rightarrow> nat list) \<Rightarrow> bool" where
  "sort_ok sorter \<longleftrightarrow>
     (\<forall>ks. distinct (sorter ks) \<and> set (sorter ks) = {..<length ks} \<and> sorted (map (\<lambda>i. ks ! i) (sorter ks)))"

text \<open>The loop that keeps, of the indices with equal keys, the last one.\<close>

fun unique_idx :: "bytes list \<Rightarrow> nat list \<Rightarrow> nat list option" where
  "unique_idx keys [] = Some []"
| "unique_idx keys [i] = Some [i]"
| "unique_idx keys (i # j # is) =
     do { ki \<leftarrow> nth_opt keys i;
          kj \<leftarrow> nth_opt keys j;
          rest \<leftarrow> unique_idx keys (j # is);
          if slice_less ki kj then Some (i # rest)
          else if slice_eq ki kj then Some rest
          else None }"

section \<open>Creating\<close>

text \<open>An object without elements: one empty leaf.\<close>

definition write_empty :: "(bytes \<Rightarrow> bytes) \<Rightarrow> ChunkType \<Rightarrow> loader \<Rightarrow> (bytes \<times> loader) option" where
  "write_empty hf ty st =
     do { (chunk, _) \<leftarrow> Make hf ty [];
          h \<leftarrow> chunk_hash hf chunk;
          Some (h, st(h \<mapsto> chunk)) }"

text \<open>A new builder with one segment, committed.\<close>

definition write_new :: "(bytes \<Rightarrow> bytes) \<Rightarrow> rolling_hasher \<Rightarrow> ChunkType \<Rightarrow> segment \<Rightarrow> loader \<Rightarrow> (bytes \<times> loader) option" where
  "write_new hf rh ty seg st =
     do { nb \<leftarrow> SpliceElements Map.empty 0 [seg] (NodeBuilder_new rh);
          Commit hf rh ty Map.empty st nb }"

definition SBlob_create :: "(bytes \<Rightarrow> bytes) \<Rightarrow> rolling_hasher \<Rightarrow> bytes \<Rightarrow> loader \<Rightarrow> (chunkable \<times> loader) option" where
  "SBlob_create hf rh data st =
     do { (root, st) \<leftarrow>
            (if data = [] then write_empty hf CT_kBlob st
             else write_new hf rh CT_kBlob (FixedSegment data (length data) 1) st);
          obj \<leftarrow> UBlob_SetNodeForHash st root;
          Some (obj, st) }"

definition SList_create :: "(bytes \<Rightarrow> bytes) \<Rightarrow> rolling_hasher \<Rightarrow> bytes list \<Rightarrow> loader \<Rightarrow> (chunkable \<times> loader) option" where
  "SList_create hf rh elements st =
     do { (root, st) \<leftarrow>
            (if elements = [] then write_empty hf CT_kList st
             else do { seg \<leftarrow> ListNode_Encode elements; write_new hf rh CT_kList seg st });
          obj \<leftarrow> UList_SetNodeForHash st root;
          Some (obj, st) }"

definition kv_items_of :: "bytes list \<Rightarrow> bytes list \<Rightarrow> nat list \<Rightarrow> kv_item list option" where
  "kv_items_of keys vals idx =
     those (map (\<lambda>i. do { k \<leftarrow> nth_opt keys i; v \<leftarrow> nth_opt vals i; Some \<lparr>kv_key = k, kv_val = v\<rparr> }) idx)"

definition SMap_create :: "(bytes \<Rightarrow> bytes) \<Rightarrow> rolling_hasher \<Rightarrow> (bytes list \<Rightarrow> nat list) \<Rightarrow> bytes list \<Rightarrow>
    bytes list \<Rightarrow> loader \<Rightarrow> (chunkable \<times> loader) option" where
  "SMap_create hf rh sorter keys vals st =
     do { CHECK (length vals = length keys);
          (root, st) \<leftarrow>
            (if keys = [] then write_empty hf CT_kMap st
             else do { idx \<leftarrow> unique_idx keys (sorter keys);
                       items \<leftarrow> kv_items_of keys vals idx;
                       seg \<leftarrow> MapNode_Encode items;
                       write_new hf rh CT_kMap seg st });
          obj \<leftarrow> UMap_SetNodeForHash st root;
          Some (obj, st) }"

definition SSet_create :: "(bytes \<Rightarrow> bytes) \<Rightarrow> rolling_hasher \<Rightarrow> (bytes list \<Rightarrow> nat list) \<Rightarrow> bytes list \<Rightarrow>
    loader \<Rightarrow> (chunkable \<times> loader) option" where
  "SSet_create hf rh sorter keys st =
     do { (root, st) \<leftarrow>
            (if keys = [] then write_empty hf CT_kSet st
             else do { items \<leftarrow> those (map (nth_opt keys) (sorter keys));
                       seg \<leftarrow> SetNode_Encode items;
                       write_new hf rh CT_kSet seg st });
          obj \<leftarrow> USet_SetNodeForHash st root;
          Some (obj, st) }"

section \<open>Modifying\<close>

text \<open>A builder at an index or a key, one splice, committed.\<close>

definition splice_at :: "(bytes \<Rightarrow> bytes) \<Rightarrow> rolling_hasher \<Rightarrow> ChunkType \<Rightarrow> builder option \<Rightarrow> nat \<Rightarrow> segment \<Rightarrow>
    loader \<Rightarrow> (bytes \<times> loader) option" where
  "splice_at hf rh ty builder num_delete seg st =
     do { nb \<leftarrow> builder;
          nb \<leftarrow> SpliceElements st num_delete [seg] nb;
          Commit hf rh ty st st nb }"

definition SBlob_Splice :: "(bytes \<Rightarrow> bytes) \<Rightarrow> rolling_hasher \<Rightarrow> chunkable \<Rightarrow> nat \<Rightarrow> nat \<Rightarrow> bytes \<Rightarrow> loader \<Rightarrow>
    (bytes \<times> loader) option" where
  "SBlob_Splice hf rh obj pos num_delete data st =
     do { nd \<leftarrow> obj;
          root \<leftarrow> obj_hash hf (Some nd);
          splice_at hf rh CT_kBlob (NodeBuilder_idx st rh CT_kBlob root pos) num_delete
            (FixedSegment data (length data) 1) st }"

definition SList_Splice :: "(bytes \<Rightarrow> bytes) \<Rightarrow> rolling_hasher \<Rightarrow> chunkable \<Rightarrow> nat \<Rightarrow> nat \<Rightarrow> bytes list \<Rightarrow> loader \<Rightarrow>
    (bytes \<times> loader) option" where
  "SList_Splice hf rh obj start num_to_delete entries st =
     do { CHECK (obj \<noteq> None);
          root \<leftarrow> obj_hash hf obj;
          nb \<leftarrow> NodeBuilder_idx st rh CT_kList root start;
          seg \<leftarrow> ListNode_Encode entries;
          splice_at hf rh CT_kList (Some nb) num_to_delete seg st }"

definition SMap_Set :: "(bytes \<Rightarrow> bytes) \<Rightarrow> rolling_hasher \<Rightarrow> chunkable \<Rightarrow> bytes \<Rightarrow> bytes \<Rightarrow> loader \<Rightarrow>
    (bytes \<times> loader) option" where
  "SMap_Set hf rh obj key val st =
     do { CHECK (obj \<noteq> None);
          root \<leftarrow> obj_hash hf obj;
          nb \<leftarrow> NodeBuilder_key st rh CT_kMap root (KeyData key);
          cursor \<leftarrow> NodeCursor_key st root (KeyData key);
          found \<leftarrow> found_key (KeyData key) cursor;
          seg \<leftarrow> MapNode_Encode [\<lparr>kv_key = key, kv_val = val\<rparr>];
          splice_at hf rh CT_kMap (Some nb) (if found then 1 else 0) seg st }"

text \<open>One operand per key, at the index of the key in the tree that is edited.\<close>

fun set_operands :: "loader \<Rightarrow> bytes \<Rightarrow> seq_node \<Rightarrow> kv_item list \<Rightarrow> splice_operand list \<Rightarrow> splice_operand list option" where
  "set_operands ld root nd [] ops = Some ops"
| "set_operands ld root nd (kv # kvs) ops =
     do { let key = KeyData (kv_key kv);
          cursor \<leftarrow> NodeCursor_key ld root key;
          found \<leftarrow> found_key key cursor;
          idx \<leftarrow> FindIndexForKey ld nd key;
          seg \<leftarrow> MapNode_Encode [kv];
          ops \<leftarrow> Splice ld (Some root) idx (if found then 1 else 0) [seg] ops;
          set_operands ld root nd kvs ops }"

definition SMap_Set_multi :: "(bytes \<Rightarrow> bytes) \<Rightarrow> rolling_hasher \<Rightarrow> (bytes list \<Rightarrow> nat list) \<Rightarrow> chunkable \<Rightarrow>
    bytes list \<Rightarrow> bytes list \<Rightarrow> loader \<Rightarrow> (bytes option \<times> loader) option" where
  "SMap_Set_multi hf rh sorter obj keys vals st =
     do { nd \<leftarrow> obj;
          root \<leftarrow> obj_hash hf obj;
          idx \<leftarrow> unique_idx keys (sorter keys);
          items \<leftarrow> kv_items_of keys vals idx;
          ops \<leftarrow> set_operands st root nd items [];
          AdvancedCommit hf rh CT_kMap st st (Some root) ops }"

definition keyed_Remove :: "(bytes \<Rightarrow> bytes) \<Rightarrow> rolling_hasher \<Rightarrow> ChunkType \<Rightarrow> chunkable \<Rightarrow> bytes \<Rightarrow> loader \<Rightarrow>
    (bytes \<times> loader) option" where
  "keyed_Remove hf rh ty obj key st =
     do { CHECK (obj \<noteq> None);
          root \<leftarrow> obj_hash hf obj;
          cursor \<leftarrow> NodeCursor_key st root (KeyData key);
          found \<leftarrow> found_key (KeyData key) cursor;
          if \<not> found then Some (root, st)
          else splice_at hf rh ty (NodeBuilder_key st rh ty root (KeyData key)) 1 (VarSegment [] 0 []) st }"

definition SMap_Remove :: "(bytes \<Rightarrow> bytes) \<Rightarrow> rolling_hasher \<Rightarrow> chunkable \<Rightarrow> bytes \<Rightarrow> loader \<Rightarrow> (bytes \<times> loader) option" where
  "SMap_Remove hf rh obj key st = keyed_Remove hf rh CT_kMap obj key st"

definition SSet_Remove :: "(bytes \<Rightarrow> bytes) \<Rightarrow> rolling_hasher \<Rightarrow> chunkable \<Rightarrow> bytes \<Rightarrow> loader \<Rightarrow> (bytes \<times> loader) option" where
  "SSet_Remove hf rh obj key st = keyed_Remove hf rh CT_kSet obj key st"

definition SSet_Set :: "(bytes \<Rightarrow> bytes) \<Rightarrow> rolling_hasher \<Rightarrow> chunkable \<Rightarrow> bytes \<Rightarrow> loader \<Rightarrow> (bytes \<times> loader) option" where
  "SSet_Set hf rh obj key st =
     do { CHECK (obj \<noteq> None);
          root \<leftarrow> obj_hash hf obj;
          nb \<leftarrow> NodeBuilder_key st rh CT_kSet root (KeyData key);
          cursor \<leftarrow> NodeCursor_key st root (KeyData key);
          found \<leftarrow> found_key (KeyData key) cursor;
          if found then Some (root, st)
          else do { seg \<leftarrow> SetNode_Encode [key]; splice_at hf rh CT_kSet (Some nb) 0 seg st } }"

text \<open>The operations that lists and blobs derive from \<open>Splice\<close>.\<close>

definition UList_Append :: "(bytes \<Rightarrow> bytes) \<Rightarrow> rolling_hasher \<Rightarrow> chunkable \<Rightarrow> bytes list \<Rightarrow> loader \<Rightarrow> (bytes \<times> loader) option" where
  "UList_Append hf rh obj entries st =
     do { n \<leftarrow> obj_numElements obj; SList_Splice hf rh obj n 0 entries st }"

definition UBlob_Append :: "(bytes \<Rightarrow> bytes) \<Rightarrow> rolling_hasher \<Rightarrow> chunkable \<Rightarrow> bytes \<Rightarrow> loader \<Rightarrow> (bytes \<times> loader) option" where
  "UBlob_Append hf rh obj data st =
     do { n \<leftarrow> obj_numElements obj; SBlob_Splice hf rh obj n 0 data st }"

definition UList_Insert :: "(bytes \<Rightarrow> bytes) \<Rightarrow> rolling_hasher \<Rightarrow> chunkable \<Rightarrow> nat \<Rightarrow> bytes list \<Rightarrow> loader \<Rightarrow> (bytes \<times> loader) option" where
  "UList_Insert hf rh obj start entries st = SList_Splice hf rh obj start 0 entries st"

definition UList_Delete :: "(bytes \<Rightarrow> bytes) \<Rightarrow> rolling_hasher \<Rightarrow> chunkable \<Rightarrow> nat \<Rightarrow> nat \<Rightarrow> loader \<Rightarrow> (bytes \<times> loader) option" where
  "UList_Delete hf rh obj start num_to_delete st = SList_Splice hf rh obj start num_to_delete [] st"

definition UBlob_Insert :: "(bytes \<Rightarrow> bytes) \<Rightarrow> rolling_hasher \<Rightarrow> chunkable \<Rightarrow> nat \<Rightarrow> bytes \<Rightarrow> loader \<Rightarrow> (bytes \<times> loader) option" where
  "UBlob_Insert hf rh obj pos data st = SBlob_Splice hf rh obj pos 0 data st"

definition UBlob_Delete :: "(bytes \<Rightarrow> bytes) \<Rightarrow> rolling_hasher \<Rightarrow> chunkable \<Rightarrow> nat \<Rightarrow> nat \<Rightarrow> loader \<Rightarrow> (bytes \<times> loader) option" where
  "UBlob_Delete hf rh obj pos num_delete st = SBlob_Splice hf rh obj pos num_delete [] st"

end
