(* ===== verification/Typed_Objects.thy ===== *)
theory Typed_Objects
  imports Tree_Splice Server_Types
begin

text \<open>
  What the operations of the types do, in terms of the sequences that their trees hold.

  \<open>object P hf ty st es t\<close>: the store \<open>st\<close> holds the tree \<open>t\<close> of the sequence \<open>es\<close> of entries.  The
  object that the program works with is the root node of \<open>t\<close>.  A map is seen as a list of items
  with ascending keys, a set as an ascending list of keys, a list as the list of its elements and a
  blob as its bytes.
\<close>

section \<open>Objects\<close>

definition object :: "(bytes \<Rightarrow> bool) \<Rightarrow> (bytes \<Rightarrow> bytes) \<Rightarrow> ChunkType \<Rightarrow> loader \<Rightarrow> bytes list \<Rightarrow> ptree \<Rightarrow> bool" where
  "object P hf ty st es t \<longleftrightarrow> tree_of P hf ty es t \<and> stored hf ty st t \<and> input_ok ty es"

lemma objectD:
  assumes "object P hf ty st es t"
  shows "tree_of P hf ty es t" and "stored hf ty st t" and "input_ok ty es"
  using assms by (auto simp: object_def)

lemma node_chunk_tree: "leaf_type ty \<Longrightarrow> node_chunk (tree_node hf ty t) = tree_chunk hf ty t"
  by (cases t) (auto elim: leaf_type_cases simp: leaf_chunk_def)

lemma obj_hash_tree:
  assumes "tree_wf hf ty t"
  shows "obj_hash hf (Some (tree_node hf ty t)) = Some (tree_hash hf ty t)"
proof -
  have "chunk_hash hf (tree_chunk hf ty t) = Some (tree_hash hf ty t)"
    using assms leaf_chunk_hash meta_chunk_hash tree_wf_node(3) by (cases t) (auto simp: tree_hash_def)
  then show ?thesis using node_chunk_tree[OF tree_wf_leaf_type[OF assms]] by (simp add: obj_hash_def)
qed

lemma set_node_any:
  assumes "tree_wf hf ty t" and "stored hf ty st t" and "leaf_type ty'"
  shows "set_node st ty' (tree_hash hf ty t) other =
    (if ty = ty' \<or> 0 < height t then Some (Some (tree_node hf ty t)) else other)"
proof -
  have lt: "leaf_type ty" by (rule tree_wf_leaf_type[OF assms(1)])
  note r = stored_root[OF assms(2)] CreateFromChunk_tree[OF assms(1)]
  show ?thesis
  proof (cases t)
    case (PLeaf es)
    have "chunk_type (leaf_chunk ty es) = Some (ChunkType_byte ty)" by (auto simp: leaf_chunk_def)
    moreover have "ChunkType_byte ty \<noteq> ChunkType_byte CT_kMeta" "ChunkType_byte ty = ChunkType_byte ty' \<longleftrightarrow> ty = ty'"
      using lt assms(3) by (auto simp: leaf_type_def)
    ultimately show ?thesis using r PLeaf by (auto simp: set_node_def)
  next
    case (PNode ts)
    then have "0 < height t" using tree_wf_node(1)[of hf ty ts] assms(1) by (cases ts) auto
    then show ?thesis using r PNode by (simp add: set_node_def meta_chunk_def)
  qed
qed

lemma set_node_tree:
  "tree_wf hf ty t \<Longrightarrow> stored hf ty st t \<Longrightarrow> set_node st ty (tree_hash hf ty t) other = Some (Some (tree_node hf ty t))"
  using set_node_any[of hf ty t st ty other] tree_wf_leaf_type by auto

section \<open>Reading an element\<close>

lemma leaf_entry_at:
  assumes "levels_of (is_boundary pat win mx) hf ty es t (N # Ns)" and "input_ok ty es" and "params_ok win mx" and "digest_ok hf"
    and "g < length es"
  obtains us where "N ! node_at N g = PLeaf us" and "g - start N (node_at N g) < length us"
    and "us ! (g - start N (node_at N g)) = es ! g" and "leaf_ok ty us" and "length us < 2 ^ 31"
    and "take (length us - (g - start N (node_at N g))) (drop g es) = drop (g - start N (node_at N g)) us"
proof -
  let ?G = "all_groups (is_boundary pat win mx) (\<lambda>e. e) es" and ?j = "node_at N g"
  note lv = levels_of_lev[OF assms(1-4)]
  have N: "N = map PLeaf ?G" using assms(1) tower_hd by (fastforce simp: levels_of_def)
  have nd: "nodes_are hf ty (\<lambda>e. e) N ?G" by (simp add: N nodes_are_def comp_def)
  note n = nodes_are_facts[OF nd]
  have "g < span N" using lv(3) assms(5) by simp
  note b = node_at_inside[OF this]
  have j: "?j < length ?G" using b(1) n(1) by simp
  let ?us = "?G ! ?j"
  have us: "N ! ?j = PLeaf ?us" using j by (simp add: N)
  have i: "g - start N ?j < length ?us" using b(2,3) us by simp
  have dr: "drop g es = drop (g - start N ?j) ?us @ concat (drop (Suc ?j) ?G)"
    using drop_concat_groups[OF j, of g] b(2,3) n(4) us by (simp add: all_groups_concat)
  then have "es ! g = ?us ! (g - start N ?j)"
    using i assms(5) by (metis Cons_nth_drop_Suc append_Cons list.inject)
  moreover have "take (length ?us - (g - start N ?j)) (drop g es) = drop (g - start N ?j) ?us" by (simp add: dr)
  moreover have "leaf_ok ty ?us \<and> length ?us < 2 ^ 31" by (rule leaf_group_ok[OF assms(2,3) nth_mem[OF j]])
  ultimately show ?thesis using that us i by simp
qed

lemma current_pos:
  assumes "levels_of (is_boundary pat win mx) hf ty es t (N # Ns)" and "input_ok ty es" and "params_ok win mx" and "digest_ok hf"
    and "g < length es"
  shows "\<exists>rest. Cursor.current (pos hf ty (N # Ns) g) = Some (es ! g @ rest)"
    and "numCurrentBytes (pos hf ty (N # Ns) g) = Some (length (es ! g))"
    and "keyed_type ty \<Longrightarrow> currentKey (pos hf ty (N # Ns) g) = Some (KeyData (elem_key ty (es ! g)))"
proof -
  obtain us where us: "N ! node_at N g = PLeaf us" "g - start N (node_at N g) < length us"
    "us ! (g - start N (node_at N g)) = es ! g" "leaf_ok ty us" "length us < 2 ^ 31"
    by (rule leaf_entry_at[OF assms])
  let ?i = "g - start N (node_at N g)"
  have p: "pos hf ty (N # Ns) g = (leaf_node ty us, int ?i) # pos hf ty Ns (node_at N g)" by (simp add: us(1))
  note r = leaf_node_rep[OF us(4)]
  show "\<exists>rest. Cursor.current (pos hf ty (N # Ns) g) = Some (es ! g @ rest)"
    using current_entry[OF r us(2,5)] drop_concat_entry[OF us(2)] us(3) by (simp only: p) auto
  show "numCurrentBytes (pos hf ty (N # Ns) g) = Some (length (es ! g))"
    unfolding p using r us(2,3,5) by (auto simp: numCurrentBytes_def node_rep_def int32_of_def)
  assume k: "keyed_type ty"
  then have "node_key (leaf_node ty us) ?i = Some (entry_key ty (us ! ?i))"
    using us(2,4) by (auto simp: keyed_type_def leaf_ok_def leaf_fits_def MapNode_parsed(3) SetNode_parsed(3))
  then show "currentKey (pos hf ty (N # Ns) g) = Some (KeyData (elem_key ty (es ! g)))"
    unfolding p using us(3) entry_key_data[OF k] by (simp add: currentKey_def)
qed

lemma found_key_pos:
  assumes "levels_of (is_boundary pat win mx) hf ty es t (N # Ns)" and "input_ok ty es" and "params_ok win mx" and "digest_ok hf"
    and "keyed_type ty" and "g \<le> length es"
  shows "found_key (KeyData x) (pos hf ty (N # Ns) g) = Some (g < length es \<and> elem_key ty (es ! g) = x)"
proof -
  note lv = levels_of_lev[OF assms(1-4)]
  have "isEnd (pos hf ty (N # Ns) g) = Some (g = length es)"
    using isEnd_pos[OF lv(1), of g] lv(3) assms(6) by simp
  with current_pos(3)[OF assms(1-4) _ assms(5), of g] assms(6) show ?thesis
    by (auto simp: found_key_def simp del: pos.simps)
qed

text \<open>An element with a given key stands at the rank of the key.\<close>

lemma rank_found:
  assumes "keys_sorted ty es"
  shows "rank ty x es < length es \<and> elem_key ty (es ! rank ty x es) = x \<longleftrightarrow> x \<in> elem_key ty ` set es"
    and "i < length es \<Longrightarrow> elem_key ty (es ! i) = x \<Longrightarrow> rank ty x es = i"
proof -
  have at: "rank ty (elem_key ty (es ! i)) es = i" if i: "i < length es" for i
  proof -
    have es: "es = take i es @ es ! i # drop (Suc i) es" by (rule id_take_nth_drop[OF i])
    have "sorted_wrt (\<lambda>a b. elem_key ty a < elem_key ty b) (take i es @ es ! i # drop (Suc i) es)"
      using assms es by (simp add: keys_sorted_def)
    then have "\<forall>e \<in> set (take i es). elem_key ty e < elem_key ty (es ! i)" by (simp add: sorted_wrt_append)
    from rank_append[OF this, of "es ! i # drop (Suc i) es"] es i show ?thesis by (simp add: rank_def)
  qed
  then show "i < length es \<Longrightarrow> elem_key ty (es ! i) = x \<Longrightarrow> rank ty x es = i" by auto
  show "rank ty x es < length es \<and> elem_key ty (es ! rank ty x es) = x \<longleftrightarrow> x \<in> elem_key ty ` set es"
  proof
    assume r: "rank ty x es < length es \<and> elem_key ty (es ! rank ty x es) = x"
    then show "x \<in> elem_key ty ` set es" using nth_mem[of "rank ty x es" es] by (metis imageI)
  qed (use at in \<open>auto simp: in_set_conv_nth\<close>)
qed


section \<open>Editing by key\<close>

lemma put_chunks_dom: "put_chunks hf ds st k = None \<Longrightarrow> st k = None"
proof (induction ds arbitrary: st)
  case (Cons d ds)
  have "(st(hf d \<mapsto> d)) k = None" by (rule Cons.IH) (use Cons.prems in \<open>simp only: put_chunks_simps\<close>)
  then show ?case by (simp split: if_splits)
qed simp

lemma store_grows [simp]: "st ++ put_chunks hf ds st = put_chunks hf ds st" "(st :: loader) ++ st = st"
  using put_chunks_dom[of hf ds st] by (auto simp: fun_eq_iff map_add_def split: option.splits)

text \<open>One splice at the position of a key.\<close>

lemma splice_at_key:
  assumes "object (is_boundary pat win mx) hf ty st es t" and "params_ok win mx" and "digest_ok hf" and "keyed_type ty"
    and "seg_rep seg ins" and "edit_ok (is_boundary pat win mx) es t (rank ty x es) d ins"
    and es': "es' = take (rank ty x es) es @ ins @ drop (rank ty x es + d) es" and "input_ok ty es'"
    and "tree_of (is_boundary pat win mx) hf ty es' t'" and "inj_on hf (edit_chunks hf ty t t')"
  shows "\<exists>nb st'. NodeBuilder_key st (RollingHasher pat win mx) ty (tree_hash hf ty t) (KeyData x) = Some nb \<and>
    splice_at hf (RollingHasher pat win mx) ty (Some nb) d seg st = Some (tree_hash hf ty t', st') \<and>
    object (is_boundary pat win mx) hf ty st' es' t' \<and> object (is_boundary pat win mx) hf ty st' es t"
proof -
  note ob = objectD[OF assms(1)]
  obtain N Ns where lo: "levels_of (is_boundary pat win mx) hf ty es t (N # Ns)"
    using tree_of_levels_Cons[OF ob(1)] by blast
  have st: "stored hf ty (st ++ st) t" using ob(2) by simp
  have segs: "segs_rep [seg] [ins]" using assms(5) by (simp add: segs_rep_def)
  have e: "es' = take (rank ty x es) es @ concat [ins] @ drop (rank ty x es + d) es" using es' by simp
  note ls = leaf_stays[OF lo ob(3) assms(2,3) rank_le assms(6) es']
  from splice_pos[OF lo ob(3) assms(2,3) st rank_le segs e ls(2) assms(8) ls(1) assms(9,10)]
    NodeCursor_key_pos[OF lo ob(3) assms(2,3) ob(2) assms(4)]
  show ?thesis using ob(1,3) assms(8,9)
    by (auto simp: NodeBuilder_key_def splice_at_def object_def store_grows simp del: pos.simps NodeBuilder_cursor.simps)
qed

text \<open>The cursor for a key.\<close>

lemma lookup_key:
  assumes "object (is_boundary pat win mx) hf ty st es t" and "params_ok win mx" and "digest_ok hf" and "keyed_type ty"
  shows "\<exists>cur. NodeCursor_key st (tree_hash hf ty t) (KeyData x) = Some cur \<and>
    found_key (KeyData x) cur = Some (x \<in> elem_key ty ` set es) \<and>
    (x \<in> elem_key ty ` set es \<longrightarrow> rank ty x es < length es \<and> elem_key ty (es ! rank ty x es) = x \<and>
       (\<exists>rest. Cursor.current cur = Some (es ! rank ty x es @ rest)))"
proof -
  note ob = objectD[OF assms(1)]
  obtain N Ns where lo: "levels_of (is_boundary pat win mx) hf ty es t (N # Ns)"
    using tree_of_levels_Cons[OF ob(1)] by blast
  note r = rank_found(1)[OF input_ok_sorted[OF ob(3) assms(4)], of x]
  show ?thesis
    using NodeCursor_key_pos[OF lo ob(3) assms(2,3) ob(2) assms(4), of x]
      found_key_pos[OF lo ob(3) assms(2-4) rank_le[of ty x es], of x] r
      current_pos(1)[OF lo ob(3) assms(2,3), of "rank ty x es"]
    by auto
qed


section \<open>Maps\<close>

definition map_view :: "kv_item list \<Rightarrow> bytes \<rightharpoonup> bytes" where
  "map_view kvs = map_of (map (\<lambda>kv. (kv_key kv, kv_val kv)) kvs)"

fun kv_insert :: "bytes \<Rightarrow> bytes \<Rightarrow> kv_item list \<Rightarrow> kv_item list" where
  "kv_insert k v [] = [\<lparr>kv_key = k, kv_val = v\<rparr>]"
| "kv_insert k v (x # xs) =
     (if kv_key x < k then x # kv_insert k v xs
      else if kv_key x = k then \<lparr>kv_key = k, kv_val = v\<rparr> # xs
      else \<lparr>kv_key = k, kv_val = v\<rparr> # x # xs)"

definition map_ok :: "kv_item list \<Rightarrow> bool" where
  "map_ok kvs \<longleftrightarrow> sorted_wrt (<) (map kv_key kvs) \<and> (\<forall>kv \<in> set kvs. length (map_item kv) \<le> 2 ^ 30) \<and>
     length kvs < 2 ^ 31"

lemma map_item_small: "length (map_item kv) \<le> 2 ^ 30 \<Longrightarrow> map_item_ok kv"
  by (simp add: map_item_ok_def)

lemma elem_key_item [simp]: "map_item_ok kv \<Longrightarrow> elem_key CT_kMap (map_item kv) = kv_key kv"
  by (simp add: elem_key_def)

lemma map_ok_input: "map_ok kvs \<Longrightarrow> input_ok CT_kMap (map map_item kvs)"
  using map_item_small
  by (auto simp: map_ok_def input_ok_def leaf_type_def keyed_type_def map_valid_def sorted_wrt_map key_lt_def
      intro!: sorted_wrt_mono_rel[of kvs "\<lambda>a b. kv_key a < kv_key b"])

lemma rank_map:
  "\<forall>kv \<in> set kvs. map_item_ok kv \<Longrightarrow> rank CT_kMap k (map map_item kvs) = length (takeWhile (\<lambda>kv. kv_key kv < k) kvs)"
  by (induction kvs) (auto simp: rank_def)

lemma kv_insert_rank:
  assumes "sorted_wrt (<) (map kv_key kvs)"
  shows "kv_insert k v kvs = (let r = length (takeWhile (\<lambda>kv. kv_key kv < k) kvs) in
    take r kvs @ [\<lparr>kv_key = k, kv_val = v\<rparr>] @ drop (r + (if k \<in> kv_key ` set kvs then 1 else 0)) kvs)"
  using assms by (induction kvs) (auto simp: Let_def)

lemma kv_insert_keys: "kv_key ` set (kv_insert k v kvs) \<subseteq> insert k (kv_key ` set kvs)"
  by (induction kvs) auto

lemma kv_insert_ok:
  assumes "map_ok kvs" and "length (map_item \<lparr>kv_key = k, kv_val = v\<rparr>) \<le> 2 ^ 30" and "length kvs + 1 < 2 ^ 31"
  shows "map_ok (kv_insert k v kvs)"
proof -
  have "sorted_wrt (<) (map kv_key (kv_insert k v xs))" if "sorted_wrt (<) (map kv_key xs)" for xs
    using that
  proof (induction xs)
    case (Cons x xs)
    then show ?case using kv_insert_keys[of k v xs] by (auto intro: less_trans)
  qed simp
  moreover have "\<forall>kv \<in> set (kv_insert k v xs). length (map_item kv) \<le> 2 ^ 30"
    if "\<forall>kv \<in> set xs. length (map_item kv) \<le> 2 ^ 30" for xs using that assms(2) by (induction xs) auto
  moreover have "length (kv_insert k v xs) \<le> length xs + 1" for xs by (induction xs) auto
  then have "length (kv_insert k v kvs) < 2 ^ 31" using assms(3) by (meson le_less_trans)
  ultimately show ?thesis using assms(1) by (auto simp: map_ok_def)
qed

lemma map_view_insert: "sorted_wrt (<) (map kv_key kvs) \<Longrightarrow> map_view (kv_insert k v kvs) = (map_view kvs)(k \<mapsto> v)"
proof (induction kvs)
  case (Cons x xs)
  have "map_of (map (\<lambda>kv. (kv_key kv, kv_val kv)) xs) k = None" if "\<not> kv_key x < k" "kv_key x \<noteq> k"
    using Cons.prems that by (force simp: map_of_eq_None_iff)
  with Cons show ?case by (auto simp: map_view_def fun_eq_iff)
qed (simp add: map_view_def)

lemma kv_insert_commute:
  "sorted_wrt (<) (map kv_key kvs) \<Longrightarrow> k \<noteq> l \<Longrightarrow> kv_insert l w (kv_insert k v kvs) = kv_insert k v (kv_insert l w kvs)"
  by (induction kvs) auto

definition reads_as :: "slice option \<Rightarrow> bytes option \<Rightarrow> bool" where
  "reads_as s v \<longleftrightarrow> Option.bind s slice_bytes = Some (case v of None \<Rightarrow> [] | Some bs \<Rightarrow> bs)"

lemma UMap_Get_view:
  assumes "object (is_boundary pat win mx) hf CT_kMap st (map map_item kvs) t" and "map_ok kvs"
    and "params_ok win mx" and "digest_ok hf"
  shows "reads_as (UMap_Get hf st (Some (tree_node hf CT_kMap t)) x) (map_view kvs x)"
proof -
  let ?es = "map map_item kvs"
  note ob = objectD[OF assms(1)]
  have wf: "tree_wf hf CT_kMap t" by (rule tree_of_wf[OF ob(1,3) assms(3,4)])
  have ok: "\<forall>kv \<in> set kvs. map_item_ok kv" using assms(2) map_item_small by (auto simp: map_ok_def)
  have keys: "elem_key CT_kMap ` set ?es = kv_key ` set kvs" using ok by force
  have dist: "distinct (map kv_key kvs)" using assms(2) by (auto simp: map_ok_def strict_sorted_iff)
  obtain cur where cur: "NodeCursor_key st (tree_hash hf CT_kMap t) (KeyData x) = Some cur"
    "found_key (KeyData x) cur = Some (x \<in> kv_key ` set kvs)"
    "x \<in> kv_key ` set kvs \<Longrightarrow> rank CT_kMap x ?es < length ?es \<and> elem_key CT_kMap (?es ! rank CT_kMap x ?es) = x \<and>
       (\<exists>rest. Cursor.current cur = Some (?es ! rank CT_kMap x ?es @ rest))"
    using lookup_key[OF assms(1,3,4), of x] unfolding keys by (auto simp: keyed_type_def)
  show ?thesis
  proof (cases "x \<in> kv_key ` set kvs")
    case True
    let ?kv = "kvs ! rank CT_kMap x ?es"
    from cur(3)[OF True] ok have kv: "?kv \<in> set kvs" "kv_key ?kv = x" "map_item_ok ?kv"
      and c: "\<exists>rest. Cursor.current cur = Some (map_item ?kv @ rest)" by auto
    have "(x, kv_val ?kv) \<in> set (map (\<lambda>kv. (kv_key kv, kv_val kv)) kvs)" using kv(1,2) by force
    then have "map_view kvs x = Some (kv_val ?kv)"
      unfolding map_view_def using dist by (intro map_of_is_SomeI) (simp_all add: comp_def)
    with c kv(3) cur(1,2) True obj_hash_tree[OF wf] show ?thesis
      by (auto simp: UMap_Get_def reads_as_def codec slice_bytes_def rd_bytes_def)
  next
    case False
    then have "map_view kvs x = None" by (auto simp: map_view_def map_of_eq_None_iff)
    with False cur(1,2) obj_hash_tree[OF wf] show ?thesis
      by (auto simp: UMap_Get_def reads_as_def slice_bytes_def rd_bytes_def)
  qed
qed

lemma SMap_Set_object:
  assumes "object (is_boundary pat win mx) hf CT_kMap st (map map_item kvs) t" and "map_ok kvs"
    and "map_ok (kv_insert k v kvs)" and "params_ok win mx" and "digest_ok hf"
    and "tree_of (is_boundary pat win mx) hf CT_kMap (map map_item (kv_insert k v kvs)) t'"
    and "inj_on hf (edit_chunks hf CT_kMap t t')"
  shows "\<exists>st'. SMap_Set hf (RollingHasher pat win mx) (Some (tree_node hf CT_kMap t)) k v st =
      Some (tree_hash hf CT_kMap t', st') \<and>
    object (is_boundary pat win mx) hf CT_kMap st' (map map_item (kv_insert k v kvs)) t' \<and>
    object (is_boundary pat win mx) hf CT_kMap st' (map map_item kvs) t"
proof -
  let ?es = "map map_item kvs" and ?kv = "\<lparr>kv_key = k, kv_val = v\<rparr>"
  let ?d = "if k \<in> kv_key ` set kvs then 1 else 0"
  note ob = objectD[OF assms(1)]
  have wf: "tree_wf hf CT_kMap t" by (rule tree_of_wf[OF ob(1,3) assms(4,5)])
  have kt: "keyed_type CT_kMap" by (simp add: keyed_type_def)
  have ok: "\<forall>kv \<in> set kvs. map_item_ok kv" using assms(2) map_item_small by (auto simp: map_ok_def)
  have keys: "elem_key CT_kMap ` set ?es = kv_key ` set kvs" using ok by force
  have es': "map map_item (kv_insert k v kvs) = take (rank CT_kMap k ?es) ?es @ [map_item ?kv] @ drop (rank CT_kMap k ?es + ?d) ?es"
    using kv_insert_rank[of kvs k v] assms(2) rank_map[OF ok] by (simp add: map_ok_def Let_def take_map drop_map)
  have "seg_rep (map_seg [?kv]) [map_item ?kv]" using map_seg_rep[of "[?kv]"] by simp
  from splice_at_key[OF assms(1,4,5) kt this _ es' map_ok_input[OF assms(3)] assms(6,7)]
    lookup_key[OF assms(1,4,5) kt, of k]
  show ?thesis unfolding keys
    by (auto simp: SMap_Set_def obj_hash_tree[OF wf] MapNode_Encode_eq edit_ok_def)
qed

lemma SMap_Set_twice:
  assumes ob: "object (is_boundary pat win mx) hf CT_kMap st (map map_item kvs) t" and "map_ok kvs"
    and "length kvs + 2 < 2 ^ 31" and "params_ok win mx" and "digest_ok hf"
    and "length (map_item \<lparr>kv_key = a, kv_val = x\<rparr>) \<le> 2 ^ 30" and "length (map_item \<lparr>kv_key = b, kv_val = y\<rparr>) \<le> 2 ^ 30"
    and "tree_of (is_boundary pat win mx) hf CT_kMap (map map_item (kv_insert a x kvs)) t1" and "inj_on hf (edit_chunks hf CT_kMap t t1)"
    and "tree_of (is_boundary pat win mx) hf CT_kMap (map map_item (kv_insert b y (kv_insert a x kvs))) t2"
    and "inj_on hf (edit_chunks hf CT_kMap t1 t2)"
  shows "\<exists>s2. do { (r, s) \<leftarrow> SMap_Set hf (RollingHasher pat win mx) (Some (tree_node hf CT_kMap t)) a x st;
         obj \<leftarrow> UMap_SetNodeForHash s r;
         SMap_Set hf (RollingHasher pat win mx) obj b y s } = Some (tree_hash hf CT_kMap t2, s2)"
proof -
  have ok1: "map_ok (kv_insert a x kvs)" by (rule kv_insert_ok[OF assms(2,6)]) (use assms(3) in simp)
  have "length (kv_insert a x zs) \<le> length zs + 1" for zs by (induction zs) auto
  from this[of kvs] have ok2: "map_ok (kv_insert b y (kv_insert a x kvs))"
    by (intro kv_insert_ok[OF ok1 assms(7)]) (use assms(3) in simp)
  from SMap_Set_object[OF ob assms(2) ok1 assms(4,5,8,9)] obtain s1 where
    s1: "SMap_Set hf (RollingHasher pat win mx) (Some (tree_node hf CT_kMap t)) a x st = Some (tree_hash hf CT_kMap t1, s1)"
    and ob1: "object (is_boundary pat win mx) hf CT_kMap s1 (map map_item (kv_insert a x kvs)) t1" by blast
  have "tree_wf hf CT_kMap t1" by (rule tree_of_wf[OF objectD(1,3)[OF ob1] assms(4,5)])
  from set_node_tree[OF this objectD(2)[OF ob1]]
  have "UMap_SetNodeForHash s1 (tree_hash hf CT_kMap t1) = Some (Some (tree_node hf CT_kMap t1))"
    by (simp add: UMap_SetNodeForHash_def)
  with s1 SMap_Set_object[OF ob1 ok1 ok2 assms(4,5,10,11)] show ?thesis by auto
qed

section \<open>Removing a key\<close>

lemma input_ok_filter: "input_ok ty es \<Longrightarrow> input_ok ty (filter Q es)"
  by (auto simp: input_ok_def sorted_wrt_map intro: sorted_wrt_filter le_less_trans[OF length_filter_le])

lemma filter_rank:
  assumes "keys_sorted ty es" and "x \<in> elem_key ty ` set es"
  shows "filter (\<lambda>e. elem_key ty e \<noteq> x) es = take (rank ty x es) es @ drop (rank ty x es + 1) es"
proof -
  let ?r = "rank ty x es"
  have r: "?r < length es" "elem_key ty (es ! ?r) = x" using rank_found(1)[OF assms(1), of x] assms(2) by auto
  have es: "es = take ?r es @ es ! ?r # drop (Suc ?r) es" by (rule id_take_nth_drop[OF r(1)])
  have "sorted_wrt (\<lambda>a b. elem_key ty a < elem_key ty b) (take ?r es @ es ! ?r # drop (Suc ?r) es)"
    using assms(1) es by (simp add: keys_sorted_def)
  then have "\<forall>e \<in> set (take ?r es). elem_key ty e \<noteq> x" "\<forall>e \<in> set (drop (Suc ?r) es). elem_key ty e \<noteq> x"
    using r(2) by (auto simp: sorted_wrt_append)
  then have "filter (\<lambda>e. elem_key ty e \<noteq> x) (take ?r es @ es ! ?r # drop (Suc ?r) es) = take ?r es @ drop (Suc ?r) es"
    using r(2) by simp
  with es show ?thesis by simp
qed

lemma keyed_Remove_object:
  assumes "object (is_boundary pat win mx) hf ty st es t" and "params_ok win mx" and "digest_ok hf" and "keyed_type ty"
    and ed: "x \<in> elem_key ty ` set es \<Longrightarrow> edit_ok (is_boundary pat win mx) es t (rank ty x es) 1 []"
    and es': "es' = filter (\<lambda>e. elem_key ty e \<noteq> x) es"
    and t': "tree_of (is_boundary pat win mx) hf ty es' t'" and inj: "inj_on hf (edit_chunks hf ty t t')"
  shows "\<exists>st'. keyed_Remove hf (RollingHasher pat win mx) ty (Some (tree_node hf ty t)) x st = Some (tree_hash hf ty t', st') \<and>
    object (is_boundary pat win mx) hf ty st' es' t' \<and> object (is_boundary pat win mx) hf ty st' es t"
proof -
  note ob = objectD[OF assms(1)]
  note hash = obj_hash_tree[OF tree_of_wf[OF ob(1,3) assms(2,3)]]
  obtain cur where cur: "NodeCursor_key st (tree_hash hf ty t) (KeyData x) = Some cur"
    "found_key (KeyData x) cur = Some (x \<in> elem_key ty ` set es)"
    using lookup_key[OF assms(1-4), of x] by blast
  show ?thesis
  proof (cases "x \<in> elem_key ty ` set es")
    case True
    have e: "es' = take (rank ty x es) es @ [] @ drop (rank ty x es + 1) es"
      using filter_rank[OF input_ok_sorted[OF ob(3) assms(4)] True] es' by simp
    have "seg_rep (VarSegment [] 0 []) []" by (simp add: seg_rep_def)
    from splice_at_key[OF assms(1-4) this ed[OF True] e _ t' inj] input_ok_filter[OF ob(3)] True cur hash
    show ?thesis by (auto simp: keyed_Remove_def es' splice_at_def)
  next
    case False
    then have "es' = es" unfolding es' by (intro filter_True) auto
    with t' ob(1) have "t' = t" by (auto dest: tree_of_det)
    with False cur hash assms(1) \<open>es' = es\<close> show ?thesis by (auto simp: keyed_Remove_def)
  qed
qed

definition kv_remove :: "bytes \<Rightarrow> kv_item list \<Rightarrow> kv_item list" where
  "kv_remove k kvs = filter (\<lambda>kv. kv_key kv \<noteq> k) kvs"

lemma map_view_remove: "map_view (kv_remove k kvs) = (map_view kvs)(k := None)"
  by (induction kvs) (auto simp: map_view_def kv_remove_def fun_eq_iff)

lemma kv_remove_ok: "map_ok kvs \<Longrightarrow> map_ok (kv_remove k kvs)"
  by (auto simp: map_ok_def kv_remove_def sorted_wrt_map intro: sorted_wrt_filter le_less_trans[OF length_filter_le])

lemma kv_remove_items:
  "\<forall>kv \<in> set kvs. map_item_ok kv \<Longrightarrow>
    map map_item (kv_remove k kvs) = filter (\<lambda>e. elem_key CT_kMap e \<noteq> k) (map map_item kvs)"
  by (induction kvs) (auto simp: kv_remove_def)

section \<open>Editing by index\<close>

lemma splice_at_idx:
  assumes "object (is_boundary pat win mx) hf ty st es t" and "params_ok win mx" and "digest_ok hf"
    and "p \<le> length es" and "seg_rep seg ins" and "edit_ok (is_boundary pat win mx) es t p d ins"
    and es': "es' = take p es @ ins @ drop (p + d) es" and "input_ok ty es'"
    and "tree_of (is_boundary pat win mx) hf ty es' t'" and "inj_on hf (edit_chunks hf ty t t')"
  shows "\<exists>nb st'. NodeBuilder_idx st (RollingHasher pat win mx) ty (tree_hash hf ty t) p = Some nb \<and>
    splice_at hf (RollingHasher pat win mx) ty (Some nb) d seg st = Some (tree_hash hf ty t', st') \<and>
    object (is_boundary pat win mx) hf ty st' es' t' \<and> object (is_boundary pat win mx) hf ty st' es t"
proof -
  note ob = objectD[OF assms(1)]
  obtain N Ns where lo: "levels_of (is_boundary pat win mx) hf ty es t (N # Ns)"
    using tree_of_levels_Cons[OF ob(1)] by blast
  have st: "stored hf ty (st ++ st) t" using ob(2) by simp
  have segs: "segs_rep [seg] [ins]" using assms(5) by (simp add: segs_rep_def)
  have e: "es' = take p es @ concat [ins] @ drop (p + d) es" using es' by simp
  note ls = leaf_stays[OF lo ob(3) assms(2-4,6) es']
  from splice_pos[OF lo ob(3) assms(2,3) st assms(4) segs e ls(2) assms(8) ls(1) assms(9,10)]
    NodeCursor_idx_pos[OF lo ob(3) assms(2,3) ob(2) assms(4)]
  show ?thesis using ob(1,3) assms(8,9)
    by (auto simp: NodeBuilder_idx_def splice_at_def object_def simp del: pos.simps NodeBuilder_cursor.simps)
qed

text \<open>The cursor for an index.\<close>

lemma lookup_idx:
  assumes "object (is_boundary pat win mx) hf ty st es t" and "params_ok win mx" and "digest_ok hf"
  shows "\<exists>cur. NodeCursor_idx st (tree_hash hf ty t) i = Some cur \<and> (length es < i \<longrightarrow> cur = []) \<and>
    (i \<le> length es \<longrightarrow> cur \<noteq> [] \<and> isEnd cur = Some (i = length es)) \<and>
    (i < length es \<longrightarrow> (\<exists>rest. Cursor.current cur = Some (es ! i @ rest)))"
proof -
  note ob = objectD[OF assms(1)]
  obtain N Ns where lo: "levels_of (is_boundary pat win mx) hf ty es t (N # Ns)"
    using tree_of_levels_Cons[OF ob(1)] by blast
  note lv = levels_of_lev[OF lo ob(3) assms(2,3)]
  show ?thesis
  proof (cases "i \<le> length es")
    case True
    have "isEnd (pos hf ty (N # Ns) i) = Some (i = length es)"
      using isEnd_pos[OF lv(1), of i] lv(3) True by simp
    with True NodeCursor_idx_pos[OF lo ob(3) assms(2,3) ob(2) True] current_pos(1)[OF lo ob(3) assms(2,3), of i]
    show ?thesis by auto
  next
    case False
    have wf: "tree_wf hf ty t" by (rule tree_of_wf[OF ob(1,3) assms(2,3)])
    have "numElements (tree_node hf ty t) = Some (length es)"
      using numElements_tree[OF wf] tree_of_elems[OF ob(1)] by simp
    with False stored_root[OF ob(2)] CreateFromChunk_tree[OF wf] show ?thesis by (auto simp: NodeCursor_idx_def)
  qed
qed

section \<open>Lists\<close>

definition list_ok :: "bytes list \<Rightarrow> bool" where
  "list_ok xs \<longleftrightarrow> (\<forall>x \<in> set xs. length (list_item x) \<le> 2 ^ 30) \<and> length xs < 2 ^ 31"

lemma list_item_small: "length (list_item x) \<le> 2 ^ 30 \<Longrightarrow> list_item_ok x"
  by (simp add: list_item_ok_def)

lemma list_ok_input: "list_ok xs \<Longrightarrow> input_ok CT_kList (map list_item xs)"
  using list_item_small by (auto simp: list_ok_def input_ok_def leaf_type_def keyed_type_def list_valid_def)

definition list_view :: "bytes list \<Rightarrow> nat \<Rightarrow> bytes option" where
  "list_view xs i = (if i < length xs then Some (xs ! i) else None)"

lemma UList_Get_view:
  assumes "object (is_boundary pat win mx) hf CT_kList st (map list_item xs) t" and "list_ok xs"
    and "params_ok win mx" and "digest_ok hf"
  shows "reads_as (UList_Get hf st (Some (tree_node hf CT_kList t)) i) (list_view xs i)"
proof -
  note ob = objectD[OF assms(1)]
  note hash = obj_hash_tree[OF tree_of_wf[OF ob(1,3) assms(3,4)]]
  have ok: "i < length xs \<Longrightarrow> list_item_ok (xs ! i)" using assms(2) list_item_small by (auto simp: list_ok_def)
  obtain cur where "NodeCursor_idx st (tree_hash hf CT_kList t) i = Some cur" "length xs < i \<Longrightarrow> cur = []"
    "i \<le> length xs \<Longrightarrow> cur \<noteq> [] \<and> isEnd cur = Some (i = length xs)"
    "i < length xs \<Longrightarrow> \<exists>rest. Cursor.current cur = Some (list_item (xs ! i) @ rest)"
    using lookup_idx[OF assms(1,3,4), of i] by auto
  then show ?thesis using ok
    by (cases i "length xs" rule: linorder_cases)
      (auto simp: UList_Get_def hash reads_as_def list_view_def codec slice_bytes_def rd_bytes_def)
qed

lemma SList_Splice_object:
  assumes "object (is_boundary pat win mx) hf CT_kList st (map list_item xs) t" and "params_ok win mx" and "digest_ok hf"
    and "p \<le> length xs" and "edit_ok (is_boundary pat win mx) (map list_item xs) t p d (map list_item ys)"
    and zs: "zs = take p xs @ ys @ drop (p + d) xs" and "list_ok zs"
    and "tree_of (is_boundary pat win mx) hf CT_kList (map list_item zs) t'" and "inj_on hf (edit_chunks hf CT_kList t t')"
  shows "\<exists>st'. SList_Splice hf (RollingHasher pat win mx) (Some (tree_node hf CT_kList t)) p d ys st =
      Some (tree_hash hf CT_kList t', st') \<and>
    object (is_boundary pat win mx) hf CT_kList st' (map list_item zs) t' \<and>
    object (is_boundary pat win mx) hf CT_kList st' (map list_item xs) t"
proof -
  note ob = objectD[OF assms(1)]
  note hash = obj_hash_tree[OF tree_of_wf[OF ob(1,3) assms(2,3)]]
  have p: "p \<le> length (map list_item xs)" using assms(4) by simp
  have z: "map list_item zs = take p (map list_item xs) @ map list_item ys @ drop (p + d) (map list_item xs)"
    by (simp add: zs take_map drop_map)
  from splice_at_idx[OF assms(1-3) p list_seg_rep assms(5) z list_ok_input[OF assms(7)] assms(8,9)]
  show ?thesis by (auto simp: SList_Splice_def hash ListNode_Encode_eq)
qed

section \<open>Blobs\<close>

definition blob_ok :: "bytes \<Rightarrow> bool" where
  "blob_ok data \<longleftrightarrow> length data < 2 ^ 31"

lemma singles_append: "singles (a @ b) = singles a @ singles b"
  by (simp add: singles_def)

lemma singles_drop: "singles (drop i d) = drop i (singles d)" and singles_take: "singles (take i d) = take i (singles d)"
  by (simp_all add: singles_def take_map drop_map)

lemma blob_ok_input: "blob_ok data \<Longrightarrow> input_ok CT_kBlob (singles data)"
  by (auto simp: blob_ok_def input_ok_def leaf_type_def keyed_type_def singles_def)

lemma blob_seg_rep: "seg_rep (FixedSegment data (length data) 1) (singles data)"
  by (auto simp: seg_rep_def) (auto simp: singles_def)

lemma SBlob_Splice_object:
  assumes "object (is_boundary pat win mx) hf CT_kBlob st (singles xs) t" and "params_ok win mx" and "digest_ok hf"
    and "p \<le> length xs" and "edit_ok (is_boundary pat win mx) (singles xs) t p d (singles ys)"
    and zs: "zs = take p xs @ ys @ drop (p + d) xs" and "blob_ok zs"
    and "tree_of (is_boundary pat win mx) hf CT_kBlob (singles zs) t'" and "inj_on hf (edit_chunks hf CT_kBlob t t')"
  shows "\<exists>st'. SBlob_Splice hf (RollingHasher pat win mx) (Some (tree_node hf CT_kBlob t)) p d ys st =
      Some (tree_hash hf CT_kBlob t', st') \<and>
    object (is_boundary pat win mx) hf CT_kBlob st' (singles zs) t' \<and>
    object (is_boundary pat win mx) hf CT_kBlob st' (singles xs) t"
proof -
  note ob = objectD[OF assms(1)]
  note hash = obj_hash_tree[OF tree_of_wf[OF ob(1,3) assms(2,3)]]
  have p: "p \<le> length (singles xs)" using assms(4) by simp
  have z: "singles zs = take p (singles xs) @ singles ys @ drop (p + d) (singles xs)"
    by (simp add: zs singles_append singles_drop singles_take)
  from splice_at_idx[OF assms(1-3) p blob_seg_rep assms(5) z blob_ok_input[OF assms(7)] assms(8,9)]
  show ?thesis by (auto simp: SBlob_Splice_def hash)
qed

text \<open>The bytes of one leaf, up to \<open>len\<close> in all.\<close>

lemma read_node_leaf:
  assumes r: "node_rep nd us" "length us < 2 ^ 31" "\<forall>e \<in> set us. length e = 1"
  shows "i < length us \<Longrightarrow> read_node ld len ((nd, int i) # up) c k =
    (let m = length us - i in
     if c < len \<and> len - c \<le> m then Some ((nd, int (i + (len - c) - 1)) # up, len, k + (len - c))
     else Some ((nd, int (length us)) # up, c + m, k + m))"
proof (induction "length us - i" arbitrary: i c k)
  case (Suc m)
  have b: "numCurrentBytes ((nd, int i) # up) = Some 1"
    using r Suc.prems by (auto simp: numCurrentBytes_def node_rep_def int32_of_def)
  have adv: "Advance ld False ((nd, int i) # up) = Some (Suc i < length us, (nd, int (Suc i)) # up)"
    using r(1,2) Suc.prems by (auto simp: Advance_False Advance_within_def node_rep_def int32_of_def Let_def)
  show ?case
  proof (cases "Suc c = len")
    case True
    then show ?thesis using b Suc.prems by (subst read_node.simps) (auto simp: Let_def)
  next
    case False
    show ?thesis
    proof (cases "Suc i < length us")
      case True
      from Suc.hyps(1)[of "Suc i" "Suc c" "Suc k"] Suc.hyps(2) True
      have ih: "read_node ld len ((nd, int (Suc i)) # up) (Suc c) (Suc k) =
        (let m = length us - Suc i in
         if Suc c < len \<and> len - Suc c \<le> m then Some ((nd, int (Suc i + (len - Suc c) - 1)) # up, len, Suc k + (len - Suc c))
         else Some ((nd, int (length us)) # up, Suc c + m, Suc k + m))" by simp
      have "read_node ld len ((nd, int i) # up) c k = read_node ld len ((nd, int (Suc i)) # up) (Suc c) (Suc k)"
        using b adv False True by (subst read_node.simps) simp
      with ih False True show ?thesis by (auto simp: Let_def)
    next
      case last: False
      then have "length us = Suc i" using Suc.prems by simp
      with b adv False last show ?thesis by (subst read_node.simps) (auto simp: Let_def)
    qed
  qed
qed simp

definition read_count :: "nat \<Rightarrow> nat \<Rightarrow> nat \<Rightarrow> nat" where
  "read_count len copied left = (if copied < len then min (len - copied) left else left)"

lemma read_count_split:
  "\<not> (c < len \<and> len - c \<le> m) \<Longrightarrow> m \<le> a \<Longrightarrow> 0 < m \<Longrightarrow> read_count len c a = m + read_count len (c + m) (a - m)"
  by (auto simp: read_count_def)

text \<open>Behind the last entry of a leaf: on to the next leaf, or the end.\<close>

lemma Advance_leaf_end:
  assumes "lev hf ty (N # Ns)" and "kept hf ty ld (N # Ns)" and "j < length N"
  shows "Advance ld True ((tree_node hf ty (N ! j), int (width (N ! j))) # pos hf ty Ns j) =
      Some (True, pos hf ty (N # Ns) (start N (Suc j))) \<and> start N (Suc j) < span N \<or>
    (\<exists>cur. Advance ld True ((tree_node hf ty (N ! j), int (width (N ! j))) # pos hf ty Ns j) = Some (False, cur)) \<and>
      start N (Suc j) = span N"
proof (cases "Suc j < length N")
  case True
  then obtain N' Ns' where Ns: "Ns = N' # Ns'" using assms(1) by (cases Ns) auto
  have "0 < width (N ! Suc j)" using lev_Cons2(5)[OF assms(1)[unfolded Ns]] True by simp
  then have "start N (Suc j) < span N" using start_Suc[OF True] start_le_span[of N "Suc (Suc j)"] by simp
  with Advance_behind[OF assms(1,2)[unfolded Ns] True] show ?thesis unfolding Ns by simp
next
  case False
  then have j: "Suc j = length N" using assms(3) by simp
  have ne: "N \<noteq> []" using assms(3) by auto
  have at: "node_at N (span N) = j" "span N - start N j = width (N ! j)"
    using node_at_end[OF ne] end_index[OF ne] by (simp_all flip: j)
  have "(tree_node hf ty (N ! j), int (width (N ! j))) # pos hf ty Ns j = pos hf ty (N # Ns) (span N)"
    by (simp only: pos.simps at)
  with Advance_pos_end[OF assms(1), of "span N" ld] j show ?thesis by simp
qed

lemma read_string_step:
  assumes "Cursor.current cur = Some p" and "read_node ld len cur c 0 = Some (cur', n, k)" and "rd_bytes k p 0 = Some bs"
  shows "read_string_loop ld len cur c buf = (if n = len then Some (n, buf @ bs)
    else Option.bind (Advance ld True cur') (\<lambda>a. if fst a then read_string_loop ld len (snd a) n (buf @ bs)
      else Some (n, buf @ bs)))"
  by (subst read_string_loop.simps) (simp add: assms cong: if_cong)

lemma read_string_pos:
  assumes lo: "levels_of (is_boundary pat win mx) hf CT_kBlob (singles data) t (N # Ns)"
    and inp: "input_ok CT_kBlob (singles data)" "params_ok win mx" "digest_ok hf" and stt: "stored hf CT_kBlob ld t"
  shows "g < length data \<Longrightarrow> read_string_loop ld len (pos hf CT_kBlob (N # Ns) g) c buf =
    Some (c + read_count len c (length data - g), buf @ take (read_count len c (length data - g)) (drop g data))"
proof (induction "length data - g" arbitrary: g c buf rule: less_induct)
  case less
  let ?j = "node_at N g" and ?up = "pos hf CT_kBlob Ns (node_at N g)"
  note lv = levels_of_lev[OF lo inp]
  have sp: "span N = length data" using lv(3) by simp
  have gs: "g < length (singles data)" using less.prems by simp
  obtain us where us: "N ! ?j = PLeaf us" "g - start N ?j < length us" "leaf_ok CT_kBlob us" "length us < 2 ^ 31"
    "take (length us - (g - start N ?j)) (drop g (singles data)) = drop (g - start N ?j) us"
    by (rule leaf_entry_at[OF lo inp gs])
  let ?i = "g - start N ?j"
  let ?m = "length us - ?i"
  have one: "\<forall>e \<in> set us. length e = 1" using us(3) by (simp add: leaf_ok_def)
  note r = leaf_node_rep[OF us(3)]
  have p: "pos hf CT_kBlob (N # Ns) g = (leaf_node CT_kBlob us, int ?i) # ?up" by (simp add: us(1))
  have "g < span N" using less.prems sp by simp
  note b = node_at_inside[OF this]
  have nx: "start N (Suc ?j) = g + ?m" using start_Suc[OF b(1)] b(2,3) us(1) by simp
  have le: "g + ?m \<le> length data" using start_le_span[of N "Suc ?j"] nx sp by simp
  have cur: "Cursor.current (pos hf CT_kBlob (N # Ns) g) = Some (concat (drop ?i us))"
    unfolding p by (rule current_entry[OF r us(2,4)])
  have bytes: "concat (drop ?i us) = take ?m (drop g data)"
    by (simp flip: us(5) singles_drop singles_take)
  have bl: "length (concat (drop ?i us)) = ?m"
    using singles_length[of "drop ?i us"] one by (auto dest: in_set_dropD)
  note rn = read_node_leaf[OF r us(4) one us(2), of ld len ?up c 0, folded p, unfolded Let_def]
  show ?case
  proof (cases "c < len \<and> len - c \<le> ?m")
    case True
    then have "read_count len c (length data - g) = len - c" using le by (auto simp: read_count_def)
    moreover have "rd_bytes (len - c) (concat (drop ?i us)) 0 = Some (take (len - c) (drop g data))"
      using True bl bytes by (simp add: rd_bytes_def min_def)
    moreover from rn True have "\<exists>cur'. read_node ld len (pos hf CT_kBlob (N # Ns) g) c 0 = Some (cur', len, len - c)"
      by auto
    ultimately show ?thesis using True read_string_step[OF cur, of ld len c] by auto
  next
    case False
    let ?stop = "(leaf_node CT_kBlob us, int (length us)) # ?up"
    have step: "read_string_loop ld len (pos hf CT_kBlob (N # Ns) g) c buf =
      Option.bind (Advance ld True ?stop) (\<lambda>a. if fst a then read_string_loop ld len (snd a) (c + ?m) (buf @ take ?m (drop g data))
        else Some (c + ?m, buf @ take ?m (drop g data)))"
    proof -
      have "rd_bytes ?m (concat (drop ?i us)) 0 = Some (take ?m (drop g data))"
        using bl bytes by (simp add: rd_bytes_def)
      moreover have "read_node ld len (pos hf CT_kBlob (N # Ns) g) c 0 = Some (?stop, c + ?m, ?m)"
        using rn False by (simp only: if_False add_0)
      moreover have "c + ?m \<noteq> len" using False us(2) by auto
      ultimately show ?thesis using read_string_step[OF cur, of ld len c ?stop "c + ?m" ?m _ buf]
        by (simp only: if_False)
    qed
    have rc: "read_count len c (length data - g) = ?m + read_count len (c + ?m) (length data - (g + ?m))"
      using read_count_split[OF False, of "length data - g"] le us(2) by (simp only: diff_diff_left)
    have "Advance ld True ?stop = Some (True, pos hf CT_kBlob (N # Ns) (g + ?m)) \<and> g + ?m < length data \<or>
        (\<exists>cur. Advance ld True ?stop = Some (False, cur)) \<and> g + ?m = length data"
      using Advance_leaf_end[OF lv(1) lv(4)[OF stt] b(1)] unfolding nx sp us(1) by simp
    then show ?thesis
    proof (elim disjE conjE exE)
      assume a: "Advance ld True ?stop = Some (True, pos hf CT_kBlob (N # Ns) (g + ?m))" "g + ?m < length data"
      have "length data - (g + ?m) < length data - g" using us(2) a(2) by simp
      from less.hyps[OF this a(2), of "c + ?m" "buf @ take ?m (drop g data)"] show ?thesis
        unfolding step rc using a(1) by (simp add: take_add ac_simps del: pos.simps)
    next
      fix cur assume a: "Advance ld True ?stop = Some (False, cur)" "g + ?m = length data"
      then show ?thesis unfolding step rc by (simp add: read_count_def)
    qed
  qed
qed

lemma UBlob_Read_string_view:
  assumes "object (is_boundary pat win mx) hf CT_kBlob st (singles data) t" and "params_ok win mx" and "digest_ok hf"
  shows "UBlob_Read_string hf st (Some (tree_node hf CT_kBlob t)) p len buf =
    (if length data \<le> p then Some (0, buf)
     else let n = (if len = 0 then length data - p else min len (length data - p)) in Some (n, take n (drop p data)))"
proof -
  note ob = objectD[OF assms(1)]
  have wf: "tree_wf hf CT_kBlob t" by (rule tree_of_wf[OF ob(1,3) assms(2,3)])
  have n: "obj_numElements (Some (tree_node hf CT_kBlob t)) = Some (length data)"
    using numElements_tree[OF wf] tree_of_elems[OF ob(1)] by (simp add: obj_numElements_def)
  obtain N Ns where lo: "levels_of (is_boundary pat win mx) hf CT_kBlob (singles data) t (N # Ns)"
    using tree_of_levels_Cons[OF ob(1)] by blast
  show ?thesis
    using n obj_hash_tree[OF wf] NodeCursor_idx_pos[OF lo ob(3) assms(2,3) ob(2), of p]
      read_string_pos[OF lo ob(3) assms(2,3) ob(2), of p len 0 "[]"]
    by (simp add: UBlob_Read_string_def read_count_def Let_def del: pos.simps)
qed

section \<open>Creating objects\<close>

lemma write_new_object:
  assumes "tree_of (is_boundary pat win mx) hf ty es t" and "seg_rep seg es" and "input_ok ty es"
    and "params_ok win mx" and "digest_ok hf" and "inj_on hf (set (tree_chunks hf ty t))"
  shows "\<exists>st'. write_new hf (RollingHasher pat win mx) ty seg st = Some (tree_hash hf ty t, st') \<and>
    object (is_boundary pat win mx) hf ty st' es t"
proof -
  have "segs_rep [seg] [es]" using assms(2) by (simp add: segs_rep_def)
  from Commit_new[OF assms(1) this _ assms(3-5), of Map.empty st] obtain cs where
    cs: "Commit hf (RollingHasher pat win mx) ty Map.empty st [leaf_level (RollingHasher pat win mx) [seg]] =
      Some (tree_hash hf ty t, put_chunks hf cs st)" "set cs = set (tree_chunks hf ty t)" by auto
  have "stored hf ty (put_chunks hf cs st) t"
    using cs(2) assms(6) by (intro stored_put_chunks) simp_all
  with cs(1) assms(1,3) show ?thesis by (simp add: write_new_def SpliceElements_new object_def)
qed

lemma write_empty_object:
  assumes "tree_of (is_boundary pat win mx) hf ty [] t" and "input_ok ty []" and "params_ok win mx" and "digest_ok hf"
  shows "\<exists>st'. write_empty hf ty st = Some (tree_hash hf ty t, st') \<and> object (is_boundary pat win mx) hf ty st' [] t"
proof -
  have t: "t = PLeaf []" using assms(1) by (auto simp: tree_of_def all_groups_def elim: built_singleE)
  have ok: "leaf_level_ok hf ty []"
    using leaf_group_ok[OF assms(2,3), of "[]" pat] assms(4) by (simp add: leaf_level_ok_def all_groups_def)
  from leaf_lv.make_eq[where segs = "[]" and xss = "[]", of hf ty] ok leaf_chunk_hash[of ty "[]" hf] ok
  show ?thesis using assms(1,2) by (auto simp: write_empty_def t tree_hash_def object_def segs_rep_def leaf_level_ok_def)
qed

section \<open>Scanning\<close>

fun it_nexts :: "loader \<Rightarrow> nat \<Rightarrow> cursor_iterator \<Rightarrow> cursor_iterator option" where
  "it_nexts ld 0 it = Some it"
| "it_nexts ld (Suc k) it = do { it \<leftarrow> it_nexts ld k it; (_, it) \<leftarrow> it_next ld it; Some it }"

definition it_on :: "(bytes \<Rightarrow> bytes) \<Rightarrow> ChunkType \<Rightarrow> ptree list list \<Rightarrow> nat \<Rightarrow> nat \<Rightarrow> cursor_iterator" where
  "it_on hf ty L n k = \<lparr>it_ranges = [\<lparr>start_idx = 0, num_subsequent = n\<rparr>], it_range_idx = 0,
     it_idx_in_range = k, it_cursor = pos hf ty L k\<rparr>"

lemma it_on_state:
  "\<not> it_head (it_on hf ty L n k)" "\<not> it_end (it_on hf ty L n k)" "it_ranges (it_on hf ty L n k) \<noteq> []"
  "it_cursor (it_on hf ty L n k) = pos hf ty L k" "it_idx_in_range (it_on hf ty L n k) = k"
  by (simp_all add: it_head_def it_end_def it_on_def int32_of_def)

lemma it_next_on:
  assumes "lev hf ty (N # Ns)" and "kept hf ty ld (N # Ns)" and "span N = n" and "n < 2 ^ 31" and "k < n"
  shows "Suc k < n \<Longrightarrow> it_next ld (it_on hf ty (N # Ns) n k) = Some (True, it_on hf ty (N # Ns) n (Suc k))"
    and "Suc k = n \<Longrightarrow> \<exists>it. it_next ld (it_on hf ty (N # Ns) n k) = Some (False, it) \<and> it_end it"
proof -
  have m: "(k + 1) mod 2 ^ 64 = Suc k" using assms(4,5) by simp
  have r: "it_range (it_on hf ty (N # Ns) n k) (it_range_idx (it_on hf ty (N # Ns) n k)) =
      Some \<lparr>start_idx = 0, num_subsequent = n\<rparr>" by (simp add: it_range_def it_on_def nth_opt_def)
  show "it_next ld (it_on hf ty (N # Ns) n k) = Some (True, it_on hf ty (N # Ns) n (Suc k))" if "Suc k < n"
    using Advance_pos[OF assms(1,2)] that assms(3) m r it_on_state[of hf ty "N # Ns" n k]
    by (simp add: it_next_def Let_def) (simp add: it_on_def it_end_def int32_of_def)
  show "\<exists>it. it_next ld (it_on hf ty (N # Ns) n k) = Some (False, it) \<and> it_end it" if "Suc k = n"
  proof -
    obtain a where "Advance ld False (pos hf ty (N # Ns) k) = Some a"
      using Advance_within_pos[OF assms(1), of k] assms(3,5) by (auto simp: Advance_False simp del: pos.simps split: if_splits)
    with that m r it_on_state[of hf ty "N # Ns" n k] show ?thesis
      by (cases a) (simp add: it_next_def Let_def it_on_def it_end_def int32_of_def del: pos.simps)
  qed
qed

section \<open>Examples\<close>

lemma short_tree: "length (concat es) < win \<Longrightarrow> tree_of (is_boundary pat win mx) hf ty es (PLeaf es)"
proof -
  assume l: "length (concat es) < win"
  have "chop (is_boundary pat win mx) (\<lambda>e. e) [] es = ([], es)"
    using chop_none[of "is_boundary pat win mx" "\<lambda>e. e" "[]" es "[]"] first_cut_short[of "[]" "concat es" win pat mx] l by simp
  then have "all_groups (is_boundary pat win mx) (\<lambda>e. e) es = [es]" by (simp add: all_groups_chop)
  then show ?thesis by (simp add: tree_of_def built_root)
qed

definition ex_leaf_store :: "ChunkType \<Rightarrow> bytes list \<Rightarrow> loader" where
  "ex_leaf_store ty es = loader_of ex_hf [leaf_chunk ty es]"

lemma short_object:
  "length (concat es) < win \<Longrightarrow> input_ok ty es \<Longrightarrow>
    object (is_boundary pat win mx) ex_hf ty (ex_leaf_store ty es) es (PLeaf es)"
  by (simp add: object_def short_tree ex_leaf_store_def loader_of_def)

lemma ex_old_object:
  "object (is_boundary 0 46 64) ex_hf CT_kList ex_store [list_item (replicate 50 7), list_item (replicate 50 8)] ex_old"
  using ex_store_holds ex_pair_tree[of "replicate 50 7" "replicate 50 8"] ex_pair_ok[of "replicate 50 7" "replicate 50 8"]
  by (simp add: object_def ex_old_def)

definition ex_kv :: "8 word \<Rightarrow> 8 word \<Rightarrow> kv_item" where
  "ex_kv k v = \<lparr>kv_key = [k], kv_val = [v]\<rparr>"

lemma ex_map_ok: "map_ok [ex_kv 1 5]" "map_ok [ex_kv 1 5, ex_kv 2 6]" "map_ok [ex_kv 1 5, ex_kv 3 7]" "map_ok [ex_kv 1 5, ex_kv 2 6, ex_kv 3 7]"
  by (simp_all add: map_ok_def ex_kv_def)

lemma edit_leaves: "edit_chunks hf ty (PLeaf as) (PLeaf bs) = {leaf_chunk ty as, leaf_chunk ty bs}"
  by (auto simp: edit_chunks_def)

lemma ex_leaf_inj: "ex_hf (leaf_chunk ty as) \<noteq> ex_hf (leaf_chunk ty bs) \<Longrightarrow> inj_on ex_hf (edit_chunks ex_hf ty (PLeaf as) (PLeaf bs))"
  by (auto simp: edit_leaves inj_on_def)

lemma map_item_length: "length (concat (map map_item [ex_kv a b])) = 10" "length (concat (map map_item [ex_kv a b, ex_kv c d])) = 20"
  "length (concat (map map_item [ex_kv a b, ex_kv c d, ex_kv e f])) = 30"
  by (simp_all add: ex_kv_def)

section \<open>Properties\<close>

text \<open>C3.  Maps refine finite maps: setting a key in a stored map returns the root of a map that
  reads, for every key, like the old contents updated at that key, whether the key was there or
  not; the root can be loaded, and the old version still reads as before.\<close>

theorem map_set_get:
  assumes "object (is_boundary pat win mx) hf CT_kMap st (map map_item kvs) t" and "map_ok kvs"
    and "length (map_item \<lparr>kv_key = k, kv_val = v\<rparr>) \<le> 2 ^ 30" and "length kvs + 1 < 2 ^ 31"
    and "params_ok win mx" and "digest_ok hf"
    and "tree_of (is_boundary pat win mx) hf CT_kMap (map map_item (kv_insert k v kvs)) t'"
    and "inj_on hf (edit_chunks hf CT_kMap t t')"
  shows "\<exists>root st' obj'. SMap_Set hf (RollingHasher pat win mx) (Some (tree_node hf CT_kMap t)) k v st = Some (root, st') \<and>
    UMap_SetNodeForHash st' root = Some obj' \<and>
    (\<forall>x. reads_as (UMap_Get hf st' obj' x) (((map_view kvs)(k \<mapsto> v)) x)) \<and>
    (\<forall>x. reads_as (UMap_Get hf st' (Some (tree_node hf CT_kMap t)) x) (map_view kvs x))"
proof -
  have ok: "map_ok (kv_insert k v kvs)" by (rule kv_insert_ok[OF assms(2-4)])
  obtain st' where st': "SMap_Set hf (RollingHasher pat win mx) (Some (tree_node hf CT_kMap t)) k v st =
      Some (tree_hash hf CT_kMap t', st')"
    and ob: "object (is_boundary pat win mx) hf CT_kMap st' (map map_item (kv_insert k v kvs)) t'"
      "object (is_boundary pat win mx) hf CT_kMap st' (map map_item kvs) t"
    using SMap_Set_object[OF assms(1,2) ok assms(5-8)] by blast
  have "tree_wf hf CT_kMap t'" by (rule tree_of_wf[OF objectD(1,3)[OF ob(1)] assms(5,6)])
  from set_node_tree[OF this objectD(2)[OF ob(1)]]
  have "UMap_SetNodeForHash st' (tree_hash hf CT_kMap t') = Some (Some (tree_node hf CT_kMap t'))"
    by (simp add: UMap_SetNodeForHash_def)
  with st' UMap_Get_view[OF ob(1) ok assms(5,6)] UMap_Get_view[OF ob(2) assms(2,5,6)] map_view_insert[of kvs k v] assms(2)
  show ?thesis by (auto simp: map_ok_def)
qed

theorem map_set_get_witness:
  "\<exists>root st' obj'. SMap_Set ex_hf (RollingHasher 0 46 64) (Some (tree_node ex_hf CT_kMap (PLeaf (map map_item [ex_kv 1 5]))))
      [2] [6] (ex_leaf_store CT_kMap (map map_item [ex_kv 1 5])) = Some (root, st') \<and>
    UMap_SetNodeForHash st' root = Some obj' \<and>
    (\<forall>x. reads_as (UMap_Get ex_hf st' obj' x) (((map_view [ex_kv 1 5])([2] \<mapsto> [6])) x)) \<and>
    (\<forall>x. reads_as (UMap_Get ex_hf st' (Some (tree_node ex_hf CT_kMap (PLeaf (map map_item [ex_kv 1 5])))) x)
      (map_view [ex_kv 1 5] x))"
proof (rule map_set_get[OF short_object _ _ _ _ ex_hf_digest short_tree])
  have i: "kv_insert [2] [6] [ex_kv 1 5] = [ex_kv 1 5, ex_kv 2 6]" by (simp add: ex_kv_def)
  show "length (concat (map map_item (kv_insert [2] [6] [ex_kv 1 5]))) < 46" unfolding i map_item_length by simp
  show "inj_on ex_hf (edit_chunks ex_hf CT_kMap (PLeaf (map map_item [ex_kv 1 5])) (PLeaf (map map_item (kv_insert [2] [6] [ex_kv 1 5]))))"
    unfolding i by (rule ex_leaf_inj) code_simp
qed (use ex_map_ok(1) map_ok_input[OF ex_map_ok(1)] in \<open>simp_all add: ex_kv_def params_ok_def\<close>)

text \<open>C13.  Removing a key from a stored map returns the root of a map that reads, for every key, like
  the old contents without that key, whether the key was there or not; the old version still reads
  as before.  Excepted is a key that is alone in the last of several leaves.\<close>

theorem map_remove_get:
  assumes "object (is_boundary pat win mx) hf CT_kMap st (map map_item kvs) t" and "map_ok kvs"
    and "params_ok win mx" and "digest_ok hf"
    and "k \<in> kv_key ` set kvs \<Longrightarrow>
      edit_ok (is_boundary pat win mx) (map map_item kvs) t (rank CT_kMap k (map map_item kvs)) 1 []"
    and "tree_of (is_boundary pat win mx) hf CT_kMap (map map_item (kv_remove k kvs)) t'"
    and "inj_on hf (edit_chunks hf CT_kMap t t')"
  shows "\<exists>root st' obj'. SMap_Remove hf (RollingHasher pat win mx) (Some (tree_node hf CT_kMap t)) k st = Some (root, st') \<and>
    UMap_SetNodeForHash st' root = Some obj' \<and>
    (\<forall>x. reads_as (UMap_Get hf st' obj' x) (((map_view kvs)(k := None)) x)) \<and>
    (\<forall>x. reads_as (UMap_Get hf st' (Some (tree_node hf CT_kMap t)) x) (map_view kvs x))"
proof -
  have ok: "\<forall>kv \<in> set kvs. map_item_ok kv" using assms(2) map_item_small by (auto simp: map_ok_def)
  have keys: "elem_key CT_kMap ` set (map map_item kvs) = kv_key ` set kvs" using ok by force
  have kt: "keyed_type CT_kMap" by (simp add: keyed_type_def)
  obtain st' where st': "SMap_Remove hf (RollingHasher pat win mx) (Some (tree_node hf CT_kMap t)) k st =
      Some (tree_hash hf CT_kMap t', st')"
    and ob: "object (is_boundary pat win mx) hf CT_kMap st' (map map_item (kv_remove k kvs)) t'"
      "object (is_boundary pat win mx) hf CT_kMap st' (map map_item kvs) t"
    using keyed_Remove_object[OF assms(1,3,4) kt assms(5)[folded keys] kv_remove_items[OF ok] assms(6,7)]
    by (auto simp: SMap_Remove_def)
  have "tree_wf hf CT_kMap t'" by (rule tree_of_wf[OF objectD(1,3)[OF ob(1)] assms(3,4)])
  from set_node_tree[OF this objectD(2)[OF ob(1)]]
  have "UMap_SetNodeForHash st' (tree_hash hf CT_kMap t') = Some (Some (tree_node hf CT_kMap t'))"
    by (simp add: UMap_SetNodeForHash_def)
  with st' UMap_Get_view[OF ob(1) kv_remove_ok[OF assms(2)] assms(3,4)] UMap_Get_view[OF ob(2) assms(2,3,4)]
  show ?thesis by (auto simp: map_view_remove)
qed

theorem map_remove_get_witness:
  "\<exists>root st' obj'. SMap_Remove ex_hf (RollingHasher 0 46 64) (Some (tree_node ex_hf CT_kMap (PLeaf (map map_item [ex_kv 1 5, ex_kv 2 6]))))
      [2] (ex_leaf_store CT_kMap (map map_item [ex_kv 1 5, ex_kv 2 6])) = Some (root, st') \<and>
    UMap_SetNodeForHash st' root = Some obj' \<and>
    (\<forall>x. reads_as (UMap_Get ex_hf st' obj' x) (((map_view [ex_kv 1 5, ex_kv 2 6])([2] := None)) x)) \<and>
    (\<forall>x. reads_as (UMap_Get ex_hf st' (Some (tree_node ex_hf CT_kMap (PLeaf (map map_item [ex_kv 1 5, ex_kv 2 6])))) x)
      (map_view [ex_kv 1 5, ex_kv 2 6] x))"
proof (rule map_remove_get[OF short_object _ _ ex_hf_digest _ short_tree])
  have i: "kv_remove [2] [ex_kv 1 5, ex_kv 2 6] = [ex_kv 1 5]" by (simp add: ex_kv_def kv_remove_def)
  show "length (concat (map map_item (kv_remove [2] [ex_kv 1 5, ex_kv 2 6]))) < 46" unfolding i map_item_length by simp
  show "inj_on ex_hf (edit_chunks ex_hf CT_kMap (PLeaf (map map_item [ex_kv 1 5, ex_kv 2 6]))
      (PLeaf (map map_item (kv_remove [2] [ex_kv 1 5, ex_kv 2 6]))))"
    unfolding i by (rule ex_leaf_inj) code_simp
qed (use ex_map_ok(2) map_ok_input[OF ex_map_ok(2)] in \<open>simp_all add: ex_kv_def params_ok_def edit_ok_def\<close>)

text \<open>C12.  The root of a map depends on its contents, not on its history: setting two different keys
  in either order returns the same root hash.\<close>

theorem map_set_commutes:
  assumes ob: "object (is_boundary pat win mx) hf CT_kMap st (map map_item kvs) t" and "map_ok kvs" and kl: "k \<noteq> l"
    and "length (map_item \<lparr>kv_key = k, kv_val = v\<rparr>) \<le> 2 ^ 30" and "length (map_item \<lparr>kv_key = l, kv_val = w\<rparr>) \<le> 2 ^ 30"
    and "length kvs + 2 < 2 ^ 31" and "params_ok win mx" and "digest_ok hf"
    and "tree_of (is_boundary pat win mx) hf CT_kMap (map map_item (kv_insert k v kvs)) t1"
    and "tree_of (is_boundary pat win mx) hf CT_kMap (map map_item (kv_insert l w kvs)) t2"
    and "tree_of (is_boundary pat win mx) hf CT_kMap (map map_item (kv_insert l w (kv_insert k v kvs))) t3"
    and "inj_on hf (edit_chunks hf CT_kMap t t1)" and "inj_on hf (edit_chunks hf CT_kMap t t2)"
    and "inj_on hf (edit_chunks hf CT_kMap t1 t3)" and "inj_on hf (edit_chunks hf CT_kMap t2 t3)"
  shows "\<exists>root st1 st2.
    do { (r, s) \<leftarrow> SMap_Set hf (RollingHasher pat win mx) (Some (tree_node hf CT_kMap t)) k v st;
         obj \<leftarrow> UMap_SetNodeForHash s r;
         SMap_Set hf (RollingHasher pat win mx) obj l w s } = Some (root, st1) \<and>
    do { (r, s) \<leftarrow> SMap_Set hf (RollingHasher pat win mx) (Some (tree_node hf CT_kMap t)) l w st;
         obj \<leftarrow> UMap_SetNodeForHash s r;
         SMap_Set hf (RollingHasher pat win mx) obj k v s } = Some (root, st2)"
proof -
  have "kv_insert l w (kv_insert k v kvs) = kv_insert k v (kv_insert l w kvs)"
    by (rule kv_insert_commute) (use kl assms(2) in \<open>auto simp: map_ok_def\<close>)
  with SMap_Set_twice[OF ob assms(2,6-8,4,5,9,12,11,14)] SMap_Set_twice[OF ob assms(2,6-8,5,4,10,13) _ assms(15)] assms(11)
  show ?thesis
    by (intro exI[of _ "tree_hash hf CT_kMap t3"]) simp
qed

theorem map_set_commutes_witness:
  "\<exists>root st1 st2.
    do { (r, s) \<leftarrow> SMap_Set ex_hf (RollingHasher 0 46 64) (Some (tree_node ex_hf CT_kMap (PLeaf (map map_item [ex_kv 1 5]))))
           [2] [6] (ex_leaf_store CT_kMap (map map_item [ex_kv 1 5]));
         obj \<leftarrow> UMap_SetNodeForHash s r;
         SMap_Set ex_hf (RollingHasher 0 46 64) obj [3] [7] s } = Some (root, st1) \<and>
    do { (r, s) \<leftarrow> SMap_Set ex_hf (RollingHasher 0 46 64) (Some (tree_node ex_hf CT_kMap (PLeaf (map map_item [ex_kv 1 5]))))
           [3] [7] (ex_leaf_store CT_kMap (map map_item [ex_kv 1 5]));
         obj \<leftarrow> UMap_SetNodeForHash s r;
         SMap_Set ex_hf (RollingHasher 0 46 64) obj [2] [6] s } = Some (root, st2)"
proof (rule map_set_commutes[OF short_object _ _ _ _ _ _ ex_hf_digest short_tree short_tree short_tree])
  have i: "kv_insert [2] [6] [ex_kv 1 5] = [ex_kv 1 5, ex_kv 2 6]" "kv_insert [3] [7] [ex_kv 1 5] = [ex_kv 1 5, ex_kv 3 7]"
    "kv_insert [3] [7] [ex_kv 1 5, ex_kv 2 6] = [ex_kv 1 5, ex_kv 2 6, ex_kv 3 7]" by (simp_all add: ex_kv_def)
  show "length (concat (map map_item (kv_insert [2] [6] [ex_kv 1 5]))) < 46"
    "length (concat (map map_item (kv_insert [3] [7] [ex_kv 1 5]))) < 46"
    "length (concat (map map_item (kv_insert [3] [7] (kv_insert [2] [6] [ex_kv 1 5])))) < 46"
    unfolding i map_item_length by simp_all
  show "inj_on ex_hf (edit_chunks ex_hf CT_kMap (PLeaf (map map_item [ex_kv 1 5])) (PLeaf (map map_item (kv_insert [2] [6] [ex_kv 1 5]))))"
    "inj_on ex_hf (edit_chunks ex_hf CT_kMap (PLeaf (map map_item [ex_kv 1 5])) (PLeaf (map map_item (kv_insert [3] [7] [ex_kv 1 5]))))"
    "inj_on ex_hf (edit_chunks ex_hf CT_kMap (PLeaf (map map_item (kv_insert [2] [6] [ex_kv 1 5])))
      (PLeaf (map map_item (kv_insert [3] [7] (kv_insert [2] [6] [ex_kv 1 5])))))"
    "inj_on ex_hf (edit_chunks ex_hf CT_kMap (PLeaf (map map_item (kv_insert [3] [7] [ex_kv 1 5])))
      (PLeaf (map map_item (kv_insert [3] [7] (kv_insert [2] [6] [ex_kv 1 5])))))"
    unfolding i by (rule ex_leaf_inj; code_simp)+
qed (use ex_map_ok(1) map_ok_input[OF ex_map_ok(1)] in \<open>simp_all add: ex_kv_def params_ok_def\<close>)

text \<open>C14.  Splicing a stored list: deleting \<open>d\<close> elements at position \<open>p\<close> and inserting others there
  returns the root of a list in which \<open>Get\<close> returns, at every index, the element of the spliced
  sequence, and the empty slice beyond its end; the old version still reads as before.  Excepted is
  the deletion of the last leaves as a whole with nothing inserted (\<open>p\<close> is where a leaf of a list of
  several leaves starts and \<open>p + d\<close> reaches the end), where the code leaves an empty leaf behind.\<close>

theorem list_splice_get:
  assumes "object (is_boundary pat win mx) hf CT_kList st (map list_item xs) t" and "list_ok xs"
    and "params_ok win mx" and "digest_ok hf" and "p \<le> length xs"
    and "edit_ok (is_boundary pat win mx) (map list_item xs) t p d (map list_item ys)"
    and zs: "zs = take p xs @ ys @ drop (p + d) xs" and "list_ok zs"
    and "tree_of (is_boundary pat win mx) hf CT_kList (map list_item zs) t'" and "inj_on hf (edit_chunks hf CT_kList t t')"
  shows "\<exists>root st' obj'. SList_Splice hf (RollingHasher pat win mx) (Some (tree_node hf CT_kList t)) p d ys st = Some (root, st') \<and>
    UList_SetNodeForHash st' root = Some obj' \<and>
    (\<forall>i. reads_as (UList_Get hf st' obj' i) (list_view zs i)) \<and>
    (\<forall>i. reads_as (UList_Get hf st' (Some (tree_node hf CT_kList t)) i) (list_view xs i))"
proof -
  obtain st' where st': "SList_Splice hf (RollingHasher pat win mx) (Some (tree_node hf CT_kList t)) p d ys st =
      Some (tree_hash hf CT_kList t', st')"
    and ob: "object (is_boundary pat win mx) hf CT_kList st' (map list_item zs) t'"
      "object (is_boundary pat win mx) hf CT_kList st' (map list_item xs) t"
    using SList_Splice_object[OF assms(1,3-6) zs assms(8-10)] by blast
  have "tree_wf hf CT_kList t'" by (rule tree_of_wf[OF objectD(1,3)[OF ob(1)] assms(3,4)])
  from set_node_tree[OF this objectD(2)[OF ob(1)]]
  have "UList_SetNodeForHash st' (tree_hash hf CT_kList t') = Some (Some (tree_node hf CT_kList t'))"
    by (simp add: UList_SetNodeForHash_def)
  with st' UList_Get_view[OF ob(1) assms(8,3,4)] UList_Get_view[OF ob(2) assms(2-4)] show ?thesis by auto
qed

theorem list_splice_get_witness:
  "\<exists>root st' obj'. SList_Splice ex_hf (RollingHasher 0 46 64) (Some (tree_node ex_hf CT_kList (PLeaf (map list_item [[1], [2]]))))
      1 1 [[7], [8, 9]] (ex_leaf_store CT_kList (map list_item [[1], [2]])) = Some (root, st') \<and>
    UList_SetNodeForHash st' root = Some obj' \<and>
    (\<forall>i. reads_as (UList_Get ex_hf st' obj' i) (list_view [[1], [7], [8, 9]] i)) \<and>
    (\<forall>i. reads_as (UList_Get ex_hf st' (Some (tree_node ex_hf CT_kList (PLeaf (map list_item [[1], [2]])))) i) (list_view [[1], [2]] i))"
proof (rule list_splice_get[OF short_object _ _ ex_hf_digest _ _ _ _ short_tree])
  show "inj_on ex_hf (edit_chunks ex_hf CT_kList (PLeaf (map list_item [[1], [2]])) (PLeaf (map list_item [[1], [7], [8, 9]])))"
    by (rule ex_leaf_inj) code_simp
  show "input_ok CT_kList (map list_item [[1], [2]])" by (rule list_ok_input) (simp add: list_ok_def)
qed (simp_all add: params_ok_def edit_ok_def list_ok_def)

text \<open>C15.  Writing a blob that is not empty, splicing it and reading it back: \<open>Read\<close> into a string at a
  position below the size returns the bytes of the spliced sequence from there on, at most \<open>len\<close> of
  them; with \<open>len = 0\<close> it does not stop before the end.  Excepted is, as for lists, the deletion of the
  last leaves as a whole with nothing inserted, where the code leaves an empty leaf behind.\<close>

theorem blob_splice_read:
  assumes "tree_of (is_boundary pat win mx) hf CT_kBlob (singles xs) t" and "xs \<noteq> []" and "blob_ok xs"
    and "params_ok win mx" and "digest_ok hf" and "p \<le> length xs"
    and "edit_ok (is_boundary pat win mx) (singles xs) t p d (singles ys)"
    and zs: "zs = take p xs @ ys @ drop (p + d) xs" and "blob_ok zs"
    and "tree_of (is_boundary pat win mx) hf CT_kBlob (singles zs) t'" and inj: "inj_on hf (edit_chunks hf CT_kBlob t t')"
    and "q < length zs"
  shows "do { (obj, s) \<leftarrow> SBlob_create hf (RollingHasher pat win mx) xs st;
              (r, s) \<leftarrow> SBlob_Splice hf (RollingHasher pat win mx) obj p d ys s;
              obj \<leftarrow> UBlob_SetNodeForHash s r;
              UBlob_Read_string hf s obj q len buf } =
    (let n = (if len = 0 then length zs - q else min len (length zs - q)) in Some (n, take n (drop q zs)))"
proof -
  have "inj_on hf (set (tree_chunks hf CT_kBlob t))" by (rule inj_on_subset[OF inj]) (simp add: edit_chunks_def)
  from write_new_object[OF assms(1) blob_seg_rep blob_ok_input[OF assms(3)] assms(4,5) this, of st] obtain s1 where
    s1: "write_new hf (RollingHasher pat win mx) CT_kBlob (FixedSegment xs (length xs) 1) st = Some (tree_hash hf CT_kBlob t, s1)"
    and ob1: "object (is_boundary pat win mx) hf CT_kBlob s1 (singles xs) t" by blast
  have ld: "UBlob_SetNodeForHash s (tree_hash hf CT_kBlob u) = Some (Some (tree_node hf CT_kBlob u))"
    if "object (is_boundary pat win mx) hf CT_kBlob s es u" for s es u
    using set_node_tree[OF tree_of_wf[OF objectD(1,3)[OF that] assms(4,5)] objectD(2)[OF that]]
    by (simp add: UBlob_SetNodeForHash_def)
  from SBlob_Splice_object[OF ob1 assms(4-7) zs assms(9,10) inj] obtain s2 where
    s2: "SBlob_Splice hf (RollingHasher pat win mx) (Some (tree_node hf CT_kBlob t)) p d ys s1 = Some (tree_hash hf CT_kBlob t', s2)"
    and ob2: "object (is_boundary pat win mx) hf CT_kBlob s2 (singles zs) t'" by blast
  from UBlob_Read_string_view[OF ob2 assms(4,5), of q len buf] assms(12,2) s1 ld[OF ob1] s2 ld[OF ob2] show ?thesis
    by (simp add: SBlob_create_def)
qed

theorem blob_splice_read_witness:
  "do { (obj, s) \<leftarrow> SBlob_create ex_hf (RollingHasher 0 46 64) [1, 2, 3] Map.empty;
        (r, s) \<leftarrow> SBlob_Splice ex_hf (RollingHasher 0 46 64) obj 1 1 [7, 8] s;
        obj \<leftarrow> UBlob_SetNodeForHash s r;
        UBlob_Read_string ex_hf s obj 1 2 [] } =
    (let n = (if (2 :: nat) = 0 then length ([1, 7, 8, 3] :: bytes) - 1 else min 2 (length ([1, 7, 8, 3] :: bytes) - 1)) in
     Some (n, take n (drop 1 [1, 7, 8, 3])))"
proof (rule blob_splice_read[OF short_tree _ _ _ ex_hf_digest _ _ _ _ short_tree])
  show "inj_on ex_hf (edit_chunks ex_hf CT_kBlob (PLeaf (singles [1, 2, 3])) (PLeaf (singles [1, 7, 8, 3])))"
    by (rule ex_leaf_inj) code_simp
qed (simp_all add: params_ok_def edit_ok_def blob_ok_def)

text \<open>C17.  A scan of a stored object reaches every element and ends: the iterator that \<open>Scan\<close>
  returns stands on element \<open>k\<close> after \<open>k\<close> calls of \<open>next\<close>, with its index, its bytes and their
  number, and at the end after as many calls as there are elements.\<close>

theorem scan_reaches_end:
  assumes "object (is_boundary pat win mx) hf ty st es t" and "params_ok win mx" and "digest_ok hf"
  shows "\<exists>it0. Scan hf st (Some (tree_node hf ty t)) = Some it0 \<and>
    (\<forall>k < length es. \<exists>it rest. it_nexts st k it0 = Some it \<and> \<not> it_end it \<and> it_index it = Some k \<and>
       it_data it = Some (es ! k @ rest) \<and> it_numBytes it = Some (length (es ! k))) \<and>
    (\<exists>it. it_nexts st (length es) it0 = Some it \<and> it_end it)"
proof -
  note ob = objectD[OF assms(1)]
  have wf: "tree_wf hf ty t" by (rule tree_of_wf[OF ob(1,3) assms(2,3)])
  have n: "obj_numElements (Some (tree_node hf ty t)) = Some (length es)"
    using numElements_tree[OF wf] tree_of_elems[OF ob(1)] by (simp add: obj_numElements_def)
  obtain N Ns where lo: "levels_of (is_boundary pat win mx) hf ty es t (N # Ns)"
    using tree_of_levels_Cons[OF ob(1)] by blast
  note lv = levels_of_lev[OF lo ob(3) assms(2,3)]
  have sp: "span N = length es" "length es < 2 ^ 31" using lv(3) ob(3) by (simp_all add: input_ok_def)
  have cur: "NodeCursor_idx st (tree_hash hf ty t) 0 = Some (pos hf ty (N # Ns) 0)"
    by (rule NodeCursor_idx_pos[OF lo ob(3) assms(2,3) ob(2)]) simp
  show ?thesis
  proof (cases "es = []")
    case True
    then show ?thesis using n obj_hash_tree[OF wf] cur
      by (simp add: Scan_def CursorIterator_def it_end_def int32_of_def del: pos.simps)
  next
    case False
    let ?on = "it_on hf ty (N # Ns) (length es)"
    have start: "Scan hf st (Some (tree_node hf ty t)) = Some (?on 0)"
      using n obj_hash_tree[OF wf] cur False
      by (simp add: Scan_def CursorIterator_def it_index_def it_head_def it_end_def it_range_def nth_opt_def
          int32_of_def it_on_def del: pos.simps)
    have steps: "k < length es \<Longrightarrow> it_nexts st k (?on 0) = Some (?on k)" for k
    proof (induction k)
      case (Suc k)
      with it_next_on(1)[OF lv(1) lv(4)[OF ob(2)] sp, of k] show ?case by simp
    qed simp
    have each: "\<exists>it rest. it_nexts st k (?on 0) = Some it \<and> \<not> it_end it \<and> it_index it = Some k \<and>
       it_data it = Some (es ! k @ rest) \<and> it_numBytes it = Some (length (es ! k))" if k: "k < length es" for k
    proof -
      note s = it_on_state[of hf ty "N # Ns" "length es" k] and c = current_pos(1,2)[OF lo ob(3) assms(2,3) k]
      have "it_index (?on k) = Some k"
        using s k sp(2) by (simp add: it_index_def) (simp add: it_range_def nth_opt_def it_on_def)
      moreover have "\<exists>rest. it_data (?on k) = Some (es ! k @ rest)" "it_numBytes (?on k) = Some (length (es ! k))"
        using s c by (simp_all add: it_data_def it_numBytes_def del: pos.simps)
      ultimately show ?thesis using steps[OF k] s(2) by (intro exI[of _ "?on k"]) simp
    qed
    have fin: "\<exists>it. it_nexts st (length es) (?on 0) = Some it \<and> it_end it"
    proof -
      obtain k where k: "length es = Suc k" using False by (cases es) auto
      have "k < length es" "Suc k = length es" using k by simp_all
      from it_next_on(2)[OF lv(1) lv(4)[OF ob(2)] sp this]
      obtain it where "it_next st (?on k) = Some (False, it)" "it_end it" by blast
      moreover have "it_nexts st k (?on 0) = Some (?on k)" by (rule steps) (simp add: k)
      ultimately have "it_nexts st (Suc k) (?on 0) = Some it" by simp
      with \<open>it_end it\<close> k show ?thesis by auto
    qed
    from start each fin show ?thesis by simp
  qed
qed

theorem scan_reaches_end_witness:
  "\<exists>it0. Scan ex_hf ex_store (Some (tree_node ex_hf CT_kList ex_old)) = Some it0 \<and>
    (\<forall>k < length [list_item (replicate 50 7), list_item (replicate 50 8)]. \<exists>it rest. it_nexts ex_store k it0 = Some it \<and>
       \<not> it_end it \<and> it_index it = Some k \<and>
       it_data it = Some ([list_item (replicate 50 7), list_item (replicate 50 8)] ! k @ rest) \<and>
       it_numBytes it = Some (length ([list_item (replicate 50 7), list_item (replicate 50 8)] ! k))) \<and>
    (\<exists>it. it_nexts ex_store (length [list_item (replicate 50 7), list_item (replicate 50 8)]) it0 = Some it \<and> it_end it)"
  by (rule scan_reaches_end[OF ex_old_object _ ex_hf_digest]) (simp add: params_ok_def)

text \<open>C30.  What loading a root tells about its type.  A root that is a leaf is loaded as an object of
  its own type only: of another type, blobs and lists abort and maps and sets stay empty.  A root
  that is an inner node is loaded by all four types, whatever type its leaves have.\<close>

theorem root_type_check:
  assumes "object (is_boundary pat win mx) hf ty st es t" and "params_ok win mx" and "digest_ok hf"
  shows "UMap_SetNodeForHash st (tree_hash hf ty t) =
      (if ty = CT_kMap \<or> 0 < height t then Some (Some (tree_node hf ty t)) else Some None) \<and>
    USet_SetNodeForHash st (tree_hash hf ty t) =
      (if ty = CT_kSet \<or> 0 < height t then Some (Some (tree_node hf ty t)) else Some None) \<and>
    UList_SetNodeForHash st (tree_hash hf ty t) =
      (if ty = CT_kList \<or> 0 < height t then Some (Some (tree_node hf ty t)) else None) \<and>
    UBlob_SetNodeForHash st (tree_hash hf ty t) =
      (if ty = CT_kBlob \<or> 0 < height t then Some (Some (tree_node hf ty t)) else None)"
proof -
  note ob = objectD[OF assms(1)]
  have wf: "tree_wf hf ty t" by (rule tree_of_wf[OF ob(1,3) assms(2,3)])
  show ?thesis using set_node_any[OF wf ob(2)]
    by (simp add: UMap_SetNodeForHash_def USet_SetNodeForHash_def UList_SetNodeForHash_def UBlob_SetNodeForHash_def leaf_type_def)
qed

theorem root_type_check_witness:
  "UMap_SetNodeForHash ex_store (tree_hash ex_hf CT_kList ex_old) =
      (if CT_kList = CT_kMap \<or> 0 < height ex_old then Some (Some (tree_node ex_hf CT_kList ex_old)) else Some None) \<and>
    USet_SetNodeForHash ex_store (tree_hash ex_hf CT_kList ex_old) =
      (if CT_kList = CT_kSet \<or> 0 < height ex_old then Some (Some (tree_node ex_hf CT_kList ex_old)) else Some None) \<and>
    UList_SetNodeForHash ex_store (tree_hash ex_hf CT_kList ex_old) =
      (if CT_kList = CT_kList \<or> 0 < height ex_old then Some (Some (tree_node ex_hf CT_kList ex_old)) else None) \<and>
    UBlob_SetNodeForHash ex_store (tree_hash ex_hf CT_kList ex_old) =
      (if CT_kList = CT_kBlob \<or> 0 < height ex_old then Some (Some (tree_node ex_hf CT_kList ex_old)) else None)"
  by (rule root_type_check[OF ex_old_object _ ex_hf_digest]) (simp add: params_ok_def)

end
