(* ===== verification/Key_Compare.thy ===== *)
theory Key_Compare
  imports Chunkable_Diff Typed_Objects Cursor_Steps
begin

text \<open>
  Comparing two maps or two sets by key.  When no two different chunks of the two trees have the
  same digest, \<open>KeyDiffer\<close> gives exactly the indices of the left elements that are not on the right,
  and \<open>KeyIntersector\<close> exactly the indices of those that are, although both skip subtrees of the same
  hash and look only into the part of the right tree that can hold the keys of a left node.  The
  iterator of a difference holds these indices as ranges; in trees of height at most one \<open>next\<close> walks
  over exactly them.
\<close>

section \<open>Trees of the same hash\<close>

lemma node_rep_unique:
  assumes "node_rep nd es" and "node_rep nd es'"
  shows "es = es'"
proof (rule nth_equalityI)
  show n: "length es = length es'" using assms by (simp add: node_rep_def)
  fix i assume i: "i < length es"
  then have "concat (drop i es) = concat (drop i es')" "length (es ! i) = length (es' ! i)"
    using assms n by (auto simp: node_rep_def)
  with i n show "es ! i = es' ! i" by (simp add: drop_concat_entry)
qed

lemma tree_chunk_in: "tree_chunk hf ty t \<in> set (tree_chunks hf ty t)"
  by (cases t) auto

lemma tree_chunks_child: "t \<in> set ts \<Longrightarrow> set (tree_chunks hf ty t) \<subseteq> set (tree_chunks hf ty (PNode ts))"
  by auto

lemma child_hash_entry:
  assumes "tree_wf hf ty (PNode ts)" and "i < length ts"
  shows "MetaEntry_targetHash (root_entries hf ty (PNode ts) ! i) = Some (tree_hash hf ty (ts ! i))"
  using MetaEntry_targetHash_bytes[OF child_me_ok[OF assms], of "[]"] assms(2) by simp

lemma same_chunk_same_tree:
  assumes "tree_wf hf ty t" and "tree_wf hf ty t'"
    and "inj_on hf C" and "set (tree_chunks hf ty t) \<subseteq> C" and "set (tree_chunks hf ty t') \<subseteq> C"
    and "tree_chunk hf ty t = tree_chunk hf ty t'"
  shows "t = t'"
  using assms(1,2,4-)
proof (induction t arbitrary: t')
  case (PLeaf es)
  have nd: "leaf_node ty es = tree_node hf ty t'"
    using CreateFromChunk_tree[OF PLeaf(1)] CreateFromChunk_tree[OF PLeaf(2)] PLeaf(5) by simp
  then have "height t' = 0"
    using tree_node_isLeaf[OF tree_wf_leaf_type[OF PLeaf(1)], of hf "PLeaf es"]
      tree_node_isLeaf[OF tree_wf_leaf_type[OF PLeaf(1)], of hf t'] by simp
  then obtain es' where "t' = PLeaf es'" by (cases t' rule: height.cases) auto
  with node_rep_unique[OF tree_node_rep[OF PLeaf(1)]] tree_node_rep[OF PLeaf(2)] nd show ?case by simp
next
  case (PNode ts)
  have nd: "tree_node hf ty (PNode ts) = tree_node hf ty t'"
    using CreateFromChunk_tree[OF PNode.prems(1)] CreateFromChunk_tree[OF PNode.prems(2)] PNode.prems(5) by simp
  have "height (PNode ts) \<noteq> 0" by (cases ts) auto
  then have "height t' \<noteq> 0"
    using tree_node_isLeaf[OF tree_wf_leaf_type[OF PNode.prems(1)], of hf "PNode ts"]
      tree_node_isLeaf[OF tree_wf_leaf_type[OF PNode.prems(1)], of hf t'] unfolding nd by simp
  then obtain ts' where t': "t' = PNode ts'" by (cases t' rule: height.cases) auto
  note wf' = PNode.prems(2)[unfolded t']
  have re: "root_entries hf ty (PNode ts) = root_entries hf ty (PNode ts')"
    using node_rep_unique[OF tree_node_rep[OF PNode.prems(1)]] tree_node_rep[OF wf'] nd t' by simp
  have n: "length ts = length ts'" using arg_cong[OF re, of length] by simp
  have "ts = ts'"
  proof (rule nth_equalityI[OF n])
    fix i assume i: "i < length ts"
    then have i': "i < length ts'" using n by simp
    have "tree_hash hf ty (ts ! i) = tree_hash hf ty (ts' ! i)"
      using child_hash_entry[OF PNode.prems(1) i] child_hash_entry[OF wf' i'] re by simp
    moreover have C: "set (tree_chunks hf ty (ts ! i)) \<subseteq> C" "set (tree_chunks hf ty (ts' ! i)) \<subseteq> C"
      using tree_chunks_child[OF nth_mem[OF i], of hf ty] tree_chunks_child[OF nth_mem[OF i'], of hf ty]
        PNode.prems(3,4) t' by blast+
    ultimately have "tree_chunk hf ty (ts ! i) = tree_chunk hf ty (ts' ! i)"
      using inj_onD[OF assms(3)] tree_chunk_in[of hf ty "ts ! i"] tree_chunk_in[of hf ty "ts' ! i"]
      by (auto simp: tree_hash_def)
    from PNode.IH[OF nth_mem[OF i] tree_wf_nth(1)[OF PNode.prems(1) i] tree_wf_nth(1)[OF wf' i'] C this]
    show "ts ! i = ts' ! i" .
  qed
  then show ?case using t' by simp
qed

lemma same_hash_same_tree:
  assumes "tree_wf hf ty t" and "tree_wf hf ty t'"
    and "inj_on hf C" and "set (tree_chunks hf ty t) \<subseteq> C" and "set (tree_chunks hf ty t') \<subseteq> C"
    and "tree_hash hf ty t = tree_hash hf ty t'"
  shows "t = t'"
proof -
  have "tree_chunk hf ty t = tree_chunk hf ty t'"
    using inj_onD[OF assms(3)] tree_chunk_in[of hf ty t] tree_chunk_in[of hf ty t'] assms(4-6)
    by (auto simp: tree_hash_def)
  from same_chunk_same_tree[OF assms(1-5) this] show ?thesis .
qed

lemma node_hash_tree: "tree_wf hf ty t \<Longrightarrow> node_hash hf (tree_node hf ty t) = Some (tree_hash hf ty t)"
  using obj_hash_tree[of hf ty t] by (simp add: node_hash_def obj_hash_def)

section \<open>Cursors on the elements in turn\<close>

lemma cursor_of_leaf:
  assumes "tree_wf hf ty t" and "i < length (elems t)"
  shows "\<exists>us j rest. cursor_of hf ty t i acc = (leaf_node ty us, int j) # rest \<and> j < length us \<and>
    us ! j = elems t ! i \<and> leaf_ok ty us \<and> length us < 2 ^ 31"
  using assms
proof (induction t arbitrary: i acc)
  case (PNode ts)
  let ?j = "child_of ts i"
  have j: "?j < length ts" by (rule child_of_less[OF PNode.prems(2)])
  note b = child_of_bounds[OF PNode.prems(2)]
  have "elems (ts ! ?j) ! (i - before ts ?j) = elems (PNode ts) ! i"
    using elems_PNode_nth[OF j b(2)] b(1) by simp
  with PNode.IH[OF nth_mem[OF j] tree_wf_nth(1)[OF PNode.prems(1) j] b(2)] show ?case
    by (simp only: cursor_of_PNode[OF PNode.prems(2)])
qed auto

lemma cursor_of_reads:
  assumes "tree_wf hf ty t" and "i < length (elems t)"
  shows "isEnd (cursor_of hf ty t i acc) = Some False"
    and "\<exists>rest. Cursor.current (cursor_of hf ty t i acc) = Some (elems t ! i @ rest)"
    and "numCurrentBytes (cursor_of hf ty t i acc) = Some (length (elems t ! i))"
    and "keyed_type ty \<Longrightarrow> currentKey (cursor_of hf ty t i acc) = Some (KeyData (elem_key ty (elems t ! i)))"
proof -
  obtain us j rest where us: "cursor_of hf ty t i acc = (leaf_node ty us, int j) # rest" "j < length us"
    "us ! j = elems t ! i" "leaf_ok ty us" "length us < 2 ^ 31"
    using cursor_of_leaf[OF assms] by blast
  note r = leaf_node_rep[OF us(4)]
  then have n: "numEntries (leaf_node ty us) = Some (length us)" by (simp add: node_rep_def)
  show "isEnd (cursor_of hf ty t i acc) = Some False" using us n by (simp add: isEnd_def)
  show "\<exists>rest. Cursor.current (cursor_of hf ty t i acc) = Some (elems t ! i @ rest)"
    using current_cursor_of[OF assms] .
  show "numCurrentBytes (cursor_of hf ty t i acc) = Some (length (elems t ! i))"
    unfolding us(1) using r us n by (auto simp: numCurrentBytes_def node_rep_def)
  assume k: "keyed_type ty"
  then have "node_key (leaf_node ty us) j = Some (entry_key ty (us ! j))"
    using us(2,4) by (auto simp: keyed_type_def leaf_ok_def leaf_fits_def MapNode_parsed(3) SetNode_parsed(3))
  then show "currentKey (cursor_of hf ty t i acc) = Some (KeyData (elem_key ty (elems t ! i)))"
    unfolding us(1) using us(3) entry_key_data[OF k] by (simp add: currentKey_def)
qed

text \<open>A cursor on element \<open>i\<close>, or behind the last one.\<close>

definition on_element :: "(bytes \<Rightarrow> bytes) \<Rightarrow> ChunkType \<Rightarrow> ptree \<Rightarrow> nat \<Rightarrow> cursor \<Rightarrow> bool" where
  "on_element hf ty t i cur \<longleftrightarrow> i < length (elems t) \<and> cur = cursor_of hf ty t i [] \<or>
     i = length (elems t) \<and> isEnd cur = Some True"

lemma on_element_end: "tree_wf hf ty t \<Longrightarrow> on_element hf ty t i cur \<Longrightarrow> isEnd cur = Some (i = length (elems t))"
  using cursor_of_reads(1) by (auto simp: on_element_def)

lemma on_element_advance:
  assumes "tree_wf hf ty t" and "stored hf ty ld t" and "on_element hf ty t i cur" and "i < length (elems t)"
  shows "\<exists>cur'. Advance ld True cur = Some (Suc i < length (elems t), cur') \<and> on_element hf ty t (Suc i) cur'"
proof (cases "Suc i < length (elems t)")
  case True
  with Advance_within_tree[OF assms(1,2) True] assms(3) show ?thesis by (auto simp: on_element_def)
next
  case False
  with assms(4) have i: "Suc i = length (elems t)" by simp
  obtain nd n rest where "cursor_of hf ty t i [] = (nd, int n) # rest" "numEntries nd = Some (Suc n)" "Suc n < 2 ^ 31"
    "Advance ld True (cursor_of hf ty t i []) = Some (False, (nd, int (Suc n)) # rest)"
    using Advance_last[OF assms(1) i, of ld "[]"] by (auto simp: stuck_def)
  with assms(3,4) i show ?thesis by (auto simp: on_element_def isEnd_def simp del: int_Suc of_nat_Suc)
qed

lemma on_element_start:
  assumes "tree_wf hf ty t" and "stored hf ty ld t"
  shows "\<exists>cur. NodeCursor_idx ld (tree_hash hf ty t) 0 = Some cur \<and> on_element hf ty t 0 cur"
proof (cases "elems t = []")
  case False
  with NodeCursor_idx_tree[OF assms, of 0] show ?thesis by (auto simp: on_element_def)
next
  case True
  have t: "t = PLeaf []"
  proof (cases t)
    case (PNode ts)
    with assms(1) True show ?thesis by (cases ts) (auto simp: tree_wf.simps)
  qed (use True in simp)
  have n: "numEntries (leaf_node ty []) = Some 0" using tree_node_numEntries[OF assms(1)] t by simp
  have d: "descend_idx ld (leaf_node ty []) 0 [] = Some [(leaf_node ty [], 0)]"
    using tree_wf_leaf_type[OF assms(1)] n by (cases rule: leaf_type_cases) (subst descend_idx.simps, simp)+
  with stored_root[OF assms(2)] CreateFromChunk_tree[OF assms(1)] numElements_tree[OF assms(1)] t n show ?thesis
    by (auto simp: NodeCursor_idx_def on_element_def isEnd_def)
qed

lemma compare_on_elements:
  assumes "tree_wf hf ty t" and "on_element hf ty t i lc" and "i < length (elems t)"
    and "tree_wf hf ty u" and "on_element hf ty u j rc" and "j < length (elems u)" and "keyed_type ty"
  shows "compare_elements OrderedKeyTrait lc x rc y = Some
    (let a = elems t ! i; b = elems u ! j in
     if elem_key ty b < elem_key ty a then LhsGreater
     else if elem_key ty a = elem_key ty b then SameKey (a = b) else LhsLess)"
proof -
  have c: "lc = cursor_of hf ty t i []" "rc = cursor_of hf ty u j []" using assms(2,3,5,6) by (auto simp: on_element_def)
  obtain r s where rs: "Cursor.current lc = Some (elems t ! i @ r)" "Cursor.current rc = Some (elems u ! j @ s)"
    using cursor_of_reads(2)[OF assms(1,3)] cursor_of_reads(2)[OF assms(4,6)] c by blast
  have "same_current lc rc = Some (elems t ! i = elems u ! j)"
    using cursor_of_reads(3)[OF assms(1,3)] cursor_of_reads(3)[OF assms(4,6)] rs c
    by (auto simp: same_current_def rd_bytes_def memcmp_eq_0)
  with cursor_of_reads(4)[OF assms(1,3,7)] cursor_of_reads(4)[OF assms(4,6,7)] c show ?thesis
    by (auto simp: compare_elements_def trait_Key_def Let_def slice_eq_def memcmp_eq_0)
qed

section \<open>Ranges of the wanted elements\<close>

text \<open>The ranges \<open>out\<close> cover those of the elements \<open>es\<close>, which start at index \<open>s\<close>, that satisfy \<open>W\<close>.\<close>

definition covers :: "(bytes \<Rightarrow> bool) \<Rightarrow> nat \<Rightarrow> bytes list \<Rightarrow> IndexRange list \<Rightarrow> bool" where
  "covers W s es out \<longleftrightarrow> in_order out \<and>
     (\<forall>r \<in> set out. s \<le> start_idx r \<and> start_idx r + num_subsequent r \<le> s + length es) \<and>
     ranges_set out = {s + k | k. k < length es \<and> W (es ! k)}"

lemma hits_append:
  "{s + k | k. k < length (es @ es') \<and> W ((es @ es') ! k)} =
   {s + k | k. k < length es \<and> W (es ! k)} \<union> {s + length es + k | k. k < length es' \<and> W (es' ! k)}"
proof (intro set_eqI iffI)
  fix x assume "x \<in> {s + k | k. k < length (es @ es') \<and> W ((es @ es') ! k)}"
  then obtain k where k: "x = s + k" "k < length es + length es'" "W ((es @ es') ! k)" by auto
  show "x \<in> {s + k | k. k < length es \<and> W (es ! k)} \<union> {s + length es + k | k. k < length es' \<and> W (es' ! k)}"
  proof (cases "k < length es")
    case True
    with k show ?thesis by (auto simp: nth_append)
  next
    case False
    with k have "x = s + length es + (k - length es)" "k - length es < length es'" "W (es' ! (k - length es))"
      by (auto simp: nth_append)
    then show ?thesis by blast
  qed
next
  fix x
  assume "x \<in> {s + k | k. k < length es \<and> W (es ! k)} \<union> {s + length es + k | k. k < length es' \<and> W (es' ! k)}"
  then consider k where "x = s + k" "k < length es" "W (es ! k)"
    | k where "x = s + (length es + k)" "k < length es'" "W (es' ! k)" by (auto simp: add.assoc)
  then show "x \<in> {s + k | k. k < length (es @ es') \<and> W ((es @ es') ! k)}"
  proof cases
    case 1
    then show ?thesis by (intro CollectI exI[of _ k]) (auto simp: nth_append)
  next
    case 2
    then show ?thesis by (intro CollectI exI[of _ "length es + k"]) (auto simp: nth_append)
  qed
qed

lemma covers_append:
  assumes "covers W s es out" and "covers W (s + length es) es' out'"
  shows "covers W s (es @ es') (out @ out')"
proof -
  have b: "\<forall>r \<in> set out. s \<le> start_idx r \<and> start_idx r + num_subsequent r \<le> s + length es"
    "\<forall>r \<in> set out'. s + length es \<le> start_idx r \<and> start_idx r + num_subsequent r \<le> s + length es + length es'"
    and o: "in_order out" "in_order out'" using assms by (simp_all add: covers_def)
  have "\<forall>r \<in> set out. \<forall>q \<in> set out'. start_idx r + num_subsequent r \<le> start_idx q"
    using b by (meson order_trans)
  then have "in_order (out @ out')" using o by (auto simp: in_order_def sorted_wrt_append)
  moreover have "ranges_set (out @ out') = {s + k | k. k < length (es @ es') \<and> W ((es @ es') ! k)}"
    using assms unfolding hits_append covers_def by (simp add: ranges_set_def)
  moreover have "\<forall>r \<in> set (out @ out'). s \<le> start_idx r \<and> start_idx r + num_subsequent r \<le> s + length (es @ es')"
    using b by (auto simp: add.assoc intro: le_trans[OF _ add_left_mono[OF le_add1]] le_trans[OF le_add1])
  ultimately show ?thesis unfolding covers_def by blast
qed

lemma covers_Nil: "(\<And>e. e \<in> set es \<Longrightarrow> \<not> W e) \<Longrightarrow> covers W s es []"
  by (auto simp: covers_def in_order_def ranges_set_def)

lemma covers_all:
  assumes "\<And>e. e \<in> set es \<Longrightarrow> W e" and "es \<noteq> []"
  shows "covers W s es [\<lparr>start_idx = s, num_subsequent = length es\<rparr>]"
proof -
  have "{s + k | k. k < length es \<and> W (es ! k)} = {s..<s + length es}"
    using assms(1) by (auto simp: le_iff_add)
  with assms(2) show ?thesis by (simp add: covers_def in_order_def ranges_set_def range_set_def)
qed

lemma covers_cong: "(\<And>e. e \<in> set es \<Longrightarrow> W e = W' e) \<Longrightarrow> covers W s es out = covers W' s es out"
  unfolding covers_def by (intro conj_cong refl arg_cong2[of _ _ _ _ "(=)"] Collect_cong ex_cong1) auto

text \<open>The ranges so far with the one being built, which ends at the current element.\<close>

definition building :: "(bytes \<Rightarrow> bool) \<Rightarrow> nat \<Rightarrow> bytes list \<Rightarrow> IndexRange list \<Rightarrow> IndexRange \<Rightarrow> bool" where
  "building W s es out cr \<longleftrightarrow>
     (if num_subsequent cr = 0 then covers W s es out
      else covers W s es (out @ [cr]) \<and> start_idx cr + num_subsequent cr = s + length es)"

lemma building_close: "building W s es out cr \<Longrightarrow> covers W s es (fst (range_close out cr))"
  by (auto simp: building_def range_close_def)

lemma building_miss:
  assumes "building W s es out cr" and "\<not> W e"
  shows "building W s (es @ [e]) (fst (range_close out cr)) (snd (range_close out cr))"
  using covers_append[OF building_close[OF assms(1)] covers_Nil[of "[e]" W]] assms(2)
  by (simp add: building_def range_close_def)

lemma building_hit:
  assumes "building W s es out cr" and "W e"
  shows "building W s (es @ [e]) out (range_grow (s + length es) cr)"
proof (cases "num_subsequent cr = 0")
  case True
  with assms(1) have "covers W s es out" by (simp add: building_def)
  from covers_append[OF this covers_all[of "[e]" W]] assms(2) True show ?thesis
    by (simp add: building_def range_grow_def)
next
  case False
  let ?cr = "cr\<lparr>num_subsequent := num_subsequent cr + 1\<rparr>"
  have c: "covers W s es (out @ [cr])" "start_idx cr + num_subsequent cr = s + length es"
    using assms(1) False by (auto simp: building_def)
  have "range_set ?cr = insert (s + length es) (range_set cr)" using c(2) by (auto simp: range_set_def)
  moreover have "{s + k | k. k < length (es @ [e]) \<and> W ((es @ [e]) ! k)} =
      insert (s + length es) {s + k | k. k < length es \<and> W (es ! k)}"
    unfolding hits_append using assms(2) by auto
  ultimately have "ranges_set (out @ [?cr]) = {s + k | k. k < length (es @ [e]) \<and> W ((es @ [e]) ! k)}"
    using c(1) by (auto simp: covers_def ranges_set_def)
  moreover have "in_order (out @ [?cr])" using c(1) by (auto simp: covers_def in_order_def sorted_wrt_append)
  moreover have "\<forall>r \<in> set (out @ [?cr]). s \<le> start_idx r \<and> start_idx r + num_subsequent r \<le> s + length (es @ [e])"
    using c by (auto simp: covers_def intro: le_SucI)
  ultimately have "covers W s (es @ [e]) (out @ [?cr])" unfolding covers_def by blast
  with False c(2) show ?thesis by (simp add: building_def range_grow_def)
qed

lemma building_misses:
  assumes "building W s es out cr" and "\<And>e. e \<in> set es' \<Longrightarrow> \<not> W e"
  shows "covers W s (es @ es') (fst (range_close out cr))"
  using covers_append[OF building_close[OF assms(1)] covers_Nil[of es' W]] assms(2) by simp

section \<open>Merging two sorted lists\<close>

text \<open>The right elements before \<open>j\<close> have smaller keys than the left ones from \<open>i\<close> on.\<close>

definition passed :: "ChunkType \<Rightarrow> bytes list \<Rightarrow> nat \<Rightarrow> bytes list \<Rightarrow> nat \<Rightarrow> bool" where
  "passed ty as i bs j \<longleftrightarrow> (\<forall>k < length as. \<forall>m < j. i \<le> k \<longrightarrow> elem_key ty (bs ! m) < elem_key ty (as ! k))"

lemma sorted_key_less: "keys_sorted ty es \<Longrightarrow> i < j \<Longrightarrow> j < length es \<Longrightarrow> elem_key ty (es ! i) < elem_key ty (es ! j)"
  unfolding keys_sorted_def by (rule sorted_wrt_nth_less[of "\<lambda>a b. elem_key ty a < elem_key ty b"])

lemma sorted_key_le: "keys_sorted ty es \<Longrightarrow> i \<le> j \<Longrightarrow> j < length es \<Longrightarrow> elem_key ty (es ! i) \<le> elem_key ty (es ! j)"
  using sorted_key_less[of ty es i j] by (cases "i = j") auto

lemma passedD: "passed ty as i bs j \<Longrightarrow> i \<le> k \<Longrightarrow> k < length as \<Longrightarrow> m < j \<Longrightarrow> elem_key ty (bs ! m) < elem_key ty (as ! k)"
  by (simp add: passed_def)

lemma passed_left: "passed ty as i bs j \<Longrightarrow> passed ty as (Suc i) bs j"
  by (simp add: passed_def)

lemma passed_right:
  assumes "passed ty as i bs j" and "keys_sorted ty as" and "i < length as \<Longrightarrow> elem_key ty (bs ! j) < elem_key ty (as ! i)"
  shows "passed ty as i bs (Suc j)"
  unfolding passed_def
proof (intro allI impI)
  fix k m assume k: "k < length as" "m < Suc j" "i \<le> k"
  show "elem_key ty (bs ! m) < elem_key ty (as ! k)"
  proof (cases "m < j")
    case False
    then have "m = j" using k(2) by simp
    with assms(3) k sorted_key_le[OF assms(2) k(3,1)] show ?thesis by (auto intro: less_le_trans)
  qed (use assms(1) k in \<open>simp add: passed_def\<close>)
qed

lemma passed_both:
  assumes "passed ty as i bs j" and "keys_sorted ty as" and "elem_key ty (bs ! j) = elem_key ty (as ! i)"
  shows "passed ty as (Suc i) bs (Suc j)"
  using sorted_key_less[OF assms(2), of i "Suc i"] assms(3) by (intro passed_right[OF passed_left[OF assms(1)] assms(2)]) simp

lemma absent_less:
  assumes "passed ty as i bs j" and "keys_sorted ty bs" and "i \<le> k" and "k < length as"
    and "j < length bs \<Longrightarrow> elem_key ty (as ! k) < elem_key ty (bs ! j)"
  shows "as ! k \<notin> set bs"
proof
  assume "as ! k \<in> set bs"
  then obtain m where m: "m < length bs" "bs ! m = as ! k" by (auto simp: in_set_conv_nth)
  show False
  proof (cases "m < j")
    case True
    with passedD[OF assms(1,3,4) True] m(2) show False by simp
  next
    case False
    with assms(5) m sorted_key_le[OF assms(2), of j m] show False by auto
  qed
qed

lemma present_same:
  assumes "passed ty as i bs j" and "keys_sorted ty bs" and "i < length as" and "j < length bs"
    and "elem_key ty (as ! i) = elem_key ty (bs ! j)"
  shows "as ! i \<in> set bs \<longleftrightarrow> as ! i = bs ! j"
proof
  assume "as ! i \<in> set bs"
  then obtain m where m: "m < length bs" "bs ! m = as ! i" by (auto simp: in_set_conv_nth)
  have "\<not> m < j" using passedD[OF assms(1) order_refl assms(3), of m] m(2) by auto
  moreover have "\<not> j < m" using sorted_key_less[OF assms(2), of j m] m assms(5) by auto
  ultimately show "as ! i = bs ! j" using m by (metis nat_neq_iff)
qed (use assms(4) in auto)

lemma next_idx_less: "Suc i < 2 ^ 64 \<Longrightarrow> next_idx i = Suc i"
  by (simp add: next_idx_def)

text \<open>Two trees of which a map or set was made.\<close>

definition comparable :: "(bytes \<Rightarrow> bytes) \<Rightarrow> ChunkType \<Rightarrow> loader \<Rightarrow> ptree \<Rightarrow> bool" where
  "comparable hf ty ld t \<longleftrightarrow> tree_wf hf ty t \<and> stored hf ty ld t \<and> keyed_type ty \<and> keys_sorted ty (elems t)"

lemma comparableD:
  assumes "comparable hf ty ld t"
  shows "tree_wf hf ty t" and "stored hf ty ld t" and "keyed_type ty" and "keys_sorted ty (elems t)"
  using assms by (auto simp: comparable_def)

text \<open>The state of a loop over the elements from \<open>i\<close> and \<open>j\<close> on.\<close>

definition merging :: "(bytes \<Rightarrow> bytes) \<Rightarrow> ChunkType \<Rightarrow> ptree \<Rightarrow> ptree \<Rightarrow> (bytes \<Rightarrow> bool) \<Rightarrow> nat \<Rightarrow> nat \<Rightarrow> nat \<Rightarrow>
    cursor \<Rightarrow> cursor \<Rightarrow> IndexRange list \<Rightarrow> IndexRange \<Rightarrow> bool" where
  "merging hf ty t u W s i j lc rc out cr \<longleftrightarrow> on_element hf ty t i lc \<and> on_element hf ty u j rc \<and>
     i \<le> length (elems t) \<and> j \<le> length (elems u) \<and> passed ty (elems t) i (elems u) j \<and>
     building W s (take i (elems t)) out cr"

lemma merging_ends:
  assumes "comparable hf ty lld t" and "comparable hf ty rld u" and "merging hf ty t u W s i j lc rc out cr"
  shows "isEnd lc = Some (i = length (elems t))" and "isEnd rc = Some (j = length (elems u))"
    and "i \<le> length (elems t)" and "j \<le> length (elems u)"
  using assms on_element_end by (auto simp: merging_def comparable_def)

lemma merging_compare:
  assumes "comparable hf ty lld t" and "comparable hf ty rld u" and "merging hf ty t u W s i j lc rc out cr"
    and "i < length (elems t)" and "j < length (elems u)"
  shows "compare_elements OrderedKeyTrait lc x rc y = Some
    (let a = elems t ! i; b = elems u ! j in
     if elem_key ty b < elem_key ty a then LhsGreater
     else if elem_key ty a = elem_key ty b then SameKey (a = b) else LhsLess)"
  using compare_on_elements[OF comparableD(1)[OF assms(1)] _ assms(4) comparableD(1)[OF assms(2)] _ assms(5) comparableD(3)[OF assms(1)]]
    assms(3) by (simp add: merging_def)

lemma merging_right:
  assumes "comparable hf ty lld t" and "comparable hf ty rld u" and "merging hf ty t u W s i j lc rc out cr"
    and "i < length (elems t)" and "j < length (elems u)" and "elem_key ty (elems u ! j) < elem_key ty (elems t ! i)"
  shows "\<exists>b rc'. Advance rld True rc = Some (b, rc') \<and> merging hf ty t u W s i (Suc j) lc rc' out cr"
  using on_element_advance[OF comparableD(1,2)[OF assms(2)], of j rc] passed_right[OF _ comparableD(4)[OF assms(1)], of i "elems u" j]
    assms(3-6) by (auto simp: merging_def)

lemma building_next:
  assumes "building W s (take i es) out cr" and "i < length es"
  shows "W (es ! i) \<Longrightarrow> building W s (take (Suc i) es) out (range_grow (s + i) cr)"
    and "\<not> W (es ! i) \<Longrightarrow> building W s (take (Suc i) es) (fst (range_close out cr)) (snd (range_close out cr))"
  using building_hit[OF assms(1), of "es ! i"] building_miss[OF assms(1), of "es ! i"] assms(2)
  by (simp_all add: take_Suc_conv_app_nth)

lemma merging_left:
  assumes "comparable hf ty lld t" and "merging hf ty t u W s i j lc rc out cr" and "i < length (elems t)"
  shows "\<exists>lc'. Advance lld True lc = Some (Suc i < length (elems t), lc') \<and>
    (W (elems t ! i) \<longrightarrow> merging hf ty t u W s (Suc i) j lc' rc out (range_grow (s + i) cr)) \<and>
    (\<not> W (elems t ! i) \<longrightarrow> merging hf ty t u W s (Suc i) j lc' rc (fst (range_close out cr)) (snd (range_close out cr)))"
  using on_element_advance[OF comparableD(1,2)[OF assms(1)], of i lc] building_next[of W s i "elems t" out cr] passed_left
    assms(2-3) by (auto simp: merging_def)

lemma merging_both:
  assumes "comparable hf ty lld t" and "comparable hf ty rld u" and "merging hf ty t u W s i j lc rc out cr"
    and "i < length (elems t)" and "j < length (elems u)" and "elem_key ty (elems t ! i) = elem_key ty (elems u ! j)"
  shows "\<exists>b c lc' rc'. Advance lld True lc = Some (b, lc') \<and> Advance rld True rc = Some (c, rc') \<and>
    (W (elems t ! i) \<longrightarrow> merging hf ty t u W s (Suc i) (Suc j) lc' rc' out (range_grow (s + i) cr)) \<and>
    (\<not> W (elems t ! i) \<longrightarrow> merging hf ty t u W s (Suc i) (Suc j) lc' rc' (fst (range_close out cr)) (snd (range_close out cr)))"
  using on_element_advance[OF comparableD(1,2)[OF assms(1)], of i lc] on_element_advance[OF comparableD(1,2)[OF assms(2)], of j rc]
    building_next[of W s i "elems t" out cr] passed_both[OF _ comparableD(4)[OF assms(1)], of i "elems u" j] assms(3-6)
  by (auto simp: merging_def)

lemma merging_absent:
  assumes "comparable hf ty rld u" and "merging hf ty t u W s i j lc rc out cr"
    and "i \<le> k" and "k < length (elems t)" and "j < length (elems u) \<Longrightarrow> elem_key ty (elems t ! k) < elem_key ty (elems u ! j)"
  shows "elems t ! k \<notin> set (elems u)"
  using absent_less[OF _ comparableD(4)[OF assms(1)] assms(3-5)] assms(2) by (simp add: merging_def)

lemma merging_present:
  assumes "comparable hf ty rld u" and "merging hf ty t u W s i j lc rc out cr"
    and "i < length (elems t)" and "j < length (elems u)" and "elem_key ty (elems t ! i) = elem_key ty (elems u ! j)"
  shows "elems t ! i \<in> set (elems u) \<longleftrightarrow> elems t ! i = elems u ! j"
  using present_same[OF _ comparableD(4)[OF assms(1)] assms(3-5)] assms(2) by (simp add: merging_def)

lemma merging_close:
  assumes "merging hf ty t u W s i j lc rc out cr" and "\<And>k. i \<le> k \<Longrightarrow> k < length (elems t) \<Longrightarrow> \<not> W (elems t ! k)"
  shows "covers W s (elems t) (fst (range_close out cr))"
proof -
  have "building W s (take i (elems t)) out cr" using assms(1) by (simp add: merging_def)
  moreover have "\<not> W e" if e: "e \<in> set (drop i (elems t))" for e
  proof -
    obtain k where "k < length (drop i (elems t))" "drop i (elems t) ! k = e" using e by (meson in_set_conv_nth)
    with assms(2)[of "i + k"] show ?thesis by simp
  qed
  ultimately have "covers W s (take i (elems t) @ drop i (elems t)) (fst (range_close out cr))"
    by (rule building_misses)
  then show ?thesis by simp
qed

lemma intersect_loop_covers:
  assumes "comparable hf ty lld t" and "comparable hf ty rld u" and "s + length (elems t) < 2 ^ 64"
    and "merging hf ty t u (\<lambda>e. e \<in> set (elems u)) s i j lc rc out cr"
  shows "\<exists>res. intersect_loop OrderedKeyTrait lld rld lc (s + i) rc y cr out = Some res \<and>
    covers (\<lambda>e. e \<in> set (elems u)) s (elems t) res"
  using assms(4)
proof (induction "length (elems t) + length (elems u) - (i + j)" arbitrary: i j lc rc y out cr rule: less_induct)
  case less
  let ?W = "\<lambda>e. e \<in> set (elems u)"
  note m = less.prems and ends = merging_ends[OF assms(1,2) less.prems]
  show ?case
  proof (cases "i = length (elems t) \<or> j = length (elems u)")
    case True
    then have "covers ?W s (elems t) (fst (range_close out cr))"
      by (intro merging_close[OF m]) (use merging_absent[OF assms(2) m] in auto)
    with True ends show ?thesis by (subst intersect_loop.simps) simp
  next
    case False
    then have i: "i < length (elems t)" and j: "j < length (elems u)" using ends by auto
    let ?a = "elems t ! i" and ?b = "elems u ! j"
    note cmp = merging_compare[OF assms(1,2) m i j]
    have ni: "next_idx (s + i) = s + Suc i" using assms(3) i next_idx_less[of "s + i"] by simp
    consider (gt) "elem_key ty ?b < elem_key ty ?a" | (eq) "elem_key ty ?a = elem_key ty ?b" | (lt) "elem_key ty ?a < elem_key ty ?b"
      by (rule linorder_cases)
    then show ?thesis
    proof cases
      case gt
      obtain c rc' where r: "Advance rld True rc = Some (c, rc')" "merging hf ty t u ?W s i (Suc j) lc rc' out cr"
        using merging_right[OF assms(1,2) m i j gt] by blast
      from less.hyps[OF _ r(2)] i j show ?thesis
        using ends cmp r(1) gt by (subst intersect_loop.simps) (simp add: Let_def)
    next
      case eq
      obtain b c lc' rc' where lr: "Advance lld True lc = Some (b, lc')" "Advance rld True rc = Some (c, rc')"
        "?W ?a \<Longrightarrow> merging hf ty t u ?W s (Suc i) (Suc j) lc' rc' out (range_grow (s + i) cr)"
        "\<not> ?W ?a \<Longrightarrow> merging hf ty t u ?W s (Suc i) (Suc j) lc' rc' (fst (range_close out cr)) (snd (range_close out cr))"
        using merging_both[OF assms(1,2) m i j eq] by blast
      from merging_present[OF assms(2) m i j eq] less.hyps[OF _ lr(3)] less.hyps[OF _ lr(4)] i j show ?thesis
        using ends cmp lr(1,2) eq ni by (cases "?a = ?b"; subst intersect_loop.simps) (simp_all add: Let_def)
    next
      case lt
      have "\<not> ?W ?a" using merging_absent[OF assms(2) m order_refl i] lt by simp
      then obtain b lc' where l: "Advance lld True lc = Some (b, lc')"
        "merging hf ty t u ?W s (Suc i) j lc' rc (fst (range_close out cr)) (snd (range_close out cr))"
        using merging_left[OF assms(1) m i] by blast
      from less.hyps[OF _ l(2)] i j show ?thesis
        using ends cmp l(1) lt ni by (subst intersect_loop.simps) (auto simp: Let_def)
    qed
  qed
qed

lemma diff_rest_grows:
  assumes "comparable hf ty lld t" and "merging hf ty t u W s i j lc rc out cr" and "i < length (elems t)"
    and "\<And>k. i \<le> k \<Longrightarrow> k < length (elems t) \<Longrightarrow> W (elems t ! k)"
    and "num_subsequent cr = 0 \<Longrightarrow> start_idx cr = s + i"
  shows "\<exists>cr' lc'. diff_rest lld lc cr = Some cr' \<and> merging hf ty t u W s (length (elems t)) j lc' rc out cr'"
  using assms(2-)
proof (induction "length (elems t) - i" arbitrary: i lc cr rule: less_induct)
  case less
  let ?cr = "cr\<lparr>num_subsequent := num_subsequent cr + 1\<rparr>"
  have g: "range_grow (s + i) cr = ?cr" using less.prems(4) by (cases cr) (auto simp: range_grow_def)
  obtain lc' where l: "Advance lld True lc = Some (Suc i < length (elems t), lc')"
    "merging hf ty t u W s (Suc i) j lc' rc out ?cr"
    using merging_left[OF assms(1) less.prems(1,2)] less.prems(3)[OF order_refl less.prems(2)] g by auto
  show ?case
  proof (cases "Suc i < length (elems t)")
    case True
    from less.hyps[OF _ l(2) True] less.prems(3) True l(1) show ?thesis by (subst diff_rest.simps) simp
  next
    case False
    then have "Suc i = length (elems t)" using less.prems(2) by simp
    with l show ?thesis by (subst diff_rest.simps) auto
  qed
qed

lemma diff_loop_covers:
  assumes "comparable hf ty lld t" and "comparable hf ty rld u" and "s + length (elems t) < 2 ^ 64"
    and "merging hf ty t u (\<lambda>e. e \<notin> set (elems u)) s i j lc rc out cr"
  shows "\<exists>res. diff_loop OrderedKeyTrait lld rld lc (s + i) rc y cr out = Some res \<and>
    covers (\<lambda>e. e \<notin> set (elems u)) s (elems t) res"
  using assms(4)
proof (induction "length (elems t) + length (elems u) - (i + j)" arbitrary: i j lc rc y out cr rule: less_induct)
  case less
  let ?W = "\<lambda>e. e \<notin> set (elems u)"
  note m = less.prems and ends = merging_ends[OF assms(1,2) less.prems]
  consider (left) "i = length (elems t)" | (rest) "i < length (elems t)" "j = length (elems u)"
    | (more) "i < length (elems t)" "j < length (elems u)" using ends by linarith
  then show ?case
  proof cases
    case left
    then have "covers ?W s (elems t) (fst (range_close out cr))" by (intro merging_close[OF m]) auto
    with left ends show ?thesis by (subst diff_loop.simps) simp
  next
    case rest
    define cr0 where "cr0 = (if num_subsequent cr = 0 then \<lparr>start_idx = s + i, num_subsequent = 0\<rparr> else cr)"
    have "merging hf ty t u ?W s i j lc rc out cr0" using m by (simp add: merging_def building_def cr0_def)
    moreover have "?W (elems t ! k)" if "i \<le> k" "k < length (elems t)" for k
      using merging_absent[OF assms(2) m that] rest by simp
    moreover have "num_subsequent cr0 = 0 \<Longrightarrow> start_idx cr0 = s + i" by (auto simp: cr0_def split: if_splits)
    ultimately obtain cr' lc' where c: "diff_rest lld lc cr0 = Some cr'"
      "merging hf ty t u ?W s (length (elems t)) j lc' rc out cr'"
      using diff_rest_grows[OF assms(1) _ rest(1), of u ?W s j lc rc out cr0] by auto
    then have "covers ?W s (elems t) (fst (range_close out cr'))" by (intro merging_close[OF c(2)]) auto
    with c(1) rest ends show ?thesis by (subst diff_loop.simps) (simp add: cr0_def)
  next
    case more
    let ?a = "elems t ! i" and ?b = "elems u ! j"
    note i = more(1) and j = more(2) and cmp = merging_compare[OF assms(1,2) m more]
    have ni: "next_idx (s + i) = s + Suc i" using assms(3) i next_idx_less[of "s + i"] by simp
    consider (gt) "elem_key ty ?b < elem_key ty ?a" | (eq) "elem_key ty ?a = elem_key ty ?b" | (lt) "elem_key ty ?a < elem_key ty ?b"
      by (rule linorder_cases)
    then show ?thesis
    proof cases
      case gt
      obtain c rc' where r: "Advance rld True rc = Some (c, rc')" "merging hf ty t u ?W s i (Suc j) lc rc' out cr"
        using merging_right[OF assms(1,2) m i j gt] by blast
      from less.hyps[OF _ r(2)] i j show ?thesis
        using ends cmp r(1) gt by (subst diff_loop.simps) (simp add: Let_def)
    next
      case eq
      obtain b c lc' rc' where lr: "Advance lld True lc = Some (b, lc')" "Advance rld True rc = Some (c, rc')"
        "?W ?a \<Longrightarrow> merging hf ty t u ?W s (Suc i) (Suc j) lc' rc' out (range_grow (s + i) cr)"
        "\<not> ?W ?a \<Longrightarrow> merging hf ty t u ?W s (Suc i) (Suc j) lc' rc' (fst (range_close out cr)) (snd (range_close out cr))"
        using merging_both[OF assms(1,2) m i j eq] by blast
      from merging_present[OF assms(2) m i j eq] less.hyps[OF _ lr(3)] less.hyps[OF _ lr(4)] i j show ?thesis
        using ends cmp lr(1,2) eq ni by (cases "?a = ?b"; subst diff_loop.simps) (simp_all add: Let_def)
    next
      case lt
      have "?W ?a" using merging_absent[OF assms(2) m order_refl i] lt by simp
      then obtain b lc' where l: "Advance lld True lc = Some (b, lc')"
        "merging hf ty t u ?W s (Suc i) j lc' rc out (range_grow (s + i) cr)"
        using merging_left[OF assms(1) m i] by blast
      from less.hyps[OF _ l(2)] i j show ?thesis
        using ends cmp l(1) lt ni by (subst diff_loop.simps) (auto simp: Let_def)
    qed
  qed
qed

section \<open>The smallest overlapping node\<close>

text \<open>A node of the right tree that holds every element between the bounds.\<close>

definition overlaps :: "(bytes \<Rightarrow> bytes) \<Rightarrow> ChunkType \<Rightarrow> loader \<Rightarrow> bytes \<Rightarrow> bytes \<Rightarrow> ptree \<Rightarrow> ptree \<Rightarrow> bool" where
  "overlaps hf ty ld lo up t t' \<longleftrightarrow> comparable hf ty ld t' \<and> set (elems t') \<subseteq> set (elems t) \<and>
     set (tree_chunks hf ty t') \<subseteq> set (tree_chunks hf ty t) \<and>
     (\<forall>e \<in> set (elems t). lo < elem_key ty e \<and> elem_key ty e \<le> up \<longrightarrow> e \<in> set (elems t'))"

lemma overlaps_refl: "comparable hf ty ld t \<Longrightarrow> overlaps hf ty ld lo up t t"
  by (simp add: overlaps_def)

lemma comparable_nth:
  assumes "comparable hf ty ld (PNode ts)" and "i < length ts"
  shows "comparable hf ty ld (ts ! i)" and "elems (ts ! i) \<noteq> []"
proof -
  have "concat (map elems ts) = concat (map elems (take i ts)) @ elems (ts ! i) @ concat (map elems (drop (Suc i) ts))"
    using id_take_nth_drop[OF assms(2)] by (metis concat.simps(2) concat_append list.simps(9) map_append)
  then have "keys_sorted ty (elems (ts ! i))"
    using comparableD(4)[OF assms(1)] by (simp add: keys_sorted_def sorted_wrt_append)
  then show "comparable hf ty ld (ts ! i)"
    using tree_wf_nth(1)[OF comparableD(1)[OF assms(1)] assms(2)] stored_nth[OF comparableD(2)[OF assms(1)] assms(2)]
      comparableD(3)[OF assms(1)] by (simp add: comparable_def)
  show "elems (ts ! i) \<noteq> []" by (rule tree_wf_nth(2)[OF comparableD(1)[OF assms(1)] assms(2)])
qed

lemma sorted_last_le:
  assumes "keys_sorted ty es" and "e \<in> set es"
  shows "elem_key ty e \<le> elem_key ty (last es)"
proof -
  obtain i where i: "i < length es" "es ! i = e" using assms(2) by (meson in_set_conv_nth)
  then have "last es = es ! (length es - 1)" by (intro last_conv_nth) auto
  with sorted_key_le[OF assms(1), of i "length es - 1"] i show ?thesis by simp
qed

lemma children_less:
  assumes "keys_sorted ty (elems (PNode ts))" and "i < j" and "j < length ts" and "a \<in> set (elems (ts ! i))" and "b \<in> set (elems (ts ! j))"
  shows "elem_key ty a < elem_key ty b"
proof -
  have "sorted_wrt (\<lambda>a b. elem_key ty a < elem_key ty b) (concat (map elems (take j ts)) @ concat (map elems (drop j ts)))"
    using assms(1) by (simp add: keys_sorted_def flip: concat_append map_append)
  moreover have "ts ! i \<in> set (take j ts)" using assms(2,3) by (auto simp: in_set_conv_nth)
  then have "a \<in> set (concat (map elems (take j ts)))" using assms(4) by auto
  moreover have "b \<in> set (concat (map elems (drop j ts)))"
    using assms(3,5) by (auto simp flip: Cons_nth_drop_Suc)
  ultimately show ?thesis by (auto simp: sorted_wrt_append)
qed

lemma child_entry_reads:
  assumes "comparable hf ty ld (PNode ts)" and "i < length ts"
  shows "\<exists>me. node_data (tree_node hf ty (PNode ts)) i = Some me \<and>
    MetaEntry_numElements me = Some (length (elems (ts ! i))) \<and>
    MetaEntry_targetHash me = Some (tree_hash hf ty (ts ! i)) \<and>
    MetaEntry_orderedKey me = Some (KeyData (elem_key ty (last (elems (ts ! i)))))"
proof -
  note c = comparableD[OF assms(1)] and ok = child_me_ok[OF comparableD(1)[OF assms(1)] assms(2)]
  have "node_data (tree_node hf ty (PNode ts)) i = Some (concat (drop i (root_entries hf ty (PNode ts))))"
    using tree_node_rep[OF c(1)] assms(2) by (simp add: node_rep_def del: tree_node.simps)
  with drop_concat_entry[of i "root_entries hf ty (PNode ts)"] assms(2)
  obtain rest where "node_data (tree_node hf ty (PNode ts)) i = Some (me_bytes (tree_me hf ty (ts ! i)) @ rest)" by auto
  moreover have "me_key (tree_me hf ty (ts ! i)) = KeyData (elem_key ty (last (elems (ts ! i))))"
    using tree_key[OF tree_wf_nth(1,2)[OF c(1) assms(2)]] c(3) entry_key_data by simp
  ultimately show ?thesis using ok by (simp add: codec)
qed

lemma load_comparable:
  assumes "comparable hf ty ld t"
  shows "\<exists>c. ld (tree_hash hf ty t) = Some c \<and> CreateFromChunk c = Some (tree_node hf ty t)"
  using stored_root[OF comparableD(2)[OF assms]] CreateFromChunk_tree[OF comparableD(1)[OF assms]] by blast

lemma key_ge_data [simp]: "key_ge (KeyData a) (KeyData b) = Some (b \<le> a)"
  by (auto simp: key_ge_def slice_eq_def memcmp_eq_0)

text \<open>Passing to a child that reaches the upper bound, or to the last one, loses nothing.\<close>

lemma overlaps_child:
  assumes "comparable hf ty ld (PNode ts)" and "i < length ts" and "overlaps hf ty ld lo up (ts ! i) t'"
    and "0 < i \<Longrightarrow> elem_key ty (last (elems (ts ! (i - 1)))) \<le> lo"
    and "Suc i \<noteq> length ts \<Longrightarrow> up \<le> elem_key ty (last (elems (ts ! i)))"
  shows "overlaps hf ty ld lo up (PNode ts) t'"
proof -
  note srt = comparableD(4)[OF assms(1)]
  have "e \<in> set (elems (ts ! i))" if e: "e \<in> set (elems (PNode ts))" "lo < elem_key ty e" "elem_key ty e \<le> up" for e
  proof -
    obtain u where "u \<in> set ts" "e \<in> set (elems u)" using e(1) by auto
    then obtain c where c: "c < length ts" "e \<in> set (elems (ts ! c))" by (metis in_set_conv_nth)
    have "\<not> c < i"
    proof
      assume "c < i"
      then have "c \<le> i - 1" "i - 1 < length ts" using assms(2) by auto
      then have "elem_key ty e \<le> elem_key ty (last (elems (ts ! (i - 1))))"
        using sorted_last_le[OF comparableD(4)[OF comparable_nth(1)[OF assms(1) c(1)]] c(2)]
          children_less[OF srt, of c "i - 1" e "last (elems (ts ! (i - 1)))"] c(2) comparable_nth(2)[OF assms(1), of "i - 1"]
        by (cases "c = i - 1") auto
      then show False using assms(4) \<open>c < i\<close> e(2) by auto
    qed
    moreover have "\<not> i < c"
      using children_less[OF srt, of i c "last (elems (ts ! i))" e] c comparable_nth(2)[OF assms(1,2)] assms(5) e(3) by auto
    ultimately show ?thesis using c(2) by (metis nat_neq_iff)
  qed
  moreover have "set (elems (ts ! i)) \<subseteq> set (elems (PNode ts))" using nth_mem[OF assms(2)] by auto
  moreover note tree_chunks_child[OF nth_mem[OF assms(2)], of hf ty]
  ultimately show ?thesis using assms(3) unfolding overlaps_def by blast
qed

lemma isLeaf_PNode: "isLeaf (tree_node hf ty (PNode ts)) = False"
  by simp

text \<open>The steps of the loop over the entries of a node.\<close>

definition lower_at :: "ChunkType \<Rightarrow> ptree list \<Rightarrow> nat \<Rightarrow> OrderedKey option" where
  "lower_at ty ts i = (if i = 0 then None else Some (KeyData (elem_key ty (last (elems (ts ! (i - 1)))))))"

lemma lower_not_above:
  "0 < i \<longrightarrow> elem_key ty (last (elems (ts ! (i - 1)))) \<le> lo \<Longrightarrow>
   (case lower_at ty ts i of None \<Rightarrow> Some False | Some k \<Rightarrow> key_greater k (KeyData lo)) = Some False"
  by (auto simp: lower_at_def)

lemma overlap_loop_deep:
  assumes "comparable hf ty ld (PNode ts)" and "i < length ts" and "0 < i \<longrightarrow> elem_key ty (last (elems (ts ! (i - 1)))) \<le> lo"
    and "Suc i = length ts \<or> up \<le> elem_key ty (last (elems (ts ! i)))"
  shows "overlap_loop OrderedKeyTrait ld (KeyData lo) (KeyData up) (tree_node hf ty (PNode ts)) s (length ts) i x (lower_at ty ts i) =
    SmallestOverlap OrderedKeyTrait ld (KeyData lo) (KeyData up) (tree_node hf ty (ts ! i)) x"
proof -
  have "(if i = length ts - 1 then Some True else key_ge (KeyData (elem_key ty (last (elems (ts ! i))))) (KeyData up)) = Some True"
    using assms(2,4) by auto
  with child_entry_reads[OF assms(1,2)] load_comparable[OF comparable_nth(1)[OF assms(1,2)]] lower_not_above[OF assms(3)] assms(2)
  show ?thesis
    by (subst overlap_loop.simps) (auto simp: SmallestOverlap_def trait_MaxKey_entry_def simp del: tree_node.simps key_ge_data)
qed

lemma overlap_loop_more:
  assumes "comparable hf ty ld (PNode ts)" and "i < length ts" and "0 < i \<longrightarrow> elem_key ty (last (elems (ts ! (i - 1)))) \<le> lo"
    and "Suc i < length ts" and "\<not> up \<le> elem_key ty (last (elems (ts ! i)))"
  shows "overlap_loop OrderedKeyTrait ld (KeyData lo) (KeyData up) (tree_node hf ty (PNode ts)) s (length ts) i x (lower_at ty ts i) =
    overlap_loop OrderedKeyTrait ld (KeyData lo) (KeyData up) (tree_node hf ty (PNode ts)) s (length ts) (Suc i)
      ((x + length (elems (ts ! i))) mod 2 ^ 64) (lower_at ty ts (Suc i))"
proof -
  have "(if i = length ts - 1 then Some True else key_ge (KeyData (elem_key ty (last (elems (ts ! i))))) (KeyData up)) = Some False"
    using assms(4,5) by auto
  with child_entry_reads[OF assms(1,2)] lower_not_above[OF assms(3)] assms(2) show ?thesis
    by (subst overlap_loop.simps) (auto simp: lower_at_def[of _ _ "Suc i"] trait_MaxKey_entry_def simp del: tree_node.simps key_ge_data)
qed

lemma overlap_loop_overlaps:
  assumes "comparable hf ty ld (PNode ts)"
    and IH: "\<And>i s. i < length ts \<Longrightarrow>
      \<exists>t' s'. SmallestOverlap OrderedKeyTrait ld (KeyData lo) (KeyData up) (tree_node hf ty (ts ! i)) s = Some (tree_node hf ty t', s') \<and>
        overlaps hf ty ld lo up (ts ! i) t'"
    and "i \<le> length ts"
    and "lower = lower_at ty ts i"
  shows "\<exists>t' s'. overlap_loop OrderedKeyTrait ld (KeyData lo) (KeyData up) (tree_node hf ty (PNode ts)) s (length ts) i x lower =
    Some (tree_node hf ty t', s') \<and> overlaps hf ty ld lo up (PNode ts) t'"
  using assms(3,4)
proof (induction "length ts - i" arbitrary: i x lower rule: less_induct)
  case less
  let ?nd = "tree_node hf ty (PNode ts)" and ?last = "\<lambda>i. elem_key ty (last (elems (ts ! i)))"
  note self = overlaps_refl[OF assms(1), of lo up]
  consider (out) "length ts \<le> i" | (stop) "i < length ts" "0 < i" "lo < ?last (i - 1)"
    | (deep) "i < length ts" "0 < i \<longrightarrow> ?last (i - 1) \<le> lo" "Suc i = length ts \<or> up \<le> ?last i"
    | (more) "i < length ts" "0 < i \<longrightarrow> ?last (i - 1) \<le> lo" "Suc i < length ts" "\<not> up \<le> ?last i"
    by (meson not_less Suc_leI le_neq_implies_less)
  then show ?case
  proof cases
    case out
    then have "overlap_loop OrderedKeyTrait ld (KeyData lo) (KeyData up) ?nd s (length ts) i x lower = Some (?nd, s)"
      by (subst overlap_loop.simps) simp
    with self show ?thesis by blast
  next
    case stop
    with child_entry_reads[OF assms(1) stop(1)] less.prems(2)[unfolded lower_at_def]
    have "overlap_loop OrderedKeyTrait ld (KeyData lo) (KeyData up) ?nd s (length ts) i x lower = Some (?nd, s)"
      by (subst overlap_loop.simps) (auto simp del: tree_node.simps)
    with self show ?thesis by blast
  next
    case deep
    obtain t' s' where o: "SmallestOverlap OrderedKeyTrait ld (KeyData lo) (KeyData up) (tree_node hf ty (ts ! i)) x = Some (tree_node hf ty t', s')"
      "overlaps hf ty ld lo up (ts ! i) t'" using IH[OF deep(1)] by blast
    have "overlaps hf ty ld lo up (PNode ts) t'" using overlaps_child[OF assms(1) deep(1) o(2)] deep by blast
    with overlap_loop_deep[OF assms(1) deep, folded less.prems(2)] o(1) show ?thesis by metis
  next
    case more
    note step = overlap_loop_more[OF assms(1) more, folded less.prems(2)]
    have "length ts - Suc i < length ts - i" using more(1) by simp
    from less.hyps[OF this] more(3) show ?thesis unfolding step by simp
  qed
qed

lemma SmallestOverlap_overlaps:
  assumes "comparable hf ty ld t"
  shows "\<exists>t' s'. SmallestOverlap OrderedKeyTrait ld (KeyData lo) (KeyData up) (tree_node hf ty t) s = Some (tree_node hf ty t', s') \<and>
    overlaps hf ty ld lo up t t'"
  using assms
proof (induction t arbitrary: s)
  case (PLeaf es)
  then have "isLeaf (tree_node hf ty (PLeaf es))"
    using tree_node_isLeaf[OF tree_wf_leaf_type[OF comparableD(1)], of hf ty ld "PLeaf es" hf "PLeaf es"] by simp
  then have "SmallestOverlap OrderedKeyTrait ld (KeyData lo) (KeyData up) (tree_node hf ty (PLeaf es)) s =
      Some (tree_node hf ty (PLeaf es), s)" by (simp only: SmallestOverlap_def if_True)
  with overlaps_refl[OF PLeaf] show ?case by blast
next
  case (PNode ts)
  have n: "numEntries (tree_node hf ty (PNode ts)) = Some (length ts)"
    using tree_node_numEntries[OF comparableD(1)[OF PNode.prems]] by simp
  have "\<exists>t' s'. overlap_loop OrderedKeyTrait ld (KeyData lo) (KeyData up) (tree_node hf ty (PNode ts)) s (length ts) 0 s None =
      Some (tree_node hf ty t', s') \<and> overlaps hf ty ld lo up (PNode ts) t'"
    by (rule overlap_loop_overlaps[OF PNode.prems]) (use PNode.IH comparable_nth(1)[OF PNode.prems] in \<open>auto simp: lower_at_def\<close>)
  with n show ?case by (simp add: SmallestOverlap_def del: tree_node.simps) simp
qed

section \<open>The comparison\<close>

lemma MaxKey_tree:
  assumes "comparable hf ty ld t" and "elems t \<noteq> []"
  shows "trait_MaxKey_node OrderedKeyTrait (tree_node hf ty t) s = Some (KeyData (elem_key ty (last (elems t))))"
proof (cases t)
  case (PLeaf es)
  note c = comparableD[OF assms(1)]
  have ne: "es \<noteq> []" and ok: "leaf_ok ty es" and small: "length es < 2 ^ 31" using PLeaf assms(2) c(1) by auto
  then have n: "length es - 1 < length es" "sub64 (length es) 1 = length es - 1" by (auto simp: sub64_def Suc_le_eq)
  have "node_key (leaf_node ty es) (length es - 1) = Some (entry_key ty (last es))"
    using c(3) ok n(1) ne
    by (auto simp: keyed_type_def leaf_ok_def leaf_fits_def MapNode_parsed(3) SetNode_parsed(3) last_conv_nth)
  with tree_node_numEntries[OF c(1)] PLeaf n entry_key_data[OF c(3)] show ?thesis
    by (simp add: trait_MaxKey_node_def)
next
  case (PNode ts)
  note c = comparableD[OF assms(1)[unfolded PNode]] and ok = tree_wf_node[OF comparableD(1)[OF assms(1)[unfolded PNode]]]
  have i: "length ts - 1 < length ts" "sub64 (length ts) 1 = length ts - 1" using ok(1,2) by (auto simp: sub64_def Suc_le_eq)
  note key = tree_key[OF c(1)] 
  have "me_key (tree_me hf ty (ts ! (length ts - 1))) = me_key (tree_me hf ty (PNode ts))"
    using ok(1) by (simp add: meta_me_def last_map last_conv_nth)
  with key assms(2) PNode c(3) entry_key_data[OF c(3)]
  have "node_key (tree_node hf ty (PNode ts)) (length ts - 1) = Some (KeyData (elem_key ty (last (elems t))))"
    using MetaNode_entry_eq(2)[OF ok(3), of "length ts - 1"] i(1) by simp
  with tree_node_numEntries[OF c(1)] i(2) PNode show ?thesis
    by (simp add: trait_MaxKey_node_def del: tree_node.simps node_key.simps)
qed

text \<open>What a traverser promises for the left elements that it wants, given the right ones.\<close>

locale key_traverser =
  fixes hf :: "bytes \<Rightarrow> bytes" and ty :: ChunkType and lld :: loader and rld :: loader
    and trav :: "IndexRange traverser" and wanted :: "bytes set \<Rightarrow> bytes \<Rightarrow> bool"
  assumes identical: "tree_wf hf ty t \<Longrightarrow> elems t \<noteq> [] \<Longrightarrow>
      \<exists>out. IdenticalHashes trav (tree_node hf ty t) s (tree_node hf ty t) s' = Some out \<and>
        covers (wanted (set (elems t))) s (elems t) out"
    and iterate: "comparable hf ty lld t \<Longrightarrow> comparable hf ty rld u \<Longrightarrow> s + length (elems t) < 2 ^ 64 \<Longrightarrow>
      \<exists>out. IterateLeaves trav (tree_node hf ty t) s lld (tree_node hf ty u) s' rld = Some out \<and>
        covers (wanted (set (elems u))) s (elems t) out"
    and local: "(e \<in> S \<longleftrightarrow> e \<in> S') \<Longrightarrow> wanted S e = wanted S' e"
begin

lemma compare_node:
  assumes "comparable hf ty lld t" and "comparable hf ty rld u" and "elems t \<noteq> []"
    and "inj_on hf C" and "set (tree_chunks hf ty t) \<subseteq> C" and "set (tree_chunks hf ty u) \<subseteq> C"
  shows "\<exists>u' s''. overlaps hf ty rld lo (elem_key ty (last (elems t))) u u' \<and>
    compare_rec hf OrderedKeyTrait trav lld rld (Inl (tree_node hf ty t, s, KeyData lo, tree_node hf ty u, s')) =
      (if t = u' then IdenticalHashes trav (tree_node hf ty t) s (tree_node hf ty t) s''
       else if height t = 0 \<or> height u' = 0 then IterateLeaves trav (tree_node hf ty t) s lld (tree_node hf ty u') s'' rld
       else compare_rec hf OrderedKeyTrait trav lld rld
         (Inr ([0..<length (root_entries hf ty t)], tree_node hf ty t, s, KeyData lo, tree_node hf ty u', s'')))"
proof -
  obtain u' s'' where u': "SmallestOverlap OrderedKeyTrait rld (KeyData lo) (KeyData (elem_key ty (last (elems t))))
      (tree_node hf ty u) s' = Some (tree_node hf ty u', s'')" "overlaps hf ty rld lo (elem_key ty (last (elems t))) u u'"
    using SmallestOverlap_overlaps[OF assms(2)] by blast
  have wf: "tree_wf hf ty t" "tree_wf hf ty u'" and sub: "set (tree_chunks hf ty u') \<subseteq> C"
    using comparableD(1)[OF assms(1)] u'(2) assms(6) by (auto simp: overlaps_def comparable_def)
  have "tree_hash hf ty t = tree_hash hf ty u' \<longleftrightarrow> t = u'"
    using same_hash_same_tree[OF wf assms(4,5) sub] by blast
  moreover have "isLeaf (tree_node hf ty t) \<longleftrightarrow> height t = 0" "isLeaf (tree_node hf ty u') \<longleftrightarrow> height u' = 0"
    using tree_node_isLeaf[OF tree_wf_leaf_type[OF wf(1)]] by blast+
  ultimately have "compare_rec hf OrderedKeyTrait trav lld rld (Inl (tree_node hf ty t, s, KeyData lo, tree_node hf ty u, s')) =
      (if t = u' then IdenticalHashes trav (tree_node hf ty t) s (tree_node hf ty t) s''
       else if height t = 0 \<or> height u' = 0 then IterateLeaves trav (tree_node hf ty t) s lld (tree_node hf ty u') s'' rld
       else compare_rec hf OrderedKeyTrait trav lld rld
         (Inr ([0..<length (root_entries hf ty t)], tree_node hf ty t, s, KeyData lo, tree_node hf ty u', s'')))"
    using MaxKey_tree[OF assms(1,3)] u'(1) node_hash_tree[OF wf(1)] node_hash_tree[OF wf(2)] tree_node_numEntries[OF wf(1)]
    by (subst compare_rec.simps) (simp del: tree_node.simps)
  with u'(2) show ?thesis by blast
qed

lemma compare_children:
  assumes "comparable hf ty lld (PNode ts)" and "comparable hf ty rld u"
    and "\<forall>e \<in> set (elems (PNode ts)). lo < elem_key ty e"
    and IH: "\<And>i s lo s'. i < length ts \<Longrightarrow> \<forall>e \<in> set (elems (ts ! i)). lo < elem_key ty e \<Longrightarrow>
      s + length (elems (ts ! i)) < 2 ^ 64 \<Longrightarrow>
      \<exists>out. compare_rec hf OrderedKeyTrait trav lld rld
          (Inl (tree_node hf ty (ts ! i), s, KeyData lo, tree_node hf ty u, s')) = Some out \<and>
        covers (wanted (set (elems u))) s (elems (ts ! i)) out"
    and "s + length (elems (PNode ts)) < 2 ^ 64" and "i \<le> length ts"
  shows "\<exists>out. compare_rec hf OrderedKeyTrait trav lld rld
      (Inr ([i..<length ts], tree_node hf ty (PNode ts), s + before ts i,
        KeyData (if i = 0 then lo else elem_key ty (last (elems (ts ! (i - 1))))), tree_node hf ty u, s')) = Some out \<and>
    covers (wanted (set (elems u))) (s + before ts i) (concat (map elems (drop i ts))) out"
  using assms(6)
proof (induction "length ts - i" arbitrary: i rule: less_induct)
  case less
  show ?case
  proof (cases "i = length ts")
    case True
    then show ?thesis
      by (subst compare_rec.simps) (simp add: covers_def in_order_def ranges_set_def)
  next
    case False
    then have i: "i < length ts" using less.prems by simp
    let ?lo = "if i = 0 then lo else elem_key ty (last (elems (ts ! (i - 1))))"
    note ci = comparable_nth[OF assms(1) i]
    have lo: "\<forall>e \<in> set (elems (ts ! i)). ?lo < elem_key ty e"
    proof (cases "i = 0")
      case True
      with assms(3) nth_mem[OF i] show ?thesis by auto
    next
      case False
      with children_less[OF comparableD(4)[OF assms(1)], of "i - 1" i "last (elems (ts ! (i - 1)))"]
        comparable_nth(2)[OF assms(1), of "i - 1"] i show ?thesis by auto
    qed
    have le: "before ts (Suc i) \<le> length (elems (PNode ts))"
      by (simp add: before_concat) (metis append_take_drop_id concat_append le_add1 length_append map_append)
    have b: "s + before ts i + length (elems (ts ! i)) < 2 ^ 64" using le before_Suc[OF i] assms(5) by linarith
    obtain out where out: "compare_rec hf OrderedKeyTrait trav lld rld
        (Inl (tree_node hf ty (ts ! i), s + before ts i, KeyData ?lo, tree_node hf ty u, s')) = Some out"
      "covers (wanted (set (elems u))) (s + before ts i) (elems (ts ! i)) out" using IH[OF i lo b] by blast
    have "length ts - Suc i < length ts - i" "Suc i \<le> length ts" using i by auto
    from less.hyps[OF this] obtain out' where out': "compare_rec hf OrderedKeyTrait trav lld rld
        (Inr ([Suc i..<length ts], tree_node hf ty (PNode ts), s + before ts (Suc i),
          KeyData (elem_key ty (last (elems (ts ! i)))), tree_node hf ty u, s')) = Some out'"
      "covers (wanted (set (elems u))) (s + before ts (Suc i)) (concat (map elems (drop (Suc i) ts))) out'" by auto
    have "covers (wanted (set (elems u))) (s + before ts i) (concat (map elems (drop i ts))) (out @ out')"
      using covers_append[OF out(2)] out'(2) before_Suc[OF i] i by (simp add: add.assoc flip: Cons_nth_drop_Suc)
    moreover have "[i..<length ts] = i # [Suc i..<length ts]" using i by (simp add: upt_conv_Cons)
    ultimately show ?thesis
      using child_entry_reads[OF assms(1) i] load_comparable[OF ci(1)] MaxKey_tree[OF ci] out(1) out'(1) b before_Suc[OF i]
      by (subst compare_rec.simps) (auto simp: add.assoc simp del: tree_node.simps)
  qed
qed

lemma compare_covers:
  assumes "comparable hf ty lld t" and "comparable hf ty rld u" and "elems t \<noteq> []"
    and "inj_on hf C" and "set (tree_chunks hf ty t) \<subseteq> C" and "set (tree_chunks hf ty u) \<subseteq> C"
    and "\<forall>e \<in> set (elems t). lo < elem_key ty e" and "s + length (elems t) < 2 ^ 64"
  shows "\<exists>out. compare_rec hf OrderedKeyTrait trav lld rld (Inl (tree_node hf ty t, s, KeyData lo, tree_node hf ty u, s')) =
      Some out \<and> covers (wanted (set (elems u))) s (elems t) out"
  using assms(1-3,5-8)
proof (induction t arbitrary: s lo u s' rule: measure_induct_rule[of size])
  case (less t)
  obtain u' s'' where u': "overlaps hf ty rld lo (elem_key ty (last (elems t))) u u'"
    and step: "compare_rec hf OrderedKeyTrait trav lld rld (Inl (tree_node hf ty t, s, KeyData lo, tree_node hf ty u, s')) =
      (if t = u' then IdenticalHashes trav (tree_node hf ty t) s (tree_node hf ty t) s''
       else if height t = 0 \<or> height u' = 0 then IterateLeaves trav (tree_node hf ty t) s lld (tree_node hf ty u') s'' rld
       else compare_rec hf OrderedKeyTrait trav lld rld
         (Inr ([0..<length (root_entries hf ty t)], tree_node hf ty t, s, KeyData lo, tree_node hf ty u', s'')))"
    using compare_node[OF less.prems(1,2,3) assms(4) less.prems(4,5)] by blast
  have cu: "comparable hf ty rld u'" and sub: "set (tree_chunks hf ty u') \<subseteq> C"
    using u' less.prems(5) by (auto simp: overlaps_def)
  have cov: "covers (wanted (set (elems u'))) s (elems t) out = covers (wanted (set (elems u))) s (elems t) out" for out
    by (intro covers_cong local)
      (use u' less.prems(6) sorted_last_le[OF comparableD(4)[OF less.prems(1)]] in \<open>auto simp: overlaps_def\<close>)
  consider "t = u'" | "t \<noteq> u'" "height t = 0 \<or> height u' = 0" | ts where "t \<noteq> u'" "height u' \<noteq> 0" "t = PNode ts"
    by (cases t) auto
  then show ?case
  proof cases
    case 1
    with identical[OF comparableD(1)[OF less.prems(1)] less.prems(3), of s s''] cov step show ?thesis by auto
  next
    case 2
    with iterate[OF less.prems(1) cu less.prems(7), of s''] cov step show ?thesis by auto
  next
    case 3
    note t = less.prems(1)[unfolded 3(3)]
    have "\<exists>out. compare_rec hf OrderedKeyTrait trav lld rld
        (Inr ([0..<length ts], tree_node hf ty (PNode ts), s + before ts 0,
          KeyData (if 0 = (0::nat) then lo else elem_key ty (last (elems (ts ! (0 - 1))))), tree_node hf ty u', s'')) = Some out \<and>
      covers (wanted (set (elems u'))) (s + before ts 0) (concat (map elems (drop 0 ts))) out"
    proof (rule compare_children[OF t cu])
      fix i s lo s' assume i: "i < length ts" and a: "\<forall>e \<in> set (elems (ts ! i)). lo < elem_key ty e" "s + length (elems (ts ! i)) < 2 ^ 64"
      have sz: "size (ts ! i) < size t" using size_list_estimation'[OF nth_mem[OF i] order_refl, of size] 3(3) by simp
      have ch: "set (tree_chunks hf ty (ts ! i)) \<subseteq> C" using tree_chunks_child[OF nth_mem[OF i], of hf ty] less.prems(4) 3(3) by blast
      show "\<exists>out. compare_rec hf OrderedKeyTrait trav lld rld
          (Inl (tree_node hf ty (ts ! i), s, KeyData lo, tree_node hf ty u', s')) = Some out \<and>
        covers (wanted (set (elems u'))) s (elems (ts ! i)) out"
        by (rule less.IH[OF sz comparable_nth(1)[OF t i] cu comparable_nth(2)[OF t i] ch sub a])
    qed (use less.prems(6,7) 3(3) in auto)
    moreover have "height t \<noteq> 0" using 3(3) tree_wf_node(1)[OF comparableD(1)[OF t]] by (simp add: height_PNode)
    ultimately show ?thesis using cov step 3 by (auto simp: before_def simp del: tree_node.simps)
  qed
qed

lemma comparator_ranges:
  assumes "comparable hf ty lld t" and "comparable hf ty rld u" and "elems t \<noteq> []"
    and "inj_on hf (set (tree_chunks hf ty t) \<union> set (tree_chunks hf ty u))"
    and "\<forall>e \<in> set (elems t). [0] < elem_key ty e" and "length (elems t) < 2 ^ 64"
  shows "\<exists>rs. NodeComparator_Compare hf OrderedKeyTrait trav Compact rld (tree_hash hf ty u) (Some lld) (tree_hash hf ty t) = Some rs \<and>
    separated rs \<and> (\<forall>r \<in> set rs. num_subsequent r \<noteq> 0) \<and>
    ranges_set rs = {k. k < length (elems t) \<and> wanted (set (elems u)) (elems t ! k)}"
proof -
  obtain out where out: "compare_rec hf OrderedKeyTrait trav lld rld (Inl (tree_node hf ty t, 0, KeyData [0], tree_node hf ty u, 0)) = Some out"
    "covers (wanted (set (elems u))) 0 (elems t) out"
    using compare_covers[OF assms(1-4) _ _ assms(5), of 0 0] assms(6) by auto
  then have "in_order out" "ranges_set out = {k. k < length (elems t) \<and> wanted (set (elems u)) (elems t ! k)}"
    by (auto simp: covers_def)
  with Compact_in_order[of out] obtain rs where "Compact out = Some rs" "separated rs" "\<forall>r \<in> set rs. num_subsequent r \<noteq> 0"
    "ranges_set rs = {k. k < length (elems t) \<and> wanted (set (elems u)) (elems t ! k)}" by auto
  with out(1) load_comparable[OF assms(1)] load_comparable[OF assms(2)] show ?thesis
    by (auto simp: NodeComparator_Compare_def trait_MinKey_def simp del: tree_node.simps)
qed

end

lemma leaf_cursors_start:
  assumes "comparable hf ty lld t" and "comparable hf ty rld u"
  shows "\<exists>lc rc. leaf_cursors hf (tree_node hf ty t) lld (tree_node hf ty u) rld = Some (lc, rc) \<and>
    merging hf ty t u W s 0 0 lc rc [] \<lparr>start_idx = 0, num_subsequent = 0\<rparr>"
proof -
  note t = comparableD[OF assms(1)] and u = comparableD[OF assms(2)]
  obtain lc where l: "NodeCursor_idx lld (tree_hash hf ty t) 0 = Some lc" "on_element hf ty t 0 lc"
    using on_element_start[OF t(1,2)] by blast
  obtain rc where r: "NodeCursor_idx rld (tree_hash hf ty u) 0 = Some rc" "on_element hf ty u 0 rc"
    using on_element_start[OF u(1,2)] by blast
  have "merging hf ty t u W s 0 0 lc rc [] \<lparr>start_idx = 0, num_subsequent = 0\<rparr>"
    using l(2) r(2) covers_Nil[of "[]" W s] by (simp add: merging_def passed_def building_def)
  with l(1) r(1) node_hash_tree[OF t(1)] node_hash_tree[OF u(1)] show ?thesis by (simp add: leaf_cursors_def)
qed

interpretation key_differ: key_traverser hf ty lld rld "Differ hf OrderedKeyTrait" "\<lambda>S e. e \<notin> S" for hf ty lld rld
proof
  fix t s s' assume "tree_wf hf ty t"
  show "\<exists>out. IdenticalHashes (Differ hf OrderedKeyTrait) (tree_node hf ty t) s (tree_node hf ty t) s' = Some out \<and>
      covers (\<lambda>e. e \<notin> set (elems t)) s (elems t) out"
    by (simp add: Differ_def covers_Nil)
next
  fix t u s s' assume c: "comparable hf ty lld t" "comparable hf ty rld u" "s + length (elems t) < 2 ^ 64"
  obtain lc rc where "leaf_cursors hf (tree_node hf ty t) lld (tree_node hf ty u) rld = Some (lc, rc)"
    "merging hf ty t u (\<lambda>e. e \<notin> set (elems u)) s 0 0 lc rc [] \<lparr>start_idx = 0, num_subsequent = 0\<rparr>"
    using leaf_cursors_start[OF c(1,2)] by blast
  with diff_loop_covers[OF c, of 0 0 lc rc "[]"]
  show "\<exists>out. IterateLeaves (Differ hf OrderedKeyTrait) (tree_node hf ty t) s lld (tree_node hf ty u) s' rld = Some out \<and>
      covers (\<lambda>e. e \<notin> set (elems u)) s (elems t) out"
    by (simp add: Differ_def)
qed simp

interpretation key_intersector: key_traverser hf ty lld rld "Intersector hf OrderedKeyTrait" "\<lambda>S e. e \<in> S" for hf ty lld rld
proof
  fix t s s' assume "tree_wf hf ty t" "elems t \<noteq> []"
  then show "\<exists>out. IdenticalHashes (Intersector hf OrderedKeyTrait) (tree_node hf ty t) s (tree_node hf ty t) s' = Some out \<and>
      covers (\<lambda>e. e \<in> set (elems t)) s (elems t) out"
    using numElements_tree[of hf ty t] by (simp add: Intersector_def covers_all)
next
  fix t u s s' assume c: "comparable hf ty lld t" "comparable hf ty rld u" "s + length (elems t) < 2 ^ 64"
  obtain lc rc where "leaf_cursors hf (tree_node hf ty t) lld (tree_node hf ty u) rld = Some (lc, rc)"
    "merging hf ty t u (\<lambda>e. e \<in> set (elems u)) s 0 0 lc rc [] \<lparr>start_idx = 0, num_subsequent = 0\<rparr>"
    using leaf_cursors_start[OF c(1,2)] by blast
  with intersect_loop_covers[OF c, of 0 0 lc rc "[]"]
  show "\<exists>out. IterateLeaves (Intersector hf OrderedKeyTrait) (tree_node hf ty t) s lld (tree_node hf ty u) s' rld = Some out \<and>
      covers (\<lambda>e. e \<in> set (elems u)) s (elems t) out"
    by (simp add: Intersector_def)
qed simp

section \<open>Walking an iterator\<close>

text \<open>The calls of \<open>next\<close> from \<open>it\<close> on stop at the elements of the positions \<open>ks\<close>, in this order,
  and then at the end.\<close>

fun visits :: "loader \<Rightarrow> bytes list \<Rightarrow> cursor_iterator \<Rightarrow> nat list \<Rightarrow> bool" where
  "visits ld es it [] \<longleftrightarrow> it_end it"
| "visits ld es it (k # ks) \<longleftrightarrow> \<not> it_end it \<and> it_index it = Some k \<and> (\<exists>rest. it_data it = Some (es ! k @ rest)) \<and>
     it_numBytes it = Some (length (es ! k)) \<and> (\<exists>it'. it_next ld it = Some (ks \<noteq> [], it') \<and> visits ld es it' ks)"

definition range_list :: "IndexRange \<Rightarrow> nat list" where
  "range_list r = [start_idx r ..< start_idx r + num_subsequent r]"

lemma separated_list:
  assumes "separated rs"
  shows "sorted_list_of_set (ranges_set rs) = concat (map range_list rs)"
proof -
  have "sorted_wrt (<) (concat (map range_list rs)) \<and> set (concat (map range_list rs)) = ranges_set rs"
    using assms
  proof (induction rs)
    case (Cons r rs)
    then have "separated rs" "\<forall>s \<in> set rs. start_idx r + num_subsequent r < start_idx s" by (simp_all add: separated_def)
    moreover have "\<forall>x \<in> ranges_set rs. start_idx r + num_subsequent r < x"
      using \<open>\<forall>s \<in> set rs. start_idx r + num_subsequent r < start_idx s\<close> by (fastforce simp: ranges_set_def range_set_def)
    ultimately show ?case
      using Cons.IH by (fastforce simp: sorted_wrt_append range_list_def[of r] ranges_set_def range_set_def[of r])
  qed (simp add: ranges_set_def)
  then have l: "sorted (concat (map range_list rs))" "distinct (concat (map range_list rs))"
    "set (concat (map range_list rs)) = ranges_set rs" by (simp_all only: strict_sorted_iff)
  show ?thesis using sorted_list_of_set.idem_if_sorted_distinct[OF l(1,2)] unfolding l(3) .
qed

text \<open>The iterator on offset \<open>k\<close> of range \<open>j\<close>.\<close>

definition it_at :: "(bytes \<Rightarrow> bytes) \<Rightarrow> ChunkType \<Rightarrow> ptree \<Rightarrow> IndexRange list \<Rightarrow> nat \<Rightarrow> nat \<Rightarrow> cursor_iterator" where
  "it_at hf ty t rs j k = \<lparr>it_ranges = rs, it_range_idx = int j, it_idx_in_range = k,
     it_cursor = cursor_of hf ty t (start_idx (rs ! j) + k) []\<rparr>"

text \<open>What the walk needs of the ranges.\<close>

definition walkable :: "ptree \<Rightarrow> IndexRange list \<Rightarrow> bool" where
  "walkable t rs \<longleftrightarrow> length (elems t) < 2 ^ 31 \<and> length rs < 2 ^ 31 \<and> separated rs \<and>
     (\<forall>r \<in> set rs. num_subsequent r \<noteq> 0 \<and> start_idx r + num_subsequent r \<le> length (elems t))"

lemma walkableD:
  assumes "walkable t rs" and "j < length rs"
  shows "num_subsequent (rs ! j) \<noteq> 0" "start_idx (rs ! j) + num_subsequent (rs ! j) \<le> length (elems t)"
    "length (elems t) < 2 ^ 31" "length rs < 2 ^ 31"
    "Suc j < length rs \<Longrightarrow> start_idx (rs ! j) + num_subsequent (rs ! j) < start_idx (rs ! Suc j)"
  using assms by (auto simp: walkable_def separated_def sorted_wrt_iff_nth_less)

lemma it_at_state:
  assumes "walkable t rs" and "j < length rs"
  shows "\<not> it_head (it_at hf ty t rs j k)" "\<not> it_end (it_at hf ty t rs j k)"
    "it_range (it_at hf ty t rs j k) (int j) = Some (rs ! j)" "it_range_idx (it_at hf ty t rs j k) = int j"
    "it_idx_in_range (it_at hf ty t rs j k) = k" "it_ranges (it_at hf ty t rs j k) = rs"
    "it_cursor (it_at hf ty t rs j k) = cursor_of hf ty t (start_idx (rs ! j) + k) []"
  using assms(2) walkableD(4)[OF assms] by (auto simp: it_at_def it_head_def it_end_def it_range_def nth_opt_def)

lemma it_at_reads:
  assumes "tree_wf hf ty t" and "walkable t rs" and "j < length rs" and "k < num_subsequent (rs ! j)"
  shows "it_index (it_at hf ty t rs j k) = Some (start_idx (rs ! j) + k)"
    and "\<exists>rest. it_data (it_at hf ty t rs j k) = Some (elems t ! (start_idx (rs ! j) + k) @ rest)"
    and "it_numBytes (it_at hf ty t rs j k) = Some (length (elems t ! (start_idx (rs ! j) + k)))"
proof -
  note s = it_at_state[OF assms(2,3), of hf ty k] and w = walkableD[OF assms(2,3)]
  have i: "start_idx (rs ! j) + k < length (elems t)" using w(2) assms(4) by simp
  show "it_index (it_at hf ty t rs j k) = Some (start_idx (rs ! j) + k)" using s i w(3) by (simp add: it_index_def)
  show "\<exists>rest. it_data (it_at hf ty t rs j k) = Some (elems t ! (start_idx (rs ! j) + k) @ rest)"
    "it_numBytes (it_at hf ty t rs j k) = Some (length (elems t ! (start_idx (rs ! j) + k)))"
    using cursor_of_reads(2,3)[OF assms(1) i] s by (auto simp: it_data_def it_numBytes_def)
qed

lemma it_next_at:
  assumes t: "tree_wf hf ty t" "stored hf ty ld t" and w: "walkable t rs" "j < length rs" and "k < num_subsequent (rs ! j)"
  shows "Suc k < num_subsequent (rs ! j) \<Longrightarrow> it_next ld (it_at hf ty t rs j k) = Some (True, it_at hf ty t rs j (Suc k))"
    and "Suc k = num_subsequent (rs ! j) \<Longrightarrow> Suc j < length rs \<Longrightarrow> height t \<le> 1 \<Longrightarrow>
      it_next ld (it_at hf ty t rs j k) = Some (True, it_at hf ty t rs (Suc j) 0)"
    and "Suc k = num_subsequent (rs ! j) \<Longrightarrow> Suc j = length rs \<Longrightarrow>
      \<exists>it. it_next ld (it_at hf ty t rs j k) = Some (False, it) \<and> it_end it"
proof -
  note s = it_at_state[OF w, of hf ty k] and d = walkableD[OF w]
  have i: "start_idx (rs ! j) + k < length (elems t)" and m: "(k + 1) mod 2 ^ 64 = Suc k" and ne: "rs \<noteq> []"
    using d(2,3) assms(5) w(2) by auto
  note start = it_next_def[of ld "it_at hf ty t rs j k"] s m ne
  show "it_next ld (it_at hf ty t rs j k) = Some (True, it_at hf ty t rs j (Suc k))" if "Suc k < num_subsequent (rs ! j)"
  proof -
    have "it_next ld (it_at hf ty t rs j k) = Some (\<not> it_end (it_at hf ty t rs j (Suc k)), it_at hf ty t rs j (Suc k))"
      using Advance_within_tree[OF t, of "start_idx (rs ! j) + k" "[]"] that d start by (simp add: Let_def) (simp add: it_at_def)
    then show ?thesis using it_at_state(2)[OF w, of hf ty "Suc k"] by simp
  qed
  show "it_next ld (it_at hf ty t rs j k) = Some (True, it_at hf ty t rs (Suc j) 0)"
    if l: "Suc k = num_subsequent (rs ! j)" "Suc j < length rs" "height t \<le> 1"
  proof -
    note d' = walkableD[OF w(1) l(2)] and gap = d(5)[OF l(2)]
    let ?p = "start_idx (rs ! j) + k" and ?q = "start_idx (rs ! Suc j)"
    have q: "?p < ?q" "?q < length (elems t)" using gap l(1) d'(1,2) by auto
    have e: "(start_idx (rs ! j) + num_subsequent (rs ! j)) mod 2 ^ 64 = Suc ?p" using l(1) d(2,3) by (simp add: l(1)[symmetric])
    have steps: "sub64 ?q (sub64 ((start_idx (rs ! j) + num_subsequent (rs ! j)) mod 2 ^ 64) 1) = ?q - ?p"
      using q(1) unfolding e by simp
    have "AdvanceSteps ld (cursor_of hf ty t ?p []) (?q - ?p) = Some (?q - ?p, cursor_of hf ty t ?q [])"
      using AdvanceSteps_flat[OF t l(3), of ?p "?q - ?p"] q by simp
    moreover have "it_range (it_at hf ty t rs j k) (int j + 1) = Some (rs ! Suc j)"
      using l(2) by (simp add: it_range_def it_at_def nth_opt_def nat_add_distrib)
    moreover have "(it_at hf ty t rs j k)\<lparr>it_idx_in_range := 0, it_range_idx := int j + 1, it_cursor := cursor_of hf ty t ?q []\<rparr> =
      it_at hf ty t rs (Suc j) 0" by (simp add: it_at_def)
    ultimately have "it_next ld (it_at hf ty t rs j k) = Some (\<not> it_end (it_at hf ty t rs (Suc j) 0), it_at hf ty t rs (Suc j) 0)"
      using start l steps d(4) by (simp add: Let_def)
    then show ?thesis using it_at_state(2)[OF w(1) l(2), of hf ty 0] by simp
  qed
  show "\<exists>it. it_next ld (it_at hf ty t rs j k) = Some (False, it) \<and> it_end it"
    if "Suc k = num_subsequent (rs ! j)" "Suc j = length rs"
  proof -
    obtain us n rest where c: "cursor_of hf ty t (start_idx (rs ! j) + k) [] = (leaf_node ty us, int n) # rest" "leaf_ok ty us"
      using cursor_of_leaf[OF t(1) i, of "[]"] by blast
    have "numEntries (leaf_node ty us) = Some (length us)" using leaf_node_rep[OF c(2)] by (simp add: node_rep_def)
    then have "\<exists>a. Advance ld False (cursor_of hf ty t (start_idx (rs ! j) + k) []) = Some a"
      unfolding Advance_False c(1) by (simp add: Advance_within_def Let_def)
    then obtain a where "Advance ld False (cursor_of hf ty t (start_idx (rs ! j) + k) []) = Some a" by blast
    with that start d(4) show ?thesis by (cases a) (simp add: Let_def, simp add: it_at_def it_end_def)
  qed
qed


lemma it_at_visits_range:
  assumes t: "tree_wf hf ty t" "stored hf ty ld t" and w: "walkable t rs" "j < length rs"
    and "k < num_subsequent (rs ! j)" and last: "visits ld (elems t) (it_at hf ty t rs j (num_subsequent (rs ! j) - 1)) ((start_idx (rs ! j) + (num_subsequent (rs ! j) - 1)) # ks)"
  shows "visits ld (elems t) (it_at hf ty t rs j k) ([start_idx (rs ! j) + k ..< start_idx (rs ! j) + num_subsequent (rs ! j)] @ ks)"
  using assms(5)
proof (induction "num_subsequent (rs ! j) - k" arbitrary: k)
  case (Suc n)
  note r = it_at_reads[OF t(1) w Suc.prems] and u = upt_conv_Cons[of "start_idx (rs ! j) + k" "start_idx (rs ! j) + num_subsequent (rs ! j)"]
  show ?case
  proof (cases "Suc k < num_subsequent (rs ! j)")
    case True
    have "visits ld (elems t) (it_at hf ty t rs j (Suc k))
        ([Suc (start_idx (rs ! j) + k) ..< start_idx (rs ! j) + num_subsequent (rs ! j)] @ ks)"
      using Suc.hyps(1)[of "Suc k"] Suc.hyps(2) True by simp
    with r u it_next_at(1)[OF t w Suc.prems True] it_at_state(2)[OF w, of hf ty k] Suc.prems True show ?thesis by simp
  next
    case False
    with Suc.prems have "k = num_subsequent (rs ! j) - 1" by simp
    with last u Suc.prems show ?thesis by simp
  qed
qed simp

lemma it_at_visits:
  assumes t: "tree_wf hf ty t" "stored hf ty ld t" "height t \<le> 1" and w: "walkable t rs" and "j < length rs"
  shows "visits ld (elems t) (it_at hf ty t rs j 0) (concat (map range_list (drop j rs)))"
  using assms(5)
proof (induction "length rs - j" arbitrary: j)
  case (Suc n)
  note d = walkableD[OF w Suc.prems]
  let ?k = "num_subsequent (rs ! j) - 1"
  have k: "?k < num_subsequent (rs ! j)" "Suc ?k = num_subsequent (rs ! j)" using d(1) by auto
  note r = it_at_reads[OF t(1) w Suc.prems k(1)] it_at_state(2)[OF w Suc.prems, of hf ty ?k] and n = it_next_at[OF t(1,2) w Suc.prems k(1)]
  have "visits ld (elems t) (it_at hf ty t rs j ?k) ((start_idx (rs ! j) + ?k) # concat (map range_list (drop (Suc j) rs)))"
  proof (cases "Suc j < length rs")
    case True
    then have "visits ld (elems t) (it_at hf ty t rs (Suc j) 0) (concat (map range_list (drop (Suc j) rs)))"
      using Suc.hyps by simp
    moreover have "concat (map range_list (drop (Suc j) rs)) \<noteq> []"
      using Cons_nth_drop_Suc[OF True, symmetric] walkableD(1)[OF w True] by (simp add: range_list_def)
    ultimately show ?thesis using r n(2)[OF k(2) True t(3)] by simp
  next
    case False
    then have "Suc j = length rs" using Suc.prems by simp
    then show ?thesis using r n(3)[OF k(2)] by auto
  qed
  from it_at_visits_range[OF t(1,2) w Suc.prems _ this, of 0] d(1) show ?case
    using Cons_nth_drop_Suc[OF Suc.prems, symmetric] by (simp add: range_list_def)
qed simp

section \<open>Differences of maps and sets\<close>

lemma CursorIterator_ranges:
  assumes "tree_wf hf ty t" and "stored hf ty ld t" and w: "walkable t rs"
  shows "\<exists>it. CursorIterator ld (tree_hash hf ty t) rs = Some it \<and> it_ranges it = rs \<and>
    (height t \<le> 1 \<longrightarrow> visits ld (elems t) it (concat (map range_list rs)))"
proof (cases rs)
  case Nil
  obtain cur where "NodeCursor_idx ld (tree_hash hf ty t) 0 = Some cur" using on_element_start[OF assms(1,2)] by blast
  with Nil show ?thesis by (simp add: CursorIterator_def it_end_def)
next
  case (Cons r rest)
  then have j: "0 < length rs" by simp
  note d = walkableD[OF w j]
  have i: "start_idx (rs ! 0) < length (elems t)" using d(1,2) by simp
  have "it_index \<lparr>it_ranges = rs, it_range_idx = 0, it_idx_in_range = 0, it_cursor = []\<rparr> = Some (start_idx (rs ! 0))"
    using d(3,4) i j by (auto simp: it_index_def it_head_def it_end_def it_range_def nth_opt_def)
  with NodeCursor_idx_tree[OF assms(1,2) i] j have "CursorIterator ld (tree_hash hf ty t) rs = Some (it_at hf ty t rs 0 0)"
    by (simp add: CursorIterator_def it_at_def)
  with it_at_visits[OF assms(1,2) _ w j] show ?thesis by (auto simp: it_at_def)
qed

lemma separated_length:
  assumes "separated rs" and "\<forall>r \<in> set rs. num_subsequent r \<noteq> 0" and "ranges_set rs \<subseteq> {..<n}"
  shows "length rs \<le> n" and "\<forall>r \<in> set rs. start_idx r < n"
proof -
  show less: "\<forall>r \<in> set rs. start_idx r < n"
  proof
    fix r assume r: "r \<in> set rs"
    then have "start_idx r \<in> range_set r" using assms(2) by (simp add: range_set_def)
    with r assms(3) show "start_idx r < n" by (auto simp: ranges_set_def)
  qed
  have "sorted_wrt (<) (map start_idx rs)"
    using assms(1) unfolding separated_def sorted_wrt_map by (rule sorted_wrt_mono_rel[rotated]) simp
  then have "distinct (map start_idx rs)" by (simp add: strict_sorted_iff)
  then have "length rs = card (start_idx ` set rs)" by (metis distinct_card length_map set_map)
  also have "\<dots> \<le> card {..<n}" using less by (intro card_mono) auto
  finally show "length rs \<le> n" by simp
qed

lemma object_comparable:
  assumes "object (is_boundary pat win mx) hf ty st es t" and "params_ok win mx" and "digest_ok hf" and "keyed_type ty"
  shows "comparable hf ty st t" and "elems t = es" and "length es < 2 ^ 31"
  using objectD[OF assms(1)] tree_of_wf[OF objectD(1,3)[OF assms(1)] assms(2,3)] tree_of_elems[OF objectD(1)[OF assms(1)]]
    input_ok_sorted[OF objectD(3)[OF assms(1)] assms(4)] assms(4)
  by (auto simp: comparable_def input_ok_def)

lemma obj_tree:
  assumes "comparable hf ty ld t"
  shows "obj_numElements (Some (tree_node hf ty t)) = Some (length (elems t))"
    and "obj_hash hf (Some (tree_node hf ty t)) = Some (tree_hash hf ty t)"
  using numElements_tree[OF comparableD(1)[OF assms]] obj_hash_tree[OF comparableD(1)[OF assms]]
  by (simp_all add: obj_numElements_def)

text \<open>The iterator \<open>r\<close> over a stored tree holds the positions \<open>I\<close>: its ranges are separated, in order,
  and cover just \<open>I\<close>; and when the tree has at most one level of inner nodes the calls of \<open>next\<close> stop
  at just the elements of \<open>I\<close>, in order.\<close>

definition selects :: "loader \<Rightarrow> ptree \<Rightarrow> cursor_iterator option \<Rightarrow> nat set \<Rightarrow> bool" where
  "selects ld t r I \<longleftrightarrow> (\<exists>it. r = Some it \<and> separated (it_ranges it) \<and> ranges_set (it_ranges it) = I \<and>
     (height t \<le> 1 \<longrightarrow> visits ld (elems t) it (sorted_list_of_set I)))"

lemma iterator_over:
  assumes "comparable hf ty ld t" and "length (elems t) < 2 ^ 31"
    and "separated rs" and "\<forall>r \<in> set rs. num_subsequent r \<noteq> 0" and "ranges_set rs \<subseteq> {..<length (elems t)}"
  shows "selects ld t (CursorIterator ld (tree_hash hf ty t) rs) (ranges_set rs)"
proof -
  have "start_idx r + num_subsequent r \<le> length (elems t)" if "r \<in> set rs" for r
  proof -
    have "start_idx r + (num_subsequent r - 1) \<in> ranges_set rs"
      using that assms(4) by (auto simp: ranges_set_def range_set_def intro!: bexI[of _ r])
    with assms(5) have "start_idx r + (num_subsequent r - 1) < length (elems t)" by blast
    with assms(4) that show ?thesis by fastforce
  qed
  then have "walkable t rs" using separated_length(1)[OF assms(3-5)] assms(2-4) by (simp add: walkable_def)
  from CursorIterator_ranges[OF comparableD(1,2)[OF assms(1)] this] assms(3) show ?thesis
    by (auto simp: selects_def separated_list)
qed

lemma whole_range: "0 < n \<Longrightarrow> separated [\<lparr>start_idx = 0, num_subsequent = n\<rparr>] \<and> ranges_set [\<lparr>start_idx = 0, num_subsequent = n\<rparr>] = {..<n}"
  by (auto simp: separated_def ranges_set_def range_set_def)

lemma diff_exact:
  assumes t: "comparable hf ty lld t" "length (elems t) < 2 ^ 31" and u: "comparable hf ty rld u"
    and "inj_on hf (set (tree_chunks hf ty t) \<union> set (tree_chunks hf ty u))"
    and "\<forall>e \<in> set (elems t). [0] < elem_key ty e"
  shows "selects lld t (UMap_Diff hf lld (Some (tree_node hf ty t)) rld (Some (tree_node hf ty u)))
    {k. k < length (elems t) \<and> elems t ! k \<notin> set (elems u)}"
proof -
  note o = obj_tree[OF t(1)] obj_tree[OF u]
  consider "elems t = []" | "elems t \<noteq> []" "elems u = []" | "elems t \<noteq> []" "elems u \<noteq> []" by blast
  then show ?thesis
  proof cases
    case 1
    with iterator_over[OF t, of "[]"] o show ?thesis
      by (simp add: UMap_Diff_def diff_with_def separated_def ranges_set_def del: tree_node.simps)
  next
    case 2
    let ?rs = "[\<lparr>start_idx = 0, num_subsequent = length (elems t)\<rparr>]"
    have "{k. k < length (elems t) \<and> elems t ! k \<notin> set (elems u)} = {..<length (elems t)}" using 2 by auto
    with iterator_over[OF t, of ?rs] whole_range[of "length (elems t)"] 2 o show ?thesis
      by (simp add: UMap_Diff_def diff_with_def del: tree_node.simps)
  next
    case 3
    have "length (elems t) < 2 ^ 64" using t(2) by simp
    from key_differ.comparator_ranges[OF t(1) u 3(1) assms(4,5) this]
    obtain rs where "KeyDiffer hf rld (tree_hash hf ty u) (Some lld) (tree_hash hf ty t) = Some rs" "separated rs"
      "\<forall>r \<in> set rs. num_subsequent r \<noteq> 0" "ranges_set rs = {k. k < length (elems t) \<and> elems t ! k \<notin> set (elems u)}"
      by (auto simp: KeyDiffer_def)
    with iterator_over[OF t, of rs] 3 o show ?thesis
      by (auto simp: UMap_Diff_def diff_with_def simp del: tree_node.simps)
  qed
qed

lemma intersect_exact:
  assumes t: "comparable hf ty lld t" "length (elems t) < 2 ^ 31" and u: "comparable hf ty rld u"
    and "inj_on hf (set (tree_chunks hf ty t) \<union> set (tree_chunks hf ty u))"
    and "\<forall>e \<in> set (elems t). [0] < elem_key ty e"
  shows "selects lld t (UMap_Intersect hf lld (Some (tree_node hf ty t)) rld (Some (tree_node hf ty u)))
    {k. k < length (elems t) \<and> elems t ! k \<in> set (elems u)}"
proof -
  note o = obj_tree[OF t(1)] obj_tree[OF u]
  show ?thesis
  proof (cases "elems t = [] \<or> elems u = []")
    case True
    then have "{k. k < length (elems t) \<and> elems t ! k \<in> set (elems u)} = {}" by auto
    with iterator_over[OF t, of "[]"] o True show ?thesis
      by (auto simp: UMap_Intersect_def intersect_with_def separated_def ranges_set_def simp del: tree_node.simps)
  next
    case False
    then have ne: "elems t \<noteq> []" and "length (elems t) < 2 ^ 64" using t(2) by auto
    from key_intersector.comparator_ranges[OF t(1) u ne assms(4,5) this(2)]
    obtain rs where "KeyIntersector hf rld (tree_hash hf ty u) (Some lld) (tree_hash hf ty t) = Some rs" "separated rs"
      "\<forall>r \<in> set rs. num_subsequent r \<noteq> 0" "ranges_set rs = {k. k < length (elems t) \<and> elems t ! k \<in> set (elems u)}"
      by (auto simp: KeyIntersector_def)
    with iterator_over[OF t, of rs] False o show ?thesis
      by (auto simp: UMap_Intersect_def intersect_with_def simp del: tree_node.simps)
  qed
qed

lemma map_item_inj:
  assumes "map_item_ok kv" and "map_item_ok kv'" and "map_item kv = map_item kv'"
  shows "kv = kv'"
proof -
  have "kv_key kv = kv_key kv'" using arg_cong[OF assms(3), of map_key_of] assms(1,2) by simp
  moreover have "kv_val kv = kv_val kv'"
    using arg_cong[OF assms(3), of "\<lambda>e. MapNode_value (e @ [])"] assms(1,2) by (simp only: MapNode_value_item) simp
  ultimately show ?thesis by (cases kv; cases kv') simp
qed

lemma map_view_nth:
  assumes "map_ok kvs" and "map_ok kvs'" and "i < length kvs"
  shows "map map_item kvs ! i \<in> set (map map_item kvs') \<longleftrightarrow> map_view kvs' (kv_key (kvs ! i)) = Some (kv_val (kvs ! i))"
proof -
  have ok: "\<forall>kv \<in> set kvs'. map_item_ok kv" "map_item_ok (kvs ! i)"
    using assms map_item_small nth_mem[OF assms(3)] by (auto simp: map_ok_def)
  have "map map_item kvs ! i \<in> set (map map_item kvs') \<longleftrightarrow> kvs ! i \<in> set kvs'"
    using map_item_inj[OF ok(2)] ok(1) assms(3) by auto
  also have "\<dots> \<longleftrightarrow> (kv_key (kvs ! i), kv_val (kvs ! i)) \<in> (\<lambda>kv. (kv_key kv, kv_val kv)) ` set kvs'"
    using inj_image_mem_iff[of "\<lambda>kv. (kv_key kv, kv_val kv)" "kvs ! i" "set kvs'"] by (simp add: inj_def kv_item.equality)
  also have "\<dots> \<longleftrightarrow> map_view kvs' (kv_key (kvs ! i)) = Some (kv_val (kvs ! i))"
    using assms(2) by (simp add: map_view_def map_ok_def strict_sorted_iff comp_def)
  finally show ?thesis .
qed

section \<open>Property\<close>

text \<open>C16.  The difference of two stored maps is exact.  When no two chunks of the two trees share a
  digest, \<open>Diff\<close> returns an iterator whose ranges, in order and separated, cover just the positions of
  the left map whose key is bound to something else, or not at all, in the right map; the ranges of
  \<open>Intersect\<close> cover just the positions with the same binding.  When the left tree has height at most
  one, calling \<open>next\<close> on the iterator stops at the entry of each of these positions, in order, and then
  at the end.  For higher trees the theorem is about the ranges only, since the step from one range to
  the next is \<open>AdvanceSteps\<close>, which can miss its target there.  Either map may be empty, and they may
  have been built with different parameters.  Excepted are keys of the left map that are not above
  the one-byte key zero.\<close>

theorem map_diff_exact:
  assumes "object (is_boundary pat win mx) hf CT_kMap lld (map map_item kvs) t" and "map_ok kvs" and "params_ok win mx"
    and "object (is_boundary pat' win' mx') hf CT_kMap rld (map map_item kvs') t'" and "map_ok kvs'" and "params_ok win' mx'"
    and "digest_ok hf" and "inj_on hf (set (tree_chunks hf CT_kMap t) \<union> set (tree_chunks hf CT_kMap t'))"
    and "\<forall>kv \<in> set kvs. [0] < kv_key kv"
  shows "elems t = map map_item kvs \<and>
    selects lld t (UMap_Diff hf lld (Some (tree_node hf CT_kMap t)) rld (Some (tree_node hf CT_kMap t')))
      {i. i < length kvs \<and> map_view kvs' (kv_key (kvs ! i)) \<noteq> Some (kv_val (kvs ! i))} \<and>
    selects lld t (UMap_Intersect hf lld (Some (tree_node hf CT_kMap t)) rld (Some (tree_node hf CT_kMap t')))
      {i. i < length kvs \<and> map_view kvs' (kv_key (kvs ! i)) = Some (kv_val (kvs ! i))}"
proof -
  have k: "keyed_type CT_kMap" by (simp add: keyed_type_def)
  note t = object_comparable[OF assms(1,3,7) k] and u = object_comparable[OF assms(4,6,7) k]
  have "\<forall>e \<in> set (elems t). [0] < elem_key CT_kMap e"
    using assms(2,9) t(2) map_item_small by (auto simp: map_ok_def)
  note ex = diff_exact[OF t(1) _ u(1) assms(8) this] intersect_exact[OF t(1) _ u(1) assms(8) this]
  have "{k. k < length (elems t) \<and> elems t ! k \<notin> set (elems t')} =
      {i. i < length kvs \<and> map_view kvs' (kv_key (kvs ! i)) \<noteq> Some (kv_val (kvs ! i))}"
    "{k. k < length (elems t) \<and> elems t ! k \<in> set (elems t')} =
      {i. i < length kvs \<and> map_view kvs' (kv_key (kvs ! i)) = Some (kv_val (kvs ! i))}"
    using map_view_nth[OF assms(2,5)] by (auto simp: t(2) u(2) simp del: nth_map set_map)
  with ex t(2,3) show ?thesis by simp
qed

theorem map_diff_exact_witness:
  "selects (ex_leaf_store CT_kMap (map map_item [ex_kv 1 5, ex_kv 2 6])) (PLeaf (map map_item [ex_kv 1 5, ex_kv 2 6]))
      (UMap_Diff ex_hf (ex_leaf_store CT_kMap (map map_item [ex_kv 1 5, ex_kv 2 6]))
      (Some (tree_node ex_hf CT_kMap (PLeaf (map map_item [ex_kv 1 5, ex_kv 2 6]))))
      (ex_leaf_store CT_kMap (map map_item [ex_kv 1 5, ex_kv 3 7]))
      (Some (tree_node ex_hf CT_kMap (PLeaf (map map_item [ex_kv 1 5, ex_kv 3 7]))))) {1} \<and>
   selects (ex_leaf_store CT_kMap (map map_item [ex_kv 1 5, ex_kv 2 6])) (PLeaf (map map_item [ex_kv 1 5, ex_kv 2 6]))
      (UMap_Intersect ex_hf (ex_leaf_store CT_kMap (map map_item [ex_kv 1 5, ex_kv 2 6]))
      (Some (tree_node ex_hf CT_kMap (PLeaf (map map_item [ex_kv 1 5, ex_kv 2 6]))))
      (ex_leaf_store CT_kMap (map map_item [ex_kv 1 5, ex_kv 3 7]))
      (Some (tree_node ex_hf CT_kMap (PLeaf (map map_item [ex_kv 1 5, ex_kv 3 7]))))) {0}"
proof -
  let ?a = "[ex_kv 1 5, ex_kv 2 6]" and ?b = "[ex_kv 1 5, ex_kv 3 7]"
  have o: "object (is_boundary 0 46 64) ex_hf CT_kMap (ex_leaf_store CT_kMap (map map_item ?a)) (map map_item ?a) (PLeaf (map map_item ?a))"
    "object (is_boundary 0 46 64) ex_hf CT_kMap (ex_leaf_store CT_kMap (map map_item ?b)) (map map_item ?b) (PLeaf (map map_item ?b))"
    by (rule short_object[OF _ map_ok_input]; simp only: map_item_length ex_map_ok; simp)+
  have "ex_hf (leaf_chunk CT_kMap (map map_item ?a)) \<noteq> ex_hf (leaf_chunk CT_kMap (map map_item ?b))" by code_simp
  then have "inj_on ex_hf (set (tree_chunks ex_hf CT_kMap (PLeaf (map map_item ?a))) \<union> set (tree_chunks ex_hf CT_kMap (PLeaf (map map_item ?b))))"
    by (auto simp: inj_on_def)
  moreover have p: "params_ok 46 64" by (simp add: params_ok_def)
  moreover have "{i. i < length ?a \<and> map_view ?b (kv_key (?a ! i)) \<noteq> Some (kv_val (?a ! i))} = {1}"
    "{i. i < length ?a \<and> map_view ?b (kv_key (?a ! i)) = Some (kv_val (?a ! i))} = {0}"
    by (auto simp: map_view_def ex_kv_def nth_Cons' less_Suc_eq)
  ultimately show ?thesis
    using map_diff_exact[OF o(1) ex_map_ok(2) p o(2) ex_map_ok(3) p ex_hf_digest] by (simp add: ex_kv_def)
qed

end
