(* ===== verification/Node_Merger.thy ===== *)
theory Node_Merger
  imports Key_Compare
begin

text \<open>
  Three-way merge of trees: include/node/node_merger.h and \<open>Merge\<close> of src/types/server/smap.cc,
  sset.cc and slist.cc.  \<open>NodeMerger\<close> is a template over the mapper, which is an argument here.  The
  empty hash that stands for a merge that fails is \<open>None\<close>.
\<close>

section \<open>Mappers\<close>

type_synonym range_maps = "(IndexRange \<times> IndexRange) list"

definition OrderedKeyMapper_Map :: "(bytes \<Rightarrow> bytes) \<Rightarrow> loader \<Rightarrow> bytes \<Rightarrow> bytes \<Rightarrow> range_maps option" where
  "OrderedKeyMapper_Map hf ld lhs rhs = KeyMapper hf ld rhs None lhs"

definition MinEditDistanceMapper_Map :: "loader \<Rightarrow> bytes \<Rightarrow> bytes \<Rightarrow> range_maps option" where
  "MinEditDistanceMapper_Map ld lhs rhs = LevenshteinMapper_Compare ld rhs None lhs"

section \<open>The parts that differ\<close>

definition gap_before :: "nat \<Rightarrow> nat \<Rightarrow> IndexRange" where
  "gap_before pre_upper idx = \<lparr>start_idx = pre_upper, num_subsequent = sub64 idx pre_upper\<rparr>"

definition add_gap :: "IndexRange \<Rightarrow> IndexRange \<Rightarrow> range_maps \<Rightarrow> range_maps" where
  "add_gap l r rest = (if num_subsequent l \<noteq> 0 \<or> num_subsequent r \<noteq> 0 then (l, r) # rest else rest)"

fun flip_loop :: "nat \<Rightarrow> nat \<Rightarrow> nat \<Rightarrow> nat \<Rightarrow> range_maps \<Rightarrow> range_maps" where
  "flip_loop lhs_num_elements rhs_num_elements pre_lhs pre_rhs [] =
     add_gap (gap_before pre_lhs lhs_num_elements) (gap_before pre_rhs rhs_num_elements) []"
| "flip_loop lhs_num_elements rhs_num_elements pre_lhs pre_rhs ((l, r) # maps) =
     add_gap (gap_before pre_lhs (start_idx l)) (gap_before pre_rhs (start_idx r))
       (flip_loop lhs_num_elements rhs_num_elements (range_stop l) (range_stop r) maps)"

definition flip_maps :: "range_maps \<Rightarrow> nat \<Rightarrow> nat \<Rightarrow> range_maps" where
  "flip_maps maps lhs_num_elements rhs_num_elements =
     (if maps = []
      then [(\<lparr>start_idx = 0, num_subsequent = lhs_num_elements\<rparr>, \<lparr>start_idx = 0, num_subsequent = rhs_num_elements\<rparr>)]
      else flip_loop lhs_num_elements rhs_num_elements 0 0 maps)"

section \<open>Segments of a range\<close>

text \<open>A cursor behind the last element of its leaf, or on no leaf, is given up here where the code
  goes on with a null pointer.\<close>

partial_function (option) segments_loop :: "loader \<Rightarrow> nat \<Rightarrow> cursor \<Rightarrow> nat \<Rightarrow> segment list \<Rightarrow> segment list option" where
  "segments_loop ld num cursor accumulated segs =
     (case cursor of [] \<Rightarrow> None
      | (nd, idx) # _ \<Rightarrow>
          if \<not> isLeaf nd then None
          else Option.bind (numEntries nd) (\<lambda>n.
            let entry_idx = nat (idx mod 2 ^ 64);
                leaf_remaining = nat ((int n - idx) mod 2 ^ 64);
                remaining = sub64 num accumulated
            in if leaf_remaining < remaining
               then Option.bind (GetSegment nd entry_idx leaf_remaining) (\<lambda>seg.
                    Option.bind (AdvanceSteps ld cursor leaf_remaining) (\<lambda>r.
                      if snd r \<noteq> [] \<and> snd (hd (snd r)) = 0 \<and> fst r = leaf_remaining
                      then segments_loop ld num (snd r) ((accumulated + leaf_remaining) mod 2 ^ 64) (segs @ [seg])
                      else None))
               else Option.bind (GetSegment nd entry_idx remaining) (\<lambda>seg. Some (segs @ [seg]))))"

definition GetSegmentsFromIndexRange :: "loader \<Rightarrow> bytes \<Rightarrow> IndexRange \<Rightarrow> segment list option" where
  "GetSegmentsFromIndexRange ld root index_range =
     do { cursor \<leftarrow> NodeCursor_idx ld root (start_idx index_range);
          segments_loop ld (num_subsequent index_range) cursor 0 [] }"

text \<open>\<open>IsIdenticalContents\<close> walks over the segments of both sides; each \<open>memcmp\<close> has the data of the
  left segment for both of its arguments.\<close>

definition memcmp_at :: "bytes \<Rightarrow> bytes \<Rightarrow> nat \<Rightarrow> int option" where
  "memcmp_at p q len = do { a \<leftarrow> rd_bytes len p 0; b \<leftarrow> rd_bytes len q 0; Some (memcmp a b) }"

definition remaining_len :: "segment \<Rightarrow> nat \<Rightarrow> nat" where
  "remaining_len s idx = sub64 (seg_num_bytes s) idx"

function identical_loop :: "segment list \<Rightarrow> nat \<Rightarrow> segment list \<Rightarrow> nat \<Rightarrow> bool option" where
  "identical_loop [] lhs_idx rhs_segs rhs_idx = Some True"
| "identical_loop (l # lhs_segs) lhs_idx [] rhs_idx = Some True"
| "identical_loop (l # lhs_segs) lhs_idx (r # rhs_segs) rhs_idx =
     (if remaining_len l lhs_idx < remaining_len r rhs_idx
      then do { c \<leftarrow> memcmp_at (seg_data l) (seg_data l) (remaining_len l lhs_idx);
                if c \<noteq> 0 then Some False
                else identical_loop lhs_segs 0 (r # rhs_segs) (add64 rhs_idx (remaining_len l lhs_idx)) }
      else if remaining_len l lhs_idx = remaining_len r rhs_idx
      then do { c \<leftarrow> memcmp_at (seg_data l) (seg_data l) (remaining_len r rhs_idx);
                if c \<noteq> 0 then Some False else identical_loop lhs_segs 0 rhs_segs 0 }
      else do { c \<leftarrow> memcmp_at (seg_data l) (seg_data l) (remaining_len r rhs_idx);
                if c \<noteq> 0 then Some False
                else identical_loop (l # lhs_segs) (add64 lhs_idx (remaining_len r rhs_idx)) rhs_segs 0 })"
  by pat_completeness auto
termination
  by (relation "measure (\<lambda>(l, _, r, _). length l + length r)") auto

definition IsIdenticalContents :: "loader \<Rightarrow> bytes \<Rightarrow> IndexRange \<Rightarrow> bytes \<Rightarrow> IndexRange \<Rightarrow> bool option" where
  "IsIdenticalContents ld lhs lhs_range rhs rhs_range =
     (if num_subsequent lhs_range \<noteq> num_subsequent rhs_range then Some False
      else do { lhs_segs \<leftarrow> GetSegmentsFromIndexRange ld lhs lhs_range;
                rhs_segs \<leftarrow> GetSegmentsFromIndexRange ld rhs rhs_range;
                identical_loop lhs_segs 0 rhs_segs 0 })"

section \<open>The merge\<close>

text \<open>The next change to apply and the changes left: \<open>Inl\<close> when the changes conflict.  A change is
  its range in the base, the node it comes from and its range there.\<close>

type_synonym change = "IndexRange \<times> bytes \<times> IndexRange"

definition next_change :: "loader \<Rightarrow> bytes \<Rightarrow> IndexRange \<times> IndexRange \<Rightarrow> bytes \<Rightarrow> IndexRange \<times> IndexRange \<Rightarrow>
    (unit + change \<times> bool \<times> bool) option" where
  "next_change ld node1 m1 node2 m2 =
     do { same \<leftarrow> (if start_idx (fst m1) = start_idx (fst m2) \<and> num_subsequent (fst m1) = num_subsequent (fst m2)
                   then IsIdenticalContents ld node1 (snd m1) node2 (snd m2) else Some False);
          if same then Some (Inr ((fst m1, node1, snd m1), True, True))
          else if range_stop (fst m1) \<le> start_idx (fst m2) then Some (Inr ((fst m1, node1, snd m1), True, False))
          else if range_stop (fst m2) \<le> start_idx (fst m1) then Some (Inr ((fst m2, node2, snd m2), False, True))
          else Some (Inl ()) }"

definition apply_change :: "loader \<Rightarrow> bytes \<Rightarrow> change \<Rightarrow> splice_operand list \<Rightarrow> splice_operand list option" where
  "apply_change ld base c ops =
     (case c of (base_range, node, node_range) \<Rightarrow>
        do { segs \<leftarrow> GetSegmentsFromIndexRange ld node node_range;
             Splice ld (Some base) (start_idx base_range) (num_subsequent base_range) segs ops })"

function merge_loop :: "loader \<Rightarrow> bytes \<Rightarrow> bytes \<Rightarrow> bytes \<Rightarrow> range_maps \<Rightarrow> range_maps \<Rightarrow> splice_operand list \<Rightarrow>
    splice_operand list option option" where
  "merge_loop ld base node1 node2 [] [] ops = Some (Some ops)"
| "merge_loop ld base node1 node2 [] ((b, r) # maps2) ops =
     do { ops \<leftarrow> apply_change ld base (b, node2, r) ops; merge_loop ld base node1 node2 [] maps2 ops }"
| "merge_loop ld base node1 node2 ((b, r) # maps1) [] ops =
     do { ops \<leftarrow> apply_change ld base (b, node1, r) ops; merge_loop ld base node1 node2 maps1 [] ops }"
| "merge_loop ld base node1 node2 (m1 # maps1) (m2 # maps2) ops =
     Option.bind (next_change ld node1 m1 node2 m2) (\<lambda>s.
       case s of
         Inl _ \<Rightarrow> Some None
       | Inr (c, step1, step2) \<Rightarrow>
           if step1 \<or> step2 then
             Option.bind (apply_change ld base c ops) (\<lambda>ops.
               merge_loop ld base node1 node2 (if step1 then maps1 else m1 # maps1) (if step2 then maps2 else m2 # maps2) ops)
           else None)"
  by pat_completeness auto
termination
  by (relation "measure (\<lambda>(_, _, _, _, m1, m2, _). length m1 + length m2)") (auto split: if_splits)

definition NodeMerger_numElements :: "loader \<Rightarrow> bytes \<Rightarrow> nat option" where
  "NodeMerger_numElements ld root = do { chunk \<leftarrow> ld root; nd \<leftarrow> CreateFromChunk chunk; numElements nd }"

definition NodeMerger_Merge :: "(bytes \<Rightarrow> bytes) \<Rightarrow> rolling_hasher \<Rightarrow> ChunkType \<Rightarrow>
    (loader \<Rightarrow> bytes \<Rightarrow> bytes \<Rightarrow> range_maps option) \<Rightarrow> loader \<Rightarrow> bytes \<Rightarrow> bytes \<Rightarrow> bytes \<Rightarrow> (bytes option \<times> loader) option" where
  "NodeMerger_Merge hf rh ty mapper st base node1 node2 =
     do { base_num_elements \<leftarrow> NodeMerger_numElements st base;
          node1_num_elements \<leftarrow> NodeMerger_numElements st node1;
          node2_num_elements \<leftarrow> NodeMerger_numElements st node2;
          maps1 \<leftarrow> mapper st base node1;
          maps2 \<leftarrow> mapper st base node2;
          ops \<leftarrow> merge_loop st base node1 node2 (flip_maps maps1 base_num_elements node1_num_elements)
                   (flip_maps maps2 base_num_elements node2_num_elements) [];
          case ops of None \<Rightarrow> Some (None, st)
          | Some ops \<Rightarrow> AdvancedCommit hf rh ty st st (Some base) ops }"

definition object_Merge :: "(bytes \<Rightarrow> bytes) \<Rightarrow> rolling_hasher \<Rightarrow> ChunkType \<Rightarrow>
    (loader \<Rightarrow> bytes \<Rightarrow> bytes \<Rightarrow> range_maps option) \<Rightarrow> chunkable \<Rightarrow> chunkable \<Rightarrow> chunkable \<Rightarrow> loader \<Rightarrow> (bytes option \<times> loader) option" where
  "object_Merge hf rh ty mapper obj node1 node2 st =
     do { n \<leftarrow> obj_numElements obj;
          if n = 0 then Some (None, st) else do {
          n1 \<leftarrow> obj_numElements node1;
          if n1 = 0 then Some (None, st) else do {
          n2 \<leftarrow> obj_numElements node2;
          if n2 = 0 then Some (None, st) else do {
          base \<leftarrow> obj_hash hf obj;
          h1 \<leftarrow> obj_hash hf node1;
          h2 \<leftarrow> obj_hash hf node2;
          NodeMerger_Merge hf rh ty mapper st base h1 h2 } } } }"

definition SMap_Merge :: "(bytes \<Rightarrow> bytes) \<Rightarrow> rolling_hasher \<Rightarrow> chunkable \<Rightarrow> chunkable \<Rightarrow> chunkable \<Rightarrow> loader \<Rightarrow>
    (bytes option \<times> loader) option" where
  "SMap_Merge hf rh = object_Merge hf rh CT_kMap (OrderedKeyMapper_Map hf)"

definition SSet_Merge :: "(bytes \<Rightarrow> bytes) \<Rightarrow> rolling_hasher \<Rightarrow> chunkable \<Rightarrow> chunkable \<Rightarrow> chunkable \<Rightarrow> loader \<Rightarrow>
    (bytes option \<times> loader) option" where
  "SSet_Merge hf rh = object_Merge hf rh CT_kSet (OrderedKeyMapper_Map hf)"

definition SList_Merge :: "(bytes \<Rightarrow> bytes) \<Rightarrow> rolling_hasher \<Rightarrow> chunkable \<Rightarrow> chunkable \<Rightarrow> chunkable \<Rightarrow> loader \<Rightarrow>
    (bytes option \<times> loader) option" where
  "SList_Merge hf rh = object_Merge hf rh CT_kList MinEditDistanceMapper_Map"

section \<open>Conflicts\<close>

text \<open>Segments whose bytes can be read.\<close>

definition readable :: "segment list \<Rightarrow> bool" where
  "readable segs \<longleftrightarrow> (\<forall>s \<in> set segs. seg_num_bytes s \<le> length (seg_data s) \<and> seg_num_bytes s < 2 ^ 64)"

definition head_len :: "segment list \<Rightarrow> nat" where
  "head_len segs = (case segs of [] \<Rightarrow> 0 | s # _ \<Rightarrow> seg_num_bytes s)"

lemma memcmp_at_self: "n \<le> length p \<Longrightarrow> memcmp_at p p n = Some 0"
  by (simp add: memcmp_at_def rd_bytes_def memcmp_eq_0)

lemma identical_loop_blind:
  assumes "readable ls" and "readable rs" and "i \<le> head_len ls" and "j \<le> head_len rs"
  shows "identical_loop ls i rs j = Some True"
  using assms
proof (induction ls i rs j rule: identical_loop.induct)
  case (3 l ls i r rs j)
  let ?l = "seg_num_bytes l - i" and ?r = "seg_num_bytes r - j"
  have le: "i \<le> seg_num_bytes l" "j \<le> seg_num_bytes r" using 3(6,7) by (auto simp: head_len_def)
  have rd: "seg_num_bytes l \<le> length (seg_data l)" "seg_num_bytes l < 2 ^ 64" "seg_num_bytes r < 2 ^ 64" "readable ls" "readable rs"
    using 3(4,5) by (auto simp: readable_def)
  have sub: "remaining_len l i = ?l" "remaining_len r j = ?r" using le by (simp_all add: remaining_len_def sub64_def)
  consider "?l < ?r" | "?l = ?r" | "?r < ?l" by linarith
  then show ?case
  proof cases
    case 1
    have c: "memcmp_at (seg_data l) (seg_data l) ?l = Some 0" using rd(1) by (intro memcmp_at_self) simp
    with "3.IH"(1)[unfolded sub, OF 1 c _ rd(4) "3.prems"(2)] sub 1 rd(3) le show ?thesis by (simp add: Let_def head_len_def add64_def)
  next
    case 2
    have c: "memcmp_at (seg_data l) (seg_data l) ?r = Some 0" using rd(1) 2 by (intro memcmp_at_self) simp
    with "3.IH"(2)[unfolded sub, OF _ 2 c _ rd(4,5)] sub 2 show ?thesis by (simp add: Let_def)
  next
    case 3
    have c: "memcmp_at (seg_data l) (seg_data l) ?r = Some 0" using rd(1) 3 by (intro memcmp_at_self) simp
    with "3.IH"(3)[unfolded sub, OF _ _ c _ "3.prems"(1) rd(5)] sub 3 rd(2) le show ?thesis by (simp add: Let_def head_len_def add64_def)
  qed
qed simp_all

text \<open>The segment of a range of a tree that is a single leaf.\<close>

lemma segments_leaf:
  assumes "tree_wf hf ty (PLeaf es)" and "stored hf ty ld (PLeaf es)" and "i < length es" and "i + n \<le> length es"
  shows "\<exists>s. GetSegmentsFromIndexRange ld (tree_hash hf ty (PLeaf es)) \<lparr>start_idx = i, num_subsequent = n\<rparr> = Some [s] \<and>
    seg_rep s (take n (drop i es))"
proof -
  have small: "length es < 2 ^ 31" and nr: "node_rep (leaf_node ty es) es" using assms(1) leaf_node_rep by auto
  have cur: "NodeCursor_idx ld (tree_hash hf ty (PLeaf es)) i = Some [(leaf_node ty es, int i)]"
    using NodeCursor_idx_tree[OF assms(1,2)] assms(3) by simp
  obtain s where s: "GetSegment (leaf_node ty es) i n = Some s" "seg_rep s (take n (drop i es))"
    using nr assms(3,4) unfolding node_rep_def by blast
  have lf: "isLeaf (leaf_node ty es)"
    using tree_node_isLeaf[OF tree_wf_leaf_type[OF assms(1)], of hf "PLeaf es"] by simp
  have ne: "numEntries (leaf_node ty es) = Some (length es)" using nr by (simp add: node_rep_def)
  have "int i mod 18446744073709551616 = int i" "(int (length es) - int i) mod 18446744073709551616 = int (length es - i)"
    using small assms(3) by (simp_all add: of_nat_diff)
  then have idx: "nat (int i mod 18446744073709551616) = i"
    "nat ((int (length es) - int i) mod 18446744073709551616) = length es - i" by (metis nat_int)+
  have "sub64 n 0 = n" "\<not> length es - i < n" using assms(4) by (simp_all add: sub64_def)
  then have "segments_loop ld n [(leaf_node ty es, int i)] 0 [] = Some [s]"
    using lf ne s(1) assms(4) by (subst segments_loop.simps) (simp add: Let_def idx)
  with cur s(2) show ?thesis by (simp add: GetSegmentsFromIndexRange_def)
qed

lemma seg_rep_readable: "seg_rep s es \<Longrightarrow> length (concat es) < 2 ^ 64 \<Longrightarrow> readable [s]"
  using seg_rep_length_data[of s es] by (simp add: readable_def seg_rep_def)

section \<open>Both sides change the same keys\<close>

text \<open>The mapper finds nothing in two maps that give the same keys different values.\<close>

lemma mapper_no_match:
  assumes t: "comparable hf ty lld t" and u: "comparable hf ty rld u" and len: "length (elems u) = length (elems t)"
    and same: "\<forall>k < length (elems t). elem_key ty (elems t ! k) = elem_key ty (elems u ! k) \<and> elems t ! k \<noteq> elems u ! k"
    and "on_element hf ty t i lc" and "on_element hf ty u i rc" and "num_subsequent (fst rs) = 0"
  shows "mapper_loop OrderedKeyTrait lld rld lc x rc y rs [] = Some []"
  using assms(5-7)
proof (induction "length (elems t) - i" arbitrary: i lc rc x y)
  case (0 i)
  then have i: "i = length (elems t)" by (auto simp: on_element_def)
  with 0 on_element_end[OF comparableD(1)[OF t]] on_element_end[OF comparableD(1)[OF u]] len
  have "isEnd lc = Some True" "isEnd rc = Some True" by auto
  with 0 show ?case by (subst mapper_loop.simps) (simp add: maps_close_def)
next
  case (Suc n i)
  then have i: "i < length (elems t)" by simp
  have e: "isEnd lc = Some False" "isEnd rc = Some False"
    using on_element_end[OF comparableD(1)[OF t] Suc.prems(1)] on_element_end[OF comparableD(1)[OF u] Suc.prems(2)] i len by auto
  have c: "compare_elements OrderedKeyTrait lc x rc y = Some (SameKey False)"
    using compare_on_elements[OF comparableD(1)[OF t] Suc.prems(1) i comparableD(1)[OF u] Suc.prems(2) _ comparableD(3)[OF t]]
      i len same by (auto simp: Let_def)
  obtain lc' where l: "Advance lld True lc = Some (Suc i < length (elems t), lc')" "on_element hf ty t (Suc i) lc'"
    using on_element_advance[OF comparableD(1,2)[OF t] Suc.prems(1) i] by blast
  obtain rc' where r: "Advance rld True rc = Some (Suc i < length (elems u), rc')" "on_element hf ty u (Suc i) rc'"
    using on_element_advance[OF comparableD(1,2)[OF u] Suc.prems(2)] i len by auto
  have "mapper_loop OrderedKeyTrait lld rld lc' (next_idx x) rc' (next_idx y) rs [] = Some []"
    by (rule Suc.hyps(1)) (use Suc l r in auto)
  then show ?case using e c l(1) r(1) Suc.prems(3) by (subst mapper_loop.simps) (simp add: maps_close_def Let_def)
qed

lemma KeyMapper_no_match:
  assumes t: "comparable hf ty ld (PLeaf as)" and u: "comparable hf ty ld (PLeaf bs)" and "as \<noteq> []" and len: "length bs = length as"
    and same: "\<forall>k < length as. elem_key ty (as ! k) = elem_key ty (bs ! k) \<and> as ! k \<noteq> bs ! k"
    and inj: "hf (leaf_chunk ty as) \<noteq> hf (leaf_chunk ty bs)"
  shows "OrderedKeyMapper_Map hf ld (tree_hash hf ty (PLeaf as)) (tree_hash hf ty (PLeaf bs)) = Some []"
proof -
  note wt = comparableD[OF t] and wu = comparableD[OF u]
  obtain lc where l: "NodeCursor_idx ld (tree_hash hf ty (PLeaf as)) 0 = Some lc" "on_element hf ty (PLeaf as) 0 lc"
    using on_element_start[OF wt(1,2)] by blast
  obtain rc where r: "NodeCursor_idx ld (tree_hash hf ty (PLeaf bs)) 0 = Some rc" "on_element hf ty (PLeaf bs) 0 rc"
    using on_element_start[OF wu(1,2)] by blast
  have "mapper_loop OrderedKeyTrait ld ld lc 0 rc 0 (\<lparr>start_idx = 0, num_subsequent = 0\<rparr>, \<lparr>start_idx = 0, num_subsequent = 0\<rparr>) [] = Some []"
    by (rule mapper_no_match[OF t u _ _ l(2) r(2)]) (use len same in auto)
  then have it: "IterateLeaves (Mapper hf OrderedKeyTrait) (leaf_node ty as) 0 ld (leaf_node ty bs) 0 ld = Some []"
    using l(1) r(1) node_hash_tree[OF wt(1)] node_hash_tree[OF wu(1)] by (simp add: Mapper_def leaf_cursors_def)
  have lf: "isLeaf (leaf_node ty as)" "isLeaf (leaf_node ty bs)"
    using tree_node_isLeaf[OF tree_wf_leaf_type[OF wt(1)], of hf "PLeaf as"] tree_node_isLeaf[OF tree_wf_leaf_type[OF wt(1)], of hf "PLeaf bs"] by simp_all
  have "compare_rec hf OrderedKeyTrait (Mapper hf OrderedKeyTrait) ld ld
      (Inl (leaf_node ty as, 0, trait_MinKey OrderedKeyTrait, leaf_node ty bs, 0)) = Some []"
    using MaxKey_tree[OF t, of 0] assms(3) lf it inj node_hash_tree[OF wt(1)] node_hash_tree[OF wu(1)]
    by (subst compare_rec.simps) (simp add: SmallestOverlap_def tree_hash_def)
  then show ?thesis
    using stored_root[OF wt(2)] CreateFromChunk_tree[OF wt(1)] stored_root[OF wu(2)] CreateFromChunk_tree[OF wu(1)]
    by (simp add: OrderedKeyMapper_Map_def KeyMapper_def NodeComparator_Compare_def Compact_maps_def)
qed

lemma PreorderDump_leaf:
  assumes "tree_wf hf ty (PLeaf es)" and "stored hf ty (ld ++ cache) (PLeaf es)"
  shows "\<exists>w'. PreorderDump cache w [tree_hash hf ty (PLeaf es)] = Some w'"
proof (cases "cache (tree_hash hf ty (PLeaf es))")
  case None
  then show ?thesis by (subst PreorderDump.simps) (simp add: PreorderDump.simps[of _ _ "[]"])
next
  case (Some c)
  then have "c = leaf_chunk ty es" using assms(2) by (simp add: tree_hash_def map_add_def)
  then have "CreateFromChunk c = Some (leaf_node ty es)" using CreateFromChunk_tree[OF assms(1)] by simp
  with Some have c: "cache (tree_hash hf ty (PLeaf es)) = Some c" "CreateFromChunk c = Some (leaf_node ty es)" by auto
  from tree_wf_leaf_type[OF assms(1)] show ?thesis
    by (cases rule: leaf_type_cases) (use c in \<open>subst PreorderDump.simps, simp add: PreorderDump.simps[of _ _ "[]"]\<close>)+
qed

lemma AdvancedCommit_leaf:
  assumes t: "object (is_boundary pat win mx) hf ty st es t" and u: "object (is_boundary pat win mx) hf ty st es' (PLeaf es')"
    and p: "params_ok win mx" and d: "digest_ok hf" and inj: "inj_on hf (edit_chunks hf ty t (PLeaf es'))"
    and s: "seg_rep s es'" "es' \<noteq> []"
  shows "\<exists>st'. AdvancedCommit hf (RollingHasher pat win mx) ty st st (Some (tree_hash hf ty t))
      [\<lparr>op_start = 0, op_delete = length es, op_segs = [s]\<rparr>] = Some (Some (tree_hash hf ty (PLeaf es')), st')"
proof -
  have sr: "segs_rep [s] [es']" using s(1) by (simp add: segs_rep_def)
  have e: "edit_ok (is_boundary pat win mx) es t 0 (length es) (concat [es'])" using s(2) by (simp add: edit_ok_def)
  have st: "stored hf ty (st ++ Map.empty) t" using objectD(2)[OF t] by simp
  obtain N Ns where lo: "levels_of (is_boundary pat win mx) hf ty es t (N # Ns)"
    using tree_of_levels_Cons[OF objectD(1)[OF t]] by blast
  have es': "es' = take 0 es @ concat [es'] @ drop (0 + length es) es" by simp
  note ls = leaf_stays[OF lo objectD(3)[OF t] p d _ e es', simplified]
  obtain cache where c: "do { nb \<leftarrow> NodeBuilder_idx (st ++ Map.empty) (RollingHasher pat win mx) ty (tree_hash hf ty t) 0;
        nb \<leftarrow> SpliceElements (st ++ Map.empty) (length es) [s] nb;
        Commit hf (RollingHasher pat win mx) ty st Map.empty nb } = Some (tree_hash hf ty (PLeaf es'), cache)"
    "stored hf ty (st ++ cache) (PLeaf es')"
    using splice_pos[OF lo objectD(3)[OF t] p d st _ sr es' _ objectD(3)[OF u] _ objectD(1)[OF u] inj] ls s(2)
      NodeCursor_idx_pos[OF lo objectD(3)[OF t] p d st, of 0]
    by (auto simp: NodeBuilder_idx_def simp del: pos.simps NodeBuilder_cursor.simps stored.simps)
  obtain w' where "PreorderDump cache st [tree_hash hf ty (PLeaf es')] = Some w'"
    using PreorderDump_leaf[OF tree_of_wf[OF objectD(1,3)[OF u] p d] c(2)] by blast
  with c(1) show ?thesis by (auto simp: AdvancedCommit_def bind_eq_Some_conv)
qed

text \<open>Two sides that replace the same range by equally many elements: the change of the first is taken.\<close>

lemma merge_loop_blind:
  assumes "GetSegmentsFromIndexRange ld node1 r1 = Some segs1" and "readable segs1"
    and "GetSegmentsFromIndexRange ld node2 r2 = Some segs2" and "readable segs2"
    and "num_subsequent r1 = num_subsequent r2"
  shows "merge_loop ld base node1 node2 ((b, r1) # maps1) ((b, r2) # maps2) ops =
    Option.bind (apply_change ld base (b, node1, r1) ops) (merge_loop ld base node1 node2 maps1 maps2)"
  using identical_loop_blind[OF assms(2,4), of 0 0] assms(1,3,5)
  by (simp add: next_change_def IsIdenticalContents_def)

lemma leaf_segment:
  assumes "tree_wf hf ty (PLeaf es)" and "stored hf ty ld (PLeaf es)" and "es \<noteq> []"
  shows "\<exists>s. GetSegmentsFromIndexRange ld (tree_hash hf ty (PLeaf es)) \<lparr>start_idx = 0, num_subsequent = length es\<rparr> = Some [s] \<and>
    seg_rep s es \<and> readable [s]"
proof -
  obtain s where s: "GetSegmentsFromIndexRange ld (tree_hash hf ty (PLeaf es)) \<lparr>start_idx = 0, num_subsequent = length es\<rparr> = Some [s]"
    "seg_rep s es" using segments_leaf[OF assms(1,2), of 0 "length es"] assms(3) by auto
  have "leaf_ok ty es" using assms(1) by simp
  then have "length (concat es) < 2 ^ 64" using tree_wf_leaf_type[OF assms(1)]
    by (auto simp: leaf_ok_def leaf_fits_def var_fits_def chunk_fits_def var_payload_def leaf_type_def kMetaLength_def split: if_splits)
  with s seg_rep_readable[OF s(2)] show ?thesis by blast
qed

lemma merge_leaves:
  assumes t: "object (is_boundary pat win mx) hf CT_kMap st as (PLeaf as)" and u: "object (is_boundary pat win mx) hf CT_kMap st bs (PLeaf bs)"
    and v: "object (is_boundary pat win mx) hf CT_kMap st cs (PLeaf cs)" and p: "params_ok win mx" and d: "digest_ok hf"
    and ne: "as \<noteq> []" and len: "length bs = length as" "length cs = length as"
    and b: "\<forall>k < length as. elem_key CT_kMap (as ! k) = elem_key CT_kMap (bs ! k) \<and> as ! k \<noteq> bs ! k"
    and c: "\<forall>k < length as. elem_key CT_kMap (as ! k) = elem_key CT_kMap (cs ! k) \<and> as ! k \<noteq> cs ! k"
    and inj: "hf (leaf_chunk CT_kMap as) \<noteq> hf (leaf_chunk CT_kMap bs)" "hf (leaf_chunk CT_kMap as) \<noteq> hf (leaf_chunk CT_kMap cs)"
  shows "\<exists>st'. SMap_Merge hf (RollingHasher pat win mx) (Some (tree_node hf CT_kMap (PLeaf as)))
      (Some (tree_node hf CT_kMap (PLeaf bs))) (Some (tree_node hf CT_kMap (PLeaf cs))) st =
    Some (Some (tree_hash hf CT_kMap (PLeaf bs)), st')"
proof -
  have k: "keyed_type CT_kMap" by (simp add: keyed_type_def)
  note ct = object_comparable[OF t p d k] and cu = object_comparable[OF u p d k] and cv = object_comparable[OF v p d k]
  let ?h = "\<lambda>es. tree_hash hf CT_kMap (PLeaf es)" and ?r = "\<lparr>start_idx = 0, num_subsequent = length as\<rparr>"
  have maps: "OrderedKeyMapper_Map hf st (?h as) (?h bs) = Some []" "OrderedKeyMapper_Map hf st (?h as) (?h cs) = Some []"
    using KeyMapper_no_match[OF ct(1) cu(1) ne len(1) b inj(1)] KeyMapper_no_match[OF ct(1) cv(1) ne len(2) c inj(2)] by auto
  have num: "NodeMerger_numElements st (?h es) = Some (length es)" if "comparable hf CT_kMap st (PLeaf es)" for es
    using stored_root[OF comparableD(2)[OF that]] CreateFromChunk_tree[OF comparableD(1)[OF that]]
      numElements_tree[OF comparableD(1)[OF that]] by (simp add: NodeMerger_numElements_def)
  obtain s where s: "GetSegmentsFromIndexRange st (?h bs) ?r = Some [s]" "seg_rep s bs" "readable [s]"
    using leaf_segment[OF comparableD(1,2)[OF cu(1)]] ne len(1) by fastforce
  obtain q where q: "GetSegmentsFromIndexRange st (?h cs) ?r = Some [q]" "readable [q]"
    using leaf_segment[OF comparableD(1,2)[OF cv(1)]] ne len(2) by fastforce
  have tot: "total_elements_of st (Some (?h as)) = Some (length as)"
    using num[OF ct(1)] by (simp add: NodeMerger_numElements_def total_elements_of_def)
  have "apply_change st (?h as) (?r, ?h bs, ?r) [] = Some [\<lparr>op_start = 0, op_delete = length as, op_segs = [s]\<rparr>]"
    using s ne len(1) ct(3) by (auto simp: apply_change_def Splice_def tot add64_def after_tail_def after_head_def)
  then have "merge_loop st (?h as) (?h bs) (?h cs) [(?r, ?r)] [(?r, ?r)] [] =
      Some (Some [\<lparr>op_start = 0, op_delete = length as, op_segs = [s]\<rparr>])"
    using merge_loop_blind[OF s(1,3) q refl, of "?h as" ?r "[]" "[]" "[]"] by simp
  moreover have "inj_on hf (edit_chunks hf CT_kMap (PLeaf as) (PLeaf bs))" using inj(1) by (auto simp: edit_leaves inj_on_def)
  then obtain st' where "AdvancedCommit hf (RollingHasher pat win mx) CT_kMap st st (Some (?h as))
      [\<lparr>op_start = 0, op_delete = length as, op_segs = [s]\<rparr>] = Some (Some (?h bs), st')"
    using AdvancedCommit_leaf[OF t u p d _ s(2)] ne len(1) by fastforce
  ultimately show ?thesis
    using maps num[OF ct(1)] num[OF cu(1)] num[OF cv(1)] obj_tree[OF ct(1)] obj_tree[OF cu(1)] obj_tree[OF cv(1)] ne len
    by (simp add: SMap_Merge_def object_Merge_def NodeMerger_Merge_def flip_maps_def del: tree_node.simps merge_loop.simps(4))
qed

lemma side_items:
  assumes "map_ok kvs" and "map_ok kvs'" and "map kv_key kvs' = map kv_key kvs"
    and "\<forall>k < length kvs. kv_val (kvs' ! k) \<noteq> kv_val (kvs ! k)"
  shows "\<forall>k < length (map map_item kvs). elem_key CT_kMap (map map_item kvs ! k) = elem_key CT_kMap (map map_item kvs' ! k) \<and>
    map map_item kvs ! k \<noteq> map map_item kvs' ! k"
proof (intro allI impI)
  fix k assume "k < length (map map_item kvs)"
  then have k: "k < length kvs" "k < length kvs'" using map_eq_imp_length_eq[OF assms(3)] by simp_all
  have ok: "map_item_ok (kvs ! k)" "map_item_ok (kvs' ! k)"
    using assms(1,2) k by (simp_all add: map_ok_def map_item_small)
  have "kv_key (kvs' ! k) = kv_key (kvs ! k)" using arg_cong[OF assms(3), of "\<lambda>xs. xs ! k"] k by simp
  moreover have "map_item (kvs ! k) \<noteq> map_item (kvs' ! k)" using map_item_inj[OF ok] assms(4) k(1) by auto
  ultimately show "elem_key CT_kMap (map map_item kvs ! k) = elem_key CT_kMap (map map_item kvs' ! k) \<and>
    map map_item kvs ! k \<noteq> map map_item kvs' ! k" using k ok by simp
qed

section \<open>Property\<close>

text \<open>C38.  A three-way merge does not notice conflicting changes.  Take a map and two versions of
  it, each map in a single leaf, where both versions keep the keys and give every key a value other
  than the base's.  \<open>SMap::Merge\<close> of the two does not report the conflict: it returns the root of
  the first version, so every value of the second is dropped, whatever the two sides wrote.\<close>

theorem merge_conflict_missed:
  assumes base: "object (is_boundary pat win mx) hf CT_kMap st (map map_item kvs) (PLeaf (map map_item kvs))" "map_ok kvs" "kvs \<noteq> []"
    and side1: "object (is_boundary pat win mx) hf CT_kMap st (map map_item kvs1) (PLeaf (map map_item kvs1))" "map_ok kvs1"
      "map kv_key kvs1 = map kv_key kvs" "\<forall>k < length kvs. kv_val (kvs1 ! k) \<noteq> kv_val (kvs ! k)"
    and side2: "object (is_boundary pat win mx) hf CT_kMap st (map map_item kvs2) (PLeaf (map map_item kvs2))" "map_ok kvs2"
      "map kv_key kvs2 = map kv_key kvs" "\<forall>k < length kvs. kv_val (kvs2 ! k) \<noteq> kv_val (kvs ! k)"
    and "params_ok win mx" and "digest_ok hf"
    and "hf (leaf_chunk CT_kMap (map map_item kvs)) \<noteq> hf (leaf_chunk CT_kMap (map map_item kvs1))"
    and "hf (leaf_chunk CT_kMap (map map_item kvs)) \<noteq> hf (leaf_chunk CT_kMap (map map_item kvs2))"
  shows "\<exists>st'. SMap_Merge hf (RollingHasher pat win mx) (Some (tree_node hf CT_kMap (PLeaf (map map_item kvs))))
      (Some (tree_node hf CT_kMap (PLeaf (map map_item kvs1)))) (Some (tree_node hf CT_kMap (PLeaf (map map_item kvs2)))) st =
    Some (Some (tree_hash hf CT_kMap (PLeaf (map map_item kvs1))), st')"
proof -
  have "length kvs1 = length kvs" "length kvs2 = length kvs" using side1(3) side2(3) map_eq_imp_length_eq by blast+
  then show ?thesis
    using merge_leaves[OF base(1) side1(1) side2(1) assms(12,13) _ _ _ side_items[OF base(2) side1(2-4)] side_items[OF base(2) side2(2-4)] assms(14,15)]
      base(3) by simp
qed

definition ex_merge :: loader where
  "ex_merge = loader_of ex_hf (map (\<lambda>v. leaf_chunk CT_kMap (map map_item [ex_kv 1 v])) [4, 5, 6])"

theorem merge_conflict_missed_witness:
  "\<exists>st'. SMap_Merge ex_hf (RollingHasher 0 46 64) (Some (tree_node ex_hf CT_kMap (PLeaf (map map_item [ex_kv 1 4]))))
      (Some (tree_node ex_hf CT_kMap (PLeaf (map map_item [ex_kv 1 5]))))
      (Some (tree_node ex_hf CT_kMap (PLeaf (map map_item [ex_kv 1 6])))) ex_merge =
    Some (Some (tree_hash ex_hf CT_kMap (PLeaf (map map_item [ex_kv 1 5]))), st')"
proof -
  have ne: "ex_hf (leaf_chunk CT_kMap (map map_item [ex_kv 1 4])) \<noteq> ex_hf (leaf_chunk CT_kMap (map map_item [ex_kv 1 5]))"
    "ex_hf (leaf_chunk CT_kMap (map map_item [ex_kv 1 4])) \<noteq> ex_hf (leaf_chunk CT_kMap (map map_item [ex_kv 1 6]))"
    "ex_hf (leaf_chunk CT_kMap (map map_item [ex_kv 1 5])) \<noteq> ex_hf (leaf_chunk CT_kMap (map map_item [ex_kv 1 6]))" by code_simp+
  have ok: "map_ok [ex_kv 1 v]" for v by (simp add: map_ok_def ex_kv_def)
  have st: "stored ex_hf CT_kMap ex_merge (PLeaf (map map_item [ex_kv 1 v]))" if "v \<in> {4, 5, 6}" for v
    using that ne by (auto simp: ex_merge_def loader_of_def)
  have "object (is_boundary 0 46 64) ex_hf CT_kMap ex_merge (map map_item [ex_kv 1 v]) (PLeaf (map map_item [ex_kv 1 v]))"
    if "v \<in> {4, 5, 6}" for v
    using st[OF that] map_ok_input[OF ok] short_tree[of "map map_item [ex_kv 1 v]" 46] map_item_length(1)[of 1 v] by (simp add: object_def)
  then have o: "object (is_boundary 0 46 64) ex_hf CT_kMap ex_merge (map map_item [ex_kv 1 4]) (PLeaf (map map_item [ex_kv 1 4]))"
    "object (is_boundary 0 46 64) ex_hf CT_kMap ex_merge (map map_item [ex_kv 1 5]) (PLeaf (map map_item [ex_kv 1 5]))"
    "object (is_boundary 0 46 64) ex_hf CT_kMap ex_merge (map map_item [ex_kv 1 6]) (PLeaf (map map_item [ex_kv 1 6]))" by blast+
  have vals: "map kv_key [ex_kv 1 v] = map kv_key [ex_kv 1 4]"
    "v \<noteq> 4 \<Longrightarrow> \<forall>k < length [ex_kv 1 4]. kv_val ([ex_kv 1 v] ! k) \<noteq> kv_val ([ex_kv 1 4] ! k)" for v by (simp_all add: ex_kv_def)
  show ?thesis
    by (rule merge_conflict_missed[OF o(1) ok _ o(2) ok vals o(3) ok vals _ ex_hf_digest ne(1,2)]) (simp_all add: params_ok_def)
qed

end
