(* ===== verification/Store_Growth.thy ===== *)
theory Store_Growth
  imports Server_Types
begin

text \<open>
  Writing never takes a chunk out of the store: every function that writes returns a store with the
  chunks of the old one.  The functions that write values write nodes only, no cells.  The lemmas are
  collected in \<open>grows\<close>.
\<close>

named_theorems grows

definition store_le :: "loader \<Rightarrow> loader \<Rightarrow> bool" where
  "store_le st st' \<longleftrightarrow> dom st \<subseteq> dom st'"

lemma store_le_refl [simp]: "store_le st st" and store_le_upd [simp]: "store_le st (st(h \<mapsto> c))"
  by (auto simp: store_le_def)

lemma store_le_trans: "store_le a b \<Longrightarrow> store_le b c \<Longrightarrow> store_le a c"
  by (auto simp: store_le_def)

lemma store_leD: "store_le st st' \<Longrightarrow> st h \<noteq> None \<Longrightarrow> st' h \<noteq> None"
  by (auto simp: store_le_def dom_def)

text \<open>Cells, and writing no cells: every cell of the new store is a cell of the old one.\<close>

definition is_cell :: "chunk \<Rightarrow> bool" where
  "is_cell c \<longleftrightarrow> chunk_type c = Some (ChunkType_byte CT_kCell)"

definition adds_nodes :: "loader \<Rightarrow> loader \<Rightarrow> bool" where
  "adds_nodes st st' \<longleftrightarrow> store_le st st' \<and> (\<forall>h c. st' h = Some c \<longrightarrow> is_cell c \<longrightarrow> st h = Some c)"

lemma adds_nodes_refl [simp]: "adds_nodes st st" and adds_nodes_upd: "\<not> is_cell c \<Longrightarrow> adds_nodes st (st(h \<mapsto> c))"
  by (auto simp: adds_nodes_def)

lemma adds_nodes_trans: "adds_nodes a b \<Longrightarrow> adds_nodes b c \<Longrightarrow> adds_nodes a c"
  by (auto simp: adds_nodes_def intro: store_le_trans)

lemma adds_nodesD:
  assumes "adds_nodes st st'"
  shows "store_le st st'" and "st' h = Some c \<Longrightarrow> is_cell c \<Longrightarrow> st h = Some c"
  using assms by (auto simp: adds_nodes_def)

lemma chunk_type_Chunk [simp]: "chunk_type (Chunk t n) = Some (ChunkType_byte t)"
  by (simp add: Chunk_def chunk_type_def nth_opt_def nth_append)

lemma chunk_type_write: "memcpy c (kMetaLength + off) src = Some c' \<Longrightarrow> chunk_type c' = chunk_type c"
  by (auto simp: memcpy_def chunk_type_def nth_opt_def nth_append kMetaLength_def split: if_splits)

lemmas chunk_type_write0 = chunk_type_write[of _ 0, unfolded add_0_right]

lemma append_loop_type: "append_loop segs c off = Some c' \<Longrightarrow> chunk_type c' = chunk_type c"
  by (induction segs c off rule: append_loop.induct)
    (auto simp: AppendForChunk_def bind_eq_Some_conv dest: chunk_type_write)

lemma append_keyed_loop_type:
  "append_keyed_loop cmp key segs c off pre = Some r \<Longrightarrow> chunk_type (fst r) = chunk_type c"
  by (induction cmp key segs c off pre rule: append_keyed_loop.induct)
    (auto simp: AppendForChunk_def bind_eq_Some_conv dest: chunk_type_write)

lemma Make_not_cell: "Make hf ty segs = Some r \<Longrightarrow> \<not> is_cell (fst r)"
  by (cases ty)
    (auto simp: MapChunker_Make_def SetChunker_Make_def keyed_Make_def ListChunker_Make_def BlobChunker_Make_def
      MetaChunker_Make_def m_data_write_def bind_eq_Some_conv is_cell_def Let_def
      dest!: chunk_type_write0 append_loop_type append_keyed_loop_type)

lemma HandleBoundary_grows [grows]:
  "HandleBoundary hf rh ty segs cs = Some cs' \<Longrightarrow> adds_nodes (cs_store cs) (cs_store cs')"
  by (auto simp: HandleBoundary_def bind_eq_Some_conv dest!: Make_not_cell intro!: adds_nodes_upd)

lemma append_phase_grows [grows]:
  "append_phase hf rh ty seg segs cs = Some cs' \<Longrightarrow> adds_nodes (cs_store cs) (cs_store cs')"
proof (induction rule: append_phase.raw_induct[rotated 1, consumes 1])
  case (1 append_phase hf rh ty seg segs cs cs')
  have next_seg: "(case segs of [] \<Rightarrow> Some c | s # ss \<Rightarrow> append_phase hf rh ty s ss c) = Some cs' \<Longrightarrow>
      adds_nodes (cs_store c) (cs_store cs')" for c
    using 1(1) by (auto split: list.splits)
  from 1(2) obtain data i where "seg_bytes seg = Some data" and
    i: "PosToIdx seg (fst (TryHashBytes (cs_rhasher cs) data)) = Some i"
    by (auto simp: bind_eq_Some_conv)
  let ?cs = "cs\<lparr>cs_rhasher := snd (TryHashBytes (cs_rhasher cs) data)\<rparr>"
  show ?case
  proof (cases "CrossedBoundary (cs_rhasher ?cs)")
    case True
    with 1(2) \<open>seg_bytes seg = Some data\<close> i obtain sp c where
      "HandleBoundary hf rh ty (cs_segs cs @ [fst sp]) ?cs = Some c"
      "(if \<not> empty_seg (snd sp) then append_phase hf rh ty (snd sp) segs c
        else case segs of [] \<Rightarrow> Some c | s # ss \<Rightarrow> append_phase hf rh ty s ss c) = Some cs'"
      by (auto simp: bind_eq_Some_conv Let_def)
    then show ?thesis using next_seg[of c] 1(1)[of hf rh ty "snd sp" segs c cs']
      by (auto split: if_splits dest!: HandleBoundary_grows intro: adds_nodes_trans)
  next
    case False
    with 1(2) \<open>seg_bytes seg = Some data\<close> i next_seg show ?thesis
      by (force simp: Let_def split: if_splits)
  qed
qed

lemma cursor_phase_grows [grows]:
  "cursor_phase hf rh ty ld cur seg cs = Some r \<Longrightarrow> adds_nodes (cs_store cs) (cs_store (snd r))"
proof (induction rule: cursor_phase.raw_induct[rotated 1, consumes 1])
  case (1 cursor_phase hf rh ty ld cur seg cs r)
  from 1(2) obtain data where d: "seg_bytes seg = Some data" by (auto simp: bind_eq_Some_conv)
  let ?cs = "cs\<lparr>cs_rhasher := snd (TryHashBytes (cs_rhasher cs) data)\<rparr>"
  show ?case
  proof (cases "fst (TryHashBytes (cs_rhasher cs) data) = seg_num_bytes seg")
    case True
    with 1(2) d obtain nd idx rest where cur: "cur = (nd, idx) # rest"
      by (cases cur) (auto simp: bind_eq_Some_conv Let_def)
    from 1(2) d True obtain p where "SkipEntries (ld ++ cs_store cs) 1 (parent_builder rh (cs_parents cs)) = Some p"
      by (auto simp: bind_eq_Some_conv Let_def simp del: One_nat_def)
    with 1(2) d True cur obtain a :: "nat \<times> cursor" and e where "isEnd (snd a) = Some e" and r:
      "(if \<not> e then case snd a of [] \<Rightarrow> None
        | (nd', idx') # _ \<Rightarrow> Option.bind (numEntries nd') (\<lambda>n'. Option.bind (GetSegment nd' (nat idx') n') (\<lambda>s.
            cursor_phase hf rh ty ld (snd a) s (?cs\<lparr>cs_parents := snd p, cs_segs := cs_segs ?cs @ [seg]\<rparr>)))
        else Some (snd a, ?cs\<lparr>cs_parents := snd p, cs_segs := cs_segs ?cs @ [seg]\<rparr>)) = Some r"
      unfolding Let_def by (clarsimp simp: bind_eq_Some_conv simp del: One_nat_def split del: if_split)
    then have "snd r = ?cs\<lparr>cs_parents := snd p, cs_segs := cs_segs ?cs @ [seg]\<rparr> \<or>
        (\<exists>s. cursor_phase hf rh ty ld (snd a) s (?cs\<lparr>cs_parents := snd p, cs_segs := cs_segs ?cs @ [seg]\<rparr>) = Some r)"
      by (cases "snd a") (auto simp: bind_eq_Some_conv split: if_splits)
    then show ?thesis by (auto dest!: 1(1))
  next
    case False
    with 1(2) d obtain sp c where "HandleBoundary hf rh ty (cs_segs cs @ [fst sp]) ?cs = Some c"
      "r = (cur, c) \<or> cursor_phase hf rh ty ld cur (snd sp) c = Some r"
      by (clarsimp simp: bind_eq_Some_conv Let_def split: if_splits) blast+
    then show ?thesis by (auto dest!: HandleBoundary_grows 1(1) intro: adds_nodes_trans)
  qed
qed

lemma make_last_grows [grows]:
  "make_last hf rh ty ld cur cs = Some cs' \<Longrightarrow> adds_nodes (cs_store cs) (cs_store cs')"
  by (auto simp: make_last_def bind_eq_Some_conv split: if_splits dest!: HandleBoundary_grows intro: adds_nodes_trans)

lemma commit_level_grows [grows]:
  assumes "commit_level hf rh ty ld st lv ps = Some cs"
  shows "adds_nodes st (cs_store cs)"
proof -
  let ?c0 = "\<lambda>ps'. \<lparr>cs_store = st, cs_rhasher = nb_rhasher lv, cs_parents = ps', cs_segs = [], cs_last = None\<rparr>"
  from assms obtain ps' c1 none r where
    c1: "(case (nb_pre lv, nb_appended lv) of (Some seg, segs) \<Rightarrow> append_phase hf rh ty seg segs (?c0 ps')
        | (None, seg # segs) \<Rightarrow> append_phase hf rh ty seg segs (?c0 ps') | (None, []) \<Rightarrow> Some (?c0 ps')) = Some c1"
    and r: "(case nb_cursor lv of None \<Rightarrow> Some (None, c1)
        | Some cur \<Rightarrow> if none then Some (Some cur, c1)
            else (case cur of [] \<Rightarrow> None
                  | (nd, idx) # _ \<Rightarrow> do { CHECK (0 \<le> idx); n \<leftarrow> numEntries nd;
                      node_seg \<leftarrow> GetSegment nd (nat idx) (sub64 n (nat idx));
                      (cur, cs) \<leftarrow> cursor_phase hf rh ty ld cur node_seg c1; Some (Some cur, cs) })) = Some r"
    and "make_last hf rh ty ld (fst r) (snd r) = Some cs"
    unfolding commit_level_def Let_def by (clarsimp simp: bind_eq_Some_conv split del: if_split)
  moreover have "adds_nodes st (cs_store c1)"
    using c1 by (auto split: option.splits list.splits dest!: append_phase_grows)
  moreover have "adds_nodes (cs_store c1) (cs_store (snd r))"
    using r by (auto simp: bind_eq_Some_conv split: option.splits if_splits list.splits dest!: cursor_phase_grows)
  ultimately show ?thesis using make_last_grows adds_nodes_trans by blast
qed

lemma RecursiveCommit_grows [grows]:
  "RecursiveCommit hf rh ty ld st nb = Some r \<Longrightarrow> adds_nodes st (snd r)"
proof (induction rule: RecursiveCommit.raw_induct[rotated 1, consumes 1])
  case (1 RecursiveCommit hf rh ty ld st nb r)
  from 1(2) obtain lv ps where nb: "nb = lv # ps" by (cases nb) auto
  with 1(2) obtain cs where c: "commit_level hf rh ty ld st lv ps = Some cs" by (auto simp: bind_eq_Some_conv)
  with 1(2) nb obtain p qs where cs: "cs_parents cs = p # qs"
    by (cases "cs_parents cs") (auto simp: bind_eq_Some_conv)
  with 1(2) nb c have "snd r = cs_store cs \<or> RecursiveCommit hf rh CT_kMeta ld (cs_store cs) (p # qs) = Some r"
    by (auto simp: bind_eq_Some_conv split: if_splits)
  with commit_level_grows[OF c] show ?case by (auto dest!: 1(1) intro: adds_nodes_trans)
qed

lemma Commit_grows [grows]: "Commit hf rh ty ld st nb = Some r \<Longrightarrow> adds_nodes st (snd r)"
  by (auto simp: Commit_def bind_eq_Some_conv split: if_splits dest!: RecursiveCommit_grows)

lemma PreorderDump_grows [grows]: "PreorderDump cache w roots = Some w' \<Longrightarrow> adds_nodes w w'"
proof (induction rule: PreorderDump.raw_induct[rotated 1, consumes 1])
  case (1 PreorderDump cache w roots w')
  show ?case
  proof (cases roots)
    case (Cons root rest)
    show ?thesis
    proof (cases "cache root")
      case None
      with Cons 1 show ?thesis by simp
    next
      case (Some chunk)
      with Cons 1(2) obtain roots' where "PreorderDump cache (w(root \<mapsto> chunk)) roots' = Some w'"
        by (cases "CreateFromChunk chunk"; cases "the (CreateFromChunk chunk)") (auto simp: bind_eq_Some_conv)
      moreover have node: "\<not> is_cell chunk"
        using Cons Some 1(2) by (cases "CreateFromChunk chunk") (auto simp: CreateFromChunk_def is_cell_def)
      from 1(1)[OF calculation] show ?thesis by (rule adds_nodes_trans[OF adds_nodes_upd[OF node]])
    qed
  qed (use 1 in simp)
qed

lemma AdvancedCommit_grows [grows]: "AdvancedCommit hf rh ty ld w root ops = Some r \<Longrightarrow> adds_nodes w (snd r)"
  by (auto simp: AdvancedCommit_def bind_eq_Some_conv split: option.splits list.splits
      dest!: Commit_grows PreorderDump_grows)

lemma write_empty_grows [grows]: "write_empty hf ty st = Some r \<Longrightarrow> adds_nodes st (snd r)"
  by (auto simp: write_empty_def bind_eq_Some_conv dest!: Make_not_cell intro!: adds_nodes_upd)

lemma write_new_grows [grows]: "write_new hf rh ty seg st = Some r \<Longrightarrow> adds_nodes st (snd r)"
  by (auto simp: write_new_def bind_eq_Some_conv dest: Commit_grows)

lemma splice_at_grows [grows]: "splice_at hf rh ty nb n seg st = Some r \<Longrightarrow> adds_nodes st (snd r)"
  by (auto simp: splice_at_def bind_eq_Some_conv dest: Commit_grows)

lemma create_grows [grows]:
  "SBlob_create hf rh data st = Some r \<Longrightarrow> adds_nodes st (snd r)"
  "SList_create hf rh elements st = Some r \<Longrightarrow> adds_nodes st (snd r)"
  "SMap_create hf rh sorter keys vals st = Some r \<Longrightarrow> adds_nodes st (snd r)"
  "SSet_create hf rh sorter keys st = Some r \<Longrightarrow> adds_nodes st (snd r)"
  by (auto simp: SBlob_create_def SList_create_def SMap_create_def SSet_create_def bind_eq_Some_conv
      split: if_splits dest!: write_empty_grows write_new_grows)

lemma modify_grows [grows]:
  "SBlob_Splice hf rh obj pos n data st = Some r \<Longrightarrow> adds_nodes st (snd r)"
  "SList_Splice hf rh obj pos n entries st = Some r \<Longrightarrow> adds_nodes st (snd r)"
  "SMap_Set hf rh obj key x st = Some r \<Longrightarrow> adds_nodes st (snd r)"
  "SMap_Remove hf rh obj key st = Some r \<Longrightarrow> adds_nodes st (snd r)"
  "SSet_Remove hf rh obj key st = Some r \<Longrightarrow> adds_nodes st (snd r)"
  "SSet_Set hf rh obj key st = Some r \<Longrightarrow> adds_nodes st (snd r)"
  by (auto simp: SBlob_Splice_def SList_Splice_def SMap_Set_def SMap_Remove_def SSet_Remove_def SSet_Set_def
      keyed_Remove_def bind_eq_Some_conv split: if_splits dest!: splice_at_grows)

lemma SMap_Set_multi_grows [grows]: "SMap_Set_multi hf rh sorter obj keys vals st = Some r \<Longrightarrow> adds_nodes st (snd r)"
  by (auto simp: SMap_Set_multi_def bind_eq_Some_conv dest: AdvancedCommit_grows)

end
