(* ===== verification/Head_Version.thy ===== *)
theory Head_Version
  imports Cell "HOL-Library.AList"
begin

text \<open>
  The table of branch heads and latest versions of a worker: \<open>SimpleHeadVersion\<close> of
  src/worker/simple_head_version.cc and include/worker/simple_head_version.h.

  Keys and branch names are the bytes of their slices.  A \<open>std::unordered_map\<close> is an association
  list with distinct keys and a \<open>std::unordered_set\<close> a list of distinct elements, in the order of
  their iteration, which C++ leaves open and no statement depends on; a \<open>std::map\<close> is an association
  list in ascending order of its keys.  The protobuf messages of the head file are parameters
  (\<open>parse\<close>, \<open>ser\<close>): the model reads and writes the message value.
\<close>

section \<open>Model\<close>

type_synonym branch_map = "(bytes \<times> hash) list"

record head_version =
  branch_ver :: "(bytes \<times> branch_map) list"
  latest_ver :: "(bytes \<times> hash list) list"

definition no_versions :: head_version where
  "no_versions = \<lparr>branch_ver = [], latest_ver = []\<rparr>"

text \<open>Insertion in a \<open>std::map\<close>; \<open>emplace\<close> keeps the value of a key that is there.\<close>

fun map_assign :: "bytes \<Rightarrow> 'v \<Rightarrow> (bytes \<times> 'v) list \<Rightarrow> (bytes \<times> 'v) list" where
  "map_assign k v [] = [(k, v)]"
| "map_assign k v ((k', v') # m) =
     (if k = k' then (k, v) # m
      else if slice_less k k' then (k, v) # (k', v') # m
      else (k', v') # map_assign k v m)"

definition map_emplace :: "bytes \<Rightarrow> 'v \<Rightarrow> (bytes \<times> 'v) list \<Rightarrow> (bytes \<times> 'v) list" where
  "map_emplace k v m = (if map_of m k = None then map_assign k v m else m)"

definition umap_emplace :: "bytes \<Rightarrow> 'v \<Rightarrow> (bytes \<times> 'v) list \<Rightarrow> (bytes \<times> 'v) list" where
  "umap_emplace k v m = (if map_of m k = None then m @ [(k, v)] else m)"

definition Exists_key :: "head_version \<Rightarrow> bytes \<Rightarrow> bool" where
  "Exists_key hv key = (map_of (latest_ver hv) key \<noteq> None)"

definition Exists_branch :: "head_version \<Rightarrow> bytes \<Rightarrow> bytes \<Rightarrow> bool" where
  "Exists_branch hv key branch =
     (case map_of (branch_ver hv) key of None \<Rightarrow> False | Some bv \<Rightarrow> map_of bv branch \<noteq> None)"

text \<open>\<open>GetBranch\<close>: the returned flag and the hash written to \<open>*ver\<close>.\<close>

definition GetBranch :: "head_version \<Rightarrow> bytes \<Rightarrow> bytes \<Rightarrow> bool \<times> hash" where
  "GetBranch hv key branch =
     (case map_of (branch_ver hv) key of None \<Rightarrow> (False, kNull)
      | Some bv \<Rightarrow> (case map_of bv branch of None \<Rightarrow> (False, kNull) | Some ver \<Rightarrow> (True, ver)))"

definition GetLatest :: "head_version \<Rightarrow> bytes \<Rightarrow> hash list" where
  "GetLatest hv key = (case map_of (latest_ver hv) key of None \<Rightarrow> [] | Some lv \<Rightarrow> lv)"

definition PutBranch :: "bytes \<Rightarrow> bytes \<Rightarrow> hash \<Rightarrow> head_version \<Rightarrow> head_version" where
  "PutBranch key branch ver hv =
     (let bvs = umap_emplace key [] (branch_ver hv)
      in hv\<lparr>branch_ver := AList.map_entry key (map_assign branch ver) bvs\<rparr>)"

text \<open>\<open>PutLatest\<close>.  Erasing a hash from an \<open>unordered_set\<close> reads its bytes, so an empty
  \<open>prev_ver1\<close> or \<open>ver\<close> is an access through a null pointer.\<close>

definition PutLatest :: "bytes \<Rightarrow> hash \<Rightarrow> hash \<Rightarrow> hash \<Rightarrow> head_version \<Rightarrow> head_version option" where
  "PutLatest key prev_ver1 prev_ver2 ver hv =
     do { CHECK (prev_ver1 \<noteq> None \<and> ver \<noteq> None);
          let lvs = umap_emplace key [] (latest_ver hv);
          let erased = (\<lambda>lv. (if prev_ver2 \<noteq> None then removeAll prev_ver2 else id) (removeAll prev_ver1 lv));
          Some (hv\<lparr>latest_ver := AList.map_entry key (List.insert ver \<circ> erased) lvs\<rparr>) }"

definition RemoveBranch :: "bytes \<Rightarrow> bytes \<Rightarrow> head_version \<Rightarrow> head_version" where
  "RemoveBranch key branch hv =
     (if Exists_branch hv key branch
      then hv\<lparr>branch_ver := AList.map_entry key (AList.delete branch) (branch_ver hv)\<rparr>
      else hv)"

text \<open>\<open>RenameBranch\<close>: \<open>at\<close> throws on a key or a branch that is not there.\<close>

definition RenameBranch :: "bytes \<Rightarrow> bytes \<Rightarrow> bytes \<Rightarrow> head_version \<Rightarrow> head_version option" where
  "RenameBranch key old_branch new_branch hv =
     do { bv \<leftarrow> map_of (branch_ver hv) key;
          ver \<leftarrow> map_of bv old_branch;
          Some (hv\<lparr>branch_ver := AList.map_entry key
             (\<lambda>bv. AList.delete old_branch (map_emplace new_branch ver bv)) (branch_ver hv)\<rparr>) }"

definition IsLatest :: "head_version \<Rightarrow> bytes \<Rightarrow> hash \<Rightarrow> bool" where
  "IsLatest hv key ver =
     (case map_of (latest_ver hv) key of None \<Rightarrow> False | Some lv \<Rightarrow> List.member lv ver)"

definition IsBranchHead :: "head_version \<Rightarrow> bytes \<Rightarrow> bytes \<Rightarrow> hash \<Rightarrow> bool" where
  "IsBranchHead hv key branch ver =
     (if Exists_branch hv key branch then GetBranch hv key branch = (True, ver) else False)"

definition ListKey :: "head_version \<Rightarrow> bytes list" where
  "ListKey hv = map fst (latest_ver hv)"

definition ListBranch :: "head_version \<Rightarrow> bytes \<Rightarrow> bytes list" where
  "ListBranch hv key = (case map_of (branch_ver hv) key of None \<Rightarrow> [] | Some bv \<Rightarrow> map fst bv)"

text \<open>The message of the head file: per key its branches with their versions.\<close>

type_synonym key_versions = "(bytes \<times> (bytes \<times> bytes) list) list"

fun load_branches :: "(bytes \<times> bytes) list \<Rightarrow> branch_map \<Rightarrow> branch_map option" where
  "load_branches [] bv = Some bv"
| "load_branches ((branch, version) # bs) bv =
     do { h \<leftarrow> rd_bytes kByteLength version 0;
          load_branches bs (map_emplace branch (Some h) bv) }"

fun load_keys :: "key_versions \<Rightarrow> (bytes \<times> branch_map) list \<Rightarrow> (bytes \<times> branch_map) list option" where
  "load_keys [] bvs = Some bvs"
| "load_keys ((key, branches) # kvs) bvs =
     do { let bvs1 = umap_emplace key [] bvs;
          bv \<leftarrow> map_of bvs1 key;
          bv' \<leftarrow> load_branches branches bv;
          load_keys kvs (AList.map_entry key (\<lambda>_. bv') bvs1) }"

text \<open>\<open>Load\<close>: the flag and the table.  The file is \<open>None\<close> when it cannot be opened.\<close>

definition Load :: "(bytes \<Rightarrow> key_versions option) \<Rightarrow> bytes option \<Rightarrow> head_version \<Rightarrow>
    (bool \<times> head_version) option" where
  "Load parse file hv =
     (case file of None \<Rightarrow> Some (False, hv)
      | Some content \<Rightarrow>
          (case parse content of None \<Rightarrow> Some (False, hv)
           | Some kvs \<Rightarrow>
               do { bvs \<leftarrow> load_keys kvs (branch_ver hv);
                    Some (True, hv\<lparr>branch_ver := bvs\<rparr>) }))"

text \<open>The message \<open>Dump\<close> builds; an empty hash has no bytes to store.\<close>

fun dump_branches :: "branch_map \<Rightarrow> (bytes \<times> bytes) list option" where
  "dump_branches [] = Some []"
| "dump_branches ((branch, ver) # bv) =
     do { h \<leftarrow> ver; bs \<leftarrow> dump_branches bv; Some ((branch, h) # bs) }"

fun dump_keys :: "(bytes \<times> branch_map) list \<Rightarrow> key_versions option" where
  "dump_keys [] = Some []"
| "dump_keys ((key, bv) # bvs) =
     do { bs \<leftarrow> dump_branches bv; kvs \<leftarrow> dump_keys bvs; Some ((key, bs) # kvs) }"

definition Dump :: "(key_versions \<Rightarrow> bytes option) \<Rightarrow> head_version \<Rightarrow> bytes option option" where
  "Dump ser hv = do { kvs \<leftarrow> dump_keys (branch_ver hv); Some (ser kvs) }"

section \<open>Association lists\<close>

lemma map_of_map_assign [simp]: "map_of (map_assign k v m) = (map_of m)(k \<mapsto> v)"
  by (induction k v m rule: map_assign.induct) auto

lemma map_of_map_emplace: "map_of (map_emplace k v m) = (map_of [(k, v)] ++ map_of m)"
  by (auto simp: map_emplace_def map_add_def fun_eq_iff split: option.split)

lemma map_of_umap_emplace: "map_of (umap_emplace k v m) = (map_of [(k, v)] ++ map_of m)"
  by (auto simp: umap_emplace_def map_add_def fun_eq_iff split: option.split)

lemma set_map_assign: "fst ` set (map_assign k v m) = insert k (fst ` set m)"
  by (induction k v m rule: map_assign.induct) auto

lemma sorted_map_assign:
  "sorted_wrt (<) (map fst m) \<Longrightarrow> sorted_wrt (<) (map fst (map_assign k v m))"
proof (induction k v m rule: map_assign.induct)
  case (2 k v k' v' m)
  have "set (map fst (map_assign k v m)) = insert k (set (map fst m))"
    using set_map_assign[of k v m] by simp
  with 2 show ?case by auto
qed simp

lemma sorted_map_emplace:
  "sorted_wrt (<) (map fst m) \<Longrightarrow> sorted_wrt (<) (map fst (map_emplace k v m))"
  by (simp add: map_emplace_def sorted_map_assign)

lemma sorted_delete: "sorted_wrt P (map fst m) \<Longrightarrow> sorted_wrt P (map fst (AList.delete k m))"
  by (induction m) (auto simp: AList.delete_eq)

lemma keys_map_entry: "map fst (AList.map_entry k f m) = map fst m"
  by (induction m) auto

lemma set_map_entry:
  "distinct (map fst m) \<Longrightarrow> set (AList.map_entry k f m) = (\<lambda>(k', v). (k', if k' = k then f v else v)) ` set m"
  by (induction m) (force intro!: image_cong)+

lemma distinct_umap_emplace: "distinct (map fst m) \<Longrightarrow> distinct (map fst (umap_emplace k v m))"
  by (auto simp: umap_emplace_def map_of_eq_None_iff)

section \<open>The abstract table\<close>

text \<open>What the table means: the head of a branch of a key, and the latest versions of a key.\<close>

definition heads :: "head_version \<Rightarrow> bytes \<times> bytes \<rightharpoonup> hash" where
  "heads hv kb = (case map_of (branch_ver hv) (fst kb) of None \<Rightarrow> None | Some bv \<Rightarrow> map_of bv (snd kb))"

definition latest :: "head_version \<Rightarrow> bytes \<rightharpoonup> hash set" where
  "latest hv key = map_option set (map_of (latest_ver hv) key)"

text \<open>A table whose keys are distinct and whose values satisfy \<open>P\<close>.\<close>

definition table_ok :: "('v \<Rightarrow> bool) \<Rightarrow> (bytes \<times> 'v) list \<Rightarrow> bool" where
  "table_ok P m \<longleftrightarrow> distinct (map fst m) \<and> (\<forall>(k, v) \<in> set m. P v)"

definition hv_ok :: "head_version \<Rightarrow> bool" where
  "hv_ok hv \<longleftrightarrow>
     table_ok (\<lambda>bv. sorted_wrt (<) (map fst bv)) (branch_ver hv) \<and> table_ok distinct (latest_ver hv)"

lemma heads_PutBranch: "heads (PutBranch key branch ver hv) = (heads hv)((key, branch) \<mapsto> ver)"
  by (auto simp: heads_def PutBranch_def Let_def map_of_map_entry map_of_umap_emplace map_add_def
      fun_eq_iff split: option.splits)

lemma heads_RemoveBranch: "heads (RemoveBranch key branch hv) = (heads hv)((key, branch) := None)"
  by (auto simp: heads_def RemoveBranch_def Exists_branch_def map_of_map_entry delete_conv' fun_eq_iff
      split: option.splits)

lemma heads_RenameBranch:
  assumes "heads hv (key, old_branch) = Some ver" and "heads hv (key, new_branch) = None"
  shows "\<exists>hv'. RenameBranch key old_branch new_branch hv = Some hv' \<and>
    heads hv' = (heads hv)((key, old_branch) := None, (key, new_branch) \<mapsto> ver) \<and> latest hv' = latest hv"
  using assms
  by (auto simp: heads_def latest_def RenameBranch_def map_of_map_entry delete_conv' map_of_map_emplace
      map_add_def fun_eq_iff split: option.splits)

lemma latest_PutLatest:
  assumes "prev_ver1 \<noteq> None" and "ver \<noteq> None"
  shows "\<exists>hv'. PutLatest key prev_ver1 prev_ver2 ver hv = Some hv' \<and> heads hv' = heads hv \<and>
    latest hv' = (latest hv)(key \<mapsto>
      insert ver (case latest hv key of None \<Rightarrow> {} | Some lv \<Rightarrow> lv - {prev_ver1} - ({prev_ver2} - {None})))"
  using assms
  by (auto simp: latest_def heads_def PutLatest_def Let_def map_of_map_entry map_of_umap_emplace map_add_def
      fun_eq_iff split: option.splits)

lemma latest_simps [simp]:
  "latest (PutBranch key branch ver hv) = latest hv"
  "latest (RemoveBranch key branch hv) = latest hv"
  by (simp_all add: latest_def PutBranch_def RemoveBranch_def Let_def fun_eq_iff)

lemma GetBranch_heads:
  "GetBranch hv key branch = (case heads hv (key, branch) of None \<Rightarrow> (False, kNull) | Some ver \<Rightarrow> (True, ver))"
  by (auto simp: GetBranch_def heads_def split: option.split)

lemma Exists_branch_heads: "Exists_branch hv key branch \<longleftrightarrow> heads hv (key, branch) \<noteq> None"
  by (auto simp: Exists_branch_def heads_def split: option.split)

section \<open>Invariant\<close>

lemma table_ok_entry: "table_ok P m \<Longrightarrow> (\<And>v. P v \<Longrightarrow> P (f v)) \<Longrightarrow> table_ok P (AList.map_entry k f m)"
  by (auto simp: table_ok_def keys_map_entry set_map_entry)

lemma table_ok_emplace: "table_ok P m \<Longrightarrow> P v \<Longrightarrow> table_ok P (umap_emplace k v m)"
  by (auto simp: table_ok_def umap_emplace_def map_of_eq_None_iff)

lemma table_okD: "table_ok P m \<Longrightarrow> map_of m k = Some v \<Longrightarrow> P v"
  by (auto simp: table_ok_def dest: map_of_SomeD)

lemma hv_ok_no_versions: "hv_ok no_versions"
  by (simp add: hv_ok_def no_versions_def table_ok_def)

lemma hv_ok_PutBranch: "hv_ok hv \<Longrightarrow> hv_ok (PutBranch key branch ver hv)"
  by (simp add: hv_ok_def PutBranch_def Let_def table_ok_entry table_ok_emplace sorted_map_assign)

lemma hv_ok_RemoveBranch: "hv_ok hv \<Longrightarrow> hv_ok (RemoveBranch key branch hv)"
  by (simp add: hv_ok_def RemoveBranch_def table_ok_entry sorted_delete)

lemma hv_ok_RenameBranch:
  "hv_ok hv \<Longrightarrow> RenameBranch key old_branch new_branch hv = Some hv' \<Longrightarrow> hv_ok hv'"
  by (auto simp: hv_ok_def RenameBranch_def bind_eq_Some_conv
      intro!: table_ok_entry sorted_delete sorted_map_emplace)

lemma hv_ok_PutLatest:
  "hv_ok hv \<Longrightarrow> PutLatest key prev_ver1 prev_ver2 ver hv = Some hv' \<Longrightarrow> hv_ok hv'"
  by (auto simp: hv_ok_def PutLatest_def Let_def bind_eq_Some_conv distinct_removeAll
      intro!: table_ok_entry table_ok_emplace)

lemma load_branches_sorted:
  "load_branches bs bv = Some bv' \<Longrightarrow> sorted_wrt (<) (map fst bv) \<Longrightarrow> sorted_wrt (<) (map fst bv')"
  by (induction bs bv rule: load_branches.induct) (auto simp: bind_eq_Some_conv sorted_map_emplace)

lemma load_keys_ok:
  "load_keys kvs bvs = Some bvs' \<Longrightarrow> table_ok (\<lambda>bv. sorted_wrt (<) (map fst bv)) bvs \<Longrightarrow>
   table_ok (\<lambda>bv. sorted_wrt (<) (map fst bv)) bvs'"
proof (induction kvs bvs rule: load_keys.induct)
  case (2 key branches kvs bvs)
  let ?bvs = "umap_emplace key [] bvs" and ?P = "\<lambda>bv. sorted_wrt (<) (map fst bv)"
  from 2(2) obtain bv bv' where *: "map_of ?bvs key = Some bv" "load_branches branches bv = Some bv'"
    "load_keys kvs (AList.map_entry key (\<lambda>_. bv') ?bvs) = Some bvs'"
    by (auto simp: Let_def bind_eq_Some_conv)
  have ok: "table_ok ?P ?bvs" using 2(3) by (simp add: table_ok_emplace)
  then have "?P bv'" using load_branches_sorted[OF *(2)] table_okD[OF ok *(1)] by simp
  then show ?case using 2(1)[OF refl *(1,2,3)] ok by (simp add: table_ok_entry)
qed simp

lemma hv_ok_Load: "hv_ok hv \<Longrightarrow> Load parse file hv = Some (b, hv') \<Longrightarrow> hv_ok hv'"
  by (auto simp: hv_ok_def Load_def bind_eq_Some_conv load_keys_ok split: option.splits)

section \<open>Writing and reading the head file\<close>

definition heads_full :: "head_version \<Rightarrow> bool" where
  "heads_full hv \<longleftrightarrow> (\<forall>kb h. heads hv kb = Some h \<longrightarrow> (\<exists>d. h = Some d \<and> length d = kByteLength))"

lemma dump_load_branches:
  assumes "sorted_wrt (<) (map fst (bv0 @ bv))" and "\<forall>(b, h) \<in> set bv. \<exists>d. h = Some d \<and> length d = kByteLength"
  shows "\<exists>bs. dump_branches bv = Some bs \<and> load_branches bs bv0 = Some (bv0 @ bv)"
  using assms
proof (induction bv arbitrary: bv0)
  case (Cons bh bv)
  obtain b d where bh: "bh = (b, Some d)" "length d = kByteLength" using Cons.prems(2) by (cases bh) auto
  have "\<forall>x \<in> set (map fst bv0). x < b" using Cons.prems(1) by (auto simp: sorted_wrt_append bh)
  then have "map_assign b (Some d) bv0 = bv0 @ [(b, Some d)]" "map_of bv0 b = None"
    by (induction bv0) auto
  then have "map_emplace b (Some d) bv0 = bv0 @ [(b, Some d)]" by (simp add: map_emplace_def)
  moreover from Cons.IH[of "bv0 @ [(b, Some d)]"] Cons.prems bh obtain bs where
    "dump_branches bv = Some bs" "load_branches bs (bv0 @ [(b, Some d)]) = Some (bv0 @ [(b, Some d)] @ bv)" by auto
  ultimately show ?case by (simp add: bh rd_bytes_def)
qed simp

lemma dump_load_keys:
  assumes "distinct (map fst (bvs0 @ bvs))"
    and "\<forall>(k, bv) \<in> set bvs. sorted_wrt (<) (map fst bv) \<and> (\<forall>(b, h) \<in> set bv. \<exists>d. h = Some d \<and> length d = kByteLength)"
  shows "\<exists>kvs. dump_keys bvs = Some kvs \<and> load_keys kvs bvs0 = Some (bvs0 @ bvs)"
  using assms
proof (induction bvs arbitrary: bvs0)
  case (Cons kb bvs)
  obtain k bv where kb: "kb = (k, bv)" by (cases kb)
  have k: "map_of bvs0 k = None" using Cons.prems(1) by (auto simp: kb map_of_eq_None_iff)
  then have "umap_emplace k [] bvs0 = bvs0 @ [(k, [])]" by (simp add: umap_emplace_def)
  moreover have "AList.map_entry k f (bvs0 @ [(k, [])]) = bvs0 @ [(k, f [])]" for f :: "branch_map \<Rightarrow> branch_map"
    using k by (induction bvs0) (auto split: if_splits)
  moreover obtain bs where "dump_branches bv = Some bs" "load_branches bs [] = Some bv"
    using dump_load_branches[of "[]" bv] Cons.prems(2) kb by auto
  moreover obtain kvs where "dump_keys bvs = Some kvs" "load_keys kvs (bvs0 @ [(k, bv)]) = Some (bvs0 @ [(k, bv)] @ bvs)"
    using Cons.IH[of "bvs0 @ [(k, bv)]"] Cons.prems by (auto simp: kb)
  ultimately show ?case using k by (simp add: kb map_add_def)
qed simp

section \<open>The contract of a head table\<close>

text \<open>A commit \<open>(key, prev_ver1, prev_ver2, ver)\<close> is what \<open>PutLatest\<close> is called with.\<close>

type_synonym commit = "bytes \<times> hash \<times> hash \<times> hash"

definition commit_ver :: "commit \<Rightarrow> bytes \<times> hash" where
  "commit_ver c = (case c of (k, p1, p2, v) \<Rightarrow> (k, v))"

definition commit_preds :: "commit \<Rightarrow> (bytes \<times> hash) set" where
  "commit_preds c = (case c of (k, p1, p2, v) \<Rightarrow> insert (k, p1) (if p2 = None then {} else {(k, p2)}))"

text \<open>No commit creates a version that it or an earlier commit has as a predecessor.\<close>

fun new_versions :: "(bytes \<times> hash) set \<Rightarrow> commit list \<Rightarrow> bool" where
  "new_versions P [] \<longleftrightarrow> True"
| "new_versions P (c # cs) \<longleftrightarrow>
     commit_ver c \<notin> P \<union> commit_preds c \<and> new_versions (P \<union> commit_preds c) cs"

fun put_all :: "(bytes \<Rightarrow> hash \<Rightarrow> hash \<Rightarrow> hash \<Rightarrow> 's \<Rightarrow> 's option) \<Rightarrow> commit list \<Rightarrow> 's \<Rightarrow> 's option" where
  "put_all put [] s = Some s"
| "put_all put ((k, p1, p2, v) # cs) s = do { s' \<leftarrow> put k p1 p2 v s; put_all put cs s' }"

definition unsucceeded :: "(bytes \<times> hash) set \<Rightarrow> (bytes \<times> hash) set \<Rightarrow> bytes \<rightharpoonup> hash set" where
  "unsucceeded V P k = (if V `` {k} = {} then None else Some (V `` {k} - P `` {k}))"

locale head_table =
  fixes hd :: "'s \<Rightarrow> bytes \<times> bytes \<rightharpoonup> hash"
    and lt :: "'s \<Rightarrow> bytes \<rightharpoonup> hash set"
    and put_branch :: "bytes \<Rightarrow> bytes \<Rightarrow> hash \<Rightarrow> 's \<Rightarrow> 's"
    and put_latest :: "bytes \<Rightarrow> hash \<Rightarrow> hash \<Rightarrow> hash \<Rightarrow> 's \<Rightarrow> 's option"
    and remove_branch :: "bytes \<Rightarrow> bytes \<Rightarrow> 's \<Rightarrow> 's"
    and rename_branch :: "bytes \<Rightarrow> bytes \<Rightarrow> bytes \<Rightarrow> 's \<Rightarrow> 's option"
  assumes hd_put_branch: "hd (put_branch k b v s) = (hd s)((k, b) \<mapsto> v)"
    and lt_put_branch: "lt (put_branch k b v s) = lt s"
    and hd_remove_branch: "hd (remove_branch k b s) = (hd s)((k, b) := None)"
    and lt_remove_branch: "lt (remove_branch k b s) = lt s"
    and rename_branch: "hd s (k, old_b) = Some v \<Longrightarrow> hd s (k, new_b) = None \<Longrightarrow>
      \<exists>s'. rename_branch k old_b new_b s = Some s' \<and>
        hd s' = (hd s)((k, old_b) := None, (k, new_b) \<mapsto> v) \<and> lt s' = lt s"
    and put_latest: "p1 \<noteq> None \<Longrightarrow> v \<noteq> None \<Longrightarrow>
      \<exists>s'. put_latest k p1 p2 v s = Some s' \<and> hd s' = hd s \<and>
        lt s' = (lt s)(k \<mapsto> insert v (case lt s k of None \<Rightarrow> {} | Some lv \<Rightarrow> lv - {p1} - ({p2} - {None})))"
begin

text \<open>Branches are independent of each other and of the latest versions.\<close>

lemma put_branch_other: "(k', b') \<noteq> (k, b) \<Longrightarrow> hd (put_branch k b v s) (k', b') = hd s (k', b')"
  by (auto simp: hd_put_branch)

lemma rename_back:
  assumes "hd s (k, old_b) = Some v" and "hd s (k, new_b) = None"
  shows "\<exists>s1 s2. rename_branch k old_b new_b s = Some s1 \<and> rename_branch k new_b old_b s1 = Some s2 \<and> hd s2 = hd s"
proof -
  obtain s1 where s1: "rename_branch k old_b new_b s = Some s1"
    "hd s1 = (hd s)((k, old_b) := None, (k, new_b) \<mapsto> v)" using rename_branch[OF assms] by auto
  moreover have "old_b \<noteq> new_b" using assms by auto
  ultimately obtain s2 where "rename_branch k new_b old_b s1 = Some s2"
    "hd s2 = (hd s1)((k, new_b) := None, (k, old_b) \<mapsto> v)"
    using rename_branch[of s1 k new_b v old_b] by auto
  then show ?thesis using s1 assms by (auto simp: fun_eq_iff)
qed

text \<open>The latest versions after a sequence of commits are those that no commit has as a
  predecessor.\<close>

lemma put_all_latest:
  assumes "lt s = unsucceeded V P" and "new_versions P cs" and "\<forall>(k, p1, p2, v) \<in> set cs. p1 \<noteq> None \<and> v \<noteq> None"
  shows "\<exists>s'. put_all put_latest cs s = Some s' \<and> hd s' = hd s \<and>
    lt s' = unsucceeded (V \<union> commit_ver ` set cs) (P \<union> \<Union> (commit_preds ` set cs))"
  using assms
proof (induction cs arbitrary: s V P)
  case (Cons c cs)
  obtain k p1 p2 v where c: "c = (k, p1, p2, v)" by (cases c)
  obtain s' where s': "put_latest k p1 p2 v s = Some s'" "hd s' = hd s"
    "lt s' = (lt s)(k \<mapsto> insert v (case lt s k of None \<Rightarrow> {} | Some lv \<Rightarrow> lv - {p1} - ({p2} - {None})))"
    using put_latest[of p1 v k p2 s] Cons.prems(3) by (auto simp: c)
  have "lt s' x = unsucceeded (insert (k, v) V) (P \<union> commit_preds c) x" for x
  proof (cases "x = k")
    case True
    have "(k, v) \<notin> P \<union> commit_preds c" using Cons.prems(2) by (simp add: c commit_ver_def)
    moreover have "commit_preds c `` {k} = insert p1 ({p2} - {None})" by (auto simp: c commit_preds_def)
    ultimately show ?thesis using s'(3) Cons.prems(1) True
      by (auto simp: unsucceeded_def Image_Un split: if_splits)
  next
    case False
    then have "commit_preds c `` {x} = {}" by (auto simp: c commit_preds_def)
    moreover have "insert (k, v) V `` {x} = V `` {x}" using False by auto
    ultimately show ?thesis using s'(3) Cons.prems(1) False by (simp add: unsucceeded_def Un_Image)
  qed
  then have "lt s' = unsucceeded (insert (k, v) V) (P \<union> commit_preds c)" by (rule ext)
  from Cons.IH[OF this] Cons.prems obtain s'' where "put_all put_latest cs s' = Some s''" "hd s'' = hd s'"
    "lt s'' = unsucceeded (insert (k, v) V \<union> commit_ver ` set cs) (P \<union> commit_preds c \<union> \<Union> (commit_preds ` set cs))"
    by auto
  then show ?case using s' by (simp add: c commit_ver_def Un_assoc)
qed simp

end

interpretation simple_table: head_table heads latest PutBranch PutLatest RemoveBranch RenameBranch
  by unfold_locales (simp_all add: heads_PutBranch heads_RemoveBranch heads_RenameBranch latest_PutLatest)

section \<open>Properties\<close>

text \<open>Every operation of the table, as one step.\<close>

datatype head_op =
    OpPutBranch bytes bytes hash
  | OpPutLatest bytes hash hash hash
  | OpRemoveBranch bytes bytes
  | OpRenameBranch bytes bytes bytes

fun head_step :: "head_op \<Rightarrow> head_version \<Rightarrow> head_version option" where
  "head_step (OpPutBranch k b v) hv = Some (PutBranch k b v hv)"
| "head_step (OpPutLatest k p1 p2 v) hv = PutLatest k p1 p2 v hv"
| "head_step (OpRemoveBranch k b) hv = Some (RemoveBranch k b hv)"
| "head_step (OpRenameBranch k b b') hv = RenameBranch k b b' hv"

fun head_run :: "head_op list \<Rightarrow> head_version \<Rightarrow> head_version option" where
  "head_run [] hv = Some hv"
| "head_run (op # ops) hv = do { hv' \<leftarrow> head_step op hv; head_run ops hv' }"

lemma hv_ok_step: "head_step op hv = Some hv' \<Longrightarrow> hv_ok hv \<Longrightarrow> hv_ok hv'"
  by (cases op) (auto intro: hv_ok_PutBranch hv_ok_PutLatest hv_ok_RemoveBranch hv_ok_RenameBranch)

lemma hv_ok_run: "head_run ops hv = Some hv' \<Longrightarrow> hv_ok hv \<Longrightarrow> hv_ok hv'"
  by (induction ops hv rule: head_run.induct) (auto simp: bind_eq_Some_conv intro: hv_ok_step)

lemma ListBranch_ok:
  assumes "hv_ok hv"
  shows "sorted_wrt (<) (ListBranch hv key)" and "b \<in> set (ListBranch hv key) \<longleftrightarrow> Exists_branch hv key b"
proof -
  show "sorted_wrt (<) (ListBranch hv key)"
    using assms by (auto simp: hv_ok_def ListBranch_def dest: table_okD split: option.split)
  show "b \<in> set (ListBranch hv key) \<longleftrightarrow> Exists_branch hv key b"
  proof (cases "map_of (branch_ver hv) key")
    case (Some bv)
    with map_of_eq_None_iff[of bv b] show ?thesis
      by (simp add: ListBranch_def Exists_branch_def del: not_None_eq)
  qed (simp add: ListBranch_def Exists_branch_def)
qed

lemma GetLatest_ok: "hv_ok hv \<Longrightarrow> distinct (GetLatest hv key)"
  by (auto simp: hv_ok_def GetLatest_def dest: table_okD split: option.split)

text \<open>From the empty table, whatever operations run, the branches of a key are listed in strictly
  ascending order and are exactly those that exist, and no key and no latest version is listed
  twice.\<close>


lemma head_listings:
  assumes "head_run ops no_versions = Some hv"
  shows "sorted_wrt (<) (ListBranch hv key) \<and> (b \<in> set (ListBranch hv key) \<longleftrightarrow> Exists_branch hv key b) \<and>
    distinct (ListKey hv) \<and> distinct (GetLatest hv key)"
proof -
  have ok: "hv_ok hv" using hv_ok_run[OF assms hv_ok_no_versions] .
  then have "distinct (ListKey hv)" by (simp add: hv_ok_def ListKey_def table_ok_def)
  then show ?thesis using ListBranch_ok[OF ok] GetLatest_ok[OF ok] by auto
qed

lemma head_file:
  assumes "hv_ok hv" and "heads_full hv"
    and "\<And>kvs content. ser kvs = Some content \<Longrightarrow> parse content = Some kvs"
    and "Dump ser hv = Some (Some file)"
  shows "Load parse (Some file) no_versions = Some (True, hv\<lparr>latest_ver := []\<rparr>)"
proof -
  have "\<forall>(k, bv) \<in> set (branch_ver hv). sorted_wrt (<) (map fst bv) \<and>
      (\<forall>(b, h) \<in> set bv. \<exists>d. h = Some d \<and> length d = kByteLength)"
  proof (clarify, intro conjI ballI, goal_cases)
    case (1 k bv)
    then show ?case using assms(1) by (auto simp: hv_ok_def table_ok_def)
  next
    case (2 k bv bh)
    have d: "distinct (map fst (branch_ver hv))" "distinct (map fst bv)"
      using assms(1) 2 by (auto simp: hv_ok_def table_ok_def strict_sorted_iff)
    obtain b h where bh: "bh = (b, h)" by (cases bh)
    have "heads hv (k, b) = Some h" using 2 d by (simp add: heads_def bh)
    then show ?case using assms(2) bh by (auto simp: heads_full_def)
  qed
  from dump_load_keys[OF _ this, of "[]"] assms(1) obtain kvs where
    "dump_keys (branch_ver hv) = Some kvs" "load_keys kvs [] = Some (branch_ver hv)"
    by (auto simp: hv_ok_def table_ok_def)
  moreover from this assms(3,4) have "parse file = Some kvs" by (auto simp: Dump_def)
  ultimately show ?thesis by (simp add: Load_def no_versions_def)
qed

text \<open>C31. The head file.  A table whose heads are all hashes is written and read back into an empty
  table with every branch, but without the latest versions, which the file does not have.\<close>

theorem head_file_roundtrip:
  assumes "hv_ok hv" and "heads_full hv"
    and "\<And>kvs content. ser kvs = Some content \<Longrightarrow> parse content = Some kvs"
    and "Dump ser hv = Some (Some file)"
  shows "Load parse (Some file) no_versions = Some (True, hv\<lparr>latest_ver := []\<rparr>)"
  using assms by (rule head_file)

theorem head_file_roundtrip_witness:
  "let hv = \<lparr>branch_ver = [([1], [([2], Some (replicate 20 7))])], latest_ver = [([1], [Some (replicate 20 7)])]\<rparr>;
       ser = (\<lambda>kvs. if kvs = [([1], [([2], replicate 20 7)])] then Some [0] else None);
       parse = (\<lambda>content. if content = [0] then Some [([1], [([2], replicate 20 7)])] else None)
   in Dump ser hv = Some (Some [0]) \<and> Load parse (Some [0]) no_versions = Some (True, hv\<lparr>latest_ver := []\<rparr>)"
  unfolding Let_def
proof (rule conjI)
  show "Dump (\<lambda>kvs. if kvs = [([1], [([2], replicate 20 7)])] then Some [0] else None)
     \<lparr>branch_ver = [([1], [([2], Some (replicate 20 7))])], latest_ver = [([1], [Some (replicate 20 7)])]\<rparr> = Some (Some [0])"
    by (simp add: Dump_def)
  then show "Load (\<lambda>content. if content = [0] then Some [([1], [([2], replicate 20 7)])] else None) (Some [0]) no_versions =
    Some (True, \<lparr>branch_ver = [([1], [([2], Some (replicate 20 7))])], latest_ver = [([1], [Some (replicate 20 7)])]\<rparr>\<lparr>latest_ver := []\<rparr>)"
    by (rule head_file_roundtrip[rotated 3])
       (auto simp: hv_ok_def table_ok_def heads_full_def heads_def kByteLength_def split: if_splits)
qed

text \<open>C27. From the empty table, a sequence of commits none of which creates a version that it or an
  earlier commit has as a predecessor leaves as the latest versions of a key exactly its versions
  without a successor.\<close>

theorem latest_without_successor:
  assumes "new_versions {} cs" and "\<forall>(k, p1, p2, v) \<in> set cs. p1 \<noteq> None \<and> v \<noteq> None"
  shows "\<exists>hv. put_all PutLatest cs no_versions = Some hv \<and>
    (\<forall>key ver. IsLatest hv key ver \<longleftrightarrow>
       (key, ver) \<in> commit_ver ` set cs \<and> (key, ver) \<notin> \<Union> (commit_preds ` set cs))"
proof -
  have "latest no_versions = unsucceeded {} {}" by (simp add: latest_def no_versions_def unsucceeded_def fun_eq_iff)
  from simple_table.put_all_latest[OF this assms] obtain hv where
    hv: "put_all PutLatest cs no_versions = Some hv"
    "latest hv = unsucceeded (commit_ver ` set cs) (\<Union> (commit_preds ` set cs))" by auto
  have "IsLatest hv key ver \<longleftrightarrow> (\<exists>lv. latest hv key = Some lv \<and> ver \<in> lv)" for key ver
    by (auto simp: IsLatest_def latest_def split: option.split)
  then have "IsLatest hv key ver \<longleftrightarrow>
       (key, ver) \<in> commit_ver ` set cs \<and> (key, ver) \<notin> \<Union> (commit_preds ` set cs)" for key ver
    unfolding hv(2) by (auto simp: unsucceeded_def)
  with hv(1) show ?thesis by blast
qed

theorem latest_without_successor_witness:
  "let v = (\<lambda>n. Some (replicate 20 n)); cs = [([1], kNull, None, v 1), ([1], v 1, None, v 2), ([1], v 1, None, v 3)]
   in \<exists>hv. put_all PutLatest cs no_versions = Some hv \<and> IsLatest hv [1] (v 2) \<and> \<not> IsLatest hv [1] (v 1)"
proof -
  let ?v = "\<lambda>n. Some (replicate 20 n)"
  let ?cs = "[([1], kNull, None, ?v 1), ([1], ?v 1, None, ?v 2), ([1], ?v 1, None, ?v 3)]"
  have "new_versions {} ?cs" by (simp add: commit_ver_def commit_preds_def kNull_def)
  moreover have "\<forall>(k, p1, p2, v) \<in> set ?cs. p1 \<noteq> None \<and> v \<noteq> None" by (simp add: kNull_def)
  ultimately show ?thesis unfolding Let_def
    using latest_without_successor[of ?cs] by (fastforce simp: commit_ver_def commit_preds_def kNull_def)
qed

end
