(* ===== verification/Worker.thy ===== *)
theory Worker
  imports Store_Growth Head_Version
begin

text \<open>
  The worker, the database operations on keys, branches and versions: include/worker/worker.h,
  src/worker/worker.cc.  Its state is the chunk store and the table of heads.

  An operation returns the new state with the version it writes to \<open>*ver\<close>, or with the error code
  it returns; \<open>None\<close> stands for an aborted process.  An empty hash is \<open>None\<close>.
\<close>

section \<open>Values, errors, state\<close>

record val =
  val_type :: UType
  val_base :: hash
  val_pos :: nat
  val_dels :: nat
  val_vals :: "bytes list"
  val_keys :: "bytes list"
  val_ctx :: bytes

datatype ErrorCode =
    kKeyNotExists | kBranchExists | kBranchNotExists | kReferringVersionNotExist | kInconsistentKey
  | kInvalidValue | kTypeUnsupported | kUCellNotExists | kFailedCreateUCell | kFailedCreateSBlob
  | kFailedCreateSList | kFailedCreateSMap | kFailedCreateSSet | kFailedModifySBlob
  | kFailedModifySList | kFailedModifySMap | kFailedModifySSet | kChunkNotExists
  | kFailedCreateChunk | kStoreInfoUnavailable

record worker =
  wk_store :: loader
  wk_head :: head_version

text \<open>What the operations share: the digest, the rolling hasher of the chunkers, the order of
  \<open>std::sort\<close>.\<close>

record env =
  e_hf :: "bytes \<Rightarrow> bytes"
  e_rh :: rolling_hasher
  e_sort :: "bytes list \<Rightarrow> nat list"

section \<open>Writing values\<close>

definition CheckString :: "val \<Rightarrow> ErrorCode option" where
  "CheckString v =
     (if val_base v = None then (if length (val_vals v) \<noteq> 1 then Some kInvalidValue else None)
      else Some kInvalidValue)"

text \<open>What the write functions do with a new root: a result that is \<open>Hash::kNull\<close> is an error.\<close>

definition new_root :: "ErrorCode \<Rightarrow> (hash \<times> loader) option \<Rightarrow> ((ErrorCode + hash) \<times> loader) option" where
  "new_root ec r =
     map_option (\<lambda>(root, st). (if root = kNull then Inl ec else Inr root, st)) r"

definition created :: "(bytes \<Rightarrow> bytes) \<Rightarrow> ErrorCode \<Rightarrow> (chunkable \<times> loader) option \<Rightarrow> ((ErrorCode + hash) \<times> loader) option" where
  "created hf ec r =
     do { (obj, st) \<leftarrow> r;
          if obj = None then Some (Inl ec, st)
          else do { h \<leftarrow> obj_hash hf obj; Some (Inr (Some h), st) } }"

definition some_root :: "(bytes \<times> loader) option \<Rightarrow> (hash \<times> loader) option" where
  "some_root r = map_option (\<lambda>(root, st). (Some root, st)) r"

definition WriteBlob :: "env \<Rightarrow> val \<Rightarrow> loader \<Rightarrow> ((ErrorCode + hash) \<times> loader) option" where
  "WriteBlob e v st =
     (case val_base v of
        None \<Rightarrow>
          (case val_vals v of
             [x] \<Rightarrow> created (e_hf e) kFailedCreateSBlob (SBlob_create (e_hf e) (e_rh e) x st)
           | _ \<Rightarrow> Some (Inl kInvalidValue, st))
      | Some base \<Rightarrow>
          if val_dels v = 0 \<and> val_vals v = [] then Some (Inr (Some base), st)
          else if length (val_vals v) > 1 then Some (Inl kInvalidValue, st)
          else do { sblob \<leftarrow> UBlob_SetNodeForHash st base;
                    new_root kFailedModifySBlob (some_root
                      (SBlob_Splice (e_hf e) (e_rh e) sblob (val_pos v) (val_dels v) (concat (val_vals v)) st)) })"

definition WriteList :: "env \<Rightarrow> val \<Rightarrow> loader \<Rightarrow> ((ErrorCode + hash) \<times> loader) option" where
  "WriteList e v st =
     (case val_base v of
        None \<Rightarrow> created (e_hf e) kFailedCreateSList (SList_create (e_hf e) (e_rh e) (val_vals v) st)
      | Some base \<Rightarrow>
          if val_dels v = 0 \<and> val_vals v = [] then Some (Inr (Some base), st)
          else do { slist \<leftarrow> UList_SetNodeForHash st base;
                    new_root kFailedModifySList (some_root
                      (SList_Splice (e_hf e) (e_rh e) slist (val_pos v) (val_dels v) (val_vals v) st)) })"

definition WriteMap :: "env \<Rightarrow> val \<Rightarrow> loader \<Rightarrow> ((ErrorCode + hash) \<times> loader) option" where
  "WriteMap e v st =
     (case val_base v of
        None \<Rightarrow>
          if length (val_keys v) \<noteq> length (val_vals v) then Some (Inl kInvalidValue, st)
          else created (e_hf e) kFailedCreateSMap
                 (SMap_create (e_hf e) (e_rh e) (e_sort e) (val_keys v) (val_vals v) st)
      | Some base \<Rightarrow>
          if val_dels v = 0 \<and> val_vals v = [] then Some (Inr (Some base), st)
          else if length (val_keys v) > 1 then
            (if length (val_keys v) \<noteq> length (val_vals v) \<or> val_dels v \<noteq> 0 then Some (Inl kInvalidValue, st)
             else do { smap \<leftarrow> UMap_SetNodeForHash st base;
                       new_root kFailedModifySMap
                         (SMap_Set_multi (e_hf e) (e_rh e) (e_sort e) smap (val_keys v) (val_vals v) st) })
          else if length (val_keys v) \<noteq> 1 \<or> length (val_keys v) < length (val_vals v)
          then Some (Inl kInvalidValue, st)
          else do { mkey \<leftarrow> nth_opt (val_keys v) 0;
                    smap \<leftarrow> UMap_SetNodeForHash st base;
                    new_root kFailedModifySMap (some_root
                      (if val_dels v \<noteq> 0 then SMap_Remove (e_hf e) (e_rh e) smap mkey st
                       else do { x \<leftarrow> nth_opt (val_vals v) 0; SMap_Set (e_hf e) (e_rh e) smap mkey x st })) })"

definition WriteSet :: "env \<Rightarrow> val \<Rightarrow> loader \<Rightarrow> ((ErrorCode + hash) \<times> loader) option" where
  "WriteSet e v st =
     (case val_base v of
        None \<Rightarrow> created (e_hf e) kFailedCreateSSet (SSet_create (e_hf e) (e_rh e) (e_sort e) (val_keys v) st)
      | Some base \<Rightarrow>
          if val_dels v = 0 \<and> val_keys v = [] then Some (Inr (Some base), st)
          else if length (val_keys v) \<noteq> 1 then Some (Inl kInvalidValue, st)
          else do { mkey \<leftarrow> nth_opt (val_keys v) 0;
                    sset \<leftarrow> USet_SetNodeForHash st base;
                    new_root kFailedModifySSet (some_root
                      (if val_dels v \<noteq> 0 then SSet_Remove (e_hf e) (e_rh e) sset mkey st
                       else SSet_Set (e_hf e) (e_rh e) sset mkey st)) })"

definition PutUnkeyed :: "env \<Rightarrow> val \<Rightarrow> loader \<Rightarrow> ((ErrorCode + hash) \<times> loader) option" where
  "PutUnkeyed e v st =
     (case val_type v of
        UT_kBlob \<Rightarrow> WriteBlob e v st
      | UT_kList \<Rightarrow> WriteList e v st
      | UT_kMap \<Rightarrow> WriteMap e v st
      | UT_kSet \<Rightarrow> WriteSet e v st
      | _ \<Rightarrow> Some (Inl kTypeUnsupported, st))"

section \<open>Committing versions\<close>

definition UpdateLatestVersion :: "(bytes \<Rightarrow> bytes) \<Rightarrow> chunk \<Rightarrow> head_version \<Rightarrow> head_version option" where
  "UpdateLatestVersion hf cell hv =
     do { prev_ver1 \<leftarrow> cell_preHash cell 0;
          prev_ver2 \<leftarrow> cell_preHash cell 1;
          ver \<leftarrow> chunk_hash hf cell;
          s \<leftarrow> cell_key cell;
          key \<leftarrow> slice_bytes s;
          PutLatest key prev_ver1 prev_ver2 (Some ver) hv }"

text \<open>The two functions \<open>CreateUCell\<close> after the cell has been created.\<close>

definition cell_created :: "(bytes \<Rightarrow> bytes) \<Rightarrow> (ucell \<times> loader) option \<Rightarrow> worker \<Rightarrow>
    ((ErrorCode + hash) \<times> worker) option" where
  "cell_created hf r w =
     do { (ucell, st) \<leftarrow> r;
          case ucell of
            None \<Rightarrow> Some (Inl kFailedCreateUCell, w\<lparr>wk_store := st\<rparr>)
          | Some cell \<Rightarrow>
              do { ver \<leftarrow> chunk_hash hf cell;
                   hv \<leftarrow> UpdateLatestVersion hf cell (wk_head w);
                   Some (Inr (Some ver), \<lparr>wk_store = st, wk_head = hv\<rparr>) } }"

definition CreateUCell :: "env \<Rightarrow> bytes \<Rightarrow> UType \<Rightarrow> bytes \<Rightarrow> bytes \<Rightarrow> hash \<Rightarrow> hash \<Rightarrow> worker \<Rightarrow>
    ((ErrorCode + hash) \<times> worker) option" where
  "CreateUCell e key utype utype_data ctx prev_ver1 prev_ver2 w =
     cell_created (e_hf e) (UCell_Create (e_hf e) (wk_store w) utype key utype_data ctx prev_ver1 prev_ver2) w"

definition CreateUCell_hash :: "env \<Rightarrow> bytes \<Rightarrow> UType \<Rightarrow> hash \<Rightarrow> bytes \<Rightarrow> hash \<Rightarrow> hash \<Rightarrow> worker \<Rightarrow>
    ((ErrorCode + hash) \<times> worker) option" where
  "CreateUCell_hash e key utype utype_hash ctx prev_ver1 prev_ver2 w =
     cell_created (e_hf e) (UCell_Create_hash (e_hf e) (wk_store w) utype key utype_hash ctx prev_ver1 prev_ver2) w"

definition WriteUCell :: "env \<Rightarrow> bytes \<Rightarrow> val \<Rightarrow> hash \<Rightarrow> hash \<Rightarrow> worker \<Rightarrow> ((ErrorCode + hash) \<times> worker) option" where
  "WriteUCell e key v prev_ver1 prev_ver2 w =
     (if val_type v = UT_kString then
        (case CheckString v of
           Some ec \<Rightarrow> Some (Inl ec, w)
         | None \<Rightarrow> do { x \<leftarrow> nth_opt (val_vals v) 0;
                         CreateUCell e key (val_type v) x (val_ctx v) prev_ver1 prev_ver2 w })
      else
        do { (r, st) \<leftarrow> PutUnkeyed e v (wk_store w);
             case r of
               Inl ec \<Rightarrow> Some (Inl ec, w\<lparr>wk_store := st\<rparr>)
             | Inr root \<Rightarrow>
                 CreateUCell_hash e key (val_type v) root (val_ctx v) prev_ver1 prev_ver2 (w\<lparr>wk_store := st\<rparr>) })"

text \<open>\<open>Exists\<close> of a version looks its bytes up in the store.\<close>

definition Exists_ver :: "worker \<Rightarrow> hash \<Rightarrow> bool option" where
  "Exists_ver w ver = do { h \<leftarrow> ver; Some (wk_store w h \<noteq> None) }"

definition Put_ver :: "env \<Rightarrow> bytes \<Rightarrow> val \<Rightarrow> hash \<Rightarrow> worker \<Rightarrow> ((ErrorCode + hash) \<times> worker) option" where
  "Put_ver e key v prev_ver w =
     do { ok \<leftarrow> (if prev_ver = kNull then Some True else Exists_ver w prev_ver);
          if ok then WriteUCell e key v prev_ver None w
          else Some (Inl kReferringVersionNotExist, w) }"

definition Put_branch_ver :: "env \<Rightarrow> bytes \<Rightarrow> val \<Rightarrow> bytes \<Rightarrow> hash \<Rightarrow> worker \<Rightarrow> ((ErrorCode + hash) \<times> worker) option" where
  "Put_branch_ver e key v branch prev_ver w =
     do { (r, w) \<leftarrow> Put_ver e key v prev_ver w;
          case r of
            Inl ec \<Rightarrow> Some (Inl ec, w)
          | Inr ver \<Rightarrow> Some (Inr ver, if branch = [] then w else w\<lparr>wk_head := PutBranch key branch ver (wk_head w)\<rparr>) }"

definition Put :: "env \<Rightarrow> bytes \<Rightarrow> val \<Rightarrow> bytes \<Rightarrow> worker \<Rightarrow> ((ErrorCode + hash) \<times> worker) option" where
  "Put e key v branch w = Put_branch_ver e key v branch (snd (GetBranch (wk_head w) key branch)) w"

definition Merge_vers :: "env \<Rightarrow> bytes \<Rightarrow> val \<Rightarrow> hash \<Rightarrow> hash \<Rightarrow> worker \<Rightarrow> ((ErrorCode + hash) \<times> worker) option" where
  "Merge_vers e key v ref_ver1 ref_ver2 w =
     do { ok1 \<leftarrow> Exists_ver w ref_ver1;
          ok \<leftarrow> (if ok1 then Exists_ver w ref_ver2 else Some False);
          if ok then WriteUCell e key v ref_ver1 ref_ver2 w
          else Some (Inl kReferringVersionNotExist, w) }"

definition Merge_branch_ver :: "env \<Rightarrow> bytes \<Rightarrow> val \<Rightarrow> bytes \<Rightarrow> hash \<Rightarrow> worker \<Rightarrow> ((ErrorCode + hash) \<times> worker) option" where
  "Merge_branch_ver e key v tgt_branch ref_ver w =
     (let (found, tgt_ver) = GetBranch (wk_head w) key tgt_branch in
      if \<not> found then Some (Inl kBranchNotExists, w)
      else do { (r, w) \<leftarrow> Merge_vers e key v tgt_ver ref_ver w;
                case r of
                  Inl ec \<Rightarrow> Some (Inl ec, w)
                | Inr ver \<Rightarrow> Some (Inr ver, w\<lparr>wk_head := PutBranch key tgt_branch ver (wk_head w)\<rparr>) })"

definition Merge :: "env \<Rightarrow> bytes \<Rightarrow> val \<Rightarrow> bytes \<Rightarrow> bytes \<Rightarrow> worker \<Rightarrow> ((ErrorCode + hash) \<times> worker) option" where
  "Merge e key v tgt_branch ref_branch w =
     (let (found, ref_ver) = GetBranch (wk_head w) key ref_branch in
      if \<not> found then Some (Inl kBranchNotExists, w)
      else Merge_branch_ver e key v tgt_branch ref_ver w)"

section \<open>Branches\<close>

definition Branch_ver :: "bytes \<Rightarrow> hash \<Rightarrow> bytes \<Rightarrow> worker \<Rightarrow> (ErrorCode option \<times> worker) option" where
  "Branch_ver key ver new_branch w =
     (if Exists_branch (wk_head w) key new_branch then Some (Some kBranchExists, w)
      else do { ok \<leftarrow> Exists_ver w ver;
                if ok then Some (None, w\<lparr>wk_head := PutBranch key new_branch ver (wk_head w)\<rparr>)
                else Some (Some kReferringVersionNotExist, w) })"

definition Branch :: "bytes \<Rightarrow> bytes \<Rightarrow> bytes \<Rightarrow> worker \<Rightarrow> (ErrorCode option \<times> worker) option" where
  "Branch key old_branch new_branch w =
     (let (found, ver) = GetBranch (wk_head w) key old_branch in
      if \<not> found then Some (Some kBranchNotExists, w) else Branch_ver key ver new_branch w)"

definition Rename :: "bytes \<Rightarrow> bytes \<Rightarrow> bytes \<Rightarrow> worker \<Rightarrow> (ErrorCode option \<times> worker) option" where
  "Rename key old_branch new_branch w =
     (if \<not> Exists_branch (wk_head w) key old_branch then Some (Some kBranchNotExists, w)
      else if Exists_branch (wk_head w) key new_branch then Some (Some kBranchExists, w)
      else do { hv \<leftarrow> RenameBranch key old_branch new_branch (wk_head w);
                Some (None, w\<lparr>wk_head := hv\<rparr>) })"

definition Delete :: "bytes \<Rightarrow> bytes \<Rightarrow> worker \<Rightarrow> (ErrorCode option \<times> worker) option" where
  "Delete key branch w =
     (if \<not> Exists_branch (wk_head w) key branch then Some (Some kBranchNotExists, w)
      else Some (None, w\<lparr>wk_head := RemoveBranch key branch (wk_head w)\<rparr>))"

section \<open>Reading\<close>

definition Get_ver :: "bytes \<Rightarrow> hash \<Rightarrow> worker \<Rightarrow> (ErrorCode + chunk) option" where
  "Get_ver key ver w =
     do { ucell \<leftarrow> UCell_Load (wk_store w) ver;
          case ucell of
            None \<Rightarrow> Some (Inl kUCellNotExists)
          | Some cell \<Rightarrow>
              do { s \<leftarrow> cell_key cell;
                   k \<leftarrow> slice_bytes s;
                   if k \<noteq> key then Some (Inl kInconsistentKey) else Some (Inr cell) } }"

definition Get :: "bytes \<Rightarrow> bytes \<Rightarrow> worker \<Rightarrow> (ErrorCode + chunk) option" where
  "Get key branch w =
     (let (found, ver) = GetBranch (wk_head w) key branch in
      if \<not> found then (if Exists_key (wk_head w) key then Some (Inl kBranchNotExists) else Some (Inl kKeyNotExists))
      else Get_ver key ver w)"

definition GetChunk :: "hash \<Rightarrow> worker \<Rightarrow> (ErrorCode + chunk) option" where
  "GetChunk ver w =
     do { h \<leftarrow> ver; case wk_store w h of None \<Rightarrow> Some (Inl kChunkNotExists) | Some c \<Rightarrow> Some (Inr c) }"

definition GetBranchHead :: "bytes \<Rightarrow> bytes \<Rightarrow> worker \<Rightarrow> ErrorCode + hash" where
  "GetBranchHead key branch w =
     (let (found, ver) = GetBranch (wk_head w) key branch in if found then Inr ver else Inl kBranchNotExists)"

section \<open>Starting and stopping\<close>

text \<open>A persistent worker loads the head file, then replays the cells of the store in the order of
  its iterator, the list \<open>chunks\<close>.\<close>

fun replay_cells :: "(bytes \<Rightarrow> bytes) \<Rightarrow> chunk list \<Rightarrow> head_version \<Rightarrow> head_version option" where
  "replay_cells hf [] hv = Some hv"
| "replay_cells hf (chunk # chunks) hv =
     do { t \<leftarrow> chunk_type chunk;
          hv \<leftarrow> (if t = ChunkType_byte CT_kCell then UpdateLatestVersion hf chunk hv else Some hv);
          replay_cells hf chunks hv }"

definition Worker_start :: "(bytes \<Rightarrow> bytes) \<Rightarrow> (bytes \<Rightarrow> key_versions option) \<Rightarrow> bytes option \<Rightarrow> chunk list \<Rightarrow>
    loader \<Rightarrow> worker option" where
  "Worker_start hf parse file chunks st =
     do { hv \<leftarrow> (if file = None then Some no_versions else map_option snd (Load parse file no_versions));
          hv \<leftarrow> replay_cells hf chunks hv;
          Some \<lparr>wk_store = st, wk_head = hv\<rparr> }"

definition Worker_stop :: "(key_versions \<Rightarrow> bytes option) \<Rightarrow> worker \<Rightarrow> bytes option option" where
  "Worker_stop ser w = Dump ser (wk_head w)"

section \<open>Cells as commits\<close>

lemma UpdateLatestVersion_cell:
  assumes "length key < 2 ^ 16" and "length data < 2 ^ 15" and "length ctx < 2 ^ 15"
    and "length pre1 = kByteLength" and "hash_ok pre2"
  shows "UpdateLatestVersion hf (cell_chunk type key data ctx pre1 pre2) hv =
    PutLatest key (Some pre1) pre2 (Some (hf (cell_chunk type key data ctx pre1 pre2))) hv"
proof -
  obtain s where "cell_key (cell_chunk type key data ctx pre1 pre2) = Some s" "slice_is s key"
    using cell_fields(1)[OF assms] by blast
  then show ?thesis
    using cell_fields(4,5)[OF assms] UCell_Create_eq(2)[of key data ctx pre1 pre2 hf type] assms
    by (simp add: UpdateLatestVersion_def slice_is_def)
qed

lemma CreateUCell_eq:
  fixes type
  assumes "length key < 2 ^ 16" and "length data < 2 ^ 15" and "length ctx < 2 ^ 15"
    and "length pre1 = kByteLength" and "hash_ok pre2"
  defines "c \<equiv> cell_chunk type key data ctx pre1 pre2"
  shows "\<exists>hv. CreateUCell e key type data ctx (Some pre1) pre2 w =
      Some (Inr (Some (e_hf e c)), \<lparr>wk_store = (wk_store w)(e_hf e c \<mapsto> c), wk_head = hv\<rparr>) \<and>
    PutLatest key (Some pre1) pre2 (Some (e_hf e c)) (wk_head w) = Some hv \<and> heads hv = heads (wk_head w)"
proof -
  have n: "length data < 2 ^ 16" "length ctx < 2 ^ 16" using assms by simp_all
  obtain hv where "PutLatest key (Some pre1) pre2 (Some (e_hf e c)) (wk_head w) = Some hv" "heads hv = heads (wk_head w)"
    using latest_PutLatest[of "Some pre1" "Some (e_hf e c)" key pre2 "wk_head w"] by auto
  then show ?thesis
    using UCell_Create_eq(1)[OF assms(1) n assms(4,5), of "e_hf e" "wk_store w" type]
      UCell_Create_eq(2)[OF assms(1) n assms(4,5), of "e_hf e" type] UpdateLatestVersion_cell[OF assms(1-5), of "e_hf e" type]
    by (simp add: CreateUCell_def cell_created_def c_def)
qed

text \<open>A string value, as a client puts it.\<close>

definition string_val :: "bytes \<Rightarrow> bytes \<Rightarrow> val" where
  "string_val x ctx = \<lparr>val_type = UT_kString, val_base = None, val_pos = 0, val_dels = 0, val_vals = [x],
     val_keys = [], val_ctx = ctx\<rparr>"

definition put_ok :: "bytes \<Rightarrow> bytes \<Rightarrow> bytes \<Rightarrow> bytes \<Rightarrow> worker \<Rightarrow> bool" where
  "put_ok key x ctx prev w \<longleftrightarrow> length key < 2 ^ 16 \<and> length x < 2 ^ 15 \<and> length ctx < 2 ^ 15 \<and>
     length prev = kByteLength \<and> (Some prev = kNull \<or> wk_store w prev \<noteq> None)"

lemma Put_ver_string:
  assumes "put_ok key x ctx prev w"
  defines "c \<equiv> cell_chunk UT_kString key x ctx prev None"
  shows "\<exists>hv. Put_ver e key (string_val x ctx) (Some prev) w =
      Some (Inr (Some (e_hf e c)), \<lparr>wk_store = (wk_store w)(e_hf e c \<mapsto> c), wk_head = hv\<rparr>) \<and>
    PutLatest key (Some prev) None (Some (e_hf e c)) (wk_head w) = Some hv \<and> heads hv = heads (wk_head w)"
proof -
  have "(if Some prev = kNull then Some True else Exists_ver w (Some prev)) = Some True"
    using assms(1) by (auto simp: put_ok_def Exists_ver_def)
  then have "Put_ver e key (string_val x ctx) (Some prev) w = CreateUCell e key UT_kString x ctx (Some prev) None w"
    by (simp add: Put_ver_def WriteUCell_def string_val_def CheckString_def nth_opt_def)
  with CreateUCell_eq[of key x ctx prev None e UT_kString w] assms show ?thesis
    by (simp add: put_ok_def hash_ok_def)
qed

lemma Put_string:
  assumes "GetBranch (wk_head w) key branch = (b, Some prev)" and "put_ok key x ctx prev w" and "branch \<noteq> []"
  defines "c \<equiv> cell_chunk UT_kString key x ctx prev None"
  shows "\<exists>hv. Put e key (string_val x ctx) branch w = Some (Inr (Some (e_hf e c)),
      \<lparr>wk_store = (wk_store w)(e_hf e c \<mapsto> c), wk_head = PutBranch key branch (Some (e_hf e c)) hv\<rparr>) \<and>
    PutLatest key (Some prev) None (Some (e_hf e c)) (wk_head w) = Some hv \<and> heads hv = heads (wk_head w)"
  using Put_ver_string[OF assms(2), of e] assms(1,3) by (auto simp: Put_def Put_branch_ver_def c_def)

lemma IsLatest_latest: "IsLatest hv key ver \<longleftrightarrow> (\<exists>lv. latest hv key = Some lv \<and> ver \<in> lv)"
  by (auto simp: IsLatest_def latest_def split: option.split)

lemma Get_ver_cell:
  assumes "length key < 2 ^ 16" and "length data < 2 ^ 15" and "length ctx < 2 ^ 15"
    and "length pre1 = kByteLength" and "hash_ok pre2"
    and "wk_store w h = Some (cell_chunk type key data ctx pre1 pre2)"
  shows "Get_ver key (Some h) w = Some (Inr (cell_chunk type key data ctx pre1 pre2))"
proof -
  obtain s where "cell_key (cell_chunk type key data ctx pre1 pre2) = Some s" "slice_is s key"
    using cell_fields(1)[OF assms(1-5)] by blast
  then show ?thesis using assms(6) by (simp add: Get_ver_def UCell_Load_def UCell_of_def slice_is_def)
qed

section \<open>What the operations do to the store and the table\<close>

lemma new_root_grows: "new_root ec r = Some (x, st') \<Longrightarrow> (\<And>y. r = Some y \<Longrightarrow> adds_nodes st (snd y)) \<Longrightarrow> adds_nodes st st'"
  by (cases r) (auto simp: new_root_def split: prod.splits)

lemma created_grows: "created hf ec r = Some (x, st') \<Longrightarrow> (\<And>y. r = Some y \<Longrightarrow> adds_nodes st (snd y)) \<Longrightarrow> adds_nodes st st'"
  by (cases r) (auto simp: created_def bind_eq_Some_conv split: prod.splits if_splits)

lemma some_root_grows: "some_root r = Some y \<Longrightarrow> (\<And>y. r = Some y \<Longrightarrow> adds_nodes st (snd y)) \<Longrightarrow> adds_nodes st (snd y)"
  by (cases r) (auto simp: some_root_def split: prod.splits)

lemma WriteBlob_grows: "WriteBlob e v st = Some (r, st') \<Longrightarrow> adds_nodes st st'"
  by (auto simp: WriteBlob_def bind_eq_Some_conv split: option.splits list.splits if_splits
      elim!: created_grows new_root_grows some_root_grows intro: grows)

lemma WriteList_grows: "WriteList e v st = Some (r, st') \<Longrightarrow> adds_nodes st st'"
  by (auto simp: WriteList_def bind_eq_Some_conv split: option.splits if_splits
      elim!: created_grows new_root_grows some_root_grows intro: grows)

lemma WriteMap_grows: "WriteMap e v st = Some (r, st') \<Longrightarrow> adds_nodes st st'"
  by (auto simp: WriteMap_def bind_eq_Some_conv split: option.splits if_splits
      elim!: created_grows new_root_grows some_root_grows intro: grows)

lemma WriteSet_grows: "WriteSet e v st = Some (r, st') \<Longrightarrow> adds_nodes st st'"
  by (auto simp: WriteSet_def bind_eq_Some_conv split: option.splits if_splits
      elim!: created_grows new_root_grows some_root_grows intro: grows)

lemma PutUnkeyed_grows: "PutUnkeyed e v st = Some (r, st') \<Longrightarrow> adds_nodes st st'"
  by (auto simp: PutUnkeyed_def split: UType.splits
      intro: WriteBlob_grows WriteList_grows WriteMap_grows WriteSet_grows)

text \<open>A version is known when its chunk is in the store.\<close>

definition known :: "worker \<Rightarrow> hash \<Rightarrow> bool" where
  "known w ver \<longleftrightarrow> (\<exists>h. ver = Some h \<and> wk_store w h \<noteq> None)"

text \<open>What a commit may do to a worker: add chunks, and for the committed version replace latest
  versions by it.\<close>

definition commits :: "worker \<Rightarrow> (ErrorCode + hash) \<Rightarrow> worker \<Rightarrow> bool" where
  "commits w r w' \<longleftrightarrow> store_le (wk_store w) (wk_store w') \<and> heads (wk_head w') = heads (wk_head w) \<and>
     (case r of Inl ec \<Rightarrow> wk_head w' = wk_head w
      | Inr ver \<Rightarrow> known w' ver \<and> (hv_ok (wk_head w) \<longrightarrow> hv_ok (wk_head w')) \<and>
          (\<forall>k v. IsLatest (wk_head w') k v \<longrightarrow> IsLatest (wk_head w) k v \<or> v = ver))"

lemma UpdateLatestVersion_commits:
  assumes "UpdateLatestVersion hf cell hv = Some hv'" and "chunk_hash hf cell = Some ver"
  shows "heads hv' = heads hv" and "hv_ok hv \<Longrightarrow> hv_ok hv'"
    and "IsLatest hv' k v \<Longrightarrow> IsLatest hv k v \<or> v = Some ver"
proof -
  from assms obtain key p1 p2 where put: "PutLatest key p1 p2 (Some ver) hv = Some hv'"
    by (auto simp: UpdateLatestVersion_def bind_eq_Some_conv)
  then have "p1 \<noteq> None" by (auto simp: PutLatest_def bind_eq_Some_conv)
  with latest_PutLatest[of p1 "Some ver" key p2 hv] put have
    l: "heads hv' = heads hv" "latest hv' = (latest hv)(key \<mapsto> insert (Some ver)
      (case latest hv key of None \<Rightarrow> {} | Some lv \<Rightarrow> lv - {p1} - ({p2} - {None})))" by auto
  then show "heads hv' = heads hv" and "IsLatest hv' k v \<Longrightarrow> IsLatest hv k v \<or> v = Some ver"
    by (auto simp: IsLatest_latest split: if_splits option.splits)
  show "hv_ok hv \<Longrightarrow> hv_ok hv'" using put hv_ok_PutLatest by blast
qed

lemma cell_created_commits:
  assumes "cell_created hf (UCell_Create hf (wk_store w) type key data ctx p1 p2) w = Some (r, w')"
  shows "commits w r w'"
proof -
  from assms obtain c h where c: "chunk_hash hf c = Some h"
    "UCell_Create hf (wk_store w) type key data ctx p1 p2 = Some (Some c, (wk_store w)(h \<mapsto> c))"
    by (auto simp: cell_created_def UCell_Create_def UCell_of_def bind_eq_Some_conv)
  with assms obtain hv where "UpdateLatestVersion hf c (wk_head w) = Some hv" "r = Inr (Some h)"
    "w' = \<lparr>wk_store = (wk_store w)(h \<mapsto> c), wk_head = hv\<rparr>"
    by (auto simp: cell_created_def bind_eq_Some_conv)
  with UpdateLatestVersion_commits[OF this(1) c(1)] show ?thesis by (auto simp: commits_def known_def)
qed

lemma commits_store: "commits (w\<lparr>wk_store := st\<rparr>) r w' \<Longrightarrow> store_le (wk_store w) st \<Longrightarrow> commits w r w'"
  by (auto simp: commits_def split: sum.splits intro: store_le_trans)

lemma commits_fail [simp]: "commits w (Inl ec) w" by (simp add: commits_def)

lemma WriteUCell_commits: "WriteUCell e key v p1 p2 w = Some (r, w') \<Longrightarrow> commits w r w'"
proof (cases "val_type v = UT_kString")
  case True
  assume "WriteUCell e key v p1 p2 w = Some (r, w')"
  with True show ?thesis
    by (auto simp: WriteUCell_def CreateUCell_def bind_eq_Some_conv
        intro: cell_created_commits split: option.splits)
next
  case False
  assume "WriteUCell e key v p1 p2 w = Some (r, w')"
  with False obtain x st where x: "PutUnkeyed e v (wk_store w) = Some (x, st)" "(case x of Inl ec \<Rightarrow> Some (Inl ec, w\<lparr>wk_store := st\<rparr>)
      | Inr root \<Rightarrow> CreateUCell_hash e key (val_type v) root (val_ctx v) p1 p2 (w\<lparr>wk_store := st\<rparr>)) = Some (r, w')"
    by (auto simp: WriteUCell_def bind_eq_Some_conv)
  note g = adds_nodesD(1)[OF PutUnkeyed_grows[OF x(1)]]
  show ?thesis
  proof (cases x)
    case (Inl ec)
    with x(2) g show ?thesis by (auto simp: commits_def)
  next
    case (Inr root)
    with x(2) obtain data where "cell_created (e_hf e) (UCell_Create (e_hf e) (wk_store (w\<lparr>wk_store := st\<rparr>))
        (val_type v) key data (val_ctx v) p1 p2) (w\<lparr>wk_store := st\<rparr>) = Some (r, w')"
      by (auto simp: CreateUCell_hash_def UCell_Create_hash_def cell_created_def bind_eq_Some_conv)
    from cell_created_commits[OF this] g show ?thesis by (rule commits_store)
  qed
qed

lemma Put_ver_commits: "Put_ver e key v prev w = Some (r, w') \<Longrightarrow> commits w r w'"
  by (auto simp: Put_ver_def bind_eq_Some_conv split: if_splits intro: WriteUCell_commits)

lemma Merge_vers_commits: "Merge_vers e key v v1 v2 w = Some (r, w') \<Longrightarrow> commits w r w'"
  by (auto simp: Merge_vers_def bind_eq_Some_conv split: if_splits intro: WriteUCell_commits)

text \<open>Every operation of a worker, as a step.\<close>

inductive worker_step :: "env \<Rightarrow> worker \<Rightarrow> worker \<Rightarrow> bool" for e where
  step_put: "Put e key v branch w = Some (r, w') \<Longrightarrow> worker_step e w w'"
| step_put_ver: "Put_ver e key v prev w = Some (r, w') \<Longrightarrow> worker_step e w w'"
| step_put_unkeyed: "PutUnkeyed e v (wk_store w) = Some (r, st) \<Longrightarrow> worker_step e w (w\<lparr>wk_store := st\<rparr>)"
| step_merge: "Merge e key v tgt ref w = Some (r, w') \<Longrightarrow> worker_step e w w'"
| step_merge_branch_ver: "Merge_branch_ver e key v tgt ver w = Some (r, w') \<Longrightarrow> worker_step e w w'"
| step_merge_vers: "Merge_vers e key v ver1 ver2 w = Some (r, w') \<Longrightarrow> worker_step e w w'"
| step_branch: "Branch key old_b new_b w = Some (x, w') \<Longrightarrow> worker_step e w w'"
| step_branch_ver: "Branch_ver key ver new_b w = Some (x, w') \<Longrightarrow> worker_step e w w'"
| step_rename: "Rename key old_b new_b w = Some (x, w') \<Longrightarrow> worker_step e w w'"
| step_delete: "Delete key branch w = Some (x, w') \<Longrightarrow> worker_step e w w'"

definition worker_ok :: "worker \<Rightarrow> bool" where
  "worker_ok w \<longleftrightarrow> hv_ok (wk_head w) \<and> (\<forall>kb ver. heads (wk_head w) kb = Some ver \<longrightarrow> known w ver) \<and>
     (\<forall>k ver. IsLatest (wk_head w) k ver \<longrightarrow> known w ver)"

definition no_data :: worker where
  "no_data = \<lparr>wk_store = Map.empty, wk_head = no_versions\<rparr>"

lemma no_versions_simps [simp]: "heads no_versions kb = None" "\<not> IsLatest no_versions k ver"
  by (simp_all add: heads_def IsLatest_def no_versions_def)

lemma worker_ok_no_data: "worker_ok no_data"
  by (simp add: worker_ok_def no_data_def hv_ok_no_versions)

lemma known_mono: "known w ver \<Longrightarrow> store_le (wk_store w) (wk_store w') \<Longrightarrow> known w' ver"
  by (auto simp: known_def dest: store_leD)

lemma worker_ok_commits:
  assumes "worker_ok w" and "commits w r w'"
  shows "worker_ok w'" and "r = Inr ver \<Longrightarrow> known w' ver"
  using assms known_mono[of w _ w'] by (auto simp: worker_ok_def commits_def split: sum.splits) blast+

text \<open>The same worker with one more branch.\<close>

lemma worker_ok_PutBranch:
  "worker_ok w \<Longrightarrow> known w ver \<Longrightarrow> worker_ok (w\<lparr>wk_head := PutBranch key branch ver (wk_head w)\<rparr>)"
  by (auto simp: worker_ok_def hv_ok_PutBranch heads_PutBranch IsLatest_latest known_def)

lemma worker_ok_head:
  assumes "commits w r w1" and "worker_ok w"
    and "(case r of Inl ec \<Rightarrow> Some (Inl ec, w1)
      | Inr ver \<Rightarrow> Some (Inr ver, if c then w1 else w1\<lparr>wk_head := PutBranch key branch ver (wk_head w1)\<rparr>)) = Some (r', w')"
  shows "worker_ok w'"
  using assms worker_ok_commits[OF assms(2,1)]
  by (cases r) (auto intro: worker_ok_PutBranch)

lemma worker_ok_Put:
  assumes "Put e key v branch w = Some (r, w')" and "worker_ok w"
  shows "worker_ok w'"
proof -
  from assms(1) obtain x w1 where "Put_ver e key v (snd (GetBranch (wk_head w) key branch)) w = Some (x, w1)"
    and *: "(case x of Inl ec \<Rightarrow> Some (Inl ec, w1)
      | Inr ver \<Rightarrow> Some (Inr ver, if branch = [] then w1 else w1\<lparr>wk_head := PutBranch key branch ver (wk_head w1)\<rparr>)) = Some (r, w')"
    by (auto simp: Put_def Put_branch_ver_def bind_eq_Some_conv)
  from worker_ok_head[OF Put_ver_commits[OF this(1)] assms(2) *] show ?thesis .
qed

lemma worker_ok_Merge_branch_ver:
  assumes "Merge_branch_ver e key v tgt ver w = Some (r, w')" and "worker_ok w"
  shows "worker_ok w'"
proof (cases "fst (GetBranch (wk_head w) key tgt)")
  case True
  with assms(1) obtain x w1 where "Merge_vers e key v (snd (GetBranch (wk_head w) key tgt)) ver w = Some (x, w1)"
    and *: "(case x of Inl ec \<Rightarrow> Some (Inl ec, w1)
      | Inr ver \<Rightarrow> Some (Inr ver, if False then w1 else w1\<lparr>wk_head := PutBranch key tgt ver (wk_head w1)\<rparr>)) = Some (r, w')"
    by (auto simp: Merge_branch_ver_def Let_def bind_eq_Some_conv split: prod.splits cong: sum.case_cong)
  from worker_ok_head[OF Merge_vers_commits[OF this(1)] assms(2) *] show ?thesis .
qed (use assms in \<open>auto simp: Merge_branch_ver_def split: prod.splits\<close>)

lemma worker_ok_Branch_ver: "Branch_ver key ver new_b w = Some (x, w') \<Longrightarrow> worker_ok w \<Longrightarrow> worker_ok w'"
  by (auto simp: Branch_ver_def Exists_ver_def known_def bind_eq_Some_conv split: if_splits
      intro!: worker_ok_PutBranch)

lemma worker_ok_Rename:
  assumes "Rename key old_b new_b w = Some (x, w')" and "worker_ok w"
  shows "worker_ok w'"
proof (cases "w' = w")
  case False
  with assms(1) obtain hv where hv: "RenameBranch key old_b new_b (wk_head w) = Some hv" "w' = w\<lparr>wk_head := hv\<rparr>"
    and "heads (wk_head w) (key, new_b) = None" and "heads (wk_head w) (key, old_b) \<noteq> None"
    by (auto simp: Rename_def bind_eq_Some_conv Exists_branch_heads split: if_splits)
  then obtain v where v: "heads (wk_head w) (key, old_b) = Some v" "heads (wk_head w) (key, new_b) = None" by auto
  from heads_RenameBranch[OF this] hv(1) have
    "heads hv = (heads (wk_head w))((key, old_b) := None, (key, new_b) \<mapsto> v)" "latest hv = latest (wk_head w)" by auto
  with assms(2) v hv show ?thesis
    by (auto simp: worker_ok_def known_def IsLatest_latest intro: hv_ok_RenameBranch split: if_splits)
qed (use assms in simp)

lemma worker_ok_Delete: "Delete key branch w = Some (x, w') \<Longrightarrow> worker_ok w \<Longrightarrow> worker_ok w'"
  by (fastforce simp: Delete_def worker_ok_def known_def IsLatest_latest heads_RemoveBranch
      intro: hv_ok_RemoveBranch split: if_splits)

lemma worker_ok_step: "worker_step e w w' \<Longrightarrow> worker_ok w \<Longrightarrow> worker_ok w'"
proof (induction rule: worker_step.induct)
  case (step_put_unkeyed v w r st)
  then show ?case using known_mono[of w _ "w\<lparr>wk_store := st\<rparr>"]
    by (auto simp: worker_ok_def dest!: PutUnkeyed_grows adds_nodesD(1))
next
  case (step_merge key v tgt ref w r w')
  then show ?case by (auto simp: Merge_def Let_def split: prod.splits if_splits intro: worker_ok_Merge_branch_ver)
next
  case (step_branch key old_b new_b w x w')
  then show ?case by (auto simp: Branch_def Let_def split: prod.splits if_splits intro: worker_ok_Branch_ver)
qed (auto intro: worker_ok_Put worker_ok_Merge_branch_ver worker_ok_Branch_ver worker_ok_Rename worker_ok_Delete
    dest!: Put_ver_commits Merge_vers_commits dest: worker_ok_commits)

lemma worker_ok_reachable: "(worker_step e)\<^sup>*\<^sup>* no_data w \<Longrightarrow> worker_ok w"
  by (induction rule: rtranclp_induct) (auto intro: worker_ok_no_data worker_ok_step)

section \<open>Restarting\<close>

lemma PutLatest_latest:
  "PutLatest k p1 p2 v a = Some a' \<Longrightarrow> latest_ver b = latest_ver a \<Longrightarrow>
   PutLatest k p1 p2 v b = Some (b\<lparr>latest_ver := latest_ver a'\<rparr>)"
  by (auto simp: PutLatest_def Let_def bind_eq_Some_conv)

lemma UpdateLatestVersion_latest:
  assumes "UpdateLatestVersion hf cell a = Some a'" and "latest_ver b = latest_ver a"
  shows "\<exists>b'. UpdateLatestVersion hf cell b = Some b' \<and> latest_ver b' = latest_ver a' \<and> branch_ver b' = branch_ver b"
proof -
  from assms(1) obtain key p1 p2 ver s where *: "cell_preHash cell 0 = Some p1" "cell_preHash cell 1 = Some p2"
    "chunk_hash hf cell = Some ver" "cell_key cell = Some s" "slice_bytes s = Some key"
    "PutLatest key p1 p2 (Some ver) a = Some a'"
    unfolding UpdateLatestVersion_def by (auto simp: bind_eq_Some_conv)
  from PutLatest_latest[OF *(6) assms(2)] * show ?thesis by (simp add: UpdateLatestVersion_def)
qed

lemma replay_cells_append:
  "replay_cells hf (cs @ ds) hv = Option.bind (replay_cells hf cs hv) (replay_cells hf ds)"
proof (induction cs arbitrary: hv)
  case (Cons c cs)
  then have "replay_cells hf (cs @ ds) = (\<lambda>hv. Option.bind (replay_cells hf cs hv) (replay_cells hf ds))" by blast
  then show ?case by simp
qed simp

lemma replay_cells_latest:
  assumes "replay_cells hf cs a = Some a'" and "latest_ver b = latest_ver a"
  shows "\<exists>b'. replay_cells hf cs b = Some b' \<and> latest_ver b' = latest_ver a' \<and> branch_ver b' = branch_ver b"
  using assms
proof (induction cs arbitrary: a b)
  case (Cons c cs)
  then obtain t where t: "chunk_type c = Some t" by (auto simp: bind_eq_Some_conv)
  show ?case
  proof (cases "t = ChunkType_byte CT_kCell")
    case True
    with Cons.prems(1) t obtain a1 where a1: "UpdateLatestVersion hf c a = Some a1" "replay_cells hf cs a1 = Some a'"
      by (auto simp: bind_eq_Some_conv)
    from UpdateLatestVersion_latest[OF a1(1) Cons.prems(2)] obtain b1 where
      b1: "UpdateLatestVersion hf c b = Some b1" "latest_ver b1 = latest_ver a1" "branch_ver b1 = branch_ver b" by blast
    from Cons.IH[OF a1(2) b1(2)] b1 True t show ?thesis by auto
  qed (use Cons t in auto)
qed auto

text \<open>Only the cells count.\<close>

lemma replay_cells_filter:
  "\<forall>c \<in> set cs. chunk_type c \<noteq> None \<Longrightarrow> replay_cells hf cs hv = replay_cells hf (filter is_cell cs) hv"
proof (induction cs arbitrary: hv)
  case (Cons c cs)
  then obtain t where "chunk_type c = Some t" by auto
  with Cons show ?case
    by (cases "UpdateLatestVersion hf c hv") (auto simp: is_cell_def)
qed simp

text \<open>What a step writes.  It leaves the latest versions alone and writes no cell, or it commits one
  cell: it writes this cell and no other, and updates the latest versions by it.\<close>

definition no_commit :: "worker \<Rightarrow> worker \<Rightarrow> bool" where
  "no_commit w w' \<longleftrightarrow> latest_ver (wk_head w') = latest_ver (wk_head w) \<and> adds_nodes (wk_store w) (wk_store w')"

definition one_commit :: "(bytes \<Rightarrow> bytes) \<Rightarrow> chunk \<Rightarrow> worker \<Rightarrow> worker \<Rightarrow> bool" where
  "one_commit hf cell w w' \<longleftrightarrow> is_cell cell \<and>
     (\<exists>h. chunk_hash hf cell = Some h \<and> wk_store w' h = Some cell \<and>
        (\<forall>h' c. wk_store w' h' = Some c \<longrightarrow> is_cell c \<longrightarrow> wk_store w h' = Some c \<or> h' = h \<and> c = cell)) \<and>
     (\<exists>hv. UpdateLatestVersion hf cell (wk_head w) = Some hv \<and> latest_ver (wk_head w') = latest_ver hv)"

definition step_shape :: "(bytes \<Rightarrow> bytes) \<Rightarrow> worker \<Rightarrow> worker \<Rightarrow> bool" where
  "step_shape hf w w' \<longleftrightarrow> no_commit w w' \<or> (\<exists>cell. one_commit hf cell w w')"

lemma step_shape_same [simp]: "step_shape hf w w"
  by (simp add: step_shape_def no_commit_def)

lemma step_shape_nodes:
  assumes "step_shape hf (w\<lparr>wk_store := st\<rparr>) w'" and "adds_nodes (wk_store w) st"
  shows "step_shape hf w w'"
  using assms(1) unfolding step_shape_def
proof
  assume "no_commit (w\<lparr>wk_store := st\<rparr>) w'"
  then have "no_commit w w'" using assms(2) by (auto simp: no_commit_def intro: adds_nodes_trans)
  then show "no_commit w w' \<or> (\<exists>cell. one_commit hf cell w w')" by blast
next
  assume "\<exists>cell. one_commit hf cell (w\<lparr>wk_store := st\<rparr>) w'"
  then have "\<exists>cell. one_commit hf cell w w'"
    using adds_nodesD(2)[OF assms(2)] unfolding one_commit_def by simp blast
  then show "no_commit w w' \<or> (\<exists>cell. one_commit hf cell w w')" by blast
qed

lemma step_shape_branches:
  "step_shape hf w w1 \<Longrightarrow> latest_ver (wk_head w') = latest_ver (wk_head w1) \<Longrightarrow> wk_store w' = wk_store w1 \<Longrightarrow> step_shape hf w w'"
  by (simp add: step_shape_def no_commit_def one_commit_def)

lemma cell_created_shape:
  assumes "cell_created hf (UCell_Create hf (wk_store w) type key data ctx p1 p2) w = Some (r, w')"
  shows "step_shape hf w w'"
proof -
  from assms obtain c h where c: "chunk_hash hf c = Some h" "is_cell c"
    "UCell_Create hf (wk_store w) type key data ctx p1 p2 = Some (Some c, (wk_store w)(h \<mapsto> c))"
    by (auto simp: cell_created_def UCell_Create_def UCell_of_def bind_eq_Some_conv is_cell_def)
  with assms obtain hv where "UpdateLatestVersion hf c (wk_head w) = Some hv"
    "w' = \<lparr>wk_store = (wk_store w)(h \<mapsto> c), wk_head = hv\<rparr>"
    by (auto simp: cell_created_def bind_eq_Some_conv)
  with c have "one_commit hf c w w'" by (simp add: one_commit_def)
  then show ?thesis by (auto simp: step_shape_def)
qed

lemma WriteUCell_shape:
  assumes "WriteUCell e key v p1 p2 w = Some (r, w')"
  shows "step_shape (e_hf e) w w'"
proof (cases "val_type v = UT_kString")
  case True
  with assms show ?thesis
    by (auto simp: WriteUCell_def CreateUCell_def bind_eq_Some_conv intro: cell_created_shape split: option.splits)
next
  case False
  with assms obtain x st where x: "PutUnkeyed e v (wk_store w) = Some (x, st)" "(case x of Inl ec \<Rightarrow> Some (Inl ec, w\<lparr>wk_store := st\<rparr>)
      | Inr root \<Rightarrow> CreateUCell_hash e key (val_type v) root (val_ctx v) p1 p2 (w\<lparr>wk_store := st\<rparr>)) = Some (r, w')"
    by (auto simp: WriteUCell_def bind_eq_Some_conv)
  have "step_shape (e_hf e) (w\<lparr>wk_store := st\<rparr>) w'"
  proof (cases x)
    case (Inr root)
    with x(2) obtain data where "cell_created (e_hf e) (UCell_Create (e_hf e) (wk_store (w\<lparr>wk_store := st\<rparr>))
        (val_type v) key data (val_ctx v) p1 p2) (w\<lparr>wk_store := st\<rparr>) = Some (r, w')"
      by (auto simp: CreateUCell_hash_def UCell_Create_hash_def cell_created_def bind_eq_Some_conv)
    then show ?thesis by (rule cell_created_shape)
  qed (use x(2) in simp)
  then show ?thesis using PutUnkeyed_grows[OF x(1)] by (rule step_shape_nodes)
qed

lemma Put_ver_shape: "Put_ver e key v prev w = Some (r, w') \<Longrightarrow> step_shape (e_hf e) w w'"
  by (auto simp: Put_ver_def bind_eq_Some_conv split: if_splits intro: WriteUCell_shape)

lemma Merge_vers_shape: "Merge_vers e key v v1 v2 w = Some (r, w') \<Longrightarrow> step_shape (e_hf e) w w'"
  by (auto simp: Merge_vers_def bind_eq_Some_conv split: if_splits intro: WriteUCell_shape)

lemma latest_ver_branches [simp]:
  "latest_ver (PutBranch key branch ver hv) = latest_ver hv" "latest_ver (RemoveBranch key branch hv) = latest_ver hv"
  "RenameBranch key old_b new_b hv = Some hv' \<Longrightarrow> latest_ver hv' = latest_ver hv"
  by (auto simp: PutBranch_def RemoveBranch_def RenameBranch_def Let_def bind_eq_Some_conv split: option.splits if_splits)

lemma shape_head:
  assumes "step_shape hf w w1" and "(case x of Inl ec \<Rightarrow> Some (Inl ec, w1)
      | Inr ver \<Rightarrow> Some (Inr ver, if c then w1 else w1\<lparr>wk_head := PutBranch key branch ver (wk_head w1)\<rparr>)) = Some (r, w')"
  shows "step_shape hf w w'"
  using assms by (cases x) (auto split: if_splits intro: step_shape_branches)

lemma Put_shape:
  assumes "Put e key v branch w = Some (r, w')"
  shows "step_shape (e_hf e) w w'"
proof -
  from assms obtain x w1 where "Put_ver e key v (snd (GetBranch (wk_head w) key branch)) w = Some (x, w1)"
    and *: "(case x of Inl ec \<Rightarrow> Some (Inl ec, w1)
      | Inr ver \<Rightarrow> Some (Inr ver, if branch = [] then w1 else w1\<lparr>wk_head := PutBranch key branch ver (wk_head w1)\<rparr>)) = Some (r, w')"
    by (auto simp: Put_def Put_branch_ver_def bind_eq_Some_conv)
  from shape_head[OF Put_ver_shape[OF this(1)] *] show ?thesis .
qed

lemma Merge_branch_ver_shape:
  assumes "Merge_branch_ver e key v tgt ver w = Some (r, w')"
  shows "step_shape (e_hf e) w w'"
proof (cases "fst (GetBranch (wk_head w) key tgt)")
  case True
  with assms obtain x w1 where "Merge_vers e key v (snd (GetBranch (wk_head w) key tgt)) ver w = Some (x, w1)"
    and *: "(case x of Inl ec \<Rightarrow> Some (Inl ec, w1)
      | Inr ver \<Rightarrow> Some (Inr ver, if False then w1 else w1\<lparr>wk_head := PutBranch key tgt ver (wk_head w1)\<rparr>)) = Some (r, w')"
    by (auto simp: Merge_branch_ver_def Let_def bind_eq_Some_conv split: prod.splits cong: sum.case_cong)
  from shape_head[OF Merge_vers_shape[OF this(1)] *] show ?thesis .
qed (use assms in \<open>auto simp: Merge_branch_ver_def split: prod.splits\<close>)

lemma worker_step_shape: "worker_step e w w' \<Longrightarrow> step_shape (e_hf e) w w'"
proof (induction rule: worker_step.induct)
  case (step_put_unkeyed v w r st)
  then show ?case using PutUnkeyed_grows by (auto simp: step_shape_def no_commit_def)
qed (auto simp: Merge_def Branch_def Branch_ver_def Rename_def Delete_def Let_def bind_eq_Some_conv
    split: prod.splits if_splits intro: Put_shape Put_ver_shape Merge_branch_ver_shape Merge_vers_shape
      step_shape_branches[OF step_shape_same])

section \<open>Failures\<close>

lemma commits_Inl: "commits w (Inl ec) w' \<Longrightarrow> wk_head w' = wk_head w \<and> store_le (wk_store w) (wk_store w')"
  by (simp add: commits_def)

lemma Put_fails: "Put e key v branch w = Some (Inl ec, w') \<Longrightarrow> commits w (Inl ec) w'"
proof -
  assume "Put e key v branch w = Some (Inl ec, w')"
  then obtain x w1 where x: "Put_ver e key v (snd (GetBranch (wk_head w) key branch)) w = Some (x, w1)"
    "(case x of Inl ec \<Rightarrow> Some (Inl ec, w1)
      | Inr ver \<Rightarrow> Some (Inr ver, if branch = [] then w1 else w1\<lparr>wk_head := PutBranch key branch ver (wk_head w1)\<rparr>)) = Some (Inl ec, w')"
    by (auto simp: Put_def Put_branch_ver_def bind_eq_Some_conv)
  then have "x = Inl ec" "w1 = w'" by (cases x; auto)+
  with Put_ver_commits[OF x(1)] show ?thesis by simp
qed

lemma Merge_fails: "Merge e key v branch branch' w = Some (Inl ec, w') \<Longrightarrow> commits w (Inl ec) w'"
proof -
  assume a: "Merge e key v branch branch' w = Some (Inl ec, w')"
  show ?thesis
  proof (cases "fst (GetBranch (wk_head w) key branch') \<and> fst (GetBranch (wk_head w) key branch)")
    case True
    with a obtain x w1 where
      x: "Merge_vers e key v (snd (GetBranch (wk_head w) key branch)) (snd (GetBranch (wk_head w) key branch')) w = Some (x, w1)"
      "(case x of Inl ec \<Rightarrow> Some (Inl ec, w1)
        | Inr ver \<Rightarrow> Some (Inr ver, w1\<lparr>wk_head := PutBranch key branch ver (wk_head w1)\<rparr>)) = Some (Inl ec, w')"
      by (auto simp: Merge_def Merge_branch_ver_def Let_def bind_eq_Some_conv split: prod.splits)
    then have "x = Inl ec" "w1 = w'" by (cases x; auto)+
    with Merge_vers_commits[OF x(1)] show ?thesis by simp
  next
    case False
    with a show ?thesis by (auto simp: Merge_def Merge_branch_ver_def Let_def split: prod.splits if_splits)
  qed
qed

lemma branch_ops_fail:
  "Branch key branch branch' w = Some (Some ec, w') \<Longrightarrow> w' = w"
  "Rename key branch branch' w = Some (Some ec, w') \<Longrightarrow> w' = w"
  "Delete key branch w = Some (Some ec, w') \<Longrightarrow> w' = w"
  by (auto simp: Branch_def Branch_ver_def Rename_def Delete_def Let_def bind_eq_Some_conv
      split: prod.splits if_splits)

section \<open>An example\<close>

definition ex_env :: env where
  "ex_env = \<lparr>e_hf = ex_hf, e_rh = RollingHasher_default, e_sort = \<lambda>ks. [0..<length ks]\<rparr>"

definition ex_cell :: chunk where
  "ex_cell = cell_chunk UT_kString [1] [7, 8] [] (replicate 20 0) None"

definition ex_worker :: worker where
  "ex_worker = \<lparr>wk_store = [ex_hf ex_cell \<mapsto> ex_cell],
     wk_head = \<lparr>branch_ver = [([1], [([2], Some (ex_hf ex_cell))])], latest_ver = [([1], [Some (ex_hf ex_cell)])]\<rparr>\<rparr>"

lemma ex_start: "GetBranch (wk_head no_data) [1] [2] = (False, Some (replicate 20 0))"
    "put_ok [1] [7, 8] [] (replicate 20 0) no_data"
  by (simp_all add: no_data_def GetBranch_def no_versions_def put_ok_def kNull_def kByteLength_def)

lemma ex_put: "Put ex_env [1] (string_val [7, 8] []) [2] no_data = Some (Inr (Some (ex_hf ex_cell)), ex_worker)"
  using Put_string[OF ex_start, of ex_env]
  by (auto simp: ex_env_def ex_worker_def ex_cell_def no_data_def no_versions_def PutLatest_def PutBranch_def
      umap_emplace_def Let_def)

lemma ex_step: "worker_step ex_env no_data ex_worker"
  by (rule step_put[OF ex_put])

section \<open>Properties\<close>

text \<open>C4. Putting a string on a branch.  The new version is returned, becomes the head of the branch and
  a latest version of the key; reading the branch gives a cell with the string, the context and
  the old head as its predecessor; every other branch keeps its head.\<close>

theorem put_get_string:
  assumes "GetBranch (wk_head w) key branch = (b, Some prev)" and "put_ok key x ctx prev w" and "branch \<noteq> []"
  shows "\<exists>ver w' c d. Put e key (string_val x ctx) branch w = Some (Inr ver, w') \<and>
    GetBranchHead key branch w' = Inr ver \<and> IsLatest (wk_head w') key ver \<and>
    Get key branch w' = Some (Inr c) \<and> cell_type c = Some (UType_byte UT_kString) \<and>
    cell_data c = Some d \<and> slice_is d x \<and> cell_preHash c 0 = Some (Some prev) \<and> cell_preHash c 1 = Some None \<and>
    (\<forall>k' b'. (k', b') \<noteq> (key, branch) \<longrightarrow> GetBranch (wk_head w') k' b' = GetBranch (wk_head w) k' b')"
proof -
  let ?c = "cell_chunk UT_kString key x ctx prev None" and ?ver = "Some (e_hf e (cell_chunk UT_kString key x ctx prev None))"
  let ?w = "\<lambda>hv. \<lparr>wk_store = (wk_store w)(e_hf e ?c \<mapsto> ?c), wk_head = PutBranch key branch ?ver hv\<rparr>"
  obtain hv where put: "Put e key (string_val x ctx) branch w = Some (Inr ?ver, ?w hv)"
    and hv: "PutLatest key (Some prev) None ?ver (wk_head w) = Some hv" "heads hv = heads (wk_head w)"
    using Put_string[OF assms, of e] by blast
  have n: "length key < 2 ^ 16" "length x < 2 ^ 15" "length ctx < 2 ^ 15" "length prev = kByteLength"
    using assms(2) by (simp_all add: put_ok_def)
  note f = cell_fields[OF n, of None UT_kString, simplified hash_ok_def option.case]
  have get: "Get key branch (?w hv) = Some (Inr ?c)"
    using Get_ver_cell[OF n, of None "?w hv" "e_hf e ?c" UT_kString]
    by (simp add: Get_def GetBranch_heads heads_PutBranch hash_ok_def)
  have "IsLatest hv key ?ver"
    using latest_PutLatest[of "Some prev" ?ver key None "wk_head w"] hv(1) by (auto simp: IsLatest_latest)
  then have "IsLatest (PutBranch key branch ?ver hv) key ?ver" by (simp add: IsLatest_latest)
  then show ?thesis
    using put get f cell_header(1)[of UT_kString key x ctx prev None] hv(2)
    by (auto simp: GetBranchHead_def GetBranch_heads heads_PutBranch)
qed

theorem put_get_string_witness:
  "\<exists>ver w' c d. Put ex_env [1] (string_val [7, 8] []) [2] no_data = Some (Inr ver, w') \<and>
    GetBranchHead [1] [2] w' = Inr ver \<and> Get [1] [2] w' = Some (Inr c) \<and> cell_data c = Some d \<and> slice_is d [7, 8]"
  using put_get_string[OF ex_start, of ex_env] by fastforce

text \<open>C5. Whatever operations have run since an empty database, every branch head and every latest
  version is in the store, so that reading a branch that exists never reports a missing version.\<close>

theorem heads_in_store:
  assumes "(worker_step e)\<^sup>*\<^sup>* no_data w"
  shows "(GetBranch (wk_head w) key branch = (True, ver) \<longrightarrow> Exists_ver w ver = Some True) \<and>
    (IsLatest (wk_head w) key ver \<longrightarrow> Exists_ver w ver = Some True) \<and>
    (Exists_branch (wk_head w) key branch \<longrightarrow> Get key branch w \<noteq> Some (Inl kUCellNotExists))"
  using worker_ok_reachable[OF assms]
  by (fastforce simp: worker_ok_def known_def Exists_ver_def GetBranch_heads Exists_branch_heads Get_def Get_ver_def
      UCell_Load_def UCell_of_def bind_eq_Some_conv split: option.splits if_splits)

theorem heads_in_store_witness:
  "(worker_step ex_env)\<^sup>*\<^sup>* no_data ex_worker \<and>
   GetBranch (wk_head ex_worker) [1] [2] = (True, Some (ex_hf ex_cell)) \<and>
   Exists_ver ex_worker (Some (ex_hf ex_cell)) = Some True"
proof -
  have "(worker_step ex_env)\<^sup>*\<^sup>* no_data ex_worker" using ex_step by blast
  moreover have "GetBranch (wk_head ex_worker) [1] [2] = (True, Some (ex_hf ex_cell))"
    by (simp add: ex_worker_def GetBranch_def)
  ultimately show ?thesis using heads_in_store[of ex_env ex_worker "[1]" "[2]" "Some (ex_hf ex_cell)"] by simp
qed

text \<open>C28. An operation that reports an error changes neither a branch nor the latest versions, and
  takes no chunk out of the store.\<close>

theorem failed_operation:
  assumes "Put e key v branch w = Some (Inl ec, w') \<or> Put_ver e key v prev w = Some (Inl ec, w') \<or>
    Merge e key v branch branch' w = Some (Inl ec, w') \<or> Merge_vers e key v ver1 ver2 w = Some (Inl ec, w') \<or>
    Branch key branch branch' w = Some (Some ec, w') \<or> Rename key branch branch' w = Some (Some ec, w') \<or>
    Delete key branch w = Some (Some ec, w')"
  shows "wk_head w' = wk_head w \<and> dom (wk_store w) \<subseteq> dom (wk_store w')"
  unfolding store_le_def[symmetric] using assms
  by (elim disjE) (auto dest: Put_fails Put_ver_commits Merge_fails Merge_vers_commits commits_Inl branch_ops_fail)

theorem failed_operation_witness:
  "\<exists>w'. Put ex_env [1] ((string_val [7] [])\<lparr>val_vals := []\<rparr>) [2] ex_worker = Some (Inl kInvalidValue, w') \<and>
    wk_head w' = wk_head ex_worker \<and> dom (wk_store ex_worker) \<subseteq> dom (wk_store w')"
proof -
  have "Put ex_env [1] ((string_val [7] [])\<lparr>val_vals := []\<rparr>) [2] ex_worker = Some (Inl kInvalidValue, ex_worker)"
    by (simp add: Put_def Put_branch_ver_def Put_ver_def GetBranch_def Exists_ver_def WriteUCell_def CheckString_def
        string_val_def ex_worker_def)
  with failed_operation[of ex_env "[1]" "(string_val [7] [])\<lparr>val_vals := []\<rparr>" "[2]" ex_worker kInvalidValue ex_worker]
  show ?thesis by blast
qed

text \<open>A worker that is stopped and started on its store and head file is the same worker, when
  replaying the chunks of the store gives its latest versions, and the message format reads back what
  it writes.\<close>

lemma restart_replays:
  assumes "worker_ok w" and "heads_full (wk_head w)"
    and hv: "replay_cells hf chunks no_versions = Some hv" "latest_ver hv = latest_ver (wk_head w)"
    and "\<And>kvs content. ser kvs = Some content \<Longrightarrow> parse content = Some kvs"
    and "Worker_stop ser w = Some (Some file)"
  shows "Worker_start hf parse (Some file) chunks (wk_store w) = Some w"
proof -
  let ?hv = "(wk_head w)\<lparr>latest_ver := []\<rparr>"
  have "hv_ok (wk_head w)" using assms(1) by (simp add: worker_ok_def)
  from head_file[OF this assms(2,5)] assms(6) have load: "Load parse (Some file) no_versions = Some (True, ?hv)"
    by (simp add: Worker_stop_def)
  from replay_cells_latest[OF hv(1), of ?hv] obtain hv' where
    "replay_cells hf chunks ?hv = Some hv'" "latest_ver hv' = latest_ver hv" "branch_ver hv' = branch_ver ?hv"
    by (auto simp: no_versions_def)
  then show ?thesis using hv(2) load by (simp add: Worker_start_def)
qed

text \<open>C40. Committing a value again.  Versions are named by their content, so putting the same string on
  the same predecessor again gives the version \<open>v1\<close> it gave before.  It then counts as a latest
  version although \<open>v2\<close> has been put on top of it.\<close>

theorem recommit_is_latest:
  assumes "put_ok key x ctx prev w" and "digest_ok (e_hf e)" and "length y < 2 ^ 15"
  shows "\<exists>v1 v2 w1 w2 w3 c. Put_ver e key (string_val x ctx) (Some prev) w = Some (Inr v1, w1) \<and>
    Put_ver e key (string_val y ctx) v1 w1 = Some (Inr v2, w2) \<and>
    Put_ver e key (string_val x ctx) (Some prev) w2 = Some (Inr v1, w3) \<and>
    IsLatest (wk_head w3) key v1 \<and>
    Get_ver key v2 w2 = Some (Inr c) \<and> cell_preHash c 0 = Some v1"
proof -
  let ?c1 = "cell_chunk UT_kString key x ctx prev None"
  let ?h1 = "e_hf e ?c1" and ?s1 = "(wk_store w)(e_hf e ?c1 \<mapsto> ?c1)"
  obtain hv1 where 1: "Put_ver e key (string_val x ctx) (Some prev) w = Some (Inr (Some ?h1), \<lparr>wk_store = ?s1, wk_head = hv1\<rparr>)"
    using Put_ver_string[OF assms(1), of e] by blast
  let ?w1 = "\<lparr>wk_store = ?s1, wk_head = hv1\<rparr>" and ?c2 = "cell_chunk UT_kString key y ctx ?h1 None"
  have ok1: "put_ok key y ctx ?h1 ?w1" using assms by (simp add: put_ok_def digest_okD)
  let ?s2 = "?s1(e_hf e ?c2 \<mapsto> ?c2)"
  obtain hv2 where 2: "Put_ver e key (string_val y ctx) (Some ?h1) ?w1 = Some (Inr (Some (e_hf e ?c2)), \<lparr>wk_store = ?s2, wk_head = hv2\<rparr>)"
    using Put_ver_string[OF ok1, of e] by auto
  let ?w2 = "\<lparr>wk_store = ?s2, wk_head = hv2\<rparr>"
  have ok2: "put_ok key x ctx prev ?w2" using assms(1) by (auto simp: put_ok_def)
  obtain hv3 where 3: "Put_ver e key (string_val x ctx) (Some prev) ?w2 = Some (Inr (Some ?h1), \<lparr>wk_store = ?s2(?h1 \<mapsto> ?c1), wk_head = hv3\<rparr>)"
    "PutLatest key (Some prev) None (Some ?h1) hv2 = Some hv3"
    using Put_ver_string[OF ok2, of e] by auto
  have "IsLatest hv3 key (Some ?h1)"
    using latest_PutLatest[of "Some prev" "Some ?h1" key None hv2] 3(2) by (auto simp: IsLatest_latest)
  moreover have "Get_ver key (Some (e_hf e ?c2)) ?w2 = Some (Inr ?c2)"
    using ok1 by (intro Get_ver_cell) (simp_all add: put_ok_def hash_ok_def)
  moreover have "cell_preHash ?c2 0 = Some (Some ?h1)"
    using ok1 by (intro cell_fields(4)) (simp_all add: put_ok_def hash_ok_def)
  ultimately show ?thesis using 1 2 3(1) by (intro exI conjI) auto
qed

theorem recommit_is_latest_witness:
  "\<exists>v1 v2 w1 w2 w3. Put_ver ex_env [1] (string_val [7, 8] []) (Some (replicate 20 0)) no_data = Some (Inr v1, w1) \<and>
    Put_ver ex_env [1] (string_val [9] []) v1 w1 = Some (Inr v2, w2) \<and>
    Put_ver ex_env [1] (string_val [7, 8] []) (Some (replicate 20 0)) w2 = Some (Inr v1, w3) \<and>
    IsLatest (wk_head w3) [1] v1"
  using recommit_is_latest[OF ex_start(2), of ex_env "[9]"] ex_hf_digest
  by (simp add: ex_env_def) blast

text \<open>A branch may be made on any chunk of the store, also on one that is not a version; reading such
  a branch aborts the process.\<close>


lemma branch_on_data_chunk:
  assumes "wk_store w h = Some c" and "chunk_type c = Some t" and "t \<noteq> ChunkType_byte CT_kCell"
    and "\<not> Exists_branch (wk_head w) key branch"
  shows "\<exists>w'. Branch_ver key (Some h) branch w = Some (None, w') \<and> Get key branch w' = None"
  using assms
  by (simp add: Branch_ver_def Exists_ver_def Get_def GetBranch_heads heads_PutBranch Get_ver_def UCell_Load_def
      UCell_of_def)

end
