(* ===== verification/Lst_Store.thy ===== *)
theory Lst_Store
  imports Chunks
begin

text \<open>
  The log-structured chunk store: include/store/lst_store.h and src/store/lst_store.cc, with
  \<open>AppendInteger\<close> and \<open>ReadInteger\<close> of include/utils/chars.h.

  The log is a file mapped into memory: an image, the byte at each offset.  Writes through the file
  descriptor and through the mapping have the same effect on it, writes succeed, and bytes that
  were never written are zero.  A pointer into the mapping is its offset, the null pointer is 0.
  \<open>SyncToDisk\<close> does nothing, and the timers only decide when it is called; both are left out.

  The linked lists of \<open>LSTSegment\<close> objects are lists of offsets: \<open>lst_free\<close> are the segments from
  \<open>free_list_\<close> on, \<open>lst_major\<close> those from \<open>major_list_\<close> on, of which \<open>current_major_segment_\<close> is the
  last.
\<close>

section \<open>The image\<close>

type_synonym image = "nat \<Rightarrow> byte"

definition img_bytes :: "image \<Rightarrow> nat \<Rightarrow> nat \<Rightarrow> bytes" where
  "img_bytes m off n = map m [off..<off + n]"

definition img_write :: "image \<Rightarrow> nat \<Rightarrow> bytes \<Rightarrow> image" where
  "img_write m off bs = (\<lambda>i. if off \<le> i \<and> i < off + length bs then bs ! (i - off) else m i)"

text \<open>The helpers of chars.h for \<open>uint64_t\<close>.  Both check the alignment of the address; every address
  that \<open>AppendInteger\<close> is given here is the start of a segment or of the log, or eight bytes behind
  it, and the start of a segment was checked when its header was read.\<close>

definition integer_bytes :: "nat list \<Rightarrow> bytes" where
  "integer_bytes values = concat (map (le_bytes 8) values)"

definition AppendInteger :: "image \<Rightarrow> nat \<Rightarrow> nat list \<Rightarrow> image" where
  "AppendInteger m buf values = img_write m buf (integer_bytes values)"

definition integer_at :: "image \<Rightarrow> nat \<Rightarrow> nat" where
  "integer_at m buf = le_val (img_bytes m buf 8)"

definition ReadInteger :: "image \<Rightarrow> nat \<Rightarrow> nat option" where
  "ReadInteger m buf = do { CHECK (buf mod 8 = 0); Some (integer_at m buf) }"

section \<open>Layout\<close>

definition kMetaLogSize :: nat where
  "kMetaLogSize = 4096"

definition kSegmentSize :: nat where
  "kSegmentSize = 2 ^ 22"

definition kMetaSegmentSize :: nat where
  "kMetaSegmentSize = 16"

definition segment_increment :: nat where
  "segment_increment = 16"

definition IsEndChunk :: "byte \<Rightarrow> bool" where
  "IsEndChunk type = (type = ChunkType_byte CT_kNull)"

definition PtrToChunkLength :: "image \<Rightarrow> nat \<Rightarrow> nat" where
  "PtrToChunkLength m p = le_val (img_bytes m p 4)"

definition PtrToChunkType :: "image \<Rightarrow> nat \<Rightarrow> byte" where
  "PtrToChunkType m p = m (p + 4)"

definition GetPtrToNextChunk :: "image \<Rightarrow> nat \<Rightarrow> nat" where
  "GetPtrToNextChunk m p = p + kByteLength + PtrToChunkLength m p"

definition GetFirstChunkPtr :: "nat \<Rightarrow> nat" where
  "GetFirstChunkPtr segment = segment + kMetaSegmentSize"

definition GetValidateHashPtr :: "nat \<Rightarrow> nat" where
  "GetValidateHashPtr segment = segment + kSegmentSize - kByteLength"

definition hash_at :: "image \<Rightarrow> nat \<Rightarrow> bytes" where
  "hash_at m p = img_bytes m p kByteLength"

section \<open>State\<close>

record store_info =
  chunks :: nat
  chunkBytes :: nat
  validChunks :: nat
  validChunkBytes :: nat
  maxSegments :: nat
  allocSegments :: nat
  freeSegments :: nat
  usedSegments :: nat
  chunksPerType :: "byte \<Rightarrow> nat"
  bytesPerType :: "byte \<Rightarrow> nat"

datatype ThreadStatus = kUnscheduled | kScheduled | kCompleted

text \<open>\<open>lst_sync\<close> are the segments of \<open>sync_block_\<close>, \<open>lst_last_free\<close> is \<open>last_free_segment_\<close> and
  \<open>lst_offset\<close> is \<open>major_segment_offset_\<close>.  The chunk map leads from the hash to the offset of the
  chunk.  \<open>lst_size\<close> is the size of the file.\<close>

record lst_store =
  lst_size :: nat
  lst_image :: image
  lst_map :: "bytes \<rightharpoonup> nat"
  lst_free :: "nat list"
  lst_major :: "nat list"
  lst_last_free :: nat
  lst_offset :: nat
  lst_info :: store_info
  lst_sync :: "nat list"
  lst_status :: ThreadStatus

definition onNewChunk :: "byte \<Rightarrow> nat \<Rightarrow> store_info \<Rightarrow> store_info" where
  "onNewChunk type chunkLength i =
     i\<lparr>chunks := chunks i + 1, chunkBytes := chunkBytes i + chunkLength,
       validChunks := validChunks i + 1, validChunkBytes := validChunkBytes i + chunkLength,
       chunksPerType := (chunksPerType i)(type := chunksPerType i type + 1),
       bytesPerType := (bytesPerType i)(type := bytesPerType i type + chunkLength)\<rparr>"

definition onRemoveChunk :: "byte \<Rightarrow> nat \<Rightarrow> store_info \<Rightarrow> store_info" where
  "onRemoveChunk type chunkLength i =
     i\<lparr>validChunks := sub64 (validChunks i) 1, validChunkBytes := sub64 (validChunkBytes i) chunkLength,
       chunksPerType := (chunksPerType i)(type := sub64 (chunksPerType i type) 1),
       bytesPerType := (bytesPerType i)(type := sub64 (bytesPerType i type) chunkLength)\<rparr>"

definition initStoreInfo :: "nat \<Rightarrow> store_info" where
  "initStoreInfo max_segments =
     \<lparr>chunks = 0, chunkBytes = 0, validChunks = 0, validChunkBytes = 0, maxSegments = max_segments,
      allocSegments = 0, freeSegments = 0, usedSegments = 0, chunksPerType = (\<lambda>_. 0), bytesPerType = (\<lambda>_. 0)\<rparr>"

section \<open>Segments\<close>

text \<open>\<open>LinkSegmentList\<close>: the segments from an offset on, following the next offsets.\<close>

partial_function (option) LinkSegmentList :: "image \<Rightarrow> nat \<Rightarrow> nat list option" where
  "LinkSegmentList m off =
     (if off = 0 then Some []
      else Option.bind (ReadInteger m off) (\<lambda>prev.
           Option.bind (ReadInteger m (off + 8)) (\<lambda>next_offset.
           Option.bind (LinkSegmentList m next_offset) (\<lambda>rest. Some (off # rest)))))"

definition head_or_null :: "nat list \<Rightarrow> nat" where
  "head_or_null segs = (case segs of [] \<Rightarrow> 0 | s # _ \<Rightarrow> s)"

definition last_or_null :: "nat list \<Rightarrow> nat" where
  "last_or_null segs = (if segs = [] then 0 else last segs)"

definition UpdateStore :: "lst_store \<Rightarrow> lst_store" where
  "UpdateStore s =
     (let s =
        (if lst_sync s \<noteq> [] then
           (let s =
              (if lst_free s = [] then
                 s\<lparr>lst_free := lst_sync s, lst_image := AppendInteger (lst_image s) 0 [hd (lst_sync s)]\<rparr>
               else
                 s\<lparr>lst_free := lst_free s @ lst_sync s,
                   lst_image := AppendInteger (lst_image s) (lst_last_free s + 8) [hd (lst_sync s)]\<rparr>)
            in s\<lparr>lst_last_free := last (lst_sync s),
                 lst_info := (lst_info s)\<lparr>freeSegments := freeSegments (lst_info s) + length (lst_sync s),
                                          allocSegments := allocSegments (lst_info s) + length (lst_sync s)\<rparr>\<rparr>)
         else s)
      in s\<lparr>lst_status := kUnscheduled\<rparr>)"

text \<open>\<open>Enlarge\<close>, once the status is scheduled: the segments behind the end of the log get their
  links, and a byte at the very end extends the file.  The writes go to the file in this order; each
  is an offset and the bytes put there.\<close>

definition segment_at :: "nat \<Rightarrow> nat" where
  "segment_at i = i * kSegmentSize + kMetaLogSize"

definition enlarge_write :: "nat \<Rightarrow> nat \<Rightarrow> nat \<Rightarrow> nat \<Rightarrow> nat \<times> bytes" where
  "enlarge_write alloc new_segments last_free i =
     (let chunk_id = i + alloc;
          prev_segment_offset = (if i > 0 then segment_at (chunk_id - 1) else last_free);
          next_segment_offset = (if i < new_segments - 1 then segment_at (chunk_id + 1) else 0)
      in (segment_at chunk_id, integer_bytes [prev_segment_offset, next_segment_offset]))"

definition enlarge_writes :: "nat \<Rightarrow> nat \<Rightarrow> nat \<Rightarrow> (nat \<times> bytes) list" where
  "enlarge_writes alloc new_segments last_free =
     map (enlarge_write alloc new_segments last_free) [0..<new_segments] @
     [(segment_at (alloc + new_segments) - 1, [1])]"

definition write_file :: "nat \<times> bytes \<Rightarrow> nat \<times> image \<Rightarrow> nat \<times> image" where
  "write_file w f = (case w of (off, bs) \<Rightarrow> (max (fst f) (off + length bs), img_write (snd f) off bs))"

definition new_segment_count :: "nat \<Rightarrow> nat \<Rightarrow> nat" where
  "new_segment_count max_segments alloc =
     (if alloc + segment_increment * 2 > max_segments then sub64 max_segments alloc else segment_increment * 2)"

definition Enlarge :: "nat \<Rightarrow> lst_store \<Rightarrow> lst_store option" where
  "Enlarge max_segments s =
     (let alloc = allocSegments (lst_info s);
          new_segments = new_segment_count max_segments alloc
      in if new_segments = 0 then Some (s\<lparr>lst_sync := [], lst_status := kCompleted\<rparr>)
         else do { let (len, m) = fold write_file (enlarge_writes alloc new_segments (lst_last_free s)) (lst_size s, lst_image s);
                   segs \<leftarrow> LinkSegmentList m (segment_at alloc);
                   CHECK (length segs = new_segments);
                   Some (s\<lparr>lst_size := len, lst_image := m, lst_sync := segs, lst_status := kCompleted\<rparr>) })"

text \<open>\<open>Allocate\<close>: the next free segment, which is linked behind the current one.  The thread that
  enlarges the log may finish at any time; here it does so between two calls, or when \<open>Allocate\<close>
  has to wait for it.\<close>

definition Allocate_status :: "nat \<Rightarrow> lst_store \<Rightarrow> lst_store option" where
  "Allocate_status max_segments s =
     do { let s = (if freeSegments (lst_info s) < segment_increment then
                     (case lst_status s of kUnscheduled \<Rightarrow> s\<lparr>lst_status := kScheduled\<rparr>
                      | kScheduled \<Rightarrow> s
                      | kCompleted \<Rightarrow> UpdateStore s)
                   else s);
          if lst_free s = [] then
            do { s \<leftarrow> (if lst_status s = kScheduled then Enlarge max_segments s else Some s);
                 let s = (if lst_status s = kCompleted then UpdateStore s else s);
                 CHECK (lst_free s \<noteq> []);
                 Some s }
          else Some s }"

definition Allocate_link :: "nat \<Rightarrow> nat \<Rightarrow> image \<Rightarrow> image" where
  "Allocate_link current next m =
     (let m =
        (if current \<noteq> 0 then
           (let first_chunk = GetFirstChunkPtr current;
                first_hash = first_chunk + PtrToChunkLength m first_chunk;
                m = img_write m (GetValidateHashPtr current) (hash_at m first_hash)
            in AppendInteger m (current + 8) [next])
         else m)
      in AppendInteger m next [current, 0])"

definition Allocate :: "nat \<Rightarrow> nat \<Rightarrow> lst_store \<Rightarrow> (nat \<times> lst_store) option" where
  "Allocate max_segments current s =
     do { s \<leftarrow> Allocate_status max_segments s;
          let next = hd (lst_free s);
          Some (next, s\<lparr>lst_image := Allocate_link current next (lst_image s),
                        lst_free := tl (lst_free s),
                        lst_info := (lst_info s)\<lparr>usedSegments := usedSegments (lst_info s) + 1,
                                                 freeSegments := sub64 (freeSegments (lst_info s)) 1\<rparr>\<rparr>) }"

definition AllocateMajor :: "nat \<Rightarrow> lst_store \<Rightarrow> lst_store option" where
  "AllocateMajor max_segments s =
     do { (new_segment, s) \<leftarrow> Allocate max_segments (last_or_null (lst_major s)) s;
          let major = lst_major s @ [new_segment];
          Some (s\<lparr>lst_major := major,
                  lst_image := AppendInteger (lst_image s) 0 [head_or_null (lst_free s), hd major, new_segment],
                  lst_offset := kMetaSegmentSize\<rparr>) }"

section \<open>Reading and writing chunks\<close>

definition LST_Exists :: "bytes \<Rightarrow> lst_store \<Rightarrow> bool" where
  "LST_Exists key s \<longleftrightarrow> lst_map s key \<noteq> None"

definition LST_Get :: "bytes \<Rightarrow> lst_store \<Rightarrow> chunk option" where
  "LST_Get key s =
     map_option (\<lambda>p. img_bytes (lst_image s) p (PtrToChunkLength (lst_image s) p)) (lst_map s key)"

definition GetFreeSpaceMajor :: "lst_store \<Rightarrow> nat" where
  "GetFreeSpaceMajor s = sub64 (sub64 (sub64 kSegmentSize (lst_offset s)) kByteLength) kMetaLength"

definition emplace :: "bytes \<Rightarrow> nat \<Rightarrow> (bytes \<rightharpoonup> nat) \<Rightarrow> (bytes \<rightharpoonup> nat)" where
  "emplace k p m = (if m k = None then m(k \<mapsto> p) else m)"

definition LST_Put :: "nat \<Rightarrow> bytes \<Rightarrow> chunk \<Rightarrow> lst_store \<Rightarrow> lst_store option" where
  "LST_Put max_segments key chunk s =
     do { n \<leftarrow> chunk_numBytes chunk;
          if LST_Exists key s then Some s
          else do {
            s \<leftarrow> (if lst_major s = [] \<or> GetFreeSpaceMajor s < kByteLength + n then AllocateMajor max_segments s else Some s);
            src \<leftarrow> rd_bytes n chunk 0;
            type \<leftarrow> chunk_type chunk;
            let offset = last (lst_major s) + lst_offset s;
            let m = img_write (lst_image s) offset src;
            let m = img_write m (offset + n) key;
            Some (s\<lparr>lst_image := m,
                    lst_map := emplace (hash_at m (offset + n)) offset (lst_map s),
                    lst_offset := lst_offset s + (kByteLength + n),
                    lst_info := onNewChunk type n (lst_info s)\<rparr>) } }"

section \<open>Loading the log\<close>

text \<open>\<open>LoadFromLastSegment\<close> checks the hash of every chunk, and clears the header where the first
  one does not fit.  Erasing a chunk that is marked invalid is followed by a lookup of it, which
  throws.\<close>

partial_function (option) load_last_loop :: "(bytes \<Rightarrow> bytes) \<Rightarrow> nat \<Rightarrow> lst_store \<Rightarrow> (nat \<times> lst_store) option" where
  "load_last_loop hf p s =
     (let m = lst_image s;
          n = PtrToChunkLength m p;
          type = PtrToChunkType m p
      in if \<not> IsChunkValid type \<or> hash_at m (p + n) \<noteq> hf (img_bytes m p n)
         then Some (p, s\<lparr>lst_image := img_write m p (replicate kMetaLength 0)\<rparr>)
         else if IsEndChunk type then Some (p, s)
         else if type = ChunkType_byte CT_kInvalid then None
         else load_last_loop hf (p + (n + kByteLength))
                (s\<lparr>lst_map := emplace (hash_at m (p + n)) p (lst_map s), lst_info := onNewChunk type n (lst_info s)\<rparr>))"

definition LoadFromLastSegment :: "(bytes \<Rightarrow> bytes) \<Rightarrow> nat \<Rightarrow> lst_store \<Rightarrow> (nat \<times> lst_store) option" where
  "LoadFromLastSegment hf segment s =
     do { let m = lst_image s;
          next_segment_offset \<leftarrow> ReadInteger m (segment + 8);
          let m = (if next_segment_offset \<noteq> 0 then AppendInteger m (segment + 8) [0] else m);
          (p, s) \<leftarrow> load_last_loop hf (GetFirstChunkPtr segment) (s\<lparr>lst_image := m\<rparr>);
          Some (p - segment, s) }"

partial_function (option) load_valid_loop :: "nat \<Rightarrow> lst_store \<Rightarrow> lst_store option" where
  "load_valid_loop p s =
     (let m = lst_image s;
          type = PtrToChunkType m p;
          n = PtrToChunkLength m p
      in if IsEndChunk type then Some s
         else if type = ChunkType_byte CT_kInvalid
         then load_valid_loop (p + (n + kByteLength))
                (s\<lparr>lst_map := (lst_map s)(hash_at m (p + n) := None), lst_info := onRemoveChunk type n (lst_info s)\<rparr>)
         else load_valid_loop (p + (n + kByteLength))
                (s\<lparr>lst_map := emplace (hash_at m (p + n)) p (lst_map s), lst_info := onNewChunk type n (lst_info s)\<rparr>))"

definition LoadFromValidSegment :: "nat \<Rightarrow> lst_store \<Rightarrow> lst_store option" where
  "LoadFromValidSegment segment s =
     do { let m = lst_image s;
          let p = GetFirstChunkPtr segment;
          CHECK (hash_at m (p + PtrToChunkLength m p) = hash_at m (GetValidateHashPtr segment));
          load_valid_loop p s }"

fun load_segments :: "(bytes \<Rightarrow> bytes) \<Rightarrow> nat list \<Rightarrow> lst_store \<Rightarrow> lst_store option" where
  "load_segments hf [] s = Some s"
| "load_segments hf [segment] s =
     do { (off, s) \<leftarrow> LoadFromLastSegment hf segment s; Some (s\<lparr>lst_offset := off\<rparr>) }"
| "load_segments hf (segment # segments) s =
     do { s \<leftarrow> LoadFromValidSegment segment s; load_segments hf segments s }"

definition LST_Load :: "(bytes \<Rightarrow> bytes) \<Rightarrow> lst_store \<Rightarrow> lst_store option" where
  "LST_Load hf s =
     do { let m = lst_image s;
          v0 \<leftarrow> ReadInteger m 0;
          v1 \<leftarrow> ReadInteger m 8;
          free \<leftarrow> LinkSegmentList m v0;
          major \<leftarrow> LinkSegmentList m v1;
          let info = (lst_info s)\<lparr>allocSegments := allocSegments (lst_info s) + length free + length major\<rparr>;
          s \<leftarrow> load_segments hf major
                 (s\<lparr>lst_free := free, lst_major := major, lst_last_free := last_or_null free, lst_info := info\<rparr>);
          Some (s\<lparr>lst_info := (lst_info s)\<lparr>usedSegments := length major,
                                           freeSegments := sub64 (allocSegments (lst_info s)) (length major)\<rparr>\<rparr>) }"

text \<open>The constructor.  The file is \<open>None\<close> when there is none; its size decides whether it is taken
  for a log.\<close>

definition meta_log :: bytes where
  "meta_log = replicate (kMetaLogSize - 1) 0 @ [97]"

definition open_log :: "bool \<Rightarrow> (nat \<times> image) option \<Rightarrow> nat \<times> image" where
  "open_log persist file =
     (case if persist then file else None of
        None \<Rightarrow> write_file (0, meta_log) (0, \<lambda>_. 0)
      | Some (len, m) \<Rightarrow> if sub64 len kMetaLogSize mod kSegmentSize = 0 then (len, m) else write_file (0, meta_log) (len, m))"

definition MmapUstoreLogFile :: "(bytes \<Rightarrow> bytes) \<Rightarrow> nat \<Rightarrow> bool \<Rightarrow> (nat \<times> image) option \<Rightarrow> lst_store option" where
  "MmapUstoreLogFile hf max_segments persist file =
     do { let (len, m) = open_log persist file;
          s \<leftarrow> LST_Load hf \<lparr>lst_size = len, lst_image = m, lst_map = Map.empty, lst_free = [], lst_major = [], lst_last_free = 0,
                 lst_offset = 0, lst_info = initStoreInfo max_segments, lst_sync = [], lst_status = kUnscheduled\<rparr>;
          if freeSegments (lst_info s) < segment_increment
          then do { s \<leftarrow> Enlarge max_segments (s\<lparr>lst_status := kScheduled\<rparr>); Some (UpdateStore s) }
          else Some s }"

section \<open>Iterators\<close>

text \<open>An iterator is the list of segments from the current one on and the offset of a chunk.
  \<open>check\<close> is the policy: whether the chunk with the hash at an offset is in the map, or always
  true.\<close>

record lst_iterator =
  li_segments :: "nat list"
  li_ptr :: nat

definition check_exist :: "lst_store \<Rightarrow> nat \<Rightarrow> bool" where
  "check_exist s p = (lst_map s (hash_at (lst_image s) p) \<noteq> None)"

definition no_check :: "lst_store \<Rightarrow> nat \<Rightarrow> bool" where
  "no_check s p = True"

partial_function (option) li_advance :: "(nat \<Rightarrow> bool) \<Rightarrow> image \<Rightarrow> lst_iterator \<Rightarrow> lst_iterator option" where
  "li_advance check m it =
     (let p = GetPtrToNextChunk m (li_ptr it);
          it = (if IsEndChunk (PtrToChunkType m p) \<and> tl (li_segments it) \<noteq> []
                then \<lparr>li_segments = tl (li_segments it), li_ptr = GetFirstChunkPtr (hd (tl (li_segments it)))\<rparr>
                else it\<lparr>li_ptr := p\<rparr>)
      in if \<not> check (li_ptr it + PtrToChunkLength m (li_ptr it)) \<and> \<not> IsEndChunk (PtrToChunkType m (li_ptr it))
         then li_advance check m it
         else Some it)"

definition li_next :: "(nat \<Rightarrow> bool) \<Rightarrow> image \<Rightarrow> lst_iterator \<Rightarrow> lst_iterator option" where
  "li_next check m it =
     do { CHECK (\<not> (li_ptr it = 0 \<or> IsEndChunk (PtrToChunkType m (li_ptr it)))); li_advance check m it }"

definition li_chunk :: "image \<Rightarrow> lst_iterator \<Rightarrow> chunk" where
  "li_chunk m it = img_bytes m (li_ptr it) (PtrToChunkLength m (li_ptr it))"

definition LST_begin :: "lst_store \<Rightarrow> lst_iterator" where
  "LST_begin s = \<lparr>li_segments = lst_major s,
     li_ptr = (case lst_major s of [] \<Rightarrow> 0 | segment # _ \<Rightarrow> GetFirstChunkPtr segment)\<rparr>"

definition LST_end :: "lst_store \<Rightarrow> lst_iterator" where
  "LST_end s = (if lst_major s = [] then \<lparr>li_segments = [], li_ptr = 0\<rparr>
     else \<lparr>li_segments = [last (lst_major s)], li_ptr = last (lst_major s) + lst_offset s\<rparr>)"

text \<open>The loop over a store, as the worker runs it when it starts.\<close>

partial_function (option) scan :: "(nat \<Rightarrow> bool) \<Rightarrow> image \<Rightarrow> lst_iterator \<Rightarrow> lst_iterator \<Rightarrow> chunk list option" where
  "scan check m it last_it =
     (if li_ptr it = li_ptr last_it then Some []
      else Option.bind (li_next check m it) (\<lambda>it'.
           Option.bind (scan check m it' last_it) (\<lambda>rest. Some (li_chunk m it # rest))))"

definition LST_scan :: "lst_store \<Rightarrow> chunk list option" where
  "LST_scan s = scan (check_exist s) (lst_image s) (LST_begin s) (LST_end s)"

text \<open>Iterators over the chunks of one type.\<close>

partial_function (option) li_type_next :: "byte \<Rightarrow> (nat \<Rightarrow> bool) \<Rightarrow> image \<Rightarrow> lst_iterator \<Rightarrow> lst_iterator option" where
  "li_type_next type check m it =
     Option.bind (li_next check m it) (\<lambda>it.
       let t = PtrToChunkType m (li_ptr it) in
       if t \<noteq> type \<and> \<not> IsEndChunk t then li_type_next type check m it else Some it)"

definition li_type_first :: "byte \<Rightarrow> (nat \<Rightarrow> bool) \<Rightarrow> image \<Rightarrow> lst_iterator \<Rightarrow> lst_iterator option" where
  "li_type_first type check m it =
     (if li_ptr it = 0 then Some it
      else let t = PtrToChunkType m (li_ptr it) in
        if t \<noteq> type \<and> \<not> IsEndChunk t then li_type_next type check m it else Some it)"

end
