(* ===== verification/Messages.thy ===== *)
theory Messages
  imports Worker Lst_Store
begin

text \<open>
  The messages between clients and services: src/proto/messages.proto, and the functions that fill
  and read them, from src/cluster/worker_client.cc, src/cluster/worker_service.cc and
  src/cluster/client.cc.

  A message is a record with the fields of its definition.  An optional field is an option; reading
  one that is absent gives the default value.  A hash in a message is a string, from which 20 bytes
  are read; reading beyond the end of a string, and through the null pointer of an empty hash, is
  \<open>None\<close>.  How a message is laid out as bytes is up to the message library: the two directions are
  parameters of the functions that use them.
\<close>

section \<open>Message types\<close>

datatype message_type =
    PUT_REQUEST | GET_REQUEST | MERGE_REQUEST | LIST_REQUEST | EXISTS_REQUEST | GET_BRANCH_HEAD_REQUEST
  | IS_BRANCH_HEAD_REQUEST | GET_LATEST_VERSION_REQUEST | IS_LATEST_VERSION_REQUEST | BRANCH_REQUEST
  | RENAME_REQUEST | DELETE_REQUEST | PUT_UNKEYED_REQUEST | GET_INFO_REQUEST | PUT_CHUNK_REQUEST
  | GET_CHUNK_REQUEST | EXISTS_CHUNK_REQUEST | RESPONSE

record RequestPayload =
  rq_key :: "bytes option"
  rq_version :: "bytes option"
  rq_branch :: "bytes option"
  rq_ref_version :: "bytes option"
  rq_ref_branch :: "bytes option"

record ValuePayload =
  vp_type :: int
  vp_base :: "bytes option"
  vp_pos :: int
  vp_dels :: int
  vp_values :: "bytes list"
  vp_keys :: "bytes list"
  vp_ctx :: bytes

record ResponsePayload =
  rp_stat :: int
  rp_value :: bytes
  rp_bvalue :: bool
  rp_lvalue :: "bytes list"

record InfoPayload =
  ip_node_id :: bytes
  ip_chunks :: int
  ip_chunk_bytes :: int
  ip_valid_chunks :: int
  ip_valid_chunk_bytes :: int
  ip_max_segments :: int
  ip_alloc_segments :: int
  ip_free_segments :: int
  ip_used_segments :: int
  ip_chunk_types :: "int list"
  ip_chunks_per_type :: "int list"
  ip_bytes_per_type :: "int list"

record UMessage =
  um_type :: message_type
  um_source :: int
  um_request :: "RequestPayload option"
  um_value :: "ValuePayload option"
  um_response :: "ResponsePayload option"
  um_info :: "InfoPayload option"

definition no_request :: RequestPayload where
  "no_request = \<lparr>rq_key = None, rq_version = None, rq_branch = None, rq_ref_version = None, rq_ref_branch = None\<rparr>"

definition no_value :: ValuePayload where
  "no_value = \<lparr>vp_type = 0, vp_base = None, vp_pos = 0, vp_dels = 0, vp_values = [], vp_keys = [], vp_ctx = []\<rparr>"

definition no_response :: ResponsePayload where
  "no_response = \<lparr>rp_stat = 0, rp_value = [], rp_bvalue = False, rp_lvalue = []\<rparr>"

definition request_payload :: "UMessage \<Rightarrow> RequestPayload" where
  "request_payload m = (case um_request m of None \<Rightarrow> no_request | Some r \<Rightarrow> r)"

definition value_payload :: "UMessage \<Rightarrow> ValuePayload" where
  "value_payload m = (case um_value m of None \<Rightarrow> no_value | Some r \<Rightarrow> r)"

definition response_payload :: "UMessage \<Rightarrow> ResponsePayload" where
  "response_payload m = (case um_response m of None \<Rightarrow> no_response | Some r \<Rightarrow> r)"

definition field :: "bytes option \<Rightarrow> bytes" where
  "field f = (case f of None \<Rightarrow> [] | Some s \<Rightarrow> s)"

text \<open>Setting a field to the 20 bytes of a hash, and a hash on the bytes of a field.\<close>

definition set_hash :: "hash \<Rightarrow> bytes option" where
  "set_hash h = do { p \<leftarrow> h; rd_bytes kByteLength p 0 }"

definition Hash_of :: "bytes \<Rightarrow> hash option" where
  "Hash_of s = do { h \<leftarrow> rd_bytes kByteLength s 0; Some (Some h) }"

section \<open>Integers\<close>

text \<open>Conversions of \<open>size_t\<close> to the signed fields and back.\<close>

definition to_int32 :: "nat \<Rightarrow> int" where
  "to_int32 n = (let m = int (n mod 2 ^ 32) in if m < 2 ^ 31 then m else m - 2 ^ 32)"

definition to_int64 :: "nat \<Rightarrow> int" where
  "to_int64 n = (let m = int (n mod 2 ^ 64) in if m < 2 ^ 63 then m else m - 2 ^ 64)"

definition to_size :: "int \<Rightarrow> nat" where
  "to_size i = nat (i mod 2 ^ 64)"

fun ErrorCode_int :: "ErrorCode \<Rightarrow> int" where
  "ErrorCode_int kKeyNotExists = 10"
| "ErrorCode_int kBranchExists = 13"
| "ErrorCode_int kBranchNotExists = 14"
| "ErrorCode_int kReferringVersionNotExist = 15"
| "ErrorCode_int kInconsistentKey = 16"
| "ErrorCode_int kInvalidValue = 20"
| "ErrorCode_int kTypeUnsupported = 21"
| "ErrorCode_int kUCellNotExists = 22"
| "ErrorCode_int kFailedCreateUCell = 23"
| "ErrorCode_int kFailedCreateSBlob = 24"
| "ErrorCode_int kFailedCreateSList = 26"
| "ErrorCode_int kFailedCreateSMap = 27"
| "ErrorCode_int kFailedCreateSSet = 28"
| "ErrorCode_int kFailedModifySBlob = 29"
| "ErrorCode_int kFailedModifySList = 30"
| "ErrorCode_int kFailedModifySMap = 31"
| "ErrorCode_int kFailedModifySSet = 32"
| "ErrorCode_int kChunkNotExists = 40"
| "ErrorCode_int kFailedCreateChunk = 41"
| "ErrorCode_int kStoreInfoUnavailable = 42"

definition error_codes :: "ErrorCode list" where
  "error_codes = [kKeyNotExists, kBranchExists, kBranchNotExists, kReferringVersionNotExist, kInconsistentKey,
     kInvalidValue, kTypeUnsupported, kUCellNotExists, kFailedCreateUCell, kFailedCreateSBlob, kFailedCreateSList,
     kFailedCreateSMap, kFailedCreateSSet, kFailedModifySBlob, kFailedModifySList, kFailedModifySMap,
     kFailedModifySSet, kChunkNotExists, kFailedCreateChunk, kStoreInfoUnavailable]"

text \<open>A code that no operation of the worker returns is kept apart; it is not \<open>kOK\<close>.\<close>

datatype client_error = Code ErrorCode | Other_Code int

definition ErrorCode_of :: "int \<Rightarrow> client_error option" where
  "ErrorCode_of i =
     (if i = 0 then None
      else Some (case find (\<lambda>c. ErrorCode_int c = i) error_codes of Some c \<Rightarrow> Code c | None \<Rightarrow> Other_Code i))"

section \<open>Values\<close>

fun UType_int :: "UType \<Rightarrow> int" where
  "UType_int UT_kUnknown = 0"
| "UType_int UT_kBool = 1"
| "UType_int UT_kNum = 2"
| "UType_int UT_kString = 3"
| "UType_int UT_kBlob = 4"
| "UType_int UT_kList = 5"
| "UType_int UT_kSet = 6"
| "UType_int UT_kMap = 7"

text \<open>A number that is not one of the enumeration is a type that the worker does not know, like
  \<open>kUnknown\<close>: every function that looks at the type takes its default branch.\<close>

definition UType_of :: "int \<Rightarrow> UType" where
  "UType_of i =
     (case find (\<lambda>t. UType_int t = i mod 256) [UT_kBool, UT_kNum, UT_kString, UT_kBlob, UT_kList, UT_kSet, UT_kMap] of
        Some t \<Rightarrow> t | None \<Rightarrow> UT_kUnknown)"

definition FillValuePayload :: "val \<Rightarrow> ValuePayload option" where
  "FillValuePayload v =
     do { base \<leftarrow> (if val_base v = None then Some None else map_option Some (set_hash (val_base v)));
          Some \<lparr>vp_type = UType_int (val_type v), vp_base = base, vp_pos = to_int64 (val_pos v),
                vp_dels = to_int32 (val_dels v), vp_values = val_vals v, vp_keys = val_keys v, vp_ctx = val_ctx v\<rparr> }"

definition ValueFromRequest :: "ValuePayload \<Rightarrow> val option" where
  "ValueFromRequest p =
     do { base \<leftarrow> (case vp_base p of None \<Rightarrow> Some None | Some s \<Rightarrow> Hash_of s);
          Some \<lparr>val_type = UType_of (vp_type p), val_base = base, val_pos = to_size (vp_pos p),
                val_dels = to_size (vp_dels p), val_vals = vp_values p, val_keys = vp_keys p, val_ctx = vp_ctx p\<rparr> }"

section \<open>Responses\<close>

text \<open>The readers of \<open>Client\<close>: an error code other than \<open>kOK\<close>, or the result.  \<open>None\<close> is an aborted
  process.\<close>

definition stat_of :: "UMessage \<Rightarrow> client_error option" where
  "stat_of m = ErrorCode_of (rp_stat (response_payload m))"

definition GetEmptyResponse :: "UMessage \<Rightarrow> (client_error + unit) option" where
  "GetEmptyResponse m = Some (case stat_of m of Some err \<Rightarrow> Inl err | None \<Rightarrow> Inr ())"

definition GetVersionResponse :: "UMessage \<Rightarrow> (client_error + hash) option" where
  "GetVersionResponse m =
     (case stat_of m of
        Some err \<Rightarrow> Some (Inl err)
      | None \<Rightarrow> do { h \<leftarrow> Hash_of (rp_value (response_payload m)); Some (Inr h) })"

definition GetUCellResponse :: "UMessage \<Rightarrow> (client_error + chunk) option" where
  "GetUCellResponse m =
     (case stat_of m of
        Some err \<Rightarrow> Some (Inl err)
      | None \<Rightarrow> do { cell \<leftarrow> UCell_of (Some (rp_value (response_payload m)));
                      c \<leftarrow> cell;
                      Some (Inr c) })"

definition GetChunkResponse :: "UMessage \<Rightarrow> (client_error + chunk) option" where
  "GetChunkResponse m =
     Some (case stat_of m of Some err \<Rightarrow> Inl err | None \<Rightarrow> Inr (rp_value (response_payload m)))"

definition GetStringListResponse :: "UMessage \<Rightarrow> bytes list \<Rightarrow> (client_error + bytes list) option" where
  "GetStringListResponse m vals =
     Some (case stat_of m of Some err \<Rightarrow> Inl err | None \<Rightarrow> Inr (vals @ rp_lvalue (response_payload m)))"

fun hash_list :: "bytes list \<Rightarrow> hash list option" where
  "hash_list [] = Some []"
| "hash_list (s # ss) = do { h \<leftarrow> Hash_of s; hs \<leftarrow> hash_list ss; Some (h # hs) }"

definition GetVersionListResponse :: "UMessage \<Rightarrow> hash list \<Rightarrow> (client_error + hash list) option" where
  "GetVersionListResponse m versions =
     (case stat_of m of
        Some err \<Rightarrow> Some (Inl err)
      | None \<Rightarrow> do { hs \<leftarrow> hash_list (rp_lvalue (response_payload m)); Some (Inr (versions @ hs)) })"

definition GetBoolResponse :: "UMessage \<Rightarrow> (client_error + bool) option" where
  "GetBoolResponse m =
     Some (case stat_of m of Some err \<Rightarrow> Inl err | None \<Rightarrow> Inr (rp_bvalue (response_payload m)))"

end
