(* ===== verification/Cluster.thy ===== *)
theory Cluster
  imports Messages
begin

text \<open>
  Workers behind services, and their clients: src/cluster/worker_service.cc,
  src/cluster/worker_client.cc, include/cluster/partitioner.h, include/cluster/port_helper.h,
  src/cluster/partitioner.cc, and the functions of include/worker/worker.h that only read.

  The access log of the service is left out; it is output.  A client that has been created without
  a chunk client asks the worker for chunks, which is what is modelled here.
\<close>

section \<open>Routing\<close>

text \<open>The addresses are the words of the host file.\<close>

definition WorkerPort :: "bytes \<Rightarrow> bytes" where
  "WorkerPort addr = (if odd (unat (last addr)) then butlast addr @ [last addr XOR 1] else addr)"

definition ChunkPort :: "bytes \<Rightarrow> bytes" where
  "ChunkPort addr = (if \<not> odd (unat (last addr)) then butlast addr @ [last addr XOR 1] else addr)"

record partitioner =
  ptt_id :: int
  dest_list :: "bytes list"

definition Partitioner :: "bytes list \<Rightarrow> bytes \<Rightarrow> (bytes \<Rightarrow> bytes) \<Rightarrow> partitioner option" where
  "Partitioner hosts self_addr f_port =
     do { CHECK (hosts \<noteq> []);
          Some \<lparr>ptt_id = fold (\<lambda>(i, addr) id. if addr = self_addr then int i else id) (enumerate 0 hosts) (- 1),
                dest_list = map f_port hosts\<rparr> }"

definition GetDestId :: "partitioner \<Rightarrow> hash \<Rightarrow> nat option" where
  "GetDestId ptt h =
     (if length (dest_list ptt) = 1 then Some 0
      else do { p \<leftarrow> h; idx \<leftarrow> rd 8 p 9; Some (idx mod length (dest_list ptt)) })"

definition GetDestId_key :: "(bytes \<Rightarrow> bytes) \<Rightarrow> partitioner \<Rightarrow> bytes \<Rightarrow> nat option" where
  "GetDestId_key hf ptt key = GetDestId ptt (Some (hf key))"

definition id2addr :: "partitioner \<Rightarrow> nat \<Rightarrow> bytes option" where
  "id2addr ptt i = nth_opt (dest_list ptt) i"

section \<open>The service\<close>

definition version_response :: "ErrorCode + hash \<Rightarrow> ResponsePayload option" where
  "version_response r =
     (case r of
        Inl code \<Rightarrow> Some (no_response\<lparr>rp_stat := ErrorCode_int code\<rparr>)
      | Inr ver \<Rightarrow> do { s \<leftarrow> set_hash ver; Some (no_response\<lparr>rp_value := s\<rparr>) })"

definition chunk_response :: "ErrorCode + chunk \<Rightarrow> ResponsePayload option" where
  "chunk_response r =
     (case r of
        Inl code \<Rightarrow> Some (no_response\<lparr>rp_stat := ErrorCode_int code\<rparr>)
      | Inr c \<Rightarrow> do { n \<leftarrow> chunk_numBytes c; s \<leftarrow> rd_bytes n c 0; Some (no_response\<lparr>rp_value := s\<rparr>) })"

definition empty_response :: "ErrorCode option \<Rightarrow> ResponsePayload" where
  "empty_response r = (case r of Some code \<Rightarrow> no_response\<lparr>rp_stat := ErrorCode_int code\<rparr> | None \<Rightarrow> no_response)"

definition HandlePutRequest :: "env \<Rightarrow> UMessage \<Rightarrow> worker \<Rightarrow> (ResponsePayload \<times> worker) option" where
  "HandlePutRequest e m w =
     do { let request = request_payload m;
          v \<leftarrow> ValueFromRequest (value_payload m);
          (r, w) \<leftarrow> (case rq_branch request of
             Some branch \<Rightarrow> Put e (field (rq_key request)) v branch w
           | None \<Rightarrow> do { h \<leftarrow> Hash_of (field (rq_version request)); Put_ver e (field (rq_key request)) v h w });
          p \<leftarrow> version_response r;
          Some (p, w) }"

definition HandleGetRequest :: "UMessage \<Rightarrow> worker \<Rightarrow> (ResponsePayload \<times> worker) option" where
  "HandleGetRequest m w =
     do { let request = request_payload m;
          r \<leftarrow> (case rq_branch request of
             Some branch \<Rightarrow> Get (field (rq_key request)) branch w
           | None \<Rightarrow> do { h \<leftarrow> Hash_of (field (rq_version request)); Get_ver (field (rq_key request)) h w });
          p \<leftarrow> chunk_response r;
          Some (p, w) }"

definition HandleMergeRequest :: "env \<Rightarrow> UMessage \<Rightarrow> worker \<Rightarrow> (ResponsePayload \<times> worker) option" where
  "HandleMergeRequest e m w =
     do { let request = request_payload m;
          let key = field (rq_key request);
          v \<leftarrow> ValueFromRequest (value_payload m);
          (r, w) \<leftarrow> (if rq_version request \<noteq> None
             then do { h1 \<leftarrow> Hash_of (field (rq_version request));
                       h2 \<leftarrow> Hash_of (field (rq_ref_version request));
                       Merge_vers e key v h1 h2 w }
             else if rq_ref_version request \<noteq> None
             then do { h \<leftarrow> Hash_of (field (rq_ref_version request));
                       Merge_branch_ver e key v (field (rq_branch request)) h w }
             else Merge e key v (field (rq_branch request)) (field (rq_ref_branch request)) w);
          p \<leftarrow> version_response r;
          Some (p, w) }"

definition HandleListRequest :: "UMessage \<Rightarrow> worker \<Rightarrow> ResponsePayload" where
  "HandleListRequest m w =
     no_response\<lparr>rp_lvalue := (case rq_key (request_payload m) of
        Some key \<Rightarrow> ListBranch (wk_head w) key
      | None \<Rightarrow> ListKey (wk_head w))\<rparr>"

definition HandleExistsRequest :: "UMessage \<Rightarrow> worker \<Rightarrow> ResponsePayload" where
  "HandleExistsRequest m w =
     (let request = request_payload m in
      no_response\<lparr>rp_bvalue := (case rq_branch request of
        Some branch \<Rightarrow> Exists_branch (wk_head w) (field (rq_key request)) branch
      | None \<Rightarrow> Exists_key (wk_head w) (field (rq_key request)))\<rparr>)"

definition HandleGetBranchHeadRequest :: "UMessage \<Rightarrow> worker \<Rightarrow> ResponsePayload option" where
  "HandleGetBranchHeadRequest m w =
     (let request = request_payload m in
      version_response (GetBranchHead (field (rq_key request)) (field (rq_branch request)) w))"

definition HandleIsBranchHeadRequest :: "UMessage \<Rightarrow> worker \<Rightarrow> ResponsePayload option" where
  "HandleIsBranchHeadRequest m w =
     do { let request = request_payload m;
          h \<leftarrow> Hash_of (field (rq_version request));
          Some (no_response\<lparr>rp_bvalue :=
            IsBranchHead (wk_head w) (field (rq_key request)) (field (rq_branch request)) h\<rparr>) }"

fun set_hashes :: "hash list \<Rightarrow> bytes list option" where
  "set_hashes [] = Some []"
| "set_hashes (h # hs) = do { s \<leftarrow> set_hash h; ss \<leftarrow> set_hashes hs; Some (s # ss) }"

definition HandleGetLatestVersionRequest :: "UMessage \<Rightarrow> worker \<Rightarrow> ResponsePayload option" where
  "HandleGetLatestVersionRequest m w =
     do { ss \<leftarrow> set_hashes (GetLatest (wk_head w) (field (rq_key (request_payload m))));
          Some (no_response\<lparr>rp_lvalue := ss\<rparr>) }"

definition HandleIsLatestVersionRequest :: "UMessage \<Rightarrow> worker \<Rightarrow> ResponsePayload option" where
  "HandleIsLatestVersionRequest m w =
     do { let request = request_payload m;
          h \<leftarrow> Hash_of (field (rq_version request));
          Some (no_response\<lparr>rp_bvalue := IsLatest (wk_head w) (field (rq_key request)) h\<rparr>) }"

definition HandleBranchRequest :: "UMessage \<Rightarrow> worker \<Rightarrow> (ResponsePayload \<times> worker) option" where
  "HandleBranchRequest m w =
     do { let request = request_payload m;
          (r, w) \<leftarrow> (case rq_ref_branch request of
             Some ref \<Rightarrow> Branch (field (rq_key request)) ref (field (rq_branch request)) w
           | None \<Rightarrow> do { h \<leftarrow> Hash_of (field (rq_ref_version request));
                           Branch_ver (field (rq_key request)) h (field (rq_branch request)) w });
          Some (empty_response r, w) }"

definition HandleRenameRequest :: "UMessage \<Rightarrow> worker \<Rightarrow> (ResponsePayload \<times> worker) option" where
  "HandleRenameRequest m w =
     do { let request = request_payload m;
          (r, w) \<leftarrow> Rename (field (rq_key request)) (field (rq_ref_branch request)) (field (rq_branch request)) w;
          Some (empty_response r, w) }"

definition HandleDeleteRequest :: "UMessage \<Rightarrow> worker \<Rightarrow> (ResponsePayload \<times> worker) option" where
  "HandleDeleteRequest m w =
     do { let request = request_payload m;
          (r, w) \<leftarrow> Delete (field (rq_key request)) (field (rq_branch request)) w;
          Some (empty_response r, w) }"

definition HandlePutUnkeyedRequest :: "env \<Rightarrow> UMessage \<Rightarrow> worker \<Rightarrow> (ResponsePayload \<times> worker) option" where
  "HandlePutUnkeyedRequest e m w =
     do { v \<leftarrow> ValueFromRequest (value_payload m);
          (r, st) \<leftarrow> PutUnkeyed e v (wk_store w);
          p \<leftarrow> version_response r;
          Some (p, w\<lparr>wk_store := st\<rparr>) }"

definition HandleGetChunkRequest :: "UMessage \<Rightarrow> worker \<Rightarrow> ResponsePayload option" where
  "HandleGetChunkRequest m w =
     do { h \<leftarrow> Hash_of (field (rq_version (request_payload m)));
          r \<leftarrow> GetChunk h w;
          chunk_response r }"

text \<open>\<open>GetStorageInfo\<close> of the worker gives the statistics of the store, when the build has them.
  The types of chunks come in the order of an \<open>unordered_map\<close>, which is a parameter.\<close>

record node_info =
  ni_addr :: bytes
  ni_types :: "byte list"
  ni_store :: "store_info option"

definition HandleGetInfoRequest :: "node_info \<Rightarrow> ResponsePayload \<times> InfoPayload option" where
  "HandleGetInfoRequest ni =
     (case ni_store ni of
        None \<Rightarrow> (no_response\<lparr>rp_stat := ErrorCode_int kStoreInfoUnavailable\<rparr>, None)
      | Some i \<Rightarrow>
          (no_response,
           Some \<lparr>ip_node_id = ni_addr ni, ip_chunks = to_int64 (chunks i), ip_chunk_bytes = to_int64 (chunkBytes i),
                 ip_valid_chunks = to_int64 (validChunks i), ip_valid_chunk_bytes = to_int64 (validChunkBytes i),
                 ip_max_segments = to_int64 (maxSegments i), ip_alloc_segments = to_int64 (allocSegments i),
                 ip_free_segments = to_int64 (freeSegments i), ip_used_segments = to_int64 (usedSegments i),
                 ip_chunk_types = map (\<lambda>t. int (unat t)) (ni_types ni),
                 ip_chunks_per_type = map (\<lambda>t. to_int64 (chunksPerType i t)) (ni_types ni),
                 ip_bytes_per_type = map (\<lambda>t. to_int64 (bytesPerType i t)) (ni_types ni)\<rparr>))"

definition response_to :: "UMessage \<Rightarrow> ResponsePayload option \<Rightarrow> InfoPayload option \<Rightarrow> UMessage" where
  "response_to m p i = \<lparr>um_type = RESPONSE, um_source = um_source m, um_request = None, um_value = None, um_response = p, um_info = i\<rparr>"

definition HandleRequest :: "env \<Rightarrow> node_info \<Rightarrow> UMessage \<Rightarrow> worker \<Rightarrow> (UMessage \<times> worker) option" where
  "HandleRequest e ni m w =
     (let reply = (\<lambda>r. do { (p, w) \<leftarrow> r; Some (response_to m (Some p) None, w) });
          read = (\<lambda>r. do { p \<leftarrow> r; Some (response_to m (Some p) None, w) })
      in case um_type m of
           PUT_REQUEST \<Rightarrow> reply (HandlePutRequest e m w)
         | GET_REQUEST \<Rightarrow> reply (HandleGetRequest m w)
         | MERGE_REQUEST \<Rightarrow> reply (HandleMergeRequest e m w)
         | LIST_REQUEST \<Rightarrow> read (Some (HandleListRequest m w))
         | EXISTS_REQUEST \<Rightarrow> read (Some (HandleExistsRequest m w))
         | GET_BRANCH_HEAD_REQUEST \<Rightarrow> read (HandleGetBranchHeadRequest m w)
         | IS_BRANCH_HEAD_REQUEST \<Rightarrow> read (HandleIsBranchHeadRequest m w)
         | GET_LATEST_VERSION_REQUEST \<Rightarrow> read (HandleGetLatestVersionRequest m w)
         | IS_LATEST_VERSION_REQUEST \<Rightarrow> read (HandleIsLatestVersionRequest m w)
         | BRANCH_REQUEST \<Rightarrow> reply (HandleBranchRequest m w)
         | RENAME_REQUEST \<Rightarrow> reply (HandleRenameRequest m w)
         | DELETE_REQUEST \<Rightarrow> reply (HandleDeleteRequest m w)
         | PUT_UNKEYED_REQUEST \<Rightarrow> reply (HandlePutUnkeyedRequest e m w)
         | GET_CHUNK_REQUEST \<Rightarrow> read (HandleGetChunkRequest m w)
         | GET_INFO_REQUEST \<Rightarrow> (case HandleGetInfoRequest ni of (p, i) \<Rightarrow> Some (response_to m (Some p) i, w))
         | _ \<Rightarrow> Some (response_to m None None, w))"

section \<open>The client\<close>

definition new_message :: "message_type \<Rightarrow> UMessage" where
  "new_message t = \<lparr>um_type = t, um_source = 0, um_request = None, um_value = None, um_response = None, um_info = None\<rparr>"

definition request :: "message_type \<Rightarrow> RequestPayload \<Rightarrow> UMessage" where
  "request t r = (new_message t)\<lparr>um_request := Some r\<rparr>"

definition CreatePutMessage :: "bytes \<Rightarrow> val \<Rightarrow> UMessage option" where
  "CreatePutMessage key v =
     do { p \<leftarrow> FillValuePayload v;
          Some ((request PUT_REQUEST (no_request\<lparr>rq_key := Some key\<rparr>))\<lparr>um_value := Some p\<rparr>) }"

definition CreateGetMessage :: "bytes \<Rightarrow> UMessage" where
  "CreateGetMessage key = request GET_REQUEST (no_request\<lparr>rq_key := Some key\<rparr>)"

definition CreateBranchMessage :: "bytes \<Rightarrow> bytes \<Rightarrow> UMessage" where
  "CreateBranchMessage key new_branch =
     request BRANCH_REQUEST (no_request\<lparr>rq_key := Some key, rq_branch := Some new_branch\<rparr>)"

definition CreateMergeMessage :: "bytes \<Rightarrow> val \<Rightarrow> UMessage option" where
  "CreateMergeMessage key v =
     do { p \<leftarrow> FillValuePayload v;
          Some ((request MERGE_REQUEST (no_request\<lparr>rq_key := Some key\<rparr>))\<lparr>um_value := Some p\<rparr>) }"

text \<open>The \<open>mutable_request_payload\<close> of a message with fields set in it.\<close>

definition with_request :: "(RequestPayload \<Rightarrow> RequestPayload) \<Rightarrow> UMessage \<Rightarrow> UMessage" where
  "with_request f m = m\<lparr>um_request := Some (f (request_payload m))\<rparr>"

text \<open>The operations of the client, as values: one constructor per function of the interface.\<close>

datatype db_call =
    Call_Put_ver bytes val hash
  | Call_Put bytes val bytes
  | Call_Get bytes bytes
  | Call_Get_ver bytes hash
  | Call_Branch bytes bytes bytes
  | Call_Branch_ver bytes hash bytes
  | Call_Rename bytes bytes bytes
  | Call_Merge bytes val bytes bytes
  | Call_Merge_branch_ver bytes val bytes hash
  | Call_Merge_vers bytes val hash hash
  | Call_ListBranches bytes
  | Call_Exists bytes
  | Call_Exists_branch bytes bytes
  | Call_GetBranchHead bytes bytes
  | Call_IsBranchHead bytes bytes hash
  | Call_GetLatestVersions bytes
  | Call_IsLatestVersion bytes hash
  | Call_Delete bytes bytes
  | Call_PutUnkeyed bytes val
  | Call_GetChunk bytes hash

datatype db_result =
    R_none | R_version hash | R_cell chunk | R_chunk chunk | R_strings "bytes list" | R_bool bool | R_versions "hash list"

text \<open>The request that a function sends.\<close>

fun client_request :: "db_call \<Rightarrow> UMessage option" where
  "client_request (Call_Put_ver key v pre_version) =
     do { m \<leftarrow> CreatePutMessage key v;
          h \<leftarrow> set_hash pre_version;
          Some (with_request (\<lambda>r. r\<lparr>rq_version := Some h\<rparr>) m) }"
| "client_request (Call_Put key v branch) =
     do { m \<leftarrow> CreatePutMessage key v; Some (with_request (\<lambda>r. r\<lparr>rq_branch := Some branch\<rparr>) m) }"
| "client_request (Call_Get key branch) = Some (with_request (\<lambda>r. r\<lparr>rq_branch := Some branch\<rparr>) (CreateGetMessage key))"
| "client_request (Call_Get_ver key version) =
     do { h \<leftarrow> set_hash version; Some (with_request (\<lambda>r. r\<lparr>rq_version := Some h\<rparr>) (CreateGetMessage key)) }"
| "client_request (Call_Branch key old_branch new_branch) =
     Some (with_request (\<lambda>r. r\<lparr>rq_ref_branch := Some old_branch\<rparr>) (CreateBranchMessage key new_branch))"
| "client_request (Call_Branch_ver key version new_branch) =
     do { h \<leftarrow> set_hash version;
          Some (with_request (\<lambda>r. r\<lparr>rq_ref_version := Some h\<rparr>) (CreateBranchMessage key new_branch)) }"
| "client_request (Call_Rename key old_branch new_branch) =
     Some (request RENAME_REQUEST
       (no_request\<lparr>rq_key := Some key, rq_ref_branch := Some old_branch, rq_branch := Some new_branch\<rparr>))"
| "client_request (Call_Merge key v tgt_branch ref_branch) =
     do { m \<leftarrow> CreateMergeMessage key v;
          Some (with_request (\<lambda>r. r\<lparr>rq_branch := Some tgt_branch, rq_ref_branch := Some ref_branch\<rparr>) m) }"
| "client_request (Call_Merge_branch_ver key v tgt_branch ref_version) =
     do { m \<leftarrow> CreateMergeMessage key v;
          h \<leftarrow> set_hash ref_version;
          Some (with_request (\<lambda>r. r\<lparr>rq_branch := Some tgt_branch, rq_ref_version := Some h\<rparr>) m) }"
| "client_request (Call_Merge_vers key v ref_version1 ref_version2) =
     do { m \<leftarrow> CreateMergeMessage key v;
          h1 \<leftarrow> set_hash ref_version1;
          h2 \<leftarrow> set_hash ref_version2;
          Some (with_request (\<lambda>r. r\<lparr>rq_version := Some h1, rq_ref_version := Some h2\<rparr>) m) }"
| "client_request (Call_ListBranches key) = Some (request LIST_REQUEST (no_request\<lparr>rq_key := Some key\<rparr>))"
| "client_request (Call_Exists key) = Some (request EXISTS_REQUEST (no_request\<lparr>rq_key := Some key\<rparr>))"
| "client_request (Call_Exists_branch key branch) =
     Some (request EXISTS_REQUEST (no_request\<lparr>rq_key := Some key, rq_branch := Some branch\<rparr>))"
| "client_request (Call_GetBranchHead key branch) =
     Some (request GET_BRANCH_HEAD_REQUEST (no_request\<lparr>rq_key := Some key, rq_branch := Some branch\<rparr>))"
| "client_request (Call_IsBranchHead key branch version) =
     do { h \<leftarrow> set_hash version;
          Some (request IS_BRANCH_HEAD_REQUEST
            (no_request\<lparr>rq_key := Some key, rq_branch := Some branch, rq_version := Some h\<rparr>)) }"
| "client_request (Call_GetLatestVersions key) =
     Some (request GET_LATEST_VERSION_REQUEST (no_request\<lparr>rq_key := Some key\<rparr>))"
| "client_request (Call_IsLatestVersion key version) =
     do { h \<leftarrow> set_hash version;
          Some (request IS_LATEST_VERSION_REQUEST (no_request\<lparr>rq_key := Some key, rq_version := Some h\<rparr>)) }"
| "client_request (Call_Delete key branch) =
     Some (request DELETE_REQUEST (no_request\<lparr>rq_key := Some key, rq_branch := Some branch\<rparr>))"
| "client_request (Call_PutUnkeyed route_key v) =
     do { p \<leftarrow> FillValuePayload v; Some ((new_message PUT_UNKEYED_REQUEST)\<lparr>um_value := Some p\<rparr>) }"
| "client_request (Call_GetChunk route_key version) =
     do { h \<leftarrow> set_hash version; Some (request GET_CHUNK_REQUEST (no_request\<lparr>rq_version := Some h\<rparr>)) }"

text \<open>What a function makes of the response.\<close>

definition result_of :: "('a \<Rightarrow> db_result) \<Rightarrow> (client_error + 'a) option \<Rightarrow> (client_error + db_result) option" where
  "result_of f r = map_option (map_sum id f) r"

fun client_result :: "db_call \<Rightarrow> UMessage \<Rightarrow> (client_error + db_result) option" where
  "client_result (Call_Put_ver _ _ _) m = result_of R_version (GetVersionResponse m)"
| "client_result (Call_Put _ _ _) m = result_of R_version (GetVersionResponse m)"
| "client_result (Call_Get _ _) m = result_of R_cell (GetUCellResponse m)"
| "client_result (Call_Get_ver _ _) m = result_of R_cell (GetUCellResponse m)"
| "client_result (Call_Branch _ _ _) m = result_of (\<lambda>_. R_none) (GetEmptyResponse m)"
| "client_result (Call_Branch_ver _ _ _) m = result_of (\<lambda>_. R_none) (GetEmptyResponse m)"
| "client_result (Call_Rename _ _ _) m = result_of (\<lambda>_. R_none) (GetEmptyResponse m)"
| "client_result (Call_Merge _ _ _ _) m = result_of R_version (GetVersionResponse m)"
| "client_result (Call_Merge_branch_ver _ _ _ _) m = result_of R_version (GetVersionResponse m)"
| "client_result (Call_Merge_vers _ _ _ _) m = result_of R_version (GetVersionResponse m)"
| "client_result (Call_ListBranches _) m = result_of R_strings (GetStringListResponse m [])"
| "client_result (Call_Exists _) m = result_of R_bool (GetBoolResponse m)"
| "client_result (Call_Exists_branch _ _) m = result_of R_bool (GetBoolResponse m)"
| "client_result (Call_GetBranchHead _ _) m = result_of R_version (GetVersionResponse m)"
| "client_result (Call_IsBranchHead _ _ _) m = result_of R_bool (GetBoolResponse m)"
| "client_result (Call_GetLatestVersions _) m = result_of R_versions (GetVersionListResponse m [])"
| "client_result (Call_IsLatestVersion _ _) m = result_of R_bool (GetBoolResponse m)"
| "client_result (Call_Delete _ _) m = result_of (\<lambda>_. R_none) (GetEmptyResponse m)"
| "client_result (Call_PutUnkeyed _ _) m = result_of R_version (GetVersionResponse m)"
| "client_result (Call_GetChunk _ _) m = result_of R_chunk (GetChunkResponse m)"

text \<open>The worker that a request goes to.  With partitioned chunk stores a chunk is asked for where its
  hash says, else where the key is.\<close>

fun call_key :: "db_call \<Rightarrow> bytes" where
  "call_key (Call_Put_ver key _ _) = key"
| "call_key (Call_Put key _ _) = key"
| "call_key (Call_Get key _) = key"
| "call_key (Call_Get_ver key _) = key"
| "call_key (Call_Branch key _ _) = key"
| "call_key (Call_Branch_ver key _ _) = key"
| "call_key (Call_Rename key _ _) = key"
| "call_key (Call_Merge key _ _ _) = key"
| "call_key (Call_Merge_branch_ver key _ _ _) = key"
| "call_key (Call_Merge_vers key _ _ _) = key"
| "call_key (Call_ListBranches key) = key"
| "call_key (Call_Exists key) = key"
| "call_key (Call_Exists_branch key _) = key"
| "call_key (Call_GetBranchHead key _) = key"
| "call_key (Call_IsBranchHead key _ _) = key"
| "call_key (Call_GetLatestVersions key) = key"
| "call_key (Call_IsLatestVersion key _) = key"
| "call_key (Call_Delete key _) = key"
| "call_key (Call_PutUnkeyed route_key _) = route_key"
| "call_key (Call_GetChunk route_key _) = route_key"

definition call_dest :: "(bytes \<Rightarrow> bytes) \<Rightarrow> partitioner \<Rightarrow> bool \<Rightarrow> db_call \<Rightarrow> nat option" where
  "call_dest hf ptt dist c =
     (case c of
        Call_GetChunk route_key version \<Rightarrow>
          if dist then GetDestId ptt version else GetDestId_key hf ptt route_key
      | _ \<Rightarrow> GetDestId_key hf ptt (call_key c))"

section \<open>A call over the network\<close>

text \<open>The bytes of a message, as the message library makes and reads them.\<close>

record wire =
  wire_ser :: "UMessage \<Rightarrow> bytes"
  wire_parse :: "bytes \<Rightarrow> UMessage"

definition wire_ok :: "wire \<Rightarrow> bool" where
  "wire_ok wr \<longleftrightarrow> (\<forall>m. wire_parse wr (wire_ser wr m) = m)"

text \<open>\<open>Send\<close> puts the number of the client into the message.  The service works on what it parses, and
  the client on what it parses of the response.\<close>

definition remote_call :: "env \<Rightarrow> wire \<Rightarrow> partitioner \<Rightarrow> bool \<Rightarrow> int \<Rightarrow> db_call \<Rightarrow> node_info list \<Rightarrow> worker list \<Rightarrow>
    ((client_error + db_result) \<times> worker list) option" where
  "remote_call e wr ptt dist cid c nis ws =
     do { m \<leftarrow> client_request c;
          dest \<leftarrow> call_dest (e_hf e) ptt dist c;
          CHECK (dest < length ws);
          let sent = wire_ser wr (m\<lparr>um_source := cid\<rparr>);
          (r, w) \<leftarrow> HandleRequest e (nis ! dest) (wire_parse wr sent) (ws ! dest);
          let back = wire_parse wr (wire_ser wr r);
          res \<leftarrow> client_result c back;
          Some (res, ws[dest := w]) }"

text \<open>Listing the keys and asking for statistics goes through all workers.\<close>

definition send_to :: "env \<Rightarrow> wire \<Rightarrow> int \<Rightarrow> UMessage \<Rightarrow> node_info \<Rightarrow> worker \<Rightarrow> UMessage option" where
  "send_to e wr cid m ni w =
     do { (r, w) \<leftarrow> HandleRequest e ni (wire_parse wr (wire_ser wr (m\<lparr>um_source := cid\<rparr>))) w;
          Some (wire_parse wr (wire_ser wr r)) }"

fun list_keys :: "env \<Rightarrow> wire \<Rightarrow> int \<Rightarrow> (node_info \<times> worker) list \<Rightarrow> bytes list \<Rightarrow> (client_error + bytes list) option" where
  "list_keys e wr cid [] keys = Some (Inr keys)"
| "list_keys e wr cid ((ni, w) # nodes) keys =
     do { r \<leftarrow> send_to e wr cid (new_message LIST_REQUEST) ni w;
          res \<leftarrow> GetStringListResponse r keys;
          case res of Inl err \<Rightarrow> Some (Inl err) | Inr keys \<Rightarrow> list_keys e wr cid nodes keys }"

definition no_info :: InfoPayload where
  "no_info = \<lparr>ip_node_id = [], ip_chunks = 0, ip_chunk_bytes = 0, ip_valid_chunks = 0, ip_valid_chunk_bytes = 0,
     ip_max_segments = 0, ip_alloc_segments = 0, ip_free_segments = 0, ip_used_segments = 0,
     ip_chunk_types = [], ip_chunks_per_type = [], ip_bytes_per_type = []\<rparr>"

definition GetInfoResponse :: "UMessage \<Rightarrow> (bytes \<times> store_info \<times> byte set) list \<Rightarrow>
    (client_error + (bytes \<times> store_info \<times> byte set) list) option" where
  "GetInfoResponse m stores =
     (case stat_of m of
        Some err \<Rightarrow> Some (Inl err)
      | None \<Rightarrow>
          do { let i = (case um_info m of None \<Rightarrow> no_info | Some i \<Rightarrow> i);
               let types = map (\<lambda>t. word_of_int t) (ip_chunk_types i);
               cs \<leftarrow> (if length (ip_chunks_per_type i) < length types \<or> length (ip_bytes_per_type i) < length types then None
                       else Some (map_of (zip types (ip_chunks_per_type i)), map_of (zip types (ip_bytes_per_type i))));
               Some (Inr (stores @ [(ip_node_id i,
                 \<lparr>chunks = to_size (ip_chunks i), chunkBytes = to_size (ip_chunk_bytes i),
                  validChunks = to_size (ip_valid_chunks i), validChunkBytes = to_size (ip_valid_chunk_bytes i),
                  maxSegments = to_size (ip_max_segments i), allocSegments = to_size (ip_alloc_segments i),
                  freeSegments = to_size (ip_free_segments i), usedSegments = to_size (ip_used_segments i),
                  chunksPerType = (\<lambda>t. case fst cs t of None \<Rightarrow> 0 | Some n \<Rightarrow> to_size n),
                  bytesPerType = (\<lambda>t. case snd cs t of None \<Rightarrow> 0 | Some n \<Rightarrow> to_size n)\<rparr>,
                 set types)])) })"

fun storage_info :: "env \<Rightarrow> wire \<Rightarrow> int \<Rightarrow> (node_info \<times> worker) list \<Rightarrow> (bytes \<times> store_info \<times> byte set) list \<Rightarrow>
    (client_error + (bytes \<times> store_info \<times> byte set) list) option" where
  "storage_info e wr cid [] stores = Some (Inr stores)"
| "storage_info e wr cid ((ni, w) # nodes) stores =
     do { r \<leftarrow> send_to e wr cid (new_message GET_INFO_REQUEST) ni w;
          res \<leftarrow> GetInfoResponse r stores;
          case res of Inl err \<Rightarrow> Some (Inl err) | Inr stores \<Rightarrow> storage_info e wr cid nodes stores }"

section \<open>Putting a stream\<close>

text \<open>\<open>SplitAndPut\<close> sends a stream in parts.  The calls of the client are a parameter: a function from a
  call and a state to a result and a state.  A stream is the list of its bytes; reading less than
  asked for sets its end flag.\<close>

definition max_blob_size :: nat where
  "max_blob_size = 2 ^ 22"

type_synonym 's caller = "db_call \<Rightarrow> 's \<Rightarrow> ((client_error + db_result) \<times> 's) option"

text \<open>The version and the base for the next part, or the error of \<open>Get\<close>.\<close>

definition part_base :: "(bytes \<Rightarrow> bytes) \<Rightarrow> 's caller \<Rightarrow> bytes \<Rightarrow> bytes \<Rightarrow> nat \<Rightarrow> hash \<Rightarrow> hash \<Rightarrow> 's \<Rightarrow>
    ((client_error + hash \<times> hash) \<times> 's) option" where
  "part_base hf call key branch copied version base s =
     (if copied = 0 \<and> branch \<noteq> [] then
        do { (r, s) \<leftarrow> call (Call_Get key branch) s;
             case r of
               Inr (R_cell c) \<Rightarrow> do { h \<leftarrow> chunk_hash hf c; Some (Inr (Some h, base), s) }
             | Inl err \<Rightarrow> if err = Code kKeyNotExists \<or> err = Code kBranchNotExists then Some (Inr (version, base), s)
                           else Some (Inl err, s)
             | _ \<Rightarrow> None }
      else if copied > 0 then
        do { (r, s) \<leftarrow> call (Call_Get_ver key version) s;
             case r of
               Inr (R_cell c) \<Rightarrow> do { b \<leftarrow> dataHash c; Some (Inr (version, b), s) }
             | Inl err \<Rightarrow> Some (Inl err, s)
             | _ \<Rightarrow> None }
      else Some (Inr (version, base), s))"

function (sequential) split_and_put :: "(bytes \<Rightarrow> bytes) \<Rightarrow> 's caller \<Rightarrow> bytes \<Rightarrow> val \<Rightarrow> bytes \<Rightarrow> nat \<Rightarrow> hash \<Rightarrow> hash \<Rightarrow>
    bytes \<Rightarrow> 's \<Rightarrow> ((client_error option \<times> hash) \<times> 's) option" where
  "split_and_put hf call key v branch copied version base data s =
     do { (r, s) \<leftarrow> part_base hf call key branch copied version base s;
          case r of
            Inl err \<Rightarrow> Some ((Some err, version), s)
          | Inr (version, base) \<Rightarrow>
              do { let part = take max_blob_size data;
                   let at_eof = (length data < max_blob_size);
                   let v' = v\<lparr>val_base := base, val_pos := (val_pos v + copied) mod 2 ^ 64, val_vals := [part]\<rparr>;
                   (r, s) \<leftarrow> call (if branch \<noteq> [] \<and> (copied = 0 \<and> version = None \<or> at_eof) then Call_Put key v' branch
                                   else Call_Put_ver key v' version) s;
                   case r of
                     Inl err \<Rightarrow> Some ((Some err, version), s)
                   | Inr (R_version ver) \<Rightarrow>
                       if at_eof then Some ((None, ver), s)
                       else split_and_put hf call key v branch (copied + length part) ver base (drop max_blob_size data) s
                   | _ \<Rightarrow> None } }"
  by pat_completeness auto
termination
  by (relation "measure (\<lambda>(hf, call, key, v, branch, copied, version, base, data, s). length data)")
     (auto simp: max_blob_size_def)

definition Put_stream :: "(bytes \<Rightarrow> bytes) \<Rightarrow> 's caller \<Rightarrow> bytes \<Rightarrow> val \<Rightarrow> bytes \<Rightarrow> bytes \<Rightarrow> hash \<Rightarrow> 's \<Rightarrow>
    ((client_error option \<times> hash) \<times> 's) option" where
  "Put_stream hf call key v data branch version s = split_and_put hf call key v branch 0 version (val_base v) data s"

definition Put_stream_ver :: "(bytes \<Rightarrow> bytes) \<Rightarrow> 's caller \<Rightarrow> bytes \<Rightarrow> val \<Rightarrow> bytes \<Rightarrow> hash \<Rightarrow> hash \<Rightarrow> 's \<Rightarrow>
    ((client_error option \<times> hash) \<times> 's) option" where
  "Put_stream_ver hf call key v data pre_version version s = split_and_put hf call key v [] 0 version (val_base v) data s"

end
