(* ===== verification/Digests.thy ===== *)
theory Digests
  imports Worker
begin

text \<open>
  Every hash that an operation of the worker returns has the 20 bytes of a digest, so that it can be
  sent in a message.
\<close>

definition digest :: "hash \<Rightarrow> bool" where
  "digest h \<longleftrightarrow> (\<exists>p. h = Some p \<and> length p = kByteLength)"

lemma digest_Some [simp]: "digest (Some p) \<longleftrightarrow> length p = kByteLength"
  by (simp add: digest_def)

lemma digestI [intro]: "Some p = h \<Longrightarrow> length p = kByteLength \<Longrightarrow> digest h"
  by auto

lemma chunk_hash_digest: "chunk_hash hf c = Some h \<Longrightarrow> digest_ok hf \<Longrightarrow> length h = kByteLength"
  by (auto simp: chunk_hash_def bind_eq_Some_conv)

lemma obj_hash_digest: "obj_hash hf obj = Some h \<Longrightarrow> digest_ok hf \<Longrightarrow> length h = kByteLength"
  by (auto simp: obj_hash_def split: option.splits dest: chunk_hash_digest)

lemma child_hash_digest: "MetaNode_GetChildHashByEntry c offs i = Some h \<Longrightarrow> length h = kByteLength"
  by (auto simp: MetaNode_GetChildHashByEntry_def MetaEntry_targetHash_def bind_eq_Some_conv dest: rd_bytes_eq_Some_length)

lemma prune_root_digest: "prune_root ld root = Some h \<Longrightarrow> length root = kByteLength \<Longrightarrow> length h = kByteLength"
proof (induction rule: prune_root.raw_induct[rotated 1, consumes 1])
  case (1 prune_root ld root h)
  then obtain chunk nd where "ld root = Some chunk" "CreateFromChunk chunk = Some nd" by (auto simp: bind_eq_Some_conv)
  with 1 show ?case by (cases nd) (auto simp: bind_eq_Some_conv split: if_splits dest: child_hash_digest)
qed

lemma RecursiveCommit_digest:
  "RecursiveCommit hf rh ty ld st nb = Some r \<Longrightarrow> digest_ok hf \<Longrightarrow> length (fst r) = kByteLength"
proof (induction rule: RecursiveCommit.raw_induct[rotated 1, consumes 1])
  case (1 RecursiveCommit hf rh ty ld st nb r)
  then obtain lv ps where nb: "nb = lv # ps" by (cases nb) auto
  with 1(2) obtain cs chunk h where "commit_level hf rh ty ld st lv ps = Some cs" "cs_last cs = Some chunk"
    "chunk_hash hf chunk = Some h" by (auto simp: bind_eq_Some_conv)
  moreover from this 1(2) nb obtain p qs where "cs_parents cs = p # qs" by (cases "cs_parents cs") auto
  ultimately show ?case using 1 nb by (auto split: if_splits dest: chunk_hash_digest)
qed

lemma Commit_digest: "Commit hf rh ty ld st nb = Some r \<Longrightarrow> digest_ok hf \<Longrightarrow> length (fst r) = kByteLength"
  by (auto simp: Commit_def bind_eq_Some_conv split: if_splits dest!: RecursiveCommit_digest dest: prune_root_digest)

lemma commit_operands_digest:
  "commit_operands hf rh ty ld st base ops = Some r \<Longrightarrow> digest_ok hf \<Longrightarrow> length base = kByteLength \<Longrightarrow> length (fst r) = kByteLength"
proof (induction ops arbitrary: st base)
  case (Cons op ops)
  then show ?case by (auto simp: bind_eq_Some_conv dest!: Commit_digest)
qed auto

lemma write_digest:
  "splice_at hf rh ty nb n seg st = Some r \<Longrightarrow> digest_ok hf \<Longrightarrow> length (fst r) = kByteLength"
  by (auto simp: splice_at_def bind_eq_Some_conv dest: Commit_digest)

lemma modify_digest:
  "SBlob_Splice hf rh obj pos n data st = Some r \<Longrightarrow> digest_ok hf \<Longrightarrow> length (fst r) = kByteLength"
  "SList_Splice hf rh obj pos n entries st = Some r \<Longrightarrow> digest_ok hf \<Longrightarrow> length (fst r) = kByteLength"
  "SMap_Set hf rh obj key x st = Some r \<Longrightarrow> digest_ok hf \<Longrightarrow> length (fst r) = kByteLength"
  "SMap_Remove hf rh obj key st = Some r \<Longrightarrow> digest_ok hf \<Longrightarrow> length (fst r) = kByteLength"
  "SSet_Remove hf rh obj key st = Some r \<Longrightarrow> digest_ok hf \<Longrightarrow> length (fst r) = kByteLength"
  "SSet_Set hf rh obj key st = Some r \<Longrightarrow> digest_ok hf \<Longrightarrow> length (fst r) = kByteLength"
  by (auto simp: SBlob_Splice_def SList_Splice_def SMap_Set_def SMap_Remove_def SSet_Remove_def SSet_Set_def
      keyed_Remove_def bind_eq_Some_conv split: if_splits dest: write_digest obj_hash_digest)

lemma SMap_Set_multi_digest:
  "SMap_Set_multi hf rh sorter obj keys vals st = Some r \<Longrightarrow> digest_ok hf \<Longrightarrow> digest (fst r)"
  by (auto simp: SMap_Set_multi_def AdvancedCommit_def bind_eq_Some_conv dest!: obj_hash_digest commit_operands_digest)

lemma created_digest: "created hf ec r = Some (Inr h, st) \<Longrightarrow> digest_ok hf \<Longrightarrow> digest h"
  by (auto simp: created_def bind_eq_Some_conv split: if_splits dest: obj_hash_digest)

lemma new_root_digest: "new_root ec r = Some (Inr h, st) \<Longrightarrow> (\<And>x. r = Some x \<Longrightarrow> digest (fst x)) \<Longrightarrow> digest h"
  by (fastforce simp: new_root_def split: if_splits)

lemma WriteBlob_digest: "WriteBlob e v st = Some (Inr h, st') \<Longrightarrow> digest_ok (e_hf e) \<Longrightarrow>
    val_base v = None \<or> digest (val_base v) \<Longrightarrow> digest h"
  by (cases "val_base v") (auto simp: WriteBlob_def some_root_def bind_eq_Some_conv split: option.splits list.splits if_splits
      dest: created_digest elim!: new_root_digest dest!: modify_digest)

lemma WriteList_digest: "WriteList e v st = Some (Inr h, st') \<Longrightarrow> digest_ok (e_hf e) \<Longrightarrow>
    val_base v = None \<or> digest (val_base v) \<Longrightarrow> digest h"
  by (cases "val_base v") (auto simp: WriteList_def some_root_def bind_eq_Some_conv split: option.splits if_splits
      dest: created_digest elim!: new_root_digest dest!: modify_digest)

lemma WriteMap_digest: "WriteMap e v st = Some (Inr h, st') \<Longrightarrow> digest_ok (e_hf e) \<Longrightarrow>
    val_base v = None \<or> digest (val_base v) \<Longrightarrow> digest h"
  by (cases "val_base v") (auto simp: WriteMap_def some_root_def bind_eq_Some_conv split: option.splits if_splits
      dest: created_digest SMap_Set_multi_digest elim!: new_root_digest dest!: modify_digest)

lemma WriteSet_digest: "WriteSet e v st = Some (Inr h, st') \<Longrightarrow> digest_ok (e_hf e) \<Longrightarrow>
    val_base v = None \<or> digest (val_base v) \<Longrightarrow> digest h"
  by (cases "val_base v") (auto simp: WriteSet_def some_root_def bind_eq_Some_conv split: option.splits if_splits
      dest: created_digest elim!: new_root_digest dest!: modify_digest)

lemma PutUnkeyed_digest: "PutUnkeyed e v st = Some (Inr h, st') \<Longrightarrow> digest_ok (e_hf e) \<Longrightarrow>
    val_base v = None \<or> digest (val_base v) \<Longrightarrow> digest h"
  by (auto simp: PutUnkeyed_def split: UType.splits
      dest: WriteBlob_digest WriteList_digest WriteMap_digest WriteSet_digest)

lemma cell_created_digest: "cell_created hf r w = Some (Inr h, w') \<Longrightarrow> digest_ok hf \<Longrightarrow> digest h"
  by (auto simp: cell_created_def bind_eq_Some_conv split: option.splits dest!: chunk_hash_digest)

lemma WriteUCell_digest: "WriteUCell e key v p1 p2 w = Some (Inr h, w') \<Longrightarrow> digest_ok (e_hf e) \<Longrightarrow> digest h"
  by (auto simp: WriteUCell_def CreateUCell_def CreateUCell_hash_def bind_eq_Some_conv
      split_sum_ex split: if_splits option.splits dest: cell_created_digest)

lemma commit_digests:
  "Put_ver e key v prev w = Some (Inr h, w') \<Longrightarrow> digest_ok (e_hf e) \<Longrightarrow> digest h"
  "Put e key v branch w = Some (Inr h, w') \<Longrightarrow> digest_ok (e_hf e) \<Longrightarrow> digest h"
  "Merge_vers e key v v1 v2 w = Some (Inr h, w') \<Longrightarrow> digest_ok (e_hf e) \<Longrightarrow> digest h"
  "Merge_branch_ver e key v tgt v2 w = Some (Inr h, w') \<Longrightarrow> digest_ok (e_hf e) \<Longrightarrow> digest h"
  "Merge e key v tgt ref w = Some (Inr h, w') \<Longrightarrow> digest_ok (e_hf e) \<Longrightarrow> digest h"
  by (auto simp: Put_ver_def Put_def Put_branch_ver_def Merge_vers_def Merge_branch_ver_def Merge_def bind_eq_Some_conv split_sum_ex
      split: if_splits prod.splits dest: WriteUCell_digest)

end
