(* ===== verification/Chunk_Access.thy ===== *)
theory Chunk_Access
  imports Cluster Digests
begin

text \<open>
  How chunks are read and written: src/chunk/chunk_loader.cc, src/chunk/chunk_writer.cc, and the
  service and the client for chunks of other nodes, src/cluster/chunk_service.cc and
  src/cluster/chunk_client.cc.

  A store is given by its functions \<open>Get\<close>, \<open>Put\<close> and \<open>Exists\<close>, as in include/store/chunk_store.h:
  the record \<open>chunk_store_if\<close>.  An empty chunk, what \<open>Get\<close> returns for a hash that is not there, is
  \<open>None\<close>.
\<close>

section \<open>Stores\<close>

record 's chunk_store_if =
  st_Get :: "bytes \<Rightarrow> 's \<Rightarrow> chunk option"
  st_Put :: "bytes \<Rightarrow> chunk \<Rightarrow> 's \<Rightarrow> (bool \<times> 's) option"
  st_Exists :: "bytes \<Rightarrow> 's \<Rightarrow> bool"

definition lst_if :: "nat \<Rightarrow> lst_store chunk_store_if" where
  "lst_if max_segments =
     \<lparr>st_Get = LST_Get, st_Put = (\<lambda>key c s. map_option (\<lambda>s. (True, s)) (LST_Put max_segments key c s)), st_Exists = LST_Exists\<rparr>"

section \<open>The service\<close>

definition HandlePutChunkRequest :: "'s chunk_store_if \<Rightarrow> UMessage \<Rightarrow> 's \<Rightarrow> (ResponsePayload \<times> 's) option" where
  "HandlePutChunkRequest st m s =
     do { let val = field (vp_base (value_payload m));
          hash \<leftarrow> Hash_of (field (rq_version (request_payload m)));
          h \<leftarrow> hash;
          (ok, s) \<leftarrow> st_Put st h val s;
          Some (if ok then no_response else no_response\<lparr>rp_stat := ErrorCode_int kFailedCreateChunk\<rparr>, s) }"

definition HandleGetChunkRequest_service :: "'s chunk_store_if \<Rightarrow> UMessage \<Rightarrow> 's \<Rightarrow> ResponsePayload option" where
  "HandleGetChunkRequest_service st m s =
     do { hash \<leftarrow> Hash_of (field (rq_version (request_payload m)));
          h \<leftarrow> hash;
          chunk_response (case st_Get st h s of None \<Rightarrow> Inl kChunkNotExists | Some c \<Rightarrow> Inr c) }"

definition HandleExistChunkRequest :: "'s chunk_store_if \<Rightarrow> UMessage \<Rightarrow> 's \<Rightarrow> ResponsePayload option" where
  "HandleExistChunkRequest st m s =
     do { hash \<leftarrow> Hash_of (field (rq_version (request_payload m)));
          h \<leftarrow> hash;
          Some (no_response\<lparr>rp_bvalue := st_Exists st h s\<rparr>) }"

definition HandleRequest_chunk :: "'s chunk_store_if \<Rightarrow> UMessage \<Rightarrow> 's \<Rightarrow> (UMessage \<times> 's) option" where
  "HandleRequest_chunk st m s =
     (case um_type m of
        PUT_CHUNK_REQUEST \<Rightarrow> do { (p, s) \<leftarrow> HandlePutChunkRequest st m s; Some (response_to m (Some p) None, s) }
      | GET_CHUNK_REQUEST \<Rightarrow> do { p \<leftarrow> HandleGetChunkRequest_service st m s; Some (response_to m (Some p) None, s) }
      | EXISTS_CHUNK_REQUEST \<Rightarrow> do { p \<leftarrow> HandleExistChunkRequest st m s; Some (response_to m (Some p) None, s) }
      | _ \<Rightarrow> Some (response_to m None None, s))"

section \<open>The client\<close>

text \<open>A message to the service of one node, and its response.\<close>

definition chunk_send :: "'s chunk_store_if \<Rightarrow> wire \<Rightarrow> int \<Rightarrow> UMessage \<Rightarrow> nat \<Rightarrow> 's list \<Rightarrow> (UMessage \<times> 's list) option" where
  "chunk_send st wr cid m dest ss =
     do { CHECK (dest < length ss);
          (r, s) \<leftarrow> HandleRequest_chunk st (wire_parse wr (wire_ser wr (m\<lparr>um_source := cid\<rparr>))) (ss ! dest);
          Some (wire_parse wr (wire_ser wr r), ss[dest := s]) }"

definition CreateChunkMessage :: "message_type \<Rightarrow> hash \<Rightarrow> UMessage option" where
  "CreateChunkMessage t hash = do { h \<leftarrow> set_hash hash; Some (request t (no_request\<lparr>rq_version := Some h\<rparr>)) }"

definition ChunkClient_Get :: "'s chunk_store_if \<Rightarrow> wire \<Rightarrow> partitioner \<Rightarrow> int \<Rightarrow> hash \<Rightarrow> 's list \<Rightarrow>
    ((client_error + chunk) \<times> 's list) option" where
  "ChunkClient_Get st wr ptt cid hash ss =
     do { m \<leftarrow> CreateChunkMessage GET_CHUNK_REQUEST hash;
          dest \<leftarrow> GetDestId ptt hash;
          (r, ss) \<leftarrow> chunk_send st wr cid m dest ss;
          res \<leftarrow> GetChunkResponse r;
          Some (res, ss) }"

definition ChunkClient_Get_key :: "(bytes \<Rightarrow> bytes) \<Rightarrow> 's chunk_store_if \<Rightarrow> wire \<Rightarrow> partitioner \<Rightarrow> int \<Rightarrow> bytes \<Rightarrow> hash \<Rightarrow> 's list \<Rightarrow>
    ((client_error + chunk) \<times> 's list) option" where
  "ChunkClient_Get_key hf st wr ptt cid key hash ss =
     do { m \<leftarrow> CreateChunkMessage GET_CHUNK_REQUEST hash;
          dest \<leftarrow> GetDestId_key hf ptt key;
          (r, ss) \<leftarrow> chunk_send st wr cid m dest ss;
          res \<leftarrow> GetChunkResponse r;
          Some (res, ss) }"

definition ChunkClient_Put :: "'s chunk_store_if \<Rightarrow> wire \<Rightarrow> partitioner \<Rightarrow> int \<Rightarrow> hash \<Rightarrow> chunk \<Rightarrow> 's list \<Rightarrow>
    ((client_error + unit) \<times> 's list) option" where
  "ChunkClient_Put st wr ptt cid hash c ss =
     do { m \<leftarrow> CreateChunkMessage PUT_CHUNK_REQUEST hash;
          n \<leftarrow> chunk_numBytes c;
          data \<leftarrow> rd_bytes n c 0;
          dest \<leftarrow> GetDestId ptt hash;
          (r, ss) \<leftarrow> chunk_send st wr cid (m\<lparr>um_value := Some (no_value\<lparr>vp_base := Some data\<rparr>)\<rparr>) dest ss;
          res \<leftarrow> GetEmptyResponse r;
          Some (res, ss) }"

definition ChunkClient_Exists :: "'s chunk_store_if \<Rightarrow> wire \<Rightarrow> partitioner \<Rightarrow> int \<Rightarrow> hash \<Rightarrow> 's list \<Rightarrow>
    ((client_error + bool) \<times> 's list) option" where
  "ChunkClient_Exists st wr ptt cid hash ss =
     do { m \<leftarrow> CreateChunkMessage EXISTS_CHUNK_REQUEST hash;
          dest \<leftarrow> GetDestId ptt hash;
          (r, ss) \<leftarrow> chunk_send st wr cid m dest ss;
          res \<leftarrow> GetBoolResponse r;
          Some (res, ss) }"

section \<open>Loaders and writers\<close>

text \<open>The cache of a loader keeps what was found under a hash, the empty chunk included.  \<open>GetChunk\<close>
  of the class that derives from it is a parameter.\<close>

type_synonym cache = "bytes \<rightharpoonup> chunk option"

definition Load_chunk :: "(bytes \<Rightarrow> chunk option option) \<Rightarrow> hash \<Rightarrow> cache \<Rightarrow> (chunk option \<times> cache) option" where
  "Load_chunk fetch key cache =
     do { h \<leftarrow> key;
          case cache h of
            Some c \<Rightarrow> Some (c, cache)
          | None \<Rightarrow> do { c \<leftarrow> fetch h; Some (c, cache(h \<mapsto> c)) } }"

definition LocalChunkLoader_GetChunk :: "'s chunk_store_if \<Rightarrow> 's \<Rightarrow> bytes \<Rightarrow> chunk option option" where
  "LocalChunkLoader_GetChunk st s key = Some (st_Get st key s)"

text \<open>The nodes of a cluster, in the order of their numbers, with the partitioner of the node that
  loads or writes.\<close>

definition PartitionedChunkLoader_GetChunk :: "'s chunk_store_if \<Rightarrow> wire \<Rightarrow> partitioner \<Rightarrow> int \<Rightarrow> 's list \<Rightarrow> bytes \<Rightarrow>
    chunk option option" where
  "PartitionedChunkLoader_GetChunk st wr ptt cid ss key =
     do { dest \<leftarrow> GetDestId ptt (Some key);
          if int dest = ptt_id ptt then do { s \<leftarrow> nth_opt ss dest; Some (st_Get st key s) }
          else do { (r, ss) \<leftarrow> ChunkClient_Get st wr ptt cid (Some key) ss;
                    case r of Inl err \<Rightarrow> None | Inr c \<Rightarrow> Some (Some c) } }"

definition ClientChunkLoader_GetChunk :: "'s caller \<Rightarrow> bytes \<Rightarrow> 's \<Rightarrow> bytes \<Rightarrow> chunk option option" where
  "ClientChunkLoader_GetChunk call route_key s key =
     do { (r, s) \<leftarrow> call (Call_GetChunk route_key (Some key)) s;
          case r of Inl err \<Rightarrow> Some None | Inr (R_chunk c) \<Rightarrow> Some (Some c) | _ \<Rightarrow> None }"

definition LocalChunkWriter_Write :: "'s chunk_store_if \<Rightarrow> bytes \<Rightarrow> chunk \<Rightarrow> 's \<Rightarrow> (bool \<times> 's) option" where
  "LocalChunkWriter_Write st key c s = st_Put st key c s"

definition PartitionedChunkWriter_Write :: "'s chunk_store_if \<Rightarrow> wire \<Rightarrow> partitioner \<Rightarrow> int \<Rightarrow> bytes \<Rightarrow> chunk \<Rightarrow> 's list \<Rightarrow>
    (bool \<times> 's list) option" where
  "PartitionedChunkWriter_Write st wr ptt cid key c ss =
     do { dest \<leftarrow> GetDestId ptt (Some key);
          if int dest = ptt_id ptt
          then do { s \<leftarrow> nth_opt ss dest; (ok, s) \<leftarrow> st_Put st key c s; Some (ok, ss[dest := s]) }
          else do { (r, ss) \<leftarrow> ChunkClient_Put st wr ptt cid (Some key) c ss;
                    case r of Inl err \<Rightarrow> None | Inr u \<Rightarrow> Some (True, ss) } }"

end
