(* ===== verification/Lst_Log.thy ===== *)
theory Lst_Log
  imports Lst_Store
begin

text \<open>
  The invariant of the log-structured store.  The image is seen as a function from segments to the
  chunks they hold, with the lists of free and used segments and the validation hashes around them;
  frame rules say which parts a write leaves alone.  Every operation keeps the invariant: appending,
  enlarging, taking over new segments, allocating, loading.  Lookups and iterators read the list of
  chunks back.
\<close>

section \<open>Images\<close>

named_theorems frame "what a write leaves alone"

lemma length_img_bytes [simp]: "length (img_bytes m p n) = n"
  by (simp add: img_bytes_def)

lemma nth_img_bytes [simp]: "i < n \<Longrightarrow> img_bytes m p n ! i = m (p + i)"
  by (simp add: img_bytes_def)

lemma img_bytes_eqI:
  assumes "length bs = n" and "\<And>i. i < n \<Longrightarrow> m (p + i) = bs ! i"
  shows "img_bytes m p n = bs"
  using assms by (auto intro: nth_equalityI)

lemma img_bytes_cong:
  assumes "\<And>i. i < n \<Longrightarrow> m (p + i) = m' (q + i)"
  shows "img_bytes m p n = img_bytes m' q n"
  using assms by (auto intro: nth_equalityI)

lemma img_bytes_add: "img_bytes m p (i + j) = img_bytes m p i @ img_bytes m (p + i) j"
  by (rule nth_equalityI) (auto simp: nth_append)

lemma img_bytes_append_iff:
  "img_bytes m p (length xs + length ys) = xs @ ys \<longleftrightarrow>
   img_bytes m p (length xs) = xs \<and> img_bytes m (p + length xs) (length ys) = ys"
  by (simp add: img_bytes_add)

lemma img_write_same [simp]: "img_bytes (img_write m p bs) p (length bs) = bs"
  by (rule img_bytes_eqI) (auto simp: img_write_def)

lemma img_write_other:
  "q + n \<le> p \<or> p + length bs \<le> q \<Longrightarrow> img_bytes (img_write m p bs) q n = img_bytes m q n"
  by (rule img_bytes_cong) (auto simp: img_write_def)

lemma length_integer_bytes [simp]: "length (integer_bytes vs) = 8 * length vs"
  by (induction vs) (auto simp: integer_bytes_def)

lemma integer_bytes_simps [simp]:
  "integer_bytes [] = []" "integer_bytes (v # vs) = le_bytes 8 v @ integer_bytes vs"
  by (simp_all add: integer_bytes_def)

lemma integer_at_write:
  assumes "v < 2 ^ 64" and "length xs = n"
  shows "integer_at (img_write m p (xs @ le_bytes 8 v @ ys)) (p + n) = v"
proof -
  have "img_bytes (img_write m p (xs @ le_bytes 8 v @ ys)) (p + n) 8 = le_bytes 8 v"
    using assms(2) by (intro img_bytes_eqI) (auto simp: img_write_def nth_append)
  then show ?thesis using assms by (simp add: integer_at_def)
qed

lemma integer_at_cong:
  "(\<And>i. i < 8 \<Longrightarrow> m (p + i) = m' (p + i)) \<Longrightarrow> integer_at m p = integer_at m' p"
  unfolding integer_at_def by (metis img_bytes_cong)

lemma hash_at_cong:
  "(\<And>i. i < kByteLength \<Longrightarrow> m (p + i) = m' (p + i)) \<Longrightarrow> hash_at m p = hash_at m' p"
  unfolding hash_at_def by (metis img_bytes_cong)

section \<open>Segments of the image\<close>

lemmas layout = kSegmentSize_def kMetaLogSize_def kMetaSegmentSize_def kByteLength_def kMetaLength_def
  segment_increment_def

lemma segment_at_eq:
  assumes "segment_at j + x = segment_at k + y" and "x < kSegmentSize" and "y < kSegmentSize"
  shows "j = k \<and> x = y"
proof -
  have eq: "j * kSegmentSize + x = k * kSegmentSize + y" using assms(1) by (simp add: segment_at_def)
  then have "(j * kSegmentSize + x) div kSegmentSize = (k * kSegmentSize + y) div kSegmentSize" by simp
  then have "j = k" using assms(2,3) by simp
  then show ?thesis using eq by simp
qed

lemma segment_at_ge [simp]: "kMetaLogSize \<le> segment_at k" "0 < segment_at k" "segment_at k \<noteq> 0"
  by (simp_all add: segment_at_def kMetaLogSize_def)

lemma segment_at_aligned [simp]: "segment_at k mod 8 = 0" "(segment_at k + 8) mod 8 = 0"
proof -
  have "segment_at k = 8 * (k * 524288 + 512)" by (simp add: segment_at_def layout)
  then show "segment_at k mod 8 = 0" by simp
  then show "(segment_at k + 8) mod 8 = 0" by simp
qed

lemma segment_at_inj [simp]: "segment_at j = segment_at k \<longleftrightarrow> j = k"
  by (simp add: segment_at_def kSegmentSize_def)

text \<open>A byte of a segment after a write into a segment, or into the head of the log.\<close>

lemma seg_write:
  assumes "x + length bs \<le> kSegmentSize" and "y < kSegmentSize"
  shows "img_write m (segment_at j + x) bs (segment_at k + y) =
    (if j = k \<and> x \<le> y \<and> y < x + length bs then bs ! (y - x) else m (segment_at k + y))"
proof (cases "segment_at j + x \<le> segment_at k + y \<and> segment_at k + y < segment_at j + x + length bs")
  case True
  then obtain i where i: "segment_at k + y = segment_at j + (x + i)" "i < length bs"
    by (metis add.assoc le_Suc_ex nat_add_left_cancel_less)
  then have "k = j \<and> y = x + i" using assms by (intro segment_at_eq) auto
  then show ?thesis using True i by (auto simp: img_write_def)
next
  case False
  then show ?thesis using assms by (auto simp: img_write_def)
qed

lemma meta_write:
  "p + length bs \<le> kMetaLogSize \<Longrightarrow> img_write m p bs (segment_at k + y) = m (segment_at k + y)"
  by (auto simp: img_write_def segment_at_def)

lemma seg_write_meta:
  "i < kMetaLogSize \<Longrightarrow> img_write m (segment_at j + x) bs i = m i"
  by (auto simp: img_write_def segment_at_def)

section \<open>The invariant\<close>

text \<open>A chunk that the store can hold: it has its size in its header, a type that is neither the end
  mark nor the mark of a removed chunk, and room for it and its hash in an empty segment.\<close>

definition storable :: "chunk \<Rightarrow> bool" where
  "storable c \<longleftrightarrow> kMetaLength \<le> length c \<and> le_val (take 4 c) = length c \<and> IsChunkValid (c ! 4) \<and>
     \<not> IsEndChunk (c ! 4) \<and> c ! 4 \<noteq> ChunkType_byte CT_kInvalid \<and>
     kMetaSegmentSize + (length c + kByteLength) + (kMetaLength + kByteLength) \<le> kSegmentSize"

definition seg_body :: "(bytes \<Rightarrow> bytes) \<Rightarrow> chunk list \<Rightarrow> bytes" where
  "seg_body hf cs = concat (map (\<lambda>c. c @ hf c) cs)"

text \<open>A segment holds the chunks, each with its hash behind it, and zeros behind them up to the
  place of the validation hash.\<close>

definition seg_data :: "(bytes \<Rightarrow> bytes) \<Rightarrow> image \<Rightarrow> nat \<Rightarrow> chunk list \<Rightarrow> bool" where
  "seg_data hf m k cs \<longleftrightarrow>
     kMetaSegmentSize + length (seg_body hf cs) + (kMetaLength + kByteLength) \<le> kSegmentSize \<and>
     img_bytes m (segment_at k + kMetaSegmentSize) (length (seg_body hf cs)) = seg_body hf cs \<and>
     (\<forall>y. kMetaSegmentSize + length (seg_body hf cs) \<le> y \<and> y < kSegmentSize - kByteLength \<longrightarrow> m (segment_at k + y) = 0)"

fun seg_entries :: "(bytes \<Rightarrow> bytes) \<Rightarrow> nat \<Rightarrow> chunk list \<Rightarrow> (bytes \<times> nat) list" where
  "seg_entries hf p [] = []"
| "seg_entries hf p (c # cs) = (hf c, p) # seg_entries hf (p + (length c + kByteLength)) cs"

definition log_entries :: "(bytes \<Rightarrow> bytes) \<Rightarrow> (nat \<Rightarrow> chunk list) \<Rightarrow> nat \<Rightarrow> (bytes \<times> nat) list" where
  "log_entries hf f u = concat (map (\<lambda>k. seg_entries hf (segment_at k + kMetaSegmentSize) (f k)) [0..<u])"

definition log_chunks :: "(nat \<Rightarrow> chunk list) \<Rightarrow> nat \<Rightarrow> chunk list" where
  "log_chunks f u = concat (map f [0..<u])"

definition index_of :: "(bytes \<times> nat) list \<Rightarrow> (bytes \<rightharpoonup> nat)" where
  "index_of es = (\<lambda>h. map_option snd (find (\<lambda>e. fst e = h) es))"

definition log_info :: "chunk list \<Rightarrow> store_info \<Rightarrow> store_info" where
  "log_info cs i = fold (\<lambda>c. onNewChunk (c ! 4) (length c)) cs i"

definition counts_of :: "store_info \<Rightarrow> store_info" where
  "counts_of i = i\<lparr>allocSegments := 0, freeSegments := 0, usedSegments := 0\<rparr>"

text \<open>The image of a log of \<open>a\<close> segments of which \<open>u\<close> are in use.\<close>

definition log_image :: "(bytes \<Rightarrow> bytes) \<Rightarrow> nat \<Rightarrow> nat \<Rightarrow> (nat \<Rightarrow> chunk list) \<Rightarrow> image \<Rightarrow> bool" where
  "log_image hf u a f m \<longleftrightarrow>
     integer_at m 0 = (if u < a then segment_at u else 0) \<and>
     integer_at m 8 = (if 0 < u then segment_at 0 else 0) \<and>
     (\<forall>k < a. integer_at m (segment_at k + 8) = (if Suc k = u \<or> Suc k = a then 0 else segment_at (Suc k))) \<and>
     (\<forall>k. seg_data hf m k (f k)) \<and>
     (\<forall>k. Suc k < u \<longrightarrow> hash_at m (GetValidateHashPtr (segment_at k)) = hf (hd (f k)))"

definition sync_image :: "nat \<Rightarrow> nat \<Rightarrow> image \<Rightarrow> bool" where
  "sync_image a b m \<longleftrightarrow>
     (\<forall>k. a \<le> k \<and> k < b \<longrightarrow> integer_at m (segment_at k + 8) = (if Suc k = b then 0 else segment_at (Suc k)))"

definition log_ghost :: "(bytes \<Rightarrow> bytes) \<Rightarrow> nat \<Rightarrow> nat \<Rightarrow> nat \<Rightarrow> (nat \<Rightarrow> chunk list) \<Rightarrow> bool" where
  "log_ghost hf mx u a f \<longleftrightarrow>
     digest_ok hf \<and> mx < 2 ^ 41 \<and> u \<le> a \<and> a \<le> mx \<and>
     (\<forall>k \<ge> u. f k = []) \<and> (\<forall>k. Suc k < u \<longrightarrow> f k \<noteq> []) \<and> (\<forall>k. \<forall>c \<in> set (f k). storable c)"

definition lst_inv :: "(bytes \<Rightarrow> bytes) \<Rightarrow> nat \<Rightarrow> nat \<Rightarrow> nat \<Rightarrow> (nat \<Rightarrow> chunk list) \<Rightarrow> lst_store \<Rightarrow> bool" where
  "lst_inv hf mx u a f s \<longleftrightarrow>
     log_ghost hf mx u a f \<and> log_image hf u a f (lst_image s) \<and>
     (\<exists>j. lst_size s = segment_at j) \<and>
     lst_map s = index_of (log_entries hf f u) \<and>
     lst_major s = map segment_at [0..<u] \<and> lst_free s = map segment_at [u..<a] \<and>
     (u < a \<longrightarrow> lst_last_free s = segment_at (a - 1)) \<and>
     (0 < u \<longrightarrow> lst_offset s = kMetaSegmentSize + length (seg_body hf (f (u - 1)))) \<and>
     allocSegments (lst_info s) = a \<and> usedSegments (lst_info s) = u \<and> freeSegments (lst_info s) = a - u \<and>
     counts_of (lst_info s) = log_info (log_chunks f u) (initStoreInfo mx) \<and>
     (lst_status s = kCompleted \<longrightarrow>
        lst_sync s = map segment_at [a..<a + new_segment_count mx a] \<and>
        sync_image a (a + new_segment_count mx a) (lst_image s))"

section \<open>The index\<close>

lemma find_append: "find P (xs @ ys) = (case find P xs of None \<Rightarrow> find P ys | Some x \<Rightarrow> Some x)"
  by (induction xs) auto

lemma emplace_index: "emplace h p (index_of es) = index_of (es @ [(h, p)])"
  by (rule ext) (auto simp: emplace_def index_of_def find_append split: option.splits)

lemma fold_emplace_index: "fold (\<lambda>(h, p). emplace h p) es' (index_of es) = index_of (es @ es')"
  by (induction es' arbitrary: es) (auto simp: emplace_index)

lemma index_of_Nil [simp]: "index_of [] = Map.empty"
  by (simp add: index_of_def)

lemma seg_body_simps [simp]:
  "seg_body hf [] = []" "seg_body hf (c # cs) = c @ hf c @ seg_body hf cs"
  "seg_body hf (cs @ ds) = seg_body hf cs @ seg_body hf ds"
  by (simp_all add: seg_body_def)

lemma log_info_simps [simp]:
  "log_info [] i = i" "log_info (c # cs) i = log_info cs (onNewChunk (c ! 4) (length c) i)"
  "log_info (cs @ ds) i = log_info ds (log_info cs i)"
  by (simp_all add: log_info_def)

lemma counts_of_simps [simp]:
  "counts_of (onNewChunk t n i) = onNewChunk t n (counts_of i)"
  "counts_of (i\<lparr>allocSegments := x\<rparr>) = counts_of i"
  "counts_of (i\<lparr>freeSegments := x\<rparr>) = counts_of i"
  "counts_of (i\<lparr>usedSegments := x\<rparr>) = counts_of i"
  "counts_of (initStoreInfo mx) = initStoreInfo mx"
  by (simp_all add: counts_of_def onNewChunk_def initStoreInfo_def)

lemma counts_of_log [simp]: "counts_of (log_info cs i) = log_info cs (counts_of i)"
  by (induction cs arbitrary: i) auto

lemma onNewChunk_segments [simp]:
  "allocSegments (onNewChunk t n i) = allocSegments i"
  "usedSegments (onNewChunk t n i) = usedSegments i"
  "freeSegments (onNewChunk t n i) = freeSegments i"
  by (simp_all add: onNewChunk_def)

lemma log_info_segments [simp]:
  "allocSegments (log_info cs i) = allocSegments i"
  "usedSegments (log_info cs i) = usedSegments i"
  "freeSegments (log_info cs i) = freeSegments i"
  by (induction cs arbitrary: i) auto

lemma seg_entries_append:
  assumes "digest_ok hf"
  shows "seg_entries hf p (cs @ ds) = seg_entries hf p cs @ seg_entries hf (p + length (seg_body hf cs)) ds"
  using assms by (induction cs arbitrary: p) (auto simp: add.assoc)

lemma log_entries_Suc [simp]:
  "log_entries hf f (Suc u) = log_entries hf f u @ seg_entries hf (segment_at u + kMetaSegmentSize) (f u)"
  by (simp add: log_entries_def)

lemma log_chunks_Suc [simp]: "log_chunks f (Suc u) = log_chunks f u @ f u"
  by (simp add: log_chunks_def)

lemma log_0 [simp]: "log_entries hf f 0 = []" "log_chunks f 0 = []"
  by (simp_all add: log_entries_def log_chunks_def)

lemma log_entries_cong: "(\<And>k. k < u \<Longrightarrow> f k = g k) \<Longrightarrow> log_entries hf f u = log_entries hf g u"
  unfolding log_entries_def by (intro arg_cong[where f = concat] map_cong) auto

lemma log_chunks_cong: "(\<And>k. k < u \<Longrightarrow> f k = g k) \<Longrightarrow> log_chunks f u = log_chunks g u"
  unfolding log_chunks_def by (intro arg_cong[where f = concat] map_cong) auto

section \<open>Reading the image\<close>

lemma record_read:
  assumes "digest_ok hf" and "storable c" and "img_bytes m p (length (seg_body hf (c # cs))) = seg_body hf (c # cs)"
  shows "img_bytes m p (length c) = c" and "hash_at m (p + length c) = hf c"
    and "PtrToChunkLength m p = length c" and "PtrToChunkType m p = c ! 4"
    and "img_bytes m (p + (length c + kByteLength)) (length (seg_body hf cs)) = seg_body hf cs"
proof -
  have "img_bytes m p (length c + (kByteLength + length (seg_body hf cs))) = c @ hf c @ seg_body hf cs"
    using assms by simp
  then have all: "img_bytes m p (length c) = c \<and> img_bytes m (p + length c) kByteLength = hf c \<and>
      img_bytes m (p + length c + kByteLength) (length (seg_body hf cs)) = seg_body hf cs"
    using assms(1) by (simp add: img_bytes_add append_eq_append_conv)
  then show c: "img_bytes m p (length c) = c" and "hash_at m (p + length c) = hf c"
    and "img_bytes m (p + (length c + kByteLength)) (length (seg_body hf cs)) = seg_body hf cs"
    by (simp_all add: hash_at_def add.assoc)
  have len: "5 \<le> length c" using assms(2) by (simp add: storable_def kMetaLength_def)
  have nth: "m (p + i) = c ! i" if "i < length c" for i
    using arg_cong[OF c, of "\<lambda>xs. xs ! i"] that by simp
  have "img_bytes m p 4 = take 4 c" using len nth by (intro img_bytes_eqI) auto
  then show "PtrToChunkLength m p = length c"
    using assms(2) by (simp add: PtrToChunkLength_def storable_def)
  show "PtrToChunkType m p = c ! 4" using len nth by (simp add: PtrToChunkType_def)
qed

lemma le_bytes_0: "le_bytes k 0 = replicate k 0"
  by (induction k) auto

lemma blank_read:
  assumes "\<And>i. i < kMetaLength \<Longrightarrow> m (p + i) = 0"
  shows "PtrToChunkLength m p = 0" and "PtrToChunkType m p = 0"
    and "img_write m p (replicate kMetaLength 0) = m"
proof -
  have "img_bytes m p 4 = le_bytes 4 0" using assms
    by (intro img_bytes_eqI) (auto simp: kMetaLength_def le_bytes_0)
  then show "PtrToChunkLength m p = 0" by (simp add: PtrToChunkLength_def)
  show "PtrToChunkType m p = 0" using assms by (simp add: PtrToChunkType_def kMetaLength_def)
  have "img_write m p (replicate kMetaLength 0) i = m i" for i
    using assms[of "i - p"] by (auto simp: img_write_def)
  then show "img_write m p (replicate kMetaLength 0) = m" by (rule ext)
qed

lemma end_mark [simp]: "IsEndChunk 0" "IsChunkValid 0"
  by (simp_all add: IsEndChunk_def IsChunkValid_def ChunkType_byte_def)

lemma storable_type:
  assumes "storable c"
  shows "IsChunkValid (c ! 4)" and "\<not> IsEndChunk (c ! 4)" and "c ! 4 \<noteq> ChunkType_byte CT_kInvalid"
  using assms by (auto simp: storable_def)

lemma load_valid_loop_body:
  assumes "digest_ok hf" and "\<forall>c \<in> set cs. storable c"
    and "img_bytes (lst_image s) p (length (seg_body hf cs)) = seg_body hf cs"
    and "PtrToChunkType (lst_image s) (p + length (seg_body hf cs)) = 0"
  shows "load_valid_loop p s =
    Some (s\<lparr>lst_map := fold (\<lambda>(h, p). emplace h p) (seg_entries hf p cs) (lst_map s), lst_info := log_info cs (lst_info s)\<rparr>)"
  using assms(2-)
proof (induction cs arbitrary: p s)
  case Nil
  then show ?case by (subst load_valid_loop.simps) simp
next
  case (Cons c cs)
  note r = record_read[OF assms(1) _ Cons.prems(2)]
  have c: "storable c" using Cons.prems(1) by simp
  define s' where "s' = s\<lparr>lst_map := emplace (hf c) p (lst_map s), lst_info := onNewChunk (c ! 4) (length c) (lst_info s)\<rparr>"
  have img: "lst_image s' = lst_image s" by (simp add: s'_def)
  have "load_valid_loop p s = load_valid_loop (p + (length c + kByteLength)) s'"
    by (subst load_valid_loop.simps) (simp add: Let_def r[OF c] storable_type[OF c] s'_def)
  also have "\<dots> = Some (s\<lparr>lst_map := fold (\<lambda>(h, p). emplace h p) (seg_entries hf p (c # cs)) (lst_map s),
        lst_info := log_info (c # cs) (lst_info s)\<rparr>)"
    using Cons.prems assms(1) by (subst Cons.IH) (auto simp: img r(5)[OF c] add.assoc s'_def)
  finally show ?case .
qed

lemma load_last_loop_body:
  assumes "digest_ok hf" and "\<forall>c \<in> set cs. storable c"
    and "img_bytes (lst_image s) p (length (seg_body hf cs)) = seg_body hf cs"
    and "\<And>i. i < kMetaLength \<Longrightarrow> lst_image s (p + length (seg_body hf cs) + i) = 0"
  shows "load_last_loop hf p s =
    Some (p + length (seg_body hf cs),
      s\<lparr>lst_map := fold (\<lambda>(h, p). emplace h p) (seg_entries hf p cs) (lst_map s), lst_info := log_info cs (lst_info s)\<rparr>)"
  using assms(2-)
proof (induction cs arbitrary: p s)
  case Nil
  have z: "\<And>i. i < kMetaLength \<Longrightarrow> lst_image s (p + i) = 0" using Nil.prems(3) by simp
  note b = blank_read[of "lst_image s" p, OF z]
  show ?case using b by (subst load_last_loop.simps) (simp add: Let_def)
next
  case (Cons c cs)
  note r = record_read[OF assms(1) _ Cons.prems(2)]
  have c: "storable c" using Cons.prems(1) by simp
  define s' where "s' = s\<lparr>lst_map := emplace (hf c) p (lst_map s), lst_info := onNewChunk (c ! 4) (length c) (lst_info s)\<rparr>"
  have img: "lst_image s' = lst_image s" by (simp add: s'_def)
  have "load_last_loop hf p s = load_last_loop hf (p + (length c + kByteLength)) s'"
    by (subst load_last_loop.simps) (simp add: Let_def r[OF c] storable_type[OF c] s'_def)
  also have "\<dots> = Some (p + length (seg_body hf (c # cs)),
        s\<lparr>lst_map := fold (\<lambda>(h, p). emplace h p) (seg_entries hf p (c # cs)) (lst_map s),
          lst_info := log_info (c # cs) (lst_info s)\<rparr>)"
    using Cons.prems assms(1) by (subst Cons.IH) (auto simp: img r(5)[OF c] add.assoc s'_def)
  finally show ?case .
qed

lemma link_segments:
  assumes "\<And>k. i \<le> k \<Longrightarrow> k < j \<Longrightarrow> integer_at m (segment_at k + 8) = (if Suc k = j then 0 else segment_at (Suc k))"
  shows "LinkSegmentList m (if i < j then segment_at i else 0) = Some (map segment_at [i..<j])"
  using assms
proof (induction "j - i" arbitrary: i)
  case 0
  then show ?case by (subst LinkSegmentList.simps) simp
next
  case (Suc n)
  then have "i < j" by simp
  moreover have "LinkSegmentList m (if Suc i < j then segment_at (Suc i) else 0) = Some (map segment_at [Suc i..<j])"
    using Suc by (intro Suc.hyps(1)) auto
  moreover have "integer_at m (segment_at i + 8) = (if Suc i < j then segment_at (Suc i) else 0)"
    using Suc.prems[of i] \<open>i < j\<close> by auto
  ultimately show ?case
    by (subst LinkSegmentList.simps) (simp add: ReadInteger_def upt_conv_Cons)
qed

section \<open>What a write leaves alone\<close>

lemma seg_data_cong:
  assumes "\<And>y. kMetaSegmentSize \<le> y \<Longrightarrow> y < kSegmentSize - kByteLength \<Longrightarrow> m' (segment_at k + y) = m (segment_at k + y)"
  shows "seg_data hf m' k cs = seg_data hf m k cs"
proof (cases "kMetaSegmentSize + length (seg_body hf cs) + (kMetaLength + kByteLength) \<le> kSegmentSize")
  case True
  then have "img_bytes m' (segment_at k + kMetaSegmentSize) (length (seg_body hf cs)) =
      img_bytes m (segment_at k + kMetaSegmentSize) (length (seg_body hf cs))"
    using assms by (intro img_bytes_cong) (auto simp: add.assoc layout)
  moreover have "m' (segment_at k + y) = m (segment_at k + y)"
    if "kMetaSegmentSize + length (seg_body hf cs) \<le> y \<and> y < kSegmentSize - kByteLength" for y
    using that assms by auto
  ultimately show ?thesis by (auto simp: seg_data_def)
qed (simp add: seg_data_def)

lemma validate_ptr: "GetValidateHashPtr (segment_at k) = segment_at k + (kSegmentSize - kByteLength)"
  by (simp add: GetValidateHashPtr_def layout)

lemma seg_data_seg_write [frame]:
  assumes "x + length bs \<le> kMetaSegmentSize \<or> kSegmentSize - kByteLength \<le> x \<or> j \<noteq> k" and "x + length bs \<le> kSegmentSize"
  shows "seg_data hf (img_write m (segment_at j + x) bs) k cs = seg_data hf m k cs"
  using assms by (intro seg_data_cong) (auto simp: seg_write layout)

lemma seg_data_meta_write [frame]:
  assumes "p + length bs \<le> kMetaLogSize"
  shows "seg_data hf (img_write m p bs) k cs = seg_data hf m k cs"
  using assms by (intro seg_data_cong) (auto simp: meta_write)

lemma integer_at_seg_write [frame]:
  assumes "j \<noteq> k \<or> x + length bs \<le> 8 \<or> kMetaSegmentSize \<le> x" and "x + length bs \<le> kSegmentSize"
  shows "integer_at (img_write m (segment_at j + x) bs) (segment_at k + 8) = integer_at m (segment_at k + 8)"
  using assms by (intro integer_at_cong) (auto simp: seg_write layout add.assoc)

lemma integer_at_meta_write [frame]:
  assumes "p + length bs \<le> kMetaLogSize"
  shows "integer_at (img_write m p bs) (segment_at k + 8) = integer_at m (segment_at k + 8)"
  using assms by (intro integer_at_cong) (auto simp: meta_write add.assoc)

lemma meta_integer_seg_write [frame]:
  assumes "p + 8 \<le> kMetaLogSize"
  shows "integer_at (img_write m (segment_at j + x) bs) p = integer_at m p"
  using assms by (intro integer_at_cong) (auto simp: seg_write_meta)

lemma hash_at_seg_write [frame]:
  assumes "j \<noteq> k \<or> x + length bs \<le> kSegmentSize - kByteLength" and "x + length bs \<le> kSegmentSize"
  shows "hash_at (img_write m (segment_at j + x) bs) (GetValidateHashPtr (segment_at k)) =
         hash_at m (GetValidateHashPtr (segment_at k))"
  using assms by (intro hash_at_cong) (auto simp: seg_write layout add.assoc validate_ptr)

lemma hash_at_meta_write [frame]:
  assumes "p + length bs \<le> kMetaLogSize"
  shows "hash_at (img_write m p bs) (GetValidateHashPtr (segment_at k)) = hash_at m (GetValidateHashPtr (segment_at k))"
  using assms by (intro hash_at_cong) (auto simp: meta_write add.assoc validate_ptr)

section \<open>Reading a chunk\<close>

lemma get_in_body:
  assumes "digest_ok hf" and "\<forall>c \<in> set cs. storable c"
    and "img_bytes m p (length (seg_body hf cs)) = seg_body hf cs"
  shows "map_option (\<lambda>p. img_bytes m p (PtrToChunkLength m p)) (index_of (seg_entries hf p cs) h) = find (\<lambda>c. hf c = h) cs"
  using assms(2-)
proof (induction cs arbitrary: p)
  case (Cons c cs)
  note r = record_read[OF assms(1) _ Cons.prems(2)]
  have c: "storable c" using Cons.prems(1) by simp
  show ?case using Cons.IH[OF _ r(5)[OF c]] Cons.prems(1) r(1,3)[OF c] by (auto simp: index_of_def)
qed simp

lemma index_of_append: "index_of (xs @ ys) h = (case index_of xs h of None \<Rightarrow> index_of ys h | Some p \<Rightarrow> Some p)"
  by (simp add: index_of_def find_append split: option.split)

lemma get_in_log:
  assumes "digest_ok hf" and "\<forall>k. \<forall>c \<in> set (f k). storable c" and "\<forall>k. seg_data hf m k (f k)"
  shows "map_option (\<lambda>p. img_bytes m p (PtrToChunkLength m p)) (index_of (log_entries hf f u) h) =
         find (\<lambda>c. hf c = h) (log_chunks f u)"
proof (induction u)
  case (Suc u)
  have "map_option (\<lambda>p. img_bytes m p (PtrToChunkLength m p)) (index_of (seg_entries hf (segment_at u + kMetaSegmentSize) (f u)) h) =
      find (\<lambda>c. hf c = h) (f u)"
    using assms by (intro get_in_body) (auto simp: seg_data_def)
  then show ?case using Suc by (auto simp: index_of_append find_append split: option.splits)
qed simp

lemma LST_Get_inv:
  assumes "lst_inv hf mx u a f s"
  shows "LST_Get h s = find (\<lambda>c. hf c = h) (log_chunks f u)"
  using assms get_in_log[of hf f "lst_image s" u h]
  by (auto simp: LST_Get_def lst_inv_def log_ghost_def log_image_def)

lemma LST_Exists_Get: "LST_Exists h s \<longleftrightarrow> LST_Get h s \<noteq> None"
  by (simp add: LST_Exists_def LST_Get_def)

section \<open>Appending a chunk\<close>

lemma img_write_append: "img_write (img_write m p xs) (p + length xs) ys = img_write m p (xs @ ys)"
  by (rule ext) (auto simp: img_write_def nth_append)

lemma seg_data_snoc:
  assumes "seg_data hf m k cs" and "digest_ok hf"
    and "kMetaSegmentSize + length (seg_body hf cs) + (length c + kByteLength) + (kMetaLength + kByteLength) \<le> kSegmentSize"
  shows "seg_data hf (img_write m (segment_at k + (kMetaSegmentSize + length (seg_body hf cs))) (c @ hf c)) k (cs @ [c])"
proof -
  define x where "x = kMetaSegmentSize + length (seg_body hf cs)"
  define m' where "m' = img_write m (segment_at k + x) (c @ hf c)"
  have fit: "x + length (c @ hf c) \<le> kSegmentSize" using assms by (simp add: x_def)
  have "img_bytes m' (segment_at k + kMetaSegmentSize) (length (seg_body hf cs)) = seg_body hf cs"
    using assms(1) img_write_other[of "segment_at k + kMetaSegmentSize" "length (seg_body hf cs)" "segment_at k + x" "c @ hf c" m]
    by (simp add: m'_def x_def seg_data_def)
  moreover have "img_bytes m' (segment_at k + kMetaSegmentSize + length (seg_body hf cs)) (length (c @ hf c)) = c @ hf c"
    using img_write_same[of m "segment_at k + x" "c @ hf c"] by (simp add: m'_def x_def add.assoc)
  ultimately have "img_bytes m' (segment_at k + kMetaSegmentSize) (length (seg_body hf cs) + length (c @ hf c)) = seg_body hf cs @ (c @ hf c)"
    by (simp only: img_bytes_append_iff)
  moreover have "m' (segment_at k + y) = 0"
    if "x + length (c @ hf c) \<le> y" "y < kSegmentSize - kByteLength" for y
    using that assms(1) fit by (auto simp: m'_def seg_write seg_data_def x_def)
  ultimately show ?thesis
    using assms(2,3) unfolding seg_data_def m'_def x_def by (simp add: add.assoc)
qed

definition append_chunk :: "(bytes \<Rightarrow> bytes) \<Rightarrow> chunk \<Rightarrow> lst_store \<Rightarrow> lst_store" where
  "append_chunk hf c s =
     (let p = last (lst_major s) + lst_offset s
      in s\<lparr>lst_image := img_write (lst_image s) p (c @ hf c), lst_map := emplace (hf c) p (lst_map s),
           lst_offset := lst_offset s + (kByteLength + length c), lst_info := onNewChunk (c ! 4) (length c) (lst_info s)\<rparr>)"

lemma append_chunk_image:
  assumes "log_image hf (Suc v) a f m" and "digest_ok hf"
    and "kMetaSegmentSize + length (seg_body hf (f v)) + (length c + kByteLength) + (kMetaLength + kByteLength) \<le> kSegmentSize"
  shows "log_image hf (Suc v) a (f(v := f v @ [c])) (img_write m (segment_at v + (kMetaSegmentSize + length (seg_body hf (f v)))) (c @ hf c))"
proof -
  define x where "x = kMetaSegmentSize + length (seg_body hf (f v))"
  have x: "kMetaSegmentSize \<le> x" "x + length (c @ hf c) \<le> kSegmentSize - kByteLength" "x + length (c @ hf c) \<le> kSegmentSize"
    using assms by (auto simp: x_def)
  have "seg_data hf (img_write m (segment_at v + x) (c @ hf c)) k ((f(v := f v @ [c])) k)" for k
    using assms seg_data_snoc[of hf m v "f v" c] x
    by (cases "k = v") (auto simp: log_image_def frame x_def)
  then show ?thesis using assms(1) x unfolding log_image_def x_def[symmetric]
    by (auto simp: frame kMetaLogSize_def)
qed

lemma append_chunk_inv:
  assumes "lst_inv hf mx (Suc v) a f s" and "storable c"
    and "lst_offset s + (length c + kByteLength) + (kMetaLength + kByteLength) \<le> kSegmentSize"
  shows "lst_inv hf mx (Suc v) a (f(v := f v @ [c])) (append_chunk hf c s)"
proof -
  define x where "x = kMetaSegmentSize + length (seg_body hf (f v))"
  define g where "g = f(v := f v @ [c])"
  have off: "lst_offset s = x" and last: "last (lst_major s) = segment_at v" and hf: "digest_ok hf"
    using assms(1) by (auto simp: lst_inv_def x_def log_ghost_def)
  have "log_image hf (Suc v) a g (img_write (lst_image s) (segment_at v + x) (c @ hf c))"
    using assms hf off append_chunk_image[of hf v a f "lst_image s" c] by (simp add: lst_inv_def x_def g_def)
  moreover have "log_entries hf g (Suc v) = log_entries hf f (Suc v) @ [(hf c, segment_at v + x)]"
    using log_entries_cong[of v g f hf] hf by (simp add: g_def seg_entries_append x_def add.assoc)
  moreover have "log_chunks g (Suc v) = log_chunks f (Suc v) @ [c]"
    using log_chunks_cong[of v g f] by (simp add: g_def)
  moreover have "log_ghost hf mx (Suc v) a g"
    using assms(1,2) by (auto simp: lst_inv_def log_ghost_def g_def)
  moreover have "sync_image a b (img_write (lst_image s) (segment_at v + x) (c @ hf c)) = sync_image a b (lst_image s)" for b
    using assms(3) off hf unfolding sync_image_def by (auto simp: frame x_def)
  ultimately show ?thesis
    using assms(1) hf off last
    by (simp add: lst_inv_def append_chunk_def Let_def emplace_index) (simp add: g_def x_def)
qed

section \<open>Enlarging the log\<close>

lemmas frame0 [frame] =
  seg_data_seg_write[of 0, simplified] integer_at_seg_write[of _ _ 0, simplified]
  meta_integer_seg_write[of _ _ _ 0, simplified] hash_at_seg_write[of _ _ 0, simplified]

lemma segment_at_64: "k < 2 ^ 41 \<Longrightarrow> segment_at k < 2 ^ 64"
  by (simp add: segment_at_def layout)

lemma write_file_pair: "write_file (p, bs) F = (max (fst F) (p + length bs), img_write (snd F) p bs)"
  by (simp add: write_file_def)

lemma enlarge_write_eq:
  "enlarge_write a n l i =
   (segment_at (a + i), le_bytes 8 (if i > 0 then segment_at (a + i - 1) else l) @
      le_bytes 8 (if Suc (a + i) = a + n then 0 else segment_at (Suc (a + i)))) " if "i < n"
  using that by (auto simp: enlarge_write_def Let_def add.commute)

lemma enlarge_prefix:
  assumes "j \<le> n" and "a + n < 2 ^ 41" and "M = fold write_file (map (enlarge_write a n l) [0..<j]) (len, m)"
  shows "integer_at (snd M) (segment_at k + 8) =
      (if a \<le> k \<and> k < a + j then (if Suc k = a + n then 0 else segment_at (Suc k)) else integer_at m (segment_at k + 8)) \<and>
    (p + 8 \<le> kMetaLogSize \<longrightarrow> integer_at (snd M) p = integer_at m p) \<and>
    seg_data hf (snd M) k cs = seg_data hf m k cs \<and>
    hash_at (snd M) (GetValidateHashPtr (segment_at k)) = hash_at m (GetValidateHashPtr (segment_at k)) \<and>
    fst M = (if j = 0 then len else max len (segment_at (a + j - 1) + kMetaSegmentSize))"
  using assms(1,3)
proof (induction j arbitrary: M)
  case (Suc j)
  define M0 where "M0 = fold write_file (map (enlarge_write a n l) [0..<j]) (len, m)"
  define nx where "nx = (if Suc (a + j) = a + n then 0 else segment_at (Suc (a + j)))"
  have nx: "nx < 2 ^ 64" using Suc.prems assms(2) segment_at_64[of "Suc (a + j)"] by (auto simp: nx_def)
  define pv where "pv = (if j > 0 then segment_at (a + j - 1) else l)"
  have step: "M = (max (fst M0) (segment_at (a + j) + kMetaSegmentSize),
      img_write (snd M0) (segment_at (a + j)) (le_bytes 8 pv @ le_bytes 8 nx))"
    using Suc.prems by (simp add: enlarge_write_eq M0_def nx_def pv_def write_file_pair kMetaSegmentSize_def)
  have at: "integer_at (snd M) (segment_at (a + j) + 8) = nx"
    using integer_at_write[OF nx, of "le_bytes 8 pv" 8 "snd M0" "segment_at (a + j)" "[]"] step by simp
  have j: "j \<le> n" "j < n" using Suc.prems by auto
  note IH = Suc.IH[OF j(1) M0_def]
  have M1: "snd M = img_write (snd M0) (segment_at (a + j)) (le_bytes 8 pv @ le_bytes 8 nx)"
    and M2: "fst M = max (fst M0) (segment_at (a + j) + kMetaSegmentSize)" by (simp_all add: step)
  have "integer_at (snd M) (segment_at k + 8) =
    (if a \<le> k \<and> k < a + Suc j then (if Suc k = a + n then 0 else segment_at (Suc k)) else integer_at m (segment_at k + 8))"
  proof (cases "k = a + j")
    case True
    then show ?thesis using at by (simp add: nx_def)
  next
    case False
    then have "integer_at (snd M) (segment_at k + 8) = integer_at (snd M0) (segment_at k + 8)"
      unfolding M1 by (simp add: frame layout)
    then show ?thesis using IH False by auto
  qed
  moreover have "fst M = max len (segment_at (a + Suc j - 1) + kMetaSegmentSize)"
    using IH unfolding M2 by (cases j) (auto simp: segment_at_def)
  ultimately show ?case using IH unfolding M1 by (simp add: frame layout)
qed simp

lemma new_segment_count_eq: "a \<le> mx \<Longrightarrow> new_segment_count mx a = min 32 (mx - a)"
  by (auto simp: new_segment_count_def segment_increment_def)

lemma enlarge_image:
  assumes "a + n < 2 ^ 41" and "0 < n" and "M = fold write_file (enlarge_writes a n l) (len, m)"
  shows "sync_image a (a + n) (snd M)" and "fst M = max len (segment_at (a + n))"
    and "u \<le> a \<Longrightarrow> log_image hf u a f m \<Longrightarrow> log_image hf u a f (snd M)"
proof -
  define M0 where "M0 = fold write_file (map (enlarge_write a n l) [0..<n]) (len, m)"
  note pre = enlarge_prefix[OF le_refl assms(1) M0_def]
  have "segment_at (a + n) - 1 = segment_at (a + n - 1) + (kSegmentSize - 1)"
    using assms(2) by (cases n) (auto simp: segment_at_def layout)
  then have M: "M = (max (fst M0) (segment_at (a + n)), img_write (snd M0) (segment_at (a + n - 1) + (kSegmentSize - 1)) [1])"
    unfolding assms(3) enlarge_writes_def by (simp add: M0_def write_file_pair segment_at_def layout)
  show "sync_image a (a + n) (snd M)"
    using pre unfolding sync_image_def M by (auto simp: frame layout)
  show "fst M = max len (segment_at (a + n))"
    using pre assms(2) unfolding M by (cases n) (auto simp: segment_at_def layout max_def)
  assume "u \<le> a" and "log_image hf u a f m"
  then show "log_image hf u a f (snd M)"
    using pre assms(2) unfolding log_image_def M by (auto simp: frame layout)
qed

lemma Enlarge_eq:
  assumes "allocSegments (lst_info s) = a" and "a \<le> mx" and "mx < 2 ^ 41"
  shows "\<exists>len m. Enlarge mx s = Some (s\<lparr>lst_size := len, lst_image := m,
        lst_sync := map segment_at [a..<a + new_segment_count mx a], lst_status := kCompleted\<rparr>) \<and>
      sync_image a (a + new_segment_count mx a) m \<and>
      len = (if new_segment_count mx a = 0 then lst_size s else max (lst_size s) (segment_at (a + new_segment_count mx a))) \<and>
      (\<forall>hf u f. u \<le> a \<longrightarrow> log_image hf u a f (lst_image s) \<longrightarrow> log_image hf u a f m)"
proof (cases "new_segment_count mx a = 0")
  case True
  then show ?thesis using assms(1)
    by (intro exI[of _ "lst_size s"] exI[of _ "lst_image s"]) (simp add: Enlarge_def Let_def sync_image_def)
next
  case False
  define n where "n = new_segment_count mx a"
  have n: "0 < n" "a + n < 2 ^ 41" using False assms by (auto simp: n_def new_segment_count_eq)
  obtain len m where M: "(len, m) = fold write_file (enlarge_writes a n (lst_last_free s)) (lst_size s, lst_image s)"
    by (metis surj_pair)
  note e = enlarge_image[OF n(2,1) M, simplified]
  have "LinkSegmentList m (if a < a + n then segment_at a else 0) = Some (map segment_at [a..<a + n])"
    using e(1) by (intro link_segments) (auto simp: sync_image_def)
  then have "LinkSegmentList m (segment_at a) = Some (map segment_at [a..<a + n])" using n by simp
  then have "Enlarge mx s = Some (s\<lparr>lst_size := len, lst_image := m, lst_sync := map segment_at [a..<a + n], lst_status := kCompleted\<rparr>)"
    using False assms(1) by (simp add: Enlarge_def Let_def n_def[symmetric] M[symmetric])
  moreover have "len = (if n = 0 then lst_size s else max (lst_size s) (segment_at (a + n)))" using e(2) n by simp
  ultimately show ?thesis using e(1,3) unfolding n_def by blast
qed

lemma Enlarge_inv:
  assumes "lst_inv hf mx u a f s"
  obtains s' where "Enlarge mx s = Some s'" and "lst_inv hf mx u a f s'" and "lst_status s' = kCompleted"
proof -
  have g: "allocSegments (lst_info s) = a" "a \<le> mx" "mx < 2 ^ 41" "u \<le> a" "log_image hf u a f (lst_image s)"
    using assms by (auto simp: lst_inv_def log_ghost_def)
  obtain len m where e: "Enlarge mx s = Some (s\<lparr>lst_size := len, lst_image := m,
        lst_sync := map segment_at [a..<a + new_segment_count mx a], lst_status := kCompleted\<rparr>)"
      "sync_image a (a + new_segment_count mx a) m" "len = (if new_segment_count mx a = 0 then lst_size s else max (lst_size s) (segment_at (a + new_segment_count mx a)))"
      "log_image hf u a f m"
    using Enlarge_eq[OF g(1-3)] g(4,5) by blast
  have "\<exists>j. len = segment_at j" using e(3) assms by (auto simp: lst_inv_def max_def)
  then show thesis using that e assms by (simp add: lst_inv_def)
qed

section \<open>Taking over new segments\<close>

lemma integer_at_write_other:
  "q + 8 \<le> p \<or> p + length bs \<le> q \<Longrightarrow> integer_at (img_write m p bs) q = integer_at m q"
  by (simp add: integer_at_def img_write_other)

lemma log_image_extend:
  assumes "log_image hf u a f m" and "sync_image a (a + n) m" and "u \<le> a" and "0 < n"
    and "integer_at m' 0 = segment_at u" and "integer_at m' 8 = integer_at m 8"
    and "\<And>k. integer_at m' (segment_at k + 8) = (if u < a \<and> Suc k = a then segment_at a else integer_at m (segment_at k + 8))"
    and "\<And>k cs. seg_data hf m' k cs = seg_data hf m k cs"
    and "\<And>k. hash_at m' (GetValidateHashPtr (segment_at k)) = hash_at m (GetValidateHashPtr (segment_at k))"
  shows "log_image hf u (a + n) f m'"
proof -
  have "integer_at m' (segment_at k + 8) = (if Suc k = u \<or> Suc k = a + n then 0 else segment_at (Suc k))" if "k < a + n" for k
    using assms(1-4,7) that by (cases "k < a") (auto simp: log_image_def sync_image_def)
  then show ?thesis using assms by (simp add: log_image_def)
qed

lemma UpdateStore_inv:
  assumes "lst_inv hf mx u a f s" and "lst_status s = kCompleted"
  shows "lst_inv hf mx u (a + new_segment_count mx a) f (UpdateStore s)"
    and "lst_status (UpdateStore s) = kUnscheduled"
proof -
  define n where "n = new_segment_count mx a"
  have ghost: "log_ghost hf mx u a f" and img: "log_image hf u a f (lst_image s)"
    and sync: "lst_sync s = map segment_at [a..<a + n]" "sync_image a (a + n) (lst_image s)"
    using assms by (auto simp: lst_inv_def n_def)
  have b: "u \<le> a" "a + n \<le> mx" "mx < 2 ^ 41" using ghost by (auto simp: n_def new_segment_count_eq log_ghost_def)
  have ghost': "log_ghost hf mx u (a + n) f" using ghost b by (auto simp: log_ghost_def)
  have "segment_at a < 2 ^ 64" if "0 < n" using that b segment_at_64[of a] by simp
  note i = integer_at_write[OF this, of "[]" 0 _ _ "[]", simplified]
  have "lst_inv hf mx u (a + n) f (UpdateStore s)"
  proof (cases "n = 0")
    case True
    then show ?thesis using assms sync by (simp add: lst_inv_def UpdateStore_def Let_def)
  next
    case False
    then have hd: "hd (lst_sync s) = segment_at a" and last: "last (lst_sync s) = segment_at (a + n - 1)"
      and ne: "lst_sync s \<noteq> []"
      by (auto simp: sync hd_map last_map)
    have fr: "map segment_at [u..<a] @ map segment_at [a..<a + n] = map segment_at [u..<a + n]"
      using b by (metis map_append upt_add_eq_append)
    show ?thesis
    proof (cases "u = a")
      case True
      have "log_image hf u (a + n) f (img_write (lst_image s) 0 (le_bytes 8 (segment_at a)))"
        using True False i img by (intro log_image_extend[OF img sync(2)])
          (auto simp: frame layout integer_at_write_other)
      then show ?thesis using assms(1) ghost' True False ne hd last sync(1)
        by (simp add: lst_inv_def UpdateStore_def Let_def AppendInteger_def)
    next
      case False
      then have "u < a" using b by simp
      then have lf: "lst_last_free s = segment_at (a - 1)" using assms by (simp add: lst_inv_def)
      have "log_image hf u (a + n) f (img_write (lst_image s) (segment_at (a - 1) + 8) (le_bytes 8 (segment_at a)))"
      proof (rule log_image_extend[OF img sync(2) b(1)])
        fix k
        show "integer_at (img_write (lst_image s) (segment_at (a - 1) + 8) (le_bytes 8 (segment_at a))) (segment_at k + 8) =
            (if u < a \<and> Suc k = a then segment_at a else integer_at (lst_image s) (segment_at k + 8))"
          using i \<open>u < a\<close> \<open>n \<noteq> 0\<close> by (cases "Suc k = a") (auto simp: frame layout)
      qed (use \<open>u < a\<close> \<open>n \<noteq> 0\<close> img in \<open>auto simp: frame layout log_image_def\<close>)
      then show ?thesis using assms(1) ghost' \<open>u < a\<close> \<open>n \<noteq> 0\<close> ne hd last sync(1) lf fr
        by (simp add: lst_inv_def UpdateStore_def Let_def AppendInteger_def)
    qed
  qed
  then show "lst_inv hf mx u (a + new_segment_count mx a) f (UpdateStore s)" by (simp add: n_def)
  show "lst_status (UpdateStore s) = kUnscheduled" by (simp add: UpdateStore_def Let_def)
qed

section \<open>Allocating a segment\<close>

lemma lst_inv_status:
  assumes "lst_inv hf mx u a f s" and "t \<noteq> kCompleted"
  shows "lst_inv hf mx u a f (s\<lparr>lst_status := t\<rparr>)"
  using assms by (simp add: lst_inv_def)

lemma lst_inv_free:
  assumes "lst_inv hf mx u a f s"
  shows "lst_free s = [] \<longleftrightarrow> u = a" and "freeSegments (lst_info s) = a - u" and "u \<le> a" and "a \<le> mx"
  using assms by (auto simp: lst_inv_def log_ghost_def)

lemma lst_inv_count:
  "lst_inv hf mx u a f s \<Longrightarrow> new_segment_count mx a = min 32 (mx - a)"
  by (simp add: lst_inv_free new_segment_count_eq)

text \<open>The second part of \<open>Allocate_status\<close>, when there is no free segment.\<close>

lemma Allocate_wait:
  assumes "lst_inv hf mx u u f s" and "u < mx" and "lst_status s \<noteq> kUnscheduled"
  obtains s' a' where "u < a'" and "lst_inv hf mx u a' f s'" and
    "do { s \<leftarrow> (if lst_status s = kScheduled then Enlarge mx s else Some s);
          let s = (if lst_status s = kCompleted then UpdateStore s else s);
          CHECK (lst_free s \<noteq> []);
          Some s } = Some s'"
proof -
  have taken: "u < u + new_segment_count mx u \<and> lst_inv hf mx u (u + new_segment_count mx u) f (UpdateStore t) \<and>
      lst_free (UpdateStore t) \<noteq> []"
    if "lst_inv hf mx u u f t" "lst_status t = kCompleted" for t
    using UpdateStore_inv(1)[OF that] lst_inv_count[OF that(1)] assms(2) lst_inv_free(1) by fastforce
  show thesis
  proof (cases "lst_status s")
    case kScheduled
    obtain t where t: "Enlarge mx s = Some t" "lst_inv hf mx u u f t" "lst_status t = kCompleted"
      using Enlarge_inv[OF assms(1)] .
    then show thesis using taken[OF t(2,3)] that[of "u + new_segment_count mx u" "UpdateStore t"] kScheduled by auto
  next
    case kCompleted
    then show thesis using taken[OF assms(1)] that[of "u + new_segment_count mx u" "UpdateStore s"] by auto
  qed (use assms in simp)
qed

lemma Allocate_status_inv:
  assumes "lst_inv hf mx u a f s" and "u < mx"
  obtains s' a' where "Allocate_status mx s = Some s'" and "lst_inv hf mx u a' f s'" and "u < a'"
proof -
  define s1 where "s1 = (if freeSegments (lst_info s) < segment_increment then
                     (case lst_status s of kUnscheduled \<Rightarrow> s\<lparr>lst_status := kScheduled\<rparr>
                      | kScheduled \<Rightarrow> s
                      | kCompleted \<Rightarrow> UpdateStore s)
                   else s)"
  note f = lst_inv_free[OF assms(1)]
  have s1: "\<exists>a1 \<ge> a. lst_inv hf mx u a1 f s1 \<and> (a1 = u \<longrightarrow> lst_status s1 \<noteq> kUnscheduled)"
  proof (cases "a - u < 16")
    case True
    show ?thesis
    proof (cases "lst_status s")
      case kUnscheduled
      then show ?thesis using True f lst_inv_status[OF assms(1), of kScheduled] by (auto simp: s1_def segment_increment_def)
    next
      case kScheduled
      then show ?thesis using True f assms(1) by (auto simp: s1_def segment_increment_def)
    next
      case kCompleted
      then have "lst_inv hf mx u (a + new_segment_count mx a) f s1"
        using True f UpdateStore_inv[OF assms(1)] by (simp add: s1_def segment_increment_def)
      moreover have "a + new_segment_count mx a \<noteq> u" using lst_inv_count[OF assms(1)] f assms(2) by auto
      ultimately show ?thesis by (meson le_add1)
    qed
  next
    case False
    then show ?thesis using assms f by (auto simp: s1_def segment_increment_def)
  qed
  then obtain a1 where a1: "lst_inv hf mx u a1 f s1" "a1 = u \<longrightarrow> lst_status s1 \<noteq> kUnscheduled" by blast
  have eq: "Allocate_status mx s = (if lst_free s1 = [] then
            do { s \<leftarrow> (if lst_status s1 = kScheduled then Enlarge mx s1 else Some s1);
                 let s = (if lst_status s = kCompleted then UpdateStore s else s);
                 CHECK (lst_free s \<noteq> []);
                 Some s }
          else Some s1)"
    by (simp only: Allocate_status_def s1_def[symmetric] Let_def)
  show thesis
  proof (cases "lst_free s1 = []")
    case True
    then have "a1 = u" using lst_inv_free(1)[OF a1(1)] by simp
    then have "lst_inv hf mx u u f s1" "lst_status s1 \<noteq> kUnscheduled" using a1 by auto
    from Allocate_wait[OF this(1) assms(2) this(2)] show thesis using that eq True by (metis (no_types, lifting))
  next
    case False
    then show thesis using that[OF _ a1(1)] eq lst_inv_free[OF a1(1)] by simp
  qed
qed

lemma first_record:
  assumes "seg_data hf m k cs" and "cs \<noteq> []" and "digest_ok hf" and "\<forall>c \<in> set cs. storable c"
  shows "hash_at m (GetFirstChunkPtr (segment_at k) + PtrToChunkLength m (GetFirstChunkPtr (segment_at k))) = hf (hd cs)"
proof -
  obtain c ds where cs: "cs = c # ds" using assms(2) by (cases cs) auto
  then have "img_bytes m (segment_at k + kMetaSegmentSize) (length (seg_body hf (c # ds))) = seg_body hf (c # ds)"
    using assms(1) by (simp add: seg_data_def)
  note r = record_read[OF assms(3) _ this]
  show ?thesis using r(2,3) assms(4) cs by (simp add: GetFirstChunkPtr_def)
qed

lemma hash_at_validate:
  "length bs = kByteLength \<Longrightarrow>
   hash_at (img_write m (segment_at k + (kSegmentSize - kByteLength)) bs) (GetValidateHashPtr (segment_at k)) = bs"
  using img_write_same[of m "segment_at k + (kSegmentSize - kByteLength)" bs] by (simp add: hash_at_def validate_ptr)

text \<open>\<open>Allocate_link\<close> and the update of the head of the log make the first free segment the last one in use.\<close>

lemma allocate_image:
  assumes "log_image hf u a f m" and ghost: "log_ghost hf mx u a f" and "u < a" and "0 < u \<longrightarrow> f (u - 1) \<noteq> []"
  defines "m' \<equiv> AppendInteger (Allocate_link (if u = 0 then 0 else segment_at (u - 1)) (segment_at u) m) 0
     [if Suc u < a then segment_at (Suc u) else 0, segment_at 0, segment_at u]"
  shows "log_image hf (Suc u) a f m'" and "sync_image a b m' = sync_image a b m"
proof -
  have g: "digest_ok hf" "a \<le> mx" "mx < 2 ^ 41" "\<forall>k. \<forall>c \<in> set (f k). storable c" using ghost by (auto simp: log_ghost_def)
  define m1 where "m1 = (if u = 0 then m else img_write (img_write m (segment_at (u - 1) + (kSegmentSize - kByteLength)) (hf (hd (f (u - 1)))))
      (segment_at (u - 1) + 8) (le_bytes 8 (segment_at u)))"
  define m2 where "m2 = img_write m1 (segment_at u) (le_bytes 8 (if u = 0 then 0 else segment_at (u - 1)) @ le_bytes 8 0)"
  have "hash_at m (GetFirstChunkPtr (segment_at (u - 1)) + PtrToChunkLength m (GetFirstChunkPtr (segment_at (u - 1)))) = hf (hd (f (u - 1)))"
    if "u \<noteq> 0" using that assms(1,4) g by (intro first_record) (auto simp: log_image_def)
  then have link: "Allocate_link (if u = 0 then 0 else segment_at (u - 1)) (segment_at u) m = m2"
    by (cases "u = 0") (simp_all add: Allocate_link_def m2_def m1_def AppendInteger_def Let_def validate_ptr)
  have m': "m' = img_write m2 0 (le_bytes 8 (if Suc u < a then segment_at (Suc u) else 0) @ le_bytes 8 (segment_at 0) @ le_bytes 8 (segment_at u))"
    by (simp add: m'_def link AppendInteger_def)
  have small: "(if Suc u < a then segment_at (Suc u) else 0) < 2 ^ 64" "segment_at 0 < 2 ^ 64" "segment_at u < 2 ^ 64"
    using g assms(3) segment_at_64[of "Suc u"] segment_at_64[of 0] segment_at_64[of u] by auto
  have heads: "integer_at m' 0 = (if Suc u < a then segment_at (Suc u) else 0)" "integer_at m' 8 = segment_at 0"
    unfolding m' using integer_at_write[OF small(1), of "[]" 0] integer_at_write[OF small(2), of "le_bytes 8 x" 8 _ 0 for x]
    by simp_all
  have next2: "integer_at m2 (segment_at k + 8) = (if k = u then 0 else if Suc k = u then segment_at u else integer_at m (segment_at k + 8))" for k
    using integer_at_write[OF small(3), of "[]" 0 _ "segment_at (u - 1) + 8" "[]"]
      integer_at_write[of 0 "le_bytes 8 (if u = 0 then 0 else segment_at (u - 1))" 8 m1 "segment_at u" "[]"]
    by (cases "k = u"; cases "Suc k = u") (auto simp: m2_def m1_def frame layout digest_okD[OF g(1)])
  then have next': "integer_at m' (segment_at k + 8) = (if k = u then 0 else if Suc k = u then segment_at u else integer_at m (segment_at k + 8))" for k
    unfolding m' by (simp add: frame layout)
  have data: "seg_data hf m' k cs = seg_data hf m k cs" for k cs
    using g by (simp add: m' m2_def m1_def frame layout)
  have val: "hash_at m' (GetValidateHashPtr (segment_at k)) = (if Suc k = u then hf (hd (f k)) else hash_at m (GetValidateHashPtr (segment_at k)))" for k
    using hash_at_validate[OF digest_okD[OF g(1), of "hd (f (u - 1))"], of m "u - 1"]
    by (cases "Suc k = u") (auto simp: m' m2_def m1_def frame layout digest_okD[OF g(1)])
  show "log_image hf (Suc u) a f m'"
    using assms(1,3) by (auto simp: log_image_def heads next' data val less_Suc_eq)
  show "sync_image a b m' = sync_image a b m"
    using assms(3) by (auto simp: sync_image_def next')
qed

lemma AllocateMajor_inv:
  assumes "lst_inv hf mx u a f s" and "u < mx" and "0 < u \<longrightarrow> f (u - 1) \<noteq> []"
  obtains s' a' where "AllocateMajor mx s = Some s'" and "lst_inv hf mx (Suc u) a' f s'"
    and "lst_offset s' = kMetaSegmentSize"
proof -
  obtain t a' where t: "Allocate_status mx s = Some t" "lst_inv hf mx u a' f t" "u < a'"
    using Allocate_status_inv[OF assms(1,2)] .
  have major: "lst_major t = map segment_at [0..<u]" and free: "lst_free t = map segment_at [u..<a']"
    and img: "log_image hf u a' f (lst_image t)" and ghost: "log_ghost hf mx u a' f"
    using t(2) by (auto simp: lst_inv_def)
  have info: "usedSegments (lst_info t) = u" "freeSegments (lst_info t) = a' - u"
    using t(2) by (auto simp: lst_inv_def)
  have prev: "last_or_null (lst_major s) = last_or_null (map segment_at [0..<u])"
    using assms(1) by (simp add: lst_inv_def)
  have free': "lst_free t = segment_at u # map segment_at [Suc u..<a']"
    using t(3) free by (simp add: upt_conv_Cons)
  define m' where "m' = AppendInteger (Allocate_link (if u = 0 then 0 else segment_at (u - 1)) (segment_at u) (lst_image t)) 0
     [if Suc u < a' then segment_at (Suc u) else 0, segment_at 0, segment_at u]"
  note al = allocate_image[OF img ghost t(3) assms(3), folded m'_def]
  define s' where "s' = t\<lparr>lst_image := m', lst_free := map segment_at [Suc u..<a'], lst_major := map segment_at [0..<Suc u],
    lst_offset := kMetaSegmentSize, lst_info := (lst_info t)\<lparr>usedSegments := Suc u, freeSegments := a' - Suc u\<rparr>\<rparr>"
  have "last_or_null (map segment_at [0..<u]) = (if u = 0 then 0 else segment_at (u - 1))"
    by (simp add: last_or_null_def last_map)
  moreover have "head_or_null (map segment_at [Suc u..<a']) = (if Suc u < a' then segment_at (Suc u) else 0)"
    by (simp add: head_or_null_def upt_conv_Cons)
  moreover have "hd (map segment_at [0..<u] @ [segment_at u]) = segment_at 0"
    by (cases u) (auto simp: hd_append upt_conv_Cons simp del: upt_Suc)
  ultimately have "AllocateMajor mx s = Some s'"
    using prev free' major info t(3)
    by (simp add: AllocateMajor_def Allocate_def t(1) s'_def m'_def Let_def del: upt_Suc) simp
  moreover have "log_ghost hf mx (Suc u) a' f"
    using ghost t(3) assms(3) by (auto simp: log_ghost_def less_Suc_eq)
  moreover have "f u = []" using ghost by (simp add: log_ghost_def)
  ultimately show thesis
    using that[of s' a'] t(2,3) al by (simp add: s'_def lst_inv_def)
qed

lemma Allocate_status_full:
  assumes "lst_inv hf mx mx a f s"
  shows "Allocate_status mx s = None"
proof -
  have a: "a = mx" using lst_inv_free[OF assms] by simp
  have upd: "lst_inv hf mx mx mx f (UpdateStore t)" if "lst_inv hf mx mx mx f t" "lst_status t = kCompleted" for t
    using UpdateStore_inv(1)[OF that] lst_inv_count[OF that(1)] by simp
  have empty: "lst_free t = []" if "lst_inv hf mx mx mx f t" for t using lst_inv_free(1)[OF that] by simp
  obtain t where t: "Enlarge mx s = Some t" "lst_inv hf mx mx mx f t" "lst_status t = kCompleted"
    using Enlarge_inv[OF assms] a by blast
  obtain t' where t': "Enlarge mx (s\<lparr>lst_status := kScheduled\<rparr>) = Some t'" "lst_inv hf mx mx mx f t'" "lst_status t' = kCompleted"
    using Enlarge_inv[OF lst_inv_status[OF assms, of kScheduled]] a by blast
  have s: "lst_inv hf mx mx mx f s" "freeSegments (lst_info s) = 0" using assms a lst_inv_free(2)[OF assms] by auto
  show ?thesis
    using s t t' upd empty UpdateStore_inv(2)[OF s(1)]
    by (cases "lst_status s") (auto simp: Allocate_status_def segment_increment_def)
qed

section \<open>Put\<close>

text \<open>The store holds the chunks \<open>cs\<close>, in the order in which they were put.\<close>

definition holds_log :: "(bytes \<Rightarrow> bytes) \<Rightarrow> nat \<Rightarrow> lst_store \<Rightarrow> chunk list \<Rightarrow> bool" where
  "holds_log hf mx s cs \<longleftrightarrow>
     (\<exists>u a f. lst_inv hf mx u a f s \<and> (0 < u \<longrightarrow> f (u - 1) \<noteq> []) \<and> cs = log_chunks f u)"

lemma storable_read:
  assumes "storable c"
  shows "chunk_numBytes c = Some (length c)" and "rd_bytes (length c) c 0 = Some c" and "chunk_type c = Some (c ! 4)"
  using assms by (auto simp: storable_def chunk_numBytes_def rd_def rd_bytes_def chunk_type_def kMetaLength_def nth_opt_def)

definition has_room :: "chunk \<Rightarrow> lst_store \<Rightarrow> bool" where
  "has_room c s \<longleftrightarrow> lst_major s \<noteq> [] \<and> kByteLength + length c \<le> GetFreeSpaceMajor s"

lemma LST_Put_eq:
  assumes "storable c" and "digest_ok hf"
  shows "LST_Put mx (hf c) c s =
    (if LST_Exists (hf c) s then Some s
     else do { s \<leftarrow> (if has_room c s then Some s else AllocateMajor mx s); Some (append_chunk hf c s) })"
proof -
  have w: "img_write (img_write m p c) (p + length c) (hf c) = img_write m p (c @ hf c)" for m p
    by (rule img_write_append)
  have h: "hash_at (img_write m p (c @ hf c)) (p + length c) = hf c" for m p
    using img_write_same[of m p "c @ hf c"] assms(2) by (simp add: hash_at_def img_bytes_add append_eq_append_conv)
  show ?thesis
    by (auto simp: LST_Put_def storable_read[OF assms(1)] has_room_def not_le w h append_chunk_def Let_def)
qed

lemma inv_offset:
  assumes "lst_inv hf mx u a f s" and "0 < u"
  shows "lst_offset s + (kMetaLength + kByteLength) \<le> kSegmentSize"
    and "GetFreeSpaceMajor s = kSegmentSize - lst_offset s - kByteLength - kMetaLength"
proof -
  show 1: "lst_offset s + (kMetaLength + kByteLength) \<le> kSegmentSize"
    using assms by (auto simp: lst_inv_def log_image_def seg_data_def)
  then show "GetFreeSpaceMajor s = kSegmentSize - lst_offset s - kByteLength - kMetaLength"
    by (simp add: GetFreeSpaceMajor_def)
qed

lemma append_chunk_log:
  assumes "lst_inv hf mx (Suc v) a f s" and "storable c"
    and "lst_offset s + (length c + kByteLength) + (kMetaLength + kByteLength) \<le> kSegmentSize"
  shows "holds_log hf mx (append_chunk hf c s) (log_chunks f (Suc v) @ [c])"
  unfolding holds_log_def
  using append_chunk_inv[OF assms] log_chunks_cong[of v f "f(v := f v @ [c])"]
  by (intro exI[of _ "Suc v"] exI[of _ a] exI[of _ "f(v := f v @ [c])"]) auto

lemma LST_Put_log:
  assumes "holds_log hf mx s cs" and "storable c" and "\<not> LST_Exists (hf c) s"
    and "usedSegments (lst_info s) < mx \<or> has_room c s"
  obtains s' where "LST_Put mx (hf c) c s = Some s'" and "holds_log hf mx s' (cs @ [c])"
proof -
  obtain u a f where inv: "lst_inv hf mx u a f s" and tail: "0 < u \<longrightarrow> f (u - 1) \<noteq> []" and cs: "cs = log_chunks f u"
    using assms(1) by (auto simp: holds_log_def)
  have hf: "digest_ok hf" and used: "usedSegments (lst_info s) = u" and major: "lst_major s = map segment_at [0..<u]"
    using inv by (auto simp: lst_inv_def log_ghost_def)
  note eq = LST_Put_eq[OF assms(2) hf, of mx s]
  show thesis
  proof (cases "has_room c s")
    case True
    then obtain v where u: "u = Suc v" using major by (cases u) (auto simp: has_room_def)
    then have "lst_offset s + (length c + kByteLength) + (kMetaLength + kByteLength) \<le> kSegmentSize"
      using True inv_offset[OF inv] by (auto simp: has_room_def layout)
    from append_chunk_log[OF inv[unfolded u] assms(2) this] show thesis
      using that eq assms(3) True cs u by simp
  next
    case False
    then have "u < mx" using assms(4) used by simp
    obtain t a' where t: "AllocateMajor mx s = Some t" "lst_inv hf mx (Suc u) a' f t" "lst_offset t = kMetaSegmentSize"
      using AllocateMajor_inv[OF inv \<open>u < mx\<close> tail] .
    have "lst_offset t + (length c + kByteLength) + (kMetaLength + kByteLength) \<le> kSegmentSize"
      using assms(2) t(3) by (simp add: storable_def)
    from append_chunk_log[OF t(2) assms(2) this] show thesis
      using that eq assms(3) False cs t(1) inv by (simp add: lst_inv_def log_ghost_def)
  qed
qed

lemma LST_Put_full:
  assumes "holds_log hf mx s cs" and "storable c" and "\<not> LST_Exists (hf c) s"
    and "usedSegments (lst_info s) = mx" and "\<not> has_room c s"
  shows "LST_Put mx (hf c) c s = None"
proof -
  obtain u a f where inv: "lst_inv hf mx u a f s" using assms(1) by (auto simp: holds_log_def)
  then have hf: "digest_ok hf" and u: "u = mx" using assms(4) by (auto simp: lst_inv_def log_ghost_def)
  show ?thesis
    using Allocate_status_full[of hf mx a f s] inv u assms(3,5)
    by (simp add: LST_Put_eq[OF assms(2) hf] AllocateMajor_def Allocate_def)
qed

section \<open>Opening the log\<close>

lemma load_valid_segment:
  assumes "seg_data hf (lst_image s) k cs" and "digest_ok hf" and "\<forall>c \<in> set cs. storable c" and "cs \<noteq> []"
    and "hash_at (lst_image s) (GetValidateHashPtr (segment_at k)) = hf (hd cs)"
  shows "LoadFromValidSegment (segment_at k) s =
    Some (s\<lparr>lst_map := fold (\<lambda>(h, p). emplace h p) (seg_entries hf (segment_at k + kMetaSegmentSize) cs) (lst_map s),
            lst_info := log_info cs (lst_info s)\<rparr>)"
proof -
  define x where "x = kMetaSegmentSize + length (seg_body hf cs)"
  have "lst_image s (segment_at k + (x + 4)) = 0"
    using assms(1) by (auto simp: seg_data_def x_def layout)
  then have "PtrToChunkType (lst_image s) (segment_at k + kMetaSegmentSize + length (seg_body hf cs)) = 0"
    by (simp add: PtrToChunkType_def x_def add.assoc)
  from load_valid_loop_body[OF assms(2,3) _ this] first_record[OF assms(1,4,2,3)] show ?thesis
    using assms by (simp add: LoadFromValidSegment_def seg_data_def GetFirstChunkPtr_def)
qed

lemma load_last_segment:
  assumes "seg_data hf (lst_image s) k cs" and "digest_ok hf" and "\<forall>c \<in> set cs. storable c"
    and "integer_at (lst_image s) (segment_at k + 8) = 0"
  shows "LoadFromLastSegment hf (segment_at k) s =
    Some (kMetaSegmentSize + length (seg_body hf cs),
      s\<lparr>lst_map := fold (\<lambda>(h, p). emplace h p) (seg_entries hf (segment_at k + kMetaSegmentSize) cs) (lst_map s),
        lst_info := log_info cs (lst_info s)\<rparr>)"
proof -
  define x where "x = kMetaSegmentSize + length (seg_body hf cs)"
  have "lst_image s (segment_at k + (x + i)) = 0" if "i < kMetaLength" for i
    using assms(1) that by (auto simp: seg_data_def x_def layout)
  then have "\<And>i. i < kMetaLength \<Longrightarrow> lst_image s (segment_at k + kMetaSegmentSize + length (seg_body hf cs) + i) = 0"
    by (simp add: x_def add.assoc)
  with load_last_loop_body[of hf cs s "segment_at k + kMetaSegmentSize"] show ?thesis
    using assms by (simp add: LoadFromLastSegment_def seg_data_def GetFirstChunkPtr_def ReadInteger_def)
qed

lemma load_segments_log:
  assumes "log_ghost hf mx u a f" and "log_image hf u a f (lst_image s)" and "i \<le> u"
    and "lst_map s = index_of (log_entries hf f i)"
  shows "load_segments hf (map segment_at [i..<u]) s =
    Some (s\<lparr>lst_map := index_of (log_entries hf f u), lst_info := log_info (concat (map f [i..<u])) (lst_info s),
            lst_offset := (if i < u then kMetaSegmentSize + length (seg_body hf (f (u - 1))) else lst_offset s)\<rparr>)"
  using assms(2-)
proof (induction "u - i" arbitrary: i s)
  case 0
  then show ?case by simp
next
  case (Suc n)
  have g: "digest_ok hf" "\<forall>c \<in> set (f i). storable c" "u \<le> a" using assms(1) by (auto simp: log_ghost_def)
  have i: "i < u" using Suc.hyps(2) by simp
  have data: "seg_data hf (lst_image s) i (f i)" using Suc.prems(1) by (simp add: log_image_def)
  define t where "t = s\<lparr>lst_map := index_of (log_entries hf f (Suc i)), lst_info := log_info (f i) (lst_info s)\<rparr>"
  have t: "s\<lparr>lst_map := fold (\<lambda>(h, p). emplace h p) (seg_entries hf (segment_at i + kMetaSegmentSize) (f i)) (lst_map s),
      lst_info := log_info (f i) (lst_info s)\<rparr> = t"
    by (simp add: t_def Suc.prems(3) fold_emplace_index)
  have upt: "[i..<u] = i # [Suc i..<u]" using i by (simp add: upt_conv_Cons)
  show ?case
  proof (cases "Suc i = u")
    case True
    then have "integer_at (lst_image s) (segment_at i + 8) = 0"
      using Suc.prems(1) g(3) by (auto simp: log_image_def)
    from load_last_segment[OF data g(1,2) this, unfolded t] show ?thesis
      using True by (auto simp: upt t_def)
  next
    case False
    then have "f i \<noteq> []" "hash_at (lst_image s) (GetValidateHashPtr (segment_at i)) = hf (hd (f i))"
      using assms(1) Suc.prems(1) i by (auto simp: log_ghost_def log_image_def)
    note v = load_valid_segment[OF data g(1,2) this, unfolded t]
    have "load_segments hf (map segment_at [Suc i..<u]) t =
      Some (t\<lparr>lst_map := index_of (log_entries hf f u), lst_info := log_info (concat (map f [Suc i..<u])) (lst_info t),
              lst_offset := (if Suc i < u then kMetaSegmentSize + length (seg_body hf (f (u - 1))) else lst_offset t)\<rparr>)"
      using Suc i by (intro Suc.hyps(1)) (auto simp: t_def)
    moreover have "[Suc i..<u] = Suc i # [Suc (Suc i)..<u]" using False i by (simp add: upt_conv_Cons)
    ultimately show ?thesis using v False i by (simp add: upt t_def)
  qed
qed

definition opened :: "nat \<Rightarrow> nat \<Rightarrow> image \<Rightarrow> lst_store" where
  "opened mx len m = \<lparr>lst_size = len, lst_image = m, lst_map = Map.empty, lst_free = [], lst_major = [], lst_last_free = 0,
     lst_offset = 0, lst_info = initStoreInfo mx, lst_sync = [], lst_status = kUnscheduled\<rparr>"

lemma opened_simps [simp]:
  "lst_size (opened mx len m) = len" "lst_image (opened mx len m) = m" "lst_map (opened mx len m) = Map.empty"
  "lst_info (opened mx len m) = initStoreInfo mx" "lst_status (opened mx len m) = kUnscheduled"
  by (simp_all add: opened_def)

lemma initStoreInfo_segments [simp]:
  "allocSegments (initStoreInfo mx) = 0" "usedSegments (initStoreInfo mx) = 0" "freeSegments (initStoreInfo mx) = 0"
  by (simp_all add: initStoreInfo_def)

lemma LST_Load_log:
  assumes "log_ghost hf mx u a f" and "log_image hf u a f m" and "len = segment_at j"
  obtains s where "LST_Load hf (opened mx len m) = Some s" and "lst_inv hf mx u a f s" and "lst_status s = kUnscheduled"
proof -
  have b: "u \<le> a" using assms(1) by (simp add: log_ghost_def)
  have "LinkSegmentList m (if u < a then segment_at u else 0) = Some (map segment_at [u..<a])"
    using assms(2) by (intro link_segments) (auto simp: log_image_def)
  then have free: "LinkSegmentList m (integer_at m 0) = Some (map segment_at [u..<a])"
    using assms(2) by (simp add: log_image_def)
  have "LinkSegmentList m (if 0 < u then segment_at 0 else 0) = Some (map segment_at [0..<u])"
    using assms(2) b by (intro link_segments) (auto simp: log_image_def)
  then have major: "LinkSegmentList m (integer_at m 8) = Some (map segment_at [0..<u])"
    using assms(2) by (simp add: log_image_def)
  define s0 where "s0 = (opened mx len m)\<lparr>lst_free := map segment_at [u..<a], lst_major := map segment_at [0..<u],
     lst_last_free := last_or_null (map segment_at [u..<a]), lst_info := (initStoreInfo mx)\<lparr>allocSegments := a\<rparr>\<rparr>"
  have load: "load_segments hf (map segment_at [0..<u]) s0 = Some (s0\<lparr>lst_map := index_of (log_entries hf f u),
      lst_info := log_info (concat (map f [0..<u])) (lst_info s0),
      lst_offset := (if 0 < u then kMetaSegmentSize + length (seg_body hf (f (u - 1))) else lst_offset s0)\<rparr>)"
    using assms by (intro load_segments_log) (auto simp: s0_def)
  have ld: "LST_Load hf (opened mx len m) = do { s \<leftarrow> load_segments hf (map segment_at [0..<u]) s0;
      Some (s\<lparr>lst_info := (lst_info s)\<lparr>usedSegments := u, freeSegments := sub64 (allocSegments (lst_info s)) u\<rparr>\<rparr>) }"
    using b by (simp add: LST_Load_def ReadInteger_def free major s0_def)
  have "last_or_null (map segment_at [u..<a]) = segment_at (a - 1)" if "u < a"
    using that by (simp add: last_or_null_def last_map)
  then show thesis
    using that assms b unfolding ld load by (simp add: lst_inv_def s0_def log_chunks_def)
qed

lemma MmapUstoreLogFile_log:
  assumes "log_ghost hf mx u a f" and "log_image hf u a f m" and "open_log persist file = (segment_at j, m)"
  obtains s a' where "MmapUstoreLogFile hf mx persist file = Some s" and "lst_inv hf mx u a' f s"
proof -
  obtain s where s: "LST_Load hf (opened mx (segment_at j) m) = Some s" "lst_inv hf mx u a f s"
    using LST_Load_log[OF assms(1,2) refl] by metis
  obtain t where t: "Enlarge mx (s\<lparr>lst_status := kScheduled\<rparr>) = Some t" "lst_inv hf mx u a f t" "lst_status t = kCompleted"
    using Enlarge_inv[OF lst_inv_status[OF s(2), of kScheduled]] by blast
  have eq: "MmapUstoreLogFile hf mx persist file =
      (if freeSegments (lst_info s) < segment_increment then Some (UpdateStore t) else Some s)"
    using s t by (simp add: MmapUstoreLogFile_def assms(3) opened_def[symmetric])
  show thesis using that eq s(2) UpdateStore_inv(1)[OF t(2,3)] by (cases "freeSegments (lst_info s) < segment_increment") auto
qed

lemma sub_segment_at [simp]: "sub64 (segment_at j) kMetaLogSize mod kSegmentSize = 0"
  by (simp add: segment_at_def)

lemma holds_log_reopen:
  assumes "holds_log hf mx s cs"
  obtains s' where "MmapUstoreLogFile hf mx True (Some (lst_size s, lst_image s)) = Some s'" and "holds_log hf mx s' cs"
proof -
  obtain u a f where inv: "lst_inv hf mx u a f s" and tail: "0 < u \<longrightarrow> f (u - 1) \<noteq> []" and cs: "cs = log_chunks f u"
    using assms by (auto simp: holds_log_def)
  obtain j where "lst_size s = segment_at j" using inv by (auto simp: lst_inv_def)
  then have "open_log True (Some (lst_size s, lst_image s)) = (segment_at j, lst_image s)"
    by (simp only: open_log_def if_True option.case prod.case sub_segment_at refl)
  from MmapUstoreLogFile_log[OF _ _ this, of hf mx u a f] inv obtain s' a' where
    "MmapUstoreLogFile hf mx True (Some (lst_size s, lst_image s)) = Some s'" "lst_inv hf mx u a' f s'"
    by (auto simp: lst_inv_def)
  then show thesis using that tail cs by (auto simp: holds_log_def)
qed

lemma meta_log_blank: "length meta_log = kMetaLogSize" "i < 16 \<Longrightarrow> meta_log ! i = 0"
  by (simp_all add: meta_log_def layout nth_append)

lemma blank_meta:
  "integer_at (img_write m 0 meta_log) 0 = 0" "integer_at (img_write m 0 meta_log) 8 = 0"
proof -
  have "img_bytes (img_write m 0 meta_log) p 8 = le_bytes 8 0" if "p \<le> 8" for p
    using that by (intro img_bytes_eqI) (auto simp: img_write_def meta_log_blank le_bytes_0 layout)
  then show "integer_at (img_write m 0 meta_log) 0 = 0" "integer_at (img_write m 0 meta_log) 8 = 0"
    by (simp_all add: integer_at_def le_val_le_bytes)
qed

lemma holds_log_fresh:
  assumes "digest_ok hf" and "mx < 2 ^ 41"
  obtains s where "MmapUstoreLogFile hf mx False file = Some s" and "holds_log hf mx s []"
proof -
  define m where "m = img_write (\<lambda>_. 0) 0 meta_log"
  have "seg_data hf m k []" for k
    by (simp add: m_def frame meta_log_blank) (simp add: seg_data_def layout img_bytes_def)
  then have "log_image hf 0 0 (\<lambda>_. []) m"
    by (simp add: log_image_def m_def blank_meta)
  moreover have "open_log False file = (segment_at 0, m)"
    by (simp add: open_log_def write_file_pair m_def meta_log_blank segment_at_def)
  moreover have "log_ghost hf mx 0 0 (\<lambda>_. [])" using assms by (simp add: log_ghost_def)
  ultimately obtain s a where "MmapUstoreLogFile hf mx False file = Some s" "lst_inv hf mx 0 a (\<lambda>_. []) s"
    by (metis MmapUstoreLogFile_log)
  moreover from this have "holds_log hf mx s []"
    unfolding holds_log_def by (intro exI[of _ 0] exI[of _ a] exI[of _ "\<lambda>_. []"]) simp
  ultimately show thesis using that by blast
qed

lemma holds_log_enlarge:
  assumes "holds_log hf mx s cs"
  obtains s' where "Enlarge mx s = Some s'" and "holds_log hf mx s' cs"
proof -
  obtain u a f where inv: "lst_inv hf mx u a f s" "0 < u \<longrightarrow> f (u - 1) \<noteq> []" "cs = log_chunks f u"
    using assms by (auto simp: holds_log_def)
  obtain s' where "Enlarge mx s = Some s'" "lst_inv hf mx u a f s'" using Enlarge_inv[OF inv(1)] .
  then show thesis using that inv(2,3) unfolding holds_log_def by blast
qed

section \<open>Iterating\<close>

lemma index_of_mem: "h \<in> fst ` set es \<Longrightarrow> index_of es h \<noteq> None"
  by (induction es) (auto simp: index_of_def)

lemma seg_entries_hashes: "fst ` set (seg_entries hf p cs) = hf ` set cs"
  by (induction cs arbitrary: p) auto

lemma log_entries_hashes: "fst ` set (log_entries hf f u) = hf ` set (log_chunks f u)"
  by (induction u) (auto simp: image_Un seg_entries_hashes)

text \<open>An iterator that stands before the chunks \<open>ds\<close> of segment \<open>k\<close>, up to the end of what is in the segment.\<close>

definition stands :: "(bytes \<Rightarrow> bytes) \<Rightarrow> (nat \<Rightarrow> chunk list) \<Rightarrow> nat \<Rightarrow> nat \<Rightarrow> chunk list \<Rightarrow> lst_iterator \<Rightarrow> bool" where
  "stands hf f u k ds it \<longleftrightarrow> k < u \<and> li_segments it = map segment_at [k..<u] \<and>
     (\<exists>cs. f k = cs @ ds \<and> li_ptr it = segment_at k + (kMetaSegmentSize + length (seg_body hf cs)))"

lemma stands_body:
  assumes "stands hf f u k ds it" and "seg_data hf m k (f k)"
  shows "img_bytes m (li_ptr it) (length (seg_body hf ds)) = seg_body hf ds"
    and "PtrToChunkType m (li_ptr it + length (seg_body hf ds)) = 0"
proof -
  obtain cs where cs: "f k = cs @ ds" "li_ptr it = segment_at k + (kMetaSegmentSize + length (seg_body hf cs))"
    using assms(1) by (auto simp: stands_def)
  define x where "x = kMetaSegmentSize + length (seg_body hf (f k))"
  show "img_bytes m (li_ptr it) (length (seg_body hf ds)) = seg_body hf ds"
    using assms(2) cs by (simp add: seg_data_def img_bytes_add add.assoc)
  have "m (segment_at k + (x + 4)) = 0"
    using assms(2) by (auto simp: seg_data_def x_def layout)
  then show "PtrToChunkType m (li_ptr it + length (seg_body hf ds)) = 0"
    using cs by (simp add: PtrToChunkType_def x_def add.assoc)
qed

lemma stands_next:
  assumes "stands hf f u k (c # ds) it" and "digest_ok hf"
  shows "stands hf f u k ds (it\<lparr>li_ptr := li_ptr it + kByteLength + length c\<rparr>)"
proof -
  obtain cs where cs: "f k = cs @ c # ds" "li_ptr it = segment_at k + (kMetaSegmentSize + length (seg_body hf cs))"
    using assms(1) by (auto simp: stands_def)
  then show ?thesis using assms
    by (auto simp: stands_def intro!: exI[of _ "cs @ [c]"])
qed

lemma stands_first: "k < u \<Longrightarrow> stands hf f u k (f k) \<lparr>li_segments = map segment_at [k..<u], li_ptr = GetFirstChunkPtr (segment_at k)\<rparr>"
  by (auto simp: stands_def GetFirstChunkPtr_def)

lemma stands_read:
  assumes it: "stands hf f u k (c # ds) it" and "digest_ok hf" and "\<forall>k. seg_data hf m k (f k)"
    and st: "\<forall>k. \<forall>c \<in> set (f k). storable c"
  shows "li_chunk m it = c" and "\<not> IsEndChunk (PtrToChunkType m (li_ptr it))" and "li_ptr it \<noteq> 0"
    and "GetPtrToNextChunk m (li_ptr it) = li_ptr it + kByteLength + length c"
    and "hash_at m (li_ptr it + PtrToChunkLength m (li_ptr it)) \<in> hf ` set (log_chunks f u)"
proof -
  obtain cs where k: "k < u" "f k = cs @ c # ds" and ptr: "li_ptr it \<noteq> 0" using it by (auto simp: stands_def)
  then have c: "storable c" using st[rule_format, of c k] by simp
  note r = record_read[OF assms(2) c stands_body(1)[OF it assms(3)[rule_format]]]
  show "li_chunk m it = c" "\<not> IsEndChunk (PtrToChunkType m (li_ptr it))" "li_ptr it \<noteq> 0"
    "GetPtrToNextChunk m (li_ptr it) = li_ptr it + kByteLength + length c"
    using r ptr storable_type[OF c] by (simp_all add: li_chunk_def GetPtrToNextChunk_def)
  have "c \<in> set (log_chunks f u)" using k by (auto simp: log_chunks_def intro!: bexI[of _ k])
  then show "hash_at m (li_ptr it + PtrToChunkLength m (li_ptr it)) \<in> hf ` set (log_chunks f u)"
    using r by simp
qed

lemma next_stands:
  assumes it: "stands hf f u k (c # ds) it" and ok: "digest_ok hf" "\<forall>k. seg_data hf m k (f k)" "\<forall>k. \<forall>c \<in> set (f k). storable c"
    and full: "\<forall>k < u. f k \<noteq> []" and check: "\<And>p. hash_at m p \<in> hf ` set (log_chunks f u) \<Longrightarrow> check p"
  obtains it' k' ds' where "li_next check m it = Some it'" and "stands hf f u k' ds' it'"
    and "ds' @ concat (map f [Suc k'..<u]) = ds @ concat (map f [Suc k..<u])" and "ds' = [] \<longrightarrow> Suc k' = u"
proof -
  note r = stands_read[OF it ok]
  have k: "k < u" and segs: "tl (li_segments it) = map segment_at [Suc k..<u]"
    using it by (auto simp: stands_def upt_conv_Cons)
  define it1 where "it1 = it\<lparr>li_ptr := li_ptr it + kByteLength + length c\<rparr>"
  have it1: "stands hf f u k ds it1" using stands_next[OF it ok(1)] by (simp add: it1_def)
  define it' where "it' = (if IsEndChunk (PtrToChunkType m (li_ptr it1)) \<and> tl (li_segments it) \<noteq> []
      then \<lparr>li_segments = tl (li_segments it), li_ptr = GetFirstChunkPtr (hd (tl (li_segments it)))\<rparr> else it1)"
  have eq: "li_next check m it = (if \<not> check (li_ptr it' + PtrToChunkLength m (li_ptr it')) \<and> \<not> IsEndChunk (PtrToChunkType m (li_ptr it'))
      then li_advance check m it' else Some it')"
  proof -
    have "li_next check m it = li_advance check m it" using r by (simp add: li_next_def)
    also have "\<dots> = (if \<not> check (li_ptr it' + PtrToChunkLength m (li_ptr it')) \<and> \<not> IsEndChunk (PtrToChunkType m (li_ptr it'))
        then li_advance check m it' else Some it')"
      by (subst li_advance.simps) (simp add: Let_def it'_def it1_def r(4))
    finally show ?thesis .
  qed
  have stop: "li_next check m it = Some it'" if "stands hf f u k' ds' it'" "ds' \<noteq> [] \<or> Suc k' = u" for k' ds'
  proof (cases ds')
    case Nil
    then show ?thesis using eq stands_body(2)[OF that(1) ok(2)[rule_format]] by simp
  next
    case (Cons d es)
    then show ?thesis using eq check[OF stands_read(5)[OF that(1)[unfolded Cons] ok]] by simp
  qed
  show thesis
  proof (cases ds)
    case (Cons d es)
    then have "it' = it1" using stands_read(2)[OF it1[unfolded Cons] ok] by (simp add: it'_def)
    then show thesis using that[OF stop, of k ds k ds] it1 Cons by simp
  next
    case Nil
    then have blank: "IsEndChunk (PtrToChunkType m (li_ptr it1))" using stands_body(2)[OF it1 ok(2)[rule_format]] by simp
    show thesis
    proof (cases "Suc k < u")
      case True
      then have "it' = \<lparr>li_segments = map segment_at [Suc k..<u], li_ptr = GetFirstChunkPtr (segment_at (Suc k))\<rparr>"
        using blank segs by (simp add: it'_def hd_map)
      then have "stands hf f u (Suc k) (f (Suc k)) it'" using stands_first[OF True] by simp
      moreover have "f (Suc k) \<noteq> []" using full True by blast
      moreover have "concat (map f [Suc k..<u]) = f (Suc k) @ concat (map f [Suc (Suc k)..<u])"
        using True by (simp add: upt_conv_Cons)
      ultimately show thesis using that[OF stop, of "Suc k" "f (Suc k)" "Suc k" "f (Suc k)"] Nil by simp
    next
      case False
      then have "it' = it1" "Suc k = u" using segs k by (auto simp: it'_def)
      then show thesis using that[OF stop, of k ds k ds] it1 Nil by simp
    qed
  qed
qed

lemma scan_log:
  assumes ok: "digest_ok hf" "\<forall>k. seg_data hf m k (f k)" "\<forall>k. \<forall>c \<in> set (f k). storable c" "\<forall>k < u. f k \<noteq> []"
    and check: "\<And>p. hash_at m p \<in> hf ` set (log_chunks f u) \<Longrightarrow> check p"
    and last: "li_ptr last_it = segment_at (u - 1) + (kMetaSegmentSize + length (seg_body hf (f (u - 1))))"
    and "stands hf f u k ds it" and "ds = [] \<Longrightarrow> Suc k = u"
  shows "scan check m it last_it = Some (ds @ concat (map f [Suc k..<u]))"
  using assms(7-)
proof (induction "length (ds @ concat (map f [Suc k..<u]))" arbitrary: k ds it)
  case 0
  then have "li_ptr it = li_ptr last_it" using last by (auto simp: stands_def)
  then show ?case using 0 by (subst scan.simps) simp
next
  case (Suc n)
  obtain c es where ds: "ds = c # es" using Suc by (cases ds) auto
  obtain it' k' ds' where n: "li_next check m it = Some it'" "stands hf f u k' ds' it'"
    "ds' @ concat (map f [Suc k'..<u]) = es @ concat (map f [Suc k..<u])" "ds' = [] \<longrightarrow> Suc k' = u"
    using next_stands[where check = check, OF Suc.prems(1)[unfolded ds] ok check] .
  have "li_ptr it \<noteq> li_ptr last_it"
  proof
    assume eq: "li_ptr it = li_ptr last_it"
    obtain cs where cs: "f k = cs @ c # es" "li_ptr it = segment_at k + (kMetaSegmentSize + length (seg_body hf cs))"
      using Suc.prems(1) ds by (auto simp: stands_def)
    have bound: "kMetaSegmentSize + length (seg_body hf (f j)) < kSegmentSize" for j
      using ok(2)[rule_format, of j] by (auto simp: seg_data_def layout)
    have "k = u - 1 \<and> kMetaSegmentSize + length (seg_body hf cs) = kMetaSegmentSize + length (seg_body hf (f (u - 1)))"
      using eq last cs bound[of k] bound[of "u - 1"] by (intro segment_at_eq) auto
    moreover have "length (seg_body hf cs) < length (seg_body hf (f k))"
      unfolding cs(1) using digest_okD[OF ok(1), of c] by (simp add: kByteLength_def)
    ultimately show False by simp
  qed
  moreover have "scan check m it' last_it = Some (es @ concat (map f [Suc k..<u]))"
    using Suc.hyps(1)[of ds' k' it'] Suc.hyps(2) n ds by simp
  ultimately show ?case using n(1) ds stands_read(1)[OF Suc.prems(1)[unfolded ds] ok(1-3)]
    by (subst scan.simps) simp
qed

lemma holds_log_scan:
  assumes "holds_log hf mx s cs"
  shows "LST_scan s = Some cs"
proof -
  obtain u a f where inv: "lst_inv hf mx u a f s" and tail: "0 < u \<longrightarrow> f (u - 1) \<noteq> []" and cs: "cs = log_chunks f u"
    using assms by (auto simp: holds_log_def)
  have ok: "digest_ok hf" "\<forall>k. seg_data hf (lst_image s) k (f k)" "\<forall>k. \<forall>c \<in> set (f k). storable c"
    using inv by (auto simp: lst_inv_def log_ghost_def log_image_def)
  have major: "lst_major s = map segment_at [0..<u]" using inv by (simp add: lst_inv_def)
  have "f k \<noteq> []" if "k < u" for k
    using that tail inv by (cases "Suc k = u") (auto simp: lst_inv_def log_ghost_def)
  then have full: "\<forall>k < u. f k \<noteq> []" by blast
  have check: "check_exist s p" if "hash_at (lst_image s) p \<in> hf ` set (log_chunks f u)" for p
    using that inv index_of_mem[of _ "log_entries hf f u"] by (simp add: check_exist_def lst_inv_def log_entries_hashes)
  show ?thesis
  proof (cases "u = 0")
    case True
    then show ?thesis using cs major by (simp add: LST_scan_def LST_begin_def LST_end_def, subst scan.simps) simp
  next
    case False
    then have upt: "[0..<u] = 0 # [Suc 0..<u]" by (simp add: upt_conv_Cons)
    have "stands hf f u 0 (f 0) (LST_begin s)"
      using stands_first[of 0 u hf f] False major upt by (simp add: LST_begin_def)
    moreover have "li_ptr (LST_end s) = segment_at (u - 1) + (kMetaSegmentSize + length (seg_body hf (f (u - 1))))"
      using False major inv by (simp add: LST_end_def last_map lst_inv_def)
    ultimately have "scan (check_exist s) (lst_image s) (LST_begin s) (LST_end s) = Some (f 0 @ concat (map f [Suc 0..<u]))"
      using scan_log[where check = "check_exist s", OF ok full check] full False by blast
    then show ?thesis using cs by (simp add: LST_scan_def log_chunks_def upt)
  qed
qed

end
