(* ===== verification/Lst_Runs.thy ===== *)
theory Lst_Runs
  imports Lst_Log Worker
begin

text \<open>
  Runs of the log-structured store, and what they show: lookups, iteration, restarts, failures, what
  an interrupted enlargement of the log does, and the restart of a worker on the store.
\<close>

section \<open>Runs\<close>

text \<open>The states a store can reach: it is opened on a new file, chunks are put under their hashes, the
  thread that enlarges the log finishes at any time, and the process is restarted.  The list is what
  the store should hold: the chunks whose hashes were new when they were put, in that order.\<close>

definition log_put :: "(bytes \<Rightarrow> bytes) \<Rightarrow> chunk \<Rightarrow> chunk list \<Rightarrow> chunk list" where
  "log_put hf c cs = (if \<exists>d \<in> set cs. hf d = hf c then cs else cs @ [c])"

inductive log_run :: "(bytes \<Rightarrow> bytes) \<Rightarrow> nat \<Rightarrow> lst_store \<Rightarrow> chunk list \<Rightarrow> bool" for hf mx where
  start: "MmapUstoreLogFile hf mx False file = Some s \<Longrightarrow> log_run hf mx s []"
| put: "log_run hf mx s cs \<Longrightarrow> storable c \<Longrightarrow> LST_Put mx (hf c) c s = Some s' \<Longrightarrow> log_run hf mx s' (log_put hf c cs)"
| enlarge: "log_run hf mx s cs \<Longrightarrow> lst_status s = kScheduled \<Longrightarrow> Enlarge mx s = Some s' \<Longrightarrow> log_run hf mx s' cs"
| reopen: "log_run hf mx s cs \<Longrightarrow> MmapUstoreLogFile hf mx True (Some (lst_size s, lst_image s)) = Some s' \<Longrightarrow> log_run hf mx s' cs"

lemma holds_log_get: "holds_log hf mx s cs \<Longrightarrow> LST_Get h s = find (\<lambda>c. hf c = h) cs"
  by (auto simp: holds_log_def LST_Get_inv)

lemma holds_log_exists: "holds_log hf mx s cs \<Longrightarrow> LST_Exists h s \<longleftrightarrow> (\<exists>d \<in> set cs. hf d = h)"
  by (auto simp: LST_Exists_Get holds_log_get find_None_iff)

lemma holds_log_used:
  "holds_log hf mx s cs \<Longrightarrow> usedSegments (lst_info s) \<le> mx \<and> digest_ok hf"
  by (auto simp: holds_log_def lst_inv_def log_ghost_def)

lemma holds_log_storable: "holds_log hf mx s cs \<Longrightarrow> c \<in> set cs \<Longrightarrow> storable c"
  by (auto simp: holds_log_def lst_inv_def log_ghost_def log_chunks_def)

lemma LST_Put_cases:
  assumes "holds_log hf mx s cs" and "storable c"
  shows "LST_Put mx (hf c) c s = None \<longleftrightarrow>
      \<not> LST_Exists (hf c) s \<and> usedSegments (lst_info s) = mx \<and> \<not> has_room c s"
    and "LST_Put mx (hf c) c s = Some s' \<Longrightarrow> holds_log hf mx s' (log_put hf c cs)"
proof -
  note u = holds_log_used[OF assms(1)]
  have old: "LST_Put mx (hf c) c s = Some s" if "LST_Exists (hf c) s"
    using that u by (simp add: LST_Put_eq[OF assms(2)])
  have new: "\<exists>t. LST_Put mx (hf c) c s = Some t \<and> holds_log hf mx t (cs @ [c])"
    if "\<not> LST_Exists (hf c) s" "usedSegments (lst_info s) < mx \<or> has_room c s"
    using LST_Put_log[OF assms that] by blast
  have full: "LST_Put mx (hf c) c s = None"
    if "\<not> LST_Exists (hf c) s" "usedSegments (lst_info s) = mx" "\<not> has_room c s"
    using LST_Put_full[OF assms that] .
  show "LST_Put mx (hf c) c s = None \<longleftrightarrow>
      \<not> LST_Exists (hf c) s \<and> usedSegments (lst_info s) = mx \<and> \<not> has_room c s"
    using old new full u by (metis option.distinct(1) le_neq_implies_less)
  assume "LST_Put mx (hf c) c s = Some s'"
  then show "holds_log hf mx s' (log_put hf c cs)"
    using old new full u assms(1) holds_log_exists[OF assms(1)]
    by (cases "LST_Exists (hf c) s") (auto simp: log_put_def, metis le_neq_implies_less option.distinct(1) option.sel)
qed

lemma log_run_holds:
  assumes "log_run hf mx s cs" and "digest_ok hf" and "mx < 2 ^ 41"
  shows "holds_log hf mx s cs"
  using assms(1)
proof induction
  case (start fi s)
  then show ?case using holds_log_fresh[OF assms(2,3)] by (metis option.sel)
next
  case (put s cs c s')
  then show ?case using LST_Put_cases(2) by blast
next
  case (enlarge s cs s')
  then show ?case using holds_log_enlarge by (metis option.sel)
next
  case (reopen s cs s')
  then show ?case using holds_log_reopen by (metis option.sel)
qed

lemma log_info_counts:
  "chunks (log_info cs i) = chunks i + length cs" "chunkBytes (log_info cs i) = chunkBytes i + sum_list (map length cs)"
  by (induction cs arbitrary: i) (auto simp: onNewChunk_def)

lemma holds_log_counts:
  assumes "holds_log hf mx s cs"
  shows "chunks (lst_info s) = length cs" and "chunkBytes (lst_info s) = sum_list (map length cs)"
proof -
  have i: "counts_of (lst_info s) = log_info cs (initStoreInfo mx)"
    using assms by (auto simp: holds_log_def lst_inv_def)
  have "chunks (counts_of (lst_info s)) = chunks (lst_info s)" "chunkBytes (counts_of (lst_info s)) = chunkBytes (lst_info s)"
    by (simp_all add: counts_of_def)
  then show "chunks (lst_info s) = length cs" and "chunkBytes (lst_info s) = sum_list (map length cs)"
    by (simp_all add: i log_info_counts initStoreInfo_def)
qed

section \<open>A worker on the store\<close>

text \<open>The log goes on: chunks are put, the log is enlarged, the process is restarted.\<close>

inductive log_step :: "(bytes \<Rightarrow> bytes) \<Rightarrow> nat \<Rightarrow> lst_store \<times> chunk list \<Rightarrow> lst_store \<times> chunk list \<Rightarrow> bool" for hf mx where
  step_put: "storable c \<Longrightarrow> LST_Put mx (hf c) c s = Some s' \<Longrightarrow> log_step hf mx (s, cs) (s', log_put hf c cs)"
| step_enlarge: "lst_status s = kScheduled \<Longrightarrow> Enlarge mx s = Some s' \<Longrightarrow> log_step hf mx (s, cs) (s', cs)"
| step_reopen: "MmapUstoreLogFile hf mx True (Some (lst_size s, lst_image s)) = Some s' \<Longrightarrow> log_step hf mx (s, cs) (s', cs)"

text \<open>A worker that runs on the store from an empty database on.  Each of its steps is an operation of
  the worker, during which the log gets the chunks that the operation writes.  Excepted are steps that
  commit a cell which the store has already: a step that changes the latest versions puts a new cell
  into the store.\<close>

definition fresh_commit :: "worker \<Rightarrow> worker \<Rightarrow> bool" where
  "fresh_commit w w' \<longleftrightarrow> latest_ver (wk_head w') = latest_ver (wk_head w) \<or>
     (\<exists>h c. wk_store w h = None \<and> wk_store w' h = Some c \<and> is_cell c)"

inductive served :: "env \<Rightarrow> nat \<Rightarrow> worker \<Rightarrow> lst_store \<Rightarrow> chunk list \<Rightarrow> bool" for e mx where
  served_start: "MmapUstoreLogFile (e_hf e) mx False file = Some s \<Longrightarrow> served e mx no_data s []"
| served_step: "served e mx w s cs \<Longrightarrow> worker_step e w w' \<Longrightarrow> fresh_commit w w' \<Longrightarrow>
    (log_step (e_hf e) mx)\<^sup>*\<^sup>* (s, cs) (s', cs') \<Longrightarrow> wk_store w' = (\<lambda>h. LST_Get h s') \<Longrightarrow> served e mx w' s' cs'"
| served_log: "served e mx w s cs \<Longrightarrow> log_step (e_hf e) mx (s, cs) (s', cs) \<Longrightarrow> served e mx w s' cs"

lemma log_step_run:
  assumes "log_step hf mx p q" and "log_run hf mx (fst p) (snd p)"
  shows "log_run hf mx (fst q) (snd q)" and "\<exists>ds. snd q = snd p @ ds"
proof -
  from assms show "log_run hf mx (fst q) (snd q)" by (cases rule: log_step.cases) (auto intro: log_run.intros)
  from assms show "\<exists>ds. snd q = snd p @ ds" by (cases rule: log_step.cases) (auto simp: log_put_def)
qed

lemma log_steps_run:
  assumes "(log_step hf mx)\<^sup>*\<^sup>* p q" and "log_run hf mx (fst p) (snd p)"
  shows "log_run hf mx (fst q) (snd q) \<and> (\<exists>ds. snd q = snd p @ ds)"
  using assms(1)
proof (induction rule: rtranclp_induct)
  case (step q r)
  then show ?case using log_step_run[OF step(2)] by fastforce
qed (use assms(2) in simp)

lemma served_run: "served e mx w s cs \<Longrightarrow> log_run (e_hf e) mx s cs"
proof (induction rule: served.induct)
  case (served_step w s cs w' s' cs')
  then show ?case using log_steps_run[OF served_step(4)] by simp
next
  case (served_log w s cs s')
  then show ?case using log_steps_run[OF r_into_rtranclp[of "log_step (e_hf e) mx", OF served_log(2)]] by simp
qed (auto intro: log_run.start)

lemma served_ok: "served e mx w s cs \<Longrightarrow> worker_ok w"
  by (induction rule: served.induct) (auto intro: worker_ok_no_data worker_ok_step)

lemma served_store:
  assumes "served e mx w s cs" and "digest_ok (e_hf e)" and "mx < 2 ^ 41"
  shows "wk_store w = (\<lambda>h. find (\<lambda>c. e_hf e c = h) cs)"
  using assms(1)
proof (induction rule: served.induct)
  case (served_step w s cs w' s' cs')
  have "served e mx w' s' cs'" by (rule served.served_step[OF served_step(1-5)])
  from holds_log_get[OF log_run_holds[OF served_run[OF this] assms(2,3)]] served_step(5) show ?case by simp
qed (auto simp: no_data_def)

lemma log_run_distinct: "log_run hf mx s cs \<Longrightarrow> distinct (map hf cs)"
  by (induction rule: log_run.induct) (auto simp: log_put_def)

text \<open>A step writes the cell that it commits, and no other, to the end of the log.\<close>

lemma served_cells:
  assumes "distinct (map hf (cs @ ds))" and "d \<in> set ds"
  shows "find (\<lambda>c. hf c = hf d) (cs @ ds) = Some d" and "find (\<lambda>c. hf c = hf d) cs = None"
proof -
  show n: "find (\<lambda>c. hf c = hf d) cs = None" using assms by (auto simp: find_None_iff)
  have "find (\<lambda>c. hf c = hf d) ds = Some d"
    using assms by (induction ds) (auto simp: image_iff)
  with n show "find (\<lambda>c. hf c = hf d) (cs @ ds) = Some d" by (induction cs) (auto split: if_splits)
qed

lemma find_member: "find P xs = Some x \<Longrightarrow> x \<in> set xs \<and> P x"
  by (induction xs) (auto split: if_splits)

lemma singleton_list: "distinct xs \<Longrightarrow> set xs = {x} \<Longrightarrow> xs = [x]"
  by (cases xs; cases "tl xs") auto

lemma new_cells:
  assumes "step_shape hf w w'" and w: "wk_store w = (\<lambda>h. find (\<lambda>c. hf c = h) cs)" "wk_store w' = (\<lambda>h. find (\<lambda>c. hf c = h) (cs @ ds))"
    and dist: "distinct (map hf (cs @ ds))" and fresh: "fresh_commit w w'"
  shows "filter is_cell ds = [] \<and> latest_ver (wk_head w') = latest_ver (wk_head w) \<or>
    (\<exists>cell hv. filter is_cell ds = [cell] \<and> UpdateLatestVersion hf cell (wk_head w) = Some hv \<and>
       latest_ver (wk_head w') = latest_ver hv)"
proof -
  have new: "wk_store w' (hf d) = Some d" "wk_store w (hf d) = None" if "d \<in> set ds" for d
    using served_cells[OF dist that] w by simp_all
  from assms(1) consider "no_commit w w'" | cell where "one_commit hf cell w w'" by (auto simp: step_shape_def)
  then show ?thesis
  proof cases
    case 1
    have "\<not> is_cell d" if "d \<in> set ds" for d
      using new[OF that] adds_nodesD(2)[of "wk_store w" "wk_store w'" "hf d" d] 1 by (auto simp: no_commit_def)
    with 1 show ?thesis by (simp add: no_commit_def filter_empty_conv)
  next
    case (2 cell)
    then obtain h hv where c: "is_cell cell" "wk_store w' h = Some cell" "UpdateLatestVersion hf cell (wk_head w) = Some hv"
      "latest_ver (wk_head w') = latest_ver hv"
      "\<forall>h' c. wk_store w' h' = Some c \<longrightarrow> is_cell c \<longrightarrow> wk_store w h' = Some c \<or> h' = h \<and> c = cell"
      by (auto simp: one_commit_def)
    have only: "d = cell" if "d \<in> set ds" "is_cell d" for d using c(5)[rule_format, OF new(1)[OF that(1)] that(2)] new(2)[OF that(1)] by simp
    show ?thesis
    proof (cases "cell \<in> set ds")
      case True
      have "distinct (filter is_cell ds)" using dist by (auto simp: distinct_map)
      moreover have "set (filter is_cell ds) = {cell}" using True c(1) by (auto dest: only)
      ultimately have "filter is_cell ds = [cell]" by (rule singleton_list)
      with c(3,4) show ?thesis by blast
    next
      case False
      have "cell \<in> set (cs @ ds)" "hf cell = h" using find_member[OF c(2)[unfolded w(2)]] by auto
      with False have "wk_store w h \<noteq> None" unfolding w(1) by (auto simp: find_None_iff)
      then have "\<not> (\<exists>h c. wk_store w h = None \<and> wk_store w' h = Some c \<and> is_cell c)" using c(5) by fastforce
      with fresh have "latest_ver (wk_head w') = latest_ver (wk_head w)" unfolding fresh_commit_def by blast
      moreover have "filter is_cell ds = []" using False by (auto simp: filter_empty_conv dest: only)
      ultimately show ?thesis by blast
    qed
  qed
qed

lemma served_replay:
  assumes "served e mx w s cs" and "digest_ok (e_hf e)" and "mx < 2 ^ 41"
  shows "\<exists>hv. replay_cells (e_hf e) cs no_versions = Some hv \<and> latest_ver hv = latest_ver (wk_head w)"
  using assms(1)
proof (induction rule: served.induct)
  case (served_step w s cs w' s' cs')
  have sv: "served e mx w' s' cs'" by (rule served.served_step[OF served_step(1-5)])
  note run = log_run_holds[OF served_run[OF sv] assms(2,3)]
  obtain ds where ds: "cs' = cs @ ds" using log_steps_run[OF served_step(4)] served_run[OF served_step(1)] by auto
  have ty: "\<forall>c \<in> set ds. chunk_type c \<noteq> None" using holds_log_storable[OF run] ds by (auto simp: storable_read)
  obtain hv0 where hv0: "replay_cells (e_hf e) cs no_versions = Some hv0" "latest_ver hv0 = latest_ver (wk_head w)"
    using served_step.IH by blast
  have r: "replay_cells (e_hf e) cs' no_versions = replay_cells (e_hf e) (filter is_cell ds) hv0"
    using hv0(1) replay_cells_filter[OF ty] by (simp add: ds replay_cells_append)
  note st = served_store[OF sv assms(2,3), unfolded ds] and dist = log_run_distinct[OF served_run[OF sv], unfolded ds]
  from new_cells[OF worker_step_shape[OF served_step(2)] served_store[OF served_step(1) assms(2,3)] st dist served_step(3)]
  consider "filter is_cell ds = []" "latest_ver (wk_head w') = latest_ver (wk_head w)"
    | cell hv where "filter is_cell ds = [cell]" "UpdateLatestVersion (e_hf e) cell (wk_head w) = Some hv"
        "latest_ver (wk_head w') = latest_ver hv" by blast
  then show ?case
  proof cases
    case 1
    with r hv0(2) show ?thesis by simp
  next
    case (2 cell hv)
    have "is_cell cell" using 2(1) by (auto simp: filter_eq_Cons_iff)
    with UpdateLatestVersion_latest[OF 2(2) hv0(2)] 2(1,3) r show ?thesis by (auto simp: is_cell_def)
  qed
qed (auto simp: no_data_def)

lemma served_heads_full:
  assumes "served e mx w s cs" and "digest_ok (e_hf e)" and "mx < 2 ^ 41"
  shows "heads_full (wk_head w)"
proof -
  have len: "length h = kByteLength" if "wk_store w h = Some c" for h c
    using find_member[of _ cs c] that served_store[OF assms] digest_okD[OF assms(2)] by auto
  have "\<exists>d. h = Some d \<and> length d = kByteLength" if "heads (wk_head w) kb = Some h" for kb h
  proof -
    have "known w h" using served_ok[OF assms(1)] that unfolding worker_ok_def by blast
    then show ?thesis using len by (auto simp: known_def)
  qed
  then show ?thesis by (simp add: heads_full_def)
qed

section \<open>An interrupted enlargement\<close>

lemma open_log_torn:
  assumes "sub64 len kMetaLogSize mod kSegmentSize \<noteq> 0"
  shows "open_log True (Some (len, m)) = write_file (0, meta_log) (len, m)"
  using assms by (simp add: open_log_def)

lemma empty_log_load:
  assumes "integer_at m 0 = 0" and "integer_at m 8 = 0"
  shows "LST_Load hf (opened mx len m) = Some (opened mx len m)"
proof -
  have nil: "LinkSegmentList m 0 = Some []" by (subst LinkSegmentList.simps) simp
  show ?thesis using assms nil
    by (simp add: LST_Load_def ReadInteger_def opened_def last_or_null_def initStoreInfo_def)
qed

lemma UpdateStore_map: "lst_map (UpdateStore s) = lst_map s"
  by (simp add: UpdateStore_def Let_def)

lemma torn_log_empty:
  assumes "sub64 len kMetaLogSize mod kSegmentSize \<noteq> 0" and "mx < 2 ^ 41"
  shows "\<exists>s. MmapUstoreLogFile hf mx True (Some (len, m)) = Some s \<and> lst_map s = Map.empty"
proof -
  define m' where "m' = img_write m 0 meta_log"
  have op: "open_log True (Some (len, m)) = (max len kMetaLogSize, m')"
    by (simp add: open_log_torn[OF assms(1)] write_file_pair m'_def meta_log_blank)
  have load: "LST_Load hf (opened mx (max len kMetaLogSize) m') = Some (opened mx (max len kMetaLogSize) m')"
    by (rule empty_log_load) (simp_all add: m'_def blank_meta)
  let ?s = "(opened mx (max len kMetaLogSize) m')\<lparr>lst_status := kScheduled\<rparr>"
  obtain t where t: "Enlarge mx ?s = Some t" "lst_map t = lst_map ?s"
    using Enlarge_eq[of ?s 0 mx] assms(2) by auto
  then show ?thesis
    by (simp add: MmapUstoreLogFile_def op opened_def[symmetric] load segment_increment_def UpdateStore_map)
qed

lemma enlarge_writes_take:
  "k \<le> n \<Longrightarrow> take k (enlarge_writes a n l) = map (enlarge_write a n l) [0..<k]"
  by (simp add: enlarge_writes_def take_map)

lemma torn_size:
  assumes "0 < k" and "k \<le> n" and "a + n < 2 ^ 41"
  shows "fst (fold write_file (take k (enlarge_writes a n l)) (segment_at a, m)) = segment_at (a + k - 1) + kMetaSegmentSize"
proof -
  have "segment_at a \<le> segment_at (a + k - 1) + kMetaSegmentSize" using assms(1) by (cases k) (auto simp: segment_at_def algebra_simps)
  then show ?thesis
    using enlarge_prefix[OF assms(2,3), of _ l "segment_at a" m] assms(1,2) by (simp add: enlarge_writes_take max_def)
qed

lemma torn_rem: "sub64 (segment_at j + kMetaSegmentSize) kMetaLogSize mod kSegmentSize \<noteq> 0"
  by (simp add: segment_at_def layout)

section \<open>An example\<close>

definition ex_chunk :: chunk where
  "ex_chunk = chunk_of CT_kBlob [1, 2, 3]"

lemma storable_chunk_of:
  assumes "length d < 4000000" and "t \<noteq> CT_kNull" and "t \<noteq> CT_kInvalid"
  shows "storable (chunk_of t d)"
proof -
  have "chunk_of t d ! 4 = ChunkType_byte t" by (simp add: chunk_of_def nth_append)
  moreover have "take 4 (chunk_of t d) = le_bytes 4 (kMetaLength + length d)" by (simp add: chunk_of_def)
  ultimately show ?thesis using assms by (simp add: storable_def IsEndChunk_def layout)
qed

lemma fresh_size:
  assumes "MmapUstoreLogFile hf 64 False file = Some s"
  shows "lst_size s = segment_at 32 \<and> allocSegments (lst_info s) = 32 \<and> 32 \<le> freeSegments (lst_info s) \<and> lst_free s \<noteq> [] \<and> lst_major s = []"
proof -
  define m where "m = img_write (\<lambda>_. 0) 0 meta_log"
  have op: "open_log False file = (kMetaLogSize, m)"
    by (simp add: open_log_def write_file_pair m_def meta_log_blank)
  have load: "LST_Load hf (opened 64 kMetaLogSize m) = Some (opened 64 kMetaLogSize m)"
    by (rule empty_log_load) (simp_all add: m_def blank_meta)
  let ?s = "(opened 64 kMetaLogSize m)\<lparr>lst_status := kScheduled\<rparr>"
  have n: "new_segment_count 64 0 = 32" by (simp add: new_segment_count_eq)
  have big: "kMetaLogSize \<le> segment_at 32" by simp
  obtain len m' where "Enlarge 64 ?s = Some (?s\<lparr>lst_size := len, lst_image := m',
      lst_sync := map segment_at [0..<32], lst_status := kCompleted\<rparr>)" "len = segment_at 32"
    using Enlarge_eq[of ?s 0 64] n big by (auto simp: max_absorb2)
  then show ?thesis using assms
    by (auto simp: MmapUstoreLogFile_def op opened_def[symmetric] load segment_increment_def UpdateStore_def Let_def)
      (simp_all add: opened_def)
qed

lemma put_size:
  assumes "LST_Put mx (hf c) c s = Some s'" and "storable c" and "digest_ok hf"
    and "16 \<le> freeSegments (lst_info s)" and "lst_free s \<noteq> []"
  shows "lst_size s' = lst_size s \<and> allocSegments (lst_info s') = allocSegments (lst_info s)"
  using assms(1,4,5) unfolding LST_Put_eq[OF assms(2,3)]
  by (auto simp: AllocateMajor_def Allocate_def Allocate_status_def segment_increment_def append_chunk_def Let_def
      split: if_splits)

lemma ex_log_start:
  assumes "digest_ok hf" and "storable c"
  obtains s0 s where "MmapUstoreLogFile hf 64 False None = Some s0" and "LST_Put 64 (hf c) c s0 = Some s"
proof -
  obtain s0 where s0: "MmapUstoreLogFile hf 64 False None = Some s0" "holds_log hf 64 s0 []"
    using holds_log_fresh[OF assms(1), of 64] by auto
  have e: "\<not> LST_Exists (hf c) s0" using holds_log_exists[OF s0(2)] by simp
  have "usedSegments (lst_info s0) = 0"
    using s0(2) fresh_size[OF s0(1)] by (auto simp: holds_log_def lst_inv_def)
  then obtain s where "LST_Put 64 (hf c) c s0 = Some s"
    using LST_Put_log[OF s0(2) assms(2) e] by auto
  with s0(1) show thesis by (rule that)
qed

lemma ex_log:
  assumes "digest_ok hf" and "storable c"
  obtains s where "log_run hf 64 s [c]" and "lst_size s = segment_at (allocSegments (lst_info s))"
    and "allocSegments (lst_info s) = 32"
proof -
  obtain s0 s where s: "MmapUstoreLogFile hf 64 False None = Some s0" "LST_Put 64 (hf c) c s0 = Some s"
    using ex_log_start[OF assms] .
  have "log_run hf 64 s (log_put hf c [])" by (rule log_run.put[OF log_run.start[OF s(1)] assms(2) s(2)])
  then show thesis using that put_size[OF s(2) assms(2,1)] fresh_size[OF s(1)] by (simp add: log_put_def)
qed

lemma ex_served:
  obtains s where "served ex_env 64 ex_worker s [ex_cell]"
proof -
  have st: "storable ex_cell" unfolding ex_cell_def by (rule storable_chunk_of) (simp_all add: cell_payload_def)
  have e: "e_hf ex_env = ex_hf" by (simp add: ex_env_def)
  obtain s0 s where s: "MmapUstoreLogFile ex_hf 64 False None = Some s0" "LST_Put 64 (ex_hf ex_cell) ex_cell s0 = Some s"
    using ex_log_start[OF ex_hf_digest st] .
  have steps: "(log_step (e_hf ex_env) 64)\<^sup>*\<^sup>* (s0, []) (s, [ex_cell])"
    using step_put[of ex_cell 64 "e_hf ex_env" s0 s "[]", OF st] s(2) e by (auto simp: log_put_def)
  have start: "served ex_env 64 no_data s0 []" using served_start[of ex_env 64 None s0] s(1) e by simp
  have "log_run ex_hf 64 s [ex_cell]" using log_steps_run[OF steps] served_run[OF start] e by simp
  then have "wk_store ex_worker = (\<lambda>h. LST_Get h s)"
    using holds_log_get[OF log_run_holds[OF _ ex_hf_digest]] by (auto simp: ex_worker_def)
  moreover have "fresh_commit no_data ex_worker"
    by (auto simp: fresh_commit_def no_data_def ex_worker_def is_cell_def ex_cell_def)
  ultimately have "served ex_env 64 ex_worker s [ex_cell]" using served_step[OF start ex_step _ steps] by blast
  then show thesis by (rule that)
qed

section \<open>Properties\<close>

text \<open>C6. The contents of the log-structured store.  After any sequence of puts, enlargements of the log
  by its thread, and restarts, a lookup gives the first chunk that was put under the hash, the
  iterator enumerates the chunks in the order in which they were put, each hash once, and the
  statistics count them.\<close>

theorem lst_contents:
  assumes "log_run hf mx s cs" and "digest_ok hf" and "mx < 2 ^ 41"
  shows "(\<forall>h. LST_Get h s = find (\<lambda>c. hf c = h) cs) \<and> LST_scan s = Some cs \<and>
    chunks (lst_info s) = length cs \<and> chunkBytes (lst_info s) = sum_list (map length cs)"
  using holds_log_get holds_log_scan holds_log_counts log_run_holds[OF assms] by blast

theorem lst_contents_witness:
  "\<exists>s. log_run ex_hf 64 s [ex_chunk] \<and> LST_Get (ex_hf ex_chunk) s = Some ex_chunk \<and> LST_scan s = Some [ex_chunk] \<and>
    chunks (lst_info s) = 1 \<and> chunkBytes (lst_info s) = 8"
proof -
  have c: "storable ex_chunk" by (simp add: ex_chunk_def storable_chunk_of)
  obtain s where s: "log_run ex_hf 64 s [ex_chunk]" using ex_log[OF ex_hf_digest c] .
  show ?thesis using lst_contents[OF s ex_hf_digest] s by (intro exI[of _ s]) (simp add: ex_chunk_def kMetaLength_def)
qed

text \<open>C7. Reopening the log.  A store that is stopped and opened on its file again loads without
  failing, and has the same chunks under the same hashes and in the same order.\<close>

theorem lst_reopen:
  assumes "log_run hf mx s cs" and "digest_ok hf" and "mx < 2 ^ 41"
  shows "\<exists>s'. MmapUstoreLogFile hf mx True (Some (lst_size s, lst_image s)) = Some s' \<and>
    (\<forall>h. LST_Get h s' = LST_Get h s) \<and> LST_scan s' = LST_scan s"
proof -
  note s = log_run_holds[OF assms]
  obtain s' where "MmapUstoreLogFile hf mx True (Some (lst_size s, lst_image s)) = Some s'" "holds_log hf mx s' cs"
    using holds_log_reopen[OF s] .
  then show ?thesis using s holds_log_get holds_log_scan by metis
qed

theorem lst_reopen_witness:
  "\<exists>s s'. log_run ex_hf 64 s [ex_chunk] \<and> MmapUstoreLogFile ex_hf 64 True (Some (lst_size s, lst_image s)) = Some s' \<and>
    LST_Get (ex_hf ex_chunk) s' = Some ex_chunk \<and> LST_scan s' = Some [ex_chunk]"
proof -
  have c: "storable ex_chunk" by (simp add: ex_chunk_def storable_chunk_of)
  obtain s where s: "log_run ex_hf 64 s [ex_chunk]" using ex_log[OF ex_hf_digest c] .
  have h: "holds_log ex_hf 64 s [ex_chunk]" using log_run_holds[OF s ex_hf_digest] by simp
  show ?thesis using lst_reopen[OF s ex_hf_digest] s holds_log_get[OF h] holds_log_scan[OF h] by auto
qed

text \<open>C29. Putting a chunk fails, and stops the process, exactly when the chunk is new, does not fit into
  what is left of the current segment, and all segments the configuration allows are in use.\<close>

theorem lst_put_fails:
  assumes "log_run hf mx s cs" and "digest_ok hf" and "mx < 2 ^ 41" and "storable c"
  shows "LST_Put mx (hf c) c s = None \<longleftrightarrow>
    \<not> LST_Exists (hf c) s \<and> usedSegments (lst_info s) = mx \<and> (lst_major s = [] \<or> GetFreeSpaceMajor s < kByteLength + length c)"
  using LST_Put_cases(1)[OF log_run_holds[OF assms(1-3)] assms(4)] by (auto simp: has_room_def)

theorem lst_put_fails_witness:
  "(\<exists>s. log_run ex_hf 64 s [ex_chunk] \<and> LST_Put 64 (ex_hf ex_chunk) ex_chunk s \<noteq> None) \<and>
   (\<exists>s. log_run ex_hf 0 s [] \<and> LST_Put 0 (ex_hf ex_chunk) ex_chunk s = None)"
proof -
  have c: "storable ex_chunk" by (simp add: ex_chunk_def storable_chunk_of)
  obtain s where s: "log_run ex_hf 64 s [ex_chunk]" using ex_log[OF ex_hf_digest c] .
  have "LST_Exists (ex_hf ex_chunk) s" using holds_log_exists[OF log_run_holds[OF s ex_hf_digest]] by simp
  then have "LST_Put 64 (ex_hf ex_chunk) ex_chunk s \<noteq> None" using lst_put_fails[OF s ex_hf_digest _ c] by simp
  moreover obtain z where z: "MmapUstoreLogFile ex_hf 0 False None = Some z" "holds_log ex_hf 0 z []"
    using holds_log_fresh[OF ex_hf_digest, of 0] by auto
  have r: "log_run ex_hf 0 z []" by (rule log_run.start[OF z(1)])
  have "usedSegments (lst_info z) = 0" "lst_major z = []" "\<not> LST_Exists (ex_hf ex_chunk) z"
    using holds_log_used[OF z(2)] holds_log_exists[OF z(2)] z(2) by (auto simp: holds_log_def lst_inv_def)
  then have "LST_Put 0 (ex_hf ex_chunk) ex_chunk z = None" using lst_put_fails[OF r ex_hf_digest _ c] by simp
  ultimately show ?thesis using s r by blast
qed

text \<open>C35. An interrupted enlargement.  When the process stops after the first and before the last write
  of \<open>Enlarge\<close>, the size of the file is not that of a log.  The next start takes the file for no log
  and writes an empty head over it: every chunk of the store is lost.\<close>

theorem torn_enlarge_loses_log:
  assumes "log_run hf mx s cs" and "digest_ok hf" and "mx < 2 ^ 41"
    and "a = allocSegments (lst_info s)" and "lst_size s = segment_at a"
    and "0 < k" and "k \<le> new_segment_count mx a"
  shows "\<exists>s'. MmapUstoreLogFile hf mx True (Some (fold write_file (take k (enlarge_writes a (new_segment_count mx a) (lst_last_free s)))
      (lst_size s, lst_image s))) = Some s' \<and> (\<forall>h. LST_Get h s' = None)"
proof -
  define M where "M = fold write_file (take k (enlarge_writes a (new_segment_count mx a) (lst_last_free s))) (lst_size s, lst_image s)"
  have "a \<le> mx" using log_run_holds[OF assms(1-3)] assms(4) by (auto simp: holds_log_def lst_inv_def log_ghost_def)
  then have "a + new_segment_count mx a < 2 ^ 41" using assms(3) by (simp add: new_segment_count_eq)
  then have "fst M = segment_at (a + k - 1) + kMetaSegmentSize"
    unfolding M_def assms(5) by (intro torn_size[OF assms(6,7)])
  then have "sub64 (fst M) kMetaLogSize mod kSegmentSize \<noteq> 0" using torn_rem by simp
  from torn_log_empty[OF this assms(3), of hf "snd M"] show ?thesis
    by (auto simp: M_def LST_Get_def)
qed

theorem torn_enlarge_loses_log_witness:
  "\<exists>s s'. log_run ex_hf 64 s [ex_chunk] \<and> LST_Get (ex_hf ex_chunk) s = Some ex_chunk \<and>
    MmapUstoreLogFile ex_hf 64 True (Some (fold write_file (take 1 (enlarge_writes 32 32 (lst_last_free s)))
      (lst_size s, lst_image s))) = Some s' \<and> LST_Get (ex_hf ex_chunk) s' = None"
proof -
  have c: "storable ex_chunk" by (simp add: ex_chunk_def storable_chunk_of)
  obtain s where s: "log_run ex_hf 64 s [ex_chunk]" "lst_size s = segment_at (allocSegments (lst_info s))"
    "allocSegments (lst_info s) = 32" using ex_log[OF ex_hf_digest c] .
  have n: "new_segment_count 64 32 = 32" by (simp add: new_segment_count_eq)
  have h: "holds_log ex_hf 64 s [ex_chunk]" using log_run_holds[OF s(1) ex_hf_digest] by simp
  show ?thesis
    using torn_enlarge_loses_log[OF s(1) ex_hf_digest _ refl s(2), of 1] s n holds_log_get[OF h] by auto
qed

text \<open>C8. Restarting a worker on the log-structured store.  A worker runs from an empty database: each
  of its operations writes its chunks to the log, which may be enlarged and reopened at any time.
  When it is stopped, its head file written, and the process started again, the log loads, the
  iterator yields the chunks, and the worker that starts from them and from the head file is the same
  worker: it has the same chunks, the same branches and the same latest versions.  The message format
  of the head file reads back what it writes.  Excepted are runs in which an operation commits a cell
  that the store has already and thereby changes the latest versions: the cell is not written again,
  and the replay of the log does not see the second commit.\<close>

theorem restart_recovers:
  assumes "served e mx w s cs" and "digest_ok (e_hf e)" and "mx < 2 ^ 41"
    and "\<And>kvs content. ser kvs = Some content \<Longrightarrow> parse content = Some kvs"
    and "Worker_stop ser w = Some (Some file)"
  shows "\<exists>s' loaded. MmapUstoreLogFile (e_hf e) mx True (Some (lst_size s, lst_image s)) = Some s' \<and>
    LST_scan s' = Some loaded \<and> Worker_start (e_hf e) parse (Some file) loaded (\<lambda>h. LST_Get h s') = Some w"
proof -
  obtain s' where s': "MmapUstoreLogFile (e_hf e) mx True (Some (lst_size s, lst_image s)) = Some s'" "holds_log (e_hf e) mx s' cs"
    using holds_log_reopen[OF log_run_holds[OF served_run[OF assms(1)] assms(2,3)]] .
  have st: "(\<lambda>h. LST_Get h s') = wk_store w" using served_store[OF assms(1-3)] holds_log_get[OF s'(2)] by simp
  obtain hv where "replay_cells (e_hf e) cs no_versions = Some hv" "latest_ver hv = latest_ver (wk_head w)"
    using served_replay[OF assms(1-3)] by blast
  from restart_replays[OF served_ok[OF assms(1)] served_heads_full[OF assms(1-3)] this assms(4,5)]
  have "Worker_start (e_hf e) parse (Some file) cs (\<lambda>h. LST_Get h s') = Some w" unfolding st .
  then show ?thesis using s' holds_log_scan by blast
qed

theorem restart_recovers_witness:
  "let kvs = [([1], [([2], ex_hf ex_cell)])]; ser = (\<lambda>x. if x = kvs then Some [0] else None);
       parse = (\<lambda>c. if c = [0] then Some kvs else None)
   in Worker_stop ser ex_worker = Some (Some [0]) \<and>
      (\<exists>s s' loaded. served ex_env 64 ex_worker s [ex_cell] \<and>
        MmapUstoreLogFile ex_hf 64 True (Some (lst_size s, lst_image s)) = Some s' \<and> LST_scan s' = Some loaded \<and>
        Worker_start ex_hf parse (Some [0]) loaded (\<lambda>h. LST_Get h s') = Some ex_worker)"
proof -
  let ?kvs = "[([1], [([2], ex_hf ex_cell)])]"
  let ?ser = "\<lambda>x. if x = ?kvs then Some [0] else None" and ?parse = "\<lambda>c. if c = [0 :: 8 word] then Some ?kvs else None"
  have e: "e_hf ex_env = ex_hf" by (simp add: ex_env_def)
  have stop: "Worker_stop ?ser ex_worker = Some (Some [0])"
    by (simp add: Worker_stop_def Dump_def ex_worker_def)
  obtain s where s: "served ex_env 64 ex_worker s [ex_cell]" using ex_served .
  have "\<exists>s' loaded. MmapUstoreLogFile (e_hf ex_env) 64 True (Some (lst_size s, lst_image s)) = Some s' \<and>
      LST_scan s' = Some loaded \<and> Worker_start (e_hf ex_env) ?parse (Some [0]) loaded (\<lambda>h. LST_Get h s') = Some ex_worker"
    by (rule restart_recovers[OF s _ _ _ stop]) (use ex_hf_digest e in \<open>auto split: if_splits\<close>)
  then show ?thesis using s stop e unfolding Let_def by auto
qed

end
