(* ===== verification/Remote.thy ===== *)
theory Remote
  imports Cluster Digests "HOL-Library.Countable"
begin

text \<open>
  What a client sees over the network is what the worker does: calls through messages compared with
  calls of the worker itself.
\<close>

section \<open>Conversions\<close>

lemma to_size_int64 [simp]: "n < 2 ^ 64 \<Longrightarrow> to_size (to_int64 n) = n"
  by (auto simp: to_size_def to_int64_def Let_def)

lemma to_size_int32 [simp]: "n < 2 ^ 31 \<Longrightarrow> to_size (to_int32 n) = n"
  by (auto simp: to_size_def to_int32_def Let_def)

lemma UType_of_int [simp]: "UType_of (UType_int t) = t"
  by (cases t) (simp_all add: UType_of_def)

lemma ErrorCode_of_int [simp]: "ErrorCode_of (ErrorCode_int c) = Some (Code c)"
  by (cases c) (simp_all add: ErrorCode_of_def error_codes_def)

lemma ErrorCode_of_0 [simp]: "ErrorCode_of 0 = None"
  by (simp add: ErrorCode_of_def)

lemma digest_fields: "digest h \<Longrightarrow> \<exists>p. h = Some p \<and> set_hash h = Some p \<and> Hash_of p = Some (Some p)"
  by (auto simp: digest_def set_hash_def Hash_of_def rd_bytes_def)

definition value_ok :: "val \<Rightarrow> bool" where
  "value_ok v \<longleftrightarrow> (val_base v = None \<or> digest (val_base v)) \<and> val_pos v < 2 ^ 64 \<and> val_dels v < 2 ^ 31"

lemma value_roundtrip:
  assumes "value_ok v"
  obtains p where "FillValuePayload v = Some p" and "ValueFromRequest p = Some v"
proof (cases "val_base v = None")
  case True
  then show thesis using assms that by (simp add: FillValuePayload_def ValueFromRequest_def value_ok_def)
next
  case False
  then obtain p where "val_base v = Some p" "set_hash (val_base v) = Some p" "Hash_of p = Some (Some p)"
    using assms digest_fields[of "val_base v"] by (auto simp: value_ok_def)
  then show thesis using assms that by (simp add: FillValuePayload_def ValueFromRequest_def value_ok_def)
qed

section \<open>Calls of the worker\<close>

text \<open>The functions of the interface on the worker itself.\<close>

definition reads :: "('a \<Rightarrow> db_result) \<Rightarrow> (ErrorCode + 'a) option \<Rightarrow> worker \<Rightarrow> ((ErrorCode + db_result) \<times> worker) option" where
  "reads f r w = map_option (\<lambda>x. (map_sum id f x, w)) r"

definition writes :: "((ErrorCode + hash) \<times> worker) option \<Rightarrow> ((ErrorCode + db_result) \<times> worker) option" where
  "writes r = map_option (\<lambda>(x, w). (map_sum id R_version x, w)) r"

definition edits :: "(ErrorCode option \<times> worker) option \<Rightarrow> ((ErrorCode + db_result) \<times> worker) option" where
  "edits r = map_option (\<lambda>(x, w). (case x of Some ec \<Rightarrow> Inl ec | None \<Rightarrow> Inr R_none, w)) r"

fun worker_call :: "env \<Rightarrow> db_call \<Rightarrow> worker \<Rightarrow> ((ErrorCode + db_result) \<times> worker) option" where
  "worker_call e (Call_Put_ver key v pre) w = writes (Put_ver e key v pre w)"
| "worker_call e (Call_Put key v branch) w = writes (Put e key v branch w)"
| "worker_call e (Call_Get key branch) w = reads R_cell (Get key branch w) w"
| "worker_call e (Call_Get_ver key ver) w = reads R_cell (Get_ver key ver w) w"
| "worker_call e (Call_Branch key old new) w = edits (Branch key old new w)"
| "worker_call e (Call_Branch_ver key ver new) w = edits (Branch_ver key ver new w)"
| "worker_call e (Call_Rename key old new) w = edits (Rename key old new w)"
| "worker_call e (Call_Merge key v tgt ref) w = writes (Merge e key v tgt ref w)"
| "worker_call e (Call_Merge_branch_ver key v tgt ver) w = writes (Merge_branch_ver e key v tgt ver w)"
| "worker_call e (Call_Merge_vers key v ver1 ver2) w = writes (Merge_vers e key v ver1 ver2 w)"
| "worker_call e (Call_ListBranches key) w = Some (Inr (R_strings (ListBranch (wk_head w) key)), w)"
| "worker_call e (Call_Exists key) w = Some (Inr (R_bool (Exists_key (wk_head w) key)), w)"
| "worker_call e (Call_Exists_branch key branch) w = Some (Inr (R_bool (Exists_branch (wk_head w) key branch)), w)"
| "worker_call e (Call_GetBranchHead key branch) w = reads R_version (Some (GetBranchHead key branch w)) w"
| "worker_call e (Call_IsBranchHead key branch ver) w = Some (Inr (R_bool (IsBranchHead (wk_head w) key branch ver)), w)"
| "worker_call e (Call_GetLatestVersions key) w = Some (Inr (R_versions (GetLatest (wk_head w) key)), w)"
| "worker_call e (Call_IsLatestVersion key ver) w = Some (Inr (R_bool (IsLatest (wk_head w) key ver)), w)"
| "worker_call e (Call_Delete key branch) w = edits (Delete key branch w)"
| "worker_call e (Call_PutUnkeyed key v) w =
     writes (map_option (\<lambda>(r, st). (r, w\<lparr>wk_store := st\<rparr>)) (PutUnkeyed e v (wk_store w)))"
| "worker_call e (Call_GetChunk key ver) w = reads R_chunk (GetChunk ver w) w"

text \<open>Arguments that fit into a message, and results that do.\<close>

fun call_ok :: "db_call \<Rightarrow> bool" where
  "call_ok (Call_Put_ver key v pre) \<longleftrightarrow> value_ok v \<and> digest pre"
| "call_ok (Call_Put key v branch) \<longleftrightarrow> value_ok v"
| "call_ok (Call_Get_ver key ver) \<longleftrightarrow> digest ver"
| "call_ok (Call_Branch_ver key ver new) \<longleftrightarrow> digest ver"
| "call_ok (Call_Merge key v tgt ref) \<longleftrightarrow> value_ok v"
| "call_ok (Call_Merge_branch_ver key v tgt ver) \<longleftrightarrow> value_ok v \<and> digest ver"
| "call_ok (Call_Merge_vers key v ver1 ver2) \<longleftrightarrow> value_ok v \<and> digest ver1 \<and> digest ver2"
| "call_ok (Call_IsBranchHead key branch ver) \<longleftrightarrow> digest ver"
| "call_ok (Call_IsLatestVersion key ver) \<longleftrightarrow> digest ver"
| "call_ok (Call_PutUnkeyed key v) \<longleftrightarrow> value_ok v"
| "call_ok (Call_GetChunk key ver) \<longleftrightarrow> digest ver"
| "call_ok _ \<longleftrightarrow> True"

definition whole_chunk :: "chunk \<Rightarrow> bool" where
  "whole_chunk c \<longleftrightarrow> chunk_numBytes c = Some (length c)"

fun result_ok :: "db_result \<Rightarrow> bool" where
  "result_ok (R_version h) \<longleftrightarrow> digest h"
| "result_ok (R_cell c) \<longleftrightarrow> whole_chunk c"
| "result_ok (R_chunk c) \<longleftrightarrow> whole_chunk c"
| "result_ok (R_versions hs) \<longleftrightarrow> (\<forall>h \<in> set hs. digest h)"
| "result_ok _ \<longleftrightarrow> True"

definition results_fit :: "((ErrorCode + db_result) \<times> worker) option \<Rightarrow> bool" where
  "results_fit r \<longleftrightarrow> (case r of Some (Inr x, w) \<Rightarrow> result_ok x | _ \<Rightarrow> True)"

section \<open>Responses read back\<close>

definition reply :: "UMessage \<Rightarrow> ResponsePayload \<Rightarrow> UMessage" where
  "reply m p = response_to m (Some p) None"

lemma stat_reply [simp]: "stat_of (reply m p) = ErrorCode_of (rp_stat p)" "response_payload (reply m p) = p"
  by (simp_all add: stat_of_def reply_def response_to_def response_payload_def)

lemma no_response_simps [simp]: "rp_stat no_response = 0" "rp_lvalue no_response = []"
  by (simp_all add: no_response_def)

lemma version_read:
  assumes "case r of Inr h \<Rightarrow> digest h | Inl _ \<Rightarrow> True"
  shows "\<exists>p. version_response r = Some p \<and> GetVersionResponse (reply m p) = Some (map_sum Code id r)"
  using assms digest_fields[of "projr r"]
  by (auto simp: version_response_def GetVersionResponse_def split: sum.splits)

lemma chunk_read:
  assumes "case r of Inr c \<Rightarrow> whole_chunk c | Inl _ \<Rightarrow> True"
  shows "\<exists>p. chunk_response r = Some p \<and> GetChunkResponse (reply m p) = Some (map_sum Code id r)"
  using assms by (auto simp: chunk_response_def GetChunkResponse_def whole_chunk_def rd_bytes_def split: sum.splits)

lemma cell_read:
  assumes "case r of Inr c \<Rightarrow> whole_chunk c \<and> UCell_of (Some c) = Some (Some c) | Inl _ \<Rightarrow> True"
  shows "\<exists>p. chunk_response r = Some p \<and> GetUCellResponse (reply m p) = Some (map_sum Code id r)"
  using assms by (auto simp: chunk_response_def GetUCellResponse_def whole_chunk_def rd_bytes_def split: sum.splits)

lemma empty_read:
  "GetEmptyResponse (reply m (empty_response r)) = Some (case r of Some ec \<Rightarrow> Inl (Code ec) | None \<Rightarrow> Inr ())"
  by (simp add: GetEmptyResponse_def empty_response_def split: option.split)

lemma bool_read: "GetBoolResponse (reply m (no_response\<lparr>rp_bvalue := b\<rparr>)) = Some (Inr b)"
  by (simp add: GetBoolResponse_def)

lemma strings_read: "GetStringListResponse (reply m (no_response\<lparr>rp_lvalue := ss\<rparr>)) vals = Some (Inr (vals @ ss))"
  by (simp add: GetStringListResponse_def)

lemma versions_read:
  assumes "\<forall>h \<in> set hs. digest h"
  shows "\<exists>ss. set_hashes hs = Some ss \<and> GetVersionListResponse (reply m (no_response\<lparr>rp_lvalue := ss\<rparr>)) vs = Some (Inr (vs @ hs))"
proof -
  have "\<exists>ss. set_hashes hs = Some ss \<and> hash_list ss = Some hs"
    using assms
  proof (induction hs)
    case (Cons h hs)
    then show ?case using digest_fields[of h] by auto
  qed simp
  then show ?thesis by (auto simp: GetVersionListResponse_def)
qed

lemma Get_ver_is_cell: "Get_ver key ver w = Some (Inr c) \<Longrightarrow> UCell_of (Some c) = Some (Some c)"
  by (auto simp: Get_ver_def UCell_Load_def UCell_of_def bind_eq_Some_conv split: option.splits if_splits)

lemma Get_is_cell: "Get key branch w = Some (Inr c) \<Longrightarrow> UCell_of (Some c) = Some (Some c)"
  by (auto simp: Get_def Let_def split: prod.splits if_splits dest: Get_ver_is_cell)

section \<open>A call\<close>

text \<open>What the service and the client together do with a call.\<close>

definition served :: "env \<Rightarrow> node_info \<Rightarrow> int \<Rightarrow> db_call \<Rightarrow> worker \<Rightarrow> ((client_error + db_result) \<times> worker) option" where
  "served e ni cid c w =
     do { m \<leftarrow> client_request c;
          (r, w) \<leftarrow> HandleRequest e ni (m\<lparr>um_source := cid\<rparr>) w;
          res \<leftarrow> client_result c r;
          Some (res, w) }"

definition as_client :: "((ErrorCode + db_result) \<times> worker) option \<Rightarrow> ((client_error + db_result) \<times> worker) option" where
  "as_client r = map_option (\<lambda>(x, w). (map_sum Code id x, w)) r"

lemmas request_simps = request_def new_message_def with_request_def request_payload_def value_payload_def
  no_request_def field_def CreatePutMessage_def CreateMergeMessage_def CreateGetMessage_def CreateBranchMessage_def

lemma served_writes:
  assumes "results_fit (writes R)"
    and "client_request c = Some m" and "\<And>r. client_result c r = result_of R_version (GetVersionResponse r)"
    and "HandleRequest e ni (m\<lparr>um_source := cid\<rparr>) w =
      do { (r, w) \<leftarrow> R; p \<leftarrow> version_response r; Some (reply (m\<lparr>um_source := cid\<rparr>) p, w) }"
  shows "served e ni cid c w = as_client (writes R)"
proof (cases R)
  case None
  then show ?thesis using assms by (simp add: served_def as_client_def writes_def)
next
  case (Some x)
  then obtain r w' where x: "R = Some (r, w')" by (cases x) auto
  have "case r of Inr h \<Rightarrow> digest h | Inl _ \<Rightarrow> True"
    using assms(1) x by (auto simp: results_fit_def writes_def split: sum.splits)
  from version_read[OF this, of "m\<lparr>um_source := cid\<rparr>"] obtain p where
    p: "version_response r = Some p" "GetVersionResponse (reply (m\<lparr>um_source := cid\<rparr>) p) = Some (map_sum Code id r)" by blast
  then show ?thesis using assms x
    by (cases r) (simp_all add: served_def as_client_def writes_def result_of_def)
qed

lemma served_edits:
  assumes "client_request c = Some m" and "\<And>r. client_result c r = result_of (\<lambda>_. R_none) (GetEmptyResponse r)"
    and "HandleRequest e ni (m\<lparr>um_source := cid\<rparr>) w =
      do { (r, w) \<leftarrow> R; Some (reply (m\<lparr>um_source := cid\<rparr>) (empty_response r), w) }"
  shows "served e ni cid c w = as_client (edits R)"
  using assms by (cases R) (auto simp: served_def as_client_def edits_def result_of_def empty_read split: option.split)

lemma served_cell:
  assumes "results_fit (reads R_cell R w)" and "\<And>c. R = Some (Inr c) \<Longrightarrow> UCell_of (Some c) = Some (Some c)"
    and "client_request c = Some m" and "\<And>r. client_result c r = result_of R_cell (GetUCellResponse r)"
    and "HandleRequest e ni (m\<lparr>um_source := cid\<rparr>) w =
      do { r \<leftarrow> R; p \<leftarrow> chunk_response r; Some (reply (m\<lparr>um_source := cid\<rparr>) p, w) }"
  shows "served e ni cid c w = as_client (reads R_cell R w)"
proof (cases R)
  case None
  then show ?thesis using assms by (simp add: served_def as_client_def reads_def)
next
  case (Some r)
  have "case r of Inr c \<Rightarrow> whole_chunk c \<and> UCell_of (Some c) = Some (Some c) | Inl _ \<Rightarrow> True"
    using assms(1,2) Some by (auto simp: results_fit_def reads_def split: sum.splits)
  from cell_read[OF this, of "m\<lparr>um_source := cid\<rparr>"] obtain p where
    p: "chunk_response r = Some p" "GetUCellResponse (reply (m\<lparr>um_source := cid\<rparr>) p) = Some (map_sum Code id r)" by blast
  then show ?thesis using assms(3-) Some
    by (cases r) (simp_all add: served_def as_client_def reads_def result_of_def)
qed

lemma reply_fold: "response_to m (Some p) None = reply m p"
  by (simp add: reply_def)

lemma request_source [simp]: "request_payload (m\<lparr>um_source := i\<rparr>) = request_payload m" "value_payload (m\<lparr>um_source := i\<rparr>) = value_payload m"
  by (simp_all add: request_payload_def value_payload_def)

lemma digest_some:
  assumes "digest h"
  obtains p where "h = Some p" and "set_hash (Some p) = Some p" and "Hash_of p = Some (Some p)"
  using digest_fields[OF assms] by auto

lemmas handlers = HandleRequest_def HandlePutRequest_def HandleMergeRequest_def HandleGetRequest_def HandleBranchRequest_def
  HandleRenameRequest_def HandleDeleteRequest_def HandlePutUnkeyedRequest_def HandleGetChunkRequest_def
  HandleListRequest_def HandleExistsRequest_def HandleGetBranchHeadRequest_def HandleIsBranchHeadRequest_def
  HandleGetLatestVersionRequest_def HandleIsLatestVersionRequest_def

lemma bind_pair_assoc:
  "Option.bind (case y of (r, w) \<Rightarrow> Option.bind (f r) (\<lambda>p. Some (p, w))) g =
   (case y of (r, w) \<Rightarrow> Option.bind (f r) (\<lambda>p. g (p, w)))"
  by (cases y) (simp split: Option.bind_split)

lemma served_put:
  assumes "value_ok v" and "results_fit (writes (Put e key v branch w))"
  shows "served e ni cid (Call_Put key v branch) w = as_client (writes (Put e key v branch w))"
proof -
  obtain p where p: "FillValuePayload v = Some p" "ValueFromRequest p = Some v" using value_roundtrip[OF assms(1)] .
  show ?thesis
    by (rule served_writes[OF assms(2), where m = "with_request (\<lambda>r. r\<lparr>rq_branch := Some branch\<rparr>)
          ((request PUT_REQUEST (no_request\<lparr>rq_key := Some key\<rparr>))\<lparr>um_value := Some p\<rparr>)"])
       (simp_all add: request_simps p handlers Let_def reply_fold bind_pair_assoc)
qed

lemma served_put_ver:
  assumes "value_ok v" and "digest pre" and "results_fit (writes (Put_ver e key v pre w))"
  shows "served e ni cid (Call_Put_ver key v pre) w = as_client (writes (Put_ver e key v pre w))"
proof -
  obtain p where p: "FillValuePayload v = Some p" "ValueFromRequest p = Some v" using value_roundtrip[OF assms(1)] .
  obtain h where h: "pre = Some h" "set_hash (Some h) = Some h" "Hash_of h = Some (Some h)" using digest_some[OF assms(2)] .
  show ?thesis
    by (rule served_writes[OF assms(3), where m = "with_request (\<lambda>r. r\<lparr>rq_version := Some h\<rparr>)
          ((request PUT_REQUEST (no_request\<lparr>rq_key := Some key\<rparr>))\<lparr>um_value := Some p\<rparr>)"])
       (simp_all add: request_simps p h handlers Let_def reply_fold bind_pair_assoc)
qed

lemma served_merge:
  assumes "value_ok v" and "results_fit (writes (Merge e key v tgt ref w))"
  shows "served e ni cid (Call_Merge key v tgt ref) w = as_client (writes (Merge e key v tgt ref w))"
proof -
  obtain p where p: "FillValuePayload v = Some p" "ValueFromRequest p = Some v" using value_roundtrip[OF assms(1)] .
  show ?thesis
    by (rule served_writes[OF assms(2), where m = "with_request (\<lambda>r. r\<lparr>rq_branch := Some tgt, rq_ref_branch := Some ref\<rparr>)
          ((request MERGE_REQUEST (no_request\<lparr>rq_key := Some key\<rparr>))\<lparr>um_value := Some p\<rparr>)"])
       (simp_all add: request_simps p handlers Let_def reply_fold bind_pair_assoc)
qed

lemma served_merge_branch_ver:
  assumes "value_ok v" and "digest ver" and "results_fit (writes (Merge_branch_ver e key v tgt ver w))"
  shows "served e ni cid (Call_Merge_branch_ver key v tgt ver) w = as_client (writes (Merge_branch_ver e key v tgt ver w))"
proof -
  obtain p where p: "FillValuePayload v = Some p" "ValueFromRequest p = Some v" using value_roundtrip[OF assms(1)] .
  obtain h where h: "ver = Some h" "set_hash (Some h) = Some h" "Hash_of h = Some (Some h)" using digest_some[OF assms(2)] .
  show ?thesis
    by (rule served_writes[OF assms(3), where m = "with_request (\<lambda>r. r\<lparr>rq_branch := Some tgt, rq_ref_version := Some h\<rparr>)
          ((request MERGE_REQUEST (no_request\<lparr>rq_key := Some key\<rparr>))\<lparr>um_value := Some p\<rparr>)"])
       (simp_all add: request_simps p h handlers Let_def reply_fold bind_pair_assoc)
qed

lemma served_merge_vers:
  assumes "value_ok v" and "digest ver1" and "digest ver2" and "results_fit (writes (Merge_vers e key v ver1 ver2 w))"
  shows "served e ni cid (Call_Merge_vers key v ver1 ver2) w = as_client (writes (Merge_vers e key v ver1 ver2 w))"
proof -
  obtain p where p: "FillValuePayload v = Some p" "ValueFromRequest p = Some v" using value_roundtrip[OF assms(1)] .
  obtain h where h: "ver1 = Some h" "set_hash (Some h) = Some h" "Hash_of h = Some (Some h)" using digest_some[OF assms(2)] .
  obtain k where k: "ver2 = Some k" "set_hash (Some k) = Some k" "Hash_of k = Some (Some k)" using digest_some[OF assms(3)] .
  show ?thesis
    by (rule served_writes[OF assms(4), where m = "with_request (\<lambda>r. r\<lparr>rq_version := Some h, rq_ref_version := Some k\<rparr>)
          ((request MERGE_REQUEST (no_request\<lparr>rq_key := Some key\<rparr>))\<lparr>um_value := Some p\<rparr>)"])
       (simp_all add: request_simps p h k handlers Let_def reply_fold bind_pair_assoc)
qed

lemma served_put_unkeyed:
  assumes "value_ok v" and "results_fit (worker_call e (Call_PutUnkeyed key v) w)"
  shows "served e ni cid (Call_PutUnkeyed key v) w = as_client (worker_call e (Call_PutUnkeyed key v) w)"
proof -
  obtain p where p: "FillValuePayload v = Some p" "ValueFromRequest p = Some v" using value_roundtrip[OF assms(1)] .
  show ?thesis unfolding worker_call.simps
    by (rule served_writes[OF assms(2)[unfolded worker_call.simps],
          where m = "(new_message PUT_UNKEYED_REQUEST)\<lparr>um_value := Some p\<rparr>"])
       (cases "PutUnkeyed e v (wk_store w)";
        simp add: request_simps p handlers Let_def reply_fold bind_pair_assoc case_prod_unfold)+
qed

lemma served_get:
  assumes "results_fit (reads R_cell (Get key branch w) w)"
  shows "served e ni cid (Call_Get key branch) w = as_client (reads R_cell (Get key branch w) w)"
  by (rule served_cell[OF assms Get_is_cell,
        where m = "with_request (\<lambda>r. r\<lparr>rq_branch := Some branch\<rparr>) (CreateGetMessage key)"])
     (simp_all add: request_simps handlers Let_def reply_fold bind_pair_assoc)

lemma served_get_ver:
  assumes "digest ver" and "results_fit (reads R_cell (Get_ver key ver w) w)"
  shows "served e ni cid (Call_Get_ver key ver) w = as_client (reads R_cell (Get_ver key ver w) w)"
proof -
  obtain h where h: "ver = Some h" "set_hash (Some h) = Some h" "Hash_of h = Some (Some h)" using digest_some[OF assms(1)] .
  show ?thesis
    by (rule served_cell[OF assms(2) Get_ver_is_cell,
          where m = "with_request (\<lambda>r. r\<lparr>rq_version := Some h\<rparr>) (CreateGetMessage key)"])
       (simp_all add: request_simps h handlers Let_def reply_fold bind_pair_assoc)
qed

lemma served_branch: "served e ni cid (Call_Branch key old new) w = as_client (edits (Branch key old new w))"
  by (rule served_edits[where m = "with_request (\<lambda>r. r\<lparr>rq_ref_branch := Some old\<rparr>) (CreateBranchMessage key new)"])
     (simp_all add: request_simps handlers Let_def reply_fold case_prod_unfold)

lemma served_branch_ver:
  assumes "digest ver"
  shows "served e ni cid (Call_Branch_ver key ver new) w = as_client (edits (Branch_ver key ver new w))"
proof -
  obtain h where h: "ver = Some h" "set_hash (Some h) = Some h" "Hash_of h = Some (Some h)" using digest_some[OF assms] .
  show ?thesis
    by (rule served_edits[where m = "with_request (\<lambda>r. r\<lparr>rq_ref_version := Some h\<rparr>) (CreateBranchMessage key new)"])
       (simp_all add: request_simps h handlers Let_def reply_fold case_prod_unfold)
qed

lemma served_rename: "served e ni cid (Call_Rename key old new) w = as_client (edits (Rename key old new w))"
  by (rule served_edits[where m = "request RENAME_REQUEST
        (no_request\<lparr>rq_key := Some key, rq_ref_branch := Some old, rq_branch := Some new\<rparr>)"])
     (simp_all add: request_simps handlers Let_def reply_fold case_prod_unfold)

lemma served_delete: "served e ni cid (Call_Delete key branch) w = as_client (edits (Delete key branch w))"
  by (rule served_edits[where m = "request DELETE_REQUEST (no_request\<lparr>rq_key := Some key, rq_branch := Some branch\<rparr>)"])
     (simp_all add: request_simps handlers Let_def reply_fold case_prod_unfold)

lemma served_head:
  assumes "results_fit (reads R_version (Some (GetBranchHead key branch w)) w)"
  shows "served e ni cid (Call_GetBranchHead key branch) w = as_client (reads R_version (Some (GetBranchHead key branch w)) w)"
proof -
  have *: "reads R_version (Some r) w = writes (Some (r, w))" for r by (simp add: reads_def writes_def)
  show ?thesis unfolding *
    by (rule served_writes[OF assms[unfolded *],
          where m = "request GET_BRANCH_HEAD_REQUEST (no_request\<lparr>rq_key := Some key, rq_branch := Some branch\<rparr>)"])
       (simp_all add: request_simps handlers Let_def reply_fold)
qed

lemma served_chunk:
  assumes "digest ver" and "results_fit (reads R_chunk (GetChunk ver w) w)"
  shows "served e ni cid (Call_GetChunk key ver) w = as_client (reads R_chunk (GetChunk ver w) w)"
proof -
  obtain h where h: "ver = Some h" "set_hash (Some h) = Some h" "Hash_of h = Some (Some h)" using digest_some[OF assms(1)] .
  show ?thesis
  proof (cases "GetChunk ver w")
    case None
    then show ?thesis
      using h by (simp add: served_def as_client_def reads_def request_simps handlers)
  next
    case (Some r)
    have fit: "case r of Inr c \<Rightarrow> whole_chunk c | Inl _ \<Rightarrow> True"
      using assms(2) Some by (auto simp: results_fit_def reads_def split: sum.splits)
    obtain p where "chunk_response r = Some p" "\<And>m. GetChunkResponse (reply m p) = Some (map_sum Code id r)"
      using chunk_read[OF fit] by (metis option.inject)
    then show ?thesis using h Some
      by (cases r) (simp_all add: served_def as_client_def reads_def result_of_def request_simps handlers reply_fold)
  qed
qed

lemma served_latest:
  assumes "\<forall>h \<in> set (GetLatest (wk_head w) key). digest h"
  shows "served e ni cid (Call_GetLatestVersions key) w =
    as_client (Some (Inr (R_versions (GetLatest (wk_head w) key)), w))"
proof -
  obtain ss where "set_hashes (GetLatest (wk_head w) key) = Some ss"
    "\<And>m. GetVersionListResponse (reply m (no_response\<lparr>rp_lvalue := ss\<rparr>)) [] = Some (Inr (GetLatest (wk_head w) key))"
    using versions_read[OF assms, of _ "[]"] by (metis option.inject append_Nil)
  then show ?thesis
    by (simp add: served_def as_client_def request_simps handlers reply_fold result_of_def)
qed

lemma served_flags:
  "served e ni cid (Call_ListBranches key) w = as_client (worker_call e (Call_ListBranches key) w)"
  "served e ni cid (Call_Exists key) w = as_client (worker_call e (Call_Exists key) w)"
  "served e ni cid (Call_Exists_branch key branch) w = as_client (worker_call e (Call_Exists_branch key branch) w)"
  "digest ver \<Longrightarrow> served e ni cid (Call_IsBranchHead key branch ver) w = as_client (worker_call e (Call_IsBranchHead key branch ver) w)"
  "digest ver \<Longrightarrow> served e ni cid (Call_IsLatestVersion key ver) w = as_client (worker_call e (Call_IsLatestVersion key ver) w)"
  using strings_read[of _ _ "[]"]
  by (auto elim!: digest_some simp: served_def as_client_def request_simps handlers reply_fold result_of_def bool_read Let_def)

lemma served_call:
  assumes "call_ok c" and "results_fit (worker_call e c w)"
  shows "served e ni cid c w = as_client (worker_call e c w)"
proof (cases c)
  case (Call_GetLatestVersions key)
  then have "\<forall>h \<in> set (GetLatest (wk_head w) key). digest h" using assms(2) by (simp add: results_fit_def)
  then show ?thesis using Call_GetLatestVersions by (simp add: served_latest)
qed (use assms in \<open>simp_all add: served_put served_put_ver served_merge served_merge_branch_ver served_merge_vers
       served_get served_get_ver served_branch served_branch_ver served_rename served_delete served_head served_chunk
       served_flags served_put_unkeyed[simplified]\<close>)

section \<open>Workers whose contents fit into messages\<close>

text \<open>The chunks of a store are under hashes of 20 bytes, and their length field is their length.\<close>

definition portable :: "loader \<Rightarrow> bool" where
  "portable st \<longleftrightarrow> (\<forall>h c. st h = Some c \<longrightarrow> length h = kByteLength \<and> whole_chunk c)"

lemma known_digest: "portable (wk_store w) \<Longrightarrow> known w ver \<Longrightarrow> digest ver"
  by (auto simp: portable_def known_def)

lemma head_digest: "worker_ok w \<Longrightarrow> portable (wk_store w) \<Longrightarrow> GetBranchHead key branch w = Inr ver \<Longrightarrow> digest ver"
  by (auto simp: GetBranchHead_def GetBranch_heads worker_ok_def split: option.splits if_splits dest!: known_digest)

lemma map_sum_InrE: "map_sum id f x = Inr z \<Longrightarrow> (\<And>y. x = Inr y \<Longrightarrow> z = f y \<Longrightarrow> P) \<Longrightarrow> P"
  by (cases x) auto

lemma results_fit_writes: "(\<And>h w. R = Some (Inr h, w) \<Longrightarrow> digest h) \<Longrightarrow> results_fit (writes R)"
  by (auto simp: results_fit_def writes_def split: option.splits sum.splits elim!: map_sum_InrE)

lemma results_fit_edits: "results_fit (edits R)"
  by (auto simp: results_fit_def edits_def split: option.splits)

lemma results_fit_reads: "(\<And>x. R = Some (Inr x) \<Longrightarrow> result_ok (f x)) \<Longrightarrow> results_fit (reads f R w)"
  by (auto simp: results_fit_def reads_def split: option.splits sum.splits elim!: map_sum_InrE)

lemma Get_ver_whole: "portable (wk_store w) \<Longrightarrow> Get_ver key ver w = Some (Inr c) \<Longrightarrow> whole_chunk c"
  by (auto simp: Get_ver_def UCell_Load_def UCell_of_def portable_def bind_eq_Some_conv split: option.splits if_splits)

lemma Get_whole: "portable (wk_store w) \<Longrightarrow> Get key branch w = Some (Inr c) \<Longrightarrow> whole_chunk c"
  by (auto simp: Get_def Let_def split: prod.splits if_splits dest: Get_ver_whole)

lemma GetChunk_whole: "portable (wk_store w) \<Longrightarrow> GetChunk ver w = Some (Inr c) \<Longrightarrow> whole_chunk c"
  by (auto simp: GetChunk_def portable_def bind_eq_Some_conv split: option.splits)

lemma GetLatest_digest:
  "worker_ok w \<Longrightarrow> portable (wk_store w) \<Longrightarrow> h \<in> set (GetLatest (wk_head w) key) \<Longrightarrow> digest h"
  by (rule known_digest[of w]) (auto simp: worker_ok_def IsLatest_def GetLatest_def split: option.splits)

lemma results_fit_call:
  assumes "digest_ok (e_hf e)" and "worker_ok w" and "portable (wk_store w)" and "call_ok c"
  shows "results_fit (worker_call e c w)"
proof (cases c)
  case (Call_PutUnkeyed key v)
  then show ?thesis using assms
    by (auto simp: value_ok_def intro!: results_fit_writes dest: PutUnkeyed_digest)
next
  case (Call_GetBranchHead key branch)
  then show ?thesis using assms by (auto intro!: results_fit_reads dest: head_digest)
next
  case (Call_GetLatestVersions key)
  then show ?thesis using assms by (auto simp: results_fit_def dest: GetLatest_digest)
qed (use assms in \<open>auto intro!: results_fit_writes results_fit_edits results_fit_reads
       dest: commit_digests Get_ver_whole Get_whole GetChunk_whole simp: results_fit_def[where r = "Some _"]\<close>)

section \<open>Over the network\<close>

text \<open>An example of a message library: a message is counted, and the number is the length of its bytes.\<close>

instance message_type :: countable
  by countable_datatype

type_synonym flat_message = "(message_type \<times> int) \<times> (bytes option \<times> bytes option \<times> bytes option \<times> bytes option \<times> bytes option) option \<times>
  (int \<times> bytes option \<times> int \<times> int \<times> bytes list \<times> bytes list \<times> bytes) option \<times> (int \<times> bytes \<times> bool \<times> bytes list) option \<times>
  ((bytes \<times> int \<times> int \<times> int \<times> int) \<times> (int \<times> int \<times> int \<times> int) \<times> int list \<times> int list \<times> int list) option"

definition ex_flat :: "UMessage \<Rightarrow> flat_message" where
  "ex_flat m = ((um_type m, um_source m),
     map_option (\<lambda>r. (rq_key r, rq_version r, rq_branch r, rq_ref_version r, rq_ref_branch r)) (um_request m),
     map_option (\<lambda>v. (vp_type v, vp_base v, vp_pos v, vp_dels v, vp_values v, vp_keys v, vp_ctx v)) (um_value m),
     map_option (\<lambda>r. (rp_stat r, rp_value r, rp_bvalue r, rp_lvalue r)) (um_response m),
     map_option (\<lambda>i. ((ip_node_id i, ip_chunks i, ip_chunk_bytes i, ip_valid_chunks i, ip_valid_chunk_bytes i),
       (ip_max_segments i, ip_alloc_segments i, ip_free_segments i, ip_used_segments i),
       ip_chunk_types i, ip_chunks_per_type i, ip_bytes_per_type i)) (um_info m))"

lemma ex_flat_inj: "inj ex_flat"
proof (rule injI)
  fix x y assume "ex_flat x = ex_flat y"
  then show "x = y"
    by (cases x; cases y) (auto simp: ex_flat_def map_option_case split: option.splits)
qed

definition ex_wire :: wire where
  "ex_wire = \<lparr>wire_ser = (\<lambda>m. replicate (to_nat (ex_flat m)) 0), wire_parse = (\<lambda>bs. inv ex_flat (from_nat (length bs)))\<rparr>"

lemma ex_wire_ok: "wire_ok ex_wire"
  by (simp add: wire_ok_def ex_wire_def inv_f_f[OF ex_flat_inj])

text \<open>C9. A call of a client of the cluster does what the same call does on the worker that the key is
  routed to, and leaves the other workers alone: it aborts when the worker does, and else gives the
  same result or the same error and leaves the worker in the same state.  This holds for every
  function of the interface whose arguments fit into a message, when the message library reads back
  what it writes and the contents of the worker fit into messages.\<close>

theorem remote_transparent:
  assumes "digest_ok (e_hf e)" and "wire_ok wr" and "call_ok c"
    and "call_dest (e_hf e) ptt dist c = Some d" and "d < length ws"
    and "worker_ok (ws ! d)" and "portable (wk_store (ws ! d))"
  shows "remote_call e wr ptt dist cid c nis ws =
    map_option (\<lambda>(r, w). (map_sum Code id r, ws[d := w])) (worker_call e c (ws ! d))"
proof -
  have "remote_call e wr ptt dist cid c nis ws =
      map_option (\<lambda>(r, w). (r, ws[d := w])) (served e (nis ! d) cid c (ws ! d))"
    using assms(2,4,5) by (auto simp: remote_call_def served_def wire_ok_def split: Option.bind_split)
  also have "\<dots> = map_option (\<lambda>(r, w). (r, ws[d := w])) (as_client (worker_call e c (ws ! d)))"
    using served_call[OF assms(3) results_fit_call[OF assms(1,6,7,3)]] by simp
  finally show ?thesis by (simp add: as_client_def option.map_comp comp_def case_prod_unfold)
qed

theorem remote_transparent_witness:
  "remote_call ex_env ex_wire \<lparr>ptt_id = -1, dest_list = [[48], [50]]\<rparr> False 3
     (Call_Put [1] (string_val [7, 8] []) [2]) [] [no_data, no_data] =
     Some (Inr (R_version (Some (ex_hf ex_cell))), [ex_worker, no_data])"
proof -
  have d: "call_dest ex_hf \<lparr>ptt_id = -1, dest_list = [[48], [50]]\<rparr> False (Call_Put [1] (string_val [7, 8] []) [2]) = Some 0"
    by code_simp
  show ?thesis
    using remote_transparent[of ex_env ex_wire "Call_Put [1] (string_val [7, 8] []) [2]" "\<lparr>ptt_id = -1, dest_list = [[48], [50]]\<rparr>"
        False 0 "[no_data, no_data]" 3 "[]"] d ex_hf_digest ex_wire_ok ex_put worker_ok_no_data
    by (simp add: ex_env_def value_ok_def string_val_def portable_def no_data_def[THEN arg_cong[of _ _ wk_store]] writes_def)
qed

text \<open>C36. Putting a stream on a version.  The function takes the version to put on and the place for the
  new version, and reads the second: when that is empty, as it is in a new \<open>Hash\<close>, the process stops,
  whatever version it was asked to put on.\<close>

theorem stream_put_aborts:
  "Put_stream_ver hf (\<lambda>c ws. remote_call e wr ptt dist cid c nis ws) key v data pre_version None ws = None"
proof -
  have "remote_call e wr ptt dist cid (Call_Put_ver key x None) nis ws = None" for x
    by (cases "CreatePutMessage key x") (simp_all add: remote_call_def set_hash_def)
  then show ?thesis by (subst Put_stream_ver_def, subst split_and_put.simps) (simp add: part_base_def Let_def)
qed

end
