(* ===== verification/Chunk_Cluster.thy ===== *)
theory Chunk_Cluster
  imports Chunk_Access Lst_Runs Remote
begin

text \<open>
  The stores of the nodes of a cluster act as one store, and what the caches of loaders do to that.
\<close>

section \<open>What a store promises\<close>

text \<open>The contract of a store: \<open>sok\<close> holds of its states, \<open>fits\<close> of the hashes and chunks that may be
  put, \<open>quiet\<close> of the steps that it makes by itself.  The first chunk under a hash stays.  The
  argument \<open>'n\<close> of \<open>put\<close> is whoever writes.\<close>

locale chunk_store =
  fixes get :: "bytes \<Rightarrow> 's \<Rightarrow> chunk option" and put :: "'n \<Rightarrow> bytes \<Rightarrow> chunk \<Rightarrow> 's \<Rightarrow> (bool \<times> 's) option"
    and quiet :: "'s \<Rightarrow> 's \<Rightarrow> bool" and sok :: "'s \<Rightarrow> bool" and fits :: "bytes \<Rightarrow> chunk \<Rightarrow> bool"
  assumes put_inv: "sok s \<Longrightarrow> fits h c \<Longrightarrow> put n h c s = Some (ok, s') \<Longrightarrow> ok \<and> sok s'"
    and put_get: "sok s \<Longrightarrow> fits h c \<Longrightarrow> put n h c s = Some (ok, s') \<Longrightarrow>
      get h' s' = (if h' = h \<and> get h s = None then Some c else get h' s)"
    and quiet_inv: "sok s \<Longrightarrow> quiet s s' \<Longrightarrow> sok s'"
    and quiet_get: "sok s \<Longrightarrow> quiet s s' \<Longrightarrow> get h s' = get h s"
    and get_fits: "sok s \<Longrightarrow> get h s = Some c \<Longrightarrow> fits h c"
    and fits_digest: "fits h c \<Longrightarrow> length h = kByteLength"
    and fits_whole: "fits h c \<Longrightarrow> whole_chunk c"
begin

lemma put_keeps: "sok s \<Longrightarrow> fits h c \<Longrightarrow> put n h c s = Some (ok, s') \<Longrightarrow> get h' s = Some d \<Longrightarrow> get h' s' = Some d"
  by (auto simp: put_get)

end

definition lst_ok :: "(bytes \<Rightarrow> bytes) \<Rightarrow> nat \<Rightarrow> lst_store \<Rightarrow> bool" where
  "lst_ok hf mx s \<longleftrightarrow> (\<exists>cs. holds_log hf mx s cs)"

text \<open>The steps that a log-structured store makes by itself: the log is enlarged, or the process is
  restarted.\<close>

definition lst_quiet :: "(bytes \<Rightarrow> bytes) \<Rightarrow> nat \<Rightarrow> lst_store \<Rightarrow> lst_store \<Rightarrow> bool" where
  "lst_quiet hf mx s s' \<longleftrightarrow> lst_status s = kScheduled \<and> Enlarge mx s = Some s' \<or>
     MmapUstoreLogFile hf mx True (Some (lst_size s, lst_image s)) = Some s'"

definition lst_fits :: "(bytes \<Rightarrow> bytes) \<Rightarrow> bytes \<Rightarrow> chunk \<Rightarrow> bool" where
  "lst_fits hf h c \<longleftrightarrow> digest_ok hf \<and> h = hf c \<and> storable c"

lemma storable_whole: "storable c \<Longrightarrow> whole_chunk c"
  by (simp add: storable_def whole_chunk_def chunk_numBytes_def rd_def rd_bytes_def kMetaLength_def)

lemma find_log_put: "find (\<lambda>d. hf d = h) (log_put hf c cs) =
    (if h = hf c \<and> find (\<lambda>d. hf d = h) cs = None then Some c else find (\<lambda>d. hf d = h) cs)"
proof (cases "\<exists>d \<in> set cs. hf d = hf c")
  case True
  then show ?thesis by (auto simp: log_put_def find_None_iff)
next
  case False
  then have "find (\<lambda>d. hf d = hf c) cs = None" by (simp add: find_None_iff)
  with False show ?thesis by (auto simp: log_put_def find_append split: option.split)
qed

lemma lst_quiet_holds: "holds_log hf mx s cs \<Longrightarrow> lst_quiet hf mx s s' \<Longrightarrow> holds_log hf mx s' cs"
  unfolding lst_quiet_def by (metis holds_log_enlarge holds_log_reopen option.sel)

interpretation lst: chunk_store LST_Get "\<lambda>_ :: unit. st_Put (lst_if mx)" "lst_quiet hf mx" "lst_ok hf mx" "lst_fits hf"
proof
  fix s h c s' ok and n :: unit and h'
  assume s: "lst_ok hf mx s" and c: "lst_fits hf h c" and p: "st_Put (lst_if mx) h c s = Some (ok, s')"
  then obtain cs where cs: "holds_log hf mx s cs" "h = hf c" "storable c" "ok" "LST_Put mx (hf c) c s = Some s'"
    by (auto simp: lst_ok_def lst_fits_def lst_if_def)
  note put = LST_Put_cases(2)[OF cs(1,3,5)]
  show "ok \<and> lst_ok hf mx s'" using put cs by (auto simp: lst_ok_def)
  show "LST_Get h' s' = (if h' = h \<and> LST_Get h s = None then Some c else LST_Get h' s)"
    using cs(2) by (auto simp: holds_log_get[OF put] holds_log_get[OF cs(1)] find_log_put)
next
  fix s s' h
  assume "lst_ok hf mx s" and q: "lst_quiet hf mx s s'"
  then obtain cs where cs: "holds_log hf mx s cs" by (auto simp: lst_ok_def)
  from lst_quiet_holds[OF cs q] show "lst_ok hf mx s'" and "LST_Get h s' = LST_Get h s"
    using cs by (auto simp: lst_ok_def holds_log_get)
next
  fix s h c
  assume "lst_ok hf mx s" and g: "LST_Get h s = Some c"
  then obtain cs where cs: "holds_log hf mx s cs" by (auto simp: lst_ok_def)
  with g have "c \<in> set cs" "hf c = h" by (auto simp: holds_log_get find_Some_iff)
  then show "lst_fits hf h c" using holds_log_storable[OF cs] holds_log_used[OF cs] by (auto simp: lst_fits_def)
qed (auto simp: lst_fits_def storable_whole)

section \<open>The nodes of a cluster\<close>

text \<open>All nodes read the same file of hosts; a node is given by its number.\<close>

definition node_ptt :: "bytes list \<Rightarrow> int \<Rightarrow> partitioner" where
  "node_ptt hosts n = \<lparr>ptt_id = n, dest_list = hosts\<rparr>"

lemma node_ptt_id [simp]: "ptt_id (node_ptt hosts n) = n"
  by (simp add: node_ptt_def)

definition owner :: "bytes list \<Rightarrow> bytes \<Rightarrow> nat option" where
  "owner hosts h = GetDestId (node_ptt hosts 0) (Some h)"

lemma GetDestId_owner: "GetDestId (node_ptt hosts n) (Some h) = owner hosts h"
  by (simp add: owner_def GetDestId_def node_ptt_def)

lemma owner_bound:
  assumes "length h = kByteLength" and "hosts \<noteq> []"
  obtains d where "owner hosts h = Some d" and "d < length hosts"
  using assms by (cases "length hosts = 1")
    (auto simp: owner_def GetDestId_def node_ptt_def rd_def rd_bytes_def kByteLength_def)

text \<open>The contents of the cluster: each hash is looked up at the node that owns it.\<close>

definition cluster_get :: "'s chunk_store_if \<Rightarrow> bytes list \<Rightarrow> bytes \<Rightarrow> 's list \<Rightarrow> chunk option" where
  "cluster_get st hosts h ss = (case owner hosts h of None \<Rightarrow> None | Some d \<Rightarrow> if d < length ss then st_Get st h (ss ! d) else None)"

definition cluster_put :: "'s chunk_store_if \<Rightarrow> wire \<Rightarrow> bytes list \<Rightarrow> int \<times> int \<Rightarrow> bytes \<Rightarrow> chunk \<Rightarrow> 's list \<Rightarrow> (bool \<times> 's list) option" where
  "cluster_put st wr hosts who h c ss = (case who of (n, cid) \<Rightarrow> PartitionedChunkWriter_Write st wr (node_ptt hosts n) cid h c ss)"

lemma chunk_message: "length h = kByteLength \<Longrightarrow> CreateChunkMessage t (Some h) = Some (request t (no_request\<lparr>rq_version := Some h\<rparr>))"
  by (simp add: CreateChunkMessage_def set_hash_def rd_bytes_def)

lemma hash_field: "length h = kByteLength \<Longrightarrow> Hash_of (field (Some h)) = Some (Some h)"
  by (simp add: Hash_of_def field_def rd_bytes_def)

lemma remote_get:
  assumes "wire_ok wr" and "length h = kByteLength" and "owner hosts h = Some d" and "d < length ss"
    and "\<And>c. st_Get st h (ss ! d) = Some c \<Longrightarrow> whole_chunk c"
  shows "ChunkClient_Get st wr (node_ptt hosts n) cid (Some h) ss =
    Some (case st_Get st h (ss ! d) of None \<Rightarrow> Inl (Code kChunkNotExists) | Some c \<Rightarrow> Inr c, ss)"
proof -
  let ?r = "case st_Get st h (ss ! d) of None \<Rightarrow> Inl kChunkNotExists | Some c \<Rightarrow> Inr c"
  let ?m = "(request GET_CHUNK_REQUEST (no_request\<lparr>rq_version := Some h\<rparr>))\<lparr>um_source := cid\<rparr>"
  have "case ?r of Inr c \<Rightarrow> whole_chunk c | Inl _ \<Rightarrow> True" using assms(5) by (simp split: option.split)
  from chunk_read[OF this, of ?m] obtain p where
    p: "chunk_response ?r = Some p" "GetChunkResponse (reply ?m p) = Some (map_sum Code id ?r)" by blast
  have "HandleRequest_chunk st ?m (ss ! d) = Some (reply ?m p, ss ! d)"
    using p(1) assms(2) by (simp add: HandleRequest_chunk_def HandleGetChunkRequest_service_def request_simps hash_field[unfolded field_def, simplified] reply_def)
  then have "chunk_send st wr cid (request GET_CHUNK_REQUEST (no_request\<lparr>rq_version := Some h\<rparr>)) d ss = Some (reply ?m p, ss)"
    using assms(1,4) by (simp add: chunk_send_def wire_ok_def)
  then show ?thesis using p(2) assms(2,3)
    by (simp add: ChunkClient_Get_def chunk_message GetDestId_owner split: option.split)
qed

lemma remote_put:
  assumes "wire_ok wr" and "length h = kByteLength" and "owner hosts h = Some d" and "d < length ss" and "whole_chunk c"
  shows "ChunkClient_Put st wr (node_ptt hosts n) cid (Some h) c ss =
    map_option (\<lambda>(ok, s). (if ok then Inr () else Inl (Code kFailedCreateChunk), ss[d := s])) (st_Put st h c (ss ! d))"
proof -
  let ?m = "(request PUT_CHUNK_REQUEST (no_request\<lparr>rq_version := Some h\<rparr>))\<lparr>um_value := Some (no_value\<lparr>vp_base := Some c\<rparr>)\<rparr>"
  let ?p = "\<lambda>ok. if ok then no_response else no_response\<lparr>rp_stat := ErrorCode_int kFailedCreateChunk\<rparr>"
  have c: "chunk_numBytes c = Some (length c)" "rd_bytes (length c) c 0 = Some c"
    using assms(5) by (simp_all add: whole_chunk_def rd_bytes_def)
  have "chunk_send st wr cid ?m d ss =
      map_option (\<lambda>(ok, s). (reply (?m\<lparr>um_source := cid\<rparr>) (?p ok), ss[d := s])) (st_Put st h c (ss ! d))"
    using assms(1,2,4) hash_field[OF assms(2)]
    by (cases "st_Put st h c (ss ! d)")
       (auto simp: chunk_send_def wire_ok_def HandleRequest_chunk_def HandlePutChunkRequest_def request_simps reply_def Let_def)
  then show ?thesis using assms(2,3) c ErrorCode_of_int[of kFailedCreateChunk]
    by (cases "st_Put st h c (ss ! d)")
       (auto simp: ChunkClient_Put_def chunk_message GetDestId_owner GetEmptyResponse_def)
qed

lemma partitioned_get:
  assumes "wire_ok wr" and "length h = kByteLength" and "owner hosts h = Some d" and "d < length ss"
    and "\<And>c. st_Get st h (ss ! d) = Some c \<Longrightarrow> whole_chunk c"
  shows "PartitionedChunkLoader_GetChunk st wr (node_ptt hosts n) cid ss h =
    (case cluster_get st hosts h ss of Some c \<Rightarrow> Some (Some c) | None \<Rightarrow> if int d = n then Some None else None)"
  using remote_get[OF assms(1-4), of st n cid] assms(3-5)
  by (auto simp: PartitionedChunkLoader_GetChunk_def GetDestId_owner cluster_get_def nth_opt_def split: option.split)

lemma partitioned_put_eq:
  assumes "wire_ok wr" and "length h = kByteLength" and "owner hosts h = Some d" and "d < length ss" and "whole_chunk c"
  shows "PartitionedChunkWriter_Write st wr (node_ptt hosts n) cid h c ss =
    do { (ok, s) \<leftarrow> st_Put st h c (ss ! d); if ok \<or> int d = n then Some (ok, ss[d := s]) else None }"
  using remote_put[OF assms, of st n cid] assms(3,4)
  by (cases "st_Put st h c (ss ! d)") (simp_all add: PartitionedChunkWriter_Write_def GetDestId_owner nth_opt_def split: prod.split)

lemma partitioned_put:
  assumes "wire_ok wr" and "length h = kByteLength" and "owner hosts h = Some d" and "d < length ss" and "whole_chunk c"
    and "PartitionedChunkWriter_Write st wr (node_ptt hosts n) cid h c ss = Some (ok, ss')"
  obtains s where "st_Put st h c (ss ! d) = Some (ok, s)" and "ss' = ss[d := s]"
  using assms(6) that unfolding partitioned_put_eq[OF assms(1-5)] by (auto simp: bind_eq_Some_conv split: if_splits)

definition nodes_ok :: "('s \<Rightarrow> bool) \<Rightarrow> bytes list \<Rightarrow> 's list \<Rightarrow> bool" where
  "nodes_ok sok hosts ss \<longleftrightarrow> length ss = length hosts \<and> (\<forall>s \<in> set ss. sok s)"

definition nodes_quiet :: "('s \<Rightarrow> 's \<Rightarrow> bool) \<Rightarrow> 's list \<Rightarrow> 's list \<Rightarrow> bool" where
  "nodes_quiet quiet ss ss' \<longleftrightarrow> (\<exists>d s. d < length ss \<and> quiet (ss ! d) s \<and> ss' = ss[d := s])"

lemma nodes_ok_upd: "nodes_ok sok hosts ss \<Longrightarrow> sok s \<Longrightarrow> nodes_ok sok hosts (ss[d := s])"
  by (auto simp: nodes_ok_def dest: set_update_subset_insert[THEN subsetD])

lemma nodes_ok_nth: "nodes_ok sok hosts ss \<Longrightarrow> d < length hosts \<Longrightarrow> sok (ss ! d)"
  by (auto simp: nodes_ok_def)

locale cluster = node: chunk_store "st_Get st" "\<lambda>_ :: unit. st_Put st" quiet sok fits
  for st :: "'s chunk_store_if" and quiet sok fits +
  fixes wr :: wire and hosts :: "bytes list"
  assumes wire: "wire_ok wr" and hosts: "hosts \<noteq> []"

sublocale cluster \<subseteq> all: chunk_store "cluster_get st hosts" "cluster_put st wr hosts" "nodes_quiet quiet" "nodes_ok sok hosts" fits
proof
  fix ss h c ss' ok and n :: "int \<times> int" and h'
  assume ss: "nodes_ok sok hosts ss" and c: "fits h c" and p: "cluster_put st wr hosts n h c ss = Some (ok, ss')"
  from owner_bound[OF node.fits_digest[OF c] hosts] obtain d where d: "owner hosts h = Some d" "d < length hosts" .
  then have len: "d < length ss" using ss by (simp add: nodes_ok_def)
  obtain s where s: "st_Put st h c (ss ! d) = Some (ok, s)" "ss' = ss[d := s]"
    using partitioned_put[OF wire node.fits_digest[OF c] d(1) len node.fits_whole[OF c], of st "fst n" "snd n"] p
    by (auto simp: cluster_put_def case_prod_unfold)
  note i = nodes_ok_nth[OF ss d(2)]
  show "ok \<and> nodes_ok sok hosts ss'" using node.put_inv[OF i c s(1)] ss s(2) by (simp add: nodes_ok_upd)
  show "cluster_get st hosts h' ss' = (if h' = h \<and> cluster_get st hosts h ss = None then Some c else cluster_get st hosts h' ss)"
    using node.put_get[OF i c s(1)] s(2) len d(1)
    by (auto simp: cluster_get_def nth_list_update split: option.splits)
next
  fix ss ss' h
  assume ss: "nodes_ok sok hosts ss" and "nodes_quiet quiet ss ss'"
  then obtain d s where d: "d < length ss" "quiet (ss ! d) s" "ss' = ss[d := s]" by (auto simp: nodes_quiet_def)
  then have i: "sok (ss ! d)" using ss by (auto simp: nodes_ok_def)
  show "nodes_ok sok hosts ss'" using node.quiet_inv[OF i d(2)] ss d(3) by (simp add: nodes_ok_upd)
  show "cluster_get st hosts h ss' = cluster_get st hosts h ss"
    using node.quiet_get[OF i d(2)] d by (auto simp: cluster_get_def nth_list_update split: option.splits)
next
  fix ss h c
  assume "nodes_ok sok hosts ss" and "cluster_get st hosts h ss = Some c"
  then show "fits h c"
    by (auto simp: cluster_get_def nodes_ok_def split: option.splits if_splits dest!: node.get_fits)
qed (auto dest: node.fits_digest node.fits_whole)

section \<open>Runs with caches\<close>

text \<open>What can happen in a cluster: any node writes a chunk, any node loads a chunk through its loader,
  and a store makes a step by itself.  The list is what has been written.  The number of the client
  that a node uses is arbitrary.\<close>

inductive cluster_run :: "'s chunk_store_if \<Rightarrow> wire \<Rightarrow> bytes list \<Rightarrow> ('s \<Rightarrow> 's \<Rightarrow> bool) \<Rightarrow> (bytes \<Rightarrow> chunk \<Rightarrow> bool) \<Rightarrow> 's list \<Rightarrow>
    's list \<Rightarrow> (int \<Rightarrow> cache) \<Rightarrow> (bytes \<times> chunk) list \<Rightarrow> bool" for st wr hosts quiet fits ss0 where
  run_start: "cluster_run st wr hosts quiet fits ss0 ss0 (\<lambda>_. Map.empty) []"
| run_write: "cluster_run st wr hosts quiet fits ss0 ss caches ws \<Longrightarrow> fits h c \<Longrightarrow>
    PartitionedChunkWriter_Write st wr (node_ptt hosts n) cid h c ss = Some (ok, ss') \<Longrightarrow>
    cluster_run st wr hosts quiet fits ss0 ss' caches (ws @ [(h, c)])"
| run_load: "cluster_run st wr hosts quiet fits ss0 ss caches ws \<Longrightarrow> length h = kByteLength \<Longrightarrow>
    Load_chunk (PartitionedChunkLoader_GetChunk st wr (node_ptt hosts n) cid ss) (Some h) (caches n) = Some (r, cache') \<Longrightarrow>
    cluster_run st wr hosts quiet fits ss0 ss (caches(n := cache')) ws"
| run_quiet: "cluster_run st wr hosts quiet fits ss0 ss caches ws \<Longrightarrow> nodes_quiet quiet ss ss' \<Longrightarrow>
    cluster_run st wr hosts quiet fits ss0 ss' caches ws"

definition caches_ok :: "(int \<Rightarrow> cache) \<Rightarrow> (bytes \<times> chunk) list \<Rightarrow> bool" where
  "caches_ok caches ws \<longleftrightarrow> (\<forall>n h c. caches n h = Some (Some c) \<longrightarrow> map_of ws h = Some c)"

lemma map_of_snoc: "map_of (ws @ [(h, c)]) h' = (if h' = h \<and> map_of ws h = None then Some c else map_of ws h')"
  by (auto simp: map_add_def split: option.split)

lemma caches_ok_snoc: "caches_ok caches ws \<Longrightarrow> caches_ok caches (ws @ [x])"
  by (cases x) (auto simp: caches_ok_def map_of_snoc simp del: map_of_append)

context cluster
begin

lemma fetch_eq:
  assumes "nodes_ok sok hosts ss" and "length h = kByteLength"
  shows "\<exists>d. owner hosts h = Some d \<and> (\<forall>n cid. PartitionedChunkLoader_GetChunk st wr (node_ptt hosts n) cid ss h =
    (case cluster_get st hosts h ss of Some c \<Rightarrow> Some (Some c) | None \<Rightarrow> if int d = n then Some None else None))"
proof -
  from owner_bound[OF assms(2) hosts] obtain d where d: "owner hosts h = Some d" "d < length hosts" .
  have "whole_chunk c" if "st_Get st h (ss ! d) = Some c" for c
    using node.fits_whole[OF node.get_fits[OF nodes_ok_nth[OF assms(1) d(2)] that]] .
  then show ?thesis
    using d(1) partitioned_get[OF wire assms(2) d(1), of ss st] assms(1) d(2) by (simp add: nodes_ok_def)
qed

lemma fetch_sound:
  assumes "nodes_ok sok hosts ss" and "length h = kByteLength"
    and "PartitionedChunkLoader_GetChunk st wr (node_ptt hosts n) cid ss h = Some (Some c)"
  shows "cluster_get st hosts h ss = Some c"
  using fetch_eq[OF assms(1,2)] assms(3) by (force split: option.splits if_splits)

lemma run_inv:
  assumes "cluster_run st wr hosts quiet fits ss0 ss caches ws"
    and "nodes_ok sok hosts ss0" and "\<And>h. cluster_get st hosts h ss0 = None"
  shows "nodes_ok sok hosts ss \<and> (\<forall>h. cluster_get st hosts h ss = map_of ws h) \<and> caches_ok caches ws \<and>
    (\<forall>(h, c) \<in> set ws. fits h c)"
  using assms(1)
proof induction
  case run_start
  then show ?case using assms(2,3) by (simp add: caches_ok_def)
next
  case (run_write ss caches ws h c n cid ok ss')
  then have p: "cluster_put st wr hosts (n, cid) h c ss = Some (ok, ss')" by (simp add: cluster_put_def)
  with run_write all.put_inv[OF _ run_write.hyps(2) p] all.put_get[OF _ run_write.hyps(2) p] show ?case
    by (auto simp: map_of_snoc caches_ok_snoc simp del: map_of_append)
next
  case (run_load ss caches ws h n cid r cache')
  have "nodes_ok sok hosts ss" using run_load.IH by simp
  from fetch_sound[OF this run_load.hyps(2), of n cid] run_load show ?case
    by (auto simp: caches_ok_def Load_chunk_def bind_eq_Some_conv split: option.splits if_splits)
next
  case (run_quiet ss caches ws ss')
  then show ?case using all.quiet_inv all.quiet_get by auto
qed

lemma run_load_result:
  assumes "cluster_run st wr hosts quiet fits ss0 ss caches ws"
    and "nodes_ok sok hosts ss0" and "\<And>h. cluster_get st hosts h ss0 = None" and "length h = kByteLength"
  shows "map_option fst (Load_chunk (PartitionedChunkLoader_GetChunk st wr (node_ptt hosts n) cid ss) (Some h) (caches n)) =
    (if caches n h = Some None then Some None
     else case map_of ws h of Some c \<Rightarrow> Some (Some c)
       | None \<Rightarrow> if map_option int (owner hosts h) = Some n then Some None else None)"
proof -
  note i = run_inv[OF assms(1-3)]
  then have "nodes_ok sok hosts ss" by simp
  from fetch_eq[OF this assms(4)] obtain d where d: "owner hosts h = Some d"
    "PartitionedChunkLoader_GetChunk st wr (node_ptt hosts n) cid ss h =
      (case cluster_get st hosts h ss of Some c \<Rightarrow> Some (Some c) | None \<Rightarrow> if int d = n then Some None else None)" by blast
  show ?thesis
  proof (cases "caches n h")
    case None
    then show ?thesis using d i by (simp add: Load_chunk_def split: option.split)
  next
    case (Some r)
    then show ?thesis using i by (cases r) (auto simp: Load_chunk_def caches_ok_def)
  qed
qed

end

section \<open>Clusters of log-structured stores\<close>

lemma lst_if_get [simp]: "st_Get (lst_if mx) = LST_Get"
  by (simp add: lst_if_def)

lemma lst_cluster:
  assumes "wire_ok wr" and "hosts \<noteq> []"
  shows "cluster (lst_if mx) (lst_quiet hf mx) (lst_ok hf mx) (lst_fits hf) wr hosts"
  by (rule cluster.intro[OF _ cluster_axioms.intro[OF assms]]) (simp add: lst.chunk_store_axioms)

interpretation lst_nodes: cluster "lst_if mx" "lst_quiet hf mx" "lst_ok hf mx" "lst_fits hf" ex_wire "host # hosts"
  by (rule lst_cluster[OF ex_wire_ok]) simp

lemma new_logs:
  assumes "\<forall>s \<in> set ss. log_run hf mx s []" and "digest_ok hf" and "mx < 2 ^ 41" and "length ss = length hosts"
  shows "nodes_ok (lst_ok hf mx) hosts ss" and "cluster_get (lst_if mx) hosts h ss = None"
proof -
  have h: "holds_log hf mx s []" if "s \<in> set ss" for s using assms(1) that log_run_holds[OF _ assms(2,3)] by blast
  then show "nodes_ok (lst_ok hf mx) hosts ss" using assms(4) by (auto simp: nodes_ok_def lst_ok_def)
  show "cluster_get (lst_if mx) hosts h ss = None"
    using holds_log_get[OF h] by (auto simp: cluster_get_def split: option.splits)
qed

text \<open>C11. Chunks in a cluster with partitioned log-structured stores.  After any sequence of writes and
  cached loads by any nodes, of enlargements of logs and of restarts of stores, loading a hash on any
  node gives the first chunk that was written under it by any node, as one store would.  There are
  two exceptions: a hash that nobody has written stops the process on a node that does not own it,
  and a loader that has once looked for a chunk in vain keeps saying that it is not there.\<close>

theorem cluster_loads:
  assumes "digest_ok hf" and "mx < 2 ^ 41" and "wire_ok wr" and "hosts \<noteq> []" and "length ss0 = length hosts"
    and "\<forall>s \<in> set ss0. log_run hf mx s []"
    and "cluster_run (lst_if mx) wr hosts (lst_quiet hf mx) (lst_fits hf) ss0 ss caches ws" and "length h = kByteLength"
  shows "map_option fst (Load_chunk (PartitionedChunkLoader_GetChunk (lst_if mx) wr (node_ptt hosts n) cid ss) (Some h) (caches n)) =
    (if caches n h = Some None then Some None
     else case map_of ws h of Some c \<Rightarrow> Some (Some c)
       | None \<Rightarrow> if map_option int (owner hosts h) = Some n then Some None else None)"
  using cluster.run_load_result[OF lst_cluster[OF assms(3,4)] assms(7) new_logs(1)[OF assms(6,1,2,5)] _ assms(8)]
    new_logs(2)[OF assms(6,1,2,5)] by simp

theorem cluster_loads_witness:
  "\<exists>ss0 ss. length ss0 = 2 \<and> (\<forall>s \<in> set ss0. log_run ex_hf 64 s []) \<and>
    cluster_run (lst_if 64) ex_wire [[48], [50]] (lst_quiet ex_hf 64) (lst_fits ex_hf) ss0 ss (\<lambda>_. Map.empty) [(ex_hf ex_chunk, ex_chunk)] \<and>
    map_option fst (Load_chunk (PartitionedChunkLoader_GetChunk (lst_if 64) ex_wire (node_ptt [[48], [50]] 1) 7 ss)
      (Some (ex_hf ex_chunk)) Map.empty) = Some (Some ex_chunk)"
proof -
  let ?hosts = "[[48], [50]] :: bytes list"
  have c: "storable ex_chunk" "lst_fits ex_hf (ex_hf ex_chunk) ex_chunk"
    using ex_hf_digest by (simp_all add: ex_chunk_def storable_chunk_of lst_fits_def)
  obtain s0 where s0: "MmapUstoreLogFile ex_hf 64 False None = Some s0" "holds_log ex_hf 64 s0 []"
    using holds_log_fresh[OF ex_hf_digest, of 64] by auto
  have "\<not> LST_Exists (ex_hf ex_chunk) s0" "usedSegments (lst_info s0) = 0"
    using holds_log_exists[OF s0(2)] s0(2) fresh_size[OF s0(1)] by (auto simp: holds_log_def lst_inv_def)
  then obtain s where s: "LST_Put 64 (ex_hf ex_chunk) ex_chunk s0 = Some s"
    using LST_Put_log[OF s0(2) c(1)] by auto
  have logs: "\<forall>s \<in> set [s0, s0]. log_run ex_hf 64 s []" using log_run.start[OF s0(1)] by simp
  have len: "length (ex_hf ex_chunk) = kByteLength" using ex_hf_digest by simp
  obtain d where d: "owner ?hosts (ex_hf ex_chunk) = Some d" "d < length [s0, s0]"
    using owner_bound[OF len, of ?hosts] by auto
  have "[s0, s0] ! d = s0" using d(2) by (auto simp: less_Suc_eq)
  then have "PartitionedChunkWriter_Write (lst_if 64) ex_wire (node_ptt ?hosts 0) 7 (ex_hf ex_chunk) ex_chunk [s0, s0] = Some (True, [s0, s0][d := s])"
    using partitioned_put_eq[OF ex_wire_ok len d storable_whole[OF c(1)], of "lst_if 64" 0 7] s by (simp add: lst_if_def)
  from run_write[of "lst_if 64" ex_wire ?hosts "lst_quiet ex_hf 64" "lst_fits ex_hf" "[s0, s0]", OF run_start c(2) this] have
    r: "cluster_run (lst_if 64) ex_wire ?hosts (lst_quiet ex_hf 64) (lst_fits ex_hf) [s0, s0] ([s0, s0][d := s]) (\<lambda>_. Map.empty) [(ex_hf ex_chunk, ex_chunk)]"
    by simp
  have "map_option fst (Load_chunk (PartitionedChunkLoader_GetChunk (lst_if 64) ex_wire (node_ptt ?hosts 1) 7 ([s0, s0][d := s]))
      (Some (ex_hf ex_chunk)) Map.empty) = Some (Some ex_chunk)"
    using cluster_loads[OF ex_hf_digest _ ex_wire_ok _ _ logs r len, of 1 7] by simp
  with logs r show ?thesis by (intro exI[of _ "[s0, s0]"] exI[of _ "[s0, s0][d := s]"] conjI) (assumption | simp)+
qed

end
