(* ===== verification/Client_Threads.thy ===== *)
theory Client_Threads
  imports Remote "HOL-Library.Multiset"
begin

text \<open>
  Clients that run at the same time: src/cluster/client_service.cc, and \<open>Send\<close> and \<open>WaitForResponse\<close>
  of src/cluster/client.cc.

  The clients of a process share one service, which hands every response to the blob of the client
  whose number is in it.  A blob is used under its lock, so that sending, receiving and handling a
  response are steps; a worker is used under the lock of its service.  Messages on the way are a
  multiset: they may be overtaken, but are neither lost nor duplicated.
\<close>

section \<open>State and operations\<close>

record ResponseBlob =
  has_msg :: bool
  blob_message :: "UMessage option"

text \<open>A client is idle or waits for the response to a call.\<close>

datatype phase = Idle | Waiting db_call

record net_state =
  nt_responses :: "ResponseBlob list"
  nt_phase :: "nat \<Rightarrow> phase"
  nt_requests :: "(nat \<times> bytes) multiset"
  nt_answers :: "bytes multiset"
  nt_workers :: "worker list"

definition CreateResponseBlob :: "net_state \<Rightarrow> nat \<times> net_state" where
  "CreateResponseBlob net =
     (length (nt_responses net), net\<lparr>nt_responses := nt_responses net @ [\<lparr>has_msg = False, blob_message = None\<rparr>]\<rparr>)"

definition Client_Send :: "wire \<Rightarrow> nat \<Rightarrow> UMessage \<Rightarrow> nat \<Rightarrow> net_state \<Rightarrow> net_state option" where
  "Client_Send wr i m dest net =
     do { blob \<leftarrow> nth_opt (nt_responses net) i;
          CHECK (dest < length (nt_workers net));
          Some (net\<lparr>nt_requests := add_mset (dest, wire_ser wr (m\<lparr>um_source := int i\<rparr>)) (nt_requests net),
                    nt_responses := (nt_responses net)[i := blob\<lparr>has_msg := False\<rparr>]\<rparr>) }"

text \<open>The client service looks the blob up by the number in the message.\<close>

definition HandleResponse :: "wire \<Rightarrow> bytes \<Rightarrow> net_state \<Rightarrow> net_state option" where
  "HandleResponse wr msg net =
     do { let m = wire_parse wr msg;
          let i = nat (um_source m);
          blob \<leftarrow> (if um_source m < 0 then None else nth_opt (nt_responses net) i);
          Some (net\<lparr>nt_responses := (nt_responses net)[i := blob\<lparr>has_msg := True, blob_message := Some m\<rparr>]\<rparr>) }"

text \<open>The message that a waiting client gets, when there is one.  The client owns it from then on, but
  the blob still refers to it and \<open>has_msg\<close> stays set, until the next \<open>Send\<close> resets it.\<close>

definition WaitForResponse :: "nat \<Rightarrow> net_state \<Rightarrow> UMessage option" where
  "WaitForResponse i net =
     do { blob \<leftarrow> nth_opt (nt_responses net) i;
          CHECK (has_msg blob);
          blob_message blob }"

section \<open>Runs\<close>

type_synonym call_result = "client_error + db_result"

text \<open>The requests that the services have handled, in the order of handling, with what each client will
  make of the response (\<open>None\<close> if it aborts on it); and the calls that have returned.\<close>

type_synonym history = "(nat \<times> db_call \<times> call_result option) list"

definition call_of :: "phase \<Rightarrow> db_call" where
  "call_of p = (case p of Waiting c \<Rightarrow> c | Idle \<Rightarrow> Call_ListBranches [])"

inductive net_run :: "env \<Rightarrow> wire \<Rightarrow> partitioner \<Rightarrow> bool \<Rightarrow> node_info list \<Rightarrow> worker list \<Rightarrow>
    net_state \<Rightarrow> history \<Rightarrow> history \<Rightarrow> bool" for e wr ptt dist nis ws0 where
  net_start: "net_run e wr ptt dist nis ws0
    \<lparr>nt_responses = [], nt_phase = (\<lambda>_. Idle), nt_requests = {#}, nt_answers = {#}, nt_workers = ws0\<rparr> [] []"
| net_create: "net_run e wr ptt dist nis ws0 net hist outs \<Longrightarrow> CreateResponseBlob net = (i, net') \<Longrightarrow>
    net_run e wr ptt dist nis ws0 net' hist outs"
| net_send: "net_run e wr ptt dist nis ws0 net hist outs \<Longrightarrow> nt_phase net i = Idle \<Longrightarrow>
    client_request c = Some m \<Longrightarrow> call_dest (e_hf e) ptt dist c = Some dest \<Longrightarrow> Client_Send wr i m dest net = Some net' \<Longrightarrow>
    net_run e wr ptt dist nis ws0 (net'\<lparr>nt_phase := (nt_phase net)(i := Waiting c)\<rparr>) hist outs"
| net_handle: "net_run e wr ptt dist nis ws0 net hist outs \<Longrightarrow> (dest, msg) \<in># nt_requests net \<Longrightarrow>
    HandleRequest e (nis ! dest) (wire_parse wr msg) (nt_workers net ! dest) = Some (r, w) \<Longrightarrow>
    i = nat (um_source (wire_parse wr msg)) \<Longrightarrow> c = call_of (nt_phase net i) \<Longrightarrow>
    net_run e wr ptt dist nis ws0
      (net\<lparr>nt_requests := nt_requests net - {#(dest, msg)#}, nt_answers := add_mset (wire_ser wr r) (nt_answers net),
           nt_workers := (nt_workers net)[dest := w]\<rparr>) (hist @ [(i, c, client_result c r)]) outs"
| net_deliver: "net_run e wr ptt dist nis ws0 net hist outs \<Longrightarrow> msg \<in># nt_answers net \<Longrightarrow>
    HandleResponse wr msg (net\<lparr>nt_answers := nt_answers net - {#msg#}\<rparr>) = Some net' \<Longrightarrow>
    net_run e wr ptt dist nis ws0 net' hist outs"
| net_receive: "net_run e wr ptt dist nis ws0 net hist outs \<Longrightarrow> nt_phase net i = Waiting c \<Longrightarrow>
    WaitForResponse i net = Some m \<Longrightarrow> client_result c m = Some res \<Longrightarrow>
    net_run e wr ptt dist nis ws0 (net\<lparr>nt_phase := (nt_phase net)(i := Idle)\<rparr>) hist (outs @ [(i, c, Some res)])"

section \<open>The order of calls\<close>

text \<open>A call with all that it does at once, up to what the client makes of the response.\<close>

definition remote_effect :: "env \<Rightarrow> wire \<Rightarrow> partitioner \<Rightarrow> bool \<Rightarrow> int \<Rightarrow> db_call \<Rightarrow> node_info list \<Rightarrow> worker list \<Rightarrow>
    (call_result option \<times> worker list) option" where
  "remote_effect e wr ptt dist cid c nis ws =
     do { m \<leftarrow> client_request c;
          dest \<leftarrow> call_dest (e_hf e) ptt dist c;
          CHECK (dest < length ws);
          (r, w) \<leftarrow> HandleRequest e (nis ! dest) (wire_parse wr (wire_ser wr (m\<lparr>um_source := cid\<rparr>))) (ws ! dest);
          Some (client_result c (wire_parse wr (wire_ser wr r)), ws[dest := w]) }"

lemma remote_call_effect:
  "remote_call e wr ptt dist cid c nis ws =
     do { (res, ws) \<leftarrow> remote_effect e wr ptt dist cid c nis ws; r \<leftarrow> res; Some (r, ws) }"
  by (auto simp: remote_call_def remote_effect_def Let_def split: Option.bind_split)

text \<open>The calls of a history one after the other, each from the state that the one before it left.\<close>

fun serial :: "env \<Rightarrow> wire \<Rightarrow> partitioner \<Rightarrow> bool \<Rightarrow> node_info list \<Rightarrow> history \<Rightarrow> worker list \<Rightarrow> worker list option" where
  "serial e wr ptt dist nis [] ws = Some ws"
| "serial e wr ptt dist nis ((i, c, res) # hist) ws =
     do { (res', ws) \<leftarrow> remote_effect e wr ptt dist (int i) c nis ws;
          CHECK (res' = res);
          serial e wr ptt dist nis hist ws }"

lemma serial_snoc:
  "serial e wr ptt dist nis (hist @ [(i, c, res)]) ws =
     do { ws \<leftarrow> serial e wr ptt dist nis hist ws;
          (res', ws) \<leftarrow> remote_effect e wr ptt dist (int i) c nis ws;
          CHECK (res' = res);
          Some ws }"
proof (induction hist arbitrary: ws)
  case Nil
  show ?case by (cases "remote_effect e wr ptt dist (int i) c nis ws") auto
next
  case (Cons x hist)
  obtain j d s where x: "x = (j, d, s)" by (cases x)
  show ?case
    by (cases "remote_effect e wr ptt dist (int j) d nis ws") (use Cons.IH in \<open>auto simp: x CHECK_def\<close>)
qed

definition of_client :: "nat \<Rightarrow> history \<Rightarrow> (db_call \<times> call_result option) list" where
  "of_client i hist = map snd (filter (\<lambda>x. fst x = i) hist)"

lemma of_client_simps [simp]: "of_client i [] = []"
  "of_client i (hist @ [(j, x)]) = of_client i hist @ (if j = i then [x] else [])"
  by (simp_all add: of_client_def)

section \<open>The invariant\<close>

definition requests_of :: "wire \<Rightarrow> nat \<Rightarrow> net_state \<Rightarrow> (nat \<times> bytes) multiset" where
  "requests_of wr i net = filter_mset (\<lambda>x. um_source (wire_parse wr (snd x)) = int i) (nt_requests net)"

definition answers_of :: "wire \<Rightarrow> nat \<Rightarrow> net_state \<Rightarrow> bytes multiset" where
  "answers_of wr i net = filter_mset (\<lambda>x. um_source (wire_parse wr x) = int i) (nt_answers net)"

text \<open>The message of a waiting client is in exactly one place: on the way to the worker, on the way
  back, or in the blob.\<close>

definition waits :: "env \<Rightarrow> wire \<Rightarrow> partitioner \<Rightarrow> bool \<Rightarrow> nat \<Rightarrow> db_call \<Rightarrow> net_state \<Rightarrow> history \<Rightarrow> history \<Rightarrow> bool" where
  "waits e wr ptt dist i c net hist outs \<longleftrightarrow> i < length (nt_responses net) \<and>
     ((\<exists>m d. client_request c = Some m \<and> call_dest (e_hf e) ptt dist c = Some d \<and> d < length (nt_workers net) \<and>
          requests_of wr i net = {#(d, wire_ser wr (m\<lparr>um_source := int i\<rparr>))#} \<and> answers_of wr i net = {#} \<and>
          \<not> has_msg (nt_responses net ! i) \<and> of_client i hist = of_client i outs) \<or>
      (\<exists>r. of_client i hist = of_client i outs @ [(c, client_result c r)] \<and> requests_of wr i net = {#} \<and>
          (answers_of wr i net = {#wire_ser wr r#} \<and> \<not> has_msg (nt_responses net ! i) \<or>
           answers_of wr i net = {#} \<and> has_msg (nt_responses net ! i) \<and> blob_message (nt_responses net ! i) = Some r)))"

definition rests :: "wire \<Rightarrow> nat \<Rightarrow> net_state \<Rightarrow> history \<Rightarrow> history \<Rightarrow> bool" where
  "rests wr i net hist outs \<longleftrightarrow> requests_of wr i net = {#} \<and> answers_of wr i net = {#} \<and> of_client i hist = of_client i outs"

definition client_ok :: "env \<Rightarrow> wire \<Rightarrow> partitioner \<Rightarrow> bool \<Rightarrow> net_state \<Rightarrow> history \<Rightarrow> history \<Rightarrow> nat \<Rightarrow> bool" where
  "client_ok e wr ptt dist net hist outs i \<longleftrightarrow>
     (case nt_phase net i of Idle \<Rightarrow> rests wr i net hist outs | Waiting c \<Rightarrow> waits e wr ptt dist i c net hist outs)"

definition sources_ok :: "wire \<Rightarrow> net_state \<Rightarrow> bool" where
  "sources_ok wr net \<longleftrightarrow> (\<forall>x \<in># nt_requests net. 0 \<le> um_source (wire_parse wr (snd x))) \<and>
     (\<forall>x \<in># nt_answers net. 0 \<le> um_source (wire_parse wr x))"

lemma HandleRequest_source: "HandleRequest e ni m w = Some (r, w') \<Longrightarrow> um_source r = um_source m"
  by (auto simp: HandleRequest_def Let_def response_to_def bind_eq_Some_conv split: message_type.splits prod.splits)

definition net_ok :: "env \<Rightarrow> wire \<Rightarrow> partitioner \<Rightarrow> bool \<Rightarrow> node_info list \<Rightarrow> worker list \<Rightarrow> net_state \<Rightarrow> history \<Rightarrow> history \<Rightarrow> bool" where
  "net_ok e wr ptt dist nis ws0 net hist outs \<longleftrightarrow> (\<forall>i. client_ok e wr ptt dist net hist outs i) \<and> sources_ok wr net \<and>
     serial e wr ptt dist nis hist ws0 = Some (nt_workers net) \<and> length (nt_workers net) = length ws0"

lemma client_ok_cong:
  assumes "client_ok e wr ptt dist net hist outs i" and "nt_phase net' i = nt_phase net i"
    and "requests_of wr i net' = requests_of wr i net" and "answers_of wr i net' = answers_of wr i net"
    and "i < length (nt_responses net) \<Longrightarrow> i < length (nt_responses net') \<and> nt_responses net' ! i = nt_responses net ! i"
    and "length (nt_workers net') = length (nt_workers net)"
    and "of_client i hist' = of_client i hist" and "of_client i outs' = of_client i outs"
  shows "client_ok e wr ptt dist net' hist' outs' i"
  using assms by (auto simp: client_ok_def rests_def waits_def split: phase.splits)

lemma net_ok_create:
  assumes "net_ok e wr ptt dist nis ws0 net hist outs" and "CreateResponseBlob net = (i, net')"
  shows "net_ok e wr ptt dist nis ws0 net' hist outs"
proof -
  have "client_ok e wr ptt dist net' hist outs j" for j
    by (rule client_ok_cong[of _ _ _ _ net hist outs])
       (use assms in \<open>auto simp: net_ok_def CreateResponseBlob_def requests_of_def answers_of_def nth_append\<close>)
  then show ?thesis using assms by (auto simp: net_ok_def CreateResponseBlob_def sources_ok_def)
qed

lemma net_ok_send:
  assumes "wire_ok wr" and "net_ok e wr ptt dist nis ws0 net hist outs" and "nt_phase net i = Idle"
    and "client_request c = Some m" and "call_dest (e_hf e) ptt dist c = Some dest" and "Client_Send wr i m dest net = Some net'"
  shows "net_ok e wr ptt dist nis ws0 (net'\<lparr>nt_phase := (nt_phase net)(i := Waiting c)\<rparr>) hist outs"
proof -
  let ?net = "net'\<lparr>nt_phase := (nt_phase net)(i := Waiting c)\<rparr>"
  have net': "i < length (nt_responses net)" "dest < length (nt_workers net)"
    "net' = net\<lparr>nt_requests := add_mset (dest, wire_ser wr (m\<lparr>um_source := int i\<rparr>)) (nt_requests net),
       nt_responses := (nt_responses net)[i := (nt_responses net ! i)\<lparr>has_msg := False\<rparr>]\<rparr>"
    using assms(6) by (auto simp: Client_Send_def nth_opt_def bind_eq_Some_conv split: if_splits)
  have "rests wr i net hist outs" using assms(2,3) by (auto simp: net_ok_def client_ok_def split: phase.splits)
  then have "waits e wr ptt dist i c ?net hist outs"
    using net' assms(1,4,5) by (simp add: waits_def rests_def requests_of_def answers_of_def wire_ok_def)
  then have i: "client_ok e wr ptt dist ?net hist outs i" by (simp add: client_ok_def)
  have "client_ok e wr ptt dist ?net hist outs j" if "j \<noteq> i" for j
    by (rule client_ok_cong[of _ _ _ _ net hist outs])
       (use assms(1,2) net' that in \<open>auto simp: net_ok_def requests_of_def answers_of_def wire_ok_def\<close>)
  with i have "\<forall>j. client_ok e wr ptt dist ?net hist outs j" by metis
  then show ?thesis using assms(1,2) net' by (auto simp: net_ok_def sources_ok_def wire_ok_def)
qed

lemma waiting_request:
  assumes "net_ok e wr ptt dist nis ws0 net hist outs" and "(dest, msg) \<in># nt_requests net"
  obtains i c m where "um_source (wire_parse wr msg) = int i" and "nt_phase net i = Waiting c"
    and "client_request c = Some m" and "call_dest (e_hf e) ptt dist c = Some dest" and "dest < length (nt_workers net)"
    and "msg = wire_ser wr (m\<lparr>um_source := int i\<rparr>)" and "requests_of wr i net = {#(dest, msg)#}"
    and "answers_of wr i net = {#}" and "\<not> has_msg (nt_responses net ! i)" and "i < length (nt_responses net)"
    and "of_client i hist = of_client i outs"
proof -
  obtain i where i: "um_source (wire_parse wr msg) = int i"
    using assms by (auto simp: net_ok_def sources_ok_def dest!: bspec intro: nonneg_int_cases)
  then have mem: "(dest, msg) \<in># requests_of wr i net" using assms(2) by (simp add: requests_of_def)
  have ok: "client_ok e wr ptt dist net hist outs i" using assms(1) by (simp add: net_ok_def)
  then obtain c where c: "nt_phase net i = Waiting c" using mem by (cases "nt_phase net i") (auto simp: client_ok_def rests_def)
  with ok mem show thesis using that[OF i c] by (auto simp: client_ok_def waits_def)
qed

lemma net_ok_handle:
  assumes wr: "wire_ok wr" and ok: "net_ok e wr ptt dist nis ws0 net hist outs" and mem: "(dest, msg) \<in># nt_requests net"
    and h: "HandleRequest e (nis ! dest) (wire_parse wr msg) (nt_workers net ! dest) = Some (r, w)"
    and j: "j = nat (um_source (wire_parse wr msg))" and d: "d = call_of (nt_phase net j)"
  shows "net_ok e wr ptt dist nis ws0
      (net\<lparr>nt_requests := nt_requests net - {#(dest, msg)#}, nt_answers := add_mset (wire_ser wr r) (nt_answers net),
           nt_workers := (nt_workers net)[dest := w]\<rparr>) (hist @ [(j, d, client_result d r)]) outs"
    (is "net_ok _ _ _ _ _ _ ?net ?hist _")
proof -
  obtain i c m where i: "um_source (wire_parse wr msg) = int i" and c: "nt_phase net i = Waiting c"
    and m: "client_request c = Some m" "call_dest (e_hf e) ptt dist c = Some dest" "dest < length (nt_workers net)"
      "msg = wire_ser wr (m\<lparr>um_source := int i\<rparr>)"
    and q: "requests_of wr i net = {#(dest, msg)#}" "answers_of wr i net = {#}" "\<not> has_msg (nt_responses net ! i)"
      "i < length (nt_responses net)" "of_client i hist = of_client i outs"
    using waiting_request[OF ok mem] .
  have ji: "j = i" "d = c" using i c j d by (simp_all add: call_of_def)
  have src: "um_source r = int i" using HandleRequest_source[OF h] i by simp
  have "waits e wr ptt dist i c ?net ?hist outs"
    using q i src wr ji by (auto simp: waits_def requests_of_def answers_of_def wire_ok_def)
  then have i_ok: "client_ok e wr ptt dist ?net ?hist outs i" using c by (simp add: client_ok_def)
  have "client_ok e wr ptt dist ?net ?hist outs k" if "k \<noteq> i" for k
    by (rule client_ok_cong[of _ _ _ _ net hist outs])
       (use ok that i src wr ji in \<open>auto simp: net_ok_def requests_of_def answers_of_def wire_ok_def\<close>)
  with i_ok have all: "\<forall>k. client_ok e wr ptt dist ?net ?hist outs k" by metis
  have "remote_effect e wr ptt dist (int i) c nis (nt_workers net) = Some (client_result c r, (nt_workers net)[dest := w])"
    using m h wr by (simp add: remote_effect_def wire_ok_def)
  then have "serial e wr ptt dist nis ?hist ws0 = Some (nt_workers ?net)"
    using ok ji by (simp add: serial_snoc net_ok_def)
  moreover have "sources_ok wr ?net" using ok src wr by (auto simp: net_ok_def sources_ok_def wire_ok_def dest: in_diffD)
  ultimately show ?thesis using all ok by (simp add: net_ok_def)
qed

lemma net_ok_deliver:
  assumes wr: "wire_ok wr" and ok: "net_ok e wr ptt dist nis ws0 net hist outs" and mem: "msg \<in># nt_answers net"
    and h: "HandleResponse wr msg (net\<lparr>nt_answers := nt_answers net - {#msg#}\<rparr>) = Some net'"
  shows "net_ok e wr ptt dist nis ws0 net' hist outs"
proof -
  obtain i where i: "um_source (wire_parse wr msg) = int i"
    using ok mem by (auto simp: net_ok_def sources_ok_def dest!: bspec intro: nonneg_int_cases)
  then have a: "msg \<in># answers_of wr i net" using mem by (simp add: answers_of_def)
  have "client_ok e wr ptt dist net hist outs i" using ok by (simp add: net_ok_def)
  then obtain c r where c: "nt_phase net i = Waiting c" "i < length (nt_responses net)" "requests_of wr i net = {#}"
    "answers_of wr i net = {#wire_ser wr r#}" "of_client i hist = of_client i outs @ [(c, client_result c r)]"
    using a by (cases "nt_phase net i") (auto simp: client_ok_def rests_def waits_def)
  then have msg: "msg = wire_ser wr r" using a by simp
  have net': "net' = net\<lparr>nt_answers := nt_answers net - {#msg#},
      nt_responses := (nt_responses net)[i := (nt_responses net ! i)\<lparr>has_msg := True, blob_message := Some r\<rparr>]\<rparr>"
    using h i c(2) msg wr by (simp add: HandleResponse_def nth_opt_def wire_ok_def Let_def)
  have "answers_of wr i net' = {#}" using c(4) i msg by (simp add: net' answers_of_def)
  then have "waits e wr ptt dist i c net' hist outs"
    using c by (auto simp: waits_def net' requests_of_def)
  then have i_ok: "client_ok e wr ptt dist net' hist outs i" using c(1) by (simp add: client_ok_def net')
  have "client_ok e wr ptt dist net' hist outs k" if "k \<noteq> i" for k
    by (rule client_ok_cong[of _ _ _ _ net hist outs])
       (use ok that i in \<open>auto simp: net_ok_def requests_of_def answers_of_def net'\<close>)
  with i_ok have "\<forall>k. client_ok e wr ptt dist net' hist outs k" by metis
  then show ?thesis using ok by (auto simp: net_ok_def sources_ok_def net' dest: in_diffD)
qed

lemma net_ok_receive:
  assumes ok: "net_ok e wr ptt dist nis ws0 net hist outs" and c: "nt_phase net i = Waiting c"
    and h: "WaitForResponse i net = Some m" and res: "client_result c m = Some res"
  shows "net_ok e wr ptt dist nis ws0 (net\<lparr>nt_phase := (nt_phase net)(i := Idle)\<rparr>) hist (outs @ [(i, c, Some res)])"
    (is "net_ok _ _ _ _ _ _ ?net _ ?outs")
proof -
  have net': "has_msg (nt_responses net ! i)" "blob_message (nt_responses net ! i) = Some m"
    using h by (auto simp: WaitForResponse_def nth_opt_def bind_eq_Some_conv split: if_splits)
  have "client_ok e wr ptt dist net hist outs i" using ok by (simp add: net_ok_def)
  then have "rests wr i ?net hist ?outs"
    using c net' res by (auto simp: client_ok_def waits_def rests_def requests_of_def answers_of_def)
  then have i_ok: "client_ok e wr ptt dist ?net hist ?outs i" by (simp add: client_ok_def)
  have "client_ok e wr ptt dist ?net hist ?outs k" if "k \<noteq> i" for k
    by (rule client_ok_cong[of _ _ _ _ net hist outs])
       (use ok that net' in \<open>auto simp: net_ok_def requests_of_def answers_of_def\<close>)
  with i_ok have "\<forall>k. client_ok e wr ptt dist ?net hist ?outs k" by metis
  then show ?thesis using ok net' by (auto simp: net_ok_def sources_ok_def)
qed

lemma net_run_ok:
  assumes "net_run e wr ptt dist nis ws0 net hist outs" and "wire_ok wr"
  shows "net_ok e wr ptt dist nis ws0 net hist outs"
  using assms(1)
proof induction
  case net_start
  then show ?case by (simp add: net_ok_def client_ok_def rests_def requests_of_def answers_of_def sources_ok_def)
next
  case (net_create net hist outs i net')
  then show ?case using net_ok_create by blast
next
  case (net_send net hist outs i c m dest net')
  then show ?case using net_ok_send[OF assms(2)] by blast
next
  case (net_handle net hist outs dest msg r w i c)
  then show ?case using net_ok_handle[OF assms(2)] by blast
next
  case (net_deliver net hist outs msg net')
  then show ?case using net_ok_deliver[OF assms(2)] by blast
next
  case (net_receive net hist outs i c m res)
  then show ?case using net_ok_receive by blast
qed

section \<open>An example\<close>

text \<open>Two clients of one worker ask whether a key exists; the second has its answer, the request of the
  first is still on the way.\<close>

definition ex_ptt :: partitioner where
  "ex_ptt = \<lparr>ptt_id = -1, dest_list = [[48]]\<rparr>"

lemma ex_dest: "call_dest hf ex_ptt False (Call_Exists [1]) = Some 0"
  by (simp add: call_dest_def GetDestId_key_def GetDestId_def ex_ptt_def)

lemma ex_parse [simp]: "wire_parse ex_wire (wire_ser ex_wire m) = m"
  using ex_wire_ok by (simp add: wire_ok_def)

definition ex_exists :: UMessage where
  "ex_exists = request EXISTS_REQUEST (no_request\<lparr>rq_key := Some [1]\<rparr>)"

definition ex_request :: "int \<Rightarrow> nat \<times> bytes" where
  "ex_request i = (0, wire_ser ex_wire (ex_exists\<lparr>um_source := i\<rparr>))"

definition ex_reply :: UMessage where
  "ex_reply = reply (ex_exists\<lparr>um_source := 1\<rparr>) (no_response\<lparr>rp_bvalue := False\<rparr>)"

lemma ex_handled: "HandleRequest ex_env ni (ex_exists\<lparr>um_source := 1\<rparr>) no_data = Some (ex_reply, no_data)"
  by (simp add: ex_exists_def ex_reply_def handlers request_simps reply_def Let_def Exists_key_def no_data_def no_versions_def)

lemma ex_client: "client_request (Call_Exists [1]) = Some ex_exists" "um_source ex_reply = 1"
    "client_result (Call_Exists [1]) ex_reply = Some (Inr (R_bool False))"
  by (simp_all add: ex_exists_def) (simp_all add: ex_reply_def result_of_def bool_read, simp add: reply_def response_to_def)

definition ex_blob :: ResponseBlob where
  "ex_blob = \<lparr>has_msg = False, blob_message = None\<rparr>"

definition ex_net :: "ResponseBlob \<Rightarrow> phase \<Rightarrow> (nat \<times> bytes) multiset \<Rightarrow> bytes multiset \<Rightarrow> net_state" where
  "ex_net b p qs as = \<lparr>nt_responses = [ex_blob, b], nt_phase = (\<lambda>_. Idle)(0 := Waiting (Call_Exists [1]), 1 := p),
     nt_requests = qs, nt_answers = as, nt_workers = [no_data]\<rparr>"

lemma ex_net_run:
  "net_run ex_env ex_wire ex_ptt False [] [no_data]
     (ex_net \<lparr>has_msg = True, blob_message = Some ex_reply\<rparr> Idle {#ex_request 0#} {#})
     [(1, Call_Exists [1], Some (Inr (R_bool False)))] [(1, Call_Exists [1], Some (Inr (R_bool False)))]"
proof -
  note [simp del] = client_request.simps client_result.simps
  let ?run = "net_run ex_env ex_wire ex_ptt False [] [no_data]" and ?c = "Call_Exists [1]"
  let ?h = "[(1, ?c, Some (Inr (R_bool False)))]"
  let ?n = "\<lambda>bs p qs. \<lparr>nt_responses = bs, nt_phase = p, nt_requests = qs, nt_answers = {#}, nt_workers = [no_data]\<rparr>"
  have "?run (?n [] (\<lambda>_. Idle) {#}) [] []" by (rule net_start)
  from net_create[OF this, of 0] have "?run (?n [ex_blob] (\<lambda>_. Idle) {#}) [] []"
    by (simp add: CreateResponseBlob_def ex_blob_def)
  from net_create[OF this, of 1] have "?run (?n [ex_blob, ex_blob] (\<lambda>_. Idle) {#}) [] []"
    by (simp add: CreateResponseBlob_def ex_blob_def)
  from net_send[OF this, of 0 ?c ex_exists 0] have
    "?run (?n [ex_blob, ex_blob] ((\<lambda>_. Idle)(0 := Waiting ?c)) {#ex_request 0#}) [] []"
    using ex_dest by (simp add: ex_client Client_Send_def nth_opt_def ex_request_def ex_blob_def)
  from net_send[OF this, of 1 ?c ex_exists 0] have
    "?run (ex_net ex_blob (Waiting ?c) {#ex_request 0, ex_request 1#} {#}) [] []"
    using ex_dest by (simp add: ex_client Client_Send_def nth_opt_def ex_request_def ex_net_def ex_blob_def add_mset_commute)
  from net_handle[OF this, of 0 "snd (ex_request 1)" ex_reply no_data 1 ?c] have
    "?run (ex_net ex_blob (Waiting ?c) {#ex_request 0#} {#wire_ser ex_wire ex_reply#}) ?h []"
    using ex_handled by (simp add: ex_net_def ex_request_def call_of_def ex_client)
  from net_deliver[OF this, of "wire_ser ex_wire ex_reply"] have
    "?run (ex_net \<lparr>has_msg = True, blob_message = Some ex_reply\<rparr> (Waiting ?c) {#ex_request 0#} {#}) ?h []"
    by (simp add: ex_net_def HandleResponse_def ex_client nth_opt_def ex_blob_def)
  from net_receive[OF this, of 1 ?c ex_reply "Inr (R_bool False)"] show ?thesis
    by (simp add: ex_net_def WaitForResponse_def ex_client nth_opt_def)
qed

section \<open>Properties\<close>

text \<open>C10. Clients that call at the same time.  However sending, handling, delivering and receiving
  interleave, and whatever messages overtake each other, the workers are in the state that the calls
  leave when each is done at once, in the order in which the services handle them; and what a client
  has got are its own calls, in its order, each with the result that the call has there.  At most the
  last call of a client has been handled and not returned yet.\<close>

theorem calls_serialize:
  assumes "net_run e wr ptt dist nis ws0 net hist outs" and "wire_ok wr"
  shows "serial e wr ptt dist nis hist ws0 = Some (nt_workers net) \<and>
    (\<forall>i. of_client i hist = of_client i outs \<or>
      (\<exists>c res. nt_phase net i = Waiting c \<and> of_client i hist = of_client i outs @ [(c, res)]))"
proof -
  note ok = net_run_ok[OF assms]
  have "of_client i hist = of_client i outs \<or>
      (\<exists>c res. nt_phase net i = Waiting c \<and> of_client i hist = of_client i outs @ [(c, res)])" for i
  proof -
    have "client_ok e wr ptt dist net hist outs i" using ok by (simp add: net_ok_def)
    then show ?thesis by (cases "nt_phase net i") (auto simp: client_ok_def rests_def waits_def)
  qed
  then show ?thesis using ok by (simp add: net_ok_def)
qed

theorem calls_serialize_witness:
  "\<exists>net. net_run ex_env ex_wire ex_ptt False [] [no_data] net
       [(1, Call_Exists [1], Some (Inr (R_bool False)))] [(1, Call_Exists [1], Some (Inr (R_bool False)))] \<and>
     nt_phase net 0 = Waiting (Call_Exists [1]) \<and>
     serial ex_env ex_wire ex_ptt False [] [(1, Call_Exists [1], Some (Inr (R_bool False)))] [no_data] = Some (nt_workers net)"
  using calls_serialize[OF ex_net_run ex_wire_ok] ex_net_run by (auto simp: ex_net_def)

text \<open>C18. No response is lost.  Whenever a client waits, its request is on the way to a worker of the
  cluster, or its response is on the way and the client service can hand it over, or its blob has the
  response, and \<open>WaitForResponse\<close> returns.\<close>

theorem waiting_client_served:
  assumes "net_run e wr ptt dist nis ws0 net hist outs" and "wire_ok wr" and "nt_phase net i = Waiting c"
  shows "(\<exists>dest msg. (dest, msg) \<in># nt_requests net \<and> um_source (wire_parse wr msg) = int i \<and> dest < length ws0) \<or>
    (\<exists>msg \<in># nt_answers net. um_source (wire_parse wr msg) = int i \<and> HandleResponse wr msg net \<noteq> None) \<or>
    WaitForResponse i net \<noteq> None"
proof -
  note ok = net_run_ok[OF assms(1,2)]
  then have "waits e wr ptt dist i c net hist outs" using assms(3) by (auto simp: net_ok_def client_ok_def split: phase.splits)
  then consider (sent) d x where "requests_of wr i net = {#(d, x)#}" "d < length (nt_workers net)"
    | (answered) x where "answers_of wr i net = {#x#}" "i < length (nt_responses net)"
    | (here) r where "has_msg (nt_responses net ! i)" "blob_message (nt_responses net ! i) = Some r" "i < length (nt_responses net)"
    by (auto simp: waits_def)
  then show ?thesis
  proof cases
    case sent
    then have "(d, x) \<in># requests_of wr i net" by simp
    then show ?thesis using sent ok by (auto simp: requests_of_def net_ok_def)
  next
    case answered
    then have "x \<in># answers_of wr i net" by simp
    then have x: "x \<in># nt_answers net" "um_source (wire_parse wr x) = int i" by (simp_all add: answers_of_def)
    then have "HandleResponse wr x net \<noteq> None" using answered(2) by (simp add: HandleResponse_def nth_opt_def Let_def)
    with x show ?thesis by blast
  next
    case here
    then show ?thesis by (simp add: WaitForResponse_def nth_opt_def)
  qed
qed

theorem waiting_client_served_witness:
  "\<exists>net hist outs. net_run ex_env ex_wire ex_ptt False [] [no_data] net hist outs \<and>
     nt_phase net 0 = Waiting (Call_Exists [1]) \<and>
     ((\<exists>dest msg. (dest, msg) \<in># nt_requests net \<and> um_source (wire_parse ex_wire msg) = 0 \<and> dest < 1) \<or>
      (\<exists>msg \<in># nt_answers net. um_source (wire_parse ex_wire msg) = 0 \<and> HandleResponse ex_wire msg net \<noteq> None) \<or>
      WaitForResponse 0 net \<noteq> None)"
proof -
  have "nt_phase (ex_net \<lparr>has_msg = True, blob_message = Some ex_reply\<rparr> Idle {#ex_request 0#} {#}) 0 = Waiting (Call_Exists [1])"
    by (simp add: ex_net_def)
  with waiting_client_served[OF ex_net_run ex_wire_ok this] ex_net_run show ?thesis by fastforce
qed

end
