(* ===== verification/Sha2.thy ===== *)
theory Sha2
  imports Cell
begin

unbundle bit_operations_syntax

text \<open>
  The digest of the chunks: include/hash/sha2.h, and \<open>Hash::ComputeFrom\<close> of src/hash/hash.cc in the
  build without the cryptographic library.  It is the hash that the other theories have as the
  parameter \<open>hf\<close>.

  \<open>word_t\<close> is a \<open>32 word\<close>.  The assertions of \<open>rotr\<close> and \<open>shr\<close> hold, because every call has a constant.

  The table \<open>add_constant\<close> of round constants is the argument \<open>K\<close>: its 64 numbers are not repeated here,
  and what follows holds for every table.
\<close>

section \<open>One block\<close>

definition mask_8bit :: "byte \<Rightarrow> byte" where
  "mask_8bit x = x AND 0xff"

definition mask_32bit :: "32 word \<Rightarrow> 32 word" where
  "mask_32bit x = x AND 0xffffffff"

definition initial_message_digest :: "32 word list" where
  "initial_message_digest = [0x6a09e667, 0xbb67ae85, 0x3c6ef372, 0xa54ff53a, 0x510e527f, 0x9b05688c, 0x1f83d9ab, 0x5be0cd19]"

definition ch :: "32 word \<Rightarrow> 32 word \<Rightarrow> 32 word \<Rightarrow> 32 word" where
  "ch x y z = (x AND y) XOR (NOT x AND z)"

definition maj :: "32 word \<Rightarrow> 32 word \<Rightarrow> 32 word \<Rightarrow> 32 word" where
  "maj x y z = (x AND y) XOR (x AND z) XOR (y AND z)"

definition rotr :: "32 word \<Rightarrow> nat \<Rightarrow> 32 word" where
  "rotr x n = mask_32bit (drop_bit n x OR push_bit (32 - n) x)"

definition bsig0 :: "32 word \<Rightarrow> 32 word" where
  "bsig0 x = rotr x 2 XOR rotr x 13 XOR rotr x 22"

definition bsig1 :: "32 word \<Rightarrow> 32 word" where
  "bsig1 x = rotr x 6 XOR rotr x 11 XOR rotr x 25"

definition shr :: "32 word \<Rightarrow> nat \<Rightarrow> 32 word" where
  "shr x n = drop_bit n x"

definition ssig0 :: "32 word \<Rightarrow> 32 word" where
  "ssig0 x = rotr x 7 XOR rotr x 18 XOR shr x 3"

definition ssig1 :: "32 word \<Rightarrow> 32 word" where
  "ssig1 x = rotr x 17 XOR rotr x 19 XOR shr x 10"

text \<open>The 16 words of a block, and the loop that fills the other 48.\<close>

definition load_word :: "bytes \<Rightarrow> nat \<Rightarrow> 32 word" where
  "load_word p i = push_bit 24 (ucast (mask_8bit (p ! (i * 4)))) OR push_bit 16 (ucast (mask_8bit (p ! (i * 4 + 1)))) OR
     push_bit 8 (ucast (mask_8bit (p ! (i * 4 + 2)))) OR ucast (mask_8bit (p ! (i * 4 + 3)))"

definition extend_word :: "nat \<Rightarrow> 32 word list \<Rightarrow> 32 word list" where
  "extend_word i w = w[i := mask_32bit (ssig1 (w ! (i - 2)) + w ! (i - 7) + ssig0 (w ! (i - 15)) + w ! (i - 16))]"

definition message_schedule :: "bytes \<Rightarrow> 32 word list" where
  "message_schedule p = fold extend_word [16..<64] (fold (\<lambda>i w. w[i := load_word p i]) [0..<16] (replicate 64 0))"

type_synonym working = "32 word \<times> 32 word \<times> 32 word \<times> 32 word \<times> 32 word \<times> 32 word \<times> 32 word \<times> 32 word"

definition sha_round :: "32 word \<Rightarrow> 32 word \<Rightarrow> working \<Rightarrow> working" where
  "sha_round k w s = (case s of (a, b, c, d, e, f, g, h) \<Rightarrow>
     let temp1 = h + bsig1 e + ch e f g + k + w;
         temp2 = bsig0 a + maj a b c
     in (mask_32bit (temp1 + temp2), a, b, c, mask_32bit (d + temp1), e, f, g))"

definition hash256_block :: "32 word list \<Rightarrow> bytes \<Rightarrow> 32 word list \<Rightarrow> 32 word list" where
  "hash256_block K p md =
     (let w = message_schedule p;
          s = fold (\<lambda>i. sha_round (K ! i) (w ! i)) [0..<64]
                (md ! 0, md ! 1, md ! 2, md ! 3, md ! 4, md ! 5, md ! 6, md ! 7)
      in case s of (a, b, c, d, e, f, g, h) \<Rightarrow>
           map mask_32bit [md ! 0 + a, md ! 1 + b, md ! 2 + c, md ! 3 + d, md ! 4 + e, md ! 5 + f, md ! 6 + g, md ! 7 + h])"

section \<open>The hasher\<close>

record hash256_one_by_one =
  sha_buffer :: bytes
  data_length_digits :: "32 word list"
  sha_h :: "32 word list"

definition hash256_init :: hash256_one_by_one where
  "hash256_init = \<lparr>sha_buffer = [], data_length_digits = [0, 0, 0, 0], sha_h = initial_message_digest\<rparr>"

text \<open>The loop over the digits, from the lowest, which stops at the first without a carry.\<close>

fun carry_loop :: "32 word \<Rightarrow> 32 word list \<Rightarrow> 32 word list" where
  "carry_loop carry [] = []"
| "carry_loop carry (d # ds) =
     (let d = d + carry in
      if d \<ge> 65536 then (d AND 65535) # carry_loop (drop_bit 16 d) ds else d # ds)"

definition add_to_data_length :: "32 word \<Rightarrow> hash256_one_by_one \<Rightarrow> hash256_one_by_one" where
  "add_to_data_length n s =
     s\<lparr>data_length_digits := carry_loop 0 ((data_length_digits s)[0 := data_length_digits s ! 0 + n])\<rparr>"

function process_blocks :: "32 word list \<Rightarrow> bytes \<Rightarrow> 32 word list \<Rightarrow> bytes \<times> 32 word list" where
  "process_blocks K p h = (if 64 \<le> length p then process_blocks K (drop 64 p) (hash256_block K (take 64 p) h) else (p, h))"
  by pat_completeness auto
termination
  by (relation "measure (\<lambda>(K, p, h). length p)") auto

definition process :: "32 word list \<Rightarrow> bytes \<Rightarrow> hash256_one_by_one \<Rightarrow> hash256_one_by_one" where
  "process K data s =
     (let s = add_to_data_length (word_of_nat (length data)) s;
          (rest, h) = process_blocks K (sha_buffer s @ data) (sha_h s)
      in s\<lparr>sha_buffer := rest, sha_h := h\<rparr>)"

fun shift_loop :: "32 word \<Rightarrow> 32 word list \<Rightarrow> 32 word list" where
  "shift_loop carry [] = []"
| "shift_loop carry (d # ds) =
     ((push_bit 3 d OR carry) AND 65535) # shift_loop (drop_bit (16 - 3) d AND 65535) ds"

definition write_data_bit_length :: "hash256_one_by_one \<Rightarrow> bytes" where
  "write_data_bit_length s = concat (map (\<lambda>d. [ucast (drop_bit 8 d), ucast d]) (rev (shift_loop 0 (data_length_digits s))))"

definition finish :: "32 word list \<Rightarrow> hash256_one_by_one \<Rightarrow> hash256_one_by_one" where
  "finish K s =
     (let remains = length (sha_buffer s);
          temp = sha_buffer s @ [0x80];
          h = (if remains > 55 then hash256_block K (temp @ replicate (64 - (remains + 1)) 0) (sha_h s) else sha_h s);
          temp = (if remains > 55 then replicate 56 0 else temp @ replicate (56 - (remains + 1)) 0)
      in s\<lparr>sha_h := hash256_block K (temp @ write_data_bit_length s) h\<rparr>)"

definition get_hash_bytes :: "nat \<Rightarrow> hash256_one_by_one \<Rightarrow> bytes" where
  "get_hash_bytes n s =
     take n (concat (map (\<lambda>w. map (\<lambda>i. mask_8bit (ucast (drop_bit (24 - 8 * i) w))) [0..<4]) (sha_h s)))"

definition hash256 :: "32 word list \<Rightarrow> bytes \<Rightarrow> nat \<Rightarrow> bytes" where
  "hash256 K data n = get_hash_bytes n (finish K (process K data hash256_init))"

definition ComputeFrom :: "32 word list \<Rightarrow> bytes \<Rightarrow> bytes" where
  "ComputeFrom K data = take kByteLength (hash256 K data 32)"

section \<open>The standard\<close>

text \<open>SHA-256 as FIPS 180-4 defines it, over the same table: the schedule as a recursive function, rotations of words, the
  padding with the length in bits, and the blocks of the padded message one after the other.\<close>

definition be_word :: "bytes \<Rightarrow> 32 word" where
  "be_word bs = fold (\<lambda>b x. push_bit 8 x OR ucast b) bs 0"

fun sha_W :: "bytes \<Rightarrow> nat \<Rightarrow> 32 word" where
  "sha_W p t = (if t < 16 then be_word (take 4 (drop (4 * t) p))
     else (word_rotr 17 (sha_W p (t - 2)) XOR word_rotr 19 (sha_W p (t - 2)) XOR drop_bit 10 (sha_W p (t - 2))) + sha_W p (t - 7) +
       (word_rotr 7 (sha_W p (t - 15)) XOR word_rotr 18 (sha_W p (t - 15)) XOR drop_bit 3 (sha_W p (t - 15))) + sha_W p (t - 16))"

declare sha_W.simps [simp del]

fun sha_step :: "32 word \<Rightarrow> 32 word \<Rightarrow> working \<Rightarrow> working" where
  "sha_step k w (a, b, c, d, e, f, g, h) =
     (let t1 = h + (word_rotr 6 e XOR word_rotr 11 e XOR word_rotr 25 e) + ((e AND f) XOR (NOT e AND g)) + k + w;
          t2 = (word_rotr 2 a XOR word_rotr 13 a XOR word_rotr 22 a) + ((a AND b) XOR (a AND c) XOR (b AND c))
      in (t1 + t2, a, b, c, d + t1, e, f, g))"

fun sha_add :: "32 word list \<Rightarrow> working \<Rightarrow> 32 word list" where
  "sha_add md (a, b, c, d, e, f, g, h) = map2 (+) md [a, b, c, d, e, f, g, h]"

definition sha_compress :: "32 word list \<Rightarrow> bytes \<Rightarrow> 32 word list \<Rightarrow> 32 word list" where
  "sha_compress K p md = sha_add md (fold (\<lambda>t. sha_step (K ! t) (sha_W p t)) [0..<64]
     (md ! 0, md ! 1, md ! 2, md ! 3, md ! 4, md ! 5, md ! 6, md ! 7))"

definition be_bytes :: "nat \<Rightarrow> 'a::len word \<Rightarrow> bytes" where
  "be_bytes n x = map (\<lambda>i. ucast (drop_bit (8 * (n - 1 - i)) x)) [0..<n]"

definition sha_pad :: "bytes \<Rightarrow> bytes" where
  "sha_pad msg = msg @ 0x80 # replicate ((119 - length msg mod 64) mod 64) 0 @ be_bytes 8 (word_of_nat (8 * length msg) :: 64 word)"

fun sha_blocks :: "bytes \<Rightarrow> bytes list" where
  "sha_blocks [] = []"
| "sha_blocks (b # bs) = take 64 (b # bs) # sha_blocks (drop 63 bs)"

definition sha256 :: "32 word list \<Rightarrow> bytes \<Rightarrow> bytes" where
  "sha256 K msg = concat (map (be_bytes 4) (fold (sha_compress K) (sha_blocks (sha_pad msg)) initial_message_digest))"

section \<open>The code computes it\<close>

lemma mask_32bit_eq [simp]: "mask_32bit x = x"
proof -
  have "x AND mask 32 = x" using take_bit_eq_mask[of 32 x] take_bit_word_eq_self[of 32 x] by simp
  then show ?thesis by (simp add: mask_32bit_def mask_eq_exp_minus_1)
qed

lemma mask_8bit_eq [simp]: "mask_8bit x = x"
proof -
  have "x AND mask 8 = x" using take_bit_eq_mask[of 8 x] take_bit_word_eq_self[of 8 x] by simp
  then show ?thesis by (simp add: mask_8bit_def mask_eq_exp_minus_1)
qed

lemma rotr_eq:
  assumes "0 < n" and "n < 32"
  shows "rotr x n = word_rotr n x"
  unfolding rotr_def mask_32bit_eq
proof (rule bit_word_eqI)
  fix k assume k: "k < LENGTH(32)"
  then have "bit (word_rotr n x) k \<longleftrightarrow> bit x ((k + n) mod 32)" by (simp add: bit_word_rotr_iff)
  moreover have "bit (drop_bit n x OR push_bit (32 - n) x) k \<longleftrightarrow> bit x (n + k) \<or> 32 - n \<le> k \<and> bit x (k - (32 - n))"
    using k by (simp add: bit_simps)
  moreover have "\<not> bit x (n + k)" if "32 \<le> n + k" using that bit_imp_le_length[of x "n + k"] by auto
  moreover have "(k + n) mod 32 = (if n + k < 32 then n + k else k - (32 - n))" using k assms by (simp add: mod_if)
  ultimately show "bit (drop_bit n x OR push_bit (32 - n) x) k = bit (word_rotr n x) k"
    using assms by (cases "n + k < 32") auto
qed

lemma load_word_eq:
  assumes "4 * i + 4 \<le> length p"
  shows "load_word p i = be_word (take 4 (drop (4 * i) p))"
proof -
  have four: "\<exists>a b c d. xs = [a, b, c, d]" if "length xs = 4" for xs :: bytes
    using that by (auto simp: length_Suc_conv numeral_eq_Suc)
  obtain a b c d where l: "take 4 (drop (4 * i) p) = [a, b, c, d]" using four[of "take 4 (drop (4 * i) p)"] assms by auto
  have "p ! (4 * i + k) = [a, b, c, d] ! k" if "k < 4" for k
    using that assms unfolding l[symmetric] by simp
  from this[of 0] this[of 1] this[of 2] this[of 3] have
    "p ! (i * 4) = a" "p ! (i * 4 + 1) = b" "p ! (i * 4 + 2) = c" "p ! (i * 4 + 3) = d"
    by (simp_all add: mult.commute numeral_eq_Suc)
  then show ?thesis unfolding l
    by (simp add: load_word_def be_word_def push_bit_or or.assoc)
qed

lemma load_loop:
  assumes "n \<le> length w"
  shows "length (fold (\<lambda>i w. w[i := f i]) [0..<n] w) = length w \<and> (\<forall>t < n. fold (\<lambda>i w. w[i := f i]) [0..<n] w ! t = f t)"
  using assms by (induction n) (auto simp: nth_list_update less_Suc_eq)

lemma extend_loop:
  assumes "length w = 64" and "\<forall>t < 16. w ! t = sha_W p t" and "16 + n \<le> 64"
  shows "length (fold extend_word [16..<16 + n] w) = 64 \<and> (\<forall>t < 16 + n. fold extend_word [16..<16 + n] w ! t = sha_W p t)"
  using assms(3)
proof (induction n)
  case 0
  then show ?case using assms by simp
next
  case (Suc n)
  let ?m = "16 + n" and ?w = "fold extend_word [16..<16 + n] w"
  have w: "length ?w = 64" "\<forall>t < ?m. ?w ! t = sha_W p t" using Suc by simp_all
  have "sha_W p ?m = ssig1 (sha_W p (?m - 2)) + sha_W p (?m - 7) + ssig0 (sha_W p (?m - 15)) + sha_W p (?m - 16)"
    by (subst sha_W.simps) (simp add: ssig0_def ssig1_def rotr_eq shr_def)
  then have "extend_word ?m ?w = ?w[?m := sha_W p ?m]" using w(2) by (simp add: extend_word_def)
  moreover have "[16..<16 + Suc n] = [16..<?m] @ [?m]" by (metis add_Suc_right le_add1 upt_Suc_append)
  ultimately have "fold extend_word [16..<16 + Suc n] w = ?w[?m := sha_W p ?m]" by (simp del: upt_Suc)
  with w Suc.prems show ?case by (auto simp: nth_list_update less_Suc_eq simp del: upt_Suc)
qed

lemma message_schedule_eq:
  assumes "length p = 64" and "t < 64"
  shows "message_schedule p ! t = sha_W p t"
proof -
  let ?w = "fold (\<lambda>i w. w[i := load_word p i]) [0..<16] (replicate 64 0)"
  have w: "length ?w = 64 \<and> (\<forall>t < 16. ?w ! t = load_word p t)"
    using load_loop[of 16 "replicate 64 0" "load_word p"] by simp
  have "load_word p t = sha_W p t" if "t < 16" for t
    using that load_word_eq[of t p] assms(1) by (simp add: sha_W.simps)
  with w have "\<forall>t < 16. ?w ! t = sha_W p t" by simp
  with extend_loop[of ?w p 48] w assms(2) show ?thesis by (simp add: message_schedule_def)
qed

lemma sha_round_eq: "sha_round k w s = sha_step k w s"
  by (cases s rule: prod_cases7; cases "snd (snd (snd (snd (snd (snd s)))))") (simp add: sha_round_def Let_def bsig0_def bsig1_def ch_def maj_def rotr_eq)

lemma hash256_block_eq:
  assumes "length p = 64" and "length md = 8"
  shows "hash256_block K p md = sha_compress K p md"
proof -
  obtain a b c d e f g h where md: "md = [a, b, c, d, e, f, g, h]"
    using assms(2) by (auto simp: length_Suc_conv numeral_eq_Suc)
  have "fold (\<lambda>i. sha_round (K ! i) (message_schedule p ! i)) [0..<64] s =
      fold (\<lambda>t. sha_step (K ! t) (sha_W p t)) [0..<64] s" for s
    using message_schedule_eq[OF assms(1)] by (intro fold_cong) (auto simp: sha_round_eq)
  then show ?thesis
    by (simp add: hash256_block_def sha_compress_def Let_def md split: prod.split)
qed

lemma sha_add_length: "length md = 8 \<Longrightarrow> length (sha_add md s) = 8"
  by (induction md s rule: sha_add.induct) simp

lemma sha_compress_length: "length md = 8 \<Longrightarrow> length (sha_compress K p md) = 8"
  by (simp add: sha_compress_def sha_add_length)

lemma sha_blocks_eq: "bs \<noteq> [] \<Longrightarrow> sha_blocks bs = take 64 bs # sha_blocks (drop 64 bs)"
  by (cases bs) simp_all

lemma sha_blocks_append: "length xs = 64 * n \<Longrightarrow> sha_blocks (xs @ ys) = sha_blocks xs @ sha_blocks ys"
proof (induction n arbitrary: xs)
  case (Suc n)
  then have "xs \<noteq> []" "length (drop 64 xs) = 64 * n" "64 \<le> length xs" by auto
  with Suc.IH[of "drop 64 xs"] show ?case by (simp add: sha_blocks_eq)
qed simp

declare process_blocks.simps [simp del]

lemma process_blocks_eq:
  assumes "length h = 8"
  shows "process_blocks K p h = (drop (64 * (length p div 64)) p, fold (sha_compress K) (sha_blocks (take (64 * (length p div 64)) p)) h) \<and>
    length (snd (process_blocks K p h)) = 8"
  using assms
proof (induction K p h rule: process_blocks.induct)
  case (1 K p h)
  show ?case
  proof (cases "64 \<le> length p")
    case True
    let ?n = "length (drop 64 p) div 64"
    have n: "length p div 64 = Suc ?n" using True by (simp add: le_div_geq)
    have b: "hash256_block K (take 64 p) h = sha_compress K (take 64 p) h" using True 1(2) by (simp add: hash256_block_eq)
    have "take (64 * Suc ?n) p = take 64 p @ take (64 * ?n) (drop 64 p)" by (simp add: take_add)
    moreover have "p \<noteq> []" using True by auto
    ultimately have "sha_blocks (take (64 * Suc ?n) p) = take 64 p # sha_blocks (take (64 * ?n) (drop 64 p))"
      using True sha_blocks_eq[of "take (64 * Suc ?n) p"] by auto
    then show ?thesis using 1(1)[OF True] 1(2) b n True
      by (auto simp: process_blocks.simps[of K p] sha_compress_length add.commute)
  next
    case False
    then show ?thesis using 1(2) by (simp add: process_blocks.simps[of K p])
  qed
qed

text \<open>The length in bits, from the four digits.\<close>

lemma and_65535: "x AND 65535 = take_bit 16 x" for x :: "32 word"
  by (simp add: take_bit_eq_mask mask_eq_exp_minus_1)

lemma length_digits: "data_length_digits (add_to_data_length x hash256_init) = [take_bit 16 x, drop_bit 16 x, 0, 0]"
proof -
  have u: "unat (drop_bit 16 x) = unat x div 65536" unfolding unat_drop_bit_eq by (simp add: drop_bit_eq_div)
  then have "unat (drop_bit 16 x) < 65536" using unsigned_less[of x] by (simp add: div_less_iff_less_mult)
  then have less: "\<not> 65536 \<le> drop_bit 16 x" by (simp add: word_le_nat_alt)
  show ?thesis
  proof (cases "65536 \<le> x")
    case True
    then show ?thesis using less by (simp add: add_to_data_length_def hash256_init_def and_65535)
  next
    case False
    then have x: "unat x < 65536" by (simp add: word_le_nat_alt)
    then have d: "drop_bit 16 x = 0" using u by (simp add: unat_eq_0)
    moreover have "take_bit 16 x = x" using bits_ident[of 16 x] unfolding d by simp
    ultimately show ?thesis using False by (simp add: add_to_data_length_def hash256_init_def)
  qed
qed

lemma bit_length_bytes:
  assumes "n < 2 ^ 32" and "data_length_digits s = data_length_digits (add_to_data_length (word_of_nat n) hash256_init)"
  shows "write_data_bit_length s = be_bytes 8 (word_of_nat (8 * n) :: 64 word)"
proof -
  define x where "x = (word_of_nat n :: 32 word)"
  have n: "word_of_nat (8 * n) = push_bit 3 (ucast x :: 64 word)"
    using assms(1) by (simp add: x_def push_bit_eq_mult unsigned_of_nat take_bit_nat_eq_self)
  have l: "[0..<8] = [0, 1, 2, 3, 4, 5, 6, 7 :: nat]" by (simp add: upt_rec)
  have d: "data_length_digits s = [take_bit 16 x, drop_bit 16 x, 0, 0]"
    unfolding assms(2) by (simp add: length_digits x_def)
  show ?thesis
    unfolding n write_data_bit_length_def be_bytes_def d l
    apply (simp add: and_65535)
    apply (intro conjI)
    apply (rule bit_word_eqI; auto simp: bit_simps dest: bit_imp_le_length)+
    done
qed

lemma process_init:
  fixes data :: bytes
  defines "q \<equiv> 64 * (length data div 64)"
  shows "process K data hash256_init = (add_to_data_length (word_of_nat (length data)) hash256_init)
    \<lparr>sha_buffer := drop q data, sha_h := fold (sha_compress K) (sha_blocks (take q data)) initial_message_digest\<rparr>"
    and "length (sha_h (process K data hash256_init)) = 8"
  using process_blocks_eq[of initial_message_digest K data]
  by (auto simp: process_def q_def add_to_data_length_def hash256_init_def initial_message_digest_def Let_def)

lemma sha_blocks_one: "length p = 64 \<Longrightarrow> sha_blocks p = [p]"
  by (cases p) simp_all

lemma finish_eq:
  assumes "length (sha_buffer s) = r" and "r < 64" and "length (sha_h s) = 8" and "length (write_data_bit_length s) = 8"
  shows "sha_h (finish K s) = fold (sha_compress K)
    (sha_blocks (sha_buffer s @ 0x80 # replicate ((119 - r) mod 64) 0 @ write_data_bit_length s)) (sha_h s)"
proof (cases "r > 55")
  case True
  let ?p = "sha_buffer s @ 0x80 # replicate (63 - r) 0" and ?q = "replicate 56 0 @ write_data_bit_length s"
  have k: "(119 - r) mod 64 = (63 - r) + 56" using True assms(2) by (simp add: mod_if)
  have "sha_buffer s @ 0x80 # replicate ((119 - r) mod 64) 0 @ write_data_bit_length s = ?p @ ?q"
    unfolding k replicate_add by simp
  moreover have "length ?p = 64" "length ?q = 64" using assms by simp_all
  moreover from this have "sha_blocks (?p @ ?q) = [?p, ?q]" using sha_blocks_append[of ?p 1 ?q] sha_blocks_one by simp
  ultimately show ?thesis using True assms
    by (simp add: finish_def Let_def hash256_block_eq sha_compress_length)
next
  case False
  let ?p = "sha_buffer s @ 0x80 # replicate (55 - r) 0 @ write_data_bit_length s"
  have "(119 - r) mod 64 = 55 - r" using False by (simp add: mod_if)
  moreover have "length ?p = 64" using False assms by simp
  ultimately show ?thesis using False assms by (simp add: finish_def Let_def sha_blocks_one hash256_block_eq)
qed

lemma be_bytes_4: "map (\<lambda>i. ucast (drop_bit (24 - 8 * i) w)) [0..<4] = be_bytes 4 w"
  by (simp add: be_bytes_def upt_rec)

lemma length_be_bytes: "length (concat (map (be_bytes n) ws)) = n * length ws"
  by (induction ws) (simp_all add: be_bytes_def)

text \<open>C24. The hash function of the build without the cryptographic library is the construction of SHA-256,
  for every table of round constants and data shorter than 2^32 bytes: the padding with its boundary
  cases, the length that is kept in four 16-bit digits, the schedule in an array and the rounds give
  the digest that the standard defines.\<close>

theorem hash256_is_sha256:
  assumes "length data < 2 ^ 32"
  shows "hash256 K data 32 = sha256 K data"
proof -
  let ?s = "process K data hash256_init" and ?q = "64 * (length data div 64)"
  have r: "length (sha_buffer ?s) = length data mod 64" "sha_buffer ?s = drop ?q data"
    by (simp_all add: process_init minus_mult_div_eq_mod)
  have len: "write_data_bit_length ?s = be_bytes 8 (word_of_nat (8 * length data) :: 64 word)"
    by (rule bit_length_bytes[OF assms]) (simp add: process_init)
  have pad: "sha_pad data = take ?q data @ sha_buffer ?s @ 0x80 # replicate ((119 - length data mod 64) mod 64) 0 @ write_data_bit_length ?s"
    by (simp add: sha_pad_def r(2) len)
  have h: "sha_h ?s = fold (sha_compress K) (sha_blocks (take ?q data)) initial_message_digest" by (simp add: process_init(1))
  have "sha_h (finish K ?s) = fold (sha_compress K)
      (sha_blocks (sha_buffer ?s @ 0x80 # replicate ((119 - length data mod 64) mod 64) 0 @ write_data_bit_length ?s)) (sha_h ?s)"
    by (rule finish_eq[OF r(1) _ process_init(2)]) (simp_all add: len be_bytes_def)
  also have "\<dots> = fold (sha_compress K) (sha_blocks (sha_pad data)) initial_message_digest"
    unfolding pad h by (subst sha_blocks_append[of _ "length data div 64"]) simp_all
  finally have "sha_h (finish K ?s) = fold (sha_compress K) (sha_blocks (sha_pad data)) initial_message_digest" .
  moreover have "length (sha_h (finish K ?s)) = 8" by (simp add: finish_def Let_def hash256_block_def split: prod.split)
  ultimately show ?thesis
    by (simp add: hash256_def get_hash_bytes_def sha256_def be_bytes_4 length_be_bytes)
qed

theorem hash256_is_sha256_witness:
  "length [0x61, 0x62, 0x63 :: byte] < 2 ^ 32 \<and>
   hash256 (map word_of_nat [0..<64]) [0x61, 0x62, 0x63] 32 = sha256 (map word_of_nat [0..<64]) [0x61, 0x62, 0x63]"
  using hash256_is_sha256[of "[0x61, 0x62, 0x63]" "map word_of_nat [0..<64]"] by (simp del: upt_rec_numeral)

section \<open>Hash values\<close>

text \<open>What the other theories assume of the hash function.\<close>

lemma length_hash256: "length (hash256 K data n) = min n 32"
proof -
  have "length (sha_h (finish K s)) = 8" for s by (simp add: finish_def Let_def hash256_block_def split: prod.split)
  then show ?thesis by (simp add: hash256_def get_hash_bytes_def be_bytes_4 length_be_bytes)
qed

lemma digest_ok_ComputeFrom: "digest_ok (ComputeFrom K)"
  by (simp add: digest_ok_def ComputeFrom_def length_hash256 kByteLength_def)

text \<open>Comparisons.  The null pointer of an empty hash is below every other pointer.\<close>

definition hash_compare :: "hash \<Rightarrow> hash \<Rightarrow> int option" where
  "hash_compare lhs rhs =
     (case (lhs, rhs) of
        (Some p, Some q) \<Rightarrow> do { x \<leftarrow> rd_bytes kByteLength p 0; y \<leftarrow> rd_bytes kByteLength q 0; Some (memcmp x y) }
      | (None, None) \<Rightarrow> Some 0 | (None, Some _) \<Rightarrow> Some (- 1) | (Some _, None) \<Rightarrow> Some 1)"

definition Hash_less :: "hash \<Rightarrow> hash \<Rightarrow> bool option" where
  "Hash_less lhs rhs = map_option (\<lambda>c. c < 0) (hash_compare lhs rhs)"

definition Hash_greater :: "hash \<Rightarrow> hash \<Rightarrow> bool option" where
  "Hash_greater lhs rhs = map_option (\<lambda>c. c > 0) (hash_compare lhs rhs)"

definition Hash_eq :: "hash \<Rightarrow> hash \<Rightarrow> bool option" where
  "Hash_eq lhs rhs = map_option (\<lambda>c. c = 0) (hash_compare lhs rhs)"

definition Hash_Clone :: "hash \<Rightarrow> hash option" where
  "Hash_Clone h = (case h of None \<Rightarrow> Some None | Some p \<Rightarrow> map_option Some (rd_bytes kByteLength p 0))"

text \<open>The number under which an unordered map files a hash: its first eight bytes.\<close>

definition hash_bucket :: "hash \<Rightarrow> nat option" where
  "hash_bucket h = do { p \<leftarrow> h; rd 8 p 0 }"

definition hash_full :: "hash \<Rightarrow> bool" where
  "hash_full h \<longleftrightarrow> (\<forall>p. h = Some p \<longrightarrow> length p = kByteLength)"

lemma Hash_eq_iff: "hash_full a \<Longrightarrow> hash_full b \<Longrightarrow> Hash_eq a b = Some (a = b)"
  by (auto simp: Hash_eq_def hash_compare_def hash_full_def rd_bytes_def memcmp_eq_0 split: option.splits)

lemma Hash_less_iff: "hash_full a \<Longrightarrow> hash_full b \<Longrightarrow>
    Hash_less a b = Some (case (a, b) of (Some p, Some q) \<Rightarrow> p < q | (None, Some _) \<Rightarrow> True | _ \<Rightarrow> False)"
  by (auto simp: Hash_less_def hash_compare_def hash_full_def rd_bytes_def memcmp_neg split: option.splits)

lemma Hash_greater_iff: "hash_full a \<Longrightarrow> hash_full b \<Longrightarrow> Hash_greater a b = Hash_less b a"
  by (auto simp: Hash_less_def Hash_greater_def hash_compare_def hash_full_def rd_bytes_def memcmp_neg memcmp_pos split: option.splits)

lemma Hash_Clone_full: "hash_full h \<Longrightarrow> Hash_Clone h = Some h"
  by (auto simp: Hash_Clone_def hash_full_def rd_bytes_def split: option.splits)

end
