(* ===== verification/Murmur.thy ===== *)
theory Murmur
  imports Prelude
begin

unbundle bit_operations_syntax

text \<open>
  The hash functions of keys in unordered maps: include/hash/murmurhash.h, src/hash/murmurhash3.cc.
  The key is the list of its bytes, whose length fits into an \<open>int\<close>; words are read in little-endian
  order.
\<close>

section \<open>Mixing\<close>

definition ROTL32 :: "32 word \<Rightarrow> nat \<Rightarrow> 32 word" where
  "ROTL32 x r = push_bit r x OR drop_bit (32 - r) x"

definition ROTL64 :: "64 word \<Rightarrow> nat \<Rightarrow> 64 word" where
  "ROTL64 x r = push_bit r x OR drop_bit (64 - r) x"

definition getblock32 :: "bytes \<Rightarrow> nat \<Rightarrow> 32 word" where
  "getblock32 p i = word_of_nat (le_val (take 4 (drop (4 * i) p)))"

definition getblock64 :: "bytes \<Rightarrow> nat \<Rightarrow> 64 word" where
  "getblock64 p i = word_of_nat (le_val (take 8 (drop (8 * i) p)))"

definition fmix32 :: "32 word \<Rightarrow> 32 word" where
  "fmix32 h =
     (let h = h XOR drop_bit 16 h;
          h = h * 0x85ebca6b;
          h = h XOR drop_bit 13 h;
          h = h * 0xc2b2ae35
      in h XOR drop_bit 16 h)"

definition fmix64 :: "64 word \<Rightarrow> 64 word" where
  "fmix64 k =
     (let k = k XOR drop_bit 33 k;
          k = k * 0xff51afd7ed558ccd;
          k = k XOR drop_bit 33 k;
          k = k * 0xc4ceb9fe1a85ec53
      in k XOR drop_bit 33 k)"

section \<open>The 32-bit hash\<close>

definition mix_x86_32 :: "32 word \<Rightarrow> 32 word" where
  "mix_x86_32 k1 = ROTL32 (k1 * 0xcc9e2d51) 15 * 0x1b873593"

definition body_x86_32 :: "bytes \<Rightarrow> nat \<Rightarrow> 32 word \<Rightarrow> 32 word" where
  "body_x86_32 data i h1 = ROTL32 (h1 XOR mix_x86_32 (getblock32 data i)) 13 * 5 + 0xe6546b64"

text \<open>The cases of the switch fall through: bytes \<open>lo\<close> to \<open>hi\<close> of the tail, as far as there are any.\<close>

definition tail_bits :: "bytes \<Rightarrow> nat \<Rightarrow> nat \<Rightarrow> 'a::len word" where
  "tail_bits tail lo hi = fold (\<lambda>j k. if j < length tail then k XOR push_bit (8 * (j - lo)) (ucast (tail ! j)) else k) [lo..<hi] 0"

definition MurmurHash3_x86_32 :: "bytes \<Rightarrow> 32 word \<Rightarrow> 32 word" where
  "MurmurHash3_x86_32 data seed =
     (let len = length data;
          nblocks = len div 4;
          h1 = fold (body_x86_32 data) [0..<nblocks] seed;
          tail = drop (nblocks * 4) data;
          h1 = (if length tail \<ge> 1 then h1 XOR mix_x86_32 (tail_bits tail 0 3) else h1)
      in fmix32 (h1 XOR word_of_nat len))"

definition MurmurHash32 :: "bytes \<Rightarrow> 32 word" where
  "MurmurHash32 key = MurmurHash3_x86_32 key 0xbc9f1d34"

definition MurmurHash :: "bytes \<Rightarrow> 64 word" where
  "MurmurHash key = ucast (MurmurHash32 key)"

section \<open>The 128-bit hashes\<close>

definition body_x86_128 :: "bytes \<Rightarrow> nat \<Rightarrow> 32 word \<times> 32 word \<times> 32 word \<times> 32 word \<Rightarrow> 32 word \<times> 32 word \<times> 32 word \<times> 32 word" where
  "body_x86_128 data i h = (case h of (h1, h2, h3, h4) \<Rightarrow>
     let c1 = 0x239b961b; c2 = 0xab0e9789; c3 = 0x38b34ae5; c4 = 0xa1e38b93;
         h1 = h1 XOR ROTL32 (getblock32 data (i * 4 + 0) * c1) 15 * c2;
         h1 = (ROTL32 h1 19 + h2) * 5 + 0x561ccd1b;
         h2 = h2 XOR ROTL32 (getblock32 data (i * 4 + 1) * c2) 16 * c3;
         h2 = (ROTL32 h2 17 + h3) * 5 + 0x0bcaa747;
         h3 = h3 XOR ROTL32 (getblock32 data (i * 4 + 2) * c3) 17 * c4;
         h3 = (ROTL32 h3 15 + h4) * 5 + 0x96cd1c35;
         h4 = h4 XOR ROTL32 (getblock32 data (i * 4 + 3) * c4) 18 * c1;
         h4 = (ROTL32 h4 13 + h1) * 5 + 0x32ac3b17
     in (h1, h2, h3, h4))"

definition MurmurHash3_x86_128 :: "bytes \<Rightarrow> 32 word \<Rightarrow> 32 word list" where
  "MurmurHash3_x86_128 data seed =
     (let len = length data;
          nblocks = len div 16;
          c1 = 0x239b961b; c2 = 0xab0e9789; c3 = 0x38b34ae5; c4 = 0xa1e38b93;
          (h1, h2, h3, h4) = fold (body_x86_128 data) [0..<nblocks] (seed, seed, seed, seed);
          tail = drop (nblocks * 16) data;
          h4 = (if length tail \<ge> 13 then h4 XOR ROTL32 (tail_bits tail 12 15 * c4) 18 * c1 else h4);
          h3 = (if length tail \<ge> 9 then h3 XOR ROTL32 (tail_bits tail 8 12 * c3) 17 * c4 else h3);
          h2 = (if length tail \<ge> 5 then h2 XOR ROTL32 (tail_bits tail 4 8 * c2) 16 * c3 else h2);
          h1 = (if length tail \<ge> 1 then h1 XOR ROTL32 (tail_bits tail 0 4 * c1) 15 * c2 else h1);
          n = word_of_nat len;
          h1 = h1 XOR n; h2 = h2 XOR n; h3 = h3 XOR n; h4 = h4 XOR n;
          h1 = h1 + h2 + h3 + h4; h2 = h2 + h1; h3 = h3 + h1; h4 = h4 + h1;
          h1 = fmix32 h1; h2 = fmix32 h2; h3 = fmix32 h3; h4 = fmix32 h4;
          h1 = h1 + h2 + h3 + h4
      in [h1, h2 + h1, h3 + h1, h4 + h1])"

definition body_x64_128 :: "bytes \<Rightarrow> nat \<Rightarrow> 64 word \<times> 64 word \<Rightarrow> 64 word \<times> 64 word" where
  "body_x64_128 data i h = (case h of (h1, h2) \<Rightarrow>
     let c1 = 0x87c37b91114253d5; c2 = 0x4cf5ad432745937f;
         h1 = h1 XOR ROTL64 (getblock64 data (i * 2 + 0) * c1) 31 * c2;
         h1 = (ROTL64 h1 27 + h2) * 5 + 0x52dce729;
         h2 = h2 XOR ROTL64 (getblock64 data (i * 2 + 1) * c2) 33 * c1;
         h2 = (ROTL64 h2 31 + h1) * 5 + 0x38495ab5
     in (h1, h2))"

definition MurmurHash3_x64_128 :: "bytes \<Rightarrow> 32 word \<Rightarrow> 64 word list" where
  "MurmurHash3_x64_128 data seed =
     (let len = length data;
          nblocks = len div 16;
          c1 = 0x87c37b91114253d5; c2 = 0x4cf5ad432745937f;
          (h1, h2) = fold (body_x64_128 data) [0..<nblocks] (ucast seed, ucast seed);
          tail = drop (nblocks * 16) data;
          h2 = (if length tail \<ge> 9 then h2 XOR ROTL64 (tail_bits tail 8 15 * c2) 33 * c1 else h2);
          h1 = (if length tail \<ge> 1 then h1 XOR ROTL64 (tail_bits tail 0 8 * c1) 31 * c2 else h1);
          n = word_of_nat len;
          h1 = h1 XOR n; h2 = h2 XOR n;
          h1 = h1 + h2; h2 = h2 + h1;
          h1 = fmix64 h1; h2 = fmix64 h2;
          h1 = h1 + h2
      in [h1, h2 + h1])"

section \<open>Mixing loses nothing\<close>

lemma xorshift_inj:
  assumes "0 < n" and "x XOR drop_bit n x = y XOR drop_bit n (y :: 'a::len word)"
  shows "x = y"
proof (rule bit_word_eqI)
  have eq: "(bit x k \<noteq> bit x (n + k)) = (bit y k \<noteq> bit y (n + k))" for k
    using arg_cong[OF assms(2), of "\<lambda>w. bit w k"] by (simp add: bit_simps)
  have "bit x k = bit y k" for k
  proof (induction "LENGTH('a) - k" arbitrary: k rule: less_induct)
    case less
    show ?case
    proof (cases "k < LENGTH('a)")
      case True
      then have "bit x (n + k) = bit y (n + k)" using assms(1) by (intro less) simp
      with eq[of k] show ?thesis by blast
    qed (auto dest: bit_imp_le_length)
  qed
  then show "bit x k = bit y k" for k .
qed

lemma xor_inj: "x XOR z = y XOR z \<Longrightarrow> x = (y :: 'a::len word)"
  by (rule bit_word_eqI) (metis bit_xor_iff)

lemma xor_inj': "z XOR x = z XOR y \<Longrightarrow> x = (y :: 'a::len word)"
  unfolding xor.commute[of z] by (rule xor_inj)

lemma mult_inj: "c * d = 1 \<Longrightarrow> x * c = y * c \<Longrightarrow> x = (y :: 'a::len word)"
  by (metis mult.assoc mult.right_neutral)

lemma fmix32_inj: "fmix32 x = fmix32 y \<Longrightarrow> x = y"
proof -
  have c: "(0x85ebca6b :: 32 word) * 0xa5cb9243 = 1" "(0xc2b2ae35 :: 32 word) * 0x7ed1b41d = 1" by simp_all
  assume "fmix32 x = fmix32 y"
  then show ?thesis unfolding fmix32_def Let_def
    by (auto dest!: xorshift_inj[rotated] mult_inj[OF c(1)] mult_inj[OF c(2)])
qed

lemma fmix64_inj: "fmix64 x = fmix64 y \<Longrightarrow> x = y"
proof -
  have c: "(0xff51afd7ed558ccd :: 64 word) * 0x4f74430c22a54005 = 1" "(0xc4ceb9fe1a85ec53 :: 64 word) * 0x9cb4b2f8129337db = 1"
    by simp_all
  assume "fmix64 x = fmix64 y"
  then show ?thesis unfolding fmix64_def Let_def
    by (auto dest!: xorshift_inj[rotated] mult_inj[OF c(1)] mult_inj[OF c(2)])
qed

lemma bit_rotl32_murmur:
  assumes "r < 32" and "k < 32"
  shows "bit (ROTL32 x r) k \<longleftrightarrow> bit x (if r \<le> k then k - r else k + 32 - r)"
proof -
  have "\<not> bit x (32 - r + k)" if "r \<le> k" using that assms bit_imp_le_length[of x "32 - r + k"] by auto
  then show ?thesis using assms by (auto simp: ROTL32_def bit_simps add.commute)
qed

lemma rotl32_inj:
  assumes "ROTL32 x r = ROTL32 y r" and "r < 32"
  shows "x = y"
proof (rule bit_word_eqI)
  fix j assume j: "j < LENGTH(32)"
  show "bit x j = bit y j"
  proof (cases "j + r < 32")
    case True
    then show ?thesis using bit_rotl32_murmur[OF assms(2) True, of x] bit_rotl32_murmur[OF assms(2) True, of y] assms(1) by simp
  next
    case False
    then have k: "j + r - 32 < 32" "\<not> r \<le> j + r - 32" "j + r - 32 + 32 - r = j" using j assms(2) by auto
    show ?thesis using bit_rotl32_murmur[OF assms(2) k(1), of x] bit_rotl32_murmur[OF assms(2) k(1), of y] assms(1) k(2,3) by simp
  qed
qed

lemma mix_x86_32_inj: "mix_x86_32 x = mix_x86_32 y \<Longrightarrow> x = y"
proof -
  have c: "(0xcc9e2d51 :: 32 word) * 0xdee13bb1 = 1" "(0x1b873593 :: 32 word) * 0x56ed309b = 1" by simp_all
  assume "mix_x86_32 x = mix_x86_32 y"
  then show ?thesis unfolding mix_x86_32_def by (auto dest!: mult_inj[OF c(2)] rotl32_inj mult_inj[OF c(1)])
qed

lemma body_x86_32_inj: "body_x86_32 a i h = body_x86_32 b j h \<Longrightarrow> getblock32 a i = getblock32 b j"
proof -
  have c: "(5 :: 32 word) * 0xcccccccd = 1" by simp
  assume "body_x86_32 a i h = body_x86_32 b j h"
  then have "h XOR mix_x86_32 (getblock32 a i) = h XOR mix_x86_32 (getblock32 b j)"
    unfolding body_x86_32_def by (auto dest!: mult_inj[OF c] rotl32_inj)
  then show ?thesis by (blast dest: xor_inj' mix_x86_32_inj)
qed

lemma getblock32_inj:
  assumes "length a = 4" and "length b = 4" and "getblock32 a 0 = getblock32 b 0"
  shows "a = b"
proof -
  have less: "le_val a < 2 ^ 32" "le_val b < 2 ^ 32" using le_val_less[of a] le_val_less[of b] assms by simp_all
  have "le_val a mod 2 ^ 32 = le_val b mod 2 ^ 32"
    using assms by (simp add: getblock32_def word_of_nat_eq_iff take_bit_eq_mod)
  then have "le_val a = le_val b" unfolding mod_less[OF less(1)] mod_less[OF less(2)] .
  then show "a = b" using le_bytes_le_val[OF assms(1)] le_bytes_le_val[OF assms(2)] by metis
qed

definition three_bytes :: "byte \<Rightarrow> byte \<Rightarrow> byte \<Rightarrow> 32 word" where
  "three_bytes a b c = (ucast a XOR push_bit 8 (ucast b)) XOR push_bit 16 (ucast c)"

lemma three_bytes_get:
  "ucast (three_bytes a b c) = a" "ucast (drop_bit 8 (three_bytes a b c)) = b" "ucast (drop_bit 16 (three_bytes a b c)) = c"
  unfolding three_bytes_def by (rule bit_word_eqI; auto simp: bit_simps dest: bit_imp_le_length)+

lemma three_bytes_inj: "three_bytes a b c = three_bytes a' b' c' \<Longrightarrow> a = a' \<and> b = b' \<and> c = c'"
  using three_bytes_get[of a b c] three_bytes_get[of a' b' c'] by simp

lemma tail_bits_inj:
  assumes "length s = length t" and "length t \<le> 3" and "tail_bits s 0 3 = (tail_bits t 0 3 :: 32 word)"
  shows "s = t"
proof -
  have l: "[0..<3] = [0, 1, 2 :: nat]" by (simp add: upt_rec)
  have bits: "tail_bits [a] 0 3 = three_bytes a 0 0" "tail_bits [a, b] 0 3 = three_bytes a b 0" "tail_bits [a, b, c] 0 3 = three_bytes a b c"
    for a b c by (simp_all add: tail_bits_def l three_bytes_def)
  consider "t = []" "s = []" | a a' where "t = [a]" "s = [a']" | a b a' b' where "t = [a, b]" "s = [a', b']"
    | a b c a' b' c' where "t = [a, b, c]" "s = [a', b', c']"
    using assms(1,2) by (cases t; cases "tl t"; cases "tl (tl t)"; cases s; cases "tl s"; cases "tl (tl s)") auto
  then show ?thesis using assms(3) by cases (auto simp: bits dest: three_bytes_inj)
qed

text \<open>Two keys of the same length of at most four bytes never collide.\<close>

lemma murmur_short_keys:
  assumes "length a = length b" and "length b \<le> 4" and "MurmurHash32 a = MurmurHash32 b"
  shows "a = b"
proof (cases "length b = 4")
  case True
  then have "body_x86_32 a 0 0xbc9f1d34 XOR 4 = body_x86_32 b 0 0xbc9f1d34 XOR 4"
    using assms(1,3) by (simp add: MurmurHash32_def MurmurHash3_x86_32_def Let_def fmix32_inj)
  then have "body_x86_32 a 0 0xbc9f1d34 = body_x86_32 b 0 0xbc9f1d34" by (rule xor_inj)
  with True assms(1) show ?thesis by (intro getblock32_inj body_x86_32_inj) simp_all
next
  case False
  show ?thesis
  proof (cases "b = []")
    case nonempty: False
    then have l: "length b div 4 = 0" "1 \<le> length b" "length b \<le> 3" using False assms(2) by (cases b; simp)+
    let ?n = "word_of_nat (length b) :: 32 word" and ?s = "0xbc9f1d34 :: 32 word"
    have "(?s XOR mix_x86_32 (tail_bits a 0 3)) XOR ?n = (?s XOR mix_x86_32 (tail_bits b 0 3)) XOR ?n"
      using assms(1,3) l by (simp add: MurmurHash32_def MurmurHash3_x86_32_def Let_def fmix32_inj)
    then have "mix_x86_32 (tail_bits a 0 3) = mix_x86_32 (tail_bits b 0 3)"
      by (blast dest: xor_inj xor_inj')
    from tail_bits_inj[OF assms(1) l(3) mix_x86_32_inj[OF this]] show ?thesis .
  qed (use assms(1) in simp)
qed

end
