(* ===== verification/Recovery.thy ===== *)
theory Recovery
  imports Cell
begin

text \<open>
  The recovery log: include/recovery/log_record.h, src/recovery/log_record.cc, log_worker.cc and
  log_thread.cc.

  Signed integers are \<open>int\<close>; \<open>enc\<close> and \<open>dec\<close> are their images in memory.  A file is its bytes and
  the position of the descriptor.  The results of \<open>write\<close> and of the thread library are arguments:
  a write fails (\<open>None\<close>) or writes the given number of bytes.  A slice is its pointer and its length.
\<close>

section \<open>Records\<close>

definition enc :: "nat \<Rightarrow> int \<Rightarrow> bytes" where
  "enc k x = le_bytes k (nat (x mod 256 ^ k))"

definition dec :: "nat \<Rightarrow> nat \<Rightarrow> int" where
  "dec k n = (if 2 * n < 256 ^ k then int n else int n - 256 ^ k)"

definition kUpdate :: int where "kUpdate = 111"
definition kRename :: int where "kRename = 112"
definition kRemove :: int where "kRemove = 113"

record LogRecord =
  lr_checksum :: int
  lr_version :: int
  lr_logcmd :: int
  lr_lsn :: int
  lr_key :: "bytes option"
  lr_value :: "bytes option"
  lr_key_length :: int
  lr_value_length :: int
  lr_data_length :: int

definition new_LogRecord :: LogRecord where
  "new_LogRecord = \<lparr>lr_checksum = 0, lr_version = 1, lr_logcmd = 0, lr_lsn = 0, lr_key = None, lr_value = None,
     lr_key_length = 0, lr_value_length = 0, lr_data_length = 0\<rparr>"

text \<open>A negative length as an argument of \<open>append\<close> is beyond the length of every string.\<close>

definition append_field :: "bytes option \<Rightarrow> int \<Rightarrow> bytes option" where
  "append_field ptr n = (case ptr of None \<Rightarrow> Some [] | Some p \<Rightarrow> if n < 0 then None else rd_bytes (nat n) p 0)"

definition LogRecord_ToString :: "LogRecord \<Rightarrow> (bytes \<times> LogRecord) option" where
  "LogRecord_ToString r =
     do { k \<leftarrow> append_field (lr_key r) (lr_key_length r);
          v \<leftarrow> append_field (lr_value r) (lr_value_length r);
          let ret = enc 8 (lr_data_length r) @ enc 8 (lr_checksum r) @ enc 2 (lr_version r) @ enc 2 (lr_logcmd r) @
                    enc 8 (lr_lsn r) @ enc 8 (lr_key_length r) @ enc 8 (lr_value_length r) @ k @ v;
              n = int (length ret)
          in Some (enc 8 n @ drop 8 ret, r\<lparr>lr_data_length := n\<rparr>) }"

text \<open>The copy of a field, and the position behind it.\<close>

definition read_field :: "bytes \<Rightarrow> int \<Rightarrow> nat \<Rightarrow> (bytes option \<times> nat) option" where
  "read_field log_data n pos =
     (if n = 0 then Some (None, pos)
      else if n < 0 then None
      else do { b \<leftarrow> rd_bytes (nat n) log_data pos; Some (Some b, pos + nat n) })"

definition LogRecord_FromString :: "bytes \<Rightarrow> LogRecord option" where
  "LogRecord_FromString log_data =
     do { checksum \<leftarrow> rd 8 log_data 0;
          version \<leftarrow> rd 2 log_data 8;
          logcmd \<leftarrow> rd 2 log_data 10;
          lsn \<leftarrow> rd 8 log_data 12;
          key_length \<leftarrow> rd 8 log_data 20;
          value_length \<leftarrow> rd 8 log_data 28;
          (key, pos) \<leftarrow> read_field log_data (dec 8 key_length) 36;
          (value, pos) \<leftarrow> read_field log_data (dec 8 value_length) pos;
          Some \<lparr>lr_checksum = dec 8 checksum, lr_version = dec 2 version, lr_logcmd = dec 2 logcmd, lr_lsn = dec 8 lsn,
                lr_key = key, lr_value = value, lr_key_length = dec 8 key_length,
                lr_value_length = dec 8 value_length, lr_data_length = int (pos + 8)\<rparr> }"

text \<open>The remainder has the sign of the number.\<close>

definition ComputeChecksum :: "LogRecord \<Rightarrow> LogRecord" where
  "ComputeChecksum r = r\<lparr>lr_checksum :=
     lr_version r * 12 + lr_logcmd r * (sgn (lr_lsn r) * (\<bar>lr_lsn r\<bar> mod 100)) + lr_key_length r - lr_value_length r\<rparr>"

section \<open>The log worker\<close>

record log_file =
  lf_bytes :: bytes
  lf_pos :: nat

definition sys_write :: "nat option \<Rightarrow> bytes \<Rightarrow> log_file \<Rightarrow> int \<times> log_file" where
  "sys_write res data f =
     (case res of
        None \<Rightarrow> (- 1, f)
      | Some n \<Rightarrow>
          let d = take n data
          in (int (length d), f\<lparr>lf_bytes := take (lf_pos f) (lf_bytes f) @ d @ drop (lf_pos f + length d) (lf_bytes f),
                                lf_pos := lf_pos f + length d\<rparr>))"

definition sys_read :: "nat \<Rightarrow> log_file \<Rightarrow> bytes \<times> log_file" where
  "sys_read n f = (let d = take n (drop (lf_pos f) (lf_bytes f)) in (d, f\<lparr>lf_pos := lf_pos f + length d\<rparr>))"

record LogWorker =
  lw_stage :: int
  lw_buffer_indice :: int
  lw_buffer_size :: int
  lw_buffer :: bytes
  lw_timeout :: int
  lw_fd :: "log_file option"
  lw_sync_type :: int
  lw_lsn :: int

definition kDefaultBufferSize :: int where
  "kDefaultBufferSize = 4 * 1024 * 1024"

text \<open>What a new buffer holds is not read before it is written.\<close>

definition new_LogWorker :: "int \<Rightarrow> LogWorker" where
  "new_LogWorker stage = \<lparr>lw_stage = stage, lw_buffer_indice = 0, lw_buffer_size = kDefaultBufferSize,
     lw_buffer = replicate (nat kDefaultBufferSize) 0, lw_timeout = 5000, lw_fd = None, lw_sync_type = 0, lw_lsn = 0\<rparr>"

text \<open>\<open>disk\<close> is what the path names; a normal start creates the file.  The file is not truncated.\<close>

definition LogWorker_Init :: "bytes option \<Rightarrow> LogWorker \<Rightarrow> LogWorker option" where
  "LogWorker_Init disk w =
     (case disk of
        Some bs \<Rightarrow> Some (w\<lparr>lw_fd := Some \<lparr>lf_bytes = bs, lf_pos = 0\<rparr>\<rparr>)
      | None \<Rightarrow> if lw_stage w = 0 then Some (w\<lparr>lw_fd := Some \<lparr>lf_bytes = [], lf_pos = 0\<rparr>\<rparr>) else None)"

definition setBufferSize :: "int \<Rightarrow> LogWorker \<Rightarrow> bool \<times> LogWorker" where
  "setBufferSize buf_size w =
     (if buf_size \<le> 0 then (False, w)
      else if buf_size < lw_buffer_size w then (True, w\<lparr>lw_buffer_size := buf_size\<rparr>)
      else (True, w\<lparr>lw_buffer := replicate (nat buf_size) 0, lw_buffer_size := buf_size\<rparr>))"

definition setSyncType :: "int \<Rightarrow> LogWorker \<Rightarrow> bool \<times> LogWorker" where
  "setSyncType type w = (if type \<noteq> 0 \<and> type \<noteq> 1 then (False, w) else (True, w\<lparr>lw_sync_type := type\<rparr>))"

text \<open>A write to a descriptor that is not open fails.\<close>

definition fd_write :: "nat option \<Rightarrow> bytes \<Rightarrow> LogWorker \<Rightarrow> int \<times> LogWorker" where
  "fd_write res data w =
     (case lw_fd w of
        None \<Rightarrow> (- 1, w)
      | Some f \<Rightarrow> let (ret, f') = sys_write res data f in (ret, w\<lparr>lw_fd := Some f'\<rparr>))"

definition Flush :: "nat option \<Rightarrow> LogWorker \<Rightarrow> (int \<times> LogWorker) option" where
  "Flush res w =
     do { data \<leftarrow> (if lw_buffer_indice w < 0 then None else rd_bytes (nat (lw_buffer_indice w)) (lw_buffer w) 0);
          let (ret, w) = fd_write res data w
          in Some (if ret = - 1 then (ret, w) else (0, w\<lparr>lw_buffer_indice := 0\<rparr>)) }"

definition WriteLog :: "nat option \<Rightarrow> bytes \<Rightarrow> LogWorker \<Rightarrow> (bool \<times> LogWorker) option" where
  "WriteLog res data w =
     (if lw_sync_type w = 1 then
        let (ret, w) = fd_write res data w in Some (ret \<noteq> - 1, w)
      else do { (ret, w) \<leftarrow> (if int (length data) + lw_buffer_indice w > lw_buffer_size w then Flush res w else Some (0, w));
                if ret = - 1 then Some (False, w)
                else do { buffer \<leftarrow> memcpy (lw_buffer w) (nat (lw_buffer_indice w)) data;
                          Some (True, w\<lparr>lw_buffer := buffer\<rparr>) } })"

type_synonym log_slice = "bytes option \<times> nat"

definition WriteRecord :: "nat option \<Rightarrow> int \<Rightarrow> log_slice \<Rightarrow> log_slice \<Rightarrow> LogWorker \<Rightarrow> (int \<times> LogWorker) option" where
  "WriteRecord res cmd key value w =
     (let record = new_LogRecord\<lparr>lr_key := fst key, lr_key_length := int (snd key),
                                 lr_value := fst value, lr_value_length := int (snd value), lr_logcmd := cmd\<rparr>;
          ret_lsn = lw_lsn w + 1
      in do { (log_data, _) \<leftarrow> LogRecord_ToString (ComputeChecksum record);
              (write_ret, w) \<leftarrow> WriteLog res log_data w;
              let ret_lsn = (if write_ret then ret_lsn else - 1)
              in Some (ret_lsn, w\<lparr>lw_lsn := ret_lsn\<rparr>) })"

definition LogWorker_Update :: "nat option \<Rightarrow> log_slice \<Rightarrow> hash \<Rightarrow> LogWorker \<Rightarrow> (int \<times> LogWorker) option" where
  "LogWorker_Update res branch_name new_version = WriteRecord res kUpdate branch_name (new_version, kByteLength)"

definition LogWorker_Rename :: "nat option \<Rightarrow> log_slice \<Rightarrow> log_slice \<Rightarrow> LogWorker \<Rightarrow> (int \<times> LogWorker) option" where
  "LogWorker_Rename res branch_name new_branch_name = WriteRecord res kRename branch_name new_branch_name"

definition LogWorker_Remove :: "nat option \<Rightarrow> log_slice \<Rightarrow> LogWorker \<Rightarrow> (int \<times> LogWorker) option" where
  "LogWorker_Remove res branch_name = WriteRecord res kRemove branch_name (None, 0)"

text \<open>
  One turn of the loop of the thread: a flush when the wait times out.

  A read that stops at the end of the file leaves the rest of its buffer as it was.  The length is
  0 from the start, and with a length below 8 the second read asks for more than any buffer holds.
\<close>

definition Run_turn :: "bool \<Rightarrow> nat option \<Rightarrow> LogWorker \<Rightarrow> LogWorker option" where
  "Run_turn timed_out res w = (if timed_out then map_option snd (Flush res w) else Some w)"

definition ReadOneLogRecord :: "LogWorker \<Rightarrow> (LogRecord \<times> LogWorker) option" where
  "ReadOneLogRecord w =
     do { f \<leftarrow> lw_fd w;
          let (len, f) = sys_read 8 f;
              data_length = dec 8 (le_val (len @ replicate (8 - length len) 0))
          in do { CHECK (data_length \<ge> 8);
                  let (log_data, f) = sys_read (nat (data_length - 8)) f
                  in do { r \<leftarrow> LogRecord_FromString log_data; Some (r, w\<lparr>lw_fd := Some f\<rparr>) } } }"

section \<open>The thread\<close>

text \<open>The results of the thread library are arguments; 0 is success.\<close>

record LogThread =
  m_running :: int
  m_detached :: int

definition new_LogThread :: LogThread where
  "new_LogThread = \<lparr>m_running = 0, m_detached = 0\<rparr>"

definition Thread_Start :: "int \<Rightarrow> LogThread \<Rightarrow> int \<times> LogThread" where
  "Thread_Start created t = (created, if created = 0 then t\<lparr>m_running := 1\<rparr> else t)"

definition Thread_Join :: "int \<Rightarrow> LogThread \<Rightarrow> int \<times> LogThread" where
  "Thread_Join joined t =
     (let tmpret = (if m_running t = 1 then joined else - 1)
      in (tmpret, if tmpret = 0 then t\<lparr>m_detached := 1\<rparr> else t))"

definition Thread_Detach :: "int \<Rightarrow> LogThread \<Rightarrow> int \<times> LogThread" where
  "Thread_Detach detached t =
     (if m_running t = 1 \<and> m_detached t = 0
      then (detached, if detached = 0 then t\<lparr>m_detached := 1\<rparr> else t)
      else (- 1, t))"

datatype thread_call = pthread_detach | pthread_cancel

definition Thread_destroy :: "LogThread \<Rightarrow> thread_call list" where
  "Thread_destroy t = (if m_running t = 1 \<and> m_detached t = 0 then [pthread_detach] else []) @
                      (if m_running t = 1 then [pthread_cancel] else [])"

text \<open>A thread that has ended and was joined is cancelled all the same.\<close>

lemma joined_thread_cancelled:
  "Thread_destroy (snd (Thread_Join 0 (snd (Thread_Start 0 new_LogThread)))) = [pthread_cancel]"
  by (simp add: Thread_destroy_def Thread_Join_def Thread_Start_def new_LogThread_def)

section \<open>Encoding\<close>

lemma length_enc [simp]: "length (enc k x) = k"
  by (simp add: enc_def)

lemma dec_enc: "- (256 ^ k) \<le> 2 * x \<Longrightarrow> 2 * x < 256 ^ k \<Longrightarrow> dec k (le_val (enc k x)) = x"
proof -
  assume a: "- (256 ^ k) \<le> 2 * x" "2 * x < 256 ^ k"
  have lt: "nat (x mod 256 ^ k) < 256 ^ k"
    by (simp add: nat_less_iff)
  have v: "int (le_val (enc k x)) = x mod 256 ^ k"
    using lt by (simp add: enc_def)
  have c: "2 * n < 256 ^ k \<longleftrightarrow> 2 * int n < 256 ^ k" for n :: nat
    using of_nat_less_iff [of "2 * n" "256 ^ k", where ?'a = int] by simp
  show ?thesis
  proof (cases "0 \<le> x")
    case True
    then have "x mod 256 ^ k = x" using a by simp
    then show ?thesis using v a by (simp add: dec_def c)
  next
    case False
    have "(x + 256 ^ k) mod 256 ^ k = x + 256 ^ k"
      by (rule mod_pos_pos_trivial) (use a False in auto)
    then have "x mod 256 ^ k = x + 256 ^ k" by simp
    then show ?thesis using v a False by (simp add: dec_def c)
  qed
qed

lemma rd_enc: "rd k (enc k x @ post) 0 = Some (le_val (enc k x))"
  by (simp add: rd_def rd_bytes_def)

lemma rd_enc_skip: "rd k (pre @ enc k x @ post) (length pre) = Some (le_val (enc k x))"
  by (simp add: rd_def rd_bytes_def)

text \<open>The bytes of a record with the given command, key and value, and the record they read as.\<close>

definition rec_sum :: "bytes \<Rightarrow> bytes \<Rightarrow> int" where
  "rec_sum k v = 12 + int (length k) - int (length v)"

definition rec_tail :: "int \<Rightarrow> bytes \<Rightarrow> bytes \<Rightarrow> bytes" where
  "rec_tail cmd k v = enc 8 (rec_sum k v) @ enc 2 1 @ enc 2 cmd @ enc 8 0 @
     enc 8 (int (length k)) @ enc 8 (int (length v)) @ k @ v"

definition rec_len :: "bytes \<Rightarrow> bytes \<Rightarrow> nat" where
  "rec_len k v = 44 + length k + length v"

definition rec_of :: "int \<Rightarrow> bytes \<Rightarrow> bytes \<Rightarrow> LogRecord" where
  "rec_of cmd k v = \<lparr>lr_checksum = rec_sum k v, lr_version = 1, lr_logcmd = cmd, lr_lsn = 0,
     lr_key = (if k = [] then None else Some k), lr_value = (if v = [] then None else Some v),
     lr_key_length = int (length k), lr_value_length = int (length v), lr_data_length = int (rec_len k v)\<rparr>"

lemma length_rec_tail [simp]: "length (rec_tail cmd k v) = rec_len k v - 8"
  by (simp add: rec_tail_def rec_len_def)

lemma read_field_ok: "length k < 2 ^ 62 \<Longrightarrow> length pre = pos \<Longrightarrow>
    read_field (pre @ k @ post) (int (length k)) pos = Some (if k = [] then None else Some k, pos + length k)"
  by (auto simp: read_field_def rd_bytes_def)

lemma FromString_tail:
  assumes "rec_len k v < 2 ^ 62" and "cmd \<in> {kUpdate, kRename, kRemove}"
  shows "LogRecord_FromString (rec_tail cmd k v) = Some (rec_of cmd k v)"
proof -
  let ?t = "rec_tail cmd k v"
  have r: "rd 8 ?t 0 = Some (le_val (enc 8 (rec_sum k v)))" "rd 2 ?t 8 = Some (le_val (enc 2 1))"
    "rd 2 ?t 10 = Some (le_val (enc 2 cmd))" "rd 8 ?t 12 = Some (le_val (enc 8 0))"
    "rd 8 ?t 20 = Some (le_val (enc 8 (int (length k))))" "rd 8 ?t 28 = Some (le_val (enc 8 (int (length v))))"
    by (simp_all add: rec_tail_def rd_def rd_bytes_def)
  have d: "dec 8 (le_val (enc 8 (rec_sum k v))) = rec_sum k v" "dec 2 (le_val (enc 2 1)) = 1"
    "dec 2 (le_val (enc 2 cmd)) = cmd" "dec 8 (le_val (enc 8 0)) = 0"
    "dec 8 (le_val (enc 8 (int (length k)))) = int (length k)"
    "dec 8 (le_val (enc 8 (int (length v)))) = int (length v)"
    using assms by (auto intro!: dec_enc simp: rec_len_def rec_sum_def kUpdate_def kRename_def kRemove_def)
  define h where "h = enc 8 (rec_sum k v) @ enc 2 1 @ enc 2 cmd @ enc 8 0 @ enc 8 (int (length k)) @ enc 8 (int (length v))"
  have t: "?t = h @ k @ v" "?t = (h @ k) @ v @ []" and h: "length h = 36"
    by (simp_all add: rec_tail_def h_def)
  have k: "read_field ?t (int (length k)) 36 = Some (if k = [] then None else Some k, 36 + length k)"
    unfolding t(1) by (rule read_field_ok) (use assms h in \<open>auto simp: rec_len_def\<close>)
  have v: "read_field ?t (int (length v)) (36 + length k) = Some (if v = [] then None else Some v, 36 + length k + length v)"
    unfolding t(2) by (rule read_field_ok) (use assms h in \<open>auto simp: rec_len_def\<close>)
  show ?thesis
    unfolding LogRecord_FromString_def by (simp add: r d k v rec_of_def rec_len_def)
qed

section \<open>Runs\<close>

datatype log_op = LUpdate log_slice hash | LRename log_slice log_slice | LRemove log_slice

fun log_do :: "nat option \<Rightarrow> log_op \<Rightarrow> LogWorker \<Rightarrow> (int \<times> LogWorker) option" where
  "log_do res (LUpdate b ver) w = LogWorker_Update res b ver w"
| "log_do res (LRename b b') w = LogWorker_Rename res b b' w"
| "log_do res (LRemove b) w = LogWorker_Remove res b w"

text \<open>Calls in a row, each with the result of its write; the numbers that they return.\<close>

fun log_run :: "(nat option \<times> log_op) list \<Rightarrow> LogWorker \<Rightarrow> (int list \<times> LogWorker) option" where
  "log_run [] w = Some ([], w)"
| "log_run ((res, op) # ops) w =
     do { (lsn, w) \<leftarrow> log_do res op w; (lsns, w) \<leftarrow> log_run ops w; Some (lsn # lsns, w) }"

fun read_log :: "nat \<Rightarrow> LogWorker \<Rightarrow> (LogRecord list \<times> LogWorker) option" where
  "read_log 0 w = Some ([], w)"
| "read_log (Suc n) w = do { (r, w) \<leftarrow> ReadOneLogRecord w; (rs, w) \<leftarrow> read_log n w; Some (r # rs, w) }"

text \<open>A command with its key and value.  Calls are as intended when the pointers are valid and a version is given.\<close>

definition field_bytes :: "log_slice \<Rightarrow> bytes" where
  "field_bytes s = (case fst s of None \<Rightarrow> [] | Some p \<Rightarrow> take (snd s) p)"

definition field_ok :: "log_slice \<Rightarrow> bool" where
  "field_ok s \<longleftrightarrow> (case fst s of None \<Rightarrow> snd s = 0 | Some p \<Rightarrow> snd s \<le> length p)"

fun op_cmd :: "log_op \<Rightarrow> int" where
  "op_cmd (LUpdate _ _) = kUpdate" | "op_cmd (LRename _ _) = kRename" | "op_cmd (LRemove _) = kRemove"

fun op_key :: "log_op \<Rightarrow> log_slice" where
  "op_key (LUpdate b _) = b" | "op_key (LRename b _) = b" | "op_key (LRemove b) = b"

fun op_value :: "log_op \<Rightarrow> log_slice" where
  "op_value (LUpdate _ ver) = (ver, kByteLength)" | "op_value (LRename _ b') = b'" | "op_value (LRemove _) = (None, 0)"

definition op_record :: "log_op \<Rightarrow> LogRecord" where
  "op_record op = rec_of (op_cmd op) (field_bytes (op_key op)) (field_bytes (op_value op))"

definition op_bytes :: "log_op \<Rightarrow> bytes" where
  "op_bytes op = (let k = field_bytes (op_key op); v = field_bytes (op_value op)
                  in enc 8 (int (rec_len k v)) @ rec_tail (op_cmd op) k v)"

definition op_ok :: "log_op \<Rightarrow> bool" where
  "op_ok op \<longleftrightarrow> field_ok (op_key op) \<and> field_ok (op_value op) \<and> length (op_bytes op) < 2 ^ 62"

lemma log_do_eq: "log_do res op = WriteRecord res (op_cmd op) (op_key op) (op_value op)"
  by (cases op) (simp_all add: fun_eq_iff LogWorker_Update_def LogWorker_Rename_def LogWorker_Remove_def)

lemma length_op_bytes: "length (op_bytes op) = rec_len (field_bytes (op_key op)) (field_bytes (op_value op))"
  by (simp add: op_bytes_def rec_len_def Let_def)

lemma append_slice: "field_ok s \<Longrightarrow> append_field (fst s) (int (snd s)) = Some (field_bytes s)"
  by (auto simp: append_field_def field_ok_def field_bytes_def rd_bytes_def split: option.splits)

lemma append_null [simp]: "append_field None n = Some []"
  by (simp add: append_field_def)

lemma length_slice: "field_ok s \<Longrightarrow> length (field_bytes s) = snd s"
  by (auto simp: field_ok_def field_bytes_def split: option.splits)

lemma ToString_slices:
  assumes "field_ok k" "field_ok v"
  shows "\<exists>r. LogRecord_ToString (ComputeChecksum (new_LogRecord\<lparr>lr_key := fst k, lr_key_length := int (snd k),
      lr_value := fst v, lr_value_length := int (snd v), lr_logcmd := cmd\<rparr>)) =
    Some (enc 8 (int (rec_len (field_bytes k) (field_bytes v))) @ rec_tail cmd (field_bytes k) (field_bytes v), r)"
  using assms
  by (simp add: LogRecord_ToString_def ComputeChecksum_def new_LogRecord_def append_slice length_slice Let_def
      rec_tail_def rec_len_def rec_sum_def ac_simps)

lemma log_do_WriteLog: "op_ok op \<Longrightarrow> log_do res op w =
    do { (ok, w') \<leftarrow> WriteLog res (op_bytes op) w;
         let n = (if ok then lw_lsn w + 1 else - 1) in Some (n, w'\<lparr>lw_lsn := n\<rparr>) }"
  using ToString_slices [of "op_key op" "op_value op" "op_cmd op"]
  by (auto simp: log_do_eq WriteRecord_def op_ok_def op_bytes_def Let_def)

text \<open>Consecutive numbers.\<close>

fun lsns :: "int \<Rightarrow> nat \<Rightarrow> int list" where
  "lsns n 0 = []"
| "lsns n (Suc k) = (n + 1) # lsns (n + 1) k"

subsection \<open>The default: records stay in the buffer\<close>

text \<open>In every call the buffer is filled from its start.\<close>

lemma WriteLog_weak:
  assumes "lw_sync_type w = 0" "lw_buffer_indice w = 0" "int (length data) \<le> lw_buffer_size w"
    and "lw_buffer_size w \<le> int (length (lw_buffer w))"
  shows "\<exists>b. WriteLog res data w = Some (True, w\<lparr>lw_buffer := b\<rparr>) \<and> length b = length (lw_buffer w)"
proof -
  obtain b where "memcpy (lw_buffer w) 0 data = Some b"
    using assms by (simp add: memcpy_def)
  then show ?thesis using assms by (auto simp: WriteLog_def dest: length_memcpy)
qed

definition weak_ok :: "LogWorker \<Rightarrow> bool" where
  "weak_ok w \<longleftrightarrow> lw_sync_type w = 0 \<and> lw_buffer_indice w = 0 \<and> lw_buffer_size w \<le> int (length (lw_buffer w))"

lemma log_run_weak:
  assumes "weak_ok w" "\<forall>(res, op) \<in> set ops. op_ok op \<and> int (length (op_bytes op)) \<le> lw_buffer_size w"
  shows "\<exists>w'. log_run ops w = Some (lsns (lw_lsn w) (length ops), w') \<and> weak_ok w' \<and>
           lw_fd w' = lw_fd w \<and> lw_buffer_size w' = lw_buffer_size w"
  using assms
proof (induction ops arbitrary: w)
  case (Cons a ops)
  obtain res op where a: "a = (res, op)" by force
  have op: "op_ok op" "int (length (op_bytes op)) \<le> lw_buffer_size w" using Cons.prems a by auto
  obtain b where b: "WriteLog res (op_bytes op) w = Some (True, w\<lparr>lw_buffer := b\<rparr>)" "length b = length (lw_buffer w)"
    using WriteLog_weak [of w "op_bytes op" res] Cons.prems(1) op(2) by (auto simp: weak_ok_def)
  let ?w = "w\<lparr>lw_buffer := b, lw_lsn := lw_lsn w + 1\<rparr>"
  have "log_do res op w = Some (lw_lsn w + 1, ?w)"
    using op b by (simp add: log_do_WriteLog Let_def)
  moreover have "weak_ok ?w" using Cons.prems(1) b by (simp add: weak_ok_def)
  then obtain w' where "log_run ops ?w = Some (lsns (lw_lsn w + 1) (length ops), w')" "weak_ok w'"
      "lw_fd w' = lw_fd w" "lw_buffer_size w' = lw_buffer_size w"
    using Cons.IH [of ?w] Cons.prems(2) by auto
  ultimately show ?case
    by (simp add: a)
qed simp

lemma Run_turn_weak: "weak_ok w \<Longrightarrow> lw_fd w = Some f \<Longrightarrow> lf_pos f \<le> length (lf_bytes f) \<Longrightarrow> Run_turn timed_out res w = Some w"
  by (auto simp: weak_ok_def Run_turn_def Flush_def rd_bytes_def fd_write_def sys_write_def Let_def split: option.splits)


text \<open>C37. With the default synchronisation the log never reaches the disk.  For all calls of Update, Rename and
  Remove with records that fit into the buffer, the calls return the numbers 1, 2, 3 and so on, but
  the file stays as it was opened, and a flush by the thread at any time does nothing: WriteLog does
  not move \<open>buffer_indice_\<close>, so that each record is written over the one before and Flush writes 0 bytes.\<close>

theorem weak_log_lost:
  assumes "LogWorker_Init disk (new_LogWorker 0) = Some w"
    and "\<forall>(res, op) \<in> set ops. op_ok op \<and> int (length (op_bytes op)) \<le> kDefaultBufferSize"
  shows "\<exists>w'. log_run ops w = Some (lsns 0 (length ops), w') \<and> lw_fd w' = lw_fd w \<and>
           (\<forall>timed_out res. Run_turn timed_out res w' = Some w')"
proof -
  have w: "weak_ok w" "lw_buffer_size w = kDefaultBufferSize" "lw_lsn w = 0" "\<exists>f. lw_fd w = Some f \<and> lf_pos f = 0"
    using assms(1) by (auto simp: LogWorker_Init_def new_LogWorker_def weak_ok_def kDefaultBufferSize_def split: option.splits if_splits)
  then obtain f where f: "lw_fd w = Some f" "lf_pos f \<le> length (lf_bytes f)" by auto
  obtain w' where w': "log_run ops w = Some (lsns 0 (length ops), w')" "weak_ok w'" "lw_fd w' = lw_fd w"
    using log_run_weak [OF w(1), of ops] assms(2) w by auto
  show ?thesis
  proof (intro exI conjI allI)
    fix timed_out res
    show "Run_turn timed_out res w' = Some w'"
      by (rule Run_turn_weak [OF w'(2)]) (use f w'(3) in simp_all)
  qed (use w' in simp_all)
qed

definition ex_ops :: "(nat option \<times> log_op) list" where
  "ex_ops = [(Some 100, LUpdate (Some [1, 2], 2) (Some (replicate 20 7))), (Some 100, LRename (Some [1, 2], 2) (Some [3], 1)),
             (Some 100, LRemove (Some [3], 1))]"

lemma ex_ops_ok: "\<forall>(res, op) \<in> set ex_ops. op_ok op \<and> length (op_bytes op) \<le> 100 \<and> res = Some 100"
  by (simp add: ex_ops_def op_ok_def length_op_bytes rec_len_def field_bytes_def field_ok_def kByteLength_def)

lemma ex_ops_default: "\<forall>(res, op) \<in> set ex_ops. op_ok op \<and> int (length (op_bytes op)) \<le> kDefaultBufferSize"
  using ex_ops_ok by (fastforce simp: kDefaultBufferSize_def)

theorem weak_log_lost_witness: "\<exists>w w'. LogWorker_Init None (new_LogWorker 0) = Some w \<and>
    log_run ex_ops w = Some ([1, 2, 3], w') \<and> map_option lf_bytes (lw_fd w') = Some []"
proof -
  obtain w where w: "LogWorker_Init None (new_LogWorker 0) = Some w" "map_option lf_bytes (lw_fd w) = Some []"
    by (simp add: LogWorker_Init_def new_LogWorker_def)
  obtain w' where w': "log_run ex_ops w = Some (lsns 0 (length ex_ops), w')" "lw_fd w' = lw_fd w"
    using weak_log_lost [OF w(1) ex_ops_default] by blast
  have "lsns 0 (length ex_ops) = [1, 2, 3]" by (simp add: ex_ops_def)
  then show ?thesis using w w' by auto
qed

subsection \<open>Strong synchronisation\<close>

definition full_write :: "nat option \<times> log_op \<Rightarrow> bool" where
  "full_write = (\<lambda>(res, op). op_ok op \<and> (\<exists>n. res = Some n \<and> length (op_bytes op) \<le> n))"

abbreviation run_bytes :: "(nat option \<times> log_op) list \<Rightarrow> bytes" where
  "run_bytes ops \<equiv> concat (map (\<lambda>a. op_bytes (snd a)) ops)"

text \<open>The records are written one behind the other, over what the file has there.\<close>

lemma log_run_strong:
  assumes "lw_sync_type w = 1" "list_all full_write ops" "lw_fd w = Some f" "lf_pos f \<le> length (lf_bytes f)"
  shows "\<exists>w' f'. log_run ops w = Some (lsns (lw_lsn w) (length ops), w') \<and> lw_fd w' = Some f' \<and>
     lf_bytes f' = take (lf_pos f) (lf_bytes f) @ run_bytes ops @ drop (lf_pos f + length (run_bytes ops)) (lf_bytes f)"
  using assms
proof (induction ops arbitrary: w f)
  case (Cons a ops)
  obtain n op where a: "a = (Some n, op)" "length (op_bytes op) \<le> n" "op_ok op"
    using Cons.prems(2) by (auto simp: full_write_def)
  let ?b = "op_bytes op" and ?p = "lf_pos f" and ?bs = "lf_bytes f"
  let ?f = "f\<lparr>lf_bytes := take ?p ?bs @ ?b @ drop (?p + length ?b) ?bs, lf_pos := ?p + length ?b\<rparr>"
  let ?w = "w\<lparr>lw_fd := Some ?f, lw_lsn := lw_lsn w + 1\<rparr>"
  have "log_do (Some n) op w = Some (lw_lsn w + 1, ?w)"
    using a Cons.prems by (simp add: log_do_WriteLog WriteLog_def fd_write_def sys_write_def Let_def)
  moreover obtain w' f' where "log_run ops ?w = Some (lsns (lw_lsn w + 1) (length ops), w')" "lw_fd w' = Some f'"
    "lf_bytes f' = take (lf_pos ?f) (lf_bytes ?f) @ run_bytes ops @ drop (lf_pos ?f + length (run_bytes ops)) (lf_bytes ?f)"
    using Cons.IH [of ?w ?f] Cons.prems by auto
  moreover have "take (lf_pos ?f) (lf_bytes ?f) = take ?p ?bs @ ?b"
    "drop (lf_pos ?f + m) (lf_bytes ?f) = drop (?p + length ?b + m) ?bs" for m
    using Cons.prems(4) by (simp_all add: ac_simps)
  ultimately show ?case
    using Cons.prems(4) by (simp add: a ac_simps)
qed simp

lemma sys_read_prefix: "drop (lf_pos f) (lf_bytes f) = d @ rest \<Longrightarrow> length d = n \<Longrightarrow>
    sys_read n f = (d, f\<lparr>lf_pos := lf_pos f + n\<rparr>)"
  by (simp add: sys_read_def Let_def)

lemma ReadOneLogRecord_op:
  assumes "op_ok op" "lw_fd w = Some f" "drop (lf_pos f) (lf_bytes f) = op_bytes op @ rest"
  shows "ReadOneLogRecord w = Some (op_record op, w\<lparr>lw_fd := Some (f\<lparr>lf_pos := lf_pos f + length (op_bytes op)\<rparr>)\<rparr>)"
proof -
  let ?k = "field_bytes (op_key op)" and ?v = "field_bytes (op_value op)"
  have len: "rec_len ?k ?v < 2 ^ 62" using assms(1) by (simp add: op_ok_def length_op_bytes)
  have ge: "8 \<le> rec_len ?k ?v" by (simp add: rec_len_def)
  have d: "dec 8 (le_val (enc 8 (int (rec_len ?k ?v)))) = int (rec_len ?k ?v)"
    using len by (intro dec_enc) auto
  have r: "LogRecord_FromString (rec_tail (op_cmd op) ?k ?v) = Some (op_record op)"
    unfolding op_record_def by (rule FromString_tail [OF len]) (cases op; simp)
  have b: "drop (lf_pos f) (lf_bytes f) = enc 8 (int (rec_len ?k ?v)) @ rec_tail (op_cmd op) ?k ?v @ rest"
    using assms(3) by (simp add: op_bytes_def Let_def)
  then have b2: "drop (lf_pos f + 8) (lf_bytes f) = rec_tail (op_cmd op) ?k ?v @ rest"
    by (metis (no_types, lifting) append_eq_conv_conj drop_drop length_enc add.commute)
  have s1: "sys_read 8 f = (enc 8 (int (rec_len ?k ?v)), f\<lparr>lf_pos := lf_pos f + 8\<rparr>)"
    by (rule sys_read_prefix [OF b]) simp
  have s2: "sys_read (rec_len ?k ?v - 8) (f\<lparr>lf_pos := lf_pos f + 8\<rparr>) =
      (rec_tail (op_cmd op) ?k ?v, f\<lparr>lf_pos := lf_pos f + rec_len ?k ?v\<rparr>)"
    using sys_read_prefix [of "f\<lparr>lf_pos := lf_pos f + 8\<rparr>"] b2 ge by simp
  have n: "nat (int (rec_len ?k ?v) - 8) = rec_len ?k ?v - 8" by simp
  show ?thesis
    using assms(2) ge by (simp add: ReadOneLogRecord_def s1 s2 d r n length_op_bytes)
qed

lemma read_log_ops:
  assumes "list_all full_write ops" "lw_fd w = Some f" "drop (lf_pos f) (lf_bytes f) = run_bytes ops"
  shows "\<exists>w' f'. read_log (length ops) w = Some (map (\<lambda>a. op_record (snd a)) ops, w') \<and> lw_fd w' = Some f' \<and>
           drop (lf_pos f') (lf_bytes f') = []"
  using assms
proof (induction ops arbitrary: w f)
  case (Cons a ops)
  let ?f = "f\<lparr>lf_pos := lf_pos f + length (op_bytes (snd a))\<rparr>"
  have "op_ok (snd a)" using Cons.prems(1) by (auto simp: full_write_def split: prod.splits)
  then have "ReadOneLogRecord w = Some (op_record (snd a), w\<lparr>lw_fd := Some ?f\<rparr>)"
    by (rule ReadOneLogRecord_op [OF _ Cons.prems(2)]) (use Cons.prems(3) in simp)
  moreover have "drop (lf_pos ?f) (lf_bytes ?f) = run_bytes ops"
  proof -
    have "drop (length (op_bytes (snd a))) (drop (lf_pos f) (lf_bytes f)) = run_bytes ops"
      unfolding Cons.prems(3) by simp
    then show ?thesis by (simp add: ac_simps)
  qed
  ultimately show ?case
    using Cons.IH [of "w\<lparr>lw_fd := Some ?f\<rparr>" ?f] Cons.prems(1) by fastforce
qed auto

text \<open>At the end of the log no length is read, and the process stops.\<close>

lemma ReadOneLogRecord_at_end:
  "lw_fd w = Some f \<Longrightarrow> drop (lf_pos f) (lf_bytes f) = [] \<Longrightarrow> ReadOneLogRecord w = None"
proof -
  assume a: "lw_fd w = Some f" "drop (lf_pos f) (lf_bytes f) = []"
  have "le_val (replicate 8 0) = 0" by (simp add: numeral_eq_Suc)
  then show ?thesis using a by (simp add: ReadOneLogRecord_def sys_read_def Let_def dec_def CHECK_def)
qed


text \<open>C25. With strong synchronisation and writes that succeed, every call of Update, Rename and Remove returns
  the next number, and a worker that opens the file of a new log for recovery reads back exactly these
  commands with their keys and values, in order.  One more read stops the process: the end of the log
  is not told from a damaged one.\<close>

theorem strong_log_replays:
  assumes "LogWorker_Init None (new_LogWorker 0) = Some w" and "list_all full_write ops"
  shows "\<exists>w1 f r r'. log_run ops (snd (setSyncType 1 w)) = Some (lsns 0 (length ops), w1) \<and> lw_fd w1 = Some f \<and>
           LogWorker_Init (Some (lf_bytes f)) (new_LogWorker 1) = Some r \<and>
           read_log (length ops) r = Some (map (\<lambda>a. op_record (snd a)) ops, r') \<and> ReadOneLogRecord r' = None"
proof -
  let ?w = "snd (setSyncType 1 w)" and ?e = "\<lparr>lf_bytes = [], lf_pos = 0\<rparr>"
  have w: "lw_sync_type ?w = 1" "lw_fd ?w = Some ?e" "lw_lsn ?w = 0"
    using assms(1) by (auto simp: LogWorker_Init_def new_LogWorker_def setSyncType_def)
  obtain w1 f where f: "log_run ops ?w = Some (lsns 0 (length ops), w1)" "lw_fd w1 = Some f" "lf_bytes f = run_bytes ops"
    using log_run_strong [OF w(1) assms(2) w(2)] w(3) by auto
  let ?f = "\<lparr>lf_bytes = lf_bytes f, lf_pos = 0\<rparr>"
  obtain r where r: "LogWorker_Init (Some (lf_bytes f)) (new_LogWorker 1) = Some r" "lw_fd r = Some ?f"
    by (simp add: LogWorker_Init_def new_LogWorker_def)
  obtain r' f' where "read_log (length ops) r = Some (map (\<lambda>a. op_record (snd a)) ops, r')" "lw_fd r' = Some f'"
      "drop (lf_pos f') (lf_bytes f') = []"
    using read_log_ops [OF assms(2) r(2)] f(3) by auto
  then show ?thesis using f r ReadOneLogRecord_at_end by blast
qed

theorem strong_log_replays_witness: "\<exists>w w1 f r r'. LogWorker_Init None (new_LogWorker 0) = Some w \<and>
    log_run ex_ops (snd (setSyncType 1 w)) = Some ([1, 2, 3], w1) \<and> lw_fd w1 = Some f \<and>
    LogWorker_Init (Some (lf_bytes f)) (new_LogWorker 1) = Some r \<and>
    read_log 3 r = Some ([rec_of 111 [1, 2] (replicate 20 7), rec_of 112 [1, 2] [3], rec_of 113 [3] []], r')"
proof -
  have ok: "list_all full_write ex_ops"
    using ex_ops_ok by (auto simp: list_all_iff full_write_def)
  have e: "length ex_ops = 3" "lsns 0 3 = [1, 2, 3]"
    "map (\<lambda>a. op_record (snd a)) ex_ops = [rec_of 111 [1, 2] (replicate 20 7), rec_of 112 [1, 2] [3], rec_of 113 [3] []]"
    by (simp_all add: ex_ops_def op_record_def field_bytes_def kByteLength_def kUpdate_def kRename_def kRemove_def
        numeral_3_eq_3)
  obtain w where w: "LogWorker_Init None (new_LogWorker 0) = Some w"
    by (simp add: LogWorker_Init_def new_LogWorker_def)
  show ?thesis using strong_log_replays [OF w ok] w unfolding e by blast
qed

subsection \<open>Failures\<close>

text \<open>After a write that fails the numbers start again: the next two calls return 0 and 1.\<close>

lemma lsn_repeats:
  assumes "lw_sync_type w = 1" "lw_fd w = Some f" "op_ok op"
  shows "map_option fst (log_run [(None, op), (Some n, op), (Some m, op)] w) = Some [- 1, 0, 1]"
  using assms by (simp add: log_do_WriteLog WriteLog_def fd_write_def sys_write_def Let_def)

text \<open>An update to an empty version announces 20 bytes that are not there.\<close>

lemma null_version_record:
  assumes "field_ok b" "lw_sync_type w = 1" "lw_fd w = Some \<lparr>lf_bytes = [], lf_pos = 0\<rparr>" "2 ^ 62 \<le> n"
    and "length (field_bytes b) < 2 ^ 60"
  shows "\<exists>w' f. LogWorker_Update (Some n) b None w = Some (lw_lsn w + 1, w') \<and> lw_fd w' = Some f \<and>
           length (lf_bytes f) = 44 + length (field_bytes b)"
  using assms
  by (simp add: LogWorker_Update_def WriteRecord_def LogRecord_ToString_def ComputeChecksum_def new_LogRecord_def
      append_slice WriteLog_def fd_write_def sys_write_def Let_def)

end
