(* ===== verification/Spec2Isabelle.thy ===== *)
theory Spec2Isabelle
  imports Cursor_Steps Long_Keys Hash_Base32 Key_Compare Node_Merger Chunk_Cluster Client_Threads
    Sha2 Murmur Recovery
begin

text \<open>
  A verification of the storage engine of ForkBase (namespace \<open>ustore\<close>).

  ForkBase keeps versioned objects in a store of immutable chunks, each found under the hash of
  its bytes.  A large object is a POS-tree: a sequence of entries is cut into leaf chunks where a
  rolling hash of the content says so, the meta entries of the leaves are cut into meta nodes in
  the same way, and so on up to a root, whose hash names the object.  A version is a cell that
  holds a key, a value or the root of one, and the hashes of its predecessors.  The worker writes
  cells and keeps, for each key, a table of branches and of latest versions.

  \<^bold>\<open>The model.\<close>  A byte is an \<open>8 word\<close>, a pointer is the list of bytes that can be read from it, and
  \<open>size_t\<close> is \<open>nat\<close> with the wrap-around written out where a subtraction or a narrowing conversion
  can wrap.  A failed \<open>CHECK\<close>, a fatal log entry, an uncaught exception and an access outside a
  buffer are \<open>None\<close>; error codes are values.  A store and a loader are partial maps from hashes to
  chunks.  The digest \<open>hf\<close> is a parameter, because the build chooses it, of which \<open>digest_ok\<close> says
  that it has 20 bytes; \<open>Sha2\<close> has the one of the sources, which satisfies it.  Theorems that find written chunks again assume that \<open>hf\<close> gives different
  chunks of the trees in question different hashes.  The protocol messages of the head file are
  parameters that read back what they write, and \<open>std::sort\<close> is a parameter that sorts.

  \<^bold>\<open>The theories,\<close> from the bottom up, with the files they translate:
  \<^item> \<open>Prelude\<close>: bytes, little-endian integers, reads within a buffer, checks.
  \<^item> \<open>Rolling_Hash\<close> (\<^verbatim>\<open>include/hash/buzhash.h\<close>, \<^verbatim>\<open>src/node/rolling_hash.cc\<close>): the cyclic
    polynomial on 32-bit words and the boundary test.  Its state is a function of the last window
    of bytes; a boundary depends only on the bytes since the last one, and comes within the bounds.
  \<^item> \<open>Segments\<close> (\<^verbatim>\<open>src/chunk/segment.cc\<close>): runs of entries, their prolonging and splitting.
    \<open>seg_rep\<close> relates a segment to its list of entries.
  \<^item> \<open>Chunks\<close>, \<open>Framing\<close> (\<^verbatim>\<open>include/chunk/chunk.h\<close>, \<^verbatim>\<open>src/node/node.cc\<close>,
    \<^verbatim>\<open>src/node/orderedkey.cc\<close>): layout of chunks, ordered keys and meta entries.
  \<^item> \<open>Map_Node\<close>, \<open>Set_Node\<close>, \<open>List_Node\<close>, \<open>Meta_Node\<close>, \<open>Seq_Node\<close> (the files of these names under
    \<^verbatim>\<open>src/node\<close>, and \<^verbatim>\<open>blob_node.cc\<close>): chunkers and readers; \<open>node_rep\<close> relates a node to its
    entries.
  \<^item> \<open>Cursor\<close> (\<^verbatim>\<open>src/node/cursor.cc\<close>): a cursor is the list of its frames, node and index, from
    the leaf up.
  \<^item> \<open>Pos_Tree\<close>, \<open>Cursor_Steps\<close>: the tree that chunks stand for (\<open>ptree\<close>), its invariant
    \<open>tree_wf\<close>, and what the cursor does on it.
  \<^item> \<open>Node_Builder\<close>, \<open>Advanced_Builder\<close> (\<^verbatim>\<open>src/node/node_builder.cc\<close>): a builder is the list of
    its levels.  \<open>Chunking\<close> shows that the loops of a commit cut as the reference \<open>chop\<close> does, for
    any chunker that satisfies the locale \<open>chunk_level\<close>, which is interpreted for leaves and for
    meta nodes; \<open>Build_Tree\<close> that committing a new builder gives the reference tree \<open>tree_of\<close>;
    \<open>Long_Keys\<close> that it does not end when keys are too long.
  \<^item> \<open>Tree_Levels\<close>, \<open>Key_Search\<close>, \<open>Splice_Level\<close>, \<open>Tree_Splice\<close>: a tree as the list of its levels and a
    cursor as a position in the lowest one; the searches by index and by key in these terms; and
    that editing a stored tree and committing gives the tree of the edited sequence, level by
    level, with the old nodes in front of and behind the edit taken over.
  \<^item> \<open>Cell\<close> (\<^verbatim>\<open>src/node/cell_node.cc\<close>, \<^verbatim>\<open>src/types/ucell.cc\<close>), \<open>Hash_Base32\<close>
    (\<^verbatim>\<open>src/hash/hash.cc\<close>): cells, and the printed form of hashes.
  \<^item> \<open>Sha2\<close> (\<^verbatim>\<open>include/hash/sha2.h\<close>): the digest of a build without a cryptographic library, word by
    word, with the table of round constants as an argument, and that it is the construction of the
    standard, which is stated as a function of the message.  \<open>Murmur\<close>
    (\<^verbatim>\<open>src/hash/murmurhash3.cc\<close>): the hash of slices in unordered maps; keys of one length up to four
    bytes do not collide.
  \<^item> \<open>Head_Version\<close> (\<^verbatim>\<open>src/worker/simple_head_version.cc\<close>): branches and latest versions, as
    association lists; the locale \<open>head_table\<close> states what the worker relies on.
  \<^item> \<open>Chunkable\<close>, \<open>Server_Types\<close> (\<^verbatim>\<open>src/types\<close>): blobs, lists, maps and sets, their readers,
    iterators and updates.  \<open>Store_Growth\<close>: writers only add chunks, and writers of values no
    cells.  \<open>Typed_Objects\<close>: what the
    types read and write, in terms of finite maps, lists and byte sequences.
  \<^item> \<open>Node_Comparator\<close>, \<open>Chunkable_Diff\<close>, \<open>Node_Merger\<close> (\<^verbatim>\<open>include/node/node_comparator.h\<close>,
    \<^verbatim>\<open>src/node/node_comparator.cc\<close>, \<^verbatim>\<open>include/node/node_merger.h\<close>, \<^verbatim>\<open>include/types/uiterator.h\<close>):
    differences, intersections, mappings by key and by edit distance, and three-way merges.
    \<open>Key_Compare\<close> shows that the ranges of differences and intersections by key are exact, for any
    traverser that satisfies the locale \<open>key_traverser\<close>, of which both traversers are
    interpretations, and that \<open>next\<close> walks over these ranges in trees of height at most one.
    \<open>Node_Merger\<close> shows that a merge of maps of one leaf does not notice conflicting values.
  \<^item> \<open>Worker\<close> (\<^verbatim>\<open>src/worker/worker.cc\<close>): the operations on versions and branches, as
    transitions \<open>worker_step\<close> of a state of a store and a head table.  A step commits no cell, or
    writes one cell and updates the latest versions by it (\<open>step_shape\<close>).
  \<^item> \<open>Lst_Store\<close> (\<^verbatim>\<open>src/store/lst_store.cc\<close>): the log-structured store behind the worker, on an
    image of its file.  \<open>Lst_Log\<close> has its invariant, which relates the image to the chunks of each
    segment, and that every operation keeps it; \<open>Lst_Runs\<close> has the runs of a store, with the
    thread that enlarges the log and with restarts, and puts the worker on top of it (\<open>served\<close>).
  \<^item> \<open>Messages\<close>, \<open>Cluster\<close> (\<^verbatim>\<open>src/proto/messages.proto\<close>, \<^verbatim>\<open>src/cluster\<close>): messages as records, the calls
    of a client as a datatype with the request each sends and what it makes of the response, the
    handlers of the worker service, routing, and streams in parts.  \<open>Digests\<close>: the worker returns
    hashes of 20 bytes.  \<open>Remote\<close>: a call over the network is a call of the worker.
    \<open>Client_Threads\<close> (\<^verbatim>\<open>src/cluster/client_service.cc\<close>): clients at the same time, as an interleaving
    of steps \<open>net_run\<close>; the invariant \<open>net_ok\<close> says where the message of a waiting client is.
  \<^item> \<open>Chunk_Access\<close> (\<^verbatim>\<open>src/chunk/chunk_loader.cc\<close>, \<^verbatim>\<open>src/chunk/chunk_writer.cc\<close>,
    \<^verbatim>\<open>src/cluster/chunk_service.cc\<close>, \<^verbatim>\<open>src/cluster/chunk_client.cc\<close>): loaders, writers and the service
    for chunks, over any store.  \<open>Chunk_Cluster\<close>: the locale \<open>chunk_store\<close> states what a store
    promises, and is interpreted for the log-structured store; the stores of all nodes together
    satisfy it again (\<open>cluster\<close>).
  \<^item> \<open>Recovery\<close> (\<^verbatim>\<open>src/recovery\<close>): the records of the recovery log, the worker that writes and reads
    them, with the results of system calls as arguments, and its thread.  No other part uses it.

  \<^bold>\<open>Loops.\<close>  The descents of a cursor, the loop over nodes behind a cursor, the recursion over levels
  and the loops over the segments and chunks of a log are \<open>partial_function (option)\<close>, without fuel: not ending is \<open>None\<close>, and the theorems
  about builders and cursors state that there is a result.

  The store under a worker is a map in which a put replaces what the hash had, while the log keeps the
  first chunk of a hash; the two differ only for different chunks of the same digest.

  The message library is a parameter of these theories, a pair of functions of which \<open>wire_ok\<close> says
  that one reads back what the other writes.

  \<^bold>\<open>Not modelled:\<close> the databases that can stand behind the store and the head table instead of the
  ones here (build options that are off by default, thin wrappers of libraries), the
  handles of clients, sockets, event loops and HTTP (input and output), the numbers in the table of
  round constants of SHA-256, the command line and the applications on top.
\<close>

end
